(* ===== verification/Netip.thy ===== *)
theory Netip
  imports Go_Prelude
begin

text \<open>
  The addresses and prefixes of Go's package net/netip, as far as the modelled packages use
  them. An address is invalid (the zero \<open>netip.Addr\<close>), an IPv4 address, or an IPv6 address
  with a zone (the empty string for none). \<open>ParseAddr\<close> and \<open>ParsePrefix\<close> return
  \<^const>\<open>None\<close> where the library returns an error.
\<close>

section \<open>Addresses\<close>

datatype Addr = AddrInvalid | Addr4 u32 | Addr6 "128 word" string

fun IsValid :: "Addr \<Rightarrow> bool" where
  "IsValid AddrInvalid = False"
| "IsValid (Addr4 w) = True"
| "IsValid (Addr6 w z) = True"

fun Is4 :: "Addr \<Rightarrow> bool" where
  "Is4 (Addr4 w) = True"
| "Is4 AddrInvalid = False"
| "Is4 (Addr6 w z) = False"

fun Is6 :: "Addr \<Rightarrow> bool" where
  "Is6 (Addr6 w z) = True"
| "Is6 AddrInvalid = False"
| "Is6 (Addr4 w) = False"

fun Is4In6 :: "Addr \<Rightarrow> bool" where
  "Is4In6 (Addr6 w z) = (drop_bit 32 w = 0xFFFF)"
| "Is4In6 AddrInvalid = False"
| "Is4In6 (Addr4 w) = False"

fun BitLen :: "Addr \<Rightarrow> nat" where
  "BitLen AddrInvalid = 0"
| "BitLen (Addr4 w) = 32"
| "BitLen (Addr6 w z) = 128"

fun Unmap :: "Addr \<Rightarrow> Addr" where
  "Unmap (Addr6 w z) = (if drop_bit 32 w = 0xFFFF then Addr4 (ucast w) else Addr6 w z)"
| "Unmap AddrInvalid = AddrInvalid"
| "Unmap (Addr4 w) = Addr4 w"

fun WithZone :: "Addr \<Rightarrow> string \<Rightarrow> Addr" where
  "WithZone (Addr6 w z) z' = Addr6 w z'"
| "WithZone AddrInvalid z' = AddrInvalid"
| "WithZone (Addr4 w) z' = Addr4 w"

text \<open>The numeric value; the zone plays no part in it.\<close>

fun addr_val :: "Addr \<Rightarrow> int" where
  "addr_val AddrInvalid = 0"
| "addr_val (Addr4 w) = uint w"
| "addr_val (Addr6 w z) = uint w"

fun Zone :: "Addr \<Rightarrow> string" where
  "Zone (Addr6 w z) = z"
| "Zone AddrInvalid = []"
| "Zone (Addr4 w) = []"

fun str_less :: "string \<Rightarrow> string \<Rightarrow> bool" where
  "str_less [] [] = False"
| "str_less [] (d # t) = True"
| "str_less (c # s) [] = False"
| "str_less (c # s) (d # t) =
     ((of_char c :: int) < of_char d \<or> (c = d \<and> str_less s t))"

text \<open>\<open>Less\<close>: by bit length, then by value, then by zone.\<close>

definition Less :: "Addr \<Rightarrow> Addr \<Rightarrow> bool" where
  "Less a b =
     (if BitLen a \<noteq> BitLen b then BitLen a < BitLen b
      else if addr_val a \<noteq> addr_val b then addr_val a < addr_val b
      else str_less (Zone a) (Zone b))"

fun Next :: "Addr \<Rightarrow> Addr" where
  "Next AddrInvalid = AddrInvalid"
| "Next (Addr4 w) = (if w + 1 = 0 then AddrInvalid else Addr4 (w + 1))"
| "Next (Addr6 w z) = (if w + 1 = 0 then AddrInvalid else Addr6 (w + 1) z)"

fun Prev :: "Addr \<Rightarrow> Addr" where
  "Prev AddrInvalid = AddrInvalid"
| "Prev (Addr4 w) = (if w = 0 then AddrInvalid else Addr4 (w - 1))"
| "Prev (Addr6 w z) = (if w = 0 then AddrInvalid else Addr6 (w - 1) z)"

text \<open>The bytes of an address, most significant first.\<close>

fun AsSlice :: "Addr \<Rightarrow> u8 list" where
  "AsSlice AddrInvalid = []"
| "AsSlice (Addr4 w) = map (\<lambda>i. ucast (drop_bit (8 * i) w)) [3, 2, 1, 0]"
| "AsSlice (Addr6 w z) =
     map (\<lambda>i. ucast (drop_bit (8 * i) w)) [15, 14, 13, 12, 11, 10, 9, 8, 7, 6, 5, 4, 3, 2, 1, 0]"

section \<open>Classes of addresses\<close>

fun IsPrivate :: "Addr \<Rightarrow> bool" where
  "IsPrivate (Addr4 w) =
     (drop_bit 24 w = 10 \<or> drop_bit 20 w = 0xAC1 \<or> drop_bit 16 w = 0xC0A8)"
| "IsPrivate (Addr6 w z) =
     (if drop_bit 32 w = 0xFFFF
      then (drop_bit 24 (ucast w :: u32) = 10 \<or> drop_bit 20 (ucast w :: u32) = 0xAC1
            \<or> drop_bit 16 (ucast w :: u32) = 0xC0A8)
      else drop_bit 121 w = 0x7E)"
| "IsPrivate AddrInvalid = False"

definition IsUnspecified :: "Addr \<Rightarrow> bool" where
  "IsUnspecified a = (a = Addr4 0 \<or> a = Addr6 0 [])"

definition IsLoopback :: "Addr \<Rightarrow> bool" where
  "IsLoopback a = (case Unmap a of
     Addr4 w \<Rightarrow> drop_bit 24 w = 127
   | Addr6 w z \<Rightarrow> w = 1
   | AddrInvalid \<Rightarrow> False)"

definition IsMulticast :: "Addr \<Rightarrow> bool" where
  "IsMulticast a = (case Unmap a of
     Addr4 w \<Rightarrow> drop_bit 28 w = 14
   | Addr6 w z \<Rightarrow> drop_bit 120 w = 0xFF
   | AddrInvalid \<Rightarrow> False)"

definition IsLinkLocalUnicast :: "Addr \<Rightarrow> bool" where
  "IsLinkLocalUnicast a = (case Unmap a of
     Addr4 w \<Rightarrow> drop_bit 16 w = 0xA9FE
   | Addr6 w z \<Rightarrow> drop_bit 118 w = 0x3FA
   | AddrInvalid \<Rightarrow> False)"

section \<open>Prefixes\<close>

record Prefix =
  pfx_addr :: Addr
  pfx_bits :: nat

definition Masked :: "Prefix \<Rightarrow> Addr" where
  "Masked p = (case pfx_addr p of
     AddrInvalid \<Rightarrow> AddrInvalid
   | Addr4 w \<Rightarrow> Addr4 (push_bit (32 - pfx_bits p) (drop_bit (32 - pfx_bits p) w))
   | Addr6 w z \<Rightarrow> Addr6 (push_bit (128 - pfx_bits p) (drop_bit (128 - pfx_bits p) w)) [])"

text \<open>
  \<open>Prefix.Contains\<close>: the families must agree, and an address with a zone is in no prefix.
\<close>

fun PrefixContains :: "Prefix \<Rightarrow> Addr \<Rightarrow> bool" where
  "PrefixContains p (Addr4 v) = (case pfx_addr p of
     Addr4 w \<Rightarrow> drop_bit (32 - pfx_bits p) w = drop_bit (32 - pfx_bits p) v
   | _ \<Rightarrow> False)"
| "PrefixContains p (Addr6 v z) = (case pfx_addr p of
     Addr6 w _ \<Rightarrow> z = [] \<and> drop_bit (128 - pfx_bits p) w = drop_bit (128 - pfx_bits p) v
   | _ \<Rightarrow> False)"
| "PrefixContains p AddrInvalid = False"

section \<open>Parsing\<close>

definition parse_octet :: "string \<Rightarrow> int option" where
  "parse_octet s =
     (if length s > 1 \<and> hd s = CHR ''0'' then None
      else case ParseUint s 8 of None \<Rightarrow> None | Some n \<Rightarrow> Some n)"

definition parse_ipv4_fields :: "string \<Rightarrow> int option" where
  "parse_ipv4_fields s = (case map parse_octet (Split s (CHR ''.'')) of
     [Some a, Some b, Some c, Some d] \<Rightarrow> Some (((a * 256 + b) * 256 + c) * 256 + d)
   | _ \<Rightarrow> None)"

definition hex_val :: "char \<Rightarrow> int option" where
  "hex_val c = (let n = (of_char c :: int) in
     if 48 \<le> n \<and> n \<le> 57 then Some (n - 48)
     else if 97 \<le> n \<and> n \<le> 102 then Some (n - 87)
     else if 65 \<le> n \<and> n \<le> 70 then Some (n - 55)
     else None)"

definition is_hex :: "char \<Rightarrow> bool" where
  "is_hex c = (hex_val c \<noteq> None)"

definition hex_value :: "string \<Rightarrow> int" where
  "hex_value s = foldl (\<lambda>acc c. 16 * acc + (case hex_val c of None \<Rightarrow> 0 | Some d \<Rightarrow> d)) 0 s"

text \<open>
  The field loop of \<open>parseIPv6\<close>: the 16-bit groups read so far, the position of the ellipsis
  if one was seen, and the rest of the text. The first argument bounds the number of fields,
  as the loop's guard \<open>i < 16\<close> does.
\<close>

fun parse_ipv6_loop ::
  "nat \<Rightarrow> string \<Rightarrow> int list \<Rightarrow> nat option \<Rightarrow> (int list \<times> nat option \<times> string) option" where
  "parse_ipv6_loop 0 s gs el = Some (gs, el, s)"
| "parse_ipv6_loop (Suc n) s gs el =
     (let h = takeWhile is_hex s; r = dropWhile is_hex s in
      if h = [] \<or> length h > 4 then None
      else if r \<noteq> [] \<and> hd r = CHR ''.'' then
        (if (el = None \<and> length gs \<noteq> 6) \<or> length gs > 6 then None
         else case parse_ipv4_fields s of
           None \<Rightarrow> None
         | Some v \<Rightarrow> Some (gs @ [v div 65536, v mod 65536], el, []))
      else
        (let gs' = gs @ [hex_value h] in
         case r of
           [] \<Rightarrow> Some (gs', el, [])
         | c # r' \<Rightarrow>
             if c \<noteq> CHR '':'' \<or> r' = [] then None
             else if hd r' = CHR '':'' then
               (if el \<noteq> None then None
                else if tl r' = [] then Some (gs', Some (length gs'), [])
                else parse_ipv6_loop n (tl r') gs' (Some (length gs')))
             else parse_ipv6_loop n r' gs' el))"

definition groups_value :: "int list \<Rightarrow> int" where
  "groups_value gs = foldl (\<lambda>acc g. 65536 * acc + g) 0 gs"

definition finish_ipv6 :: "int list \<Rightarrow> nat option \<Rightarrow> string \<Rightarrow> int option" where
  "finish_ipv6 gs el rest =
     (if rest \<noteq> [] then None
      else if length gs < 8 then
        (case el of
           None \<Rightarrow> None
         | Some e \<Rightarrow> Some (groups_value (take e gs @ replicate (8 - length gs) 0 @ drop e gs)))
      else if el \<noteq> None then None
      else Some (groups_value gs))"

definition parse_ipv6 :: "string \<Rightarrow> Addr option" where
  "parse_ipv6 input =
     (let s = takeWhile (\<lambda>c. c \<noteq> CHR ''%'') input;
          z = dropWhile (\<lambda>c. c \<noteq> CHR ''%'') input;
          zone = tl z in
      if z \<noteq> [] \<and> zone = [] then None
      else
        (let zone = (if z = [] then [] else zone) in
         if take 2 s = ''::'' \<and> drop 2 s = [] then Some (Addr6 0 zone)
         else
           (case (if take 2 s = ''::'' then parse_ipv6_loop 8 (drop 2 s) [] (Some 0)
                  else parse_ipv6_loop 8 s [] None) of
              None \<Rightarrow> None
            | Some (gs, el, rest) \<Rightarrow>
                (case finish_ipv6 gs el rest of
                   None \<Rightarrow> None
                 | Some v \<Rightarrow> Some (Addr6 (word_of_int v) zone)))))"

text \<open>The first byte among dot, colon and percent sign decides the family.\<close>

definition ParseAddr :: "string \<Rightarrow> Addr option" where
  "ParseAddr s =
     (case filter (\<lambda>c. c \<in> {CHR ''.'', CHR '':'', CHR ''%''}) s of
        [] \<Rightarrow> None
      | c # _ \<Rightarrow>
          if c = CHR ''.'' then map_option (\<lambda>v. Addr4 (word_of_int v)) (parse_ipv4_fields s)
          else if c = CHR '':'' then parse_ipv6 s
          else None)"

definition ParsePrefix :: "string \<Rightarrow> Prefix option" where
  "ParsePrefix s =
     (let r = rev s;
          b = rev (takeWhile (\<lambda>c. c \<noteq> CHR ''/'') r);
          a = dropWhile (\<lambda>c. c \<noteq> CHR ''/'') r in
      if a = [] then None
      else case ParseAddr (rev (tl a)) of
        None \<Rightarrow> None
      | Some ip \<Rightarrow>
          if Is6 ip \<and> Zone ip \<noteq> [] then None
          else if length b > 1 \<and> hd b = CHR ''0'' then None
          else case ParseUint b 63 of
            None \<Rightarrow> None
          | Some n \<Rightarrow> if n > int (BitLen ip) then None else Some \<lparr>pfx_addr = ip, pfx_bits = nat n\<rparr>)"

section \<open>Printing\<close>

definition ipv4_string :: "u32 \<Rightarrow> string" where
  "ipv4_string w =
     Join (map (\<lambda>i. FormatUint (uint (ucast (drop_bit (8 * i) w) :: u8))) [3, 2, 1, 0]) ''.''"

definition hex_char :: "int \<Rightarrow> char" where
  "hex_char n = (if n < 10 then char_of (48 + n) else char_of (87 + n))"

function hex_string :: "int \<Rightarrow> string" where
  "hex_string n = (if n < 16 then [hex_char n] else hex_string (n div 16) @ [hex_char (n mod 16)])"
  by pat_completeness auto
termination
  by (relation "measure nat") auto

declare hex_string.simps [simp del]

definition ipv6_groups :: "128 word \<Rightarrow> int list" where
  "ipv6_groups w = map (\<lambda>i. uint (ucast (drop_bit (16 * i) w) :: u16)) [7, 6, 5, 4, 3, 2, 1, 0]"

text \<open>
  The longest run of zero groups of length at least two, the first one of that length:
  its start and its end (exclusive).
\<close>

fun best_run :: "nat \<Rightarrow> int list \<Rightarrow> nat \<times> nat \<Rightarrow> nat \<times> nat" where
  "best_run i [] best = best"
| "best_run i (g # gs) (zs, ze) =
     (let n = length (takeWhile (\<lambda>x. x = 0) (g # gs)) in
      if n \<ge> 2 \<and> n > ze - zs then best_run (Suc i) gs (i, i + n)
      else best_run (Suc i) gs (zs, ze))"

definition ipv6_string :: "128 word \<Rightarrow> string" where
  "ipv6_string w =
     (let gs = ipv6_groups w; (zs, ze) = best_run 0 gs (0, 0); hex = map hex_string gs in
      if ze = 0 then Join hex '':''
      else Join (take zs hex) '':'' @ ''::'' @ Join (drop ze hex) '':'')"

fun AddrString :: "Addr \<Rightarrow> string" where
  "AddrString AddrInvalid = ''invalid IP''"
| "AddrString (Addr4 w) = ipv4_string w"
| "AddrString (Addr6 w z) =
     (if drop_bit 32 w = 0xFFFF then ''::ffff:'' @ ipv4_string (ucast w) else ipv6_string w)
     @ (if z = [] then [] else CHR ''%'' # z)"

section \<open>Host and port\<close>

definition JoinHostPort :: "string \<Rightarrow> string \<Rightarrow> string" where
  "JoinHostPort host port =
     (if CHR '':'' \<in> set host then ''['' @ host @ '']:'' @ port else host @ '':'' @ port)"

text \<open>
  \<open>net.SplitHostPort\<close>: the port follows the last colon; a host with colons is in brackets.
\<close>

definition SplitHostPort :: "string \<Rightarrow> (string \<times> string) result" where
  "SplitHostPort hostport =
     (let r = rev hostport;
          port = rev (takeWhile (\<lambda>c. c \<noteq> CHR '':'') r);
          i = length hostport - length port - 1 in
      if CHR '':'' \<notin> set hostport then Inl ''missing port in address''
      else if hd hostport = CHR ''['' then
        (let e = length (takeWhile (\<lambda>c. c \<noteq> CHR '']'') hostport) in
         if e = length hostport then Inl ''missing ']' in address''
         else if e + 1 = length hostport then Inl ''missing port in address''
         else if e + 1 \<noteq> i then
           (if hostport ! (e + 1) = CHR '':'' then Inl ''too many colons in address''
            else Inl ''missing port in address'')
         else if CHR ''['' \<in> set (drop 1 hostport) then Inl ''unexpected '[' in address''
         else if CHR '']'' \<in> set (drop (e + 1) hostport) then Inl ''unexpected ']' in address''
         else Inr (drop 1 (take e hostport), port))
      else if CHR '':'' \<in> set (take i hostport) then Inl ''too many colons in address''
      else if CHR ''['' \<in> set hostport then Inl ''unexpected '[' in address''
      else if CHR '']'' \<in> set hostport then Inl ''unexpected ']' in address''
      else Inr (take i hostport, port))"

section \<open>Facts about addresses\<close>

lemma IsValid_Unmap [simp]: "IsValid (Unmap a) = IsValid a"
  by (cases a) auto

lemma drop_bit_ucast_32_zero: "drop_bit 32 (ucast (w :: u32) :: 128 word) = 0"
proof (rule bit_word_eqI)
  fix n
  show "bit (drop_bit 32 (ucast w :: 128 word)) n = bit (0 :: 128 word) n"
    using bit_imp_le_length[of w "32 + n"] by (auto simp: bit_simps)
qed

lemma Unmap_idem [simp]: "Unmap (Unmap a) = Unmap a"
  by (cases a) auto

lemma Unmap_Is4 [simp]: "Is4 a \<Longrightarrow> Unmap a = a"
  by (cases a) auto

lemma Unmap_not_4in6: "\<not> Is4In6 (Unmap a)"
  by (cases a) auto

lemma AsSlice_length: "length (AsSlice a) = BitLen a div 8"
  by (cases a) auto

lemma Less_irrefl [simp]: "\<not> Less a a"
proof -
  have "\<not> str_less s s" for s by (induction s) auto
  then show ?thesis by (simp add: Less_def)
qed

lemma Next_Some4: "Next (Addr4 w) \<noteq> AddrInvalid \<Longrightarrow> Next (Addr4 w) = Addr4 (w + 1)"
  by auto

lemma addr_val_Next: "IsValid (Next a) \<Longrightarrow> addr_val (Next a) = addr_val a + 1"
  by (cases a) (auto simp: uint_plus_one split: if_splits)

lemma BitLen_Next: "IsValid (Next a) \<Longrightarrow> BitLen (Next a) = BitLen a"
  by (cases a) (auto split: if_splits)

lemma IsValid_NextD: "IsValid (Next a) \<Longrightarrow> IsValid a"
  by (cases a) auto

lemma Zone_Next: "IsValid (Next a) \<Longrightarrow> Zone (Next a) = Zone a"
  by (cases a) (auto split: if_splits)

lemma Next_Prev: "IsValid (Prev a) \<Longrightarrow> Next (Prev a) = a"
  by (cases a) (auto split: if_splits)

lemma Addr_eqI:
  "BitLen a = BitLen b \<Longrightarrow> addr_val a = addr_val b \<Longrightarrow> Zone a = Zone b \<Longrightarrow> a = b"
  by (cases a; cases b) (auto simp: word_uint_eq_iff)

text \<open>\<open>AddrFromSlice\<close>: four or sixteen bytes make an address, any other number does not.\<close>

definition bytes_word :: "u8 list \<Rightarrow> 'a::len word" where
  "bytes_word bs = fold (\<lambda>b acc. push_bit 8 acc OR ucast b) bs 0"

definition AddrFromSlice :: "u8 list \<Rightarrow> Addr" where
  "AddrFromSlice bs =
     (if length bs = 4 then Addr4 (bytes_word bs)
      else if length bs = 16 then Addr6 (bytes_word bs) [] else AddrInvalid)"

lemma bytes_word_step:
  assumes "k + 8 \<le> LENGTH('a::len)"
  shows "push_bit 8 (drop_bit (k + 8) (w :: 'a word)) OR ucast (ucast (drop_bit k w) :: u8) = drop_bit k w"
proof (rule bit_word_eqI)
  fix n assume "n < LENGTH('a)"
  then show "bit (push_bit 8 (drop_bit (k + 8) w) OR ucast (ucast (drop_bit k w) :: u8)) n = bit (drop_bit k w) n"
    by (auto simp: bit_simps not_less le_add_diff_inverse2 add.assoc)
qed

lemma drop_bit_top: "drop_bit LENGTH('a::len) (w :: 'a word) = 0"
  by (rule bit_word_eqI) (auto simp: bit_simps)

lemma AddrFromSlice_AsSlice: "IsValid a \<Longrightarrow> Zone a = [] \<Longrightarrow> AddrFromSlice (AsSlice a) = a"
proof (cases a)
  case (Addr4 w)
  have "drop_bit 32 w = 0" using drop_bit_top [of w] by simp
  then show ?thesis
    using Addr4 bytes_word_step [of 24 w] bytes_word_step [of 16 w] bytes_word_step [of 8 w] bytes_word_step [of 0 w]
    by (simp add: AddrFromSlice_def bytes_word_def)
next
  case (Addr6 w z)
  assume "Zone a = []"
  have "drop_bit 128 w = 0" using drop_bit_top [of w] by simp
  then show ?thesis
    using Addr6 \<open>Zone a = []\<close> bytes_word_step [of 120 w] bytes_word_step [of 112 w] bytes_word_step [of 104 w] bytes_word_step [of 96 w]
     bytes_word_step [of 88 w] bytes_word_step [of 80 w] bytes_word_step [of 72 w] bytes_word_step [of 64 w]
     bytes_word_step [of 56 w] bytes_word_step [of 48 w] bytes_word_step [of 40 w] bytes_word_step [of 32 w]
     bytes_word_step [of 24 w] bytes_word_step [of 16 w] bytes_word_step [of 8 w] bytes_word_step [of 0 w]
    by (simp add: AddrFromSlice_def bytes_word_def)
qed simp

end
