(* ===== verification/Metadata.thy ===== *)
theory Metadata
  imports Netip
begin

text \<open>
  The vocabulary of the kernel (src/constant): the enumerations with their names, the record
  that describes one connection (\<open>constant.Metadata\<close>) and its methods, the tunnel's mode and
  status (src/tunnel/mode.go, status.go). Constructors that would clash with HOL or with one
  another carry a prefix: \<open>RT_\<close> for rule types and \<open>AT_\<close> for adapter types. The two fields
  \<open>RawSrcAddr\<close> and \<open>RawDstAddr\<close> of the record, which no modelled operation reads, are left
  out. An integer outside an enumeration (which Go prints as Unknown) is not a value here.
\<close>

section \<open>Enumerations\<close>

datatype AddrType = AtypIPv4 | AtypDomainName | AtypIPv6

fun AddrTypeString :: "AddrType \<Rightarrow> string" where
  "AddrTypeString AtypIPv4 = ''IPv4''"
| "AddrTypeString AtypDomainName = ''DomainName''"
| "AddrTypeString AtypIPv6 = ''IPv6''"

datatype NetWork = TCP | UDP | ALLNet | InvalidNet

fun NetWorkString :: "NetWork \<Rightarrow> string" where
  "NetWorkString TCP = ''tcp''"
| "NetWorkString UDP = ''udp''"
| "NetWorkString ALLNet = ''all''"
| "NetWorkString InvalidNet = ''invalid''"

datatype InboundType =
    HTTP | HTTPS | SOCKS4 | SOCKS5 | SHADOWSOCKS | SNELL | VMESS | VLESS | REDIR | TPROXY
    | TROJAN | TUNNEL | TUN | TUIC | HYSTERIA2 | ANYTLS | MIERU | SUDOKU | TRUSTTUNNEL
    | SHADOWQUIC | INNER

fun TypeString :: "InboundType \<Rightarrow> string" where
  "TypeString HTTP = ''HTTP''"
| "TypeString HTTPS = ''HTTPS''"
| "TypeString SOCKS4 = ''Socks4''"
| "TypeString SOCKS5 = ''Socks5''"
| "TypeString SHADOWSOCKS = ''ShadowSocks''"
| "TypeString SNELL = ''Snell''"
| "TypeString VMESS = ''Vmess''"
| "TypeString VLESS = ''Vless''"
| "TypeString REDIR = ''Redir''"
| "TypeString TPROXY = ''TProxy''"
| "TypeString TROJAN = ''Trojan''"
| "TypeString TUNNEL = ''Tunnel''"
| "TypeString TUN = ''Tun''"
| "TypeString TUIC = ''Tuic''"
| "TypeString HYSTERIA2 = ''Hysteria2''"
| "TypeString ANYTLS = ''AnyTLS''"
| "TypeString MIERU = ''Mieru''"
| "TypeString SUDOKU = ''Sudoku''"
| "TypeString TRUSTTUNNEL = ''TrustTunnel''"
| "TypeString SHADOWQUIC = ''ShadowQuic''"
| "TypeString INNER = ''Inner''"

definition ParseType :: "string \<Rightarrow> InboundType result" where
  "ParseType t =
     (if t = ''HTTP'' then Inr HTTP
      else if t = ''HTTPS'' then Inr HTTPS
      else if t = ''SOCKS4'' then Inr SOCKS4
      else if t = ''SOCKS5'' then Inr SOCKS5
      else if t = ''SHADOWSOCKS'' then Inr SHADOWSOCKS
      else if t = ''SNELL'' then Inr SNELL
      else if t = ''VMESS'' then Inr VMESS
      else if t = ''VLESS'' then Inr VLESS
      else if t = ''REDIR'' then Inr REDIR
      else if t = ''TPROXY'' then Inr TPROXY
      else if t = ''TROJAN'' then Inr TROJAN
      else if t = ''TUNNEL'' then Inr TUNNEL
      else if t = ''TUN'' then Inr TUN
      else if t = ''TUIC'' then Inr TUIC
      else if t = ''HYSTERIA2'' then Inr HYSTERIA2
      else if t = ''ANYTLS'' then Inr ANYTLS
      else if t = ''MIERU'' then Inr MIERU
      else if t = ''SUDOKU'' then Inr SUDOKU
      else if t = ''TRUSTTUNNEL'' then Inr TRUSTTUNNEL
      else if t = ''SHADOWQUIC'' then Inr SHADOWQUIC
      else if t = ''INNER'' then Inr INNER
      else Inl (''unknown type: '' @ t))"

datatype DNSMode = DNSNormal | DNSFakeIP | DNSMapping | DNSHosts

fun DNSModeString :: "DNSMode \<Rightarrow> string" where
  "DNSModeString DNSNormal = ''normal''"
| "DNSModeString DNSFakeIP = ''fake-ip''"
| "DNSModeString DNSMapping = ''redir-host''"
| "DNSModeString DNSHosts = ''hosts''"

definition DNSModeMapping :: "(string \<times> DNSMode) list" where
  "DNSModeMapping = map (\<lambda>m. (DNSModeString m, m)) [DNSNormal, DNSFakeIP, DNSMapping]"

definition DNSModeUnmarshalText :: "string \<Rightarrow> DNSMode result" where
  "DNSModeUnmarshalText data = (case map_of DNSModeMapping (ToLower data) of
     None \<Rightarrow> Inl ''invalid mode'' | Some mode \<Rightarrow> Inr mode)"

datatype DNSPrefer = DualStack | IPv4Only | IPv6Only | IPv4Prefer | IPv6Prefer

fun DNSPreferString :: "DNSPrefer \<Rightarrow> string" where
  "DNSPreferString DualStack = ''dual''"
| "DNSPreferString IPv4Only = ''ipv4''"
| "DNSPreferString IPv6Only = ''ipv6''"
| "DNSPreferString IPv4Prefer = ''ipv4-prefer''"
| "DNSPreferString IPv6Prefer = ''ipv6-prefer''"

definition dnsPreferMap :: "(string \<times> DNSPrefer) list" where
  "dnsPreferMap =
     map (\<lambda>d. (DNSPreferString d, d)) [DualStack, IPv4Only, IPv6Only, IPv4Prefer, IPv6Prefer]"

definition DNSPreferUnmarshalText :: "string \<Rightarrow> DNSPrefer" where
  "DNSPreferUnmarshalText data = (case map_of dnsPreferMap (ToLower data) of
     None \<Rightarrow> DualStack | Some p \<Rightarrow> p)"

datatype FilterMode = FilterBlackList | FilterWhiteList | FilterRule

fun FilterModeString :: "FilterMode \<Rightarrow> string" where
  "FilterModeString FilterBlackList = ''blacklist''"
| "FilterModeString FilterWhiteList = ''whitelist''"
| "FilterModeString FilterRule = ''rule''"

definition FilterModeMapping :: "(string \<times> FilterMode) list" where
  "FilterModeMapping =
     map (\<lambda>m. (FilterModeString m, m)) [FilterBlackList, FilterWhiteList, FilterRule]"

definition FilterModeUnmarshalText :: "string \<Rightarrow> FilterMode result" where
  "FilterModeUnmarshalText data = (case map_of FilterModeMapping (ToLower data) of
     None \<Rightarrow> Inl ''invalid mode'' | Some mode \<Rightarrow> Inr mode)"

datatype TunnelMode = ModeGlobal | ModeRule | ModeDirect

fun TunnelModeString :: "TunnelMode \<Rightarrow> string" where
  "TunnelModeString ModeGlobal = ''global''"
| "TunnelModeString ModeRule = ''rule''"
| "TunnelModeString ModeDirect = ''direct''"

definition ModeMapping :: "(string \<times> TunnelMode) list" where
  "ModeMapping = map (\<lambda>m. (TunnelModeString m, m)) [ModeGlobal, ModeRule, ModeDirect]"

definition TunnelModeUnmarshalText :: "string \<Rightarrow> TunnelMode result" where
  "TunnelModeUnmarshalText data = (case map_of ModeMapping (ToLower data) of
     None \<Rightarrow> Inl ''invalid mode'' | Some mode \<Rightarrow> Inr mode)"

datatype TunnelStatus = Suspend | Inner | Running

fun TunnelStatusString :: "TunnelStatus \<Rightarrow> string" where
  "TunnelStatusString Suspend = ''suspend''"
| "TunnelStatusString Inner = ''inner''"
| "TunnelStatusString Running = ''running''"

definition StatusMapping :: "(string \<times> TunnelStatus) list" where
  "StatusMapping = map (\<lambda>m. (TunnelStatusString m, m)) [Suspend, Inner, Running]"

definition TunnelStatusUnmarshalText :: "string \<Rightarrow> TunnelStatus result" where
  "TunnelStatusUnmarshalText data = (case map_of StatusMapping (ToLower data) of
     None \<Rightarrow> Inl ''invalid status'' | Some st \<Rightarrow> Inr st)"

datatype RuleType =
    RT_Domain | RT_DomainSuffix | RT_DomainKeyword | RT_DomainRegex | RT_DomainWildcard
    | RT_GEOSITE | RT_GEOIP | RT_SrcGEOIP | RT_IPASN | RT_SrcIPASN | RT_IPCIDR
    | RT_SrcIPCIDR | RT_IPSuffix | RT_SrcIPSuffix | RT_SrcPort | RT_DstPort | RT_InPort
    | RT_DSCP | RT_InUser | RT_InName | RT_InType | RT_ProcessName | RT_ProcessPath
    | RT_ProcessNameRegex | RT_ProcessPathRegex | RT_ProcessNameWildcard
    | RT_ProcessPathWildcard | RT_RematchName | RT_RuleSet | RT_Network | RT_Uid
    | RT_SubRules | RT_MATCH | RT_AND | RT_OR | RT_NOT

fun RuleTypeString :: "RuleType \<Rightarrow> string" where
  "RuleTypeString RT_Domain = ''Domain''"
| "RuleTypeString RT_DomainSuffix = ''DomainSuffix''"
| "RuleTypeString RT_DomainKeyword = ''DomainKeyword''"
| "RuleTypeString RT_DomainRegex = ''DomainRegex''"
| "RuleTypeString RT_DomainWildcard = ''DomainWildcard''"
| "RuleTypeString RT_GEOSITE = ''GeoSite''"
| "RuleTypeString RT_GEOIP = ''GeoIP''"
| "RuleTypeString RT_SrcGEOIP = ''SrcGeoIP''"
| "RuleTypeString RT_IPASN = ''IPASN''"
| "RuleTypeString RT_SrcIPASN = ''SrcIPASN''"
| "RuleTypeString RT_IPCIDR = ''IPCIDR''"
| "RuleTypeString RT_SrcIPCIDR = ''SrcIPCIDR''"
| "RuleTypeString RT_IPSuffix = ''IPSuffix''"
| "RuleTypeString RT_SrcIPSuffix = ''SrcIPSuffix''"
| "RuleTypeString RT_SrcPort = ''SrcPort''"
| "RuleTypeString RT_DstPort = ''DstPort''"
| "RuleTypeString RT_InPort = ''InPort''"
| "RuleTypeString RT_DSCP = ''DSCP''"
| "RuleTypeString RT_InUser = ''InUser''"
| "RuleTypeString RT_InName = ''InName''"
| "RuleTypeString RT_InType = ''InType''"
| "RuleTypeString RT_ProcessName = ''ProcessName''"
| "RuleTypeString RT_ProcessPath = ''ProcessPath''"
| "RuleTypeString RT_ProcessNameRegex = ''ProcessNameRegex''"
| "RuleTypeString RT_ProcessPathRegex = ''ProcessPathRegex''"
| "RuleTypeString RT_ProcessNameWildcard = ''ProcessNameWildcard''"
| "RuleTypeString RT_ProcessPathWildcard = ''ProcessPathWildcard''"
| "RuleTypeString RT_RematchName = ''RematchName''"
| "RuleTypeString RT_RuleSet = ''RuleSet''"
| "RuleTypeString RT_Network = ''Network''"
| "RuleTypeString RT_Uid = ''Uid''"
| "RuleTypeString RT_SubRules = ''SubRules''"
| "RuleTypeString RT_MATCH = ''Match''"
| "RuleTypeString RT_AND = ''AND''"
| "RuleTypeString RT_OR = ''OR''"
| "RuleTypeString RT_NOT = ''NOT''"

datatype AdapterType =
    AT_Direct | AT_Reject | AT_RejectDrop | AT_Compatible | AT_Pass | AT_PassRule
    | AT_Rematch | AT_Dns | AT_Relay | AT_Selector | AT_Fallback | AT_URLTest
    | AT_LoadBalance | AT_Shadowsocks | AT_ShadowsocksR | AT_Snell | AT_Socks5 | AT_Http
    | AT_Vmess | AT_Vless | AT_Trojan | AT_Hysteria | AT_Hysteria2 | AT_WireGuard | AT_Tuic
    | AT_Ssh | AT_Mieru | AT_AnyTLS | AT_Sudoku | AT_Masque | AT_TrustTunnel | AT_ShadowQuic
    | AT_OpenVPN | AT_Tailscale | AT_ZeroTier | AT_GostRelay

fun AdapterTypeString :: "AdapterType \<Rightarrow> string" where
  "AdapterTypeString AT_Direct = ''Direct''"
| "AdapterTypeString AT_Reject = ''Reject''"
| "AdapterTypeString AT_RejectDrop = ''RejectDrop''"
| "AdapterTypeString AT_Compatible = ''Compatible''"
| "AdapterTypeString AT_Pass = ''Pass''"
| "AdapterTypeString AT_PassRule = ''PassRule''"
| "AdapterTypeString AT_Rematch = ''Rematch''"
| "AdapterTypeString AT_Dns = ''Dns''"
| "AdapterTypeString AT_Relay = ''Relay''"
| "AdapterTypeString AT_Selector = ''Selector''"
| "AdapterTypeString AT_Fallback = ''Fallback''"
| "AdapterTypeString AT_URLTest = ''URLTest''"
| "AdapterTypeString AT_LoadBalance = ''LoadBalance''"
| "AdapterTypeString AT_Shadowsocks = ''Shadowsocks''"
| "AdapterTypeString AT_ShadowsocksR = ''ShadowsocksR''"
| "AdapterTypeString AT_Snell = ''Snell''"
| "AdapterTypeString AT_Socks5 = ''Socks5''"
| "AdapterTypeString AT_Http = ''Http''"
| "AdapterTypeString AT_Vmess = ''Vmess''"
| "AdapterTypeString AT_Vless = ''Vless''"
| "AdapterTypeString AT_Trojan = ''Trojan''"
| "AdapterTypeString AT_Hysteria = ''Hysteria''"
| "AdapterTypeString AT_Hysteria2 = ''Hysteria2''"
| "AdapterTypeString AT_WireGuard = ''WireGuard''"
| "AdapterTypeString AT_Tuic = ''Tuic''"
| "AdapterTypeString AT_Ssh = ''Ssh''"
| "AdapterTypeString AT_Mieru = ''Mieru''"
| "AdapterTypeString AT_AnyTLS = ''AnyTLS''"
| "AdapterTypeString AT_Sudoku = ''Sudoku''"
| "AdapterTypeString AT_Masque = ''Masque''"
| "AdapterTypeString AT_TrustTunnel = ''TrustTunnel''"
| "AdapterTypeString AT_ShadowQuic = ''ShadowQuic''"
| "AdapterTypeString AT_OpenVPN = ''OpenVPN''"
| "AdapterTypeString AT_Tailscale = ''Tailscale''"
| "AdapterTypeString AT_ZeroTier = ''ZeroTier''"
| "AdapterTypeString AT_GostRelay = ''GostRelay''"

definition ChainString :: "string list \<Rightarrow> string" where
  "ChainString c = (case c of
     [] \<Rightarrow> [] | [x] \<Rightarrow> x | x # _ \<Rightarrow> last c @ ''['' @ x @ '']'')"

definition ChainLast :: "string list \<Rightarrow> string" where
  "ChainLast c = (case c of [] \<Rightarrow> [] | x # _ \<Rightarrow> x)"

section \<open>The metadata of a connection\<close>

text \<open>A slice that is nil until queried (\<open>SrcGeoIP\<close>, \<open>DstGeoIP\<close>) is an optional list.\<close>

record Metadata =
  md_NetWork :: NetWork
  md_Type :: InboundType
  md_SrcIP :: Addr
  md_DstIP :: Addr
  md_SrcGeoIP :: "string list option"
  md_DstGeoIP :: "string list option"
  md_SrcIPASN :: string
  md_DstIPASN :: string
  md_SrcPort :: u16
  md_DstPort :: u16
  md_InIP :: Addr
  md_InPort :: u16
  md_InName :: string
  md_InUser :: string
  md_RematchName :: string
  md_Host :: string
  md_DNSMode :: DNSMode
  md_Uid :: u32
  md_Process :: string
  md_ProcessPath :: string
  md_SpecialProxy :: string
  md_SpecialRules :: string
  md_RemoteDst :: string
  md_DSCP :: u8
  md_SniffHost :: string

text \<open>The zero value of the struct.\<close>

definition empty_metadata :: Metadata where
  "empty_metadata = \<lparr>
     md_NetWork = TCP, md_Type = HTTP, md_SrcIP = AddrInvalid, md_DstIP = AddrInvalid,
     md_SrcGeoIP = None, md_DstGeoIP = None, md_SrcIPASN = [], md_DstIPASN = [],
     md_SrcPort = 0, md_DstPort = 0, md_InIP = AddrInvalid, md_InPort = 0, md_InName = [],
     md_InUser = [], md_RematchName = [], md_Host = [], md_DNSMode = DNSNormal, md_Uid = 0,
     md_Process = [], md_ProcessPath = [], md_SpecialProxy = [], md_SpecialRules = [],
     md_RemoteDst = [], md_DSCP = 0, md_SniffHost = []\<rparr>"

definition MetadataString :: "Metadata \<Rightarrow> string" where
  "MetadataString m =
     (if md_Host m \<noteq> [] then md_Host m
      else if IsValid (md_DstIP m) then AddrString (md_DstIP m)
      else ''<nil>'')"

definition RemoteAddress :: "Metadata \<Rightarrow> string" where
  "RemoteAddress m = JoinHostPort (MetadataString m) (FormatUint (uint (md_DstPort m)))"

definition SourceAddress :: "Metadata \<Rightarrow> string" where
  "SourceAddress m = JoinHostPort (AddrString (md_SrcIP m)) (FormatUint (uint (md_SrcPort m)))"

definition SourceAddrPort :: "Metadata \<Rightarrow> Addr \<times> u16" where
  "SourceAddrPort m = (Unmap (md_SrcIP m), md_SrcPort m)"

definition SourceDetail :: "Metadata \<Rightarrow> string" where
  "SourceDetail m =
     (if md_Type m = INNER then ''mihomo''
      else if md_Process m \<noteq> [] \<and> md_Uid m \<noteq> 0 then
        SourceAddress m @ ''('' @ md_Process m @ '', uid='' @ FormatUint (uint (md_Uid m)) @ '')''
      else if md_Uid m \<noteq> 0 then
        SourceAddress m @ ''(uid='' @ FormatUint (uint (md_Uid m)) @ '')''
      else if md_Process m \<noteq> [] then SourceAddress m @ ''('' @ md_Process m @ '')''
      else SourceAddress m)"

definition SourceValid :: "Metadata \<Rightarrow> bool" where
  "SourceValid m = (md_SrcPort m \<noteq> 0 \<and> IsValid (md_SrcIP m))"

definition MetadataAddrType :: "Metadata \<Rightarrow> AddrType" where
  "MetadataAddrType m =
     (if md_Host m \<noteq> [] \<or> \<not> IsValid (md_DstIP m) then AtypDomainName
      else if Is4 (md_DstIP m) then AtypIPv4
      else AtypIPv6)"

definition Resolved :: "Metadata \<Rightarrow> bool" where
  "Resolved m = IsValid (md_DstIP m)"

definition RuleHost :: "Metadata \<Rightarrow> string" where
  "RuleHost m = (if length (md_SniffHost m) = 0 then md_Host m else md_SniffHost m)"

text \<open>\<open>Pure\<close> returns a copy; the receiver is not changed.\<close>

definition Pure :: "Metadata \<Rightarrow> Metadata" where
  "Pure m =
     (if (md_DNSMode m = DNSMapping \<or> md_DNSMode m = DNSHosts) \<and> IsValid (md_DstIP m)
      then m\<lparr>md_Host := []\<rparr> else m)"

definition AddrPort :: "Metadata \<Rightarrow> Addr \<times> u16" where
  "AddrPort m = (Unmap (md_DstIP m), md_DstPort m)"

definition UDPAddr :: "Metadata \<Rightarrow> (Addr \<times> u16) option" where
  "UDPAddr m =
     (if md_NetWork m \<noteq> UDP \<or> \<not> IsValid (md_DstIP m) then None else Some (AddrPort m))"

definition MetadataValid :: "Metadata \<Rightarrow> bool" where
  "MetadataValid m = (md_Host m \<noteq> [] \<or> IsValid (md_DstIP m))"

definition SetRemoteAddress :: "string \<Rightarrow> Metadata \<Rightarrow> string option \<times> Metadata" where
  "SetRemoteAddress rawAddress m = (case SplitHostPort rawAddress of
     Inl e \<Rightarrow> (Some e, m)
   | Inr (host, port) \<Rightarrow>
       (let uint16Port = (case ParseUint port 16 of None \<Rightarrow> 0 | Some p \<Rightarrow> word_of_int p) in
        case ParseAddr host of
          None \<Rightarrow> (None, m\<lparr>md_Host := host, md_DstIP := AddrInvalid, md_DstPort := uint16Port\<rparr>)
        | Some ip \<Rightarrow> (None, m\<lparr>md_Host := [], md_DstIP := Unmap ip, md_DstPort := uint16Port\<rparr>)))"

text \<open>
  A \<open>net.Addr\<close> by what its dynamic type offers: an address it wraps (\<open>RawAddr\<close>), an
  \<open>AddrPort\<close> method, an \<open>AddrString\<close> method, and its text.
\<close>

datatype NetAddr =
  NetAddr (na_raw: "NetAddr option") (na_addrPort: "(Addr \<times> u16) option")
    (na_addrString: "string option") (na_string: string)

text \<open>The two type assertions after the one for \<open>RawAddr\<close>, and the fallback to the text.\<close>

definition setFromAddrPort ::
  "(Addr \<times> u16) option \<Rightarrow> string option \<Rightarrow> string \<Rightarrow> Metadata \<Rightarrow> string option \<times> Metadata" where
  "setFromAddrPort ap astr text m = (case ap of
     None \<Rightarrow> SetRemoteAddress text m
   | Some (ip, port) \<Rightarrow>
       (if port \<noteq> 0 then
          (let m1 = m\<lparr>md_DstPort := port\<rparr> in
           if IsValid ip then (None, m1\<lparr>md_DstIP := Unmap ip\<rparr>)
           else case astr of
             Some fqdn \<Rightarrow> (None, m1\<lparr>md_Host := fqdn\<rparr>)
           | None \<Rightarrow> SetRemoteAddress text m1)
        else SetRemoteAddress text m))"

fun setRemoteNetAddr :: "NetAddr \<Rightarrow> Metadata \<Rightarrow> string option \<times> Metadata" where
  "setRemoteNetAddr (NetAddr None ap astr text) m = setFromAddrPort ap astr text m"
| "setRemoteNetAddr (NetAddr (Some raw) ap astr text) m =
     (case setRemoteNetAddr raw m of
        (None, m1) \<Rightarrow> (None, m1)
      | (Some _, m1) \<Rightarrow> setFromAddrPort ap astr text m1)"

definition SetRemoteAddr :: "NetAddr option \<Rightarrow> Metadata \<Rightarrow> string option \<times> Metadata" where
  "SetRemoteAddr addr m = (case addr of None \<Rightarrow> (None, m) | Some a \<Rightarrow> setRemoteNetAddr a m)"

definition SwapSrcDst :: "Metadata \<Rightarrow> Metadata" where
  "SwapSrcDst m = m\<lparr>
     md_SrcIP := md_DstIP m, md_DstIP := md_SrcIP m,
     md_SrcPort := md_DstPort m, md_DstPort := md_SrcPort m,
     md_SrcIPASN := md_DstIPASN m, md_DstIPASN := md_SrcIPASN m,
     md_SrcGeoIP := md_DstGeoIP m, md_DstGeoIP := md_SrcGeoIP m\<rparr>"

section \<open>Properties\<close>

lemmas enum_text = ToLower_def ToUpper_def lower_char_def upper_char_def char_of_def

text \<open>The printed name of an inbound type, in upper case, parses back to it.\<close>

lemma ParseType_TypeString: "ParseType (ToUpper (TypeString t)) = Inr t"
  by (cases t) (simp_all add: enum_text ParseType_def)

lemma DNSMode_roundtrip: "m \<noteq> DNSHosts \<Longrightarrow> DNSModeUnmarshalText (DNSModeString m) = Inr m"
  by (cases m) (simp_all add: enum_text DNSModeUnmarshalText_def DNSModeMapping_def)

lemma DNSPrefer_roundtrip: "DNSPreferUnmarshalText (DNSPreferString d) = d"
  by (cases d) (simp_all add: enum_text DNSPreferUnmarshalText_def dnsPreferMap_def)

lemma FilterMode_roundtrip: "FilterModeUnmarshalText (FilterModeString m) = Inr m"
  by (cases m) (simp_all add: enum_text FilterModeUnmarshalText_def FilterModeMapping_def)

lemma TunnelMode_roundtrip: "TunnelModeUnmarshalText (TunnelModeString m) = Inr m"
  by (cases m) (simp_all add: enum_text TunnelModeUnmarshalText_def ModeMapping_def)

lemma TunnelStatus_roundtrip: "TunnelStatusUnmarshalText (TunnelStatusString s) = Inr s"
  by (cases s) (simp_all add: enum_text TunnelStatusUnmarshalText_def StatusMapping_def)

lemma SwapSrcDst_twice: "SwapSrcDst (SwapSrcDst m) = m"
  by (cases m) (simp add: SwapSrcDst_def)

lemma Pure_idem: "Pure (Pure m) = Pure m"
  by (simp add: Pure_def)

lemma Pure_valid: "MetadataValid (Pure m) = MetadataValid m"
  by (auto simp: Pure_def MetadataValid_def)

text \<open>After a successful parse a destination is a host or an address, never both.\<close>

lemma SetRemoteAddress_exclusive:
  "SetRemoteAddress s m = (None, m') \<Longrightarrow> IsValid (md_DstIP m') \<Longrightarrow> md_Host m' = []"
  by (auto simp: SetRemoteAddress_def Let_def split: sum.splits option.splits)

end
