(* ===== verification/Wildcard.thy ===== *)
theory Wildcard
  imports Go_Prelude
begin

text \<open>
  The glob matcher of component/wildcard (src/component/wildcard/wildcard.go): \<open>*\<close> stands
  for any number of bytes, \<open>?\<close> for exactly one. The code is a loop of jumps over four
  indices with backtracking to the last star only; it is kept as such a loop, over
  \<^typ>\<open>'a option\<close> because its termination is a theorem and not a syntactic fact. The
  reference definition \<open>glob\<close> is the textbook recursion, and \<open>matchByString_glob\<close> shows
  that the loop returns and computes it.
\<close>

section \<open>The code\<close>

text \<open>The label checkPattern: what is left of the pattern consists of stars.\<close>

function checkPattern :: "string \<Rightarrow> nat \<Rightarrow> bool" where
  "checkPattern pattern patternIndex =
     (if patternIndex < length pattern \<and> pattern ! patternIndex = CHR ''*''
      then checkPattern pattern (patternIndex + 1)
      else patternIndex = length pattern)"
  by pat_completeness auto
termination
  by (relation "measure (\<lambda>(p, i). length p - i)") auto

declare checkPattern.simps [simp del]

text \<open>
  The label Loop. \<open>star\<close> is \<^const>\<open>None\<close> where the code has -1.
\<close>

partial_function (option) matchLoop ::
  "string \<Rightarrow> string \<Rightarrow> nat \<Rightarrow> nat \<Rightarrow> nat option \<Rightarrow> nat \<Rightarrow> bool option" where
  "matchLoop pattern s patternIndex sIndex star lastStar =
     (if sIndex \<ge> length s then Some (checkPattern pattern patternIndex)
      else if patternIndex \<ge> length pattern then
        (case star of
           Some k \<Rightarrow> matchLoop pattern s (k + 1) (lastStar + 1) star (lastStar + 1)
         | None \<Rightarrow> Some False)
      else if pattern ! patternIndex = CHR ''?'' then
        matchLoop pattern s (patternIndex + 1) (sIndex + 1) star lastStar
      else if pattern ! patternIndex = CHR ''*'' then
        matchLoop pattern s (patternIndex + 1) sIndex (Some patternIndex) sIndex
      else if pattern ! patternIndex \<noteq> s ! sIndex then
        (case star of
           Some k \<Rightarrow> matchLoop pattern s (k + 1) (lastStar + 1) star (lastStar + 1)
         | None \<Rightarrow> Some False)
      else matchLoop pattern s (patternIndex + 1) (sIndex + 1) star lastStar)"

definition matchByString :: "string \<Rightarrow> string \<Rightarrow> bool option" where
  "matchByString pattern s = matchLoop pattern s 0 0 None 0"

definition MatchWildcard :: "string \<Rightarrow> string \<Rightarrow> bool option" where
  "MatchWildcard pattern s =
     (if pattern = [] then Some (s = pattern)
      else if pattern = ''*'' \<or> s = pattern then Some True
      else matchByString pattern s)"

section \<open>The reference definition\<close>

fun glob :: "string \<Rightarrow> string \<Rightarrow> bool" where
  "glob [] s = (s = [])"
| "glob (c # p) s =
     (if c = CHR ''*'' then glob p s \<or> (case s of [] \<Rightarrow> False | d # s' \<Rightarrow> glob (c # p) s')
      else (case s of [] \<Rightarrow> False | d # s' \<Rightarrow> (c = CHR ''?'' \<or> c = d) \<and> glob p s'))"

section \<open>Correctness\<close>

lemma glob_star_iff: "glob (CHR ''*'' # p) s \<longleftrightarrow> (\<exists>k \<le> length s. glob p (drop k s))"
proof (induction s)
  case Nil
  show ?case by simp
next
  case (Cons d s)
  have "(\<exists>k \<le> length (d # s). glob p (drop k (d # s)))
    \<longleftrightarrow> glob p (d # s) \<or> (\<exists>k \<le> length s. glob p (drop k s))"
  proof safe
    fix k
    assume "k \<le> length (d # s)" "glob p (drop k (d # s))" "\<not> (\<exists>k \<le> length s. glob p (drop k s))"
    then show "glob p (d # s)" by (cases k) auto
  next
    assume "glob p (d # s)"
    then show "\<exists>k \<le> length (d # s). glob p (drop k (d # s))" by (intro exI[of _ 0]) simp
  next
    fix k
    assume "k \<le> length s" "glob p (drop k s)"
    then show "\<exists>k \<le> length (d # s). glob p (drop k (d # s))" by (intro exI[of _ "Suc k"]) simp
  qed
  with Cons show ?case by simp
qed

lemma glob_star_skip:
  assumes "glob (CHR ''*'' # p) (drop j s)" and "i \<le> j" "j \<le> length s"
  shows "glob (CHR ''*'' # p) (drop i s)"
proof -
  from assms(1) obtain k where "k \<le> length (drop j s)" "glob p (drop k (drop j s))"
    unfolding glob_star_iff by blast
  with assms(2,3) have "j + k - i \<le> length (drop i s)" "glob p (drop (j + k - i) (drop i s))"
    by (auto simp: add.commute)
  then show ?thesis unfolding glob_star_iff by blast
qed

text \<open>A pattern segment without a star consumes exactly its own length.\<close>

lemma glob_star_free_prefix:
  assumes "CHR ''*'' \<notin> set w" and "glob (w @ p) s"
  shows "length w \<le> length s \<and> glob p (drop (length w) s)"
  using assms
proof (induction w arbitrary: s)
  case (Cons c w)
  then show ?case by (cases s) auto
qed simp

lemma checkPattern_glob: "i \<le> length p \<Longrightarrow> checkPattern p i \<longleftrightarrow> glob (drop i p) []"
proof (induction p i rule: checkPattern.induct)
  case (1 p i)
  show ?case
  proof (cases "i < length p")
    case True
    then have d: "drop i p = p ! i # drop (Suc i) p" by (simp add: Cons_nth_drop_Suc)
    with 1 True show ?thesis by (subst checkPattern.simps) (auto simp: d)
  next
    case False
    with 1 show ?thesis by (subst checkPattern.simps) auto
  qed
qed

text \<open>
  The loop's invariant: the indices are in range, and when a star has been seen the pattern
  between it and the current position has no star and has matched the text from
  \<open>lastStar\<close> to the current position byte for byte.
\<close>

definition star_inv :: "string \<Rightarrow> string \<Rightarrow> nat \<Rightarrow> nat \<Rightarrow> nat option \<Rightarrow> nat \<Rightarrow> bool" where
  "star_inv p s pi si star l \<longleftrightarrow> pi \<le> length p \<and> si \<le> length s \<and>
     (case star of
        None \<Rightarrow> True
      | Some k \<Rightarrow> k < pi \<and> l \<le> si \<and> si = l + (pi - (k + 1)) \<and>
          CHR ''*'' \<notin> set (take (pi - (k + 1)) (drop (k + 1) p)))"

text \<open>What the loop has to return: the current alternative, or a later start for the star.\<close>

definition loop_goal :: "string \<Rightarrow> string \<Rightarrow> nat \<Rightarrow> nat \<Rightarrow> nat option \<Rightarrow> nat \<Rightarrow> bool" where
  "loop_goal p s pi si star l \<longleftrightarrow> glob (drop pi p) (drop si s) \<or>
     (case star of
        None \<Rightarrow> False
      | Some k \<Rightarrow> (\<exists>j. l < j \<and> j \<le> length s \<and> glob (drop (k + 1) p) (drop j s)))"

definition loop_measure :: "string \<Rightarrow> string \<Rightarrow> nat \<Rightarrow> nat \<Rightarrow> nat option \<Rightarrow> nat \<Rightarrow> nat \<times> nat \<times> nat" where
  "loop_measure p s pi si star l =
     ((case star of None \<Rightarrow> length p + 1 | Some k \<Rightarrow> length p - k),
      (case star of None \<Rightarrow> 0 | Some k \<Rightarrow> length s - l), length p - pi)"

lemma later_start_reaches:
  assumes inv: "star_inv p s pi si (Some k) l"
    and j: "l < j" "j \<le> length s" "glob (drop (k + 1) p) (drop j s)"
  shows "j + (pi - (k + 1)) \<le> length s \<and> glob (drop pi p) (drop (j + (pi - (k + 1))) s)"
proof -
  let ?n = "pi - (k + 1)"
  let ?w = "take ?n (drop (k + 1) p)"
  have pi: "k + 1 \<le> pi" "pi \<le> length p" and nostar: "CHR ''*'' \<notin> set ?w"
    using inv by (auto simp: star_inv_def)
  have split: "drop (k + 1) p = ?w @ drop pi p"
    using pi by (metis append_take_drop_id drop_drop le_add_diff_inverse2)
  have len: "length ?w = ?n" using pi by auto
  have "glob (?w @ drop pi p) (drop j s)" using j(3) split by simp
  from glob_star_free_prefix[OF nostar this] len show ?thesis
    using j(2) by (auto simp: add.commute)
qed

lemma loop_goal_end:
  assumes "star_inv p s pi (length s) star l"
  shows "loop_goal p s pi (length s) star l \<longleftrightarrow> glob (drop pi p) []"
proof (cases star)
  case None
  then show ?thesis by (simp add: loop_goal_def)
next
  case (Some k)
  have False if "l < j" "j \<le> length s" "glob (drop (k + 1) p) (drop j s)" for j
  proof -
    have "j + (pi - (k + 1)) \<le> length s"
      using later_start_reaches[OF assms[unfolded Some] that] by blast
    moreover have "length s = l + (pi - (k + 1))"
      using assms Some by (simp add: star_inv_def)
    ultimately show False using that(1) by linarith
  qed
  with Some show ?thesis by (auto simp: loop_goal_def)
qed

lemma loop_goal_backtrack:
  assumes "star_inv p s pi si (Some k) l" "si < length s" "\<not> glob (drop pi p) (drop si s)"
  shows "star_inv p s (k + 1) (l + 1) (Some k) (l + 1)"
    and "loop_goal p s pi si (Some k) l = loop_goal p s (k + 1) (l + 1) (Some k) (l + 1)"
proof -
  show "star_inv p s (k + 1) (l + 1) (Some k) (l + 1)"
    using assms by (auto simp: star_inv_def)
  have "l + 1 \<le> length s" using assms by (auto simp: star_inv_def)
  then have "(\<exists>j. l < j \<and> j \<le> length s \<and> glob (drop (k + 1) p) (drop j s)) \<longleftrightarrow>
    glob (drop (k + 1) p) (drop (l + 1) s) \<or>
    (\<exists>j. l + 1 < j \<and> j \<le> length s \<and> glob (drop (k + 1) p) (drop j s))"
  proof -
    have "l < j \<longleftrightarrow> j = l + 1 \<or> l + 1 < j" for j by auto
    then have "(\<exists>j. l < j \<and> P j) \<longleftrightarrow> P (l + 1) \<or> (\<exists>j. l + 1 < j \<and> P j)" for P by auto
    from this[of "\<lambda>j. j \<le> length s \<and> glob (drop (k + 1) p) (drop j s)"]
    show ?thesis using \<open>l + 1 \<le> length s\<close> by simp
  qed
  with assms(3) show "loop_goal p s pi si (Some k) l =
      loop_goal p s (k + 1) (l + 1) (Some k) (l + 1)"
    by (simp add: loop_goal_def)
qed

lemma loop_goal_new_star:
  assumes inv: "star_inv p s pi si star l" and "pi < length p" "p ! pi = CHR ''*''"
  shows "star_inv p s (pi + 1) si (Some pi) si"
    and "loop_goal p s pi si star l = loop_goal p s (pi + 1) si (Some pi) si"
proof -
  show "star_inv p s (pi + 1) si (Some pi) si"
    using assms by (auto simp: star_inv_def)
  have si: "si \<le> length s" using inv by (simp add: star_inv_def)
  have d: "drop pi p = CHR ''*'' # drop (pi + 1) p"
    using assms(2,3) by (metis Cons_nth_drop_Suc Suc_eq_plus1)
  have star: "glob (drop pi p) (drop si s) \<longleftrightarrow> glob (drop (pi + 1) p) (drop si s) \<or>
    (\<exists>j. si < j \<and> j \<le> length s \<and> glob (drop (pi + 1) p) (drop j s))" (is "?L \<longleftrightarrow> ?R")
  proof
    assume ?L
    then obtain k where k: "k \<le> length (drop si s)" "glob (drop (pi + 1) p) (drop k (drop si s))"
      unfolding d glob_star_iff by blast
    then show ?R
      using si by (cases "k = 0") (auto intro!: exI[of _ "si + k"] simp: add.commute)
  next
    assume ?R
    then show ?L
    proof
      assume "glob (drop (pi + 1) p) (drop si s)"
      then show ?L by (simp add: d)
    next
      assume "\<exists>j. si < j \<and> j \<le> length s \<and> glob (drop (pi + 1) p) (drop j s)"
      then obtain j where "si < j" "j \<le> length s" "glob (drop (pi + 1) p) (drop j s)" by blast
      then have "glob (drop pi p) (drop j s)" by (simp add: d)
      with \<open>si < j\<close> \<open>j \<le> length s\<close> show ?L
        using glob_star_skip[of "drop (pi + 1) p" j s si] by (simp add: d)
    qed
  qed
  have "glob (drop pi p) (drop si s)"
    if "star = Some k" "l < j" "j \<le> length s" "glob (drop (k + 1) p) (drop j s)" for k j
  proof -
    let ?i = "j + (pi - (k + 1))"
    have i: "?i \<le> length s" "glob (drop pi p) (drop ?i s)"
      using later_start_reaches[of p s pi si k l j] inv that by auto
    moreover have "si \<le> ?i" using inv that by (auto simp: star_inv_def)
    ultimately show ?thesis
      using glob_star_skip[of "drop (pi + 1) p" ?i s si] by (simp add: d)
  qed
  then show "loop_goal p s pi si star l = loop_goal p s (pi + 1) si (Some pi) si"
    unfolding loop_goal_def using star by (cases star) auto
qed

lemma loop_goal_advance:
  assumes inv: "star_inv p s pi si star l" and lt: "pi < length p" "si < length s"
    and nostar: "p ! pi \<noteq> CHR ''*''" and ok: "p ! pi = CHR ''?'' \<or> p ! pi = s ! si"
  shows "star_inv p s (pi + 1) (si + 1) star l"
    and "loop_goal p s pi si star l = loop_goal p s (pi + 1) (si + 1) star l"
proof -
  have "take (pi + 1 - (k + 1)) (drop (k + 1) p) = take (pi - (k + 1)) (drop (k + 1) p) @ [p ! pi]"
    if "k < pi" for k
    using that lt by (simp add: take_Suc_conv_app_nth Suc_diff_Suc [symmetric] Suc_diff_le)
  then show "star_inv p s (pi + 1) (si + 1) star l"
    using inv lt nostar by (auto simp: star_inv_def split: option.splits)
  have "drop pi p = p ! pi # drop (pi + 1) p" "drop si s = s ! si # drop (si + 1) s"
    using lt by (simp_all add: Cons_nth_drop_Suc)
  with nostar ok show "loop_goal p s pi si star l = loop_goal p s (pi + 1) (si + 1) star l"
    by (auto simp: loop_goal_def)
qed

lemma glob_mismatch:
  assumes "pi < length p" "si < length s" "p ! pi \<noteq> CHR ''*''" "p ! pi \<noteq> CHR ''?''"
    "p ! pi \<noteq> s ! si"
  shows "\<not> glob (drop pi p) (drop si s)"
proof -
  have "drop pi p = p ! pi # drop (pi + 1) p" "drop si s = s ! si # drop (si + 1) s"
    using assms by (simp_all add: Cons_nth_drop_Suc)
  with assms show ?thesis by simp
qed

lemma matchLoop_returns:
  "star_inv p s pi si star l \<Longrightarrow>
   matchLoop p s pi si star l = Some (loop_goal p s pi si star l)"
proof (induction "loop_measure p s pi si star l" arbitrary: pi si star l
    rule: wf_induct_rule[OF wf_lex_prod[OF wf_less_than wf_lex_prod[OF wf_less_than wf_less_than]]])
  case 1
  note inv = \<open>star_inv p s pi si star l\<close>
  have rng: "pi \<le> length p" "si \<le> length s" using inv by (auto simp: star_inv_def)
  show ?case
  proof (cases "si \<ge> length s")
    case True
    then have "si = length s" using rng by simp
    with inv rng show ?thesis
      by (subst matchLoop.simps) (simp add: loop_goal_end checkPattern_glob)
  next
    case si: False
    have bk: "matchLoop p s (k + 1) (l + 1) star (l + 1) = Some (loop_goal p s pi si star l)"
      if "star = Some k" "\<not> glob (drop pi p) (drop si s)" for k
    proof -
      have "l < length s" using inv si that by (auto simp: star_inv_def)
      moreover have "star_inv p s (k + 1) (l + 1) star (l + 1)"
        and g: "loop_goal p s pi si star l = loop_goal p s (k + 1) (l + 1) star (l + 1)"
        using loop_goal_backtrack[of p s pi si k l] inv si that by auto
      ultimately show ?thesis
        unfolding g by (intro "1.hyps") (auto simp: loop_measure_def that)
    qed
    have fail: "(case star of
         Some k \<Rightarrow> matchLoop p s (k + 1) (l + 1) star (l + 1)
       | None \<Rightarrow> Some False) = Some (loop_goal p s pi si star l)"
      if "\<not> glob (drop pi p) (drop si s)"
      using bk that by (cases star) (simp_all add: loop_goal_def)
    have adv: "matchLoop p s (pi + 1) (si + 1) star l = Some (loop_goal p s pi si star l)"
      if "pi < length p" "p ! pi \<noteq> CHR ''*''" "p ! pi = CHR ''?'' \<or> p ! pi = s ! si"
    proof -
      have si': "si < length s" using si by simp
      note step = loop_goal_advance[OF inv that(1) _ that(2,3)]
      show ?thesis
        unfolding step(2)[OF si'] by (intro "1.hyps" step(1)) (use that si in \<open>auto simp: loop_measure_def\<close>)
    qed
    have new: "matchLoop p s (pi + 1) si (Some pi) si = Some (loop_goal p s pi si star l)"
      if "pi < length p" "p ! pi = CHR ''*''"
      unfolding loop_goal_new_star(2)[OF inv that]
      by (intro "1.hyps" loop_goal_new_star(1)[OF inv that])
        (use inv that in \<open>auto simp: loop_measure_def star_inv_def split: option.splits\<close>)
    show ?thesis
    proof (cases "pi \<ge> length p")
      case True
      then have "\<not> glob (drop pi p) (drop si s)" using si by simp
      with True si fail show ?thesis by (subst matchLoop.simps) simp
    next
      case False
      with si fail adv new glob_mismatch[of pi p si s] show ?thesis
        by (subst matchLoop.simps) auto
    qed
  qed
qed

lemma matchByString_glob: "matchByString p s = Some (glob p s)"
  by (simp add: matchByString_def matchLoop_returns star_inv_def loop_goal_def)

lemma glob_self: "glob p p"
  by (induction p) auto

lemma glob_star_all: "glob ''*'' s"
  by (induction s) auto

text \<open>
  C24: the wildcard matcher is total and agrees with the textbook definition of glob matching,
  fast paths and backtracking included: for every pattern and every text the loop ends, with
  the value of the reference recursion.
\<close>

theorem MatchWildcard_correct: "MatchWildcard pattern s = Some (glob pattern s)"
proof (cases "pattern = ''*''")
  case True
  then show ?thesis using glob_star_all by (simp only: MatchWildcard_def) simp
next
  case False
  then show ?thesis by (simp add: MatchWildcard_def matchByString_glob glob_self)
qed

end
