(* ===== verification/IntRanges.thy ===== *)
theory IntRanges
  imports Go_Prelude "HOL-Library.Multiset"
begin

text \<open>
  Closed integer ranges and lists of them (src/common/utils/range.go and ranges.go), at the
  unsigned types the rules instantiate them with: ports, DSCP values, user ids and HTTP status
  codes. The element type is a word, so the end of a range plus one wraps around, which the code
  guards against in \<open>Merge\<close> and \<open>Range\<close>. The signed instances are not modelled.
\<close>

section \<open>Ranges\<close>

record (overloaded) 'a Range =
  range_start :: "'a::len word"
  range_end :: "'a word"

definition NewRange :: "'a::len word \<Rightarrow> 'a word \<Rightarrow> 'a Range" where
  "NewRange s e =
     (if s > e then \<lparr>range_start = e, range_end = s\<rparr> else \<lparr>range_start = s, range_end = e\<rparr>)"

definition RangeContains :: "'a::len Range \<Rightarrow> 'a word \<Rightarrow> bool" where
  "RangeContains r t = (t \<ge> range_start r \<and> t \<le> range_end r)"

definition LeftContains :: "'a::len Range \<Rightarrow> 'a word \<Rightarrow> bool" where
  "LeftContains r t = (t \<ge> range_start r \<and> t < range_end r)"

definition RightContains :: "'a::len Range \<Rightarrow> 'a word \<Rightarrow> bool" where
  "RightContains r t = (t > range_start r \<and> t \<le> range_end r)"

definition RangeString :: "'a::len Range \<Rightarrow> string" where
  "RangeString r =
     (if range_start r = range_end r then FormatUint (uint (range_start r))
      else FormatUint (uint (range_start r)) @ ''-'' @ FormatUint (uint (range_end r)))"

text \<open>
  \<open>parseUnsigned\<close> parses 64 bits and then converts to the element type, which drops the
  high bits without an error.
\<close>

definition parseUnsigned :: "string \<Rightarrow> 'a::len word result" where
  "parseUnsigned s = (case ParseUint s 64 of
     None \<Rightarrow> Inl ''invalid syntax'' | Some val \<Rightarrow> Inr (word_of_int val))"

definition newIntRange :: "string \<Rightarrow> (string \<Rightarrow> 'a::len word result) \<Rightarrow> 'a Range result" where
  "newIntRange s0 parseFn =
     (let s = TrimSpace s0 in
      if length s = 0 then Inr (NewRange 0 0)
      else
        (let status = Split s (CHR ''-'') in
         case parseFn (Trim (status ! 0) ''[ ]'') of
           Inl _ \<Rightarrow> Inl (''invalid range: '' @ s)
         | Inr start \<Rightarrow>
             (if length status = 1 then Inr (NewRange start start)
              else if length status = 2 then
                (case parseFn (Trim (status ! 1) ''[ ]'') of
                   Inl _ \<Rightarrow> Inl (''invalid range: '' @ s)
                 | Inr stop \<Rightarrow> Inr (NewRange start stop))
              else Inl (''invalid range: '' @ s))))"

section \<open>Lists of ranges\<close>

type_synonym 'a IntRanges = "'a Range list"

fun newIntRangesFromList ::
  "string list \<Rightarrow> (string \<Rightarrow> 'a::len word result) \<Rightarrow> 'a IntRanges result" where
  "newIntRangesFromList [] parseFn = Inr []"
| "newIntRangesFromList (s # list) parseFn =
     (if s = [] then newIntRangesFromList list parseFn
      else case newIntRange s parseFn of
        Inl e \<Rightarrow> Inl e
      | Inr r \<Rightarrow>
          (case newIntRangesFromList list parseFn of
             Inl e \<Rightarrow> Inl e
           | Inr rs \<Rightarrow> Inr (r # rs)))"

definition newIntRanges :: "string \<Rightarrow> (string \<Rightarrow> 'a::len word result) \<Rightarrow> 'a IntRanges result" where
  "newIntRanges expected0 parseFn =
     (let expected = TrimSpace expected0 in
      if length expected = 0 \<or> expected = ''*'' then Inr []
      else
        (let list = Split (ReplaceByte expected (CHR '','') (CHR ''/'')) (CHR ''/'') in
         if length list > 28
         then Inl ''intRanges error, too many ranges to use, maximum support 28 ranges''
         else newIntRangesFromList list parseFn))"

definition NewUnsignedRanges :: "string \<Rightarrow> 'a::len IntRanges result" where
  "NewUnsignedRanges expected = newIntRanges expected parseUnsigned"

definition NewUnsignedRangesFromList :: "string list \<Rightarrow> 'a::len IntRanges result" where
  "NewUnsignedRangesFromList list = newIntRangesFromList list parseUnsigned"

text \<open>The empty list of ranges is the pattern that accepts everything.\<close>

definition Check :: "'a::len IntRanges \<Rightarrow> 'a word \<Rightarrow> bool" where
  "Check ranges status =
     (if length ranges = 0 then True else list_ex (\<lambda>segment. RangeContains segment status) ranges)"

definition RangesString :: "'a::len IntRanges \<Rightarrow> string" where
  "RangesString ranges =
     (if length ranges = 0 then ''*'' else Join (map RangeString ranges) ''/'')"

text \<open>
  The loop of \<open>Range\<close> over one range: the values it passes to the callback, which says
  whether to go on. The result says whether the callback stopped the iteration.
\<close>

function rangeLoop :: "('a::len word \<Rightarrow> bool) \<Rightarrow> 'a word \<Rightarrow> 'a word \<Rightarrow> 'a word \<Rightarrow> 'a word list \<times> bool" where
  "rangeLoop f s e i =
     (if i \<le> e \<and> i \<ge> s then
        (if \<not> f i then ([i], True)
         else if i + 1 < i then ([i], False)
         else (case rangeLoop f s e (i + 1) of (xs, stop) \<Rightarrow> (i # xs, stop)))
      else ([], False))"
  by pat_completeness auto
termination
proof (relation "measure (\<lambda>(f, s, e, i). nat (2 ^ LENGTH('a) - uint i))", goal_cases)
  case (2 f s e i)
  have "i + 1 \<noteq> 0"
  proof
    assume z: "i + 1 = 0"
    with 2 have "\<not> 0 < i" by auto
    then have "i = 0" by (simp add: word_gt_0)
    with z show False by simp
  qed
  then have "uint (i + 1) = uint i + 1" by (rule uint_plus_one)
  moreover have "uint i < 2 ^ LENGTH('a)" by (rule uint_lt2p)
  ultimately show ?case by simp
qed simp

declare rangeLoop.simps [simp del]

fun RangeForeach :: "('a::len word \<Rightarrow> bool) \<Rightarrow> 'a IntRanges \<Rightarrow> 'a word list" where
  "RangeForeach f [] = []"
| "RangeForeach f (r # rs) =
     (case rangeLoop f (range_start r) (range_end r) (range_start r) of
        (xs, stop) \<Rightarrow> if stop then xs else xs @ RangeForeach f rs)"

text \<open>
  \<open>Merge\<close>: sort by start, then extend the last merged range or open a new one. The last
  merged range is an argument of the loop; the guard on its end plus one is the code's guard
  against overflow.
\<close>

fun mergeLoop :: "'a::len Range \<Rightarrow> 'a Range list \<Rightarrow> 'a Range list" where
  "mergeLoop cur [] = [cur]"
| "mergeLoop cur (r # rs) =
     (if range_end cur + 1 > range_end cur \<and> range_start r > range_end cur + 1
      then cur # mergeLoop r rs
      else if range_end r > range_end cur then mergeLoop (cur\<lparr>range_end := range_end r\<rparr>) rs
      else mergeLoop cur rs)"

definition Merge :: "'a::len IntRanges \<Rightarrow> 'a IntRanges" where
  "Merge ranges =
     (case sort_key range_start ranges of [] \<Rightarrow> [] | r # rs \<Rightarrow> mergeLoop r rs)"

section \<open>Properties\<close>

definition wf_range :: "'a::len Range \<Rightarrow> bool" where
  "wf_range r = (range_start r \<le> range_end r)"

lemma wf_NewRange: "wf_range (NewRange s e)"
  by (auto simp: wf_range_def NewRange_def)

lemma NewRange_contains: "RangeContains (NewRange s e) t \<longleftrightarrow> min s e \<le> t \<and> t \<le> max s e"
  by (auto simp: NewRange_def RangeContains_def min_def max_def)

lemma newIntRange_wf: "newIntRange s f = Inr r \<Longrightarrow> wf_range r"
  by (auto simp: newIntRange_def Let_def wf_NewRange split: if_splits sum.splits)

lemma newIntRangesFromList_wf:
  "newIntRangesFromList list f = Inr rs \<Longrightarrow> r \<in> set rs \<Longrightarrow> wf_range r"
  by (induction list f arbitrary: rs rule: newIntRangesFromList.induct)
    (auto split: if_splits sum.splits dest: newIntRange_wf)

text \<open>Every range of a parsed list is well formed (its start is at most its end).\<close>

lemma newIntRanges_wf: "newIntRanges s f = Inr rs \<Longrightarrow> r \<in> set rs \<Longrightarrow> wf_range r"
  by (auto simp: newIntRanges_def Let_def split: if_splits dest: newIntRangesFromList_wf)

lemma newIntRanges_length: "newIntRanges s f = Inr rs \<Longrightarrow> length rs \<le> 28"
proof -
  have "newIntRangesFromList list f = Inr rs \<Longrightarrow> length rs \<le> length list" for list rs
    by (induction list f arbitrary: rs rule: newIntRangesFromList.induct)
      (fastforce split: if_splits sum.splits)+
  then show "newIntRanges s f = Inr rs \<Longrightarrow> length rs \<le> 28"
    by (fastforce simp: newIntRanges_def Let_def split: if_splits)
qed

text \<open>
  The merge loop keeps the covered set: a value is in the result iff it is in the current
  range or in one of the remaining ones. Sortedness of the starts is what makes the extension
  of the current range exact.
\<close>

lemma mergeLoop_contains:
  assumes "sorted (map range_start (cur # rs))" "wf_range cur" "\<forall>r \<in> set rs. wf_range r"
  shows "list_ex (\<lambda>r. RangeContains r t) (mergeLoop cur rs) \<longleftrightarrow>
    RangeContains cur t \<or> list_ex (\<lambda>r. RangeContains r t) rs"
  using assms
proof (induction cur rs rule: mergeLoop.induct)
  case (2 cur r rs)
  let ?far = "range_end cur + 1 > range_end cur \<and> range_start r > range_end cur + 1"
  have st: "range_start cur \<le> range_start r" and wfr: "range_start r \<le> range_end r"
    and wfc: "range_start cur \<le> range_end cur"
    using 2(4-6) by (auto simp: wf_range_def)
  have near: "range_start r \<le> range_end cur + 1 \<or> range_end cur + 1 \<le> range_end cur" if "\<not> ?far"
    using that by auto
  show ?case
  proof (cases ?far)
    case True
    with 2 show ?thesis by simp
  next
    case nofar: False
    have glue: "RangeContains (cur\<lparr>range_end := range_end r\<rparr>) t \<longleftrightarrow>
        RangeContains cur t \<or> RangeContains r t" if "range_end r > range_end cur"
    proof -
      have "t \<ge> range_start r \<or> t \<le> range_end cur"
      proof (rule ccontr)
        assume "\<not> ?thesis"
        then have "t < range_start r" "range_end cur < t" by auto
        with nofar word_less_succ[of "range_end cur" t] show False
          by (auto simp: word_less_def word_le_def)
      qed
      with st wfr wfc that show ?thesis by (auto simp: RangeContains_def)
    qed
    show ?thesis
    proof (cases "range_end r > range_end cur")
      case True
      have "sorted (map range_start (cur\<lparr>range_end := range_end r\<rparr> # rs))"
        "wf_range (cur\<lparr>range_end := range_end r\<rparr>)"
        using 2(4) st wfr True wfc by (auto simp: wf_range_def)
      with 2(2)[OF nofar True] 2(6) nofar True glue[OF True] show ?thesis by auto
    next
      case False
      have "RangeContains r t \<Longrightarrow> RangeContains cur t"
        using False st wfc by (auto simp: RangeContains_def)
      with 2(3)[OF nofar False] 2(4-6) nofar False show ?thesis by auto
    qed
  qed
qed simp

lemma mergeLoop_nonempty [simp]: "mergeLoop cur rs \<noteq> []"
  by (induction cur rs rule: mergeLoop.induct) auto

lemma list_ex_sort_key: "list_ex P (sort_key f xs) = list_ex P xs"
  by (simp add: list_ex_iff)

text \<open>
  C40: merging the ranges of a parsed list keeps the set of accepted values, for every value,
  also where a range ends at the largest value of the type and the guarded increment would wrap.
\<close>

theorem Merge_Check:
  assumes "\<forall>r \<in> set ranges. wf_range r"
  shows "Check (Merge ranges) t = Check ranges t"
proof (cases "sort_key range_start ranges")
  case Nil
  then have "length (sort_key range_start ranges) = 0" by simp
  then have "ranges = []" by simp
  then show ?thesis by (simp add: Merge_def)
next
  case (Cons r rs)
  have ne: "ranges \<noteq> []" using Cons by auto
  have set: "set (r # rs) = set ranges" using Cons by (metis set_sort)
  have "sorted (map range_start (r # rs))" using Cons by (metis sorted_sort_key)
  moreover have "wf_range r" "\<forall>r \<in> set rs. wf_range r" using assms set by auto
  ultimately have "list_ex (\<lambda>r. RangeContains r t) (mergeLoop r rs) \<longleftrightarrow>
    list_ex (\<lambda>r. RangeContains r t) (r # rs)"
    by (simp add: mergeLoop_contains)
  also have "\<dots> \<longleftrightarrow> list_ex (\<lambda>r. RangeContains r t) ranges"
    using set by (simp only: list_ex_iff)
  finally show ?thesis using ne Cons by (simp add: Check_def Merge_def)
qed

theorem Merge_Check_witness:
  "Check (Merge [NewRange (65000 :: u16) 65535, NewRange 65100 65200, NewRange 1 2]) 65535 =
   Check [NewRange (65000 :: u16) 65535, NewRange 65100 65200, NewRange 1 2] 65535"
  by (rule Merge_Check) (simp add: wf_NewRange)

end
