(* ===== verification/Rules.thy ===== *)
theory Rules
  imports Metadata Wildcard IntRanges
begin

text \<open>
  The rules that route a connection (src/rules/common, src/rules/logic/logic.go,
  src/rules/provider, src/rules/wrapper). A rule is a value of \<open>rule\<close>: one of the plain rules
  of \<open>rules/common\<close> (\<open>BaseRule\<close>, one constructor per Go struct, its arguments the struct's
  fields in the order of the source), a reference to a rule provider, or a logic rule with its
  operands. \<open>Match\<close> threads the connection's metadata, which rules change (the looked-up
  country codes and AS number), together with the state the caller's helper closures keep.

  What the rules call outside the repository is a field of \<open>RuleEnv\<close>: the regular expression
  engine, the geo databases and the operating system's name. The rule providers and the
  sub-rule table, which a rule reaches by name, are fields too. A reference by name can be
  circular; matching therefore takes a bound on the depth of such references and reports
  \<open>Diverge\<close> when it is exceeded, and an index out of range is \<open>Panic\<close>.
\<close>

section \<open>Rules\<close>

datatype BaseRule =
    Domain string string
  | DomainSuffix string string
  | DomainKeyword string string
  | DomainRegex string string
  | DomainWildcard string string
  | GEOSITE string string
  | GEOIP string string bool bool
  | ASN string string bool bool
  | IPCIDR Prefix string bool bool
  | IPSuffix "u8 list" nat string string bool bool
  | Port string string RuleType "16 IntRanges"
  | DSCP "8 IntRanges" string string
  | Uid "32 IntRanges" string string
  | InType "InboundType list" string string
  | InUser "string list" string string
  | InName "string list" string string
  | RematchName "string list" string string
  | Process string string RuleType
  | NetworkType NetWork string
  | MatchAll string

datatype rule =
    Base BaseRule
  | RuleSet string string bool bool
  | Logic string string RuleType "rule list"


section \<open>The environment of a match\<close>

text \<open>The strategy behind a rule provider; \<open>None\<close> is the nil set before the first load.\<close>

datatype ruleStrategy =
    domainStrategy "(string \<Rightarrow> bool) option"
  | ipcidrStrategy "(Addr \<Rightarrow> bool) option"
  | classicalStrategy "rule list"

record RuleEnv =
  regexp2_Compile :: "string \<Rightarrow> string option"
  regexp2_MatchString :: "string \<Rightarrow> string \<Rightarrow> bool"
  GOOS :: string
  GeodataMode :: bool
  InitGeoSite :: "string option"
  InitGeoIP :: "string option"
  InitASN :: "string option"
  LoadGeoSiteMatcher :: "string \<Rightarrow> (string \<Rightarrow> bool) result"
  LoadGeoIPMatcher :: "string \<Rightarrow> (Addr \<Rightarrow> bool) result"
  LookupCode :: "u8 list \<Rightarrow> string list option"
  LookupASN :: "u8 list \<Rightarrow> string \<times> string"
  RuleProviders :: "string \<Rightarrow> ruleStrategy option option"
  subRules :: "string \<Rightarrow> rule list"

text \<open>
  The closures of \<open>RuleMatchHelper\<close> see the metadata and change it and variables of their own, of type
  \<open>'s\<close>; a nil closure is \<open>None\<close>.
\<close>

type_synonym 's mstate = "'s \<times> Metadata"

record 's RuleMatchHelper =
  ResolveIP :: "('s mstate \<Rightarrow> 's mstate) option"
  FindProcess :: "('s mstate \<Rightarrow> 's mstate) option"
  CheckPassRule :: "(Metadata \<Rightarrow> string \<Rightarrow> bool) option"

definition call_helper :: "('s mstate \<Rightarrow> 's mstate) option \<Rightarrow> 's mstate \<Rightarrow> 's mstate" where
  "call_helper f st = (case f of None \<Rightarrow> st | Some g \<Rightarrow> g st)"

text \<open>The opening of the address rules: resolve the host unless told not to.\<close>

definition resolve_unless :: "bool \<Rightarrow> bool \<Rightarrow> 's RuleMatchHelper \<Rightarrow> 's mstate \<Rightarrow> 's mstate" where
  "resolve_unless noResolveIP isSourceIP h st =
     (if \<not> noResolveIP \<and> \<not> isSourceIP then call_helper (ResolveIP h) st else st)"

definition rule_ip :: "bool \<Rightarrow> Metadata \<Rightarrow> Addr" where
  "rule_ip isSourceIP m = (if isSourceIP then md_SrcIP m else md_DstIP m)"

section \<open>Plain rules\<close>

subsection \<open>Domain rules\<close>

definition NewDomain :: "string \<Rightarrow> string \<Rightarrow> BaseRule" where
  "NewDomain domain adapter = Domain (ToLower domain) adapter"

definition Domain_Match :: "string \<Rightarrow> Metadata \<Rightarrow> bool" where
  "Domain_Match domain m = (RuleHost m = domain)"

definition NewDomainSuffix :: "string \<Rightarrow> string \<Rightarrow> BaseRule" where
  "NewDomainSuffix sfx adapter = DomainSuffix (ToLower sfx) adapter"

definition DomainSuffix_Match :: "string \<Rightarrow> Metadata \<Rightarrow> bool" where
  "DomainSuffix_Match sfx m =
     (let domain = RuleHost m in HasSuffix domain (''.'' @ sfx) \<or> domain = sfx)"

definition NewDomainKeyword :: "string \<Rightarrow> string \<Rightarrow> BaseRule" where
  "NewDomainKeyword keyword adapter = DomainKeyword (ToLower keyword) adapter"

definition DomainKeyword_Match :: "string \<Rightarrow> Metadata \<Rightarrow> bool" where
  "DomainKeyword_Match keyword m = Contains (RuleHost m) keyword"

definition NewDomainRegex :: "RuleEnv \<Rightarrow> string \<Rightarrow> string \<Rightarrow> BaseRule result" where
  "NewDomainRegex env regex adapter = (case regexp2_Compile env regex of
     Some err \<Rightarrow> Inl err
   | None \<Rightarrow> Inr (DomainRegex regex adapter))"

definition DomainRegex_Match :: "RuleEnv \<Rightarrow> string \<Rightarrow> Metadata \<Rightarrow> bool" where
  "DomainRegex_Match env regex m = regexp2_MatchString env regex (RuleHost m)"

definition NewDomainWildcard :: "string \<Rightarrow> string \<Rightarrow> BaseRule result" where
  "NewDomainWildcard pattern adapter = Inr (DomainWildcard (ToLower pattern) adapter)"

definition DomainWildcard_Match :: "string \<Rightarrow> Metadata \<Rightarrow> bool" where
  "DomainWildcard_Match pattern m = (MatchWildcard pattern (RuleHost m) = Some True)"

definition GEOSITE_MatchDomain :: "RuleEnv \<Rightarrow> string \<Rightarrow> string \<Rightarrow> bool" where
  "GEOSITE_MatchDomain env country domain =
     (if length domain = 0 then False
      else case LoadGeoSiteMatcher env country of
        Inl _ \<Rightarrow> False
      | Inr matcher \<Rightarrow> matcher domain)"

definition NewGEOSITE :: "RuleEnv \<Rightarrow> string \<Rightarrow> string \<Rightarrow> BaseRule result" where
  "NewGEOSITE env country adapter = (case InitGeoSite env of
     Some err \<Rightarrow> Inl err
   | None \<Rightarrow> (case LoadGeoSiteMatcher env country of
       Inl err \<Rightarrow> Inl (''load GeoSite data error, '' @ err)
     | Inr _ \<Rightarrow> Inr (GEOSITE country adapter)))"

subsection \<open>Address rules\<close>

definition isLan :: "Addr \<Rightarrow> bool" where
  "isLan ip = (IsPrivate ip \<or> IsUnspecified ip \<or> IsLoopback ip \<or> IsMulticast ip
     \<or> IsLinkLocalUnicast ip)"

definition geo_codes :: "bool \<Rightarrow> Metadata \<Rightarrow> string list option" where
  "geo_codes isSourceIP m = (if isSourceIP then md_SrcGeoIP m else md_DstGeoIP m)"

definition set_geo_codes :: "bool \<Rightarrow> string list option \<Rightarrow> Metadata \<Rightarrow> Metadata" where
  "set_geo_codes isSourceIP cs m =
     (if isSourceIP then m\<lparr>md_SrcGeoIP := cs\<rparr> else m\<lparr>md_DstGeoIP := cs\<rparr>)"

text \<open>\<open>slices.Contains\<close> on a slice that may be nil.\<close>

definition slice_contains :: "string list option \<Rightarrow> string \<Rightarrow> bool" where
  "slice_contains xs x = (case xs of None \<Rightarrow> False | Some ys \<Rightarrow> x \<in> set ys)"

definition slice_append :: "string list option \<Rightarrow> string \<Rightarrow> string list option" where
  "slice_append xs x = (case xs of None \<Rightarrow> Some [x] | Some ys \<Rightarrow> Some (ys @ [x]))"

text \<open>The part of \<open>GEOIP.Match\<close> after the resolution of the host.\<close>

definition GEOIP_Match_ip ::
  "RuleEnv \<Rightarrow> string \<Rightarrow> string \<Rightarrow> bool \<Rightarrow> Metadata \<Rightarrow> (bool \<times> string) \<times> Metadata" where
  "GEOIP_Match_ip env country adapter isSourceIP m =
     (let ip = rule_ip isSourceIP m in
      if \<not> IsValid ip then ((False, []), m)
      else if country = ''lan'' then ((isLan ip, adapter), m)
      else if GeodataMode env then
        (if slice_contains (geo_codes isSourceIP m) country then ((True, adapter), m)
         else case LoadGeoIPMatcher env country of
           Inl _ \<Rightarrow> ((False, []), m)
         | Inr matcher \<Rightarrow>
             ((matcher ip, adapter),
              if matcher ip
              then set_geo_codes isSourceIP (slice_append (geo_codes isSourceIP m) country) m
              else m))
      else if geo_codes isSourceIP m \<noteq> None then
        ((slice_contains (geo_codes isSourceIP m) country, adapter), m)
      else
        (let codes = LookupCode env (AsSlice ip);
             m1 = set_geo_codes isSourceIP codes m
         in if slice_contains codes country then ((True, adapter), m1)
            else ((False, []), m1)))"

definition GEOIP_MatchIp :: "RuleEnv \<Rightarrow> string \<Rightarrow> Addr \<Rightarrow> bool" where
  "GEOIP_MatchIp env country ip =
     (if \<not> IsValid ip then False
      else if country = ''lan'' then isLan ip
      else if GeodataMode env then
        (case LoadGeoIPMatcher env country of Inl _ \<Rightarrow> False | Inr matcher \<Rightarrow> matcher ip)
      else slice_contains (LookupCode env (AsSlice ip)) country)"

definition dnsFallbackFilter_MatchIp :: "RuleEnv \<Rightarrow> string \<Rightarrow> Addr \<Rightarrow> bool" where
  "dnsFallbackFilter_MatchIp env country ip =
     (if \<not> IsValid ip then False
      else if isLan ip then False
      else if country = ''lan'' then \<not> isLan ip
      else if GeodataMode env then
        (case LoadGeoIPMatcher env country of Inl _ \<Rightarrow> False | Inr matcher \<Rightarrow> \<not> matcher ip)
      else \<not> slice_contains (LookupCode env (AsSlice ip)) country)"

definition NewGEOIP :: "RuleEnv \<Rightarrow> string \<Rightarrow> string \<Rightarrow> bool \<Rightarrow> bool \<Rightarrow> BaseRule result" where
  "NewGEOIP env country0 adapter isSrc noResolveIP =
     (let country = ToLower country0; geoip = GEOIP country adapter noResolveIP isSrc in
      if country = ''lan'' then Inr geoip
      else case InitGeoIP env of
        Some err \<Rightarrow> Inl err
      | None \<Rightarrow>
          (if GeodataMode env then
             (case LoadGeoIPMatcher env country of
                Inl err \<Rightarrow> Inl (''[GeoIP] '' @ err) | Inr _ \<Rightarrow> Inr geoip)
           else Inr geoip))"

definition ASN_Match_ip ::
  "RuleEnv \<Rightarrow> string \<Rightarrow> string \<Rightarrow> bool \<Rightarrow> Metadata \<Rightarrow> (bool \<times> string) \<times> Metadata" where
  "ASN_Match_ip env asn0 adapter isSourceIP m =
     (let ip = rule_ip isSourceIP m in
      if \<not> IsValid ip then ((False, []), m)
      else
        (let (asn, aso) = LookupASN env (AsSlice ip) in
         ((asn0 = asn, adapter),
          if isSourceIP then m\<lparr>md_SrcIPASN := asn @ '' '' @ aso\<rparr>
          else m\<lparr>md_DstIPASN := asn @ '' '' @ aso\<rparr>)))"

definition NewIPASN :: "RuleEnv \<Rightarrow> string \<Rightarrow> string \<Rightarrow> bool \<Rightarrow> bool \<Rightarrow> BaseRule result" where
  "NewIPASN env asn adapter isSrc noResolveIP = (case InitASN env of
     Some err \<Rightarrow> Inl err
   | None \<Rightarrow> Inr (ASN asn adapter noResolveIP isSrc))"

definition IPCIDR_Match_ip :: "Prefix \<Rightarrow> bool \<Rightarrow> Metadata \<Rightarrow> bool" where
  "IPCIDR_Match_ip ipnet isSourceIP m =
     (let ip = rule_ip isSourceIP m in IsValid ip \<and> PrefixContains ipnet (WithZone ip []))"

definition NewIPCIDR :: "string \<Rightarrow> string \<Rightarrow> bool \<Rightarrow> bool \<Rightarrow> BaseRule result" where
  "NewIPCIDR s adapter isSourceIP noResolveIP = (case ParsePrefix s of
     None \<Rightarrow> Inl ''payloadRule error''
   | Some ipnet \<Rightarrow> Inr (IPCIDR ipnet adapter isSourceIP noResolveIP))"

text \<open>The loop over whole bytes, from the \<open>i\<close>-th byte counted from the end down to the last.\<close>

fun suffix_bytes_eq :: "nat \<Rightarrow> u8 list \<Rightarrow> u8 list \<Rightarrow> bool" where
  "suffix_bytes_eq 0 a b = True"
| "suffix_bytes_eq (Suc i) a b =
     (if a ! (length b - Suc i) \<noteq> b ! (length b - Suc i) then False
      else suffix_bytes_eq i a b)"

definition IPSuffix_Match_ip :: "u8 list \<Rightarrow> nat \<Rightarrow> bool \<Rightarrow> Metadata \<Rightarrow> bool" where
  "IPSuffix_Match_ip ipBytes bits isSourceIP m =
     (let mIPBytes = AsSlice (rule_ip isSourceIP m); sz = length mIPBytes in
      if length ipBytes \<noteq> sz then False
      else if \<not> suffix_bytes_eq (bits div 8) ipBytes mIPBytes then False
      else if bits mod 8 \<noteq> 0
           \<and> push_bit (8 - bits mod 8) (ipBytes ! (sz - bits div 8 - 1))
             \<noteq> push_bit (8 - bits mod 8) (mIPBytes ! (sz - bits div 8 - 1))
      then False else True)"

definition NewIPSuffix :: "string \<Rightarrow> string \<Rightarrow> bool \<Rightarrow> bool \<Rightarrow> BaseRule result" where
  "NewIPSuffix payload adapter isSrc noResolveIP = (case ParsePrefix payload of
     None \<Rightarrow> Inl ''payloadRule error''
   | Some ipnet \<Rightarrow>
       Inr (IPSuffix (AsSlice (pfx_addr ipnet)) (pfx_bits ipnet) payload adapter isSrc noResolveIP))"

subsection \<open>Port, DSCP and user rules\<close>

definition Port_Match :: "RuleType \<Rightarrow> 16 IntRanges \<Rightarrow> Metadata \<Rightarrow> bool" where
  "Port_Match ruleType portRanges m =
     (let targetPort = (if ruleType = RT_InPort then md_InPort m
                        else if ruleType = RT_SrcPort then md_SrcPort m
                        else md_DstPort m)
      in Check portRanges targetPort)"

definition NewPort :: "string \<Rightarrow> string \<Rightarrow> RuleType \<Rightarrow> BaseRule result" where
  "NewPort port adapter ruleType = (case NewUnsignedRanges port of
     Inl err \<Rightarrow> Inl (''payloadRule error, '' @ err)
   | Inr portRanges \<Rightarrow>
       (if length portRanges = 0 then Inl ''payloadRule error''
        else Inr (Port adapter port ruleType portRanges)))"

definition DSCP_Match :: "8 IntRanges \<Rightarrow> Metadata \<Rightarrow> bool" where
  "DSCP_Match ranges m = Check ranges (md_DSCP m)"

definition NewDSCP :: "string \<Rightarrow> string \<Rightarrow> BaseRule result" where
  "NewDSCP dscp adapter = (case NewUnsignedRanges dscp of
     Inl err \<Rightarrow> Inl (''parse DSCP rule fail: '' @ err)
   | Inr ranges \<Rightarrow>
       (if list_ex (\<lambda>r. range_end r > 63) ranges
        then Inl ''DSCP couldn't be negative or exceed 63''
        else Inr (DSCP ranges dscp adapter)))"

definition Uid_Match :: "32 IntRanges \<Rightarrow> string \<Rightarrow> Metadata \<Rightarrow> bool \<times> string" where
  "Uid_Match uids adapter m =
     (if md_Uid m \<noteq> 0 \<and> Check uids (md_Uid m) then (True, adapter) else (False, []))"

definition NewUid :: "RuleEnv \<Rightarrow> string \<Rightarrow> string \<Rightarrow> BaseRule result" where
  "NewUid env oUid adapter =
     (if \<not> (GOOS env = ''linux'' \<or> GOOS env = ''android'')
      then Inl ''uid rule not support this platform''
      else case NewUnsignedRanges oUid of
        Inl err \<Rightarrow> Inl (''payloadRule error, '' @ err)
      | Inr uidRange \<Rightarrow>
          (if length uidRange = 0 then Inl ''payloadRule error''
           else Inr (Uid uidRange oUid adapter)))"

subsection \<open>Inbound and rematch-name rules\<close>

text \<open>The loop that trims each part of a \<open>/\<close>-separated list and rejects an empty one.\<close>

fun trim_names :: "string \<Rightarrow> string list \<Rightarrow> string list result" where
  "trim_names what [] = Inr []"
| "trim_names what (x # xs) =
     (let name = TrimSpace x in
      if length name = 0 then Inl (what @ '' couldn't be empty'')
      else case trim_names what xs of Inl e \<Rightarrow> Inl e | Inr ys \<Rightarrow> Inr (name # ys))"

fun member_loop :: "'a \<Rightarrow> 'a list \<Rightarrow> string \<Rightarrow> bool \<times> string" where
  "member_loop x [] adapter = (False, [])"
| "member_loop x (y # ys) adapter =
     (if x = y then (True, adapter) else member_loop x ys adapter)"

fun parseInTypes :: "string list \<Rightarrow> InboundType list result" where
  "parseInTypes [] = Inr []"
| "parseInTypes (tp # tps) =
     (let utp = ToUpper tp in
      if utp = ''SOCKS'' then
        (case parseInTypes tps of Inl e \<Rightarrow> Inl e | Inr res \<Rightarrow> Inr (SOCKS4 # SOCKS5 # res))
      else case ParseType utp of
        Inl e \<Rightarrow> Inl e
      | Inr r \<Rightarrow> (case parseInTypes tps of Inl e \<Rightarrow> Inl e | Inr res \<Rightarrow> Inr (r # res)))"

definition NewInType :: "string \<Rightarrow> string \<Rightarrow> BaseRule result" where
  "NewInType iTypes adapter = (case trim_names ''in type'' (Split iTypes (CHR ''/'')) of
     Inl e \<Rightarrow> Inl e
   | Inr types \<Rightarrow> (case parseInTypes types of
       Inl e \<Rightarrow> Inl e
     | Inr tps \<Rightarrow> Inr (InType tps adapter (ToUpper iTypes))))"

definition InType_Match :: "InboundType list \<Rightarrow> string \<Rightarrow> Metadata \<Rightarrow> bool \<times> string" where
  "InType_Match types adapter m = member_loop (md_Type m) types adapter"

definition NewInUser :: "string \<Rightarrow> string \<Rightarrow> BaseRule result" where
  "NewInUser iUsers adapter = (case trim_names ''in user'' (Split iUsers (CHR ''/'')) of
     Inl e \<Rightarrow> Inl e | Inr users \<Rightarrow> Inr (InUser users adapter iUsers))"

definition InUser_Match :: "string list \<Rightarrow> string \<Rightarrow> Metadata \<Rightarrow> bool \<times> string" where
  "InUser_Match users adapter m = member_loop (md_InUser m) users adapter"

definition NewInName :: "string \<Rightarrow> string \<Rightarrow> BaseRule result" where
  "NewInName iNames adapter = (case trim_names ''in name'' (Split iNames (CHR ''/'')) of
     Inl e \<Rightarrow> Inl e | Inr names \<Rightarrow> Inr (InName names adapter iNames))"

definition InName_Match :: "string list \<Rightarrow> string \<Rightarrow> Metadata \<Rightarrow> bool \<times> string" where
  "InName_Match names adapter m = member_loop (md_InName m) names adapter"

definition NewRematchName :: "string \<Rightarrow> string \<Rightarrow> BaseRule result" where
  "NewRematchName iNames adapter = (case trim_names ''rematch name'' (Split iNames (CHR ''/'')) of
     Inl e \<Rightarrow> Inl e | Inr names \<Rightarrow> Inr (RematchName names adapter iNames))"

definition RematchName_Match :: "string list \<Rightarrow> string \<Rightarrow> Metadata \<Rightarrow> bool \<times> string" where
  "RematchName_Match names adapter m = member_loop (md_RematchName m) names adapter"

subsection \<open>Process, network and final rules\<close>

definition process_target :: "RuleType \<Rightarrow> Metadata \<Rightarrow> string" where
  "process_target ruleType m =
     (if ruleType = RT_ProcessName \<or> ruleType = RT_ProcessNameRegex
         \<or> ruleType = RT_ProcessNameWildcard
      then md_Process m else md_ProcessPath m)"

definition Process_Match :: "RuleEnv \<Rightarrow> string \<Rightarrow> RuleType \<Rightarrow> Metadata \<Rightarrow> bool" where
  "Process_Match env pattern ruleType m =
     (let target = process_target ruleType m in
      if ruleType = RT_ProcessNameRegex \<or> ruleType = RT_ProcessPathRegex
      then regexp2_MatchString env pattern target
      else if ruleType = RT_ProcessNameWildcard \<or> ruleType = RT_ProcessPathWildcard
      then MatchWildcard (ToLower pattern) (ToLower target) = Some True
      else EqualFold target pattern)"

definition NewProcess :: "RuleEnv \<Rightarrow> string \<Rightarrow> string \<Rightarrow> RuleType \<Rightarrow> BaseRule result" where
  "NewProcess env pattern adapter ruleType =
     (if ruleType = RT_ProcessNameRegex \<or> ruleType = RT_ProcessPathRegex
      then (case regexp2_Compile env pattern of
              Some err \<Rightarrow> Inl err | None \<Rightarrow> Inr (Process pattern adapter ruleType))
      else Inr (Process pattern adapter ruleType))"

definition NewNetworkType :: "string \<Rightarrow> string \<Rightarrow> BaseRule result" where
  "NewNetworkType network adapter =
     (if ToUpper network = ''TCP'' then Inr (NetworkType TCP adapter)
      else if ToUpper network = ''UDP'' then Inr (NetworkType UDP adapter)
      else Inl ''unsupported network type, only TCP/UDP'')"

definition NetworkType_Match :: "NetWork \<Rightarrow> Metadata \<Rightarrow> bool" where
  "NetworkType_Match network m = (network = md_NetWork m)"

definition NewMatch :: "string \<Rightarrow> BaseRule" where
  "NewMatch adapter = MatchAll adapter"

section \<open>Matching\<close>

definition on_meta :: "(Metadata \<Rightarrow> 'a \<times> Metadata) \<Rightarrow> 's mstate \<Rightarrow> 'a \<times> 's mstate" where
  "on_meta f st = (case f (snd st) of (r, m) \<Rightarrow> (r, (fst st, m)))"

text \<open>The method \<open>Match\<close> of each struct of \<open>rules/common\<close>.\<close>

fun Match :: "RuleEnv \<Rightarrow> BaseRule \<Rightarrow> 's RuleMatchHelper \<Rightarrow> 's mstate
    \<Rightarrow> (bool \<times> string) \<times> 's mstate" where
  "Match env (Domain d a) h st = ((Domain_Match d (snd st), a), st)"
| "Match env (DomainSuffix d a) h st = ((DomainSuffix_Match d (snd st), a), st)"
| "Match env (DomainKeyword k a) h st = ((DomainKeyword_Match k (snd st), a), st)"
| "Match env (DomainRegex r a) h st = ((DomainRegex_Match env r (snd st), a), st)"
| "Match env (DomainWildcard p a) h st = ((DomainWildcard_Match p (snd st), a), st)"
| "Match env (GEOSITE c a) h st = ((GEOSITE_MatchDomain env c (RuleHost (snd st)), a), st)"
| "Match env (GEOIP c a noRes isSrc) h st =
     on_meta (GEOIP_Match_ip env c a isSrc) (resolve_unless noRes isSrc h st)"
| "Match env (ASN n a noRes isSrc) h st =
     on_meta (ASN_Match_ip env n a isSrc) (resolve_unless noRes isSrc h st)"
| "Match env (IPCIDR p a isSrc noRes) h st =
     (let st1 = resolve_unless noRes isSrc h st in ((IPCIDR_Match_ip p isSrc (snd st1), a), st1))"
| "Match env (IPSuffix bs bits pl a isSrc noRes) h st =
     (let st1 = resolve_unless noRes isSrc h st in
      (if IPSuffix_Match_ip bs bits isSrc (snd st1) then (True, a) else (False, []), st1))"
| "Match env (Port a p tp ranges) h st = ((Port_Match tp ranges (snd st), a), st)"
| "Match env (DSCP ranges pl a) h st = ((DSCP_Match ranges (snd st), a), st)"
| "Match env (Uid uids ouid a) h st =
     (let st1 = call_helper (FindProcess h) st in (Uid_Match uids a (snd st1), st1))"
| "Match env (InType tps a pl) h st = (InType_Match tps a (snd st), st)"
| "Match env (InUser us a pl) h st = (InUser_Match us a (snd st), st)"
| "Match env (InName ns a pl) h st = (InName_Match ns a (snd st), st)"
| "Match env (RematchName ns a pl) h st = (RematchName_Match ns a (snd st), st)"
| "Match env (Process p a tp) h st =
     (let st1 = call_helper (FindProcess h) st in ((Process_Match env p tp (snd st1), a), st1))"
| "Match env (NetworkType n a) h st = ((NetworkType_Match n (snd st), a), st)"
| "Match env (MatchAll a) h st = ((True, a), st)"

text \<open>The methods \<open>Adapter\<close>, \<open>RuleType\<close>, \<open>Payload\<close> and \<open>ProviderNames\<close>.\<close>

fun BaseAdapter :: "BaseRule \<Rightarrow> string" where
  "BaseAdapter (Domain d a) = a"
| "BaseAdapter (DomainSuffix d a) = a"
| "BaseAdapter (DomainKeyword k a) = a"
| "BaseAdapter (DomainRegex r a) = a"
| "BaseAdapter (DomainWildcard p a) = a"
| "BaseAdapter (GEOSITE c a) = a"
| "BaseAdapter (GEOIP c a noRes isSrc) = a"
| "BaseAdapter (ASN n a noRes isSrc) = a"
| "BaseAdapter (IPCIDR p a isSrc noRes) = a"
| "BaseAdapter (IPSuffix bs bits pl a isSrc noRes) = a"
| "BaseAdapter (Port a p tp ranges) = a"
| "BaseAdapter (DSCP ranges pl a) = a"
| "BaseAdapter (Uid uids ouid a) = a"
| "BaseAdapter (InType tps a pl) = a"
| "BaseAdapter (InUser us a pl) = a"
| "BaseAdapter (InName ns a pl) = a"
| "BaseAdapter (RematchName ns a pl) = a"
| "BaseAdapter (Process p a tp) = a"
| "BaseAdapter (NetworkType n a) = a"
| "BaseAdapter (MatchAll a) = a"

fun Adapter :: "rule \<Rightarrow> string" where
  "Adapter (Base b) = BaseAdapter b"
| "Adapter (RuleSet n a isSrc noRes) = a"
| "Adapter (Logic pl a tp rs) = a"

fun RuleType_of :: "rule \<Rightarrow> RuleType" where
  "RuleType_of (Base b) = (case b of
      Domain _ _ \<Rightarrow> RT_Domain
    | DomainSuffix _ _ \<Rightarrow> RT_DomainSuffix
    | DomainKeyword _ _ \<Rightarrow> RT_DomainKeyword
    | DomainRegex _ _ \<Rightarrow> RT_DomainRegex
    | DomainWildcard _ _ \<Rightarrow> RT_DomainWildcard
    | GEOSITE _ _ \<Rightarrow> RT_GEOSITE
    | GEOIP _ _ _ isSrc \<Rightarrow> (if isSrc then RT_SrcGEOIP else RT_GEOIP)
    | ASN _ _ _ isSrc \<Rightarrow> (if isSrc then RT_SrcIPASN else RT_IPASN)
    | IPCIDR _ _ isSrc _ \<Rightarrow> (if isSrc then RT_SrcIPCIDR else RT_IPCIDR)
    | IPSuffix _ _ _ _ isSrc _ \<Rightarrow> (if isSrc then RT_SrcIPSuffix else RT_IPSuffix)
    | Port _ _ tp _ \<Rightarrow> tp
    | DSCP _ _ _ \<Rightarrow> RT_DSCP
    | Uid _ _ _ \<Rightarrow> RT_Uid
    | InType _ _ _ \<Rightarrow> RT_InType
    | InUser _ _ _ \<Rightarrow> RT_InUser
    | InName _ _ _ \<Rightarrow> RT_InName
    | RematchName _ _ _ \<Rightarrow> RT_RematchName
    | Process _ _ tp \<Rightarrow> tp
    | NetworkType _ _ \<Rightarrow> RT_Network
    | MatchAll _ \<Rightarrow> RT_MATCH)"
| "RuleType_of (RuleSet n a isSrc noRes) = RT_RuleSet"
| "RuleType_of (Logic pl a tp rs) = tp"

fun BasePayload :: "BaseRule \<Rightarrow> string" where
  "BasePayload (Domain d a) = d"
| "BasePayload (DomainSuffix d a) = d"
| "BasePayload (DomainKeyword k a) = k"
| "BasePayload (DomainRegex r a) = r"
| "BasePayload (DomainWildcard p a) = p"
| "BasePayload (GEOSITE c a) = c"
| "BasePayload (GEOIP c a noRes isSrc) = c"
| "BasePayload (ASN n a noRes isSrc) = n"
| "BasePayload (IPCIDR p a isSrc noRes) =
     AddrString (pfx_addr p) @ ''/'' @ FormatUint (int (pfx_bits p))"
| "BasePayload (IPSuffix bs bits pl a isSrc noRes) = pl"
| "BasePayload (Port a p tp ranges) = p"
| "BasePayload (DSCP ranges pl a) = pl"
| "BasePayload (Uid uids ouid a) = ouid"
| "BasePayload (InType tps a pl) = pl"
| "BasePayload (InUser us a pl) = pl"
| "BasePayload (InName ns a pl) = pl"
| "BasePayload (RematchName ns a pl) = pl"
| "BasePayload (Process p a tp) = p"
| "BasePayload (NetworkType n a) = NetWorkString n"
| "BasePayload (MatchAll a) = []"

text \<open>The payload of a logic rule is printed from its operands, once; the first print wins.\<close>

fun Payload :: "rule \<Rightarrow> string" where
  "Payload (Base b) = BasePayload b"
| "Payload (RuleSet n a isSrc noRes) = n"
| "Payload (Logic pl a tp rs) =
     (let items = map (\<lambda>r. ''('' @ RuleTypeString (RuleType_of r) @ '','' @ Payload r @ '')'') rs in
      if tp = RT_NOT then (case items of x # _ \<Rightarrow> ''(!'' @ x @ '')'' | [] \<Rightarrow> pl)
      else if tp = RT_OR then ''('' @ Join items '' || '' @ '')''
      else if tp = RT_AND then ''('' @ Join items '' && '' @ '')''
      else pl)"

fun ProviderNames :: "rule \<Rightarrow> string list" where
  "ProviderNames (Base b) = []"
| "ProviderNames (RuleSet n a isSrc noRes) = [n]"
| "ProviderNames (Logic pl a tp rs) = concat (map ProviderNames rs)"

text \<open>
  \<open>RuleSet.Match\<close> and the \<open>Match\<close> of the two leaf strategies. In source mode the strategy sees
  the addresses swapped, the deferred second swap restores them, and the host is never
  resolved.
\<close>

definition swap_state :: "'s mstate \<Rightarrow> 's mstate" where
  "swap_state st = (fst st, SwapSrcDst (snd st))"

definition ruleSet_helper :: "bool \<Rightarrow> bool \<Rightarrow> 's RuleMatchHelper \<Rightarrow> 's RuleMatchHelper" where
  "ruleSet_helper isSrc noResolveIP h =
     (if isSrc then h\<lparr>ResolveIP := None\<rparr>
      else if noResolveIP then h\<lparr>ResolveIP := None\<rparr> else h)"

definition ruleSet_swap :: "bool \<Rightarrow> 's mstate \<Rightarrow> 's mstate" where
  "ruleSet_swap isSrc st = (if isSrc then swap_state st else st)"

definition domainStrategy_Match :: "(string \<Rightarrow> bool) option \<Rightarrow> Metadata \<Rightarrow> bool" where
  "domainStrategy_Match domainSet m =
     (case domainSet of None \<Rightarrow> False | Some has \<Rightarrow> has (RuleHost m))"

definition ipcidrStrategy_Match ::
  "(Addr \<Rightarrow> bool) option \<Rightarrow> 's RuleMatchHelper \<Rightarrow> 's mstate \<Rightarrow> bool \<times> 's mstate" where
  "ipcidrStrategy_Match cidrSet h st =
     (let st1 = call_helper (ResolveIP h) st in
      (case cidrSet of None \<Rightarrow> False | Some inside \<Rightarrow> inside (md_DstIP (snd st1)), st1))"

text \<open>The test of the sub-rule loop for an outcome that moves on to the next rule.\<close>

definition passes :: "'s RuleMatchHelper \<Rightarrow> Metadata \<Rightarrow> string \<Rightarrow> bool" where
  "passes h m a = (a = ''PASS-RULE'' \<or>
     (case CheckPassRule h of None \<Rightarrow> False | Some f \<Rightarrow> f m a))"

text \<open>The bound and the size of the rules still to be matched, for termination.\<close>

fun match_depth where
  "match_depth (Inl (Inl (n, _))) = (n :: nat)"
| "match_depth (Inl (Inr (n, _))) = n"
| "match_depth (Inr (Inl (n, _))) = n"
| "match_depth (Inr (Inr (n, _))) = n"

fun match_size where
  "match_size (Inl (Inl (_, _, r, _))) = size (r :: rule)"
| "match_size (Inl (Inr (_, _, rs, _))) = size_list size (rs :: rule list)"
| "match_size (Inr (Inl (_, _, rs, _))) = size_list size (rs :: rule list)"
| "match_size (Inr (Inr (_, _, rs, _))) = size_list size (rs :: rule list)"

text \<open>
  The dispatch of \<open>Match\<close>, with the loops of \<open>Logic.Match\<close> and of a classical rule set. The
  first argument bounds the depth of references by name.
\<close>

function (sequential) ruleMatch :: "nat \<Rightarrow> RuleEnv \<Rightarrow> rule \<Rightarrow> 's RuleMatchHelper \<Rightarrow> 's mstate
      \<Rightarrow> ((bool \<times> string) \<times> 's mstate) outcome"
  and matchAny :: "nat \<Rightarrow> RuleEnv \<Rightarrow> rule list \<Rightarrow> 's RuleMatchHelper \<Rightarrow> 's mstate
      \<Rightarrow> (bool \<times> 's mstate) outcome"
  and matchEvery :: "nat \<Rightarrow> RuleEnv \<Rightarrow> rule list \<Rightarrow> 's RuleMatchHelper \<Rightarrow> 's mstate
      \<Rightarrow> (bool \<times> 's mstate) outcome"
  and matchSubRules :: "nat \<Rightarrow> RuleEnv \<Rightarrow> rule list \<Rightarrow> 's RuleMatchHelper \<Rightarrow> 's mstate
      \<Rightarrow> ((bool \<times> string) \<times> 's mstate) outcome"
where
  "ruleMatch n env (Base b) h st = Ret (Match env b h st)"
| "ruleMatch n env (RuleSet name a isSrc noRes) h st =
     (let h1 = ruleSet_helper isSrc noRes h; st1 = ruleSet_swap isSrc st in
      case RuleProviders env name of
        None \<Rightarrow> Ret ((False, []), st)
      | Some None \<Rightarrow> Ret ((False, a), st)
      | Some (Some (domainStrategy ds)) \<Rightarrow>
          Ret ((domainStrategy_Match ds (snd st1), a), ruleSet_swap isSrc st1)
      | Some (Some (ipcidrStrategy cs)) \<Rightarrow>
          (let res = ipcidrStrategy_Match cs h1 st1 in
           Ret ((fst res, a), ruleSet_swap isSrc (snd res)))
      | Some (Some (classicalStrategy rs)) \<Rightarrow>
          (case n of 0 \<Rightarrow> Diverge
           | Suc k \<Rightarrow> obind (matchAny k env rs h1 st1)
                       (\<lambda>res. Ret ((fst res, a), ruleSet_swap isSrc (snd res)))))"
| "ruleMatch n env (Logic pl a tp rs) h st =
     (if tp = RT_SubRules then
        (case rs of [] \<Rightarrow> Panic
         | r # _ \<Rightarrow> obind (ruleMatch n env r h st) (\<lambda>res.
             if fst (fst res) then
               (case n of 0 \<Rightarrow> Diverge
                | Suc k \<Rightarrow> matchSubRules k env (subRules env a) h (snd res))
             else Ret ((False, []), snd res)))
      else if tp = RT_NOT then
        (case rs of [] \<Rightarrow> Panic
         | r # _ \<Rightarrow> obind (ruleMatch n env r h st) (\<lambda>res.
             Ret (if \<not> fst (fst res) then (True, a) else (False, []), snd res)))
      else if tp = RT_OR then
        obind (matchAny n env rs h st) (\<lambda>res.
          Ret (if fst res then (True, a) else (False, []), snd res))
      else if tp = RT_AND then
        obind (matchEvery n env rs h st) (\<lambda>res. Ret ((fst res, a), snd res))
      else Ret ((False, []), st))"
| "matchAny n env [] h st = Ret (False, st)"
| "matchAny n env (r # rs) h st = obind (ruleMatch n env r h st) (\<lambda>res.
     if fst (fst res) then Ret (True, snd res) else matchAny n env rs h (snd res))"
| "matchEvery n env [] h st = Ret (True, st)"
| "matchEvery n env (r # rs) h st = obind (ruleMatch n env r h st) (\<lambda>res.
     if \<not> fst (fst res) then Ret (False, snd res) else matchEvery n env rs h (snd res))"
| "matchSubRules n env [] h st = Ret ((False, []), st)"
| "matchSubRules n env (r # rs) h st = obind (ruleMatch n env r h st) (\<lambda>res.
     if fst (fst res) then
       obind (if RuleType_of r = RT_SubRules
              then (case n of 0 \<Rightarrow> Diverge
                    | Suc k \<Rightarrow> matchSubRules k env (subRules env (Adapter r)) h (snd res))
              else Ret res) (\<lambda>res2.
         if fst (fst res2) \<and> passes h (snd (snd res2)) (snd (fst res2))
         then matchSubRules n env rs h (snd res2) else Ret res2)
     else matchSubRules n env rs h (snd res))"
  by pat_completeness auto

termination ruleMatch
  by (relation "measures [match_depth, match_size]") simp_all

section \<open>Depth of references\<close>

definition below :: "'a outcome \<Rightarrow> 'a outcome \<Rightarrow> bool" where
  "below x y = (x = Diverge \<or> x = y)"

lemma below_refl [simp]: "below x x" and below_Diverge [simp]: "below Diverge y"
  by (simp_all add: below_def)

lemma below_obind:
  "below x y \<Longrightarrow> (\<And>a. x = Ret a \<Longrightarrow> below (f a) (g a)) \<Longrightarrow> below (obind x f) (obind y g)"
  by (cases x; cases y) (auto simp: below_def)

lemma below_fuel:
  "n \<le> n' \<Longrightarrow> (\<And>k k'. n = Suc k \<Longrightarrow> n' = Suc k' \<Longrightarrow> k \<le> k' \<Longrightarrow> below (f k) (g k'))
    \<Longrightarrow> below (case n of 0 \<Rightarrow> Diverge | Suc k \<Rightarrow> f k) (case n' of 0 \<Rightarrow> Diverge | Suc k \<Rightarrow> g k)"
  by (auto split: nat.splits)

lemma ruleMatch_below:
  "n \<le> n' \<Longrightarrow> below (ruleMatch n env r h st) (ruleMatch n' env r h st)"
  "n \<le> n' \<Longrightarrow> below (matchAny n env rs h st) (matchAny n' env rs h st)"
  "n \<le> n' \<Longrightarrow> below (matchEvery n env rs h st) (matchEvery n' env rs h st)"
  "n \<le> n' \<Longrightarrow> below (matchSubRules n env rs h st) (matchSubRules n' env rs h st)"
proof (induction n env r h st and n env rs h st and n env rs h st and n env rs h st
    arbitrary: n' and n' and n' and n' rule: ruleMatch_matchAny_matchEvery_matchSubRules.induct)
  case (2 n env name a isSrc noRes h st)
  then show ?case
    by (simp add: Let_def split: option.split ruleStrategy.split)
       (intro allI impI below_fuel below_obind; auto)
next
  case (3 n env pl a tp rs h st)
  show ?case
  proof (cases "tp = RT_SubRules \<or> tp = RT_NOT")
    case True
    with 3 show ?thesis by (cases rs) (auto intro!: below_obind below_fuel)
  next
    case False
    with 3 show ?thesis by (simp del: matchAny.simps matchEvery.simps) (intro conjI impI below_obind; auto)
  qed
next
  case (5 n env r rs h st)
  then show ?case by (auto intro!: below_obind)
next
  case (7 n env r rs h st)
  then show ?case by (auto intro!: below_obind)
next
  case (9 n env r rs h st)
  then show ?case by (auto intro!: below_obind below_fuel)
qed simp_all

lemma ruleMatch_mono:
  "ruleMatch n env r h st = Ret x \<Longrightarrow> n \<le> n' \<Longrightarrow> ruleMatch n' env r h st = Ret x"
  using ruleMatch_below(1) [of n n' env r h st] by (simp add: below_def)

text \<open>
  References by name: the sub-rules a SUB-RULE rule enters and the providers a RULE-SET rule
  consults. \<open>ref_body\<close> is the list of rules that such a name stands for.
\<close>

datatype ref = SubRef string | ProvRef string

fun refs_of :: "rule \<Rightarrow> ref list" where
  "refs_of (Base b) = []"
| "refs_of (RuleSet name a isSrc noRes) = [ProvRef name]"
| "refs_of (Logic pl a tp rs) =
     (if tp = RT_SubRules then [SubRef a] else []) @ concat (map refs_of rs)"

fun ref_body :: "RuleEnv \<Rightarrow> ref \<Rightarrow> rule list" where
  "ref_body env (SubRef name) = subRules env name"
| "ref_body env (ProvRef name) = (case RuleProviders env name of
     Some (Some (classicalStrategy rs)) \<Rightarrow> rs | _ \<Rightarrow> [])"

text \<open>A rule as the parser builds it: SUB-RULE and NOT have an operand, and no plain rule carries
  the type of SUB-RULE.\<close>

fun rule_wf :: "rule \<Rightarrow> bool" where
  "rule_wf (Base b) = (RuleType_of (Base b) \<noteq> RT_SubRules)"
| "rule_wf (RuleSet name a isSrc noRes) = True"
| "rule_wf (Logic pl a tp rs) =
     ((tp = RT_SubRules \<or> tp = RT_NOT \<longrightarrow> rs \<noteq> []) \<and> list_all rule_wf rs)"

definition env_wf :: "RuleEnv \<Rightarrow> bool" where
  "env_wf env = (\<forall>q. list_all rule_wf (ref_body env q))"

text \<open>A rank that decreases along every reference: the names form no cycle.\<close>

definition ranked :: "RuleEnv \<Rightarrow> (ref \<Rightarrow> nat) \<Rightarrow> bool" where
  "ranked env rank = (\<forall>q. \<forall>r\<in>set (ref_body env q). \<forall>q'\<in>set (refs_of r). rank q' < rank q)"

definition within :: "(ref \<Rightarrow> nat) \<Rightarrow> nat \<Rightarrow> rule \<Rightarrow> bool" where
  "within rank n r = (\<forall>q\<in>set (refs_of r). rank q < n)"

definition returns :: "'a outcome \<Rightarrow> bool" where
  "returns x = (\<exists>y. x = Ret y)"

lemma returns_Ret [simp]: "returns (Ret y)"
  by (simp add: returns_def)

lemma returns_obind: "returns x \<Longrightarrow> (\<And>a. x = Ret a \<Longrightarrow> returns (f a)) \<Longrightarrow> returns (obind x f)"
  by (auto simp: returns_def)

lemma returns_fuel:
  "0 < n \<Longrightarrow> (\<And>k. n = Suc k \<Longrightarrow> returns (f k)) \<Longrightarrow> returns (case n of 0 \<Rightarrow> Diverge | Suc k \<Rightarrow> f k)"
  by (cases n) simp_all

lemma within_body:
  "ranked env rank \<Longrightarrow> rank q < Suc k \<Longrightarrow> r \<in> set (ref_body env q) \<Longrightarrow> within rank k r"
  by (fastforce simp: ranked_def within_def)

lemma ruleMatch_returns:
  assumes "ranked env rank" "env_wf env"
  shows "within rank n r \<Longrightarrow> rule_wf r \<Longrightarrow> returns (ruleMatch n env r h st)"
    "list_all (within rank n) rs \<Longrightarrow> list_all rule_wf rs \<Longrightarrow> returns (matchAny n env rs h st)"
    "list_all (within rank n) rs \<Longrightarrow> list_all rule_wf rs \<Longrightarrow> returns (matchEvery n env rs h st)"
    "list_all (within rank n) rs \<Longrightarrow> list_all rule_wf rs \<Longrightarrow> returns (matchSubRules n env rs h st)"
  using assms
proof (induction n env r h st and n env rs h st and n env rs h st and n env rs h st
     rule: ruleMatch_matchAny_matchEvery_matchSubRules.induct)
  case (2 n env name a isSrc noRes h st)
  have "list_all (within rank k) rs \<and> list_all rule_wf rs"
    if "RuleProviders env name = Some (Some (classicalStrategy rs))" "n = Suc k" for rs k
    using that 2 within_body [of env rank "ProvRef name" k]
    by (auto simp: within_def list_all_iff env_wf_def split: option.splits dest!: spec[of _ "ProvRef name"])
  moreover have "0 < n"
    using 2 by (auto simp: within_def)
  ultimately show ?case using 2
    by (simp add: Let_def split: option.split ruleStrategy.split prod.split)
       (intro allI impI returns_fuel returns_obind; auto)
next
  case (3 n env pl a tp rs h st)
  have sub: "list_all (within rank k) (subRules env a) \<and> list_all rule_wf (subRules env a)"
    if "tp = RT_SubRules" "n = Suc k" for k
    using that 3 within_body [of env rank "SubRef a" k]
    by (auto simp: within_def list_all_iff env_wf_def dest!: spec[of _ "SubRef a"])
  have ops: "list_all (within rank n) rs" "list_all rule_wf rs"
    using 3 by (auto simp: within_def list_all_iff)
  show ?case
  proof (cases "tp = RT_SubRules \<or> tp = RT_NOT")
    case True
    moreover have "tp = RT_SubRules \<Longrightarrow> 0 < n"
      using 3 by (auto simp: within_def)
    ultimately show ?thesis using 3 sub ops
      by (cases rs) (auto intro!: returns_obind returns_fuel)
  next
    case False
    with 3 ops show ?thesis
      by (simp del: matchAny.simps matchEvery.simps) (intro conjI impI returns_obind; auto)
  qed
next
  case (5 n env r rs h st)
  then show ?case by (auto intro!: returns_obind)
next
  case (7 n env r rs h st)
  then show ?case by (auto intro!: returns_obind)
next
  case (9 n env r rs h st)
  have ref: "SubRef (Adapter r) \<in> set (refs_of r)" if "RuleType_of r = RT_SubRules"
    using that 9 by (cases r) auto
  have sub: "list_all (within rank k) (subRules env (Adapter r))
      \<and> list_all rule_wf (subRules env (Adapter r))"
    if "RuleType_of r = RT_SubRules" "n = Suc k" for k
    using that 9 ref within_body [of env rank "SubRef (Adapter r)" k]
    by (auto simp: within_def list_all_iff env_wf_def dest!: spec [of _ "SubRef (Adapter r)"])
  moreover have "RuleType_of r = RT_SubRules \<Longrightarrow> 0 < n"
    using 9 ref by (auto simp: within_def)
  ultimately show ?case using 9 by (auto intro!: returns_obind returns_fuel)
qed simp_all

section \<open>Cached look-ups do not change decisions\<close>

text \<open>
  \<open>GEOIP\<close> and \<open>IP-ASN\<close> rules write what they look up into the metadata, and \<open>GEOIP\<close> rules read
  it back. \<open>core\<close> forgets these four fields; \<open>codes_ok\<close> says that cached country codes are
  those of the address.
\<close>

definition core :: "Metadata \<Rightarrow> Metadata" where
  "core m = m\<lparr>md_SrcGeoIP := None, md_DstGeoIP := None, md_SrcIPASN := [], md_DstIPASN := []\<rparr>"

definition codes_ok :: "RuleEnv \<Rightarrow> Addr \<Rightarrow> string list option \<Rightarrow> bool" where
  "codes_ok env ip codes = (case codes of None \<Rightarrow> True
     | Some cs \<Rightarrow> IsValid ip \<and>
         (if GeodataMode env
          then (\<forall>c\<in>set cs. case LoadGeoIPMatcher env c of Inl _ \<Rightarrow> False | Inr f \<Rightarrow> f ip)
          else LookupCode env (AsSlice ip) = Some cs))"

definition cache_ok :: "RuleEnv \<Rightarrow> Metadata \<Rightarrow> bool" where
  "cache_ok env m = (codes_ok env (md_SrcIP m) (md_SrcGeoIP m)
     \<and> codes_ok env (md_DstIP m) (md_DstGeoIP m))"

definition same_conn :: "RuleEnv \<Rightarrow> 's mstate \<Rightarrow> 's mstate \<Rightarrow> bool" where
  "same_conn env s t = (fst s = fst t \<and> core (snd s) = core (snd t)
     \<and> cache_ok env (snd s) \<and> cache_ok env (snd t))"

text \<open>A rule's verdict: whether it matches and, when it does, the adapter.\<close>

definition verdict :: "bool \<times> string \<Rightarrow> string option" where
  "verdict r = (if fst r then Some (snd r) else None)"

definition same_result :: "RuleEnv \<Rightarrow> (bool \<times> string) \<times> 's mstate \<Rightarrow> (bool \<times> string) \<times> 's mstate \<Rightarrow> bool" where
  "same_result env x y = (verdict (fst x) = verdict (fst y) \<and> same_conn env (snd x) (snd y))"

lemma core_fields:
  assumes "core m = core m'"
  shows "md_NetWork m = md_NetWork m'" "md_Type m = md_Type m'" "md_SrcIP m = md_SrcIP m'"
    "md_DstIP m = md_DstIP m'" "md_SrcPort m = md_SrcPort m'" "md_DstPort m = md_DstPort m'"
    "md_InPort m = md_InPort m'" "md_InName m = md_InName m'"
    "md_InUser m = md_InUser m'" "md_RematchName m = md_RematchName m'"
    "md_Host m = md_Host m'" "md_SniffHost m = md_SniffHost m'" "md_Uid m = md_Uid m'"
    "md_Process m = md_Process m'" "md_ProcessPath m = md_ProcessPath m'"
    "md_DSCP m = md_DSCP m'"
  using assms by (cases m; cases m'; simp add: core_def)+

lemma core_RuleHost: "core m = core m' \<Longrightarrow> RuleHost m = RuleHost m'"
  by (simp add: RuleHost_def core_fields [of m m'])

lemma core_rule_ip: "core m = core m' \<Longrightarrow> rule_ip b m = rule_ip b m'"
  by (simp add: rule_ip_def core_fields [of m m'])

lemma Process_Match_cong: "core m = core m' \<Longrightarrow> Process_Match env p tp m = Process_Match env p tp m'"
  by (simp add: Process_Match_def process_target_def core_fields [of m m'])

lemma core_set_geo [simp]: "core (set_geo_codes b cs m) = core m"
  by (simp add: core_def set_geo_codes_def)

lemma cache_ok_set_geo:
  "cache_ok env m \<Longrightarrow> codes_ok env (rule_ip b m) cs \<Longrightarrow> cache_ok env (set_geo_codes b cs m)"
  by (simp add: cache_ok_def set_geo_codes_def rule_ip_def split: if_splits)

lemma cache_ok_codes: "cache_ok env m \<Longrightarrow> codes_ok env (rule_ip b m) (geo_codes b m)"
  by (simp add: cache_ok_def rule_ip_def geo_codes_def)

lemma codes_ok_append:
  "codes_ok env ip cs \<Longrightarrow> IsValid ip \<Longrightarrow> GeodataMode env \<Longrightarrow> LoadGeoIPMatcher env c = Inr f \<Longrightarrow> f ip
    \<Longrightarrow> codes_ok env ip (slice_append cs c)"
  by (auto simp: codes_ok_def slice_append_def split: option.splits)

text \<open>With a sound cache a \<open>GEOIP\<close> rule decides as the cache-free \<open>MatchIp\<close> does.\<close>

lemma GEOIP_Match_ip_sound:
  assumes "cache_ok env m"
  shows "fst (fst (GEOIP_Match_ip env c a b m)) = GEOIP_MatchIp env c (rule_ip b m)"
    "fst (fst (GEOIP_Match_ip env c a b m)) \<Longrightarrow> snd (fst (GEOIP_Match_ip env c a b m)) = a"
    "core (snd (GEOIP_Match_ip env c a b m)) = core m"
    "cache_ok env (snd (GEOIP_Match_ip env c a b m))"
proof -
  note c = cache_ok_codes [OF assms, of b]
  show "fst (fst (GEOIP_Match_ip env c a b m)) = GEOIP_MatchIp env c (rule_ip b m)"
    using c by (auto simp: GEOIP_Match_ip_def GEOIP_MatchIp_def Let_def slice_contains_def
        codes_ok_def split: option.splits sum.splits if_splits)
  show "snd (fst (GEOIP_Match_ip env c a b m)) = a" if "fst (fst (GEOIP_Match_ip env c a b m))"
    using that by (auto simp: GEOIP_Match_ip_def Let_def split: sum.splits if_splits)
  show "core (snd (GEOIP_Match_ip env c a b m)) = core m"
    by (auto simp: GEOIP_Match_ip_def Let_def split: sum.splits)
  have "codes_ok env (rule_ip b m) (LookupCode env (AsSlice (rule_ip b m)))"
    if "IsValid (rule_ip b m)" "\<not> GeodataMode env"
    using that by (simp add: codes_ok_def split: option.split)
  with c assms show "cache_ok env (snd (GEOIP_Match_ip env c a b m))"
    by (auto simp: GEOIP_Match_ip_def Let_def
        intro!: cache_ok_set_geo codes_ok_append split: sum.splits)
qed

lemma ASN_Match_ip_cong:
  assumes "core m = core m'" "cache_ok env m"
  shows "fst (ASN_Match_ip env n a b m) = fst (ASN_Match_ip env n a b m')"
    "core (snd (ASN_Match_ip env n a b m)) = core m"
    "cache_ok env (snd (ASN_Match_ip env n a b m))"
  using assms core_rule_ip [OF assms(1), of b]
  by (auto simp: ASN_Match_ip_def Let_def core_def cache_ok_def split: prod.splits)

lemma cache_ok_swap [simp]: "cache_ok env (SwapSrcDst m) = cache_ok env m"
  by (auto simp: cache_ok_def SwapSrcDst_def)

lemma core_swap:
  assumes "core m = core m'"
  shows "core (SwapSrcDst m) = core (SwapSrcDst m')"
proof -
  have e: "core (SwapSrcDst x) = core (SwapSrcDst (core x))" for x
    by (simp add: core_def SwapSrcDst_def)
  show ?thesis
    unfolding e [of m] e [of m'] assms by (rule refl)
qed

lemma same_conn_swap: "same_conn env s t \<Longrightarrow> same_conn env (ruleSet_swap b s) (ruleSet_swap b t)"
  by (auto simp: same_conn_def ruleSet_swap_def swap_state_def intro: core_swap)

lemma same_conn_refl: "cache_ok env (snd st) \<Longrightarrow> same_conn env st st"
  by (simp add: same_conn_def)

lemma on_meta_same:
  assumes "same_conn env s t"
    and "\<And>m. core m = core (snd t) \<Longrightarrow> cache_ok env m \<Longrightarrow>
      verdict (fst (f m)) = v \<and> core (snd (f m)) = core m \<and> cache_ok env (snd (f m))"
  shows "same_result env (on_meta f s) (on_meta f t)"
  using assms(1) assms(2) [of "snd s"] assms(2) [of "snd t"]
  by (auto simp: same_conn_def same_result_def on_meta_def split: prod.split)

lemma GEOIP_same:
  "same_conn env s t \<Longrightarrow>
    same_result env (on_meta (GEOIP_Match_ip env c a b) s) (on_meta (GEOIP_Match_ip env c a b) t)"
  by (rule on_meta_same [where v = "if GEOIP_MatchIp env c (rule_ip b (snd t)) then Some a else None"])
     (auto simp: verdict_def GEOIP_Match_ip_sound dest: core_rule_ip [of _ _ b])

lemma ASN_same:
  "same_conn env s t \<Longrightarrow>
    same_result env (on_meta (ASN_Match_ip env n a b) s) (on_meta (ASN_Match_ip env n a b) t)"
  by (rule on_meta_same [where v = "verdict (fst (ASN_Match_ip env n a b (snd t)))"])
     (metis ASN_Match_ip_cong)+

text \<open>
  The contract of a helper closure: it treats connections that differ in cached look-ups alike.
\<close>

locale coherent_helper =
  fixes env :: RuleEnv and h :: "'s RuleMatchHelper"
  assumes resolve: "ResolveIP h = Some f \<Longrightarrow> same_conn env s t \<Longrightarrow> same_conn env (f s) (f t)"
    and process: "FindProcess h = Some f \<Longrightarrow> same_conn env s t \<Longrightarrow> same_conn env (f s) (f t)"
    and pass: "CheckPassRule h = Some f' \<Longrightarrow> core m = core m' \<Longrightarrow> f' m a = f' m' a"
begin

lemma passes_same: "same_conn env s t \<Longrightarrow> passes h (snd s) a = passes h (snd t) a"
  using pass by (auto simp: passes_def same_conn_def split: option.split)

lemma call_resolve: "same_conn env s t \<Longrightarrow>
    same_conn env (call_helper (ResolveIP h) s) (call_helper (ResolveIP h) t)"
  by (simp add: call_helper_def resolve split: option.split)

lemma call_process: "same_conn env s t \<Longrightarrow>
    same_conn env (call_helper (FindProcess h) s) (call_helper (FindProcess h) t)"
  by (simp add: call_helper_def process split: option.split)

lemma resolve_unless_same: "same_conn env s t \<Longrightarrow>
    same_conn env (resolve_unless a b h s) (resolve_unless a b h t)"
  by (simp add: resolve_unless_def call_resolve)

lemma helper_without_resolve: "coherent_helper env (ruleSet_helper isSrc noRes h)"
  by unfold_locales (auto simp: ruleSet_helper_def split: if_splits intro: resolve process
      dest: pass [THEN iffD1] pass [THEN iffD2])

lemma Match_same:
  assumes "same_conn env s t"
  shows "same_result env (Match env b h s) (Match env b h t)"
proof -
  have c: "core (snd s) = core (snd t)" using assms by (simp add: same_conn_def)
  note f = core_fields [OF c] core_RuleHost [OF c]
  note p = call_process [OF assms]
  then have cp: "core (snd (call_helper (FindProcess h) s)) = core (snd (call_helper (FindProcess h) t))"
    by (simp add: same_conn_def)
  have r: "rule_ip isSrc (snd (resolve_unless noRes isSrc h s))
      = rule_ip isSrc (snd (resolve_unless noRes isSrc h t))" for noRes isSrc
    using resolve_unless_same [OF assms, of noRes isSrc]
    by (intro core_rule_ip) (simp add: same_conn_def)
  show ?thesis
  proof (cases b)
    case (GEOIP co a noRes isSrc)
    then show ?thesis by (simp add: GEOIP_same resolve_unless_same [OF assms])
  next
    case (ASN n a noRes isSrc)
    then show ?thesis by (simp add: ASN_same resolve_unless_same [OF assms])
  next
    case (IPCIDR x1 x2 isSrc noRes)
    then show ?thesis
      using r [of isSrc noRes] resolve_unless_same [OF assms, of noRes isSrc]
      by (simp add: same_result_def IPCIDR_Match_ip_def Let_def)
  next
    case (IPSuffix x1 x2 x3 x4 isSrc noRes)
    then show ?thesis
      using r [of isSrc noRes] resolve_unless_same [OF assms, of noRes isSrc]
      by (simp add: same_result_def IPSuffix_Match_ip_def Let_def)
  next
    case (Uid x1 x2 x3)
    then show ?thesis using core_fields [OF cp] p
      by (simp add: same_result_def Uid_Match_def Let_def)
  next
    case (Process x1 x2 x3)
    then show ?thesis using Process_Match_cong [OF cp] p by (simp add: same_result_def Let_def)
  qed (simp_all add: same_result_def assms f Domain_Match_def DomainSuffix_Match_def
      DomainKeyword_Match_def DomainRegex_Match_def DomainWildcard_Match_def Port_Match_def
      DSCP_Match_def InType_Match_def InUser_Match_def InName_Match_def RematchName_Match_def
      NetworkType_Match_def)
qed

end

text \<open>Two outcomes agree when both return related values or neither returns.\<close>

fun agree :: "('a \<Rightarrow> 'a \<Rightarrow> bool) \<Rightarrow> 'a outcome \<Rightarrow> 'a outcome \<Rightarrow> bool" where
  "agree R (Ret x) (Ret y) = R x y"
| "agree R x y = (x = y)"

lemma agree_obind:
  "agree R x y \<Longrightarrow> (\<And>a b. x = Ret a \<Longrightarrow> R a b \<Longrightarrow> agree S (f a) (g b)) \<Longrightarrow> agree S (obind x f) (obind y g)"
  by (cases x; cases y) simp_all

lemma agree_fuel:
  "(\<And>k. n = Suc k \<Longrightarrow> agree R (f k) (g k))
    \<Longrightarrow> agree R (case n of 0 \<Rightarrow> Diverge | Suc k \<Rightarrow> f k) (case n of 0 \<Rightarrow> Diverge | Suc k \<Rightarrow> g k)"
  by (cases n) simp_all

definition same_bool :: "RuleEnv \<Rightarrow> bool \<times> 's mstate \<Rightarrow> bool \<times> 's mstate \<Rightarrow> bool" where
  "same_bool env x y = (fst x = fst y \<and> same_conn env (snd x) (snd y))"

lemma same_pair [simp]:
  "same_result env ((m, a), u) ((m', a'), v) \<longleftrightarrow> m = m' \<and> (m \<longrightarrow> a = a') \<and> same_conn env u v"
  "same_bool env (m, u) (m', v) \<longleftrightarrow> m = m' \<and> same_conn env u v"
  by (auto simp: same_result_def same_bool_def verdict_def)

lemma same_result_cases:
  assumes "same_result env x y"
  obtains "fst (fst x)" "fst (fst y)" "snd (fst x) = snd (fst y)" "same_conn env (snd x) (snd y)"
  | "\<not> fst (fst x)" "\<not> fst (fst y)" "same_conn env (snd x) (snd y)"
  using assms by (auto simp: same_result_def verdict_def split: if_splits)

lemma ruleMatch_same:
  "coherent_helper env h \<Longrightarrow> same_conn env st st' \<Longrightarrow>
     agree (same_result env) (ruleMatch n env r h st) (ruleMatch n env r h st')"
  "coherent_helper env h \<Longrightarrow> same_conn env st st' \<Longrightarrow>
     agree (same_bool env) (matchAny n env rs h st) (matchAny n env rs h st')"
  "coherent_helper env h \<Longrightarrow> same_conn env st st' \<Longrightarrow>
     agree (same_bool env) (matchEvery n env rs h st) (matchEvery n env rs h st')"
  "coherent_helper env h \<Longrightarrow> same_conn env st st' \<Longrightarrow>
     agree (same_result env) (matchSubRules n env rs h st) (matchSubRules n env rs h st')"
proof (induction n env r h st and n env rs h st and n env rs h st and n env rs h st
    arbitrary: st' and st' and st' and st'
    rule: ruleMatch_matchAny_matchEvery_matchSubRules.induct)
  case (1 n env b h st)
  then show ?case by (simp add: coherent_helper.Match_same)
next
  case (2 n env name a isSrc noRes h st)
  let ?h = "ruleSet_helper isSrc noRes h"
  have h: "coherent_helper env ?h"
    using "2.prems"(1) by (rule coherent_helper.helper_without_resolve)
  note sw = same_conn_swap [OF "2.prems"(2), of isSrc]
  have host: "RuleHost (snd (ruleSet_swap isSrc st)) = RuleHost (snd (ruleSet_swap isSrc st'))"
    using sw by (intro core_RuleHost) (simp add: same_conn_def)
  note cr = coherent_helper.call_resolve [OF h sw]
  have dst: "md_DstIP (snd (call_helper (ResolveIP ?h) (ruleSet_swap isSrc st)))
      = md_DstIP (snd (call_helper (ResolveIP ?h) (ruleSet_swap isSrc st')))"
    using cr by (intro core_fields) (simp add: same_conn_def)
  show ?case
    using "2.IH" [OF refl refl, of _ _ _ _ "ruleSet_swap isSrc st'"] h sw "2.prems"(2) host dst cr
    by (simp add: Let_def domainStrategy_Match_def ipcidrStrategy_Match_def
        same_conn_swap split: option.split ruleStrategy.split)
       (intro allI impI agree_fuel agree_obind [where R = "same_bool env"]; auto simp: same_conn_swap)
next
  case (3 n env pl a tp rs h st)
  show ?case
  proof (cases "tp = RT_SubRules \<or> tp = RT_NOT")
    case True
    with 3 show ?thesis
      by (cases rs; cases st') (auto intro!: agree_fuel agree_obind [where R = "same_result env"])
  next
    case False
    with 3 show ?thesis
      by (simp del: matchAny.simps matchEvery.simps)
         (intro conjI impI agree_obind [where R = "same_bool env"]; auto)
  qed
next
  case (5 n env r rs h st)
  then show ?case by (cases st') (auto intro!: agree_obind [where R = "same_result env"])
next
  case (7 n env r rs h st)
  then show ?case by (cases st') (auto intro!: agree_obind [where R = "same_result env"])
next
  case (9 n env r rs h st)
  show ?case
    unfolding matchSubRules.simps
  proof (rule agree_obind [where R = "same_result env"])
    show "agree (same_result env) (ruleMatch n env r h st) (ruleMatch n env r h st')"
      using 9 by blast
    fix a b
    assume a: "ruleMatch n env r h st = Ret a" and ab: "same_result env a b"
    have rest: "agree (same_result env)
        (if fst (fst c) \<and> passes h (snd (snd c)) (snd (fst c))
         then matchSubRules n env rs h (snd c) else Ret c)
        (if fst (fst d) \<and> passes h (snd (snd d)) (snd (fst d))
         then matchSubRules n env rs h (snd d) else Ret d)"
      if "fst (fst a)" "(if RuleType_of r = RT_SubRules
         then (case n of 0 \<Rightarrow> Diverge
               | Suc k \<Rightarrow> matchSubRules k env (subRules env (Adapter r)) h (snd a))
         else Ret a) = Ret c" "same_result env c d" for c d
      using that(3)
    proof (cases rule: same_result_cases)
      case 1
      then show ?thesis
        using "9.IH"(3) [OF a that(1,2) _ "9.prems"(1), of "snd d"] that(3)
          coherent_helper.passes_same [OF "9.prems"(1), of "snd c" "snd d" "snd (fst c)"]
        by simp
    qed (use that(3) in simp)
    show "agree (same_result env)
        (if fst (fst a) then
           obind (if RuleType_of r = RT_SubRules
                  then (case n of 0 \<Rightarrow> Diverge
                        | Suc k \<Rightarrow> matchSubRules k env (subRules env (Adapter r)) h (snd a))
                  else Ret a) (\<lambda>res2.
             if fst (fst res2) \<and> passes h (snd (snd res2)) (snd (fst res2))
             then matchSubRules n env rs h (snd res2) else Ret res2)
         else matchSubRules n env rs h (snd a))
        (if fst (fst b) then
           obind (if RuleType_of r = RT_SubRules
                  then (case n of 0 \<Rightarrow> Diverge
                        | Suc k \<Rightarrow> matchSubRules k env (subRules env (Adapter r)) h (snd b))
                  else Ret b) (\<lambda>res2.
             if fst (fst res2) \<and> passes h (snd (snd res2)) (snd (fst res2))
             then matchSubRules n env rs h (snd res2) else Ret res2)
         else matchSubRules n env rs h (snd b))"
      using ab
    proof (cases rule: same_result_cases)
      case 1
      then show ?thesis
        using "9.IH"(2) [OF a 1(1) _ _ "9.prems"(1), of _ "snd b"] rest [OF 1(1) _ ab]
        by (cases "RuleType_of r = RT_SubRules")
           (auto intro!: agree_obind [where R = "same_result env"] rest agree_fuel)
    next
      case 2
      then show ?thesis using "9.IH"(4) [OF a 2(1) "9.prems"(1), of "snd b"] by simp
    qed
  qed
qed simp_all

section \<open>What matching may change\<close>

text \<open>
  \<open>frame b m\<close> forgets what a match may write: the cached look-ups and the process of the
  connection and, when \<open>b\<close> is set, the destination address a resolution fills in.
\<close>

definition frame :: "bool \<Rightarrow> Metadata \<Rightarrow> Metadata" where
  "frame b m = (core m)\<lparr>md_Uid := 0, md_Process := [], md_ProcessPath := [],
     md_DstIP := (if b then AddrInvalid else md_DstIP m)\<rparr>"

definition framed :: "bool \<Rightarrow> 's mstate \<Rightarrow> 's mstate \<Rightarrow> bool" where
  "framed b s t = (frame b (snd s) = frame b (snd t))"

lemma framed_refl [simp]: "framed b s s"
  by (simp add: framed_def)

lemma framed_trans: "framed b s t \<Longrightarrow> framed b t u \<Longrightarrow> framed b s u"
  by (simp add: framed_def)

lemma framed_core: "core (snd s) = core (snd t) \<Longrightarrow> framed b s t"
proof -
  have e: "frame b x = frame b (core x)" for x by (simp add: frame_def core_def)
  show "core (snd s) = core (snd t) \<Longrightarrow> framed b s t"
    unfolding framed_def e [of "snd s"] e [of "snd t"] by (rule arg_cong)
qed

lemma frame_weaken: "framed False s t \<Longrightarrow> framed b s t"
proof -
  have e: "frame b x = frame b (frame False x)" for x by (simp add: frame_def core_def)
  show "framed False s t \<Longrightarrow> framed b s t"
    unfolding framed_def e [of "snd s"] e [of "snd t"] by (rule arg_cong)
qed

lemma framed_swap: "framed False s t \<Longrightarrow> framed False (swap_state s) (swap_state t)"
proof -
  have e: "frame False (SwapSrcDst x) = frame False (SwapSrcDst (frame False x))" for x
    by (simp add: frame_def core_def SwapSrcDst_def)
  show "framed False s t \<Longrightarrow> framed False (swap_state s) (swap_state t)"
    unfolding framed_def swap_state_def snd_conv e [of "snd s"] e [of "snd t"]
    by simp
qed

lemma swap_state_twice [simp]: "swap_state (swap_state s) = s"
  by (simp add: swap_state_def SwapSrcDst_twice)

lemma ruleSet_swap_twice [simp]: "ruleSet_swap b (ruleSet_swap b s) = s"
  by (simp add: ruleSet_swap_def)

definition can_resolve :: "'s RuleMatchHelper \<Rightarrow> bool" where
  "can_resolve h = (ResolveIP h \<noteq> None)"

text \<open>The contract of a helper closure: it writes only what a match may change.\<close>

locale framing_helper =
  fixes h :: "'s RuleMatchHelper"
  assumes resolve: "ResolveIP h = Some f \<Longrightarrow> framed True s (f s)"
    and process: "FindProcess h = Some f \<Longrightarrow> framed False s (f s)"
begin

lemma call_resolve: "framed (can_resolve h) s (call_helper (ResolveIP h) s)"
  using resolve by (auto simp: call_helper_def can_resolve_def split: option.split)

lemma call_process: "framed b s (call_helper (FindProcess h) s)"
  using frame_weaken [OF process] by (auto simp: call_helper_def split: option.split)

lemma resolve_unless_framed: "framed (can_resolve h) s (resolve_unless a b h s)"
  by (simp add: resolve_unless_def call_resolve)

lemma helper_without_resolve: "framing_helper (ruleSet_helper isSrc noRes h)"
  by unfold_locales (auto simp: ruleSet_helper_def resolve process split: if_splits)

lemma on_meta_framed:
  "(\<And>m. core (snd (f m)) = core m) \<Longrightarrow> framed b s t \<Longrightarrow> framed b s (snd (on_meta f t))"
  by (rule framed_trans [OF _ framed_core]) (simp_all add: on_meta_def case_prod_beta)

lemma Match_framed: "framed (can_resolve h) s (snd (Match env b h s))"
proof -
  have g: "core (snd (GEOIP_Match_ip env c a isSrc m)) = core m" for c a isSrc m
    by (auto simp: GEOIP_Match_ip_def Let_def split: sum.splits)
  have n: "core (snd (ASN_Match_ip env c a isSrc m)) = core m" for c a isSrc m
    by (auto simp: ASN_Match_ip_def Let_def core_def split: prod.splits)
  show ?thesis
    by (cases b) (simp_all add: Let_def call_process resolve_unless_framed on_meta_framed g n)
qed

end

lemma ruleMatch_framed:
  "framing_helper h \<Longrightarrow> ruleMatch n env r h st = Ret x \<Longrightarrow> framed (can_resolve h) st (snd x)"
  "framing_helper h \<Longrightarrow> matchAny n env rs h st = Ret y \<Longrightarrow> framed (can_resolve h) st (snd y)"
  "framing_helper h \<Longrightarrow> matchEvery n env rs h st = Ret y \<Longrightarrow> framed (can_resolve h) st (snd y)"
  "framing_helper h \<Longrightarrow> matchSubRules n env rs h st = Ret x \<Longrightarrow> framed (can_resolve h) st (snd x)"
proof (induction n env r h st and n env rs h st and n env rs h st and n env rs h st
    arbitrary: x and y and y and x
    rule: ruleMatch_matchAny_matchEvery_matchSubRules.induct)
  case (1 n env b h st)
  then show ?case by (auto simp: framing_helper.Match_framed)
next
  case (2 n env name a isSrc noRes h st)
  let ?h = "ruleSet_helper isSrc noRes h"
  have h: "framing_helper ?h"
    using "2.prems"(1) by (rule framing_helper.helper_without_resolve)
  have restore: "framed (can_resolve h) st (ruleSet_swap isSrc u)"
    if "framed (can_resolve ?h) (ruleSet_swap isSrc st) u" for u
    using that framed_swap [of "swap_state st" u] frame_weaken [of st]
    by (auto simp: ruleSet_swap_def ruleSet_helper_def can_resolve_def split: if_splits)
  note cr = restore [OF framing_helper.call_resolve [OF h]]
  show ?case
    using "2.IH" [OF refl refl] "2.prems" h restore cr
    by (fastforce simp: Let_def ipcidrStrategy_Match_def obind_eq_Ret
        split: option.splits ruleStrategy.splits nat.splits)
next
  case (3 n env pl a tp rs h st)
  show ?case
  proof (cases "tp = RT_SubRules \<or> tp = RT_NOT")
    case True
    with "3.prems" obtain r rs' res where rs: "rs = r # rs'"
      and s1: "ruleMatch n env r h st = Ret res"
      by (cases rs) (auto simp: obind_eq_Ret)
    have f1: "framed (can_resolve h) st (snd res)"
      using True "3.IH"(1) [OF _ rs "3.prems"(1) s1] "3.IH"(3) [OF _ _ rs "3.prems"(1) s1] by auto
    have f2: "framed (can_resolve h) (snd res) (snd x)"
      if "tp = RT_SubRules" "fst (fst res)" "n = Suc k"
        "matchSubRules k env (subRules env a) h (snd res) = Ret x" for k
      using "3.IH"(2) [OF that(1) rs s1 that(2,3) "3.prems"(1) that(4)] .
    show ?thesis
      using True "3.prems"(2) rs s1 f1 f2 framed_trans [OF f1, of "snd x"]
      by (auto split: if_splits nat.splits)
  next
    case False
    with 3 show ?thesis
      by (auto simp: obind_eq_Ret simp del: matchAny.simps matchEvery.simps split: if_splits)
  qed
next
  case (5 n env r rs h st)
  from "5.prems" obtain res where s1: "ruleMatch n env r h st = Ret res"
    by (auto simp: obind_eq_Ret)
  show ?case
    using "5.prems" s1 "5.IH"(1) [OF "5.prems"(1) s1] "5.IH"(2) [OF s1 _ "5.prems"(1), of y]
      framed_trans [of "can_resolve h" st "snd res" "snd y"]
    by (auto split: if_splits)
next
  case (7 n env r rs h st)
  from "7.prems" obtain res where s1: "ruleMatch n env r h st = Ret res"
    by (auto simp: obind_eq_Ret)
  show ?case
    using "7.prems" s1 "7.IH"(1) [OF "7.prems"(1) s1] "7.IH"(2) [OF s1 _ "7.prems"(1), of y]
      framed_trans [of "can_resolve h" st "snd res" "snd y"]
    by (auto split: if_splits)
next
  case (9 n env r rs h st)
  from "9.prems" obtain res where s1: "ruleMatch n env r h st = Ret res"
    by (auto simp: obind_eq_Ret)
  note f1 = "9.IH"(1) [OF "9.prems"(1) s1]
  show ?case
  proof (cases "fst (fst res)")
    case False
    with "9.prems" s1 show ?thesis
      using "9.IH"(4) [OF s1 _ "9.prems"(1), of x] framed_trans [OF f1, of "snd x"] by simp
  next
    case True
    let ?again = "if RuleType_of r = RT_SubRules
        then (case n of 0 \<Rightarrow> Diverge | Suc k \<Rightarrow> matchSubRules k env (subRules env (Adapter r)) h (snd res))
        else Ret res"
    from True "9.prems" s1 obtain res2 where s2: "?again = Ret res2"
      by (auto simp: obind_eq_Ret)
    have "framed (can_resolve h) (snd res) (snd res2)"
      using s2 "9.IH"(2) [OF s1 True _ _ "9.prems"(1), of _ res2] by (auto split: if_splits nat.splits)
    then have f2: "framed (can_resolve h) st (snd res2)"
      by (rule framed_trans [OF f1])
    show ?thesis
      using True "9.prems"(2) s1 s2 f2 "9.IH"(3) [OF s1 True s2 _ "9.prems"(1), of x]
        framed_trans [OF f2, of "snd x"]
      by (auto split: if_splits)
  qed
qed auto

section \<open>Rules used outside the tunnel\<close>

text \<open>The zero \<open>RuleMatchHelper\<close>, with which a rule set serves as a matcher of names or addresses.\<close>

definition no_helper :: "unit RuleMatchHelper" where
  "no_helper = \<lparr>ResolveIP = None, FindProcess = None, CheckPassRule = None\<rparr>"

definition RuleSet_MatchDomain :: "nat \<Rightarrow> RuleEnv \<Rightarrow> rule \<Rightarrow> string \<Rightarrow> bool outcome" where
  "RuleSet_MatchDomain n env rs domain =
     obind (ruleMatch n env rs no_helper ((), empty_metadata\<lparr>md_Host := domain\<rparr>))
       (\<lambda>res. Ret (fst (fst res)))"

definition RuleSet_MatchIp :: "nat \<Rightarrow> RuleEnv \<Rightarrow> rule \<Rightarrow> Addr \<Rightarrow> bool outcome" where
  "RuleSet_MatchIp n env rs ip =
     obind (ruleMatch n env rs no_helper ((), empty_metadata\<lparr>md_DstIP := ip\<rparr>))
       (\<lambda>res. Ret (fst (fst res)))"

interpretation no_helper_coherent: coherent_helper env no_helper
  by unfold_locales (simp_all add: no_helper_def)

interpretation no_helper_framing: framing_helper no_helper
  by unfold_locales (simp_all add: no_helper_def)

section \<open>Statistics of a rule\<close>

text \<open>
  A rule of the main table carries a switch and counters. The current time, in nanoseconds, is
  an argument of the operations that store it.
\<close>

record RuleWrapper =
  rw_Rule :: rule
  rw_disabled :: bool
  rw_hitCount :: u64
  rw_hitAt :: "64 word"
  rw_missCount :: u64
  rw_missAt :: "64 word"

definition NewRuleWrapper :: "rule \<Rightarrow> RuleWrapper" where
  "NewRuleWrapper r = \<lparr>rw_Rule = r, rw_disabled = False, rw_hitCount = 0, rw_hitAt = 0,
     rw_missCount = 0, rw_missAt = 0\<rparr>"

definition SetDisabled :: "bool \<Rightarrow> RuleWrapper \<Rightarrow> RuleWrapper" where
  "SetDisabled v w = w\<lparr>rw_disabled := v\<rparr>"

definition Hit :: "64 word \<Rightarrow> RuleWrapper \<Rightarrow> RuleWrapper" where
  "Hit now w = w\<lparr>rw_hitCount := rw_hitCount w + 1, rw_hitAt := now\<rparr>"

definition Miss :: "64 word \<Rightarrow> RuleWrapper \<Rightarrow> RuleWrapper" where
  "Miss now w = w\<lparr>rw_missCount := rw_missCount w + 1, rw_missAt := now\<rparr>"

definition wrapperMatch :: "nat \<Rightarrow> RuleEnv \<Rightarrow> 64 word \<Rightarrow> RuleWrapper \<Rightarrow> 's RuleMatchHelper
    \<Rightarrow> 's mstate \<Rightarrow> (((bool \<times> string) \<times> 's mstate) \<times> RuleWrapper) outcome" where
  "wrapperMatch n env now w h st =
     (if rw_disabled w then Ret (((False, []), st), w)
      else obind (ruleMatch n env (rw_Rule w) h st) (\<lambda>res.
        Ret (res, if fst (fst res) then Hit now w else Miss now w)))"

lemma wrapperMatch_counts:
  "wrapperMatch n env now w h st = Ret (res, w') \<Longrightarrow>
     rw_Rule w' = rw_Rule w \<and> rw_disabled w' = rw_disabled w \<and>
     rw_hitCount w' + rw_missCount w' =
       rw_hitCount w + rw_missCount w + (if rw_disabled w then 0 else 1)"
  by (auto simp: wrapperMatch_def Hit_def Miss_def obind_eq_Ret split: if_splits)

section \<open>Properties of rules\<close>

text \<open>A small environment for the examples: two sub-rule tables, two providers.\<close>

definition example_env :: RuleEnv where
  "example_env = \<lparr>regexp2_Compile = (\<lambda>_. None), regexp2_MatchString = (\<lambda>_ _. False),
     GOOS = ''linux'', GeodataMode = False, InitGeoSite = None, InitGeoIP = None, InitASN = None,
     LoadGeoSiteMatcher = (\<lambda>_. Inl ''no data''), LoadGeoIPMatcher = (\<lambda>_. Inl ''no data''),
     LookupCode = (\<lambda>_. Some [''us'']), LookupASN = (\<lambda>_. (''13335'', ''Cloudflare'')),
     RuleProviders = (\<lambda>name.
       if name = ''ads'' then Some (Some (classicalStrategy [Base (DomainSuffix ''ads.com'' [])]))
       else None),
     subRules = (\<lambda>name.
       if name = ''s1'' then
         [Base (GEOIP ''us'' ''PASS-RULE'' True False),
          Logic [] ''s2'' RT_SubRules [Base (NetworkType TCP [])]]
       else if name = ''s2'' then [RuleSet ''ads'' ''REJECT'' False False, Base (MatchAll ''DIRECT'')]
       else [])\<rparr>"

text \<open>A provider whose only rule negates the provider itself.\<close>

definition cyclic_env :: RuleEnv where
  "cyclic_env = example_env\<lparr>RuleProviders := (\<lambda>name.
     if name = ''self''
     then Some (Some (classicalStrategy [Logic [] [] RT_NOT [RuleSet ''self'' [] False False]]))
     else None)\<rparr>"

text \<open>C5: matching a rule returns, without panic, with a verdict that does not depend on the
  bound, when the sub-rules and rule sets it reaches by name form no cycle (they have a rank that
  decreases along every reference) and every SUB-RULE and NOT has an operand.\<close>

theorem ruleMatch_total:
  assumes "ranked env rank" "env_wf env" "within rank n r" "rule_wf r"
  shows "\<exists>x. \<forall>n'\<ge>n. ruleMatch n' env r h st = Ret x"
proof -
  obtain x where "ruleMatch n env r h st = Ret x"
    using ruleMatch_returns(1) [OF assms, of h st] by (auto simp: returns_def)
  then show ?thesis
    by (intro exI allI impI) (rule ruleMatch_mono)
qed

definition example_rank :: "ref \<Rightarrow> nat" where
  "example_rank q = (if q = SubRef ''s1'' then 2 else if q = SubRef ''s2'' then 1 else 0)"

lemma example_env_bodies:
  "ref_body example_env q =
    (if q = SubRef ''s1'' then
       [Base (GEOIP ''us'' ''PASS-RULE'' True False),
        Logic [] ''s2'' RT_SubRules [Base (NetworkType TCP [])]]
     else if q = SubRef ''s2'' then
       [RuleSet ''ads'' ''REJECT'' False False, Base (MatchAll ''DIRECT'')]
     else if q = ProvRef ''ads'' then [Base (DomainSuffix ''ads.com'' [])]
     else [])"
  by (cases q) (simp_all add: example_env_def)

theorem ruleMatch_total_witness:
  "\<exists>x. \<forall>n'\<ge>3. ruleMatch n' example_env (Logic [] ''s1'' RT_SubRules [Base (MatchAll [])])
     no_helper ((), empty_metadata\<lparr>md_Host := ''a.ads.com''\<rparr>) = Ret x"
  by (rule ruleMatch_total [of _ example_rank])
     (auto simp: ranked_def env_wf_def within_def example_env_bodies example_rank_def)

text \<open>C21: what earlier rules looked up and cached in the metadata never changes a routing
  decision: two connections that differ only in the cached country codes (each set the true one
  for its address) and AS numbers get the same verdict from every rule, and remain equal but for
  these caches.\<close>

theorem ruleMatch_cache_irrelevant:
  assumes "coherent_helper env h"
    and "core m = core m'" "cache_ok env m" "cache_ok env m'"
    and "ruleMatch n env r h (s, m) = Ret (v, t)"
  shows "\<exists>v' t'. ruleMatch n env r h (s, m') = Ret (v', t') \<and> verdict v' = verdict v
    \<and> fst t' = fst t \<and> core (snd t') = core (snd t)"
proof -
  have "agree (same_result env) (ruleMatch n env r h (s, m)) (ruleMatch n env r h (s, m'))"
    using assms by (intro ruleMatch_same(1)) (simp_all add: same_conn_def)
  with assms(5) show ?thesis
    by (cases "ruleMatch n env r h (s, m')") (auto simp: same_result_def same_conn_def)
qed

theorem ruleMatch_cache_irrelevant_witness:
  "\<exists>v' t'. ruleMatch 1 example_env (Base (GEOIP ''us'' ''P'' True False)) no_helper
       ((), empty_metadata\<lparr>md_DstIP := Addr4 1, md_DstGeoIP := Some [''us'']\<rparr>) = Ret (v', t')
     \<and> verdict v' = Some ''P'' \<and> fst t' = () \<and> core (snd t') = empty_metadata\<lparr>md_DstIP := Addr4 1\<rparr>"
proof -
  let ?m = "empty_metadata\<lparr>md_DstIP := Addr4 1\<rparr>"
  have "ruleMatch 1 example_env (Base (GEOIP ''us'' ''P'' True False)) no_helper ((), ?m)
      = Ret ((True, ''P''), ((), ?m\<lparr>md_DstGeoIP := Some [''us'']\<rparr>))"
    by code_simp
  from ruleMatch_cache_irrelevant [OF no_helper_coherent.coherent_helper_axioms _ _ _ this,
      of "?m\<lparr>md_DstGeoIP := Some [''us'']\<rparr>"]
  show ?thesis
    by (simp add: core_def cache_ok_def codes_ok_def empty_metadata_def verdict_def
        example_env_def)
qed

lemma frame_fields:
  assumes "frame b m = frame b m'"
  shows "md_NetWork m' = md_NetWork m" "md_Type m' = md_Type m" "md_SrcIP m' = md_SrcIP m"
     "md_SrcPort m' = md_SrcPort m" "md_DstPort m' = md_DstPort m" "md_Host m' = md_Host m"
     "md_InIP m' = md_InIP m" "md_InPort m' = md_InPort m" "md_InName m' = md_InName m"
     "md_InUser m' = md_InUser m" "md_RematchName m' = md_RematchName m" "md_DNSMode m' = md_DNSMode m"
     "md_SpecialProxy m' = md_SpecialProxy m" "md_SpecialRules m' = md_SpecialRules m" "md_DSCP m' = md_DSCP m"
     "md_SniffHost m' = md_SniffHost m""\<not> b \<Longrightarrow> md_DstIP m' = md_DstIP m"
proof -
  note e = arg_cong [OF assms]
  show "md_NetWork m' = md_NetWork m"
    using e [of md_NetWork] by (simp add: frame_def core_def)
  show "md_Type m' = md_Type m"
    using e [of md_Type] by (simp add: frame_def core_def)
  show "md_SrcIP m' = md_SrcIP m"
    using e [of md_SrcIP] by (simp add: frame_def core_def)
  show "md_SrcPort m' = md_SrcPort m"
    using e [of md_SrcPort] by (simp add: frame_def core_def)
  show "md_DstPort m' = md_DstPort m"
    using e [of md_DstPort] by (simp add: frame_def core_def)
  show "md_Host m' = md_Host m"
    using e [of md_Host] by (simp add: frame_def core_def)
  show "md_InIP m' = md_InIP m"
    using e [of md_InIP] by (simp add: frame_def core_def)
  show "md_InPort m' = md_InPort m"
    using e [of md_InPort] by (simp add: frame_def core_def)
  show "md_InName m' = md_InName m"
    using e [of md_InName] by (simp add: frame_def core_def)
  show "md_InUser m' = md_InUser m"
    using e [of md_InUser] by (simp add: frame_def core_def)
  show "md_RematchName m' = md_RematchName m"
    using e [of md_RematchName] by (simp add: frame_def core_def)
  show "md_DNSMode m' = md_DNSMode m"
    using e [of md_DNSMode] by (simp add: frame_def core_def)
  show "md_SpecialProxy m' = md_SpecialProxy m"
    using e [of md_SpecialProxy] by (simp add: frame_def core_def)
  show "md_SpecialRules m' = md_SpecialRules m"
    using e [of md_SpecialRules] by (simp add: frame_def core_def)
  show "md_DSCP m' = md_DSCP m"
    using e [of md_DSCP] by (simp add: frame_def core_def)
  show "md_SniffHost m' = md_SniffHost m"
    using e [of md_SniffHost] by (simp add: frame_def core_def)
  show "md_DstIP m' = md_DstIP m" if "\<not> b"
    using that e [of md_DstIP] by (simp add: frame_def core_def)
qed

text \<open>matching a rule changes no field that identifies the connection: network, inbound,
  source, ports, host, DNS mode and special targets stay; the destination address changes only
  through the helper's resolution.\<close>

theorem ruleMatch_frame:
  assumes "framing_helper h" "ruleMatch n env r h (s, m) = Ret (v, (s', m'))"
  shows "md_NetWork m' = md_NetWork m \<and> md_Type m' = md_Type m \<and> md_SrcIP m' = md_SrcIP m
     \<and> md_SrcPort m' = md_SrcPort m \<and> md_DstPort m' = md_DstPort m \<and> md_Host m' = md_Host m
     \<and> md_InIP m' = md_InIP m \<and> md_InPort m' = md_InPort m \<and> md_InName m' = md_InName m
     \<and> md_InUser m' = md_InUser m \<and> md_RematchName m' = md_RematchName m \<and> md_DNSMode m' = md_DNSMode m
     \<and> md_SpecialProxy m' = md_SpecialProxy m \<and> md_SpecialRules m' = md_SpecialRules m \<and> md_DSCP m' = md_DSCP m
     \<and> md_SniffHost m' = md_SniffHost m
    \<and> (ResolveIP h = None \<longrightarrow> md_DstIP m' = md_DstIP m)"
proof -
  have "frame (can_resolve h) m = frame (can_resolve h) m'"
    using ruleMatch_framed(1) [OF assms] by (simp add: framed_def)
  from frame_fields [OF this] show ?thesis
    by (simp add: can_resolve_def)
qed

theorem ruleMatch_frame_witness:
  "\<exists>m'. ruleMatch 1 example_env (RuleSet ''ads'' ''REJECT'' True False) no_helper
       ((), empty_metadata\<lparr>md_Host := ''x.ads.com''\<rparr>) = Ret ((True, ''REJECT''), ((), m'))
     \<and> md_Host m' = ''x.ads.com'' \<and> md_DstIP m' = AddrInvalid"
proof -
  let ?m = "empty_metadata\<lparr>md_Host := ''x.ads.com''\<rparr>"
  have r: "ruleMatch 1 example_env (RuleSet ''ads'' ''REJECT'' True False) no_helper ((), ?m)
      = Ret ((True, ''REJECT''), ((), ?m))"
    by code_simp
  with ruleMatch_frame [OF no_helper_framing.framing_helper_axioms r] show ?thesis
    by (simp add: empty_metadata_def)
qed

text \<open>a classical rule set that reaches itself through a logic rule is never matched: the
  evaluation does not return, whatever the depth.\<close>

theorem self_reference_diverges:
  "ruleMatch n cyclic_env (RuleSet ''self'' a False False) h st = Diverge"
proof (induction n arbitrary: a h st)
  case 0
  show ?case by (simp add: cyclic_env_def Let_def)
next
  case (Suc n)
  have "RuleProviders cyclic_env ''self''
      = Some (Some (classicalStrategy [Logic [] [] RT_NOT [RuleSet ''self'' [] False False]]))"
    by (simp add: cyclic_env_def)
  with Suc show ?case by (simp add: Let_def)
qed

text \<open>a number that does not fit is not rejected but cut to the width of the field: the rule
  DSCP,300 is accepted and matches DSCP 44, and DST-PORT,70000 is accepted and matches port 4464.\<close>

theorem range_rules_truncate:
  "NewDSCP ''300'' a = Inr (DSCP [NewRange 44 44] ''300'' a)
   \<and> NewPort ''70000'' a RT_DstPort = Inr (Port a ''70000'' RT_DstPort [NewRange 4464 4464])"
  by code_simp

end
