(* ===== verification/RuleParser.thy ===== *)
theory RuleParser
  imports Rules
begin

text \<open>
  From text to rules: the split of a rule line (src/rules/common/base.go), the parser of the
  operands of a logic rule (src/rules/logic/logic.go), the switch over rule types
  (src/rules/parser.go), and the part of the configuration loader that parses the rule tables
  and rejects circular sub-rules (src/config/config.go). A dictionary of the configuration is an
  association list with distinct keys; nothing here depends on its order but which of several
  errors is reported first.
\<close>

section \<open>Rule lines\<close>

definition ParseParams :: "string list \<Rightarrow> bool \<times> bool" where
  "ParseParams params =
     (let isSrc = ''src'' \<in> set params in
      (isSrc, if isSrc then True else ''no-resolve'' \<in> set params))"

definition trimArr :: "string list \<Rightarrow> string list" where
  "trimArr arr = map (\<lambda>e. Trim e '' '') arr"

definition comma_types :: "string list" where
  "comma_types = [''NOT'', ''OR'', ''AND'', ''SUB-RULE'', ''DOMAIN-REGEX'',
     ''PROCESS-NAME-REGEX'', ''PROCESS-PATH-REGEX'']"

definition ParseRulePayload ::
  "string \<Rightarrow> bool \<Rightarrow> string \<times> string \<times> string \<times> string list" where
  "ParseRulePayload ruleRaw needTarget =
     (let item = trimArr (Split ruleRaw (CHR '','')); tp = ToUpper (hd item) in
      if length item > 1 then
        (if tp = ''MATCH'' then (tp, [], item ! 1, [])
         else if tp \<in> set comma_types then
           (if needTarget
            then (tp, Join (tl (butlast item)) '','', last item, [])
            else (tp, Join (tl item) '','', [], []))
         else if length item > 2 then
           (if needTarget
            then (tp, item ! 1, item ! 2, if length item > 3 then drop 3 item else [])
            else (tp, item ! 1, [], drop 2 item))
         else (tp, item ! 1, [], []))
      else (tp, [], [], []))"

section \<open>Operands of logic rules\<close>

text \<open>A group is a pair of positions, of an opening parenthesis and of the one that closes it.\<close>

fun format_loop :: "nat \<Rightarrow> string \<Rightarrow> nat list \<Rightarrow> (nat \<times> nat) list \<Rightarrow> (nat \<times> nat) list result" where
  "format_loop i [] stack subRanges =
     (if length stack \<noteq> 0 then Inl ''format error is missing )'' else Inr subRanges)"
| "format_loop i (c # s) stack subRanges =
     (if c = CHR ''('' then format_loop (Suc i) s (i # stack) subRanges
      else if c = CHR '')'' then
        (case stack of [] \<Rightarrow> Inl (''missing '' @ [CHR 0x27, CHR ''('', CHR 0x27])
         | start # stack' \<Rightarrow> format_loop (Suc i) s stack' (subRanges @ [(start, i)]))
      else format_loop (Suc i) s stack subRanges)"

definition format :: "string \<Rightarrow> (nat \<times> nat) list result" where
  "format payload = (case format_loop 0 payload [] [] of
     Inl e \<Rightarrow> Inl e | Inr subRanges \<Rightarrow> Inr (sort_key fst subRanges))"

definition containRange :: "nat \<times> nat \<Rightarrow> nat \<Rightarrow> nat \<Rightarrow> bool" where
  "containRange r preStart preEnd = (preStart < fst r \<and> preEnd > snd r)"

fun findSubRuleRange_loop :: "nat \<Rightarrow> (nat \<times> nat) list \<Rightarrow> (nat \<times> nat) list \<Rightarrow> (nat \<times> nat) list" where
  "findSubRuleRange_loop payloadLen [] subRuleRange = subRuleRange"
| "findSubRuleRange_loop payloadLen (rr # rest) subRuleRange =
     (if fst rr = 0 \<and> int (snd rr) = int payloadLen - 1
      then findSubRuleRange_loop payloadLen rest subRuleRange
      else if list_ex (\<lambda>r. containRange rr (fst r) (snd r)) subRuleRange
      then findSubRuleRange_loop payloadLen rest subRuleRange
      else findSubRuleRange_loop payloadLen rest (subRuleRange @ [rr]))"

definition findSubRuleRange :: "string \<Rightarrow> (nat \<times> nat) list \<Rightarrow> (nat \<times> nat) list" where
  "findSubRuleRange payload ruleRanges = findSubRuleRange_loop (length payload) ruleRanges []"

definition str_slice :: "nat \<Rightarrow> nat \<Rightarrow> 'a list \<Rightarrow> 'a list" where
  "str_slice lo hi xs = take (hi - lo) (drop lo xs)"

text \<open>The texts of the operands, in the order \<open>parsePayload\<close> visits them.\<close>

definition subPayloads :: "string \<Rightarrow> string list result" where
  "subPayloads payload =
     (if \<not> HasPrefix payload ''('' \<or> \<not> HasSuffix payload '')''
      then Inl ''payload format error''
      else case format payload of
        Inl e \<Rightarrow> Inl e
      | Inr subAllRanges \<Rightarrow>
          Inr (map (\<lambda>r. str_slice (fst r + 1) (snd r) payload) (findSubRuleRange payload subAllRanges)))"

subsection \<open>The operands are shorter than the payload\<close>

lemma format_loop_bounds:
  "format_loop i s stack acc = Inr out \<Longrightarrow> \<forall>x\<in>set stack. x < i \<Longrightarrow>
     \<forall>(a, b)\<in>set acc. a < b \<and> b < i + length s \<Longrightarrow> \<forall>(a, b)\<in>set out. a < b \<and> b < i + length s"
proof (induction i s stack acc rule: format_loop.induct)
  case (2 i c s stack acc)
  then show ?case
    by (force split: if_splits list.splits)
qed (auto split: if_splits)

lemma findSubRuleRange_loop_set:
  "r \<in> set (findSubRuleRange_loop n rs acc) \<Longrightarrow>
     r \<in> set acc \<or> r \<in> set rs \<and> \<not> (fst r = 0 \<and> int (snd r) = int n - 1)"
  by (induction n rs acc rule: findSubRuleRange_loop.induct) (auto split: if_splits)

lemma subPayloads_shorter:
  assumes "subPayloads payload = Inr ps" "p \<in> set ps"
  shows "length p + 2 < length payload"
proof -
  obtain rs where f: "format_loop 0 payload [] [] = Inr rs"
    and ps: "ps = map (\<lambda>r. str_slice (fst r + 1) (snd r) payload)
        (findSubRuleRange payload (sort_key fst rs))"
    using assms(1) by (auto simp: subPayloads_def format_def split: if_splits sum.splits)
  obtain a b where ab: "(a, b) \<in> set rs" "\<not> (a = 0 \<and> int b = int (length payload) - 1)"
    and p: "p = str_slice (a + 1) b payload"
    using assms(2) findSubRuleRange_loop_set [of _ "length payload" "sort_key fst rs" "[]"]
    unfolding ps findSubRuleRange_def by fastforce
  have "a < b" "b < length payload"
    using format_loop_bounds [OF f] ab(1) by auto
  then show ?thesis using ab(2) by (auto simp: p str_slice_def)
qed

lemma length_dropWhile_rev_le: "length (rev (dropWhile P (rev (dropWhile Q s)))) \<le> length s"
  by (metis length_dropWhile_le length_rev order_trans)

lemma length_Trim_le: "length (Trim s cs) \<le> length s"
  unfolding Trim_def Let_def by (rule length_dropWhile_rev_le)

lemma length_Join: "xs \<noteq> [] \<Longrightarrow> length (Join xs [c]) + 1 = sum_list (map (\<lambda>x. length x + 1) xs)"
  by (induction xs "[c]" rule: Join.induct) auto

lemma sum_list_mono_map:
  "(\<And>x. x \<in> set xs \<Longrightarrow> f x \<le> (g x :: nat)) \<Longrightarrow> sum_list (map f xs) \<le> sum_list (map g xs)"
  by (induction xs) (auto intro: add_mono)

lemma length_Join_trimArr: "length (Join (trimArr (Split s c)) [d]) \<le> length s"
proof -
  have "length (Join (trimArr (Split s c)) [d]) + 1
      = sum_list (map (\<lambda>x. length (Trim x '' '') + 1) (Split s c))"
    by (subst length_Join) (simp_all add: trimArr_def o_def)
  also have "\<dots> \<le> sum_list (map (\<lambda>x. length x + 1) (Split s c))"
    by (rule sum_list_mono_map) (simp add: length_Trim_le)
  also have "\<dots> = length s + 1"
    using length_Join [of "Split s c" c] by simp
  finally show ?thesis by simp
qed

lemma length_Join_tl: "length (Join (tl xs) [d]) \<le> length (Join xs [d])"
  by (cases xs; cases "tl xs") auto

lemma length_nth_Join: "i < length xs \<Longrightarrow> length (xs ! i) \<le> length (Join xs [d])"
proof (induction xs "[d]" arbitrary: i rule: Join.induct)
  case (3 p q ps)
  then show ?case by (cases i) force+
qed auto

lemma ParseRulePayload_shorter:
  assumes "ParseRulePayload s False = (tp, payload, target, params)"
  shows "length payload \<le> length s"
proof -
  let ?item = "trimArr (Split s (CHR '',''))"
  have "payload = [] \<or> payload = Join (tl ?item) '','' \<or> 1 < length ?item \<and> payload = ?item ! 1"
    using assms by (auto simp: ParseRulePayload_def Let_def split: if_splits)
  then show ?thesis
    using length_Join_tl [of ?item "CHR '',''"] length_nth_Join [of 1 ?item "CHR '',''"]
      length_Join_trimArr [of s "CHR '',''" "CHR '',''"]
    by auto
qed

section \<open>Rule types\<close>

definition as_rule :: "BaseRule result \<Rightarrow> rule result" where
  "as_rule r = (case r of Inl e \<Rightarrow> Inl e | Inr b \<Rightarrow> Inr (Base b))"

text \<open>The cases of the switch that build a rule without operands, and its default.\<close>

definition ParsePlainRule ::
  "RuleEnv \<Rightarrow> string \<Rightarrow> string \<Rightarrow> string \<Rightarrow> string list \<Rightarrow> rule result" where
  "ParsePlainRule env tp payload target params =
     (let isSrc = fst (ParseParams params); noResolve = snd (ParseParams params) in
      if tp = ''DOMAIN'' then Inr (Base (NewDomain payload target))
      else if tp = ''DOMAIN-SUFFIX'' then Inr (Base (NewDomainSuffix payload target))
      else if tp = ''DOMAIN-KEYWORD'' then Inr (Base (NewDomainKeyword payload target))
      else if tp = ''DOMAIN-REGEX'' then as_rule (NewDomainRegex env payload target)
      else if tp = ''DOMAIN-WILDCARD'' then as_rule (NewDomainWildcard payload target)
      else if tp = ''GEOSITE'' then as_rule (NewGEOSITE env payload target)
      else if tp = ''GEOIP'' then as_rule (NewGEOIP env payload target isSrc noResolve)
      else if tp = ''SRC-GEOIP'' then as_rule (NewGEOIP env payload target True True)
      else if tp = ''IP-ASN'' then as_rule (NewIPASN env payload target isSrc noResolve)
      else if tp = ''SRC-IP-ASN'' then as_rule (NewIPASN env payload target True True)
      else if tp = ''IP-CIDR'' \<or> tp = ''IP-CIDR6'' then
        as_rule (NewIPCIDR payload target isSrc noResolve)
      else if tp = ''SRC-IP-CIDR'' then as_rule (NewIPCIDR payload target True True)
      else if tp = ''IP-SUFFIX'' then as_rule (NewIPSuffix payload target isSrc noResolve)
      else if tp = ''SRC-IP-SUFFIX'' then as_rule (NewIPSuffix payload target True True)
      else if tp = ''SRC-PORT'' then as_rule (NewPort payload target RT_SrcPort)
      else if tp = ''DST-PORT'' then as_rule (NewPort payload target RT_DstPort)
      else if tp = ''IN-PORT'' then as_rule (NewPort payload target RT_InPort)
      else if tp = ''DSCP'' then as_rule (NewDSCP payload target)
      else if tp = ''PROCESS-NAME'' then as_rule (NewProcess env payload target RT_ProcessName)
      else if tp = ''PROCESS-PATH'' then as_rule (NewProcess env payload target RT_ProcessPath)
      else if tp = ''PROCESS-NAME-REGEX'' then
        as_rule (NewProcess env payload target RT_ProcessNameRegex)
      else if tp = ''PROCESS-PATH-REGEX'' then
        as_rule (NewProcess env payload target RT_ProcessPathRegex)
      else if tp = ''PROCESS-NAME-WILDCARD'' then
        as_rule (NewProcess env payload target RT_ProcessNameWildcard)
      else if tp = ''PROCESS-PATH-WILDCARD'' then
        as_rule (NewProcess env payload target RT_ProcessPathWildcard)
      else if tp = ''NETWORK'' then as_rule (NewNetworkType payload target)
      else if tp = ''UID'' then as_rule (NewUid env payload target)
      else if tp = ''IN-TYPE'' then as_rule (NewInType payload target)
      else if tp = ''IN-USER'' then as_rule (NewInUser payload target)
      else if tp = ''IN-NAME'' then as_rule (NewInName payload target)
      else if tp = ''REMATCH-NAME'' then as_rule (NewRematchName payload target)
      else if tp = ''RULE-SET'' then Inr (RuleSet payload target isSrc noResolve)
      else if tp = ''MATCH'' then Inr (Base (NewMatch target))
      else Inl (''unsupported rule type: '' @ tp))"

text \<open>What the four logic constructors do with the operands they parsed.\<close>

definition NewSubRule :: "string \<Rightarrow> string \<Rightarrow> rule list result \<Rightarrow> rule result" where
  "NewSubRule payload adapter operands = (case operands of
     Inl e \<Rightarrow> Inl e
   | Inr rs \<Rightarrow> (if length rs \<noteq> 1 then Inl ''Sub-Rule rule must contain one rule''
                else Inr (Logic payload adapter RT_SubRules rs)))"

definition NewNOT :: "string \<Rightarrow> string \<Rightarrow> rule list result \<Rightarrow> rule result" where
  "NewNOT payload adapter operands = (case operands of
     Inl e \<Rightarrow> Inl e
   | Inr rs \<Rightarrow> (if length rs \<noteq> 1 then Inl ''not rule must contain one rule''
                else Inr (Logic payload adapter RT_NOT rs)))"

definition NewOR :: "string \<Rightarrow> string \<Rightarrow> rule list result \<Rightarrow> rule result" where
  "NewOR payload adapter operands = (case operands of
     Inl e \<Rightarrow> Inl e | Inr rs \<Rightarrow> Inr (Logic payload adapter RT_OR rs))"

definition NewAND :: "string \<Rightarrow> string \<Rightarrow> rule list result \<Rightarrow> rule result" where
  "NewAND payload adapter operands = (case operands of
     Inl e \<Rightarrow> Inl e | Inr rs \<Rightarrow> Inr (Logic payload adapter RT_AND rs))"

definition is_logic_type :: "string \<Rightarrow> bool" where
  "is_logic_type tp = (tp = ''SUB-RULE'' \<or> tp = ''AND'' \<or> tp = ''OR'' \<or> tp = ''NOT'')"

text \<open>
  \<open>ParseRule\<close> and \<open>parsePayload\<close> call each other: the operands of a logic rule are parsed like
  rules, from shorter texts.
\<close>

fun max_length :: "string list \<Rightarrow> nat" where
  "max_length [] = 0"
| "max_length (p # ps) = max (length p) (max_length ps)"

lemma max_length_less: "0 < n \<Longrightarrow> (\<And>p. p \<in> set ps \<Longrightarrow> length p < n) \<Longrightarrow> max_length ps < n"
  by (induction ps) auto

fun parse_length where
  "parse_length (Inl (_, _, payload, _, _)) = length (payload :: string)"
| "parse_length (Inr (_, ps)) = max_length ps"

fun parse_stage :: "'a + 'b \<Rightarrow> nat" where
  "parse_stage (Inl _) = 0"
| "parse_stage (Inr _) = 1"

fun parse_todo :: "'a + ('b \<times> 'c list) \<Rightarrow> nat" where
  "parse_todo (Inl _) = 0"
| "parse_todo (Inr (_, ps)) = length ps"

function (sequential) ParseRule ::
    "RuleEnv \<Rightarrow> string \<Rightarrow> string \<Rightarrow> string \<Rightarrow> string list \<Rightarrow> rule result"
  and parsePayload :: "RuleEnv \<Rightarrow> string list \<Rightarrow> rule list result"
where
  "ParseRule env tp payload target params =
     (if tp \<noteq> ''MATCH'' \<and> payload = [] then Inl (''missing subsequent parameters: '' @ tp)
      else if is_logic_type tp then
        (let operands = (case subPayloads (if tp = ''SUB-RULE'' then ''('' @ payload @ '')'' else payload) of
               Inl e \<Rightarrow> Inl e | Inr ps \<Rightarrow> parsePayload env ps)
         in if tp = ''SUB-RULE'' then NewSubRule payload target operands
            else if tp = ''AND'' then NewAND payload target operands
            else if tp = ''OR'' then NewOR payload target operands
            else NewNOT payload target operands)
      else ParsePlainRule env tp payload target params)"
| "parsePayload env [] = Inr []"
| "parsePayload env (subPayload # ps) =
     (case ParseRulePayload subPayload False of (tp, payload, target, param) \<Rightarrow>
        if tp = ''MATCH'' \<or> tp = ''SUB-RULE''
        then Inl (''unsupported rule type ['' @ tp @ ''] on logic rule'')
        else if tp = [] then Inl (''['' @ subPayload @ ''] format is error'')
        else case ParseRule env tp payload target param of
          Inl e \<Rightarrow> Inl e
        | Inr r \<Rightarrow> (case parsePayload env ps of Inl e \<Rightarrow> Inl e | Inr rs \<Rightarrow> Inr (r # rs)))"
  by pat_completeness auto

lemma subPayloads_max_length:
  assumes "payload \<noteq> []"
    "subPayloads (if tp = ''SUB-RULE'' then ''('' @ payload @ '')'' else payload) = Inr ps"
  shows "max_length ps < length payload"
proof (rule max_length_less)
  show "0 < length payload" using assms(1) by simp
  show "length p < length payload" if "p \<in> set ps" for p
    using subPayloads_shorter [OF assms(2) that] by (simp split: if_splits)
qed

lemma parse_length_payload: "parse_length (Inl (env, ParseRulePayload s False)) \<le> length s"
  by (cases "ParseRulePayload s False") (auto dest: ParseRulePayload_shorter)

termination ParseRule
proof (relation "measures [parse_length, parse_stage, parse_todo]", goal_cases)
  case (2 env tp payload target params ps)
  then have "payload \<noteq> []" by (auto simp: is_logic_type_def)
  then show ?case using subPayloads_max_length 2 by simp
next
  case (3 env subPayload ps x y xa ya xb yb)
  have "a \<le> b \<Longrightarrow> a \<noteq> max b c \<Longrightarrow> a < max b c" for a b c :: nat
    by (auto simp: max_def split: if_splits)
  note max = this [OF parse_length_payload [of env subPayload], of "max_length ps"]
  from 3 show ?case
    by (auto intro: max)
qed auto

section \<open>The rule tables of a configuration\<close>

definition rule_error :: "string \<Rightarrow> nat \<Rightarrow> string \<Rightarrow> string \<Rightarrow> string" where
  "rule_error fmt idx line what =
     fmt @ ''['' @ FormatUint (int idx) @ ''] ['' @ line @ ''] error: '' @ what"

fun parseRules_loop :: "RuleEnv \<Rightarrow> (string \<Rightarrow> bool) \<Rightarrow> (string \<Rightarrow> bool) \<Rightarrow> (string \<Rightarrow> bool) \<Rightarrow> string
    \<Rightarrow> nat \<Rightarrow> string list \<Rightarrow> rule list result" where
  "parseRules_loop env proxies ruleProviders subRuleNames fmt idx [] = Inr []"
| "parseRules_loop env proxies ruleProviders subRuleNames fmt idx (line # rest) =
     (case ParseRulePayload line True of (tp, payload, target, params) \<Rightarrow>
        if target = [] then Inl (rule_error fmt idx line ''format invalid'')
        else if \<not> proxies target \<and> tp \<noteq> ''SUB-RULE'' then
          Inl (rule_error fmt idx line (''proxy ['' @ target @ ''] not found''))
        else if \<not> proxies target \<and> \<not> subRuleNames target then
          Inl (rule_error fmt idx line (''sub-rule ['' @ target @ ''] not found''))
        else case ParseRule env tp payload target params of
          Inl e \<Rightarrow> Inl (rule_error fmt idx line e)
        | Inr parsed \<Rightarrow>
            (case find (\<lambda>name. \<not> ruleProviders name) (ProviderNames parsed) of
               Some name \<Rightarrow> Inl (rule_error fmt idx line (''rule set ['' @ name @ ''] not found''))
             | None \<Rightarrow>
                 (case parseRules_loop env proxies ruleProviders subRuleNames fmt (Suc idx) rest of
                    Inl e \<Rightarrow> Inl e
                  | Inr rs \<Rightarrow> Inr (parsed # rs))))"

definition parseRules :: "RuleEnv \<Rightarrow> string list \<Rightarrow> (string \<Rightarrow> bool) \<Rightarrow> (string \<Rightarrow> bool)
    \<Rightarrow> (string \<Rightarrow> bool) \<Rightarrow> string \<Rightarrow> rule list result" where
  "parseRules env rulesConfig proxies ruleProviders subRuleNames fmt =
     parseRules_loop env proxies ruleProviders subRuleNames fmt 0 rulesConfig"

text \<open>The rules of the main table, and only they, are wrapped with their statistics.\<close>

definition parseMainRules :: "RuleEnv \<Rightarrow> string list \<Rightarrow> (string \<Rightarrow> bool) \<Rightarrow> (string \<Rightarrow> bool)
    \<Rightarrow> (string \<Rightarrow> bool) \<Rightarrow> RuleWrapper list result" where
  "parseMainRules env rulesConfig proxies ruleProviders subRuleNames =
     (case parseRules env rulesConfig proxies ruleProviders subRuleNames ''rules'' of
        Inl e \<Rightarrow> Inl e | Inr rs \<Rightarrow> Inr (map NewRuleWrapper rs))"

type_synonym SubRuleTable = "(string \<times> rule list) list"

text \<open>
  The search for a circular reference: the loop over the rules of one table; \<open>arr\<close> is the path of
  names that led to it. \<open>None\<close> is success.
\<close>

function verifyLoop :: "SubRuleTable \<Rightarrow> string \<Rightarrow> string list \<Rightarrow> nat \<Rightarrow> rule list \<Rightarrow> string option" where
  "verifyLoop subs n arr i [] = None"
| "verifyLoop subs n arr i (r # rs) =
     (if RuleType_of r = RT_SubRules then
        (case map_of subs (Adapter r) of
           None \<Rightarrow> Some (''sub-rule['' @ FormatUint (int i) @ '':'' @ n @ ''] error: ['' @ Adapter r
             @ ''] not found'')
         | Some body \<Rightarrow>
             (if Adapter r \<in> set arr then
                Some (''sub-rule error: circular references ['' @ Join (arr @ [Adapter r]) ''->'' @ '']'')
              else case verifyLoop subs (Adapter r) (arr @ [Adapter r]) 0 body of
                Some e \<Rightarrow> Some e
              | None \<Rightarrow> verifyLoop subs n arr (Suc i) rs))
      else verifyLoop subs n arr (Suc i) rs)"
  by pat_completeness auto

lemma card_names_less:
  "map_of subs a = Some body \<Longrightarrow> a \<notin> set arr \<Longrightarrow>
     card (fst ` set subs - insert a (set arr)) < card (fst ` set subs - set arr)"
  by (rule psubset_card_mono) (auto dest!: map_of_SomeD, metis DiffD2 DiffI fst_conv image_eqI insertI1)

termination verifyLoop
  by (relation "measures [\<lambda>(subs, n, arr, i, rs). card (fst ` set subs - set arr),
        \<lambda>(subs, n, arr, i, rs). length rs]")
     (auto dest: card_names_less)

definition verifySubRuleCircularReferences ::
  "string \<Rightarrow> SubRuleTable \<Rightarrow> string list \<Rightarrow> string option" where
  "verifySubRuleCircularReferences n subs arr =
     verifyLoop subs n (arr @ [n]) 0 (case map_of subs n of None \<Rightarrow> [] | Some rs \<Rightarrow> rs)"

fun first_error :: "string option list \<Rightarrow> string option" where
  "first_error [] = None"
| "first_error (None # es) = first_error es"
| "first_error (Some e # es) = Some e"

definition verifySubRule :: "SubRuleTable \<Rightarrow> string option" where
  "verifySubRule subs =
     first_error (map (\<lambda>name. verifySubRuleCircularReferences name subs []) (map fst subs))"

fun parseSubRules_loop :: "RuleEnv \<Rightarrow> (string \<Rightarrow> bool) \<Rightarrow> (string \<Rightarrow> bool) \<Rightarrow> (string \<Rightarrow> bool)
    \<Rightarrow> (string \<times> string list) list \<Rightarrow> SubRuleTable result" where
  "parseSubRules_loop env proxies ruleProviders names [] = Inr []"
| "parseSubRules_loop env proxies ruleProviders names ((name, rawRules) # rest) =
     (if length name = 0 then Inl ''sub-rule name is empty''
      else case parseRules env rawRules proxies ruleProviders names (''sub-rules['' @ name @ '']'') of
        Inl e \<Rightarrow> Inl e
      | Inr rules \<Rightarrow> (case parseSubRules_loop env proxies ruleProviders names rest of
            Inl e \<Rightarrow> Inl e
          | Inr table \<Rightarrow> Inr ((name, rules) # table)))"

definition parseSubRules :: "RuleEnv \<Rightarrow> (string \<times> string list) list \<Rightarrow> (string \<Rightarrow> bool)
    \<Rightarrow> (string \<Rightarrow> bool) \<Rightarrow> SubRuleTable result" where
  "parseSubRules env cfg proxies ruleProviders =
     (case parseSubRules_loop env proxies ruleProviders (\<lambda>n. n \<in> fst ` set cfg) cfg of
        Inl e \<Rightarrow> Inl e
      | Inr table \<Rightarrow> (case verifySubRule table of Some e \<Rightarrow> Inl e | None \<Rightarrow> Inr table))"

section \<open>What the parser guarantees\<close>

text \<open>No operand of a logic rule is a SUB-RULE: sub-rules are entered from a table only.\<close>

fun no_sub :: "rule \<Rightarrow> bool" where
  "no_sub (Base b) = True"
| "no_sub (RuleSet n a isSrc noRes) = True"
| "no_sub (Logic pl a tp rs) = (tp \<noteq> RT_SubRules \<and> list_all no_sub rs)"

fun operands_of :: "rule \<Rightarrow> rule list" where
  "operands_of (Logic pl a tp rs) = rs"
| "operands_of r = []"

text \<open>SUB-RULE and NOT have exactly one operand, at every depth.\<close>

fun single_operands :: "rule \<Rightarrow> bool" where
  "single_operands (Logic pl a tp rs) =
     ((tp = RT_SubRules \<or> tp = RT_NOT \<longrightarrow> length rs = 1) \<and> list_all single_operands rs)"
| "single_operands r = True"

definition parsed_rule :: "rule \<Rightarrow> bool" where
  "parsed_rule r = (rule_wf r \<and> list_all no_sub (operands_of r))"

text \<open>What every constructor of a plain rule establishes.\<close>

definition plain_ok :: "string \<Rightarrow> BaseRule \<Rightarrow> bool" where
  "plain_ok target b = (BaseAdapter b = target \<and> RuleType_of (Base b) \<noteq> RT_SubRules)"

lemmas new_rule_defs = NewDomain_def NewDomainSuffix_def NewDomainKeyword_def NewDomainRegex_def
  NewDomainWildcard_def NewGEOSITE_def NewGEOIP_def NewIPASN_def NewIPCIDR_def NewIPSuffix_def
  NewPort_def NewDSCP_def NewProcess_def NewNetworkType_def NewUid_def NewInType_def
  NewInUser_def NewInName_def NewRematchName_def NewMatch_def

lemma new_rule_ok:
  "plain_ok a (NewDomain p a)" "plain_ok a (NewDomainSuffix p a)" "plain_ok a (NewDomainKeyword p a)"
  "plain_ok a (NewMatch a)"
  "NewDomainRegex env p a = Inr b \<Longrightarrow> plain_ok a b"
  "NewDomainWildcard p a = Inr b \<Longrightarrow> plain_ok a b"
  "NewGEOSITE env p a = Inr b \<Longrightarrow> plain_ok a b"
  "NewGEOIP env p a s n = Inr b \<Longrightarrow> plain_ok a b"
  "NewIPASN env p a s n = Inr b \<Longrightarrow> plain_ok a b"
  "NewIPCIDR p a s n = Inr b \<Longrightarrow> plain_ok a b"
  "NewIPSuffix p a s n = Inr b \<Longrightarrow> plain_ok a b"
  "NewPort p a tp = Inr b \<Longrightarrow> tp \<noteq> RT_SubRules \<Longrightarrow> plain_ok a b"
  "NewDSCP p a = Inr b \<Longrightarrow> plain_ok a b"
  "NewProcess env p a tp = Inr b \<Longrightarrow> tp \<noteq> RT_SubRules \<Longrightarrow> plain_ok a b"
  "NewNetworkType p a = Inr b \<Longrightarrow> plain_ok a b"
  "NewUid env p a = Inr b \<Longrightarrow> plain_ok a b"
  "NewInType p a = Inr b \<Longrightarrow> plain_ok a b"
  "NewInUser p a = Inr b \<Longrightarrow> plain_ok a b"
  "NewInName p a = Inr b \<Longrightarrow> plain_ok a b"
  "NewRematchName p a = Inr b \<Longrightarrow> plain_ok a b"
  by (auto simp: plain_ok_def new_rule_defs Let_def split: if_splits sum.splits option.splits)

lemma if_resultE:
  "(if c then x else y) = Inr r \<Longrightarrow> (x = Inr r \<Longrightarrow> P) \<Longrightarrow> (y = Inr r \<Longrightarrow> P) \<Longrightarrow> P"
  by (simp split: if_splits)

lemma as_ruleD: "as_rule x = Inr r \<Longrightarrow> \<exists>b. x = Inr b \<and> r = Base b"
  by (auto simp: as_rule_def split: sum.splits)

lemma ParsePlainRule_cases:
  assumes "ParsePlainRule env tp payload target params = Inr r"
  shows "(\<exists>b. r = Base b \<and> plain_ok target b) \<or> (\<exists>s n. r = RuleSet payload target s n)"
  using assms unfolding ParsePlainRule_def Let_def
  by (elim if_resultE) (auto dest!: as_ruleD intro: new_rule_ok)

lemma ParsePlainRule_ok:
  assumes "ParsePlainRule env tp payload target params = Inr r"
  shows "rule_wf r" "single_operands r" "no_sub r" "operands_of r = []" "Adapter r = target" "RuleType_of r \<noteq> RT_SubRules"
  using ParsePlainRule_cases [OF assms] by (auto simp: plain_ok_def)

lemma no_subI: "RuleType_of r \<noteq> RT_SubRules \<Longrightarrow> list_all no_sub (operands_of r) \<Longrightarrow> no_sub r"
  by (cases r) auto

lemma ParseRule_ok:
  "ParseRule env tp payload target params = Inr r \<Longrightarrow>
     rule_wf r \<and> single_operands r \<and> list_all no_sub (operands_of r) \<and> Adapter r = target
     \<and> (RuleType_of r = RT_SubRules \<longleftrightarrow> tp = ''SUB-RULE'')"
  "parsePayload env ps = Inr rs \<Longrightarrow> list_all rule_wf rs \<and> list_all single_operands rs \<and> list_all no_sub rs"
proof (induction env tp payload target params and env ps arbitrary: r and rs
    rule: ParseRule_parsePayload.induct)
  case (1 env tp payload target params)
  show ?case
  proof (cases "is_logic_type tp")
    case True
    define ops where "ops = (case subPayloads (if tp = ''SUB-RULE'' then ''('' @ payload @ '')'' else payload) of
               Inl e \<Rightarrow> Inl e | Inr ps \<Rightarrow> parsePayload env ps)"
    have ops: "list_all rule_wf rs \<and> list_all single_operands rs \<and> list_all no_sub rs" if "ops = Inr rs" for rs
      using that "1.IH" [of _ rs] "1.prems" True by (auto simp: ops_def split: sum.splits if_splits)
    from True "1.prems" show ?thesis 
      apply (simp only: ParseRule.simps Let_def ops_def [symmetric] if_True)
      using ops
      by (auto simp: NewSubRule_def NewAND_def NewOR_def NewNOT_def is_logic_type_def
          split: if_splits sum.splits)
  next
    case False
    with "1.prems" show ?thesis
      by (auto simp: ParsePlainRule_ok is_logic_type_def split: if_splits)
  qed
next
  case (3 env subPayload ps)
  obtain tp payload target param where p: "ParseRulePayload subPayload False = (tp, payload, target, param)"
    by (metis prod_cases4)
  with "3.prems" obtain r' rs' where r': "ParseRule env tp payload target param = Inr r'"
    and rs': "parsePayload env ps = Inr rs'" and c: "tp \<noteq> ''MATCH''" "tp \<noteq> ''SUB-RULE''" "tp \<noteq> []"
    and rs: "rs = r' # rs'"
    by (auto simp del: ParseRule.simps split: if_splits sum.splits)
  have "rule_wf r'" "single_operands r'" "no_sub r'"
    using "3.IH"(1) [OF p [symmetric] refl refl _ c(3) r'] c by (auto intro: no_subI)
  moreover have "list_all rule_wf rs' \<and> list_all single_operands rs' \<and> list_all no_sub rs'"
    using "3.IH"(2) [OF p [symmetric] refl refl _ c(3) r' rs'] c by auto
  ultimately show ?case by (simp add: rs)
qed simp_all

section \<open>Verified sub-rules have no cycle\<close>

definition table_body :: "SubRuleTable \<Rightarrow> string \<Rightarrow> rule list" where
  "table_body subs n = (case map_of subs n of None \<Rightarrow> [] | Some rs \<Rightarrow> rs)"

text \<open>The pairs (referenced, referring) of table names.\<close>

definition sub_edge :: "SubRuleTable \<Rightarrow> (string \<times> string) set" where
  "sub_edge subs = {(Adapter r, n) | r n. r \<in> set (table_body subs n) \<and> RuleType_of r = RT_SubRules}"

lemma verifyLoop_ref:
  "verifyLoop subs n arr i rs = None \<Longrightarrow> r \<in> set rs \<Longrightarrow> RuleType_of r = RT_SubRules \<Longrightarrow>
     Adapter r \<in> fst ` set subs \<and> Adapter r \<notin> set arr
     \<and> verifyLoop subs (Adapter r) (arr @ [Adapter r]) 0 (table_body subs (Adapter r)) = None"
proof (induction rs arbitrary: i)
  case (Cons r' rs)
  have k: "map_of subs a = Some b \<Longrightarrow> a \<in> fst ` set subs" for a b
    by (force dest: map_of_SomeD)
  from Cons show ?case
    by (auto simp: table_body_def split: if_splits option.splits dest: k)
qed simp

lemma verified_descendant:
  assumes "(b, n) \<in> (sub_edge subs)\<^sup>+" "verifyLoop subs n arr 0 (table_body subs n) = None"
  shows "b \<notin> set arr \<and> b \<in> fst ` set subs"
  using assms
proof (induction arbitrary: arr rule: trancl_induct)
  case (base n)
  then show ?case by (auto simp: sub_edge_def dest: verifyLoop_ref)
next
  case (step y z)
  from step.hyps(2) step.prems have "verifyLoop subs y (arr @ [y]) 0 (table_body subs y) = None"
    by (auto simp: sub_edge_def dest: verifyLoop_ref)
  from step.IH [OF this] show ?case by simp
qed

lemma first_error_None: "first_error es = None \<longleftrightarrow> (\<forall>e\<in>set es. e = None)"
  by (induction es rule: first_error.induct) auto

lemma verifySubRule_start:
  "verifySubRule subs = None \<Longrightarrow> verifyLoop subs n [n] 0 (table_body subs n) = None"
proof (cases "n \<in> fst ` set subs")
  case True
  then show "verifySubRule subs = None \<Longrightarrow> ?thesis"
    by (auto simp: verifySubRule_def first_error_None verifySubRuleCircularReferences_def
        table_body_def)
next
  case False
  then have "map_of subs n = None" by (simp add: map_of_eq_None_iff)
  then show ?thesis by (simp add: table_body_def)
qed

lemma verified_acyclic: "verifySubRule subs = None \<Longrightarrow> (n, n) \<notin> (sub_edge subs)\<^sup>+"
  using verified_descendant [OF _ verifySubRule_start, of n n subs] by auto

definition table_rank :: "SubRuleTable \<Rightarrow> string \<Rightarrow> nat" where
  "table_rank subs n = card {m. (m, n) \<in> (sub_edge subs)\<^sup>+}"

lemma verified_descendants:
  "verifySubRule subs = None \<Longrightarrow> {m. (m, n) \<in> (sub_edge subs)\<^sup>+} \<subseteq> fst ` set subs"
  using verified_descendant [OF _ verifySubRule_start, of _ n subs] by auto

lemma table_rank_le: "verifySubRule subs = None \<Longrightarrow> table_rank subs n \<le> length subs"
proof -
  assume "verifySubRule subs = None"
  then have "card {m. (m, n) \<in> (sub_edge subs)\<^sup>+} \<le> card (fst ` set subs)"
    by (intro card_mono verified_descendants) simp_all
  also have "\<dots> \<le> length subs"
    by (metis card_length length_map list.set_map)
  finally show ?thesis by (simp add: table_rank_def)
qed

lemma table_rank_less:
  assumes "verifySubRule subs = None" "(a, n) \<in> sub_edge subs"
  shows "table_rank subs a < table_rank subs n"
  unfolding table_rank_def
proof (rule psubset_card_mono)
  show "finite {m. (m, n) \<in> (sub_edge subs)\<^sup>+}"
    using verified_descendants [OF assms(1)] by (rule finite_subset) simp
  have "a \<in> {m. (m, n) \<in> (sub_edge subs)\<^sup>+}" "a \<notin> {m. (m, a) \<in> (sub_edge subs)\<^sup>+}"
    using assms verified_acyclic by auto
  moreover have "{m. (m, a) \<in> (sub_edge subs)\<^sup>+} \<subseteq> {m. (m, n) \<in> (sub_edge subs)\<^sup>+}"
    using assms(2) by auto
  ultimately show "{m. (m, a) \<in> (sub_edge subs)\<^sup>+} \<subset> {m. (m, n) \<in> (sub_edge subs)\<^sup>+}"
    by blast
qed

text \<open>The environment in which a loaded configuration matches.\<close>

definition config_env :: "RuleEnv \<Rightarrow> SubRuleTable \<Rightarrow> RuleEnv" where
  "config_env env subs = env\<lparr>subRules := table_body subs\<rparr>"

definition flat_providers :: "RuleEnv \<Rightarrow> bool" where
  "flat_providers env = (\<forall>name rs. RuleProviders env name = Some (Some (classicalStrategy rs)) \<longrightarrow>
     list_all (\<lambda>r. rule_wf r \<and> refs_of r = []) rs)"

fun config_rank :: "SubRuleTable \<Rightarrow> ref \<Rightarrow> nat" where
  "config_rank subs (SubRef n) = Suc (table_rank subs n)"
| "config_rank subs (ProvRef p) = 0"

lemma no_sub_refs: "no_sub r \<Longrightarrow> q \<in> set (refs_of r) \<Longrightarrow> \<exists>p. q = ProvRef p"
  by (induction r) (auto simp: list_all_iff)

lemma parsed_refs:
  assumes "parsed_rule r" "q \<in> set (refs_of r)"
  shows "(\<exists>p. q = ProvRef p) \<or> RuleType_of r = RT_SubRules \<and> q = SubRef (Adapter r)"
  using assms by (cases r) (auto simp: parsed_rule_def list_all_iff dest: no_sub_refs split: if_splits)

lemma flat_body: "flat_providers env \<Longrightarrow> r \<in> set (ref_body env (ProvRef p)) \<Longrightarrow> rule_wf r \<and> refs_of r = []"
  by (cases "RuleProviders env p"; cases "the (RuleProviders env p)";
      cases "the (the (RuleProviders env p))") (auto simp: flat_providers_def list_all_iff)

lemma config_ranked:
  assumes "verifySubRule subs = None" "flat_providers env"
    "\<And>n. list_all parsed_rule (table_body subs n)"
  shows "ranked (config_env env subs) (config_rank subs)" "env_wf (config_env env subs)"
proof -
  have "config_rank subs q' < config_rank subs q"
    if r: "r \<in> set (ref_body (config_env env subs) q)" "q' \<in> set (refs_of r)" for q r q'
  proof (cases q)
    case (SubRef n)
    then have "parsed_rule r" and r': "r \<in> set (table_body subs n)"
      using r assms(3) by (auto simp: config_env_def list_all_iff)
    from parsed_refs [OF this(1) r(2)] show ?thesis
    proof
      assume "RuleType_of r = RT_SubRules \<and> q' = SubRef (Adapter r)"
      then show ?thesis using SubRef r' table_rank_less [OF assms(1), of "Adapter r" n]
        by (auto simp: sub_edge_def)
    qed (auto simp: SubRef)
  next
    case (ProvRef p)
    then have "r \<in> set (ref_body env (ProvRef p))"
      using r(1) by (simp add: config_env_def)
    then show ?thesis using r(2) flat_body [OF assms(2)] by auto
  qed
  then show "ranked (config_env env subs) (config_rank subs)"
    by (auto simp: ranked_def)
  have "list_all rule_wf (ref_body (config_env env subs) q)" for q
  proof (cases q)
    case (SubRef n)
    then show ?thesis using assms(3) [of n]
      by (simp add: config_env_def list_all_iff parsed_rule_def)
  next
    case (ProvRef p)
    have "ref_body (config_env env subs) (ProvRef p) = ref_body env (ProvRef p)"
      by (simp add: config_env_def)
    then show ?thesis using ProvRef flat_body [OF assms(2)] by (auto simp only: list_all_iff)
  qed
  then show "env_wf (config_env env subs)"
    by (simp add: env_wf_def)
qed

lemma parseRules_loop_parsed:
  "parseRules_loop env proxies provs names fmt i lines = Inr rs \<Longrightarrow> list_all parsed_rule rs"
proof (induction lines arbitrary: i rs)
  case (Cons line lines)
  then show ?case
    by (auto simp: parsed_rule_def simp del: ParseRule.simps dest!: ParseRule_ok(1)
        split: prod.splits if_splits sum.splits option.splits)
qed simp

lemma parseSubRules_loop_parsed:
  "parseSubRules_loop env proxies provs names cfg = Inr subs \<Longrightarrow> (n, rs) \<in> set subs \<Longrightarrow>
     list_all parsed_rule rs"
proof (induction cfg arbitrary: subs)
  case (Cons c cfg)
  then show ?case
    by (cases c) (auto simp: parseRules_def dest!: parseRules_loop_parsed split: if_splits sum.splits)
qed simp

lemma parseSubRules_ok:
  assumes "parseSubRules env cfg proxies provs = Inr subs"
  shows "verifySubRule subs = None" "list_all parsed_rule (table_body subs n)"
proof -
  from assms obtain names where
    p: "parseSubRules_loop env proxies provs names cfg = Inr subs"
    and v: "verifySubRule subs = None"
    by (auto simp: parseSubRules_def split: sum.splits option.splits)
  show "verifySubRule subs = None" by (rule v)
  show "list_all parsed_rule (table_body subs n)"
    using parseSubRules_loop_parsed [OF p]
    by (auto simp: table_body_def split: option.splits dest!: map_of_SomeD)
qed

section \<open>Properties of the parser\<close>

text \<open>C3: a loaded configuration always decides. When the sub-rules were parsed and verified, the
  rules of a table were parsed against them, and no classical rule set refers to another by name,
  then matching any of these rules returns, without panic, at a depth of the number of tables
  plus two and with the same result at every greater one.\<close>

theorem config_rules_terminate:
  assumes "parseSubRules env cfg proxies provs = Inr subs"
    and "parseRules env lines proxies provs names fmt = Inr rules" "r \<in> set rules"
    and "flat_providers env"
  shows "\<exists>x. \<forall>n\<ge>length subs + 2. ruleMatch n (config_env env subs) r h st = Ret x"
proof -
  have r: "parsed_rule r"
    using assms(2,3) parseRules_loop_parsed by (auto simp: parseRules_def list_all_iff)
  note ok = parseSubRules_ok [OF assms(1)]
  have "config_rank subs q < length subs + 2" for q
    using table_rank_le [OF ok(1)] by (cases q) (auto intro: le_imp_less_Suc)
  then have w: "within (config_rank subs) (length subs + 2) r"
    by (simp add: within_def)
  obtain x where "ruleMatch (length subs + 2) (config_env env subs) r h st = Ret x"
    using ruleMatch_returns(1) [OF config_ranked [OF ok(1) assms(4) ok(2)] w, of h st] r
    by (auto simp: returns_def parsed_rule_def)
  then show ?thesis
    by (intro exI allI impI) (rule ruleMatch_mono)
qed

definition example_cfg :: "(string \<times> string list) list" where
  "example_cfg = [(''s1'', [''DOMAIN,a.com,DIRECT'', ''SUB-RULE,(NETWORK,tcp),s2'']),
                  (''s2'', [''AND,((DST-PORT,80),(NOT,((DOMAIN,b.com)))),DIRECT''])]"

definition example_subs :: SubRuleTable where
  "example_subs = [(''s1'', [Base (Domain ''a.com'' ''DIRECT''),
       Logic ''(NETWORK,tcp)'' ''s2'' RT_SubRules [Base (NetworkType TCP [])]]),
     (''s2'', [Logic ''((DST-PORT,80),(NOT,((DOMAIN,b.com))))'' ''DIRECT'' RT_AND
       [Base (Port [] ''80'' RT_DstPort [NewRange 80 80]),
        Logic ''((DOMAIN,b.com))'' [] RT_NOT [Base (Domain ''b.com'' [])]]])]"

theorem config_rules_terminate_witness:
  "\<exists>x. \<forall>n\<ge>4. ruleMatch n (config_env example_env example_subs) (Logic ''(NETWORK,tcp)'' ''s1'' RT_SubRules
     [Base (NetworkType TCP [])]) no_helper ((), empty_metadata) = Ret x"
proof -
  have c1: "parseSubRules example_env example_cfg (\<lambda>p. p = ''DIRECT'') (\<lambda>_. False) = Inr example_subs"
    by code_simp
  have c2: "parseRules example_env [''SUB-RULE,(NETWORK,tcp),s1''] (\<lambda>p. p = ''DIRECT'') (\<lambda>_. False)
      (\<lambda>s. s = ''s1'' \<or> s = ''s2'') ''rules''
      = Inr [Logic ''(NETWORK,tcp)'' ''s1'' RT_SubRules [Base (NetworkType TCP [])]]"
    by code_simp
  have c3: "flat_providers example_env"
    by (auto simp: flat_providers_def example_env_def split: if_splits)
  have len: "length example_subs + 2 = 4"
    by (simp add: example_subs_def)
  show ?thesis
    by (rule config_rules_terminate [OF c1 c2 _ c3, unfolded len]) simp
qed

text \<open>C20. The parser builds only rules the matcher can evaluate: in the rule of an accepted line
  every SUB-RULE and every NOT, at any depth, has exactly one operand, no operand is itself a
  SUB-RULE, no plain rule carries the type of SUB-RULE, the target of the line is the rule's adapter,
  and the rule is a SUB-RULE exactly when the line says so.\<close>

theorem ParseRule_wellformed:
  assumes "ParseRule env tp payload target params = Inr r"
  shows "rule_wf r \<and> single_operands r \<and> list_all no_sub (operands_of r) \<and> Adapter r = target
    \<and> (RuleType_of r = RT_SubRules \<longleftrightarrow> tp = ''SUB-RULE'')"
  by (rule ParseRule_ok(1) [OF assms])

theorem ParseRule_wellformed_witness:
  "\<exists>r. ParseRule example_env ''SUB-RULE'' ''(AND,((NOT,((NETWORK,tcp))),(NETWORK,udp)))'' ''s1'' [] = Inr r
     \<and> rule_wf r \<and> single_operands r \<and> length (operands_of r) = 1
     \<and> length (operands_of (hd (operands_of r))) = 2
     \<and> list_all no_sub (operands_of r) \<and> Adapter r = ''s1'' \<and> RuleType_of r = RT_SubRules"
proof -
  let ?run = "ParseRule example_env ''SUB-RULE'' ''(AND,((NOT,((NETWORK,tcp))),(NETWORK,udp)))'' ''s1'' []"
  have "case ?run of Inl e \<Rightarrow> False | Inr r \<Rightarrow> length (operands_of r) = 1 \<and> length (operands_of (hd (operands_of r))) = 2"
    by code_simp
  then obtain r where r: "?run = Inr r" "length (operands_of r) = 1" "length (operands_of (hd (operands_of r))) = 2"
    by (cases ?run) (simp_all del: ParseRule.simps)
  from ParseRule_wellformed [OF r(1)] r show ?thesis by blast
qed

text \<open>an AND whose payload is a single group in one pair of parentheses, such as
  AND,(DOMAIN,a.com), is accepted with no operand at all, and then matches every connection.\<close>

theorem single_group_AND_matches_all:
  "ParseRule env ''AND'' ''(DOMAIN,a.com)'' target params = Inr (Logic ''(DOMAIN,a.com)'' target RT_AND [])
   \<and> ruleMatch n env (Logic ''(DOMAIN,a.com)'' target RT_AND []) h st = Ret ((True, target), st)"
proof -
  have "subPayloads ''(DOMAIN,a.com)'' = Inr []"
    by code_simp
  then show ?thesis by (simp add: is_logic_type_def NewAND_def Let_def)
qed

end
