(* ===== verification/DomainTrie.thy ===== *)
theory DomainTrie
  imports Go_Prelude "HOL-Library.Sublist"
begin

text \<open>
  The trie of domain names (src/component/trie/node.go, domain.go). A node keeps its children in
  a map or, as long as there is one, in a pair of fields; its data is present once \<open>setData\<close> was
  called. A map is an association list with distinct keys; pointers are values, and an update
  below a node rebuilds the path to it. A name is stored by its labels from right to left; the
  label \<open>*\<close> stands for any one label and the empty label, always the last of a path, for one or
  more further labels.
\<close>

section \<open>Nodes\<close>

datatype 'a Node =
  Node (childMap: "(string \<times> 'a Node) list option") (childNode: "'a Node option")
    (childStr: string) (nodeData: "'a option")

definition newNode :: "'a Node" where
  "newNode = Node None None [] None"

definition getChild :: "'a Node \<Rightarrow> string \<Rightarrow> 'a Node option" where
  "getChild n s = (case childMap n of
     None \<Rightarrow> (case childNode n of
                Some c \<Rightarrow> if childStr n = s then Some c else None
              | None \<Rightarrow> None)
   | Some m \<Rightarrow> map_of m s)"

definition hasChild :: "'a Node \<Rightarrow> string \<Rightarrow> bool" where
  "hasChild n s = (getChild n s \<noteq> None)"

text \<open>Assignment to a key of a map.\<close>

fun map_put :: "string \<Rightarrow> 'a \<Rightarrow> (string \<times> 'a) list \<Rightarrow> (string \<times> 'a) list" where
  "map_put k v [] = [(k, v)]"
| "map_put k v ((k', v') # m) = (if k' = k then (k, v) # m else (k', v') # map_put k v m)"

fun addChild :: "'a Node \<Rightarrow> string \<Rightarrow> 'a Node \<Rightarrow> 'a Node" where
  "addChild (Node (Some m) cn cs d) s child = Node (Some (map_put s child m)) cn cs d"
| "addChild (Node None None cs d) s child = Node None (Some child) s d"
| "addChild (Node None (Some c) cs d) s child =
     Node (Some (map_put s child [(cs, c)])) None [] d"

text \<open>Storing a changed child where \<open>getChild\<close> found it.\<close>

fun replaceChild :: "'a Node \<Rightarrow> string \<Rightarrow> 'a Node \<Rightarrow> 'a Node" where
  "replaceChild (Node (Some m) cn cs d) s child = Node (Some (map_put s child m)) cn cs d"
| "replaceChild (Node None cn cs d) s child = Node None (Some child) cs d"

text \<open>\<open>getOrNewChild\<close>, with the change \<open>f\<close> that the caller makes to the child it returns.\<close>

definition getOrNewChild :: "'a Node \<Rightarrow> string \<Rightarrow> ('a Node \<Rightarrow> 'a Node) \<Rightarrow> 'a Node" where
  "getOrNewChild n s f = (case getChild n s of
     Some c \<Rightarrow> replaceChild n s (f c)
   | None \<Rightarrow> addChild n s (f newNode))"

definition setData :: "'a \<Rightarrow> 'a Node \<Rightarrow> 'a Node" where
  "setData x n = Node (childMap n) (childNode n) (childStr n) (Some x)"

definition isEmpty :: "'a Node option \<Rightarrow> bool" where
  "isEmpty n = (case n of None \<Rightarrow> True | Some m \<Rightarrow> nodeData m = None)"

definition getChildren :: "'a Node \<Rightarrow> (string \<times> 'a Node) list" where
  "getChildren n = (case childMap n of
     None \<Rightarrow> (case childNode n of Some c \<Rightarrow> [(childStr n, c)] | None \<Rightarrow> [])
   | Some m \<Rightarrow> m)"

fun optimize :: "'a Node \<Rightarrow> 'a Node" where
  "optimize (Node m cn cs d) =
     (let cn' = map_option optimize cn;
          kids = map_option (map (map_prod id optimize)) m
      in case kids of
           None \<Rightarrow> Node None cn' cs d
         | Some [] \<Rightarrow> Node None cn' cs d
         | Some [(k, c)] \<Rightarrow> Node None (Some c) k d
         | Some kvs \<Rightarrow> Node (Some kvs) cn' cs d)"

section \<open>Domain names\<close>

fun wildcard_misplaced :: "nat \<Rightarrow> nat \<Rightarrow> string list \<Rightarrow> bool" where
  "wildcard_misplaced n i [] = False"
| "wildcard_misplaced n i (part # ps) =
     (if Contains part ''+'' \<and> (part \<noteq> ''+'' \<or> i \<noteq> 0 \<or> n = 1) then True
      else if Contains part ''*'' \<and> part \<noteq> ''*'' then True
      else wildcard_misplaced n (Suc i) ps)"

definition ValidAndSplitDomain :: "string \<Rightarrow> string list option" where
  "ValidAndSplitDomain domain0 =
     (if domain0 \<noteq> [] \<and> last domain0 = CHR ''.'' then None
      else if domain0 \<noteq> [] \<and> (IsSpace (hd domain0) \<or> IsSpace (last domain0)) then None
      else
        (let domain = ToLower domain0; parts = Split domain (CHR ''.'') in
         if length parts = 1 \<and> hd parts = [] then None
         else if length parts \<noteq> 1 \<and> [] \<in> set (tl parts) then None
         else if wildcard_misplaced (length parts) 0 parts then None
         else Some parts))"

section \<open>Insertion and search\<close>

text \<open>The labels are consumed from the right end of a name: the argument is reversed.\<close>

fun insert_path :: "string list \<Rightarrow> 'a \<Rightarrow> 'a Node \<Rightarrow> 'a Node" where
  "insert_path [] x n = setData x n"
| "insert_path (p # ps) x n = getOrNewChild n p (insert_path ps x)"

definition insert_parts :: "string list \<Rightarrow> 'a \<Rightarrow> 'a Node \<Rightarrow> 'a Node" where
  "insert_parts parts x root = insert_path (rev parts) x root"

definition Insert :: "string \<Rightarrow> 'a \<Rightarrow> 'a Node \<Rightarrow> 'a Node result" where
  "Insert domain x root = (case ValidAndSplitDomain domain of
     None \<Rightarrow> Inl ''invalid domain''
   | Some parts \<Rightarrow>
       (if hd parts = ''+''
        then Inr (insert_parts ([] # tl parts) x (insert_parts (tl parts) x root))
        else Inr (insert_parts parts x root)))"

fun search :: "'a Node \<Rightarrow> string list \<Rightarrow> 'a Node option" where
  "search n [] = Some n"
| "search n (p # ps) =
     (let r1 = (case getChild n p of Some c \<Rightarrow> search c ps | None \<Rightarrow> None) in
      if \<not> isEmpty r1 then r1
      else let r2 = (case getChild n ''*'' of Some c \<Rightarrow> search c ps | None \<Rightarrow> None) in
        if \<not> isEmpty r2 then r2
        else getChild n [])"

definition Search :: "'a Node \<Rightarrow> string \<Rightarrow> 'a Node option" where
  "Search root domain = (case ValidAndSplitDomain domain of
     None \<Rightarrow> None
   | Some parts \<Rightarrow>
       (if hd parts = [] then None
        else let n = search root (rev parts) in if isEmpty n then None else n))"

definition trie_IsEmpty :: "'a Node option \<Rightarrow> bool" where
  "trie_IsEmpty root = (case root of None \<Rightarrow> True | Some n \<Rightarrow> length (getChildren n) = 0)"

text \<open>
  The traversal calls a function that keeps a state and answers whether to go on.
\<close>

type_synonym ('s, 'a) visitor = "'s \<Rightarrow> string \<Rightarrow> 'a \<Rightarrow> bool \<times> 's"

definition joinDomain :: "string list \<Rightarrow> string" where
  "joinDomain items = Join items ''.''"

definition visit_node :: "('s, 'a) visitor \<Rightarrow> string list \<Rightarrow> 'a Node \<Rightarrow> 's \<Rightarrow> bool \<times> 's" where
  "visit_node fn items n s = (case nodeData n of
     None \<Rightarrow> (True, s)
   | Some x \<Rightarrow>
       (let domain = joinDomain items;
            domain = (if domain \<noteq> [] \<and> hd domain = CHR ''.'' then ''+'' @ domain else domain)
        in fn s domain x))"

section \<open>The abstract trie\<close>

fun lookup :: "'a Node \<Rightarrow> string list \<Rightarrow> 'a option" where
  "lookup n [] = nodeData n"
| "lookup n (p # ps) = (case getChild n p of None \<Rightarrow> None | Some c \<Rightarrow> lookup c ps)"

fun wf_node :: "'a Node \<Rightarrow> bool" where
  "wf_node (Node m cn cs d) =
     ((m \<noteq> None \<longrightarrow> cn = None) \<and> pred_option wf_node cn
      \<and> pred_option (\<lambda>kvs. distinct (map fst kvs) \<and> list_all (pred_prod (\<lambda>_. True) wf_node) kvs) m)"

lemma map_of_put [simp]: "map_of (map_put k v m) = (map_of m)(k \<mapsto> v)"
  by (induction m) (auto simp: fun_upd_twist)

lemma set_fst_map_put: "fst ` set (map_put k v m) = insert k (fst ` set m)"
  by (induction k v m rule: map_put.induct) (simp_all add: insert_commute)

lemma distinct_map_put: "distinct (map fst m) \<Longrightarrow> distinct (map fst (map_put k v m))"
  by (induction m) (auto simp: set_fst_map_put)

lemma list_all_map_put: "list_all P m \<Longrightarrow> P (k, v) \<Longrightarrow> list_all P (map_put k v m)"
  by (induction m) auto

lemma getChild_addChild:
  "wf_node n \<Longrightarrow> getChild n s = None \<Longrightarrow> getChild (addChild n s c) t = (if t = s then Some c else getChild n t)"
  by (cases "(n, s, c)" rule: addChild.cases) (auto simp: getChild_def split: if_splits)

lemma getChild_replaceChild:
  "wf_node n \<Longrightarrow> getChild n s = Some c \<Longrightarrow>
     getChild (replaceChild n s c') t = (if t = s then Some c' else getChild n t)"
  by (cases "(n, s, c')" rule: replaceChild.cases)
     (auto simp: getChild_def split: if_splits option.splits)

lemma getChild_getOrNewChild:
  "wf_node n \<Longrightarrow> getChild (getOrNewChild n s f) t =
     (if t = s then Some (f (case getChild n s of Some c \<Rightarrow> c | None \<Rightarrow> newNode)) else getChild n t)"
  by (auto simp: getOrNewChild_def getChild_addChild getChild_replaceChild split: option.split)

lemma nodeData_getOrNewChild [simp]: "nodeData (getOrNewChild n s f) = nodeData n"
proof (cases n)
  case (Node m cn cs d)
  then show ?thesis
    by (cases m; cases cn) (auto simp: getOrNewChild_def split: option.split)
qed

lemma wf_newNode [simp]: "wf_node newNode"
  by (simp add: newNode_def)

lemma wf_getChild: "wf_node n \<Longrightarrow> getChild n s = Some c \<Longrightarrow> wf_node c"
  by (cases n) (auto simp: getChild_def list_all_iff pred_prod_beta split: option.splits if_splits
      dest!: map_of_SomeD)

lemma wf_getOrNewChild:
  assumes "wf_node n" "\<And>c. wf_node c \<Longrightarrow> wf_node (f c)"
  shows "wf_node (getOrNewChild n s f)"
proof -
  obtain m cn cs d where n: "n = Node m cn cs d" by (cases n)
  have "wf_node (f c)" if "getChild n s = Some c" for c
    using that wf_getChild [OF assms(1)] assms(2) by blast
  then show ?thesis
    using assms(1) assms(2) [OF wf_newNode] unfolding n
    by (cases m; cases cn) (auto simp: getOrNewChild_def distinct_map_put list_all_map_put
        split: option.split)
qed

lemma lookup_newNode [simp]: "lookup newNode ps = None"
  by (cases ps) (simp_all add: newNode_def getChild_def)

lemma getChild_setData [simp]: "getChild (setData x n) s = getChild n s"
  by (simp add: getChild_def setData_def split: option.split)

lemma nodeData_setData [simp]: "nodeData (setData x n) = Some x"
  by (simp add: setData_def)

lemma wf_insert_path: "wf_node n \<Longrightarrow> wf_node (insert_path ps x n)"
proof (induction ps arbitrary: n)
  case Nil
  then show ?case by (cases n) (simp add: setData_def)
next
  case (Cons p ps)
  then show ?case by (simp add: wf_getOrNewChild)
qed

lemma lookup_insert_path:
  "wf_node n \<Longrightarrow> lookup (insert_path ps x n) qs = (if qs = ps then Some x else lookup n qs)"
proof (induction ps arbitrary: n qs)
  case Nil
  then show ?case
    by (cases qs) simp_all
next
  case (Cons p ps)
  show ?case
  proof (cases qs)
    case Nil
    then show ?thesis by simp
  next
    case (Cons q qs')
    then show ?thesis
      using Cons.prems Cons.IH [OF wf_getChild [OF Cons.prems, of p]] Cons.IH [OF wf_newNode]
      by (auto simp: getChild_getOrNewChild split: option.split)
  qed
qed

lemma size_getChildren: "size_list (\<lambda>kc. size (snd kc)) (getChildren n) < size n"
proof -
  have le: "size_list (\<lambda>kc. size (snd kc)) m \<le> size_list (size_prod (\<lambda>x. 0) size) m"
    for m :: "(string \<times> 'a Node) list"
    by (rule size_list_pointwise) (simp add: size_prod_simp)
  show ?thesis
    using le [of "the (childMap n)"] by (cases n) (auto simp: getChildren_def le_imp_less_Suc trans_le_add1 split: option.split)
qed

fun visit_size where
  "visit_size (Inl (_, _, n, _)) = 2 * size (n :: 'a Node)"
| "visit_size (Inr (_, _, kids, _)) = Suc (2 * size_list (\<lambda>kc. size (snd kc)) (kids :: (string \<times> 'a Node) list))"

function (sequential) recursion_node :: "('s, 'a) visitor \<Rightarrow> string list \<Rightarrow> 'a Node \<Rightarrow> 's \<Rightarrow> bool \<times> 's"
  and recursion_kids :: "('s, 'a) visitor \<Rightarrow> string list \<Rightarrow> (string \<times> 'a Node) list \<Rightarrow> 's \<Rightarrow> bool \<times> 's"
where
  "recursion_node fn items n s = recursion_kids fn items (getChildren n) s"
| "recursion_kids fn items [] s = (True, s)"
| "recursion_kids fn items ((key, c) # rest) s =
     (let newItems = key # items; v = visit_node fn newItems c s in
      if \<not> fst v then (False, snd v)
      else let r = recursion_node fn newItems c (snd v) in
        if \<not> fst r then (False, snd r)
        else recursion_kids fn items rest (snd r))"
  by pat_completeness auto

termination recursion_node
proof (relation "measure visit_size", goal_cases)
  case (2 fn items n s)
  then show ?case using size_getChildren [of n] by simp
qed simp_all

text \<open>The loop over the children of the root; the answer of \<open>recursion\<close> is not looked at.\<close>

fun Foreach_loop :: "('s, 'a) visitor \<Rightarrow> (string \<times> 'a Node) list \<Rightarrow> 's \<Rightarrow> 's" where
  "Foreach_loop fn [] s = s"
| "Foreach_loop fn ((key, c) # rest) s =
     (let s1 = snd (recursion_node fn [key] c s) in
      case nodeData c of
        None \<Rightarrow> Foreach_loop fn rest s1
      | Some x \<Rightarrow>
          (let v = fn s1 (joinDomain [key]) x in
           if \<not> fst v then snd v else Foreach_loop fn rest (snd v)))"

definition Foreach :: "('s, 'a) visitor \<Rightarrow> 'a Node \<Rightarrow> 's \<Rightarrow> 's" where
  "Foreach fn root s = Foreach_loop fn (getChildren root) s"

section \<open>What a search finds\<close>

text \<open>The stored paths that a name may match, in the order of precedence.\<close>

fun candidates :: "string list \<Rightarrow> string list list" where
  "candidates [] = [[]]"
| "candidates (p # ps) =
     map ((#) p) (candidates ps) @ map ((#) ''*'') (candidates ps) @ [[[]]]"

fun first_some :: "('b \<Rightarrow> 'c option) \<Rightarrow> 'b list \<Rightarrow> 'c option" where
  "first_some f [] = None"
| "first_some f (x # xs) = (case f x of Some y \<Rightarrow> Some y | None \<Rightarrow> first_some f xs)"

lemma first_some_append:
  "first_some f (xs @ ys) = (case first_some f xs of Some y \<Rightarrow> Some y | None \<Rightarrow> first_some f ys)"
  by (induction xs) (auto split: option.split)

lemma first_some_map: "first_some f (map g xs) = first_some (\<lambda>x. f (g x)) xs"
  by (induction xs) (auto split: option.split)

lemma first_some_None [simp]: "first_some (\<lambda>x. None) xs = None"
  by (induction xs) auto

lemma first_some_eq_None: "first_some f xs = None \<longleftrightarrow> (\<forall>x\<in>set xs. f x = None)"
  by (induction xs) (auto split: option.split)

lemma first_some_cong [fundef_cong]:
  "xs = ys \<Longrightarrow> (\<And>x. x \<in> set ys \<Longrightarrow> f x = g x) \<Longrightarrow> first_some f xs = first_some g ys"
  by (induction xs arbitrary: ys) (auto split: option.split)

definition node_value :: "'a Node option \<Rightarrow> 'a option" where
  "node_value n = (case n of None \<Rightarrow> None | Some m \<Rightarrow> nodeData m)"

lemma isEmpty_value: "isEmpty n \<longleftrightarrow> node_value n = None"
  by (cases n) (simp_all add: isEmpty_def node_value_def)

lemma search_value: "node_value (search n ps) = first_some (lookup n) (candidates ps)"
proof (induction ps arbitrary: n)
  case Nil
  then show ?case by (simp add: node_value_def split: option.split)
next
  case (Cons p ps)
  have "node_value (case getChild n q of None \<Rightarrow> None | Some c \<Rightarrow> search c ps)
      = first_some (\<lambda>x. lookup n (q # x)) (candidates ps)" for q
    using Cons.IH by (cases "getChild n q") (simp_all add: node_value_def)
  moreover have "node_value (getChild n []) = lookup n [[]]"
    by (simp add: node_value_def split: option.split)
  ultimately show ?case
    by (auto simp: Let_def first_some_append first_some_map isEmpty_value split: option.split)
qed

text \<open>When a stored path covers a name: label by label, from the right.\<close>

fun path_covers :: "string list \<Rightarrow> string list \<Rightarrow> bool" where
  "path_covers [] [] = True"
| "path_covers (q # qs) (p # ps) =
     ((q = p \<or> q = ''*'') \<and> path_covers qs ps \<or> q = [] \<and> qs = [])"
| "path_covers _ _ = False"

lemma candidates_iff: "qs \<in> set (candidates ps) \<longleftrightarrow> path_covers qs ps"
  by (induction qs ps rule: path_covers.induct) auto

lemma search_finds:
  "node_value (search n ps) \<noteq> None \<longleftrightarrow> (\<exists>qs. path_covers qs ps \<and> lookup n qs \<noteq> None)"
  by (auto simp: search_value first_some_eq_None candidates_iff)

section \<open>Optimisation\<close>

lemma map_of_map_prod: "map_of (map (map_prod id f) m) s = map_option f (map_of m s)"
  by (induction m) auto

lemma getChild_optimize:
  assumes "wf_node n"
  shows "getChild (optimize n) s = map_option optimize (getChild n s)"
proof -
  obtain m cn cs d where n: "n = Node m cn cs d" by (cases n)
  show ?thesis
  proof (cases m)
    case None
    then show ?thesis by (auto simp: n getChild_def split: option.split)
  next
    case (Some kvs)
    then have "cn = None" using assms by (simp add: n)
    consider "kvs = []" | k c where "kvs = [(k, c)]" | x y zs where "kvs = x # y # zs"
      by (metis list.exhaust prod.exhaust)
    then show ?thesis
      by cases (auto simp: n Some \<open>cn = None\<close> getChild_def map_of_map_prod split: prod.split)
  qed
qed

lemma nodeData_optimize [simp]: "nodeData (optimize n) = nodeData n"
  by (cases n) (auto simp: Let_def split: option.split list.split prod.split)

lemma lookup_optimize: "wf_node n \<Longrightarrow> lookup (optimize n) ps = lookup n ps"
  by (induction n ps rule: lookup.induct)
     (auto simp: getChild_optimize wf_getChild split: option.split)

lemma search_optimize:
  "wf_node n \<Longrightarrow> node_value (search (optimize n) ps) = node_value (search n ps)"
  unfolding search_value by (intro first_some_cong refl lookup_optimize)

section \<open>Properties of the trie\<close>

text \<open>The paths a pattern stores, and when a pattern covers a name.\<close>

definition pattern_paths :: "string \<Rightarrow> string list list" where
  "pattern_paths domain = (case ValidAndSplitDomain domain of
     None \<Rightarrow> []
   | Some parts \<Rightarrow> if hd parts = ''+'' then [rev (tl parts), rev ([] # tl parts)] else [rev parts])"

definition pattern_covers :: "string \<Rightarrow> string \<Rightarrow> bool" where
  "pattern_covers domain name = (case ValidAndSplitDomain name of
     None \<Rightarrow> False
   | Some parts \<Rightarrow> hd parts \<noteq> [] \<and> list_ex (\<lambda>qs. path_covers qs (rev parts)) (pattern_paths domain))"

fun insert_all :: "(string \<times> 'a) list \<Rightarrow> 'a Node \<Rightarrow> 'a Node" where
  "insert_all [] t = t"
| "insert_all ((d, x) # xs) t = (case Insert d x t of Inl _ \<Rightarrow> insert_all xs t | Inr t' \<Rightarrow> insert_all xs t')"

lemma Insert_wf: "wf_node t \<Longrightarrow> Insert d x t = Inr t' \<Longrightarrow> wf_node t'"
  by (auto simp: Insert_def insert_parts_def wf_insert_path split: option.splits if_splits)

lemma Insert_lookup:
  assumes "wf_node t" "Insert d x t = Inr t'"
  shows "lookup t' qs = (if qs \<in> set (pattern_paths d) then Some x else lookup t qs)"
  using assms
  by (auto simp: Insert_def pattern_paths_def insert_parts_def lookup_insert_path wf_insert_path
      split: option.splits if_splits)

lemma Insert_invalid: "Insert d x t = Inl e \<Longrightarrow> pattern_paths d = []"
  by (auto simp: Insert_def pattern_paths_def split: option.splits if_splits)

lemma insert_all_wf: "wf_node t \<Longrightarrow> wf_node (insert_all xs t)"
  by (induction xs t rule: insert_all.induct) (auto split: sum.split dest: Insert_wf)

lemma insert_all_lookup:
  "wf_node t \<Longrightarrow> lookup (insert_all xs t) qs \<noteq> None \<longleftrightarrow>
     (\<exists>(d, x)\<in>set xs. qs \<in> set (pattern_paths d)) \<or> lookup t qs \<noteq> None"
proof (induction xs t rule: insert_all.induct)
  case (2 d x xs t)
  show ?case
  proof (cases "Insert d x t")
    case (Inl e)
    then show ?thesis using 2 Insert_invalid [OF Inl] by simp
  next
    case (Inr t')
    then show ?thesis
      using 2 Insert_wf [OF "2.prems" Inr] Insert_lookup [OF "2.prems" Inr, of qs] by auto
  qed
qed simp

lemma Search_value:
  "node_value (Search t name) = (case ValidAndSplitDomain name of
     None \<Rightarrow> None
   | Some parts \<Rightarrow> if hd parts = [] then None else node_value (search t (rev parts)))"
  by (auto simp: Search_def Let_def isEmpty_value node_value_def split: option.split)

lemma Search_eq_value: "Search t name = None \<longleftrightarrow> node_value (Search t name) = None"
  by (auto simp: Search_def Let_def isEmpty_value node_value_def split: option.split)

lemma Search_covered:
  assumes "\<And>qs. lookup t qs \<noteq> None \<longleftrightarrow> (\<exists>(d, x)\<in>set xs. qs \<in> set (pattern_paths d))"
  shows "Search t name \<noteq> None \<longleftrightarrow> (\<exists>(d, x)\<in>set xs. pattern_covers d name)"
proof (cases "ValidAndSplitDomain name")
  case None
  then show ?thesis by (simp add: Search_def pattern_covers_def)
next
  case (Some parts)
  have "node_value (search t (rev parts)) \<noteq> None \<longleftrightarrow>
      (\<exists>qs. path_covers qs (rev parts) \<and> (\<exists>(d, x)\<in>set xs. qs \<in> set (pattern_paths d)))"
    unfolding search_finds assms ..
  then show ?thesis
    by (auto simp: Search_eq_value Search_value Some pattern_covers_def list_ex_iff)
qed

text \<open>C19: after any sequence of insertions into an empty trie, a search finds a node exactly when
  one of the inserted patterns covers the name (exactly, with * for one label, with a leading dot
  for one or more labels, with +. for none or more), and this is the same after the trie was
  optimised.\<close>

theorem Search_insert_all:
  "(Search (insert_all xs newNode) name \<noteq> None \<longleftrightarrow> (\<exists>p\<in>set xs. pattern_covers (fst p) name))
   \<and> (Search (optimize (insert_all xs newNode)) name \<noteq> None \<longleftrightarrow>
        (\<exists>p\<in>set xs. pattern_covers (fst p) name))"
proof -
  have "lookup (insert_all xs newNode) qs \<noteq> None \<longleftrightarrow> (\<exists>(d, x)\<in>set xs. qs \<in> set (pattern_paths d))" for qs
    using insert_all_lookup [of newNode xs qs] by simp
  then show ?thesis
    using Search_covered [of "insert_all xs newNode" xs name]
      Search_covered [of "optimize (insert_all xs newNode)" xs name]
    by (simp add: lookup_optimize insert_all_wf case_prod_beta)
qed

lemma candidates_hd: "\<exists>rest. candidates ps = ps # rest"
  by (induction ps) auto

text \<open>the most specific pattern wins: after a name was inserted, whatever was inserted
  before, searching that very name returns the value just inserted, wildcards
  notwithstanding.\<close>

theorem Search_exact:
  assumes "wf_node t" "Insert d x t = Inr t'"
    and "ValidAndSplitDomain d = Some parts" "hd parts \<noteq> ''+''" "hd parts \<noteq> []"
  shows "\<exists>n. Search t' d = Some n \<and> nodeData n = Some x"
proof -
  have "lookup t' (rev parts) = Some x"
    using assms by (simp add: Insert_lookup pattern_paths_def)
  then have "node_value (search t' (rev parts)) = Some x"
    using candidates_hd [of "rev parts"] by (auto simp: search_value)
  then show ?thesis
    using assms(3,5) by (auto simp: Search_def Let_def isEmpty_value node_value_def split: option.splits)
qed

theorem Search_exact_witness:
  "\<exists>n. Search (insert_all [(''+.b.com'', 1), (''*.b.com'', 2), (''a.b.com'', 3 :: int)] newNode) ''a.b.com'' = Some n
     \<and> nodeData n = Some 3"
proof -
  have i: "Insert ''a.b.com'' 3 (insert_all [(''+.b.com'', 1), (''*.b.com'', 2 :: int)] newNode)
      = Inr (insert_all [(''+.b.com'', 1), (''*.b.com'', 2), (''a.b.com'', 3)] newNode)"
    by code_simp
  have v: "ValidAndSplitDomain ''a.b.com'' = Some [''a'', ''b'', ''com'']"
    by code_simp
  show ?thesis
    by (rule Search_exact [OF insert_all_wf [OF wf_newNode] i v]) simp_all
qed

text \<open>a traversal that is told to stop goes on: when the visitor answers false below one
  child of the root, the next child is still visited.\<close>

theorem Foreach_ignores_stop:
  "Foreach (\<lambda>s d x. (False, d # s)) (insert_all [(''a.com'', 1), (''b.net'', 2 :: int)] newNode) []
     = [''b.net'', ''a.com'']"
  by code_simp

end
