(* ===== verification/Hosts.thy ===== *)
theory Hosts
  imports DomainTrie Netip
begin

text \<open>
  The static hosts table (src/component/resolver/host.go) and its construction from the
  configuration (\<open>parseHosts\<close> of src/config/config.go). The table is a domain trie of values that
  are addresses or another name. Following names can go on forever, so the loops are partial
  functions and \<open>None\<close> means that the call does not return. The system's hosts file, the
  interfaces' addresses and the random choice are arguments.
\<close>

section \<open>Values\<close>

record HostValue =
  IsDomain :: bool
  IPs :: "Addr list"
  hv_Domain :: string

definition NewHostValueByIPs :: "Addr list \<Rightarrow> HostValue result" where
  "NewHostValueByIPs ips =
     (if length ips = 0 then Inl ''ip list is empty''
      else Inr \<lparr>IsDomain = False, IPs = ips, hv_Domain = []\<rparr>)"

definition NewHostValueByDomain :: "string \<Rightarrow> HostValue result" where
  "NewHostValueByDomain domain0 =
     (let domain = Trim domain0 ''.''; item = Split domain (CHR ''.'') in
      if length item < 2 then Inl ''invalid domain''
      else Inr \<lparr>IsDomain = True, IPs = [], hv_Domain = domain\<rparr>)"

fun parse_ips :: "string list \<Rightarrow> Addr list option" where
  "parse_ips [] = Some []"
| "parse_ips (str # rest) = (case ParseAddr str of
     None \<Rightarrow> None
   | Some ip \<Rightarrow> (case parse_ips rest of None \<Rightarrow> None | Some ips \<Rightarrow> Some (Unmap ip # ips)))"

definition NewHostValue :: "string list \<Rightarrow> HostValue result" where
  "NewHostValue value = (case value of
     [] \<Rightarrow> Inl ''value is empty''
   | [host] \<Rightarrow> (case ParseAddr host of
        Some ip \<Rightarrow> NewHostValueByIPs [Unmap ip]
      | None \<Rightarrow> NewHostValueByDomain host)
   | _ \<Rightarrow> (case parse_ips value of
        None \<Rightarrow> Inl ''unable to parse IP''
      | Some ips \<Rightarrow> NewHostValueByIPs ips))"

text \<open>The index \<open>i\<close> is the random choice; out of range is a panic, written \<open>None\<close>.\<close>

definition RandIP :: "nat \<Rightarrow> HostValue \<Rightarrow> Addr result option" where
  "RandIP i hv =
     (if IsDomain hv then Some (Inl ''value type is error'')
      else if i < length (IPs hv) then Some (Inr (IPs hv ! i)) else None)"

section \<open>Search\<close>

definition value_of :: "HostValue Node option \<Rightarrow> HostValue option" where
  "value_of n = (case n of None \<Rightarrow> None | Some m \<Rightarrow> nodeData m)"

partial_function (option) searchLoop ::
  "HostValue Node \<Rightarrow> bool \<Rightarrow> HostValue \<Rightarrow> (HostValue \<times> bool) option" where
  "searchLoop t isDomain hostValue =
     (if isDomain \<and> IsDomain hostValue then Some (hostValue, True)
      else case value_of (Search t (hv_Domain hostValue)) of
        Some hv \<Rightarrow> searchLoop t isDomain hv
      | None \<Rightarrow> Some (hostValue, isDomain = IsDomain hostValue))"

definition hostsSearch :: "(string \<Rightarrow> string list) option \<Rightarrow> HostValue Node \<Rightarrow> string \<Rightarrow> bool
    \<Rightarrow> (HostValue option \<times> bool) option" where
  "hostsSearch systemHosts t domain isDomain =
     (case value_of (Search t domain) of
        Some hostValue \<Rightarrow>
          (case searchLoop t isDomain hostValue of
             None \<Rightarrow> None | Some (hv, ok) \<Rightarrow> Some (Some hv, ok))
      | None \<Rightarrow>
          (case systemHosts of
             Some lookupStatic \<Rightarrow>
               (if \<not> isDomain then
                  (case NewHostValue (lookupStatic domain) of
                     Inr hv \<Rightarrow> Some (Some hv, True) | Inl _ \<Rightarrow> Some (None, False))
                else Some (None, False))
           | None \<Rightarrow> Some (None, False)))"

section \<open>Construction\<close>

text \<open>The search for a cycle through \<open>domain\<close>: \<open>Some True\<close> when one is found.\<close>

partial_function (option) cycleLoop :: "HostValue Node \<Rightarrow> string \<Rightarrow> string \<Rightarrow> bool option" where
  "cycleLoop t domain name =
     (case value_of (Search t name) of
        None \<Rightarrow> Some False
      | Some hv \<Rightarrow>
          (if \<not> IsDomain hv then Some False
           else if hv_Domain hv = domain then Some True
           else cycleLoop t domain (hv_Domain hv)))"

definition insert_ignoring :: "string \<Rightarrow> HostValue \<Rightarrow> HostValue Node \<Rightarrow> HostValue Node" where
  "insert_ignoring d v t = (case Insert d v t of Inl _ \<Rightarrow> t | Inr t' \<Rightarrow> t')"

fun parseHosts_loop :: "string list option \<Rightarrow> (string \<times> string list) list \<Rightarrow> HostValue Node
    \<Rightarrow> HostValue Node result option" where
  "parseHosts_loop lan [] t = Some (Inr t)"
| "parseHosts_loop lan ((domain, hosts0) # rest) t =
     (let hosts = (if hosts0 = [''lan''] then (case lan of None \<Rightarrow> hosts0 | Some addrs \<Rightarrow> addrs)
                   else hosts0)
      in case NewHostValue hosts of
           Inl _ \<Rightarrow> Some (Inl ''is not a valid value'')
         | Inr hv \<Rightarrow>
             (if IsDomain hv then
                (case cycleLoop t domain (hv_Domain hv) of
                   None \<Rightarrow> None
                 | Some True \<Rightarrow> Some (Inl (domain @ '', there is a cycle in domain name mapping''))
                 | Some False \<Rightarrow> parseHosts_loop lan rest (insert_ignoring domain hv t))
              else parseHosts_loop lan rest (insert_ignoring domain hv t)))"

definition localhost_value :: HostValue where
  "localhost_value = \<lparr>IsDomain = False, IPs = [Addr4 0x7F000001], hv_Domain = []\<rparr>"

definition parseHosts :: "string list option \<Rightarrow> (string \<times> string list) list
    \<Rightarrow> HostValue Node result option" where
  "parseHosts lan cfg =
     (case parseHosts_loop lan cfg (insert_ignoring ''localhost'' localhost_value newNode) of
        None \<Rightarrow> None
      | Some (Inl e) \<Rightarrow> Some (Inl e)
      | Some (Inr t) \<Rightarrow> Some (Inr (optimize t)))"

section \<open>Properties of the hosts table\<close>

text \<open>A value as the constructors build it.\<close>

definition hv_ok :: "HostValue \<Rightarrow> bool" where
  "hv_ok hv = (if IsDomain hv then hv_Domain hv \<noteq> [] else IPs hv \<noteq> [] \<and> hv_Domain hv = [])"

lemma NewHostValue_ok: "NewHostValue v = Inr hv \<Longrightarrow> hv_ok hv"
  by (auto simp: NewHostValue_def NewHostValueByIPs_def NewHostValueByDomain_def hv_ok_def Let_def
      split: list.splits option.splits if_splits)

definition table_ok :: "HostValue Node \<Rightarrow> bool" where
  "table_ok t = (\<forall>qs hv. lookup t qs = Some hv \<longrightarrow> hv_ok hv)"

lemma first_some_in: "first_some f xs = Some y \<Longrightarrow> \<exists>x\<in>set xs. f x = Some y"
  by (induction xs) (auto split: option.splits)

lemma table_ok_value: "table_ok t \<Longrightarrow> value_of (Search t d) = Some hv \<Longrightarrow> hv_ok hv"
proof -
  assume t: "table_ok t" and v: "value_of (Search t d) = Some hv"
  have "node_value (Search t d) = Some hv"
    using v by (simp add: value_of_def node_value_def)
  then obtain qs where "lookup t qs = Some hv"
    by (auto simp: Search_value search_value dest!: first_some_in split: option.splits if_splits)
  then show "hv_ok hv" using t by (simp add: table_ok_def)
qed

lemma Search_empty_name [simp]: "Search t [] = None"
  by (simp add: Search_def ValidAndSplitDomain_def Let_def ToLower_def)

text \<open>
  The aliases of a table are acyclic when a measure decreases along them; then following them
  ends.
\<close>

definition aliases_end :: "HostValue Node \<Rightarrow> (string \<Rightarrow> nat) \<Rightarrow> bool" where
  "aliases_end t rank = (\<forall>d hv. value_of (Search t d) = Some hv \<longrightarrow> IsDomain hv \<longrightarrow>
     rank (hv_Domain hv) < rank d)"

lemma searchLoop_ends:
  assumes "table_ok t" "aliases_end t rank"
  shows "hv_ok hv \<Longrightarrow> \<exists>res ok. searchLoop t isDomain hv = Some (res, ok) \<and> hv_ok res
    \<and> (ok \<longrightarrow> IsDomain res = isDomain)"
proof (induction "rank (hv_Domain hv)" arbitrary: hv rule: less_induct)
  case less
  show ?case
  proof (cases "isDomain \<and> IsDomain hv")
    case True
    then show ?thesis using less.prems by (subst searchLoop.simps) auto
  next
    case False
    show ?thesis
    proof (cases "value_of (Search t (hv_Domain hv))")
      case None
      then show ?thesis using less.prems False by (subst searchLoop.simps) auto
    next
      case (Some hv')
      have ok: "hv_ok hv'" by (rule table_ok_value [OF assms(1) Some])
      show ?thesis
      proof (cases "IsDomain hv'")
        case True
        then have "rank (hv_Domain hv') < rank (hv_Domain hv)"
          using assms(2) Some by (auto simp: aliases_end_def)
        from less.hyps [OF this ok] show ?thesis
          using False Some by (subst searchLoop.simps) auto
      next
        case ip: False
        then have "hv_Domain hv' = []" using ok by (simp add: hv_ok_def)
        then have "searchLoop t isDomain hv' = Some (hv', isDomain = IsDomain hv')"
          using ip by (subst searchLoop.simps) (simp add: value_of_def)
        then show ?thesis
          using False Some ok by (subst searchLoop.simps) auto
      qed
    qed
  qed
qed

lemma insert_ignoring_ok:
  "wf_node t \<Longrightarrow> table_ok t \<Longrightarrow> hv_ok hv \<Longrightarrow>
     wf_node (insert_ignoring d hv t) \<and> table_ok (insert_ignoring d hv t)"
  by (auto simp: table_ok_def insert_ignoring_def Insert_wf Insert_lookup split: sum.split if_splits)

lemma parseHosts_loop_ok:
  "wf_node t \<Longrightarrow> table_ok t \<Longrightarrow> parseHosts_loop lan cfg t = Some (Inr t') \<Longrightarrow> wf_node t' \<and> table_ok t'"
  by (induction lan cfg t rule: parseHosts_loop.induct)
     (auto simp: Let_def insert_ignoring_ok NewHostValue_ok
       split: if_splits sum.splits option.splits bool.splits)

lemma parseHosts_ok: "parseHosts lan cfg = Some (Inr t) \<Longrightarrow> table_ok t"
proof -
  assume "parseHosts lan cfg = Some (Inr t)"
  then obtain t' where l: "parseHosts_loop lan cfg (insert_ignoring ''localhost'' localhost_value newNode)
      = Some (Inr t')" and t: "t = optimize t'"
    by (auto simp: parseHosts_def split: option.splits sum.splits)
  have "hv_ok localhost_value" by (simp add: hv_ok_def localhost_value_def)
  then have "wf_node (insert_ignoring ''localhost'' localhost_value newNode)
      \<and> table_ok (insert_ignoring ''localhost'' localhost_value newNode)"
    by (intro insert_ignoring_ok) (simp_all add: table_ok_def)
  then have "wf_node t' \<and> table_ok t'"
    using parseHosts_loop_ok [OF _ _ l] by blast
  then show "table_ok t" by (simp add: t table_ok_def lookup_optimize)
qed

text \<open>in a table loaded from the configuration whose aliases end, every search returns, and
  an answer to the question for addresses always carries one: the random choice cannot run out
  of range.\<close>

theorem hostsSearch_returns:
  assumes "parseHosts lan cfg = Some (Inr t)" "aliases_end t rank"
  shows "\<exists>hv ok. hostsSearch None t domain isDomain = Some (hv, ok)
    \<and> (ok \<and> \<not> isDomain \<longrightarrow> (\<exists>v. hv = Some v \<and> IPs v \<noteq> [] \<and> (\<forall>i < length (IPs v). RandIP i v = Some (Inr (IPs v ! i)))))"
proof (cases "value_of (Search t domain)")
  case None
  then show ?thesis by (auto simp: hostsSearch_def)
next
  case (Some hv)
  note ok = parseHosts_ok [OF assms(1)]
  obtain res b where "searchLoop t isDomain hv = Some (res, b)" "hv_ok res" "b \<longrightarrow> IsDomain res = isDomain"
    using searchLoop_ends [OF ok assms(2) table_ok_value [OF ok Some], of isDomain] by blast
  then show ?thesis
    using Some by (auto simp: hostsSearch_def RandIP_def hv_ok_def)
qed

definition example_hosts :: "HostValue Node" where
  "example_hosts =
     insert_ignoring ''b.com'' \<lparr>IsDomain = True, IPs = [], hv_Domain = ''a.com''\<rparr>
       (insert_ignoring ''a.com'' \<lparr>IsDomain = False, IPs = [Addr4 0x01020304], hv_Domain = []\<rparr>
         (insert_ignoring ''localhost'' localhost_value newNode))"

lemma insert_ignoring_values:
  "lookup (insert_ignoring d v t) qs = Some hv \<Longrightarrow> wf_node t \<Longrightarrow> hv = v \<or> lookup t qs = Some hv"
  by (auto simp: insert_ignoring_def Insert_lookup split: sum.splits if_splits)

lemma insert_ignoring_wf [simp]: "wf_node t \<Longrightarrow> wf_node (insert_ignoring d v t)"
  by (auto simp: insert_ignoring_def Insert_wf split: sum.split)

lemma value_lookup: "value_of (Search t d) = Some hv \<Longrightarrow> \<exists>qs. lookup t qs = Some hv"
proof -
  assume "value_of (Search t d) = Some hv"
  then have "node_value (Search t d) = Some hv"
    by (simp add: value_of_def node_value_def)
  then show ?thesis
    by (auto simp: Search_value search_value dest!: first_some_in split: option.splits if_splits)
qed

definition example_hosts_cfg :: "(string \<times> string list) list" where
  "example_hosts_cfg = [(''a.com'', [''1.2.3.4'']), (''b.com'', [''a.com''])]"

definition example_hosts_rank :: "string \<Rightarrow> nat" where
  "example_hosts_rank d = (if d = ''a.com'' then 0 else 1)"

lemma example_hosts_parsed:
  "parseHosts None example_hosts_cfg = Some (Inr (optimize example_hosts))"
proof -
  let ?t0 = "insert_ignoring ''localhost'' localhost_value newNode"
  let ?v1 = "\<lparr>IsDomain = False, IPs = [Addr4 0x01020304], hv_Domain = []\<rparr>"
  let ?v2 = "\<lparr>IsDomain = True, IPs = [], hv_Domain = ''a.com''\<rparr>"
  have n: "NewHostValue [''1.2.3.4''] = Inr ?v1" "NewHostValue [''a.com''] = Inr ?v2"
    by code_simp+
  have "value_of (Search (insert_ignoring ''a.com'' ?v1 ?t0) ''a.com'') = Some ?v1"
    by code_simp
  then have "cycleLoop (insert_ignoring ''a.com'' ?v1 ?t0) ''b.com'' ''a.com'' = Some False"
    by (subst cycleLoop.simps) simp
  then show ?thesis
    by (simp add: parseHosts_def Let_def n example_hosts_def example_hosts_cfg_def)
qed

lemma example_hosts_end: "aliases_end (optimize example_hosts) example_hosts_rank"
proof -
  let ?v1 = "\<lparr>IsDomain = False, IPs = [Addr4 0x01020304], hv_Domain = []\<rparr>"
  let ?v2 = "\<lparr>IsDomain = True, IPs = [], hv_Domain = ''a.com''\<rparr>"
  have "value_of (Search (optimize example_hosts) ''a.com'') = Some ?v1"
    by code_simp
  moreover have "hv = ?v2"
    if found: "value_of (Search (optimize example_hosts) d) = Some hv" and name: "IsDomain hv" for d hv
  proof -
    obtain qs where "lookup example_hosts qs = Some hv"
      using value_lookup [OF found] by (auto simp: lookup_optimize example_hosts_def)
    then show ?thesis
      using name by (auto simp: example_hosts_def localhost_value_def dest!: insert_ignoring_values)
  qed
  ultimately show ?thesis
    by (force simp: aliases_end_def example_hosts_rank_def)
qed

theorem hostsSearch_returns_witness:
  "\<exists>hv ok. hostsSearch None (optimize example_hosts) ''b.com'' False = Some (hv, ok)
     \<and> (ok \<longrightarrow> (\<exists>v. hv = Some v \<and> IPs v \<noteq> []))"
  using hostsSearch_returns [OF example_hosts_parsed example_hosts_end, of "''b.com''" False] by auto

definition alias_self :: HostValue where
  "alias_self = \<lparr>IsDomain = True, IPs = [], hv_Domain = ''a.com''\<rparr>"

definition self_hosts :: "HostValue Node" where
  "self_hosts = optimize (insert_ignoring ''a.com'' alias_self
     (insert_ignoring ''localhost'' localhost_value newNode))"

lemma searchLoop_self: "searchLoop self_hosts False alias_self = None"
proof -
  have v: "value_of (Search self_hosts (hv_Domain alias_self)) = Some alias_self"
    by code_simp
  have "searchLoop t b hv = Some r \<Longrightarrow> \<not> (t = self_hosts \<and> \<not> b \<and> hv = alias_self)"
    for t b and hv :: HostValue and r
  proof (rule searchLoop.raw_induct [where P = "\<lambda>t b hv r. \<not> (t = self_hosts \<and> \<not> b \<and> hv = alias_self)"])
    fix loop t b and hv :: HostValue and r
    assume IH: "\<And>t b hv r. loop t b hv = Some r \<Longrightarrow> \<not> (t = self_hosts \<and> \<not> b \<and> hv = alias_self)"
      and step: "(if b \<and> IsDomain hv then Some (hv, True)
        else case value_of (Search t (hv_Domain hv)) of
          None \<Rightarrow> Some (hv, b = IsDomain hv) | Some hv \<Rightarrow> loop t b hv) = Some r"
    show "\<not> (t = self_hosts \<and> \<not> b \<and> hv = alias_self)"
    proof
      assume "t = self_hosts \<and> \<not> b \<and> hv = alias_self"
      with step have "loop self_hosts False alias_self = Some r" by (simp add: v)
      with IH show False by blast
    qed
  qed assumption
  then show ?thesis by (metis option.exhaust)
qed

text \<open>a name mapped to itself passes the check for cycles, and from then on a search for its
  addresses never returns.\<close>

theorem self_alias_diverges:
  "parseHosts None [(''a.com'', [''a.com''])] = Some (Inr self_hosts)
   \<and> hostsSearch None self_hosts ''a.com'' False = None"
proof
  let ?t0 = "insert_ignoring ''localhost'' localhost_value newNode"
  have n: "NewHostValue [''a.com''] = Inr alias_self"
    by code_simp
  have "value_of (Search ?t0 ''a.com'') = None"
    by code_simp
  then have "cycleLoop ?t0 ''a.com'' ''a.com'' = Some False"
    by (subst cycleLoop.simps) simp
  then show "parseHosts None [(''a.com'', [''a.com''])] = Some (Inr self_hosts)"
    by (simp add: parseHosts_def Let_def n self_hosts_def) (simp add: alias_self_def)
  have "value_of (Search self_hosts ''a.com'') = Some alias_self"
    by code_simp
  then show "hostsSearch None self_hosts ''a.com'' False = None"
    by (simp add: hostsSearch_def searchLoop_self)
qed

end
