(* ===== verification/Tunnel.thy ===== *)
theory Tunnel
  imports RuleParser Hosts
begin

text \<open>
  The tunnel (src/tunnel/tunnel.go) between accepting a connection and dialling: the clean-up of
  its metadata, the choice of an outbound by mode and rules with re-matching
  (src/adapter/outbound/rematch.go), and the retry loop. The services it calls are fields of
  \<open>TunnelEnv\<close>: the resolver, the process finder and the random choice among addresses. The
  tables it keeps are fields of \<open>TunnelState\<close>. Logging, the relay of bytes and the connections
  themselves are left out.
\<close>

section \<open>Outbounds\<close>

text \<open>
  An outbound as the tunnel sees it: its name, type and UDP support, what a rematch outbound
  writes, and the outbound it currently unwraps to, which depends on the connection only through
  the host and the two addresses (the fields \<open>getKey\<close> of the load balancer reads). These are fixed for
  the length of one call of \<open>match\<close>: that a group chooses another member, or a member changes its
  UDP support, while the rules are scanned is not modelled; the groups and their choices are those of
  the theory ProxyGroups.
\<close>

type_synonym unwrap_key = "string \<times> Addr \<times> Addr"

datatype proxy =
  Proxy (p_name: string) (p_type: AdapterType) (p_udp: bool)
    (targetRematchName: "string option") (targetSubRule: "string option")
    (p_unwrap: "unwrap_key \<Rightarrow> proxy option")

definition unwrap_key_of :: "Metadata \<Rightarrow> unwrap_key" where
  "unwrap_key_of m = (md_Host m, md_SrcIP m, md_DstIP m)"

text \<open>The outbounds that repeated unwrapping visits, the first one included.\<close>

primrec unwrap_chain :: "proxy \<Rightarrow> unwrap_key \<Rightarrow> proxy list" where
  "unwrap_chain (Proxy name tp udp rn sr un) =
     (\<lambda>key. Proxy name tp udp rn sr un #
        (case map_option unwrap_chain (un key) of None \<Rightarrow> [] | Some f \<Rightarrow> f key))"

definition applyMetadata :: "proxy \<Rightarrow> Metadata \<Rightarrow> Metadata" where
  "applyMetadata l m =
     (let m1 = (case targetRematchName l of None \<Rightarrow> m | Some n \<Rightarrow> m\<lparr>md_RematchName := n\<rparr>)
      in case targetSubRule l of None \<Rightarrow> m1 | Some n \<Rightarrow> m1\<lparr>md_SpecialRules := n\<rparr>)"

definition NewRematch :: "string \<Rightarrow> string option \<Rightarrow> string option \<Rightarrow> proxy result" where
  "NewRematch name rematchName subRule =
     (if rematchName = None \<and> subRule = None
      then Inl (''rematch '' @ name @ '' requires at least one of target-rematch-name or target-sub-rule'')
      else Inr (Proxy name AT_Rematch True rematchName subRule (\<lambda>_. None)))"

text \<open>\<open>DialContext\<close> of a rematch outbound: the metadata is updated and no error is returned.\<close>

definition rematchDial :: "proxy \<Rightarrow> Metadata \<Rightarrow> string option \<times> Metadata" where
  "rematchDial l m = (None, applyMetadata l m)"

section \<open>Environment and state\<close>

datatype FindProcessMode = FindProcessStrict | FindProcessAlways | FindProcessOff

record TunnelEnv =
  te_MappingEnabled :: bool
  te_FindHostByIP :: "Addr \<Rightarrow> string option"
  te_IsFakeIP :: "Addr \<Rightarrow> bool"
  te_hosts :: "HostValue Node"
  te_systemHosts :: "(string \<Rightarrow> string list) option"
  te_IntN :: "nat \<Rightarrow> nat"
  te_ResolveIP :: "string \<Rightarrow> Addr result"
  te_FindProcessName :: "string \<Rightarrow> Addr \<Rightarrow> u16 \<Rightarrow> (u32 \<times> string) result"
  te_FindPackageName :: "Metadata \<Rightarrow> string result"
  te_CMFA :: bool
  te_now :: "64 word"

record TunnelState =
  ts_status :: TunnelStatus
  ts_mode :: TunnelMode
  ts_findProcessMode :: FindProcessMode
  ts_rules :: "RuleWrapper list"
  ts_subRules :: SubRuleTable
  ts_proxies :: "string \<Rightarrow> proxy option"
  ts_ruleProviders :: "string \<Rightarrow> ruleStrategy option option"
  ts_sniffingEnable :: bool

definition UpdateRules :: "RuleWrapper list \<Rightarrow> SubRuleTable \<Rightarrow> (string \<Rightarrow> ruleStrategy option option)
    \<Rightarrow> TunnelState \<Rightarrow> TunnelState" where
  "UpdateRules newRules newSubRule rp ts =
     ts\<lparr>ts_rules := newRules, ts_ruleProviders := rp, ts_subRules := newSubRule\<rparr>"

definition UpdateProxies :: "(string \<Rightarrow> proxy option) \<Rightarrow> TunnelState \<Rightarrow> TunnelState" where
  "UpdateProxies newProxies ts = ts\<lparr>ts_proxies := newProxies\<rparr>"

definition SetMode :: "TunnelMode \<Rightarrow> TunnelState \<Rightarrow> TunnelState" where
  "SetMode m ts = ts\<lparr>ts_mode := m\<rparr>"

definition OnSuspend :: "TunnelState \<Rightarrow> TunnelState" where
  "OnSuspend ts = ts\<lparr>ts_status := Suspend\<rparr>"

definition OnInnerLoading :: "TunnelState \<Rightarrow> TunnelState" where
  "OnInnerLoading ts = ts\<lparr>ts_status := Inner\<rparr>"

definition OnRunning :: "TunnelState \<Rightarrow> TunnelState" where
  "OnRunning ts = ts\<lparr>ts_status := Running\<rparr>"

definition SetFindProcessMode :: "FindProcessMode \<Rightarrow> TunnelState \<Rightarrow> TunnelState" where
  "SetFindProcessMode m ts = ts\<lparr>ts_findProcessMode := m\<rparr>"

definition isHandle :: "TunnelState \<Rightarrow> InboundType \<Rightarrow> bool" where
  "isHandle ts t = (ts_status ts = Running \<or> (ts_status ts = Inner \<and> t = INNER))"

text \<open>The rules' environment: the tunnel's own tables for what rules reach by name.\<close>

definition rule_env :: "RuleEnv \<Rightarrow> TunnelState \<Rightarrow> RuleEnv" where
  "rule_env env ts = env\<lparr>RuleProviders := ts_ruleProviders ts, subRules := table_body (ts_subRules ts)\<rparr>"

section \<open>Preparing the metadata\<close>

definition fixMetadata :: "Metadata \<Rightarrow> Metadata" where
  "fixMetadata m =
     (let m1 = m\<lparr>md_DstIP := Unmap (md_DstIP m)\<rparr> in
      case ParseAddr (md_Host m1) of
        None \<Rightarrow> m1
      | Some ip \<Rightarrow> m1\<lparr>md_DstIP := Unmap ip, md_Host := []\<rparr>)"

definition needLookupIP :: "TunnelEnv \<Rightarrow> Metadata \<Rightarrow> bool" where
  "needLookupIP te m = (te_MappingEnabled te \<and> md_Host m = [] \<and> IsValid (md_DstIP m))"

definition DefaultHosts_Search :: "TunnelEnv \<Rightarrow> string \<Rightarrow> bool \<Rightarrow> (HostValue option \<times> bool) outcome" where
  "DefaultHosts_Search te domain isDomain =
     (case hostsSearch (te_systemHosts te) (te_hosts te) domain isDomain of
        None \<Rightarrow> Diverge | Some r \<Rightarrow> Ret r)"

text \<open>\<open>RandIP\<close> with its error dropped: the zero address for a name.\<close>

definition rand_ip :: "TunnelEnv \<Rightarrow> HostValue option \<Rightarrow> Addr outcome" where
  "rand_ip te hv = (case hv of
     None \<Rightarrow> Panic
   | Some v \<Rightarrow> (case RandIP (te_IntN te (length (IPs v))) v of
       None \<Rightarrow> Panic
     | Some (Inl _) \<Rightarrow> Ret AddrInvalid
     | Some (Inr ip) \<Rightarrow> Ret ip))"

definition preHandleMetadata :: "TunnelEnv \<Rightarrow> Metadata \<Rightarrow> (string option \<times> Metadata) outcome" where
  "preHandleMetadata te m =
     (if needLookupIP te m then
        (case te_FindHostByIP te (md_DstIP m) of
           Some host \<Rightarrow>
             (let m1 = m\<lparr>md_Host := host, md_DNSMode := DNSMapping\<rparr> in
              if te_IsFakeIP te (md_DstIP m1)
              then Ret (None, m1\<lparr>md_DstIP := AddrInvalid, md_DNSMode := DNSFakeIP\<rparr>)
              else obind (DefaultHosts_Search te host False) (\<lambda>(node, ok).
                if ok then obind (rand_ip te node) (\<lambda>ip. Ret (None, m1\<lparr>md_DstIP := ip\<rparr>))
                else (case node of
                    Some v \<Rightarrow> Ret (None, if IsDomain v then m1\<lparr>md_Host := hv_Domain v\<rparr> else m1)
                  | None \<Rightarrow> Ret (None, m1))))
         | None \<Rightarrow>
             (if te_IsFakeIP te (md_DstIP m)
              then Ret (Some (''fake DNS record '' @ AddrString (md_DstIP m) @ '' missing''), m)
              else Ret (None, m)))
      else obind (DefaultHosts_Search te (md_Host m) True) (\<lambda>(node, ok).
        (case (ok, node) of
           (True, Some v) \<Rightarrow> Ret (None, m\<lparr>md_Host := hv_Domain v\<rparr>)
         | (True, None) \<Rightarrow> Panic
         | (False, _) \<Rightarrow> Ret (None, m))))"

section \<open>The helpers of a match\<close>

text \<open>The closures share the variables \<open>resolved\<close> and \<open>attemptProcessLookup\<close>.\<close>

record lookups =
  lk_resolved :: bool
  lk_attemptProcessLookup :: bool

definition helper_ResolveIP :: "TunnelEnv \<Rightarrow> lookups mstate \<Rightarrow> lookups mstate" where
  "helper_ResolveIP te st =
     (let lk = fst st; m = snd st in
      if \<not> lk_resolved lk \<and> md_Host m \<noteq> [] \<and> \<not> Resolved m then
        (lk\<lparr>lk_resolved := True\<rparr>,
         case te_ResolveIP te (md_Host m) of Inl _ \<Rightarrow> m | Inr ip \<Rightarrow> m\<lparr>md_DstIP := ip\<rparr>)
      else st)"

text \<open>\<open>filepath.Base\<close> on a system with slashes.\<close>

definition filepath_Base :: "string \<Rightarrow> string" where
  "filepath_Base path =
     (if path = [] then ''.''
      else let p = rev (dropWhile (\<lambda>c. c = CHR ''/'') (rev path)) in
        if p = [] then ''/'' else rev (takeWhile (\<lambda>c. c \<noteq> CHR ''/'') (rev p)))"

definition helper_FindProcess :: "TunnelEnv \<Rightarrow> lookups mstate \<Rightarrow> lookups mstate" where
  "helper_FindProcess te st =
     (let lk = fst st; m = snd st in
      if lk_attemptProcessLookup lk then
        (lk\<lparr>lk_attemptProcessLookup := False\<rparr>,
         if \<not> te_CMFA te then
           (case te_FindProcessName te (NetWorkString (md_NetWork m)) (md_SrcIP m) (md_SrcPort m) of
              Inl _ \<Rightarrow> m
            | Inr (uid, path) \<Rightarrow>
                (let m1 = m\<lparr>md_Process := filepath_Base path, md_ProcessPath := path, md_Uid := uid\<rparr>
                 in case te_FindPackageName te m1 of Inl _ \<Rightarrow> m1 | Inr pkg \<Rightarrow> m1\<lparr>md_Process := pkg\<rparr>))
         else
           (case te_FindPackageName te m of Inl _ \<Rightarrow> m | Inr pkg \<Rightarrow> m\<lparr>md_Process := pkg\<rparr>))
      else st)"

definition helper_CheckPassRule :: "(string \<Rightarrow> proxy option) \<Rightarrow> Metadata \<Rightarrow> string \<Rightarrow> bool" where
  "helper_CheckPassRule proxies m adapterName = (case proxies adapterName of
     None \<Rightarrow> False
   | Some p \<Rightarrow> list_ex (\<lambda>a. p_type a = AT_PassRule) (unwrap_chain p (unwrap_key_of m)))"

definition tunnel_helper :: "TunnelEnv \<Rightarrow> (string \<Rightarrow> proxy option) \<Rightarrow> bool \<Rightarrow> lookups RuleMatchHelper" where
  "tunnel_helper te proxies findProcess =
     \<lparr>ResolveIP = Some (helper_ResolveIP te),
      FindProcess = (if findProcess then Some (helper_FindProcess te) else None),
      CheckPassRule = Some (helper_CheckPassRule proxies)\<rparr>"

section \<open>Matching\<close>

text \<open>A rule of the main table is wrapped, one of a sub-rule table is not.\<close>

datatype entry = Wrapped RuleWrapper | Plain rule

fun entry_rule :: "entry \<Rightarrow> rule" where
  "entry_rule (Wrapped w) = rw_Rule w"
| "entry_rule (Plain r) = r"

fun entryMatch :: "nat \<Rightarrow> RuleEnv \<Rightarrow> 64 word \<Rightarrow> entry \<Rightarrow> 's RuleMatchHelper \<Rightarrow> 's mstate
    \<Rightarrow> (((bool \<times> string) \<times> 's mstate) \<times> entry) outcome" where
  "entryMatch n env now (Wrapped w) h st =
     obind (wrapperMatch n env now w h st) (\<lambda>x. Ret (fst x, Wrapped (snd x)))"
| "entryMatch n env now (Plain r) h st = obind (ruleMatch n env r h st) (\<lambda>x. Ret (x, Plain r))"

definition getRules :: "TunnelState \<Rightarrow> Metadata \<Rightarrow> entry list" where
  "getRules ts m = (case map_of (ts_subRules ts) (md_SpecialRules m) of
     Some sr \<Rightarrow> map Plain sr
   | None \<Rightarrow> map Wrapped (ts_rules ts))"

text \<open>The statistics of the main table after a scan of it.\<close>

fun wrappers :: "entry list \<Rightarrow> RuleWrapper list" where
  "wrappers [] = []"
| "wrappers (Wrapped w # es) = w # wrappers es"
| "wrappers (Plain r # es) = wrappers es"

definition putRules :: "TunnelState \<Rightarrow> Metadata \<Rightarrow> entry list \<Rightarrow> TunnelState" where
  "putRules ts m es = (case map_of (ts_subRules ts) (md_SpecialRules m) of
     Some sr \<Rightarrow> ts
   | None \<Rightarrow> ts\<lparr>ts_rules := wrappers es\<rparr>)"

text \<open>The first pass or rematch outbound of a chain.\<close>

datatype layer = LPass | LRematch proxy | LNone

fun scanChain :: "proxy list \<Rightarrow> layer" where
  "scanChain [] = LNone"
| "scanChain (a # as) =
     (if p_type a = AT_Pass then LPass
      else if p_type a = AT_Rematch then LRematch a
      else scanChain as)"

text \<open>How one pass over the rules ends.\<close>

datatype scan = Found proxy rule | Rematching proxy rule | NoRule

fun scanRules :: "nat \<Rightarrow> RuleEnv \<Rightarrow> 64 word \<Rightarrow> (string \<Rightarrow> proxy option) \<Rightarrow> 's RuleMatchHelper
    \<Rightarrow> entry list \<Rightarrow> 's mstate \<Rightarrow> (scan \<times> 's mstate \<times> entry list) outcome" where
  "scanRules n env now proxies h [] st = Ret (NoRule, st, [])"
| "scanRules n env now proxies h (e # es) st =
     obind (entryMatch n env now e h st) (\<lambda>x.
       let matched = fst (fst (fst x)); ada = snd (fst (fst x)); st1 = snd (fst x); e1 = snd x;
           next = obind (scanRules n env now proxies h es st1)
                    (\<lambda>(r, st2, es2). Ret (r, st2, e1 # es2))
       in if matched then
            (case proxies ada of
               None \<Rightarrow> next
             | Some adapter \<Rightarrow>
                 (case scanChain (unwrap_chain adapter (unwrap_key_of (snd st1))) of
                    LPass \<Rightarrow> next
                  | LRematch a \<Rightarrow> Ret (Rematching a (entry_rule e), st1, e1 # es)
                  | LNone \<Rightarrow>
                      (if md_NetWork (snd st1) = UDP \<and> \<not> p_udp adapter then next
                       else Ret (Found adapter (entry_rule e), st1, e1 # es))))
          else next)"

text \<open>
  The outer loop; \<open>k\<close> bounds the number of passes. The result is the outbound and the rule.
\<close>

fun rematchLoop :: "nat \<Rightarrow> nat \<Rightarrow> RuleEnv \<Rightarrow> 64 word \<Rightarrow> TunnelState \<Rightarrow> 's RuleMatchHelper
    \<Rightarrow> string list \<Rightarrow> 's mstate
    \<Rightarrow> ((proxy option \<times> rule option) \<times> 's mstate \<times> TunnelState) outcome" where
  "rematchLoop 0 n env now ts h rematchChain st = Diverge"
| "rematchLoop (Suc k) n env now ts h rematchChain st =
     obind (scanRules n (rule_env env ts) now (ts_proxies ts) h (getRules ts (snd st)) st)
       (\<lambda>x. let st1 = fst (snd x); ts1 = putRules ts (snd st) (snd (snd x)) in
         case fst x of
           Found adapter rule \<Rightarrow> Ret ((Some adapter, Some rule), st1, ts1)
         | NoRule \<Rightarrow> Ret ((ts_proxies ts ''DIRECT'', None), st1, ts1)
         | Rematching p rule \<Rightarrow>
             (if p_name p \<in> set rematchChain then Ret ((Some p, Some rule), st1, ts1)
              else (case rematchDial p (snd st1) of
                  (Some err, m) \<Rightarrow> Ret ((Some p, Some rule), (fst st1, m), ts1)
                | (None, m) \<Rightarrow>
                    rematchLoop k n env now ts1 h (rematchChain @ [p_name p]) (fst st1, m))))"

definition tunnel_match :: "nat \<Rightarrow> nat \<Rightarrow> RuleEnv \<Rightarrow> 64 word \<Rightarrow> TunnelState \<Rightarrow> 's RuleMatchHelper
    \<Rightarrow> 's mstate \<Rightarrow> ((proxy option \<times> rule option) \<times> 's mstate \<times> TunnelState) outcome" where
  "tunnel_match k n env now ts h st = rematchLoop k n env now ts h [] st"

definition resolveMetadata :: "nat \<Rightarrow> nat \<Rightarrow> RuleEnv \<Rightarrow> TunnelEnv \<Rightarrow> TunnelState \<Rightarrow> Metadata
    \<Rightarrow> ((proxy option \<times> rule option) result \<times> Metadata \<times> TunnelState) outcome" where
  "resolveMetadata k n env te ts m =
     (if md_SpecialProxy m \<noteq> [] then
        (case ts_proxies ts (md_SpecialProxy m) of
           None \<Rightarrow> Ret (Inl (''proxy '' @ md_SpecialProxy m @ '' not found''), m, ts)
         | Some p \<Rightarrow> Ret (Inr (Some p, None), m, ts))
      else
        obind (DefaultHosts_Search te (md_Host m) False) (\<lambda>(node, ok).
        obind (if ok then obind (rand_ip te node) (\<lambda>ip. Ret (m\<lparr>md_DstIP := ip\<rparr>)) else Ret m) (\<lambda>m1.
          let lk = \<lparr>lk_resolved = ok, lk_attemptProcessLookup = (md_Type m \<noteq> INNER)\<rparr>;
              st1 = (if ts_findProcessMode ts = FindProcessAlways
                     then helper_FindProcess te (lk, m1) else (lk, m1));
              h = tunnel_helper te (ts_proxies ts) (ts_findProcessMode ts = FindProcessStrict)
          in case ts_mode ts of
               ModeDirect \<Rightarrow> Ret (Inr (ts_proxies ts ''DIRECT'', None), snd st1, ts)
             | ModeGlobal \<Rightarrow> Ret (Inr (ts_proxies ts ''GLOBAL'', None), snd st1, ts)
             | ModeRule \<Rightarrow>
                 obind (tunnel_match k n env (te_now te) ts h st1) (\<lambda>(r, st2, ts2).
                   Ret (Inr r, snd st2, ts2)))))"

section \<open>Retrying\<close>

text \<open>
  \<open>attempts\<close> lists what the dial function answers on its successive calls and \<open>waits\<close> whether
  the wait after each failure ended without the context being cancelled. The result carries the
  number of calls.
\<close>

datatype dial_error = ErrIPNotFound | ErrIPVersion | ErrIPv6Disabled | ErrReject | ErrOther string

definition shouldStopRetry :: "dial_error \<Rightarrow> bool" where
  "shouldStopRetry err = (err = ErrIPNotFound \<or> err = ErrIPVersion \<or> err = ErrIPv6Disabled
     \<or> err = ErrReject)"

function retry_loop :: "nat \<Rightarrow> (nat \<Rightarrow> dial_error + 'a) \<Rightarrow> (nat \<Rightarrow> bool) \<Rightarrow> (dial_error + 'a) \<times> nat" where
  "retry_loop i ft wait =
     (case ft i of
        Inr t \<Rightarrow> (Inr t, Suc i)
      | Inl err \<Rightarrow>
          (if shouldStopRetry err then (Inl err, Suc i)
           else if wait i \<and> Suc i < 10 then retry_loop (Suc i) ft wait
           else (Inl err, Suc i)))"
  by pat_completeness auto
termination
  by (relation "measure (\<lambda>(i, _, _). 10 - i)") auto

definition retry :: "(nat \<Rightarrow> dial_error + 'a) \<Rightarrow> (nat \<Rightarrow> bool) \<Rightarrow> (dial_error + 'a) \<times> nat" where
  "retry ft wait = retry_loop 0 ft wait"

section \<open>The helpers keep their contracts\<close>

lemma frame_DstIP: "frame True (m\<lparr>md_DstIP := ip\<rparr>) = frame True m"
  by (simp add: frame_def core_def)

lemma frame_process:
  "frame b (m\<lparr>md_Process := x\<rparr>) = frame b m"
  "frame b (m\<lparr>md_Process := x, md_ProcessPath := y, md_Uid := z\<rparr>) = frame b m"
  "frame b (m\<lparr>md_ProcessPath := y, md_Uid := z\<rparr>) = frame b m"
  by (simp_all add: frame_def core_def)

lemma helper_ResolveIP_framed: "framed True st (helper_ResolveIP te st)"
  by (simp add: framed_def helper_ResolveIP_def Let_def frame_DstIP split: sum.split)

lemma helper_FindProcess_framed: "framed b st (helper_FindProcess te st)"
  by (simp add: framed_def helper_FindProcess_def Let_def frame_process split: sum.split prod.split)

interpretation tunnel_framing: framing_helper "tunnel_helper te proxies findProcess"
  by unfold_locales
     (auto simp: tunnel_helper_def helper_ResolveIP_framed helper_FindProcess_framed split: if_splits)

lemma core_DstIP: "core m = core m' \<Longrightarrow> core (m\<lparr>md_DstIP := ip\<rparr>) = core (m'\<lparr>md_DstIP := ip\<rparr>)"
proof -
  have e: "core (x\<lparr>md_DstIP := ip\<rparr>) = (core x)\<lparr>md_DstIP := ip\<rparr>" for x by (simp add: core_def)
  show "core m = core m' \<Longrightarrow> ?thesis" unfolding e by simp
qed

lemma cache_ok_DstIP: "cache_ok env m \<Longrightarrow> \<not> Resolved m \<Longrightarrow> cache_ok env (m\<lparr>md_DstIP := ip\<rparr>)"
  by (auto simp: cache_ok_def codes_ok_def Resolved_def split: option.splits)

lemma helper_ResolveIP_same: "same_conn env s t \<Longrightarrow> same_conn env (helper_ResolveIP te s) (helper_ResolveIP te t)"
proof -
  assume s: "same_conn env s t"
  then have c: "core (snd s) = core (snd t)" by (simp add: same_conn_def)
  note f = core_fields [OF c]
  have "Resolved (snd s) = Resolved (snd t)" by (simp add: Resolved_def f)
  then show ?thesis using s f core_DstIP [OF c]
    by (auto simp: same_conn_def helper_ResolveIP_def Let_def cache_ok_DstIP split: sum.split)
qed

definition process_update :: "string \<Rightarrow> string \<Rightarrow> u32 \<Rightarrow> Metadata \<Rightarrow> Metadata" where
  "process_update x y z m = m\<lparr>md_Process := x, md_ProcessPath := y, md_Uid := z\<rparr>"

lemma core_process_update: "core (process_update x y z m) = process_update x y z (core m)"
  by (simp add: core_def process_update_def)

lemma helper_FindProcess_update:
  "\<exists>x y z. snd (helper_FindProcess te st) = process_update x y z (snd st)"
proof -
  have "\<exists>x y z. snd st = process_update x y z (snd st)"
    by (rule exI [of _ "md_Process (snd st)"], rule exI [of _ "md_ProcessPath (snd st)"],
        rule exI [of _ "md_Uid (snd st)"]) (simp add: process_update_def)
  moreover have "\<exists>x y z. (snd st)\<lparr>md_Process := p\<rparr> = process_update x y z (snd st)" for p
    by (rule exI [of _ p], rule exI [of _ "md_ProcessPath (snd st)"],
        rule exI [of _ "md_Uid (snd st)"]) (simp add: process_update_def)
  moreover have "\<exists>x y z. (snd st)\<lparr>md_ProcessPath := q, md_Uid := u, md_Process := p\<rparr>
      = process_update x y z (snd st)" for p q u
    by (rule exI [of _ p], rule exI [of _ q], rule exI [of _ u]) (simp add: process_update_def)
  ultimately show ?thesis
    by (auto simp: helper_FindProcess_def Let_def process_update_def split: sum.split)
qed

lemma helper_FindProcess_eq:
  "snd (helper_FindProcess te st) = process_update (md_Process (snd (helper_FindProcess te st)))
     (md_ProcessPath (snd (helper_FindProcess te st))) (md_Uid (snd (helper_FindProcess te st))) (snd st)"
  using helper_FindProcess_update [of te st] by (auto simp: process_update_def)

lemma cache_ok_process_update: "cache_ok env (process_update x y z m) = cache_ok env m"
  by (simp add: cache_ok_def process_update_def)

lemma helper_FindProcess_same:
  assumes pkg: "\<And>m m'. core m = core m' \<Longrightarrow> te_FindPackageName te m = te_FindPackageName te m'"
    and s: "same_conn env s t"
  shows "same_conn env (helper_FindProcess te s) (helper_FindProcess te t)"
proof -
  have c: "core (snd s) = core (snd t)" and lk: "fst s = fst t"
    using s by (simp_all add: same_conn_def)
  note f = core_fields [OF c]
  have p: "te_FindPackageName te ((snd s)\<lparr>md_Process := x, md_ProcessPath := y, md_Uid := z\<rparr>)
      = te_FindPackageName te ((snd t)\<lparr>md_Process := x, md_ProcessPath := y, md_Uid := z\<rparr>)" for x y z
    by (rule pkg) (use c core_process_update [of x y z] in \<open>simp add: process_update_def\<close>)
  have "md_Process (snd (helper_FindProcess te s)) = md_Process (snd (helper_FindProcess te t))"
    "md_ProcessPath (snd (helper_FindProcess te s)) = md_ProcessPath (snd (helper_FindProcess te t))"
    "md_Uid (snd (helper_FindProcess te s)) = md_Uid (snd (helper_FindProcess te t))"
    "fst (helper_FindProcess te s) = fst (helper_FindProcess te t)"
    using pkg [OF c] by (auto simp: helper_FindProcess_def Let_def lk f p split: sum.split)
  then show ?thesis
    using s helper_FindProcess_eq [of te s] helper_FindProcess_eq [of te t]
    by (simp add: same_conn_def core_process_update cache_ok_process_update)
       (metis cache_ok_process_update core_process_update)
qed

lemma tunnel_helper_coherent:
  assumes "\<And>m m'. core m = core m' \<Longrightarrow> te_FindPackageName te m = te_FindPackageName te m'"
  shows "coherent_helper env (tunnel_helper te proxies findProcess)"
proof
  show "same_conn env (f s) (f t)"
    if "ResolveIP (tunnel_helper te proxies findProcess) = Some f" "same_conn env s t" for f s t
    using that by (auto simp: tunnel_helper_def helper_ResolveIP_same)
  show "same_conn env (f s) (f t)"
    if "FindProcess (tunnel_helper te proxies findProcess) = Some f" "same_conn env s t" for f s t
    using that helper_FindProcess_same [OF assms] by (auto simp: tunnel_helper_def split: if_splits)
  show "f m a = f m' a"
    if "CheckPassRule (tunnel_helper te proxies findProcess) = Some f" "core m = core m'" for f m m' a
  proof -
    have "unwrap_key_of m = unwrap_key_of m'"
      by (simp add: unwrap_key_of_def core_fields [OF that(2)])
    then show ?thesis using that(1)
      by (auto simp: tunnel_helper_def helper_CheckPassRule_def split: option.splits)
  qed
qed

section \<open>First-match semantics\<close>

text \<open>
  The specification of a pass over the rules. A rule is skipped when it does not match, when its
  outbound does not exist, when that outbound unwraps to a pass outbound, or when the connection
  is UDP and the outbound does not carry it. The first rule not skipped decides.
\<close>

definition skips :: "nat \<Rightarrow> RuleEnv \<Rightarrow> 64 word \<Rightarrow> (string \<Rightarrow> proxy option) \<Rightarrow> 's RuleMatchHelper
    \<Rightarrow> entry \<Rightarrow> 's mstate \<Rightarrow> 's mstate \<Rightarrow> entry \<Rightarrow> bool" where
  "skips n env now proxies h e st st1 e1 =
     (\<exists>m ada. entryMatch n env now e h st = Ret (((m, ada), st1), e1) \<and>
       (m \<longrightarrow> proxies ada = None \<or> (\<exists>p. proxies ada = Some p \<and>
         (case scanChain (unwrap_chain p (unwrap_key_of (snd st1))) of
            LPass \<Rightarrow> True
          | LRematch a \<Rightarrow> False
          | LNone \<Rightarrow> md_NetWork (snd st1) = UDP \<and> \<not> p_udp p))))"

definition applicable :: "(string \<Rightarrow> proxy option) \<Rightarrow> Metadata \<Rightarrow> string \<Rightarrow> proxy \<Rightarrow> bool" where
  "applicable proxies m ada p = (proxies ada = Some p
     \<and> scanChain (unwrap_chain p (unwrap_key_of m)) = LNone
     \<and> (md_NetWork m = UDP \<longrightarrow> p_udp p))"

inductive first_match :: "nat \<Rightarrow> RuleEnv \<Rightarrow> 64 word \<Rightarrow> (string \<Rightarrow> proxy option) \<Rightarrow> 's RuleMatchHelper
    \<Rightarrow> entry list \<Rightarrow> 's mstate \<Rightarrow> scan \<Rightarrow> 's mstate \<Rightarrow> entry list \<Rightarrow> bool"
  for n env now proxies h where
  fm_none: "first_match n env now proxies h [] st NoRule st []"
| fm_skip: "skips n env now proxies h e st st1 e1 \<Longrightarrow>
    first_match n env now proxies h es st1 r st2 es2 \<Longrightarrow>
    first_match n env now proxies h (e # es) st r st2 (e1 # es2)"
| fm_found: "entryMatch n env now e h st = Ret (((True, ada), st1), e1) \<Longrightarrow>
    applicable proxies (snd st1) ada p \<Longrightarrow>
    first_match n env now proxies h (e # es) st (Found p (entry_rule e)) st1 (e1 # es)"
| fm_rematch: "entryMatch n env now e h st = Ret (((True, ada), st1), e1) \<Longrightarrow>
    proxies ada = Some p \<Longrightarrow>
    scanChain (unwrap_chain p (unwrap_key_of (snd st1))) = LRematch a \<Longrightarrow>
    first_match n env now proxies h (e # es) st (Rematching a (entry_rule e)) st1 (e1 # es)"

inductive_cases first_match_NilE: "first_match n env now proxies h [] st r st' es'"
inductive_cases first_match_ConsE: "first_match n env now proxies h (e # es) st r st' es'"

lemma scanRules_Cons:
  assumes "entryMatch n env now e h st = Ret (((m, ada), st1), e1)"
  shows "scanRules n env now proxies h (e # es) st =
    (if skips n env now proxies h e st st1 e1 then
       obind (scanRules n env now proxies h es st1) (\<lambda>(r, st2, es2). Ret (r, st2, e1 # es2))
     else case proxies ada of
       None \<Rightarrow> Panic
     | Some p \<Rightarrow> (case scanChain (unwrap_chain p (unwrap_key_of (snd st1))) of
         LRematch a \<Rightarrow> Ret (Rematching a (entry_rule e), st1, e1 # es)
       | _ \<Rightarrow> Ret (Found p (entry_rule e), st1, e1 # es)))"
  using assms by (auto simp: Let_def skips_def split: option.splits layer.splits)

lemma first_match_scanRules:
  "first_match n env now proxies h es st r st' es' \<Longrightarrow>
     scanRules n env now proxies h es st = Ret (r, st', es')"
proof (induction rule: first_match.induct)
  case (fm_skip e st st1 e1 es r st2 es2)
  then obtain m ada where "entryMatch n env now e h st = Ret (((m, ada), st1), e1)"
    by (auto simp: skips_def)
  from scanRules_Cons [OF this] fm_skip show ?case by simp
next
  case (fm_found e st ada st1 e1 p es)
  have "\<not> skips n env now proxies h e st st1 e1"
    using fm_found by (auto simp: skips_def applicable_def)
  with scanRules_Cons [OF fm_found(1)] fm_found(2) show ?case by (simp add: applicable_def)
next
  case (fm_rematch e st ada st1 e1 p a es)
  have "\<not> skips n env now proxies h e st st1 e1"
    using fm_rematch by (auto simp: skips_def)
  with scanRules_Cons [OF fm_rematch(1)] fm_rematch(2,3) show ?case by simp
qed simp

lemma scanRules_first_match:
  "scanRules n env now proxies h es st = Ret (r, st', es') \<Longrightarrow>
     first_match n env now proxies h es st r st' es'"
proof (induction es arbitrary: st es')
  case Nil
  then show ?case by (auto intro: fm_none)
next
  case (Cons e es)
  from Cons.prems obtain m ada st1 e1 where x: "entryMatch n env now e h st = Ret (((m, ada), st1), e1)"
    by (auto simp: obind_eq_Ret simp del: Let_def)
  show ?case
  proof (cases "skips n env now proxies h e st st1 e1")
    case True
    with Cons.prems obtain es2 where "scanRules n env now proxies h es st1 = Ret (r, st', es2)"
      and "es' = e1 # es2"
      by (auto simp: scanRules_Cons [OF x] obind_eq_Ret simp del: scanRules.simps)
    then show ?thesis using fm_skip [OF True Cons.IH] by simp
  next
    case False
    then have m by (auto simp: skips_def x)
    then show ?thesis
      using False Cons.prems x
      by (auto simp: scanRules_Cons [OF x] applicable_def skips_def simp del: scanRules.simps
          intro: fm_found [unfolded applicable_def] fm_rematch split: option.splits layer.splits)
  qed
qed


section \<open>The rematch loop ends\<close>

text \<open>What a pass leaves of the tables: everything but the statistics of the main rules.\<close>

fun same_entry :: "entry \<Rightarrow> entry \<Rightarrow> bool" where
  "same_entry (Wrapped w) (Wrapped w') = (rw_Rule w' = rw_Rule w)"
| "same_entry (Plain r) (Plain r') = (r' = r)"
| "same_entry _ _ = False"

lemma same_entry_refl [simp]: "same_entry e e"
  by (cases e) simp_all

lemma entryMatch_same: "entryMatch n env now e h st = Ret (x, e') \<Longrightarrow> same_entry e e'"
  by (cases e) (auto simp: obind_eq_Ret wrapperMatch_def Hit_def Miss_def split: if_splits)

lemma first_match_same_entries:
  "first_match n env now proxies h es st r st' es' \<Longrightarrow> list_all2 same_entry es es'"
  by (induction rule: first_match.induct)
     (auto simp: skips_def list_all2_refl dest: entryMatch_same)

definition same_tables :: "TunnelState \<Rightarrow> TunnelState \<Rightarrow> bool" where
  "same_tables ts ts' = (ts_subRules ts' = ts_subRules ts \<and> ts_proxies ts' = ts_proxies ts
     \<and> ts_ruleProviders ts' = ts_ruleProviders ts
     \<and> map rw_Rule (ts_rules ts') = map rw_Rule (ts_rules ts))"

lemma wrappers_same:
  "list_all2 same_entry (map Wrapped ws) es \<Longrightarrow> map rw_Rule (wrappers es) = map rw_Rule ws"
proof (induction ws arbitrary: es)
  case (Cons w ws)
  then obtain e es' where "es = e # es'" "same_entry (Wrapped w) e" "list_all2 same_entry (map Wrapped ws) es'"
    by (auto simp: list_all2_Cons1)
  then show ?case using Cons.IH by (cases e) auto
qed simp

lemma putRules_same:
  assumes "scanRules n env now proxies h (getRules ts m) st = Ret (r, st', es')"
  shows "same_tables ts (putRules ts m es')"
  using first_match_same_entries [OF scanRules_first_match [OF assms]]
  by (auto simp: same_tables_def putRules_def getRules_def wrappers_same split: option.splits)

lemma same_tables_trans: "same_tables a b \<Longrightarrow> same_tables b c \<Longrightarrow> same_tables a c"
  by (simp add: same_tables_def)

lemma scanRules_returns:
  "(\<And>e st. e \<in> set es \<Longrightarrow> returns (entryMatch n env now e h st)) \<Longrightarrow>
     returns (scanRules n env now proxies h es st)"
proof (induction es arbitrary: st)
  case (Cons e es)
  then show ?case
    by (cases st) (auto simp: Let_def intro!: returns_obind split: option.split layer.split)
qed simp

lemma entryMatch_returns:
  "returns (ruleMatch n env (entry_rule e) h st) \<Longrightarrow> returns (entryMatch n env now e h st)"
  by (cases e) (auto simp: wrapperMatch_def intro!: returns_obind)

text \<open>The names of the rematch outbounds that rules can reach.\<close>

definition rematch_names :: "(string \<Rightarrow> proxy option) \<Rightarrow> string set \<Rightarrow> bool" where
  "rematch_names proxies ns = (\<forall>ada p m a. proxies ada = Some p \<longrightarrow>
     scanChain (unwrap_chain p (unwrap_key_of m)) = LRematch a \<longrightarrow> p_name a \<in> ns)"

lemma first_match_rematch:
  "first_match n env now proxies h es st r st' es' \<Longrightarrow> r = Rematching a rule \<Longrightarrow>
     \<exists>ada p m. proxies ada = Some p \<and> scanChain (unwrap_chain p (unwrap_key_of m)) = LRematch a"
  by (induction rule: first_match.induct) auto

lemma rematchLoop_returns:
  assumes scan: "\<And>ts' st. same_tables ts0 ts' \<Longrightarrow>
      returns (scanRules n (rule_env env ts') now (ts_proxies ts') h (getRules ts' (snd st)) st)"
    and names: "rematch_names (ts_proxies ts0) ns" "finite ns"
  shows "same_tables ts0 ts \<Longrightarrow> card (ns - set chain) < k \<Longrightarrow> returns (rematchLoop k n env now ts h chain st)"
proof (induction k arbitrary: ts chain st)
  case (Suc k)
  obtain r st1 es1 where s: "scanRules n (rule_env env ts) now (ts_proxies ts) h
      (getRules ts (snd st)) st = Ret (r, st1, es1)"
    using scan [OF Suc.prems(1), of st] by (auto simp: returns_def)
  have t: "same_tables ts0 (putRules ts (snd st) es1)"
    using same_tables_trans [OF Suc.prems(1) putRules_same [OF s]] .
  have "returns (rematchLoop k n env now (putRules ts (snd st) es1) h (chain @ [p_name p])
      (fst st1, applyMetadata p (snd st1)))"
    if r: "r = Rematching p rule" "p_name p \<notin> set chain" for p rule
  proof (rule Suc.IH [OF t])
    have "p_name p \<in> ns"
      using first_match_rematch [OF scanRules_first_match [OF s] r(1)] names(1) Suc.prems(1)
      by (auto simp: rematch_names_def same_tables_def)
    then have "card (ns - set (chain @ [p_name p])) < card (ns - set chain)"
      using r(2) names(2) by (intro psubset_card_mono) auto
    then show "card (ns - set (chain @ [p_name p])) < k" using Suc.prems(2) by simp
  qed
  then show ?case
    by (auto simp: s Let_def rematchDial_def split: scan.split)
qed simp


section \<open>Every connection gets a decision\<close>

lemma hostsSearch_ok:
  assumes "table_ok t" "aliases_end t rank"
  shows "\<exists>hv ok. hostsSearch sys t d isDomain = Some (hv, ok) \<and> (ok \<longrightarrow> (\<exists>v. hv = Some v \<and> hv_ok v))"
proof (cases "value_of (Search t d)")
  case None
  then show ?thesis
    by (cases sys) (auto simp: hostsSearch_def split: sum.split dest: NewHostValue_ok)
next
  case (Some hv)
  then obtain res b where "searchLoop t isDomain hv = Some (res, b)" "hv_ok res"
    using searchLoop_ends [OF assms table_ok_value [OF assms(1) Some], of isDomain] by blast
  then show ?thesis using Some by (auto simp: hostsSearch_def)
qed

definition te_ok :: "TunnelEnv \<Rightarrow> (string \<Rightarrow> nat) \<Rightarrow> bool" where
  "te_ok te rank = (table_ok (te_hosts te) \<and> aliases_end (te_hosts te) rank
     \<and> (\<forall>n > 0. te_IntN te n < n))"

lemma DefaultHosts_Search_returns:
  assumes "te_ok te rank"
  shows "\<exists>hv ok. DefaultHosts_Search te d isDomain = Ret (hv, ok)
    \<and> (ok \<longrightarrow> (\<exists>v. hv = Some v \<and> hv_ok v))"
  using hostsSearch_ok [of "te_hosts te" rank "te_systemHosts te" d isDomain] assms
  by (auto simp: DefaultHosts_Search_def te_ok_def)

lemma rand_ip_returns: "te_ok te rank \<Longrightarrow> hv_ok v \<Longrightarrow> returns (rand_ip te (Some v))"
  by (auto simp: rand_ip_def RandIP_def te_ok_def hv_ok_def split: if_splits)

text \<open>A state whose rule tables were loaded from a configuration.\<close>

definition loaded :: "RuleEnv \<Rightarrow> TunnelState \<Rightarrow> bool" where
  "loaded env ts = (verifySubRule (ts_subRules ts) = None
     \<and> (\<forall>n. list_all parsed_rule (table_body (ts_subRules ts) n))
     \<and> list_all (\<lambda>w. parsed_rule (rw_Rule w)) (ts_rules ts)
     \<and> flat_providers (rule_env env ts))"

lemma loaded_same: "same_tables ts ts' \<Longrightarrow> loaded env ts \<Longrightarrow> loaded env ts'"
proof -
  assume s: "same_tables ts ts'" and l: "loaded env ts"
  have "map rw_Rule (ts_rules ts') = map rw_Rule (ts_rules ts)"
    using s by (simp add: same_tables_def)
  then have "rw_Rule ` set (ts_rules ts') = rw_Rule ` set (ts_rules ts)"
    by (metis list.set_map)
  then have "list_all (\<lambda>w. parsed_rule (rw_Rule w)) (ts_rules ts')"
    using l by (auto simp: loaded_def list_all_iff) (metis image_iff)
  then show "loaded env ts'"
    using s l by (simp add: loaded_def same_tables_def rule_env_def)
qed

lemma loaded_entry:
  "loaded env ts \<Longrightarrow> e \<in> set (getRules ts m) \<Longrightarrow> parsed_rule (entry_rule e)"
proof -
  assume l: "loaded env ts" and e: "e \<in> set (getRules ts m)"
  have "parsed_rule r" if "map_of (ts_subRules ts) x = Some sr" "r \<in> set sr" for x sr r
  proof -
    have "list_all parsed_rule (table_body (ts_subRules ts) x)"
      using l by (simp add: loaded_def)
    then show ?thesis using that by (simp add: table_body_def list_all_iff)
  qed
  then show "parsed_rule (entry_rule e)"
    using l e by (auto simp: getRules_def loaded_def list_all_iff split: option.splits)
qed

lemma loaded_ruleMatch:
  assumes "loaded env ts" "parsed_rule r"
  shows "returns (ruleMatch (length (ts_subRules ts) + 2) (rule_env env ts) r h st)"
proof -
  let ?subs = "ts_subRules ts"
  have v: "verifySubRule ?subs = None" and b: "\<And>n. list_all parsed_rule (table_body ?subs n)"
    and f: "flat_providers (rule_env env ts)"
    using assms(1) by (auto simp: loaded_def)
  have e: "rule_env env ts = config_env (rule_env env ts) ?subs"
    by (simp add: rule_env_def config_env_def)
  have "config_rank ?subs q < length ?subs + 2" for q
    using table_rank_le [OF v] by (cases q) (auto intro: le_imp_less_Suc)
  then have w: "within (config_rank ?subs) (length ?subs + 2) r"
    by (simp add: within_def)
  show ?thesis
    using ruleMatch_returns(1) [OF config_ranked [OF v f b] w, of h st] assms(2) e
    by (simp add: parsed_rule_def)
qed

lemma loaded_scan:
  assumes "loaded env ts" "n = length (ts_subRules ts) + 2"
  shows "returns (scanRules n (rule_env env ts) now proxies h (getRules ts m) st)"
  by (intro scanRules_returns entryMatch_returns)
     (simp only: assms(2), rule loaded_ruleMatch [OF assms(1)], erule loaded_entry [OF assms(1)])

lemma loaded_match:
  assumes "loaded env ts" "rematch_names (ts_proxies ts) (set ns)"
  shows "returns (tunnel_match (Suc (length ns)) (length (ts_subRules ts) + 2) env now ts h st)"
  unfolding tunnel_match_def
proof (rule rematchLoop_returns [where ts0 = ts and ns = "set ns"])
  show "returns (scanRules (length (ts_subRules ts) + 2) (rule_env env ts') now (ts_proxies ts') h
      (getRules ts' (snd st)) st)" if "same_tables ts ts'" for ts' st
    by (rule loaded_scan [OF loaded_same [OF that assms(1)]])
       (use that in \<open>simp add: same_tables_def\<close>)
  show "same_tables ts ts" by (simp add: same_tables_def)
  show "card (set ns - set []) < Suc (length ns)"
    using card_length [of ns] by simp
qed (use assms(2) in simp_all)

text \<open>C1: every connection gets a decision. With rule tables and hosts loaded from a
  configuration, aliases that end, flat rule sets and finitely many rematch outbounds,
  resolving any metadata returns: no endless loop and no panic, within one pass per rematch
  outbound plus one.\<close>

theorem resolveMetadata_decides:
  assumes "parseSubRules env cfg proxyNames providerNames = Inr (ts_subRules ts)"
    and "parseMainRules env lines proxyNames providerNames subNames = Inr (ts_rules ts)"
    and "flat_providers (rule_env env ts)"
    and "parseHosts lan hostsCfg = Some (Inr (te_hosts te))" "aliases_end (te_hosts te) rank"
    and "\<forall>n > 0. te_IntN te n < n"
    and "rematch_names (ts_proxies ts) (set ns)"
  shows "\<exists>x. resolveMetadata (length ns + 1) (length (ts_subRules ts) + 2) env te ts m = Ret x"
proof -
  have te: "te_ok te rank"
    using assms parseHosts_ok [OF assms(4)] by (simp add: te_ok_def)
  have main: "list_all (\<lambda>w. parsed_rule (rw_Rule w)) (ts_rules ts)"
  proof -
    obtain rs where "parseRules_loop env proxyNames providerNames subNames ''rules'' 0 lines = Inr rs"
      and "ts_rules ts = map NewRuleWrapper rs"
      using assms(2) by (auto simp: parseMainRules_def parseRules_def split: sum.splits)
    then show ?thesis
      using parseRules_loop_parsed by (force simp: NewRuleWrapper_def list_all_iff)
  qed
  have l: "loaded env ts"
    using parseSubRules_ok [OF assms(1)] main assms(3) by (simp add: loaded_def)
  have "returns (resolveMetadata (length ns + 1) (length (ts_subRules ts) + 2) env te ts m)"
  proof (cases "md_SpecialProxy m = []")
    case True
    obtain hv ok where s: "DefaultHosts_Search te (md_Host m) False = Ret (hv, ok)"
      and hv: "ok \<longrightarrow> (\<exists>v. hv = Some v \<and> hv_ok v)"
      using DefaultHosts_Search_returns [OF te] by blast
    have "returns (if ok then obind (rand_ip te hv) (\<lambda>ip. Ret (m\<lparr>md_DstIP := ip\<rparr>)) else Ret m)"
      using hv rand_ip_returns [OF te] by (auto intro!: returns_obind)
    then obtain m1 where m1: "(if ok then obind (rand_ip te hv) (\<lambda>ip. Ret (m\<lparr>md_DstIP := ip\<rparr>)) else Ret m) = Ret m1"
      by (auto simp: returns_def)
    show ?thesis
    proof (cases "ts_mode ts")
      case ModeRule
      show ?thesis
        unfolding resolveMetadata_def s
        by (simp add: True m1 ModeRule Let_def del: add_2_eq_Suc')
           (intro conjI impI; rule returns_obind [OF loaded_match [OF l assms(7)]]; auto)
    qed (simp_all add: resolveMetadata_def s m1 True Let_def)
  qed (simp add: resolveMetadata_def split: option.split)
  then show ?thesis by (simp add: returns_def)
qed

definition direct_proxy :: proxy where
  "direct_proxy = Proxy ''DIRECT'' AT_Direct True None None (\<lambda>_. None)"

definition again_proxy :: proxy where
  "again_proxy = Proxy ''AGAIN'' AT_Rematch True (Some ''second'') None (\<lambda>_. None)"

definition example_proxies :: "string \<Rightarrow> proxy option" where
  "example_proxies name = (if name = ''DIRECT'' then Some direct_proxy
     else if name = ''AGAIN'' then Some again_proxy else None)"

definition example_state :: TunnelState where
  "example_state = \<lparr>ts_status = Running, ts_mode = ModeRule, ts_findProcessMode = FindProcessStrict,
     ts_rules = [NewRuleWrapper (Base (RematchName [''second''] ''DIRECT'' ''second'')),
                 NewRuleWrapper (Base (MatchAll ''AGAIN''))],
     ts_subRules = example_subs, ts_proxies = example_proxies,
     ts_ruleProviders = (\<lambda>_. None), ts_sniffingEnable = False\<rparr>"

definition example_tenv :: TunnelEnv where
  "example_tenv = \<lparr>te_MappingEnabled = True, te_FindHostByIP = (\<lambda>_. None),
     te_IsFakeIP = (\<lambda>ip. ip = Addr4 7), te_hosts = optimize example_hosts, te_systemHosts = None,
     te_IntN = (\<lambda>_. 0), te_ResolveIP = (\<lambda>_. Inl ''no resolver''),
     te_FindProcessName = (\<lambda>_ _ _. Inl ''no process''), te_FindPackageName = (\<lambda>_. Inl ''none''),
     te_CMFA = False, te_now = 0\<rparr>"

lemma example_rematch: "rematch_names example_proxies {''AGAIN''}"
  by (auto simp: rematch_names_def example_proxies_def direct_proxy_def again_proxy_def split: if_splits)

theorem resolveMetadata_decides_witness:
  "\<exists>x. resolveMetadata 2 4 example_env example_tenv example_state empty_metadata = Ret x"
proof -
  have c1: "parseSubRules example_env example_cfg (\<lambda>p. p = ''DIRECT'' \<or> p = ''AGAIN'') (\<lambda>_. False)
      = Inr (ts_subRules example_state)"
    by code_simp
  have c2: "parseMainRules example_env [''REMATCH-NAME,second,DIRECT'', ''MATCH,AGAIN'']
      (\<lambda>p. p = ''DIRECT'' \<or> p = ''AGAIN'') (\<lambda>_. False) (\<lambda>_. False) = Inr (ts_rules example_state)"
    by code_simp
  have c3: "flat_providers (rule_env example_env example_state)"
    by (simp add: flat_providers_def rule_env_def example_state_def)
  have c4: "parseHosts None example_hosts_cfg = Some (Inr (te_hosts example_tenv))"
    by (simp add: example_hosts_parsed example_tenv_def)
  have c5: "aliases_end (te_hosts example_tenv) example_hosts_rank"
    by (simp add: example_hosts_end example_tenv_def)
  have c6: "\<forall>n > 0. te_IntN example_tenv n < n" by (simp add: example_tenv_def)
  have c7: "rematch_names (ts_proxies example_state) (set [''AGAIN''])"
    using example_rematch by (simp add: example_state_def)
  have len: "length [''AGAIN''] + 1 = 2" "length (ts_subRules example_state) + 2 = 4"
    by (simp_all add: example_state_def example_subs_def)
  show ?thesis
    using resolveMetadata_decides [OF c1 c2 c3 c4 c5 c6 c7, of empty_metadata] unfolding len .
qed

section \<open>Further properties of the tunnel\<close>

text \<open>
  The layers of an outbound: the outbound itself, and what it unwraps to as long as it is neither a
  pass nor a rematch outbound.
\<close>

inductive layer_of :: "unwrap_key \<Rightarrow> proxy \<Rightarrow> proxy \<Rightarrow> bool" for key where
  layer_self: "layer_of key p p"
| layer_down: "p_type p \<noteq> AT_Pass \<Longrightarrow> p_type p \<noteq> AT_Rematch \<Longrightarrow> p_unwrap p key = Some q \<Longrightarrow>
    layer_of key q a \<Longrightarrow> layer_of key p a"

text \<open>
  Which rules are passed over, and what a rule that is not decides. The words of the specification
  are those of the comments and logs of \<open>match\<close>: a rule that does not match, an outbound that does
  not exist, a layer of the outbound that is a pass, and an outbound without UDP for UDP traffic.
\<close>

definition passed_over :: "(string \<Rightarrow> proxy option) \<Rightarrow> Metadata \<Rightarrow> bool \<Rightarrow> string \<Rightarrow> bool" where
  "passed_over proxies m matched ada = (\<not> matched \<or> proxies ada = None \<or>
     (\<exists>p. proxies ada = Some p \<and>
        ((\<exists>a. layer_of (unwrap_key_of m) p a \<and> p_type a = AT_Pass) \<or>
         ((\<forall>a. layer_of (unwrap_key_of m) p a \<longrightarrow> p_type a \<noteq> AT_Rematch) \<and> md_NetWork m = UDP \<and> \<not> p_udp p))))"

definition decides :: "(string \<Rightarrow> proxy option) \<Rightarrow> Metadata \<Rightarrow> string \<Rightarrow> rule \<Rightarrow> scan \<Rightarrow> bool" where
  "decides proxies m ada rule r = (\<exists>p. proxies ada = Some p \<and>
     ((\<exists>a. layer_of (unwrap_key_of m) p a \<and> p_type a = AT_Rematch \<and> r = Rematching a rule) \<or>
      ((\<forall>a. layer_of (unwrap_key_of m) p a \<longrightarrow> p_type a \<noteq> AT_Pass \<and> p_type a \<noteq> AT_Rematch)
         \<and> (md_NetWork m = UDP \<longrightarrow> p_udp p) \<and> r = Found p rule)))"


inductive_cases layer_ofE: "layer_of key p a"

lemma layer_of_iff:
  "layer_of key p a \<longleftrightarrow> a = p \<or> p_type p \<noteq> AT_Pass \<and> p_type p \<noteq> AT_Rematch
     \<and> (\<exists>q. p_unwrap p key = Some q \<and> layer_of key q a)"
  by (auto elim: layer_ofE intro: layer_of.intros)

lemma scanChain_layers:
  "(scanChain (unwrap_chain p key) = LPass \<longleftrightarrow> (\<exists>a. layer_of key p a \<and> p_type a = AT_Pass))
   \<and> (\<forall>a. scanChain (unwrap_chain p key) = LRematch a \<longleftrightarrow> layer_of key p a \<and> p_type a = AT_Rematch)"
proof (induction p)
  case (Proxy name tp udp rn sr un)
  let ?p = "Proxy name tp udp rn sr un"
  note iff = layer_of_iff [of key ?p]
  show ?case
  proof (cases "tp = AT_Pass \<or> tp = AT_Rematch \<or> un key = None")
    case True
    then have l: "layer_of key ?p = (=) ?p" by (intro ext, subst iff) auto
    from True show ?thesis unfolding l by (elim disjE) (simp_all, (metis proxy.sel(2))+)
  next
    case False
    then obtain q where q: "un key = Some q" by auto
    then have "q \<in> set_option (un key)" by simp
    note IH = Proxy [OF rangeI this]
    have l: "layer_of key ?p = (\<lambda>a. ?p = a \<or> layer_of key q a)"
      by (intro ext, subst iff) (use False q in auto)
    have s: "scanChain (unwrap_chain ?p key) = scanChain (unwrap_chain q key)"
      using False by (simp add: q)
    have p: "p_type ?p \<noteq> AT_Pass" "p_type ?p \<noteq> AT_Rematch" using False by simp_all
    show ?thesis unfolding l s using IH p by blast
  qed
qed

lemma scanChain_cases:
  obtains (pass) "scanChain (unwrap_chain p key) = LPass" "\<exists>a. layer_of key p a \<and> p_type a = AT_Pass"
      "\<And>a. layer_of key p a \<Longrightarrow> p_type a \<noteq> AT_Rematch"
  | (rematch) a where "scanChain (unwrap_chain p key) = LRematch a"
      "\<And>b. layer_of key p b \<Longrightarrow> p_type b \<noteq> AT_Pass"
      "\<And>b. layer_of key p b \<and> p_type b = AT_Rematch \<longleftrightarrow> b = a"
  | (plain) "scanChain (unwrap_chain p key) = LNone"
      "\<And>a. layer_of key p a \<Longrightarrow> p_type a \<noteq> AT_Pass \<and> p_type a \<noteq> AT_Rematch"
  using scanChain_layers [of p key]
  by (cases "scanChain (unwrap_chain p key)") (simp_all, metis+)

lemma passed_over_chain:
  "passed_over proxies m matched ada \<longleftrightarrow> (matched \<longrightarrow> (case proxies ada of None \<Rightarrow> True | Some p \<Rightarrow>
     (case scanChain (unwrap_chain p (unwrap_key_of m)) of
        LPass \<Rightarrow> True | LRematch a \<Rightarrow> False | LNone \<Rightarrow> md_NetWork m = UDP \<and> \<not> p_udp p)))"
proof (cases "proxies ada")
  case (Some p)
  show ?thesis
    by (cases rule: scanChain_cases [of p "unwrap_key_of m"]) (use Some in \<open>auto simp: passed_over_def\<close>)
qed (simp add: passed_over_def)

lemma decides_chain:
  "decides proxies m ada rule r \<longleftrightarrow> (case proxies ada of None \<Rightarrow> False | Some p \<Rightarrow>
     (case scanChain (unwrap_chain p (unwrap_key_of m)) of
        LPass \<Rightarrow> False | LRematch a \<Rightarrow> r = Rematching a rule
      | LNone \<Rightarrow> (md_NetWork m = UDP \<longrightarrow> p_udp p) \<and> r = Found p rule))"
proof (cases "proxies ada")
  case (Some p)
  show ?thesis
    by (cases rule: scanChain_cases [of p "unwrap_key_of m"]) (use Some in \<open>auto simp: decides_def\<close>)
qed (simp add: decides_def)

text \<open>
  A pass over the rules, said with positions: there is a first rule, at position \<open>i\<close>, that is not
  passed over, and it gives the result, or all rules are passed over. The states \<open>sts\<close> are those
  between the rules; the entries up to \<open>i\<close> have counted their match, those behind it are untouched.
\<close>

definition first_decisive :: "nat \<Rightarrow> RuleEnv \<Rightarrow> 64 word \<Rightarrow> (string \<Rightarrow> proxy option) \<Rightarrow> 's RuleMatchHelper
    \<Rightarrow> entry list \<Rightarrow> 's mstate \<Rightarrow> scan \<Rightarrow> 's mstate \<Rightarrow> entry list \<Rightarrow> bool" where
  "first_decisive n env now proxies h es st r st' es' =
     (\<exists>i sts matched ada. i \<le> length es \<and> length es' = length es \<and> sts 0 = st
       \<and> (\<forall>j < length es. j \<le> i \<longrightarrow>
            entryMatch n env now (es ! j) h (sts j) = Ret (((matched j, ada j), sts (Suc j)), es' ! j))
       \<and> (\<forall>j < i. passed_over proxies (snd (sts (Suc j))) (matched j) (ada j))
       \<and> (\<forall>j < length es. i < j \<longrightarrow> es' ! j = es ! j)
       \<and> (if i = length es then r = NoRule \<and> st' = sts i
          else matched i \<and> decides proxies (snd (sts (Suc i))) (ada i) (entry_rule (es ! i)) r
            \<and> st' = sts (Suc i)))"

lemma first_decisive_Nil:
  "first_decisive n env now proxies h [] st r st' es' \<longleftrightarrow> r = NoRule \<and> st' = st \<and> es' = []"
  by (auto simp: first_decisive_def intro: exI [of _ "\<lambda>_. st"])

lemma first_decisive_Cons:
  "first_decisive n env now proxies h (e # es) st r st' es' \<longleftrightarrow>
     (\<exists>m ada st1 e1 es2. entryMatch n env now e h st = Ret (((m, ada), st1), e1) \<and> es' = e1 # es2 \<and>
        (m \<and> decides proxies (snd st1) ada (entry_rule e) r \<and> st' = st1 \<and> es2 = es \<or>
         passed_over proxies (snd st1) m ada \<and> first_decisive n env now proxies h es st1 r st' es2))"
    (is "?l \<longleftrightarrow> ?r")
proof
  assume ?l
  then obtain i sts matched ada where i: "i \<le> length (e # es)" "length es' = length (e # es)" "sts 0 = st"
    and run: "\<And>j. j < length (e # es) \<Longrightarrow> j \<le> i \<Longrightarrow> entryMatch n env now ((e # es) ! j) h (sts j)
          = Ret (((matched j, ada j), sts (Suc j)), es' ! j)"
    and over: "\<And>j. j < i \<Longrightarrow> passed_over proxies (snd (sts (Suc j))) (matched j) (ada j)"
    and rest: "\<And>j. j < length (e # es) \<Longrightarrow> i < j \<Longrightarrow> es' ! j = (e # es) ! j"
    and fin: "if i = length (e # es) then r = NoRule \<and> st' = sts i
        else matched i \<and> decides proxies (snd (sts (Suc i))) (ada i) (entry_rule ((e # es) ! i)) r
          \<and> st' = sts (Suc i)"
    unfolding first_decisive_def by blast
  from i(2) obtain e1 es2 where es': "es' = e1 # es2" "length es2 = length es" by (cases es') auto
  have first: "entryMatch n env now e h st = Ret (((matched 0, ada 0), sts 1), e1)"
    using run [of 0] i es' by simp
  show ?r
  proof (cases i)
    case 0
    have "es2 ! j = es ! j" if "j < length es" for j using rest [of "Suc j"] 0 es' that by simp
    then have "es2 = es" using es'(2) by (intro nth_equalityI) auto
    with first fin 0 es' show ?thesis by auto
  next
    case (Suc k)
    have "first_decisive n env now proxies h es (sts 1) r st' es2"
      unfolding first_decisive_def
      by (intro exI [of _ k] exI [of _ "\<lambda>j. sts (Suc j)"] exI [of _ "\<lambda>j. matched (Suc j)"] exI [of _ "\<lambda>j. ada (Suc j)"])
         (use i es' Suc run [of "Suc _"] over [of "Suc _"] rest [of "Suc _"] fin in auto)
    with first over [of 0] Suc es' show ?thesis by auto
  qed
next
  assume ?r
  then obtain m a st1 e1 es2 where first: "entryMatch n env now e h st = Ret (((m, a), st1), e1)"
    and es': "es' = e1 # es2"
    and c: "m \<and> decides proxies (snd st1) a (entry_rule e) r \<and> st' = st1 \<and> es2 = es \<or>
         passed_over proxies (snd st1) m a \<and> first_decisive n env now proxies h es st1 r st' es2" by blast
  from c show ?l
  proof
    assume "m \<and> decides proxies (snd st1) a (entry_rule e) r \<and> st' = st1 \<and> es2 = es"
    then show ?l unfolding first_decisive_def
      by (intro exI [of _ 0] exI [of _ "case_nat st (\<lambda>_. st1)"] exI [of _ "\<lambda>_. m"] exI [of _ "\<lambda>_. a"])
         (use first es' in \<open>auto simp: nth_Cons'\<close>)
  next
    assume o: "passed_over proxies (snd st1) m a \<and> first_decisive n env now proxies h es st1 r st' es2"
    then obtain i sts matched ada where i: "i \<le> length es" "length es2 = length es" "sts 0 = st1"
      "\<forall>j < length es. j \<le> i \<longrightarrow>
            entryMatch n env now (es ! j) h (sts j) = Ret (((matched j, ada j), sts (Suc j)), es2 ! j)"
      "\<forall>j < i. passed_over proxies (snd (sts (Suc j))) (matched j) (ada j)"
      "\<forall>j < length es. i < j \<longrightarrow> es2 ! j = es ! j"
      "if i = length es then r = NoRule \<and> st' = sts i
          else matched i \<and> decides proxies (snd (sts (Suc i))) (ada i) (entry_rule (es ! i)) r
            \<and> st' = sts (Suc i)"
      unfolding first_decisive_def by blast
    then show ?l unfolding first_decisive_def
      by (intro exI [of _ "Suc i"] exI [of _ "case_nat st sts"] exI [of _ "case_nat m matched"] exI [of _ "case_nat a ada"])
         (use first es' o in \<open>auto simp: nth_Cons' gr0_conv_Suc less_Suc_eq_0_disj split: nat.split\<close>)
  qed
qed

text \<open>C4. One pass over the rules gives the decision of the first rule that decides: the scan
  returns a result exactly when some position holds the first rule that is not passed over and that
  rule decides the result, or when every rule is passed over and there is none. A rule is passed over
  when it does not match, when its outbound does not exist, when a layer of its outbound is a pass,
  or when no layer is a rematch and the outbound carries no UDP though the connection is UDP. A rule
  decides for a re-match when a layer of its outbound is a rematch outbound, and for its outbound
  otherwise. The outbounds are those at the time of the scan.\<close>

theorem scanRules_first_decisive:
  "scanRules n env now proxies h es st = Ret (r, st', es') \<longleftrightarrow>
     first_decisive n env now proxies h es st r st' es'"
proof (induction es arbitrary: st es')
  case (Cons e es)
  show ?case
  proof (cases "entryMatch n env now e h st")
    case (Ret x)
    obtain m ada st1 e1 where x: "x = (((m, ada), st1), e1)" by (metis surj_pair)
    have fd: "first_decisive n env now proxies h (e # es) st r st' es' \<longleftrightarrow>
       (\<exists>es2. es' = e1 # es2 \<and> (m \<and> decides proxies (snd st1) ada (entry_rule e) r \<and> st' = st1 \<and> es2 = es \<or>
         passed_over proxies (snd st1) m ada \<and> scanRules n env now proxies h es st1 = Ret (r, st', es2)))"
      by (simp add: first_decisive_Cons Ret x Cons.IH)
    show ?thesis
    proof (cases "m \<and> proxies ada \<noteq> None")
      case True
      then obtain p where p: m "proxies ada = Some p" by auto
      show ?thesis unfolding fd
        by (cases "scanChain (unwrap_chain p (unwrap_key_of (snd st1)))"; cases st')
           (auto simp: Ret x p passed_over_chain decides_chain obind_eq_Ret Let_def)
    qed (unfold fd, cases st', auto simp: Ret x passed_over_chain decides_chain obind_eq_Ret Let_def)
  qed (auto simp: first_decisive_Cons)
qed (auto simp: first_decisive_Nil)

lemma first_match_Found:
  "first_match n env now proxies h es st r st' es' \<Longrightarrow> r = Found p rule \<Longrightarrow>
     \<exists>ada. applicable proxies (snd st') ada p"
  by (induction rule: first_match.induct) auto

lemma first_match_Rematching:
  "first_match n env now proxies h es st r st' es' \<Longrightarrow> r = Rematching p rule \<Longrightarrow> p_type p = AT_Rematch"
proof (induction rule: first_match.induct)
  case (fm_rematch e st ada st1 e1 q a es)
  have "scanChain as = LRematch a \<Longrightarrow> p_type a = AT_Rematch" for as
    by (induction as) (auto split: if_splits)
  then show ?case using fm_rematch by auto
qed auto

lemma rematchLoop_result:
  "rematchLoop k n env now ts h chain st = Ret ((Some p, Some rule), st', ts') \<Longrightarrow>
     p_type p = AT_Rematch \<or> (\<exists>ada. applicable (ts_proxies ts) (snd st') ada p)"
proof (induction k arbitrary: ts chain st)
  case (Suc k)
  from Suc.prems obtain r st1 es1 where s: "scanRules n (rule_env env ts) now (ts_proxies ts) h
      (getRules ts (snd st)) st = Ret (r, st1, es1)"
    by (auto simp: obind_eq_Ret)
  note fm = scanRules_first_match [OF s]
  have t: "ts_proxies (putRules ts m es1) = ts_proxies ts" for m
    by (simp add: putRules_def split: option.split)
  show ?case
    using Suc.prems first_match_Found [OF fm] first_match_Rematching [OF fm]
    by (auto simp: s Let_def rematchDial_def t dest: Suc.IH split: scan.splits if_splits)
qed simp

text \<open>C22: the outbound chosen by a rule can serve the connection: unless the re-matching gave up
  on a rematch outbound, it is an existing outbound that unwraps to no pass or rematch outbound
  and carries UDP when the connection is UDP.\<close>

theorem tunnel_match_usable:
  assumes "tunnel_match k n env now ts h st = Ret ((Some p, Some rule), st', ts')"
    and "p_type p \<noteq> AT_Rematch"
  shows "\<exists>ada. ts_proxies ts ada = Some p
    \<and> (\<forall>a \<in> set (unwrap_chain p (unwrap_key_of (snd st'))). p_type a \<noteq> AT_Pass \<and> p_type a \<noteq> AT_Rematch)
    \<and> (md_NetWork (snd st') = UDP \<longrightarrow> p_udp p)"
proof -
  obtain ada where a: "applicable (ts_proxies ts) (snd st') ada p"
    using rematchLoop_result [OF assms(1) [unfolded tunnel_match_def]] assms(2) by auto
  have "scanChain as = LNone \<Longrightarrow> \<forall>a \<in> set as. p_type a \<noteq> AT_Pass \<and> p_type a \<noteq> AT_Rematch" for as
    by (induction as) (auto split: if_splits)
  then show ?thesis using a by (auto simp: applicable_def)
qed

theorem tunnel_match_usable_witness:
  "\<exists>rule st' ts' ada. tunnel_match 2 4 example_env 0 example_state (tunnel_helper example_tenv example_proxies True)
       (\<lparr>lk_resolved = False, lk_attemptProcessLookup = True\<rparr>, empty_metadata\<lparr>md_NetWork := UDP\<rparr>)
       = Ret ((Some direct_proxy, Some rule), st', ts')
     \<and> p_type direct_proxy \<noteq> AT_Rematch \<and> ts_proxies example_state ada = Some direct_proxy
     \<and> list_all (\<lambda>a. p_type a \<noteq> AT_Pass \<and> p_type a \<noteq> AT_Rematch)
         (unwrap_chain direct_proxy (unwrap_key_of (snd st')))
     \<and> md_NetWork (snd st') = UDP \<and> p_udp direct_proxy"
proof -
  let ?h = "tunnel_helper example_tenv example_proxies True"
  let ?st = "(\<lparr>lk_resolved = False, lk_attemptProcessLookup = True\<rparr>, empty_metadata\<lparr>md_NetWork := UDP\<rparr>)"
  have "\<exists>st' ts'. tunnel_match 2 4 example_env 0 example_state ?h ?st
      = Ret ((Some direct_proxy, Some (Base (RematchName [''second''] ''DIRECT'' ''second''))), st', ts')
      \<and> md_NetWork (snd st') = UDP"
    by (simp add: tunnel_match_def numeral_2_eq_2 getRules_def example_state_def example_subs_def
       NewRuleWrapper_def empty_metadata_def wrapperMatch_def RematchName_Match_def example_proxies_def
       again_proxy_def direct_proxy_def Let_def rematchDial_def applyMetadata_def putRules_def Hit_def Miss_def)
  then obtain st' ts' where run: "tunnel_match 2 4 example_env 0 example_state ?h ?st
      = Ret ((Some direct_proxy, Some (Base (RematchName [''second''] ''DIRECT'' ''second''))), st', ts')"
    and udp: "md_NetWork (snd st') = UDP"
    by blast
  have "p_type direct_proxy \<noteq> AT_Rematch" by (simp add: direct_proxy_def)
  with tunnel_match_usable [OF run] run udp show ?thesis unfolding list_all_iff by blast
qed

text \<open>the metadata is in normal form after the first step: the destination is not an
  IPv4-mapped address and the host is not the text of an address, and the step changes nothing
  when done again.\<close>

theorem fixMetadata_normal:
  "\<not> Is4In6 (md_DstIP (fixMetadata m)) \<and> ParseAddr (md_Host (fixMetadata m)) = None
   \<and> fixMetadata (fixMetadata m) = fixMetadata m"
proof -
  have u: "\<not> Is4In6 (Unmap a)" for a by (cases a) auto
  have e: "ParseAddr [] = None" by code_simp
  show ?thesis
    by (cases "ParseAddr (md_Host m)") (simp_all add: fixMetadata_def Let_def u e)
qed

text \<open>a fake address never survives: when the destination is a fake address of a known host,
  the connection continues with the host and without an address; when the host is unknown,
  the metadata is refused.\<close>

theorem preHandleMetadata_fake:
  assumes "needLookupIP te m" "te_IsFakeIP te (md_DstIP m)"
  shows "preHandleMetadata te m = (case te_FindHostByIP te (md_DstIP m) of
     Some host \<Rightarrow> Ret (None, m\<lparr>md_Host := host, md_DstIP := AddrInvalid, md_DNSMode := DNSFakeIP\<rparr>)
   | None \<Rightarrow> Ret (Some (''fake DNS record '' @ AddrString (md_DstIP m) @ '' missing''), m))"
  using assms by (simp add: preHandleMetadata_def Let_def split: option.split)

theorem preHandleMetadata_fake_witness:
  "preHandleMetadata example_tenv (empty_metadata\<lparr>md_DstIP := Addr4 7\<rparr>)
     = Ret (Some ''fake DNS record 0.0.0.7 missing'', empty_metadata\<lparr>md_DstIP := Addr4 7\<rparr>)"
proof -
  have "needLookupIP example_tenv (empty_metadata\<lparr>md_DstIP := Addr4 7\<rparr>)"
    "te_IsFakeIP example_tenv (md_DstIP (empty_metadata\<lparr>md_DstIP := Addr4 7\<rparr>))"
    by code_simp+
  moreover have "AddrString (Addr4 7) = ''0.0.0.7''" by code_simp
  ultimately show ?thesis
    using preHandleMetadata_fake [of example_tenv "empty_metadata\<lparr>md_DstIP := Addr4 7\<rparr>"]
    by (simp add: example_tenv_def)
qed

text \<open>a connection's host is resolved at most once and its process looked up at most once:
  calling either helper again changes nothing.\<close>

theorem helpers_idempotent:
  "helper_ResolveIP te (helper_ResolveIP te st) = helper_ResolveIP te st
   \<and> helper_FindProcess te (helper_FindProcess te st) = helper_FindProcess te st"
  by (simp add: helper_ResolveIP_def helper_FindProcess_def Let_def)

lemma retry_loop_spec:
  "retry_loop i ft wait = (r, c) \<Longrightarrow> i < 10 \<Longrightarrow> i < c \<and> c \<le> 10 \<and> r = ft (c - 1)
     \<and> (case r of Inr t \<Rightarrow> True | Inl err \<Rightarrow> c = 10 \<or> shouldStopRetry err \<or> \<not> wait (c - 1))
     \<and> (\<forall>j. i \<le> j \<and> j < c - 1 \<longrightarrow> (\<exists>err. ft j = Inl err \<and> \<not> shouldStopRetry err \<and> wait j))"
proof (induction i ft wait rule: retry_loop.induct)
  case (1 i ft wait)
  show ?case
  proof (cases "\<exists>err. ft i = Inl err \<and> \<not> shouldStopRetry err \<and> wait i \<and> Suc i < 10")
    case True
    then obtain err where e: "ft i = Inl err" "\<not> shouldStopRetry err" "wait i" "Suc i < 10" by auto
    with 1 have "retry_loop (Suc i) ft wait = (r, c)" by simp
    from "1.IH" [OF e(1,2) _ this e(4)] e show ?thesis by (auto simp: Suc_le_eq) (metis le_neq_implies_less)
  next
    case False
    with 1 show ?thesis by (auto split: sum.splits if_splits)
  qed
qed

text \<open>C33. Dialling is tried between one and ten times; the answer is that of the last try; every
  try before it failed with an error worth retrying and was followed by a wait that was not
  cancelled; and an error is given up on only after ten tries, when it is not worth retrying or
  when the wait was cancelled.\<close>

theorem retry_spec:
  assumes "retry ft wait = (r, c)"
  shows "1 \<le> c \<and> c \<le> 10 \<and> r = ft (c - 1)
     \<and> (case r of Inr t \<Rightarrow> True | Inl err \<Rightarrow> c = 10 \<or> shouldStopRetry err \<or> \<not> wait (c - 1))
     \<and> (\<forall>j < c - 1. \<exists>err. ft j = Inl err \<and> \<not> shouldStopRetry err \<and> wait j)"
  using retry_loop_spec [of 0 ft wait r c] assms by (auto simp: retry_def)

definition example_tries :: "nat \<Rightarrow> dial_error + nat" where
  "example_tries i = (if i < 3 then Inl (ErrOther ''timeout'') else Inr i)"

theorem retry_spec_witness:
  "retry example_tries (\<lambda>_. True) = (Inr 3, 4) \<and> Inr 3 = example_tries (4 - 1)
   \<and> (\<exists>err. example_tries 2 = Inl err \<and> \<not> shouldStopRetry err)"
proof -
  have r: "retry example_tries (\<lambda>_. True) = (Inr 3, 4)" by code_simp
  from retry_spec [OF this] have "Inr 3 = example_tries (4 - 1)"
    and all: "\<forall>j < 4 - 1. \<exists>err. example_tries j = Inl err \<and> \<not> shouldStopRetry err \<and> True" by blast+
  moreover from all [THEN spec, of 2] have "\<exists>err. example_tries 2 = Inl err \<and> \<not> shouldStopRetry err"
    by simp
  ultimately show ?thesis using r by simp
qed

section \<open>Handling a connection\<close>

text \<open>
  \<open>handleTCPConn\<close> up to the dial. \<open>sniff\<close> is the sniffer, when it is enabled: it answers whether
  it found a name and may change the metadata. A connection ends without a dial, or is dialled
  through an outbound with the given metadata.
\<close>

datatype tcp_action = Closed string | Dial "proxy option" "rule option" Metadata

definition dial_metadata :: "TunnelEnv \<Rightarrow> Metadata \<Rightarrow> Metadata outcome" where
  "dial_metadata te m =
     (if length (md_Host m) > 0 then
        obind (DefaultHosts_Search te (md_Host m) False) (\<lambda>(node, ok).
          if ok then
            obind (rand_ip te node) (\<lambda>dstIp.
              Ret (if \<not> te_IsFakeIP te dstIp
                   then Pure (m\<lparr>md_DstIP := dstIp, md_DNSMode := DNSHosts\<rparr>) else m))
          else Ret m)
      else Ret m)"

definition handleTCPConn :: "nat \<Rightarrow> nat \<Rightarrow> RuleEnv \<Rightarrow> TunnelEnv
    \<Rightarrow> (Metadata \<Rightarrow> bool \<times> Metadata) option \<Rightarrow> TunnelState \<Rightarrow> Metadata
    \<Rightarrow> (tcp_action \<times> TunnelState) outcome" where
  "handleTCPConn k n env te sniff ts m0 =
     (if \<not> isHandle ts (md_Type m0) then Ret (Closed ''not handled'', ts)
      else if \<not> MetadataValid m0 then Ret (Closed ''not valid'', ts)
      else obind (preHandleMetadata te (fixMetadata m0)) (\<lambda>(err, m1).
        let sniffed = (case sniff of None \<Rightarrow> (False, m1) | Some f \<Rightarrow> f m1);
            preHandleFailed = (err \<noteq> None \<and> \<not> fst sniffed);
            m2 = snd sniffed
        in if preHandleFailed then Ret (Closed ''failed to sniff a domain'', ts)
           else obind (resolveMetadata k n env te ts m2) (\<lambda>(r, m3, ts').
             case r of
               Inl e \<Rightarrow> Ret (Closed e, ts')
             | Inr (p, rule) \<Rightarrow>
                 obind (dial_metadata te m3) (\<lambda>dm. Ret (Dial p rule dm, ts')))))"

section \<open>Resolving keeps the connection's identity\<close>

definition identity :: "Metadata \<Rightarrow> Metadata" where
  "identity m = (frame True m)\<lparr>md_RematchName := [], md_SpecialRules := []\<rparr>"

lemma framed_identity: "framed b s t \<Longrightarrow> identity (snd s) = identity (snd t)"
proof -
  have e: "identity x = (frame b x)\<lparr>md_DstIP := AddrInvalid, md_RematchName := [], md_SpecialRules := []\<rparr>" for x
    by (simp add: identity_def frame_def core_def)
  show "framed b s t \<Longrightarrow> ?thesis" unfolding e by (simp add: framed_def)
qed

lemma identity_applyMetadata: "identity (applyMetadata p m) = identity m"
  by (simp add: identity_def applyMetadata_def frame_def core_def Let_def split: option.split)

lemma identity_DstIP: "identity (m\<lparr>md_DstIP := ip\<rparr>) = identity m"
  by (simp add: identity_def frame_def core_def)

lemma entryMatch_identity:
  assumes "framing_helper h" "entryMatch n env now e h st = Ret ((res, st'), e')"
  shows "identity (snd st') = identity (snd st)"
proof -
  have m: "ruleMatch n env r h st = Ret x \<Longrightarrow> identity (snd (snd x)) = identity (snd st)" for r x
    using framed_identity [OF ruleMatch_framed(1) [OF assms(1)]] by metis
  show ?thesis
    using assms(2) by (cases e) (auto simp: obind_eq_Ret wrapperMatch_def dest!: m split: if_splits)
qed

lemma first_match_identity:
  assumes "framing_helper h"
  shows "first_match n env now proxies h es st r st' es' \<Longrightarrow> identity (snd st') = identity (snd st)"
  by (induction rule: first_match.induct)
     (auto simp: skips_def dest!: entryMatch_identity [OF assms])

lemma rematchLoop_identity:
  assumes "framing_helper h"
  shows "rematchLoop k n env now ts h chain st = Ret (x, st', ts') \<Longrightarrow> identity (snd st') = identity (snd st)"
proof (induction k arbitrary: ts chain st)
  case (Suc k)
  from Suc.prems obtain r st1 es1 where s: "scanRules n (rule_env env ts) now (ts_proxies ts) h
      (getRules ts (snd st)) st = Ret (r, st1, es1)"
    by (auto simp: obind_eq_Ret)
  note i = first_match_identity [OF assms scanRules_first_match [OF s]]
  show ?case
    using Suc.prems i
    by (auto simp: s Let_def rematchDial_def identity_applyMetadata dest: Suc.IH
        split: scan.splits if_splits)
qed simp

lemma identity_fields:
  assumes "identity m = identity m'"
  shows "md_NetWork m' = md_NetWork m" "md_Type m' = md_Type m" "md_SrcIP m' = md_SrcIP m"
    "md_SrcPort m' = md_SrcPort m" "md_DstPort m' = md_DstPort m" "md_Host m' = md_Host m"
    "md_InPort m' = md_InPort m" "md_InName m' = md_InName m" "md_InUser m' = md_InUser m"
    "md_DSCP m' = md_DSCP m"
proof -
  note e = arg_cong [OF assms]
  note d = identity_def frame_def core_def
  show "md_NetWork m' = md_NetWork m" using e [of md_NetWork] by (simp add: d)
  show "md_Type m' = md_Type m" using e [of md_Type] by (simp add: d)
  show "md_SrcIP m' = md_SrcIP m" using e [of md_SrcIP] by (simp add: d)
  show "md_SrcPort m' = md_SrcPort m" using e [of md_SrcPort] by (simp add: d)
  show "md_DstPort m' = md_DstPort m" using e [of md_DstPort] by (simp add: d)
  show "md_Host m' = md_Host m" using e [of md_Host] by (simp add: d)
  show "md_InPort m' = md_InPort m" using e [of md_InPort] by (simp add: d)
  show "md_InName m' = md_InName m" using e [of md_InName] by (simp add: d)
  show "md_InUser m' = md_InUser m" using e [of md_InUser] by (simp add: d)
  show "md_DSCP m' = md_DSCP m" using e [of md_DSCP] by (simp add: d)
qed

text \<open>choosing an outbound, re-matching included, never changes who is connecting and where:
  network, inbound, source, ports and host are those of the connection.\<close>

theorem resolveMetadata_identity:
  assumes "resolveMetadata k n env te ts m = Ret (r, m', ts')"
  shows "md_NetWork m' = md_NetWork m \<and> md_Type m' = md_Type m \<and> md_SrcIP m' = md_SrcIP m
    \<and> md_SrcPort m' = md_SrcPort m \<and> md_DstPort m' = md_DstPort m \<and> md_Host m' = md_Host m
    \<and> md_InPort m' = md_InPort m \<and> md_InName m' = md_InName m \<and> md_InUser m' = md_InUser m"
proof -
  have p: "identity (snd (helper_FindProcess te st)) = identity (snd st)" for st
    using framed_identity [OF helper_FindProcess_framed [of True st te]] by simp
  have t: "identity (snd st') = identity (snd st)"
    if "tunnel_match k n env (te_now te) ts (tunnel_helper te px b) st = Ret (x, st', ts2)"
    for st st' x ts2 px b
    using rematchLoop_identity [OF tunnel_framing.framing_helper_axioms] that
    by (auto simp: tunnel_match_def)
  have "identity m' = identity m"
    using assms
    by (auto simp: resolveMetadata_def obind_eq_Ret Let_def identity_DstIP p
        dest!: t split: if_splits option.splits TunnelMode.splits)
  from identity_fields [OF this] show ?thesis by simp
qed

theorem resolveMetadata_identity_witness:
  "\<exists>r m' ts'. resolveMetadata 2 4 example_env example_tenv example_state
       (empty_metadata\<lparr>md_SrcIP := Addr4 5, md_DstIP := Addr4 6, md_SrcPort := 99\<rparr>) = Ret (r, m', ts')
     \<and> md_SrcIP m' = Addr4 5 \<and> md_SrcPort m' = 99 \<and> md_RematchName m' = ''second''"
proof -
  let ?m = "empty_metadata\<lparr>md_SrcIP := Addr4 5, md_DstIP := Addr4 6, md_SrcPort := 99\<rparr>"
  have "\<exists>r m' ts'. resolveMetadata 2 4 example_env example_tenv example_state ?m = Ret (r, m', ts')
      \<and> md_RematchName m' = ''second''"
    by (simp add: resolveMetadata_def DefaultHosts_Search_def hostsSearch_def value_of_def
        example_tenv_def tunnel_helper_def tunnel_match_def numeral_2_eq_2 getRules_def
        example_state_def example_subs_def NewRuleWrapper_def empty_metadata_def wrapperMatch_def
        RematchName_Match_def example_proxies_def again_proxy_def direct_proxy_def Let_def
        rematchDial_def applyMetadata_def putRules_def Hit_def Miss_def)
  then obtain r m' ts' where e: "resolveMetadata 2 4 example_env example_tenv example_state ?m = Ret (r, m', ts')"
    and n: "md_RematchName m' = ''second''" by blast
  from resolveMetadata_identity [OF e] n show ?thesis
    using e by (simp add: empty_metadata_def)
qed

end
