(* ===== verification/LruCache.thy ===== *)
theory LruCache
  imports Go_Prelude
begin

text \<open>
  The least-recently-used cache (src/common/lru/lrucache.go). The linked list of entries, its
  front the least recent, is a list; the map from keys to list elements is an index of it and is
  not stored apart. The theory LruHeap models both structures with their pointers and shows that they
  stay in step and behave like the list alone. The current Unix time in seconds is an argument \<open>now\<close>
  of the operations that read it; times and ages are integers, where the code has \<open>int64\<close>, whose sums
  stay below the bound for any age shorter than 292 billion years. Calls of the eviction callback are
  appended to the field \<open>evicted\<close> when a callback is set.
\<close>

section \<open>State\<close>

record ('k, 'v) lru_entry =
  e_key :: 'k
  e_value :: 'v
  e_expires :: int

record ('k, 'v) LruCache =
  maxAge :: int
  maxSize :: int
  lru :: "('k, 'v) lru_entry list"
  updateAgeOnGet :: bool
  staleReturn :: bool
  onEvict :: bool
  evicted :: "('k \<times> 'v) list"

datatype lru_option =
    WithEvict
  | WithUpdateAgeOnGet
  | WithAge int
  | WithSize int
  | WithStale bool

fun apply_option :: "lru_option \<Rightarrow> ('k, 'v) LruCache \<Rightarrow> ('k, 'v) LruCache" where
  "apply_option WithEvict l = l\<lparr>onEvict := True\<rparr>"
| "apply_option WithUpdateAgeOnGet l = l\<lparr>updateAgeOnGet := True\<rparr>"
| "apply_option (WithAge age) l = l\<lparr>maxAge := age\<rparr>"
| "apply_option (WithSize sz) l = l\<lparr>maxSize := sz\<rparr>"
| "apply_option (WithStale stale) l = l\<lparr>staleReturn := stale\<rparr>"

definition NewCache :: "lru_option list \<Rightarrow> ('k, 'v) LruCache" where
  "NewCache options = fold apply_option options
     \<lparr>maxAge = 0, maxSize = 0, lru = [], updateAgeOnGet = False, staleReturn = False,
      onEvict = False, evicted = []\<rparr>"

definition Clear :: "('k, 'v) LruCache \<Rightarrow> ('k, 'v) LruCache" where
  "Clear c = c\<lparr>lru := []\<rparr>"

definition cached :: "('k, 'v) LruCache \<Rightarrow> 'k \<Rightarrow> ('k, 'v) lru_entry option" where
  "cached c key = find (\<lambda>e. e_key e = key) (lru c)"

definition without :: "'k \<Rightarrow> ('k, 'v) lru_entry list \<Rightarrow> ('k, 'v) lru_entry list" where
  "without key es = filter (\<lambda>e. e_key e \<noteq> key) es"

section \<open>Operations\<close>

definition deleteElement :: "('k, 'v) lru_entry \<Rightarrow> ('k, 'v) LruCache \<Rightarrow> ('k, 'v) LruCache" where
  "deleteElement e c =
     (let c1 = c\<lparr>lru := without (e_key e) (lru c)\<rparr>
      in if onEvict c then c1\<lparr>evicted := evicted c @ [(e_key e, e_value e)]\<rparr> else c1)"

lemma deleteElement_lru [simp]: "lru (deleteElement e c) = without (e_key e) (lru c)"
  by (simp add: deleteElement_def Let_def)

lemma deleteElement_params [simp]:
  "maxAge (deleteElement e c) = maxAge c" "maxSize (deleteElement e c) = maxSize c"
  "staleReturn (deleteElement e c) = staleReturn c"
  "updateAgeOnGet (deleteElement e c) = updateAgeOnGet c"
  by (simp_all add: deleteElement_def Let_def)

text \<open>The loop deletes the front entry as long as it has expired.\<close>

function deleteOldest_loop :: "int \<Rightarrow> ('k, 'v) LruCache \<Rightarrow> ('k, 'v) LruCache" where
  "deleteOldest_loop now c = (case lru c of
     [] \<Rightarrow> c
   | e # es \<Rightarrow> (if e_expires e \<le> now then deleteOldest_loop now (deleteElement e c) else c))"
  by pat_completeness auto
termination
  by (relation "measure (\<lambda>(now, c). length (lru c))")
    (auto simp: without_def le_imp_less_Suc length_filter_le)

declare deleteOldest_loop.simps [simp del]

definition maybeDeleteOldest :: "int \<Rightarrow> ('k, 'v) LruCache \<Rightarrow> ('k, 'v) LruCache" where
  "maybeDeleteOldest now c =
     (if \<not> staleReturn c \<and> maxAge c > 0 then deleteOldest_loop now c else c)"

definition cache_delete :: "'k \<Rightarrow> ('k, 'v) LruCache \<Rightarrow> ('k, 'v) LruCache" where
  "cache_delete key c = (case cached c key of None \<Rightarrow> c | Some e \<Rightarrow> deleteElement e c)"

text \<open>\<open>get\<close> returns the entry after its expiry may have been refreshed.\<close>

definition cache_get :: "int \<Rightarrow> 'k \<Rightarrow> ('k, 'v) LruCache
    \<Rightarrow> ('k, 'v) lru_entry option \<times> ('k, 'v) LruCache" where
  "cache_get now key c = (case cached c key of
     None \<Rightarrow> (None, c)
   | Some e \<Rightarrow>
       (if \<not> staleReturn c \<and> maxAge c > 0 \<and> e_expires e \<le> now
        then (None, maybeDeleteOldest now (deleteElement e c))
        else
          (let e1 = (if maxAge c > 0 \<and> updateAgeOnGet c then e\<lparr>e_expires := now + maxAge c\<rparr> else e)
           in (Some e1, c\<lparr>lru := without key (lru c) @ [e1]\<rparr>))))"

definition setWithExpire :: "int \<Rightarrow> 'k \<Rightarrow> 'v \<Rightarrow> int \<Rightarrow> ('k, 'v) LruCache \<Rightarrow> ('k, 'v) LruCache" where
  "setWithExpire now key val expires c =
     (let e = \<lparr>e_key = key, e_value = val, e_expires = expires\<rparr>;
          c1 = c\<lparr>lru := without key (lru c) @ [e]\<rparr>;
          c2 = (if cached c key \<noteq> None then c1
                else if maxSize c > 0 \<and> int (length (lru c1)) > maxSize c
                then deleteElement (hd (lru c1)) c1 else c1)
      in maybeDeleteOldest now c2)"

definition cache_set :: "int \<Rightarrow> 'k \<Rightarrow> 'v \<Rightarrow> ('k, 'v) LruCache \<Rightarrow> ('k, 'v) LruCache" where
  "cache_set now key val c =
     (let expires = (if maxAge c > 0 then now + maxAge c else 0)
      in setWithExpire now key val expires c)"

definition Get :: "int \<Rightarrow> 'k \<Rightarrow> ('k, 'v) LruCache \<Rightarrow> 'v option \<times> ('k, 'v) LruCache" where
  "Get now key c = (case cache_get now key c of (el, c1) \<Rightarrow> (map_option e_value el, c1))"

definition GetOrStore :: "int \<Rightarrow> 'k \<Rightarrow> 'v \<Rightarrow> ('k, 'v) LruCache
    \<Rightarrow> ('v \<times> bool) \<times> ('k, 'v) LruCache" where
  "GetOrStore now key constructed c = (case cache_get now key c of
     (None, c1) \<Rightarrow> ((constructed, False), cache_set now key constructed c1)
   | (Some el, c1) \<Rightarrow> ((e_value el, True), c1))"

definition GetWithExpire :: "int \<Rightarrow> 'k \<Rightarrow> ('k, 'v) LruCache
    \<Rightarrow> ('v \<times> int) option \<times> ('k, 'v) LruCache" where
  "GetWithExpire now key c = (case cache_get now key c of
     (None, c1) \<Rightarrow> (None, c1)
   | (Some el, c1) \<Rightarrow> (Some (e_value el, e_expires el), c1))"

definition Exist :: "'k \<Rightarrow> ('k, 'v) LruCache \<Rightarrow> bool" where
  "Exist key c = (cached c key \<noteq> None)"

definition Set :: "int \<Rightarrow> 'k \<Rightarrow> 'v \<Rightarrow> ('k, 'v) LruCache \<Rightarrow> ('k, 'v) LruCache" where
  "Set now key val c = cache_set now key val c"

definition SetWithExpire :: "int \<Rightarrow> 'k \<Rightarrow> 'v \<Rightarrow> int \<Rightarrow> ('k, 'v) LruCache \<Rightarrow> ('k, 'v) LruCache" where
  "SetWithExpire now key val expires c = setWithExpire now key val expires c"

definition Delete :: "'k \<Rightarrow> ('k, 'v) LruCache \<Rightarrow> ('k, 'v) LruCache" where
  "Delete key c = cache_delete key c"

text \<open>
  \<open>CloneTo\<close> pushes the entries of \<open>c\<close> on a fresh list of \<open>n\<close>. The source pushes the entry
  pointers, so that the two caches share the entries afterwards; the definition gives the
  contents of \<open>n\<close> right after the call.
\<close>

definition CloneTo :: "('k, 'v) LruCache \<Rightarrow> ('k, 'v) LruCache \<Rightarrow> ('k, 'v) LruCache" where
  "CloneTo c n = n\<lparr>lru := lru c\<rparr>"

text \<open>\<open>valueFn\<close> maps the old value, if any, to a new one or to a request to delete.\<close>

definition Compute :: "int \<Rightarrow> 'k \<Rightarrow> ('v option \<Rightarrow> 'v option) \<Rightarrow> ('k, 'v) LruCache
    \<Rightarrow> 'v option \<times> ('k, 'v) LruCache" where
  "Compute now key valueFn c = (case cache_get now key c of
     (el, c1) \<Rightarrow> (case valueFn (map_option e_value el) of
         None \<Rightarrow> (None, if el \<noteq> None then cache_delete key c1 else c1)
       | Some newValue \<Rightarrow> (Some newValue, cache_set now key newValue c1)))"

section \<open>Invariant\<close>

definition keys_of :: "('k, 'v) lru_entry list \<Rightarrow> 'k list" where
  "keys_of es = map e_key es"

text \<open>No key occurs twice, and a bounded cache holds no more than its bound.\<close>

definition cache_inv :: "('k, 'v) LruCache \<Rightarrow> bool" where
  "cache_inv c = (distinct (keys_of (lru c)) \<and> (maxSize c > 0 \<longrightarrow> int (length (lru c)) \<le> maxSize c))"

lemma without_set [simp]: "set (without k es) = {e \<in> set es. e_key e \<noteq> k}"
  by (simp add: without_def)

lemma without_id: "k \<notin> set (keys_of es) \<Longrightarrow> without k es = es"
  by (auto simp: without_def keys_of_def filter_id_conv)

lemma keys_without: "keys_of (without k es) = filter (\<lambda>x. x \<noteq> k) (keys_of es)"
  by (simp add: keys_of_def without_def filter_map o_def)

lemma length_without_le: "length (without k es) \<le> length es"
  by (simp add: without_def)

lemma length_without_less: "k \<in> set (keys_of es) \<Longrightarrow> length (without k es) < length es"
  by (auto simp: without_def keys_of_def intro: length_filter_less)

lemma cached_None: "cached c k = None \<longleftrightarrow> k \<notin> set (keys_of (lru c))"
  by (auto simp: cached_def find_None_iff keys_of_def)

lemma cached_Some: "cached c k = Some e \<Longrightarrow> e \<in> set (lru c) \<and> e_key e = k"
  by (auto simp: cached_def find_Some_iff)

lemma deleteElement_inv: "cache_inv c \<Longrightarrow> cache_inv (deleteElement e c)"
  using length_without_le [of "e_key e" "lru c"]
  by (auto simp: cache_inv_def keys_without)

lemma deleteOldest_loop_inv: "cache_inv c \<Longrightarrow> cache_inv (deleteOldest_loop now c)"
proof (induction now c rule: deleteOldest_loop.induct)
  case (1 now c)
  then show ?case
    by (subst deleteOldest_loop.simps) (auto split: list.split intro: deleteElement_inv)
qed

lemma maybeDeleteOldest_inv: "cache_inv c \<Longrightarrow> cache_inv (maybeDeleteOldest now c)"
  by (simp add: maybeDeleteOldest_def deleteOldest_loop_inv)

lemma cache_delete_inv: "cache_inv c \<Longrightarrow> cache_inv (cache_delete k c)"
  by (simp add: cache_delete_def deleteElement_inv split: option.split)

lemma keys_of_append [simp]: "keys_of (xs @ ys) = keys_of xs @ keys_of ys"
  by (simp add: keys_of_def)

lemma keys_of_Cons [simp]: "keys_of (x # xs) = e_key x # keys_of xs" "keys_of [] = []"
  by (simp_all add: keys_of_def)

lemma move_to_back_inv:
  assumes "cache_inv c" "k \<in> set (keys_of (lru c))" "e_key e1 = k"
  shows "cache_inv (c\<lparr>lru := without k (lru c) @ [e1]\<rparr>)"
  using length_without_less [of k "lru c"] assms by (auto simp: cache_inv_def keys_without)

lemma cached_Some_key: "cached c k = Some e \<Longrightarrow> k \<in> set (keys_of (lru c))"
  using cached_None [of c k] by simp

lemma cache_get_inv:
  assumes "cache_inv c"
  shows "cache_inv (snd (cache_get now k c))"
proof (cases "cached c k")
  case None
  with assms show ?thesis by (simp add: cache_get_def)
next
  case (Some e)
  with assms cached_Some [OF Some] cached_Some_key [OF Some] show ?thesis
    by (auto simp: cache_get_def Let_def maybeDeleteOldest_inv deleteElement_inv
        intro!: move_to_back_inv)
qed

lemma push_back_inv:
  assumes "cache_inv c" "k \<notin> set (keys_of (lru c))" "e_key e = k"
  shows "cache_inv (let c1 = c\<lparr>lru := lru c @ [e]\<rparr> in
    if maxSize c > 0 \<and> int (length (lru c1)) > maxSize c then deleteElement (hd (lru c1)) c1 else c1)"
proof -
  have d: "distinct (keys_of (lru c @ [e]))"
    using assms by (auto simp: cache_inv_def)
  have "hd (lru c @ [e]) \<in> set (lru c @ [e])" by (intro hd_in_set) simp
  then have "e_key (hd (lru c @ [e])) \<in> set (keys_of (lru c @ [e]))"
    unfolding keys_of_def set_map by (rule imageI)
  from length_without_less [OF this] show ?thesis
    using assms d by (auto simp: cache_inv_def Let_def keys_without)
qed

lemma setWithExpire_inv: "cache_inv c \<Longrightarrow> cache_inv (setWithExpire now k v x c)"
proof (cases "cached c k")
  case None
  assume "cache_inv c"
  with None show ?thesis
    using push_back_inv [of c k "\<lparr>e_key = k, e_value = v, e_expires = x\<rparr>"]
    by (simp add: setWithExpire_def Let_def without_id cached_None maybeDeleteOldest_inv)
next
  case (Some e)
  assume "cache_inv c"
  with Some show ?thesis
    using cached_Some_key [OF Some] move_to_back_inv [of c k "\<lparr>e_key = k, e_value = v, e_expires = x\<rparr>"]
    by (simp add: setWithExpire_def Let_def maybeDeleteOldest_inv)
qed

lemma cache_set_inv: "cache_inv c \<Longrightarrow> cache_inv (cache_set now k v c)"
  by (simp add: cache_set_def Let_def setWithExpire_inv)



section \<open>Contents\<close>

lemma find_without: "find (\<lambda>e. e_key e = k) (without j es)
    = (if k = j then None else find (\<lambda>e. e_key e = k) es)"
  by (induction es) (auto simp: without_def find_None_iff)

lemma without_append [simp]: "without k (xs @ ys) = without k xs @ without k ys"
  by (simp add: without_def)

lemma without_Cons [simp]:
  "without k (e # es) = (if e_key e = k then without k es else e # without k es)" "without k [] = []"
  by (simp_all add: without_def)

lemma cached_deleteElement:
  "cached (deleteElement e c) k = (if k = e_key e then None else cached c k)"
  by (simp add: cached_def find_without)

text \<open>The loop of \<open>maybeDeleteOldest\<close> removes a prefix of expired entries.\<close>

lemma deleteOldest_loop_front:
  assumes "distinct (keys_of (lru c))"
  shows "\<exists>xs. lru c = xs @ lru (deleteOldest_loop now c) \<and> (\<forall>e\<in>set xs. e_expires e \<le> now)"
  using assms
proof (induction now c rule: deleteOldest_loop.induct)
  case (1 now c)
  show ?case
  proof (cases "lru c")
    case Nil
    then show ?thesis by (subst deleteOldest_loop.simps) simp
  next
    case (Cons e es)
    with "1.prems" have w: "without (e_key e) (lru c) = es" by (simp add: without_id)
    show ?thesis
    proof (cases "e_expires e \<le> now")
      case False
      with Cons show ?thesis by (subst deleteOldest_loop.simps) simp
    next
      case True
      have "\<exists>xs. es = xs @ lru (deleteOldest_loop now (deleteElement e c))
          \<and> (\<forall>e\<in>set xs. e_expires e \<le> now)"
        using "1.IH" [OF Cons True] "1.prems" w by (simp add: Cons)
      then obtain xs where "es = xs @ lru (deleteOldest_loop now (deleteElement e c))"
        "\<forall>e\<in>set xs. e_expires e \<le> now" by blast
      with True Cons show ?thesis
        by (intro exI [of _ "e # xs"]) (subst deleteOldest_loop.simps, simp)
    qed
  qed
qed

text \<open>An entry that has not expired survives it.\<close>

lemma maybeDeleteOldest_keeps:
  assumes inv: "distinct (keys_of (lru c))" and e: "cached c k = Some e"
    and fresh: "staleReturn c \<or> maxAge c \<le> 0 \<or> now < e_expires e"
  shows "cached (maybeDeleteOldest now c) k = Some e"
proof (cases "\<not> staleReturn c \<and> maxAge c > 0")
  case False
  with e show ?thesis by (simp only: maybeDeleteOldest_def if_False)
next
  case True
  with fresh have live: "now < e_expires e" by auto
  obtain xs where xs: "lru c = xs @ lru (deleteOldest_loop now c)"
      and old: "\<forall>x\<in>set xs. e_expires x \<le> now"
    using deleteOldest_loop_front [OF inv] by blast
  from cached_Some [OF e] have "e \<in> set (lru c)" "e_key e = k" by auto
  with old live have "e \<notin> set xs" by auto
  have "find (\<lambda>x. e_key x = k) xs = None"
  proof (rule ccontr)
    assume "\<not> ?thesis"
    then obtain x where x: "find (\<lambda>x. e_key x = k) xs = Some x" by blast
    moreover from e xs have "find (\<lambda>x. e_key x = k) (xs @ lru (deleteOldest_loop now c)) = Some e"
      by (simp add: cached_def)
    ultimately have "x = e" by (simp add: find_append)
    with x \<open>e \<notin> set xs\<close> show False by (auto simp: find_Some_iff)
  qed
  with e xs True show ?thesis
    by (simp add: maybeDeleteOldest_def cached_def) (metis find_append option.simps(4))
qed

lemma cached_set_back: "cached (c\<lparr>lru := without k (lru c) @ [e]\<rparr>) j
    = (if e_key e = k then (if j = k then Some e else cached c j)
       else if j = k then (if e_key e = j then Some e else None)
       else case cached c j of None \<Rightarrow> (if e_key e = j then Some e else None) | Some x \<Rightarrow> Some x)"
  by (auto simp: cached_def find_append find_without split: option.split)

lemma setWithExpire_cached:
  assumes "cache_inv c" "staleReturn c \<or> maxAge c \<le> 0 \<or> now < x"
  shows "cached (setWithExpire now k v x c) k
    = Some \<lparr>e_key = k, e_value = v, e_expires = x\<rparr>"
proof -
  let ?e = "\<lparr>e_key = k, e_value = v, e_expires = x\<rparr>"
  let ?c1 = "c\<lparr>lru := without k (lru c) @ [?e]\<rparr>"
  let ?c2 = "if cached c k \<noteq> None then ?c1
     else if maxSize c > 0 \<and> int (length (lru ?c1)) > maxSize c then deleteElement (hd (lru ?c1)) ?c1 else ?c1"
  have s: "setWithExpire now k v x c = maybeDeleteOldest now ?c2"
    by (simp add: setWithExpire_def Let_def)
  have c1: "cached ?c1 k = Some ?e" by (simp add: cached_set_back)
  have d1: "distinct (keys_of (lru ?c1))"
    using assms(1) by (simp add: cache_inv_def keys_without)
  have h: "e_key (hd (lru ?c1)) \<noteq> k" if l: "length (lru ?c1) > 1"
  proof -
    from l have ne: "without k (lru c) \<noteq> []" by auto
    from hd_in_set [OF ne] ne show ?thesis by simp
  qed
  have c2: "cached ?c2 k = Some ?e"
  proof (cases "maxSize c > 0 \<and> int (length (lru ?c1)) > maxSize c")
    case True
    then have "length (lru ?c1) > 1" by linarith
    from h [OF this] c1 show ?thesis by (simp add: cached_deleteElement)
  qed (use c1 in auto)
  have d2: "distinct (keys_of (lru ?c2))"
    using assms(1) d1 by (auto simp: cache_inv_def keys_without)
  show ?thesis unfolding s
    by (rule maybeDeleteOldest_keeps [OF d2 c2]) (use assms(2) in simp)
qed

text \<open>What a lookup answers, and what it does to the other keys.\<close>

lemma Get_live:
  assumes "cached c k = Some e" "staleReturn c \<or> maxAge c \<le> 0 \<or> now < e_expires e"
  shows "fst (Get now k c) = Some (e_value e)"
  using assms by (auto simp: Get_def cache_get_def Let_def)

lemma setWithExpire_params [simp]:
  "staleReturn (setWithExpire now k v x c) = staleReturn c"
  "maxAge (setWithExpire now k v x c) = maxAge c"
  "maxSize (setWithExpire now k v x c) = maxSize c"
proof -
  have "staleReturn (deleteOldest_loop now d) = staleReturn d
      \<and> maxAge (deleteOldest_loop now d) = maxAge d
      \<and> maxSize (deleteOldest_loop now d) = maxSize d" for d :: "('a, 'b) LruCache"
    by (induction now d rule: deleteOldest_loop.induct)
      (subst (1 2 3) deleteOldest_loop.simps, auto split: list.split)
  then show "staleReturn (setWithExpire now k v x c) = staleReturn c"
    "maxAge (setWithExpire now k v x c) = maxAge c"
    "maxSize (setWithExpire now k v x c) = maxSize c"
    by (simp_all add: setWithExpire_def Let_def maybeDeleteOldest_def)
qed

section \<open>Reachable caches\<close>

text \<open>
  The calls of a cache that change it. \<open>CloneTo\<close> is not among them: it gives the other cache the entries
  of this one without regard to its size (\<open>CloneTo_exceeds_size\<close> in LruHeap).
\<close>

datatype ('k, 'v) lru_op =
    OpGet 'k
  | OpGetOrStore 'k 'v
  | OpGetWithExpire 'k
  | OpSet 'k 'v
  | OpSetWithExpire 'k 'v int
  | OpDelete 'k
  | OpCompute 'k "'v option \<Rightarrow> 'v option"
  | OpClear

fun lru_step :: "int \<times> ('k, 'v) lru_op \<Rightarrow> ('k, 'v) LruCache \<Rightarrow> ('k, 'v) LruCache" where
  "lru_step (now, OpGet k) c = snd (Get now k c)"
| "lru_step (now, OpGetOrStore k v) c = snd (GetOrStore now k v c)"
| "lru_step (now, OpGetWithExpire k) c = snd (GetWithExpire now k c)"
| "lru_step (now, OpSet k v) c = Set now k v c"
| "lru_step (now, OpSetWithExpire k v x) c = SetWithExpire now k v x c"
| "lru_step (now, OpDelete k) c = Delete k c"
| "lru_step (now, OpCompute k f) c = snd (Compute now k f c)"
| "lru_step (now, OpClear) c = Clear c"

lemma lru_step_inv: "cache_inv c \<Longrightarrow> cache_inv (lru_step op c)"
proof (cases op)
  case (Pair now oper)
  assume c: "cache_inv c"
  have g: "cache_inv c1" if "cache_get now k c = (r, c1)" for k r c1
    using cache_get_inv [OF c, of now k] that by simp
  show ?thesis unfolding Pair
    by (cases oper)
      (use c g in \<open>auto simp: Get_def GetOrStore_def GetWithExpire_def Set_def SetWithExpire_def
        Delete_def Compute_def Clear_def cache_set_inv setWithExpire_inv cache_delete_inv
        split: prod.split option.split\<close>, simp add: cache_inv_def)
qed

lemma NewCache_empty: "lru (NewCache opts) = []"
proof -
  have "lru (fold apply_option opts c) = lru c" for c :: "('a, 'b) LruCache"
  proof (induction opts arbitrary: c)
    case (Cons x opts)
    then show ?case by (cases x) auto
  qed simp
  then show ?thesis by (simp add: NewCache_def)
qed

section \<open>Properties\<close>

text \<open>
  Whatever options a cache is made with, and whatever sequence of the operations above runs on it at
  whatever times, no key is stored twice and a cache with a size bound never holds more entries
  than its bound.
\<close>

lemma lru_reachable_inv: "cache_inv (fold lru_step ops (NewCache opts))"
proof -
  have "cache_inv c \<Longrightarrow> cache_inv (fold lru_step ops c)" for c :: "('a, 'b) LruCache"
    by (induction ops arbitrary: c) (auto simp: lru_step_inv)
  moreover have "cache_inv (NewCache opts :: ('a, 'b) LruCache)"
    by (simp add: cache_inv_def NewCache_empty)
  ultimately show ?thesis by blast
qed

text \<open>
  A value that was set is found by a later lookup of its key, as long as its age has not
  passed; in a cache without an age, or one that returns stale values, always.
\<close>

theorem Get_after_Set:
  assumes "cache_inv c" "maxAge c \<le> 0 \<or> staleReturn c \<or> later < now + maxAge c"
  shows "fst (Get later k (Set now k v c)) = Some v"
proof -
  let ?x = "if maxAge c > 0 then now + maxAge c else 0"
  have "cached (Set now k v c) k = Some \<lparr>e_key = k, e_value = v, e_expires = ?x\<rparr>"
    unfolding Set_def cache_set_def Let_def by (rule setWithExpire_cached) (use assms in auto)
  then show ?thesis
    by (rule Get_live [THEN trans]) (use assms in \<open>auto simp: Set_def cache_set_def Let_def\<close>)
qed

theorem Get_after_Set_witness:
  "fst (Get 9 ''a'' (Set 5 ''a'' (1 :: int) (NewCache [WithAge 10, WithSize 1]))) = Some 1"
  by (rule Get_after_Set) code_simp+

text \<open>
  Storing a new key in a full cache without an age evicts exactly the entry that was used
  longest ago; every other entry is kept, and the new one becomes the most recent.
\<close>

theorem Set_evicts_oldest:
  assumes "cache_inv c" "maxAge c \<le> 0" "lru c = e # es" "maxSize c = int (length (lru c))"
    and "\<not> Exist k c"
  shows "lru (Set now k v c) = es @ [\<lparr>e_key = k, e_value = v, e_expires = 0\<rparr>]"
proof -
  from assms(5) have k: "k \<notin> set (keys_of (e # es))"
    by (simp add: Exist_def cached_None assms(3))
  moreover from assms(1,3) have "e_key e \<notin> set (keys_of es)" by (simp add: cache_inv_def)
  ultimately show ?thesis using assms
    by (auto simp: Set_def cache_set_def setWithExpire_def Let_def maybeDeleteOldest_def
        Exist_def without_id)
qed

theorem Set_evicts_oldest_witness:
  "map e_key (lru (Set 0 ''c'' (3 :: int)
     (snd (Get 0 ''a'' (Set 0 ''b'' 2 (Set 0 ''a'' 1 (NewCache [WithSize 2]))))))) = [''a'', ''c'']"
  by (subst Set_evicts_oldest [where e = "\<lparr>e_key = ''b'', e_value = 2, e_expires = 0\<rparr>"
        and es = "[\<lparr>e_key = ''a'', e_value = 1, e_expires = 0\<rparr>]"]) code_simp+

text \<open>
  The comment of \<open>GetWithExpire\<close> says that it neither checks the age of an entry nor updates
  its expiry. It does both: an expired entry is reported missing and deleted, and with
  \<open>WithUpdateAgeOnGet\<close> the returned expiry is a new one.
\<close>

theorem GetWithExpire_checks_age:
  "fst (GetWithExpire 9 ''a'' (SetWithExpire 0 ''a'' (1 :: int) 5 (NewCache [WithAge 10]))) = None
   \<and> fst (GetWithExpire 3 ''a''
        (SetWithExpire 0 ''a'' (1 :: int) 5 (NewCache [WithAge 10, WithUpdateAgeOnGet]))) = Some (1, 13)"
  by code_simp

end
