(* ===== verification/LruHeap.thy ===== *)
theory LruHeap
  imports LruCache
begin

text \<open>
  The cache of src/common/lru/lrucache.go as it lies in memory: entries are objects behind pointers, the
  field \<open>cache\<close> maps a key to a list element and the field \<open>lru\<close> is the list, its front the least recent.
  A heap holds the entries; an element of a list is named by the address of its entry, which the list
  of a cache holds once. Two caches on one heap may share entries, as they do after \<open>CloneTo\<close>.

  The clock, in seconds, is an argument, read once for a call; times and \<open>maxAge\<close> are unbounded integers.

  The theory LruCache keeps the list of entries alone. Here every operation on the two structures is
  shown to do to the list what the operation of LruCache does, and to keep the map and the list in step.
\<close>

section \<open>State\<close>

record ('k, 'v) lru_heap =
  ents :: "nat \<Rightarrow> ('k, 'v) lru_entry"
  fresh :: nat

record ('k, 'v) hcache =
  h_maxAge :: int
  h_maxSize :: int
  h_cache :: "'k \<rightharpoonup> nat"
  h_lru :: "nat list"
  h_updateAgeOnGet :: bool
  h_staleReturn :: bool
  h_onEvict :: bool
  h_evicted :: "('k \<times> 'v) list"

type_synonym ('k, 'v) hstate = "('k, 'v) lru_heap \<times> ('k, 'v) hcache"

fun h_option :: "lru_option \<Rightarrow> ('k, 'v) hcache \<Rightarrow> ('k, 'v) hcache" where
  "h_option WithEvict l = l\<lparr>h_onEvict := True\<rparr>"
| "h_option WithUpdateAgeOnGet l = l\<lparr>h_updateAgeOnGet := True\<rparr>"
| "h_option (WithAge age) l = l\<lparr>h_maxAge := age\<rparr>"
| "h_option (WithSize sz) l = l\<lparr>h_maxSize := sz\<rparr>"
| "h_option (WithStale stale) l = l\<lparr>h_staleReturn := stale\<rparr>"

definition h_New :: "lru_option list \<Rightarrow> ('k, 'v) hcache" where
  "h_New options = fold h_option options
     \<lparr>h_maxAge = 0, h_maxSize = 0, h_cache = (\<lambda>_. None), h_lru = [], h_updateAgeOnGet = False,
      h_staleReturn = False, h_onEvict = False, h_evicted = []\<rparr>"

definition h_Clear :: "('k, 'v) hstate \<Rightarrow> ('k, 'v) hstate" where
  "h_Clear s = (fst s, (snd s)\<lparr>h_lru := [], h_cache := (\<lambda>_. None)\<rparr>)"

section \<open>Operations\<close>

definition h_moveToBack :: "nat \<Rightarrow> ('k, 'v) hcache \<Rightarrow> ('k, 'v) hcache" where
  "h_moveToBack le c = c\<lparr>h_lru := remove1 le (h_lru c) @ [le]\<rparr>"

definition h_deleteElement :: "nat \<Rightarrow> ('k, 'v) hstate \<Rightarrow> ('k, 'v) hstate" where
  "h_deleteElement le s =
     (let c = snd s; e = ents (fst s) le;
          c1 = c\<lparr>h_lru := remove1 le (h_lru c), h_cache := (h_cache c)(e_key e := None)\<rparr>
      in (fst s, if h_onEvict c then c1\<lparr>h_evicted := h_evicted c @ [(e_key e, e_value e)]\<rparr> else c1))"

function h_deleteOldest_loop :: "int \<Rightarrow> ('k, 'v) hstate \<Rightarrow> ('k, 'v) hstate" where
  "h_deleteOldest_loop now s = (case h_lru (snd s) of
     [] \<Rightarrow> s
   | le # _ \<Rightarrow> if e_expires (ents (fst s) le) \<le> now then h_deleteOldest_loop now (h_deleteElement le s) else s)"
  by pat_completeness auto
termination
  by (relation "measure (\<lambda>(now, s). length (h_lru (snd s)))") (auto simp: h_deleteElement_def Let_def)

declare h_deleteOldest_loop.simps [simp del]

definition h_maybeDeleteOldest :: "int \<Rightarrow> ('k, 'v) hstate \<Rightarrow> ('k, 'v) hstate" where
  "h_maybeDeleteOldest now s =
     (if \<not> h_staleReturn (snd s) \<and> h_maxAge (snd s) > 0 then h_deleteOldest_loop now s else s)"

definition h_Exist :: "'k \<Rightarrow> ('k, 'v) hstate \<Rightarrow> bool" where
  "h_Exist key s = (h_cache (snd s) key \<noteq> None)"

definition h_delete :: "'k \<Rightarrow> ('k, 'v) hstate \<Rightarrow> ('k, 'v) hstate" where
  "h_delete key s = (case h_cache (snd s) key of None \<Rightarrow> s | Some le \<Rightarrow> h_deleteElement le s)"

text \<open>\<open>get\<close> returns the address of the entry.\<close>

definition h_get :: "int \<Rightarrow> 'k \<Rightarrow> ('k, 'v) hstate \<Rightarrow> nat option \<times> ('k, 'v) hstate" where
  "h_get now key s =
     (let hp = fst s; c = snd s in
      case h_cache c key of
        None \<Rightarrow> (None, s)
      | Some le \<Rightarrow>
          if \<not> h_staleReturn c \<and> h_maxAge c > 0 \<and> e_expires (ents hp le) \<le> now
          then (None, h_maybeDeleteOldest now (h_deleteElement le s))
          else
            (let c1 = h_moveToBack le c;
                 hp1 = (if h_maxAge c > 0 \<and> h_updateAgeOnGet c
                        then hp\<lparr>ents := (ents hp)(le := (ents hp le)\<lparr>e_expires := now + h_maxAge c\<rparr>)\<rparr> else hp)
             in (Some le, hp1, c1)))"

definition h_setWithExpire :: "int \<Rightarrow> 'k \<Rightarrow> 'v \<Rightarrow> int \<Rightarrow> ('k, 'v) hstate \<Rightarrow> ('k, 'v) hstate" where
  "h_setWithExpire now key val expires s =
     (let hp = fst s; c = snd s;
          s1 = (case h_cache c key of
             Some le \<Rightarrow>
               (hp\<lparr>ents := (ents hp)(le := (ents hp le)\<lparr>e_value := val, e_expires := expires\<rparr>)\<rparr>, h_moveToBack le c)
           | None \<Rightarrow>
               (let le = fresh hp;
                    hp1 = hp\<lparr>ents := (ents hp)(le := \<lparr>e_key = key, e_value = val, e_expires = expires\<rparr>), fresh := le + 1\<rparr>;
                    c1 = c\<lparr>h_lru := h_lru c @ [le], h_cache := (h_cache c)(key \<mapsto> le)\<rparr>
                in if h_maxSize c > 0 \<and> int (length (h_lru c1)) > h_maxSize c
                   then h_deleteElement (hd (h_lru c1)) (hp1, c1) else (hp1, c1)))
      in h_maybeDeleteOldest now s1)"

definition h_set :: "int \<Rightarrow> 'k \<Rightarrow> 'v \<Rightarrow> ('k, 'v) hstate \<Rightarrow> ('k, 'v) hstate" where
  "h_set now key val s =
     (let expires = (if h_maxAge (snd s) > 0 then now + h_maxAge (snd s) else 0)
      in h_setWithExpire now key val expires s)"

definition h_Compute :: "int \<Rightarrow> 'k \<Rightarrow> ('v option \<Rightarrow> 'v option) \<Rightarrow> ('k, 'v) hstate \<Rightarrow> 'v option \<times> ('k, 'v) hstate" where
  "h_Compute now key valueFn s = (case h_get now key s of
     (el, s1) \<Rightarrow> (case valueFn (map_option (\<lambda>le. e_value (ents (fst s1) le)) el) of
         None \<Rightarrow> (None, if el \<noteq> None then h_delete key s1 else s1)
       | Some newValue \<Rightarrow> (Some newValue, h_set now key newValue s1)))"

text \<open>\<open>CloneTo\<close>: the elements of the new list point to the same entries.\<close>

definition h_CloneTo :: "('k, 'v) lru_heap \<Rightarrow> ('k, 'v) hcache \<Rightarrow> ('k, 'v) hcache \<Rightarrow> ('k, 'v) hcache" where
  "h_CloneTo hp c n =
     fold (\<lambda>le m. m\<lparr>h_lru := h_lru m @ [le], h_cache := (h_cache m)(e_key (ents hp le) \<mapsto> le)\<rparr>) (h_lru c)
       (n\<lparr>h_lru := [], h_cache := (\<lambda>_. None)\<rparr>)"

text \<open>One call, with what it returns: the value, if any, its expiry, and whether it was loaded.\<close>

fun h_step :: "int \<times> ('k, 'v) lru_op \<Rightarrow> ('k, 'v) hstate \<Rightarrow> ('v option \<times> int option \<times> bool) \<times> ('k, 'v) hstate" where
  "h_step (now, OpGet k) s = (case h_get now k s of
     (el, s1) \<Rightarrow> ((map_option (\<lambda>le. e_value (ents (fst s1) le)) el, None, el \<noteq> None), s1))"
| "h_step (now, OpGetOrStore k v) s = (case h_get now k s of
     (None, s1) \<Rightarrow> ((Some v, None, False), h_set now k v s1)
   | (Some le, s1) \<Rightarrow> ((Some (e_value (ents (fst s1) le)), None, True), s1))"
| "h_step (now, OpGetWithExpire k) s = (case h_get now k s of
     (None, s1) \<Rightarrow> ((None, None, False), s1)
   | (Some le, s1) \<Rightarrow> ((Some (e_value (ents (fst s1) le)), Some (e_expires (ents (fst s1) le)), True), s1))"
| "h_step (now, OpSet k v) s = ((None, None, False), h_set now k v s)"
| "h_step (now, OpSetWithExpire k v x) s = ((None, None, False), h_setWithExpire now k v x s)"
| "h_step (now, OpDelete k) s = ((None, None, False), h_delete k s)"
| "h_step (now, OpCompute k f) s = (case h_Compute now k f s of (r, s1) \<Rightarrow> ((r, None, r \<noteq> None), s1))"
| "h_step (now, OpClear) s = ((None, None, False), h_Clear s)"

fun h_run :: "(int \<times> ('k, 'v) lru_op) list \<Rightarrow> ('k, 'v) hstate \<Rightarrow> ('v option \<times> int option \<times> bool) list \<times> ('k, 'v) hstate" where
  "h_run [] s = ([], s)"
| "h_run (x # xs) s = (case h_step x s of (r, s1) \<Rightarrow> (case h_run xs s1 of (rs, s2) \<Rightarrow> (r # rs, s2)))"

section \<open>The list of entries\<close>

text \<open>What the calls return on the list of entries.\<close>

fun lru_result :: "int \<times> ('k, 'v) lru_op \<Rightarrow> ('k, 'v) LruCache \<Rightarrow> 'v option \<times> int option \<times> bool" where
  "lru_result (now, OpGet k) c = (fst (Get now k c), None, fst (Get now k c) \<noteq> None)"
| "lru_result (now, OpGetOrStore k v) c =
     (Some (fst (fst (GetOrStore now k v c))), None, snd (fst (GetOrStore now k v c)))"
| "lru_result (now, OpGetWithExpire k) c =
     (let r = fst (GetWithExpire now k c) in (map_option fst r, map_option snd r, r \<noteq> None))"
| "lru_result (now, OpCompute k f) c = (fst (Compute now k f c), None, fst (Compute now k f c) \<noteq> None)"
| "lru_result (now, _) c = (None, None, False)"

fun lru_results :: "(int \<times> ('k, 'v) lru_op) list \<Rightarrow> ('k, 'v) LruCache \<Rightarrow> ('v option \<times> int option \<times> bool) list" where
  "lru_results [] c = []"
| "lru_results (x # xs) c = lru_result x c # lru_results xs (lru_step x c)"

definition abs_cache :: "('k, 'v) hstate \<Rightarrow> ('k, 'v) LruCache" where
  "abs_cache s = (let c = snd s in
     \<lparr>maxAge = h_maxAge c, maxSize = h_maxSize c, lru = map (ents (fst s)) (h_lru c),
      updateAgeOnGet = h_updateAgeOnGet c, staleReturn = h_staleReturn c, onEvict = h_onEvict c,
      evicted = h_evicted c\<rparr>)"

text \<open>The map is the index of the list by key, and no address is used twice or unallocated.\<close>

definition in_step :: "('k, 'v) hstate \<Rightarrow> bool" where
  "in_step s = (distinct (h_lru (snd s)) \<and> (\<forall>le \<in> set (h_lru (snd s)). le < fresh (fst s)) \<and>
     (\<forall>k le. h_cache (snd s) k = Some le \<longleftrightarrow> le \<in> set (h_lru (snd s)) \<and> e_key (ents (fst s) le) = k))"

section \<open>Refinement\<close>

lemma abs_cache_simps [simp]:
  "maxAge (abs_cache s) = h_maxAge (snd s)" "maxSize (abs_cache s) = h_maxSize (snd s)"
  "lru (abs_cache s) = map (ents (fst s)) (h_lru (snd s))" "updateAgeOnGet (abs_cache s) = h_updateAgeOnGet (snd s)"
  "staleReturn (abs_cache s) = h_staleReturn (snd s)" "onEvict (abs_cache s) = h_onEvict (snd s)"
  "evicted (abs_cache s) = h_evicted (snd s)"
  by (simp_all add: abs_cache_def Let_def)

lemma in_stepD:
  assumes "in_step s"
  shows "distinct (h_lru (snd s))" "le \<in> set (h_lru (snd s)) \<Longrightarrow> le < fresh (fst s)"
    "h_cache (snd s) k = Some le \<longleftrightarrow> le \<in> set (h_lru (snd s)) \<and> e_key (ents (fst s) le) = k"
  using assms by (auto simp: in_step_def)

lemma one_address:
  assumes "in_step s" "a \<in> set (h_lru (snd s))" "b \<in> set (h_lru (snd s))"
    "e_key (ents (fst s) a) = e_key (ents (fst s) b)"
  shows "a = b"
  using assms by (metis in_stepD(3) option.inject)

lemma in_stepI:
  assumes "distinct (h_lru c)" "\<And>le. le \<in> set (h_lru c) \<Longrightarrow> le < fresh hp"
    "\<And>k le. h_cache c k = Some le \<longleftrightarrow> le \<in> set (h_lru c) \<and> e_key (ents hp le) = k"
  shows "in_step (hp, c)"
  using assms unfolding in_step_def by simp

lemma cached_abs:
  assumes "in_step s"
  shows "cached (abs_cache s) k = map_option (ents (fst s)) (h_cache (snd s) k)"
proof (cases "h_cache (snd s) k")
  case None
  then have "e_key (ents (fst s) le) \<noteq> k" if "le \<in> set (h_lru (snd s))" for le
    using that in_stepD(3) [OF assms, of k le] by auto
  then show ?thesis using None by (auto simp: cached_def find_None_iff)
next
  case (Some le)
  have one: "a = le" if "a \<in> set (h_lru (snd s))" "e_key (ents (fst s) a) = k" for a
    using that Some in_stepD(3) [OF assms, of k a] by simp
  have le: "le \<in> set (h_lru (snd s))" "e_key (ents (fst s) le) = k" using Some in_stepD(3) [OF assms] by auto
  then obtain e where e: "find (\<lambda>e. e_key e = k) (map (ents (fst s)) (h_lru (snd s))) = Some e"
    by (cases "find (\<lambda>e. e_key e = k) (map (ents (fst s)) (h_lru (snd s)))") (auto simp: find_None_iff)
  then have "e \<in> set (map (ents (fst s)) (h_lru (snd s))) \<and> e_key e = k"
    by (metis (mono_tags, lifting) find_Some_iff nth_mem)
  then have "e = ents (fst s) le" using one by auto
  then show ?thesis using Some e by (simp add: cached_def)
qed

lemma without_abs:
  assumes "in_step s" "h_cache (snd s) k = Some le"
  shows "without k (map (ents (fst s)) (h_lru (snd s))) = map (ents (fst s)) (remove1 le (h_lru (snd s)))"
proof -
  have "a \<in> set (h_lru (snd s)) \<Longrightarrow> e_key (ents (fst s) a) \<noteq> k \<longleftrightarrow> a \<noteq> le" for a
    using assms(2) in_stepD(3) [OF assms(1), of k a] in_stepD(3) [OF assms(1), of k le] by auto
  then show ?thesis using in_stepD(1) [OF assms(1)]
    by (simp add: without_def filter_map o_def distinct_remove1_removeAll removeAll_filter_not_eq cong: filter_cong)
       (metis (mono_tags, lifting) filter_cong)
qed

lemma h_deleteElement_simps [simp]:
  "fst (h_deleteElement le s) = fst s"
  "h_lru (snd (h_deleteElement le s)) = remove1 le (h_lru (snd s))"
  "h_cache (snd (h_deleteElement le s)) = (h_cache (snd s))(e_key (ents (fst s) le) := None)"
  by (simp_all add: h_deleteElement_def Let_def)

lemma abs_deleteElement:
  assumes "in_step s" "le \<in> set (h_lru (snd s))"
  shows "in_step (h_deleteElement le s) \<and>
    abs_cache (h_deleteElement le s) = deleteElement (ents (fst s) le) (abs_cache s)"
proof
  have k: "h_cache (snd s) (e_key (ents (fst s) le)) = Some le"
    using in_stepD(3) [OF assms(1), of "e_key (ents (fst s) le)" le] assms(2) by simp
  have d: "set (remove1 le (h_lru (snd s))) = set (h_lru (snd s)) - {le}"
    using in_stepD(1) [OF assms(1)] by simp
  have "in_step (fst s, snd (h_deleteElement le s))"
  proof (rule in_stepI)
    show "h_cache (snd (h_deleteElement le s)) k = Some a \<longleftrightarrow>
        a \<in> set (h_lru (snd (h_deleteElement le s))) \<and> e_key (ents (fst s) a) = k" for k a
      using one_address [OF assms(1) _ assms(2), of a] in_stepD(3) [OF assms(1), of k a]
      by (cases "a = le"; cases "k = e_key (ents (fst s) le)") (simp_all add: d, blast)
  qed (use in_stepD [OF assms(1)] d in auto)
  then show "in_step (h_deleteElement le s)" by (metis h_deleteElement_simps(1) prod.collapse)
  show "abs_cache (h_deleteElement le s) = deleteElement (ents (fst s) le) (abs_cache s)"
    by (simp add: deleteElement_def abs_cache_def h_deleteElement_def Let_def without_abs [OF assms(1) k])
qed

lemma abs_deleteOldest_loop:
  "in_step s \<Longrightarrow> in_step (h_deleteOldest_loop now s) \<and>
     abs_cache (h_deleteOldest_loop now s) = deleteOldest_loop now (abs_cache s)"
proof (induction now s rule: h_deleteOldest_loop.induct)
  case (1 now s)
  show ?case
  proof (cases "h_lru (snd s)")
    case Nil
    then show ?thesis using "1.prems" by (subst (1 2) h_deleteOldest_loop.simps, subst deleteOldest_loop.simps) simp
  next
    case (Cons le les)
    then have le: "le \<in> set (h_lru (snd s))" by simp
    note d = abs_deleteElement [OF "1.prems" le]
    show ?thesis using "1.IH" [OF Cons] d Cons "1.prems"
      by (subst (1 2) h_deleteOldest_loop.simps, subst deleteOldest_loop.simps) auto
  qed
qed

lemma abs_maybeDeleteOldest:
  "in_step s \<Longrightarrow> in_step (h_maybeDeleteOldest now s) \<and>
     abs_cache (h_maybeDeleteOldest now s) = maybeDeleteOldest now (abs_cache s)"
  using abs_deleteOldest_loop [of s now] by (auto simp: h_maybeDeleteOldest_def maybeDeleteOldest_def)

lemma abs_Exist: "in_step s \<Longrightarrow> h_Exist k s = Exist k (abs_cache s)"
  by (simp add: h_Exist_def Exist_def cached_abs)

lemma abs_delete:
  "in_step s \<Longrightarrow> in_step (h_delete k s) \<and> abs_cache (h_delete k s) = cache_delete k (abs_cache s)"
  using abs_deleteElement [of s "the (h_cache (snd s) k)"] in_stepD(3) [of s k "the (h_cache (snd s) k)"]
  by (cases "h_cache (snd s) k") (simp_all add: h_delete_def cache_delete_def cached_abs)

text \<open>Moving an entry to the back while its value or expiry is written.\<close>

lemma abs_touch:
  assumes "in_step s" "h_cache (snd s) k = Some le" "e_key e = k"
  shows "let s1 = ((fst s)\<lparr>ents := (ents (fst s))(le := e)\<rparr>, h_moveToBack le (snd s))
    in in_step s1 \<and> abs_cache s1 = (abs_cache s)\<lparr>lru := without k (lru (abs_cache s)) @ [e]\<rparr>"
proof -
  have le: "le \<in> set (h_lru (snd s))" "e_key (ents (fst s) le) = k"
    using assms(2) in_stepD(3) [OF assms(1), of k le] by auto
  have d: "set (remove1 le (h_lru (snd s))) = set (h_lru (snd s)) - {le}" "distinct (remove1 le (h_lru (snd s)))"
    using in_stepD(1) [OF assms(1)] by simp_all
  have "map ((ents (fst s))(le := e)) (remove1 le (h_lru (snd s))) = map (ents (fst s)) (remove1 le (h_lru (snd s)))"
    using in_stepD(1) [OF assms(1)] by auto
  moreover have "in_step ((fst s)\<lparr>ents := (ents (fst s))(le := e)\<rparr>, h_moveToBack le (snd s))"
  proof (rule in_stepI)
    show "h_cache (h_moveToBack le (snd s)) j = Some a \<longleftrightarrow> a \<in> set (h_lru (h_moveToBack le (snd s)))
        \<and> e_key (ents ((fst s)\<lparr>ents := (ents (fst s))(le := e)\<rparr>) a) = j" for j a
      using le assms(3) in_stepD(3) [OF assms(1), of j a] by (cases "a = le") (auto simp: h_moveToBack_def d)
  qed (use in_stepD [OF assms(1)] le d in \<open>auto simp: h_moveToBack_def\<close>)
  ultimately show ?thesis
    by (simp add: Let_def h_moveToBack_def abs_cache_def without_abs [OF assms(1,2)])
qed

lemma abs_get:
  assumes "in_step s"
  shows "in_step (snd (h_get now k s)) \<and> abs_cache (snd (h_get now k s)) = snd (cache_get now k (abs_cache s))
    \<and> map_option (ents (fst (snd (h_get now k s)))) (fst (h_get now k s)) = fst (cache_get now k (abs_cache s))"
proof (cases "h_cache (snd s) k")
  case None
  then show ?thesis using assms by (simp add: h_get_def cache_get_def cached_abs [OF assms])
next
  case (Some le)
  have le: "le \<in> set (h_lru (snd s))" "e_key (ents (fst s) le) = k" using Some in_stepD(3) [OF assms] by auto
  note d = abs_deleteElement [OF assms le(1)] 
  note m = abs_maybeDeleteOldest [OF d [THEN conjunct1], of now]
  have id: "(fst s)\<lparr>ents := (ents (fst s))(le := ents (fst s) le)\<rparr> = fst s" by simp
  show ?thesis
    using Some d m abs_touch [OF assms Some, of "ents (fst s) le"] abs_touch [OF assms Some, of "(ents (fst s) le)\<lparr>e_expires := now + h_maxAge (snd s)\<rparr>"] le(2)
    by (auto simp: h_get_def cache_get_def cached_abs [OF assms] Let_def)
qed

lemma abs_setWithExpire:
  assumes "in_step s"
  shows "in_step (h_setWithExpire now k v x s) \<and> abs_cache (h_setWithExpire now k v x s) = setWithExpire now k v x (abs_cache s)"
proof (cases "h_cache (snd s) k")
  case None
  let ?le = "fresh (fst s)" and ?e = "\<lparr>e_key = k, e_value = v, e_expires = x\<rparr>"
  let ?s1 = "((fst s)\<lparr>ents := (ents (fst s))(?le := ?e), fresh := ?le + 1\<rparr>,
      (snd s)\<lparr>h_lru := h_lru (snd s) @ [?le], h_cache := (h_cache (snd s))(k \<mapsto> ?le)\<rparr>)"
  have new: "?le \<notin> set (h_lru (snd s))" using in_stepD(2) [OF assms] by blast
  have k: "k \<notin> set (keys_of (map (ents (fst s)) (h_lru (snd s))))"
    using cached_abs [OF assms, of k] None by (simp add: cached_None)
  then have w: "without k (map (ents (fst s)) (h_lru (snd s))) = map (ents (fst s)) (h_lru (snd s))" by (rule without_id)
  have m: "map ((ents (fst s))(?le := ?e)) (h_lru (snd s)) = map (ents (fst s)) (h_lru (snd s))" using new by auto
  have nk: "e_key (ents (fst s) a) \<noteq> k" if "a \<in> set (h_lru (snd s))" for a
    using that None in_stepD(3) [OF assms, of k a] by auto
  have s1: "in_step ?s1" using assms new None nk unfolding in_step_def
    by (auto simp: less_Suc_eq)
  have a1: "abs_cache ?s1 = (abs_cache s)\<lparr>lru := without k (lru (abs_cache s)) @ [?e]\<rparr>"
    using m w by (simp add: abs_cache_def Let_def)
  let ?full = "h_maxSize (snd s) > 0 \<and> int (length (h_lru (snd s)) + 1) > h_maxSize (snd s)"
  have hs: "h_setWithExpire now k v x s
      = h_maybeDeleteOldest now (if ?full then h_deleteElement (hd (h_lru (snd ?s1))) ?s1 else ?s1)"
    by (simp add: h_setWithExpire_def None Let_def)
  have as: "setWithExpire now k v x (abs_cache s)
      = maybeDeleteOldest now (if ?full then deleteElement (hd (lru (abs_cache ?s1))) (abs_cache ?s1) else abs_cache ?s1)"
    unfolding a1 by (simp add: setWithExpire_def Let_def cached_abs [OF assms] None w)
  have h: "hd (h_lru (snd ?s1)) \<in> set (h_lru (snd ?s1))" by (cases "h_lru (snd s)") auto
  have "hd (lru (abs_cache ?s1)) = ents (fst ?s1) (hd (h_lru (snd ?s1)))" by (cases "h_lru (snd s)") auto
  with abs_deleteElement [OF s1 h] s1
  have "in_step (if ?full then h_deleteElement (hd (h_lru (snd ?s1))) ?s1 else ?s1)"
    "abs_cache (if ?full then h_deleteElement (hd (h_lru (snd ?s1))) ?s1 else ?s1)
      = (if ?full then deleteElement (hd (lru (abs_cache ?s1))) (abs_cache ?s1) else abs_cache ?s1)" by presburger+
  from abs_maybeDeleteOldest [OF this(1), of now] this(2) show ?thesis unfolding hs as by presburger
next
  case (Some le)
  have le: "e_key (ents (fst s) le) = k" using Some in_stepD(3) [OF assms] by auto
  have e: "(ents (fst s) le)\<lparr>e_value := v, e_expires := x\<rparr> = \<lparr>e_key = k, e_value = v, e_expires = x\<rparr>"
    using le by (cases "ents (fst s) le") simp
  show ?thesis
    using abs_touch [OF assms Some, of "\<lparr>e_key = k, e_value = v, e_expires = x\<rparr>"] Some
    by (auto simp: h_setWithExpire_def setWithExpire_def Let_def e cached_abs [OF assms] abs_maybeDeleteOldest)
qed

lemma abs_set:
  "in_step s \<Longrightarrow> in_step (h_set now k v s) \<and> abs_cache (h_set now k v s) = cache_set now k v (abs_cache s)"
  by (simp add: h_set_def cache_set_def Let_def abs_setWithExpire)

lemma abs_Compute:
  assumes "in_step s"
  shows "in_step (snd (h_Compute now k f s)) \<and> abs_cache (snd (h_Compute now k f s)) = snd (Compute now k f (abs_cache s))
    \<and> fst (h_Compute now k f s) = fst (Compute now k f (abs_cache s))"
proof -
  obtain el s1 where g: "h_get now k s = (el, s1)" by (cases "h_get now k s")
  obtain el' c1 where c: "cache_get now k (abs_cache s) = (el', c1)" by (cases "cache_get now k (abs_cache s)")
  have *: "in_step s1" "abs_cache s1 = c1" "el' = map_option (ents (fst s1)) el"
    using abs_get [OF assms, of now k] g c by auto
  have "map_option e_value el' = map_option (\<lambda>le. e_value (ents (fst s1) le)) el"
    by (simp add: * option.map_comp o_def)
  then show ?thesis using * abs_set [OF *(1)] abs_delete [OF *(1)]
    by (auto simp: h_Compute_def Compute_def g c split: option.split)
qed

lemma h_step_refines:
  assumes "in_step s"
  shows "in_step (snd (h_step x s)) \<and> abs_cache (snd (h_step x s)) = lru_step x (abs_cache s)
    \<and> fst (h_step x s) = lru_result x (abs_cache s)"
proof (cases x)
  case (Pair now oper)
  have g: "in_step s1 \<and> abs_cache s1 = snd (cache_get now k (abs_cache s))
     \<and> fst (cache_get now k (abs_cache s)) = map_option (ents (fst s1)) el"
    if "h_get now k s = (el, s1)" for k el s1 using abs_get [OF assms, of now k] that by simp
  show ?thesis
  proof (cases oper)
    case OpClear
    then show ?thesis by (simp add: Pair h_Clear_def Clear_def in_step_def abs_cache_def Let_def)
  next
    case (OpCompute k f)
    with abs_Compute [OF assms, of now k f] show ?thesis by (cases "h_Compute now k f s") (simp add: Pair)
  next
    case (OpGetOrStore k v)
    obtain el s1 where e: "h_get now k s = (el, s1)" by (cases "h_get now k s")
    note G = g [OF e]
    with abs_set [of s1 now k v] OpGetOrStore e show ?thesis
      by (cases el; cases "cache_get now k (abs_cache s)") (auto simp: Pair GetOrStore_def)
  next
    case (OpGet k)
    obtain el s1 where e: "h_get now k s = (el, s1)" by (cases "h_get now k s")
    with g [OF e] OpGet show ?thesis
      by (cases el; cases "cache_get now k (abs_cache s)") (auto simp: Pair Get_def)
  qed (use assms in \<open>auto simp: Pair abs_set abs_setWithExpire abs_delete Set_def SetWithExpire_def Delete_def
     GetWithExpire_def dest!: g split: prod.split option.split\<close>)
qed

lemma h_run_refines:
  "in_step s \<Longrightarrow> in_step (snd (h_run xs s)) \<and> abs_cache (snd (h_run xs s)) = fold lru_step xs (abs_cache s)
     \<and> fst (h_run xs s) = lru_results xs (abs_cache s)"
proof (induction xs arbitrary: s)
  case (Cons x xs)
  from h_step_refines [OF Cons.prems, of x] Cons.IH [of "snd (h_step x s)"] show ?case
    by (auto split: prod.split)
qed simp

lemma h_New_empty: "in_step (hp, h_New opts) \<and> abs_cache (hp, h_New opts) = NewCache opts"
proof -
  have f: "in_step (hp, fold h_option opts c) \<and> abs_cache (hp, fold h_option opts c) = fold apply_option opts (abs_cache (hp, c))"
    if "in_step (hp, c)" for c using that
  proof (induction opts arbitrary: c)
    case (Cons x xs)
    have "in_step (hp, h_option x c) \<and> abs_cache (hp, h_option x c) = apply_option x (abs_cache (hp, c))"
      using Cons.prems by (cases x) (auto simp: in_step_def abs_cache_def Let_def)
    with Cons.IH show ?case by simp
  qed simp
  let ?c = "\<lparr>h_maxAge = 0, h_maxSize = 0, h_cache = (\<lambda>_. None), h_lru = [], h_updateAgeOnGet = False,
      h_staleReturn = False, h_onEvict = False, h_evicted = []\<rparr>"
  have "in_step (hp, ?c)" by (simp add: in_step_def)
  from f [OF this] show ?thesis unfolding h_New_def NewCache_def by (simp add: abs_cache_def)
qed

text \<open>\<open>CloneTo\<close> gives the other cache the same entries in the same order, with a map that is in step.\<close>

lemma h_CloneTo_refines:
  assumes "in_step (hp, c)"
  shows "in_step (hp, h_CloneTo hp c n) \<and> abs_cache (hp, h_CloneTo hp c n) = CloneTo (abs_cache (hp, c)) (abs_cache (hp, n))"
proof -
  let ?put = "\<lambda>le m. m\<lparr>h_lru := h_lru m @ [le], h_cache := (h_cache m)(e_key (ents hp le) \<mapsto> le)\<rparr>"
  have f: "fold ?put les m = m\<lparr>h_lru := h_lru m @ les, h_cache := h_cache m ++ map_of (rev (map (\<lambda>le. (e_key (ents hp le), le)) les))\<rparr>"
    for les m
    by (induction les arbitrary: m) (auto simp: map_add_def fun_eq_iff split: option.split)
  have eq: "h_CloneTo hp c n = n\<lparr>h_lru := h_lru c, h_cache := map_of (rev (map (\<lambda>le. (e_key (ents hp le), le)) (h_lru c)))\<rparr>"
    unfolding h_CloneTo_def f by simp
  have inj: "distinct (map fst (rev (map (\<lambda>le. (e_key (ents hp le), le)) (h_lru c))))"
    using one_address [OF assms] in_stepD(1) [OF assms] by (auto simp: rev_map o_def distinct_map inj_on_def)
  have "in_step (hp, h_CloneTo hp c n)"
    by (rule in_stepI) (use in_stepD(1,2) [OF assms] inj in \<open>auto simp: eq\<close>)
  moreover have "abs_cache (hp, h_CloneTo hp c n) = CloneTo (abs_cache (hp, c)) (abs_cache (hp, n))"
    by (simp add: eq CloneTo_def abs_cache_def Let_def)
  ultimately show ?thesis ..
qed

section \<open>Properties\<close>

text \<open>
  C23. The map from keys to list elements and the linked list of a cache stay in step, and together they
  are a list of entries ordered by use: after any sequence of \<open>Get\<close>, \<open>GetOrStore\<close>, \<open>GetWithExpire\<close>,
  \<open>Set\<close>, \<open>SetWithExpire\<close>, \<open>Delete\<close>, \<open>Compute\<close> and \<open>Clear\<close>, at whatever times and with whatever
  options, a key is in the map exactly when the entry it maps to is in the list under that key, each call has
  returned what the same call returns on the list of entries, no key occurs twice, and a cache with a
  size holds no more entries than that. \<open>CloneTo\<close>, which may fill a cache past its size, is not
  among the calls.
\<close>

theorem lru_heap_refines:
  "let r = h_run ops (hp, h_New opts) in
     in_step (snd r) \<and> fst r = lru_results ops (NewCache opts)
     \<and> abs_cache (snd r) = fold lru_step ops (NewCache opts) \<and> cache_inv (abs_cache (snd r))"
proof -
  note n = h_New_empty [of hp opts]
  from h_run_refines [OF n [THEN conjunct1], of ops] n lru_reachable_inv [of ops opts] show ?thesis
    by (simp add: Let_def)
qed

text \<open>
  \<open>CloneTo\<close> does not look at the size of the cache it fills: a cache of one entry holds two afterwards, and
  still two when a third key is set.
\<close>

lemma CloneTo_exceeds_size:
  "let old = Set 0 ''b'' (2 :: int) (Set 0 ''a'' 1 (NewCache [WithSize 2]));
       new = CloneTo old (NewCache [WithSize 1])
   in maxSize new = 1 \<and> length (lru new) = 2 \<and> length (lru (Set 0 ''c'' 3 new)) = 2"
  by code_simp

text \<open>After \<open>CloneTo\<close> the caches share their entries: a value set through the old cache is read from the new.\<close>

lemma CloneTo_shares:
  "let s = h_set 0 ''a'' (1 :: int) (\<lparr>ents = (\<lambda>_. \<lparr>e_key = [], e_value = 0, e_expires = 0\<rparr>), fresh = 0\<rparr>, h_New []);
       new = h_CloneTo (fst s) (snd s) (h_New []);
       s1 = h_set 0 ''a'' 5 s
   in fst (h_step (0, OpGet ''a'') (fst s1, new)) = (Some 5, None, True)"
  by code_simp

end
