(* ===== verification/FakeIP.thy ===== *)
theory FakeIP
  imports LruCache Netip
begin

text \<open>
  The fake-IP pool (src/component/fakeip/pool.go) over its \<open>store\<close> interface, and the in-memory
  store made of two LRU caches (src/component/fakeip/memory.go). The Go interface \<open>store\<close> is the
  record \<open>store_ops\<close> of operations on a store state; \<open>Pool\<close> takes it as an argument, as the Go
  pool holds an interface value. What the pool relies on is the locale \<open>fake_store\<close>; the in-memory
  store is an interpretation of it, whose proof shows that the two caches mirror each other.
\<close>

section \<open>The store interface\<close>

record 's store_ops =
  GetByHost :: "string \<Rightarrow> 's \<Rightarrow> Addr option \<times> 's"
  PutByHost :: "string \<Rightarrow> Addr \<Rightarrow> 's \<Rightarrow> 's"
  GetByIP :: "Addr \<Rightarrow> 's \<Rightarrow> string option \<times> 's"
  PutByIP :: "Addr \<Rightarrow> string \<Rightarrow> 's \<Rightarrow> 's"
  DelByIP :: "Addr \<Rightarrow> 's \<Rightarrow> 's"
  store_Exist :: "Addr \<Rightarrow> 's \<Rightarrow> bool"
  store_CloneTo :: "'s \<Rightarrow> 's \<Rightarrow> 's"
  store_FlushFakeIP :: "'s \<Rightarrow> string option \<times> 's"
  is_cachefileStore :: bool

record 's Pool =
  gateway :: Addr
  pool_first :: Addr
  pool_last :: Addr
  offset :: Addr
  cycle :: bool
  ipnet :: Prefix
  pool_store :: 's

section \<open>Operations of the pool\<close>

definition pool_get :: "'s store_ops \<Rightarrow> string \<Rightarrow> 's Pool \<Rightarrow> Addr \<times> 's Pool" where
  "pool_get ops host p =
     (let p1 = p\<lparr>offset := Next (offset p)\<rparr>;
          p2 = (if \<not> Less (offset p1) (pool_last p1)
                then p1\<lparr>cycle := True, offset := pool_first p1\<rparr> else p1);
          p3 = (if cycle p2 \<or> store_Exist ops (offset p2) (pool_store p2)
                then p2\<lparr>pool_store := DelByIP ops (offset p2) (pool_store p2)\<rparr> else p2);
          p4 = p3\<lparr>pool_store := PutByIP ops (offset p3) host (pool_store p3)\<rparr>
      in (offset p4, p4))"

definition Lookup :: "'s store_ops \<Rightarrow> string \<Rightarrow> 's Pool \<Rightarrow> Addr \<times> 's Pool" where
  "Lookup ops host0 p =
     (let host = ToLower host0;
          r = GetByHost ops host (pool_store p);
          p1 = p\<lparr>pool_store := snd r\<rparr>
      in case fst r of
           Some ip \<Rightarrow> (ip, p1)
         | None \<Rightarrow>
             (let g = pool_get ops host p1; ip = fst g; p2 = snd g
              in (ip, p2\<lparr>pool_store := PutByHost ops host ip (pool_store p2)\<rparr>)))"

definition LookBack :: "'s store_ops \<Rightarrow> Addr \<Rightarrow> 's Pool \<Rightarrow> string option \<times> 's Pool" where
  "LookBack ops ip p =
     (let r = GetByIP ops ip (pool_store p) in (fst r, p\<lparr>pool_store := snd r\<rparr>))"

definition pool_Exist :: "'s store_ops \<Rightarrow> Addr \<Rightarrow> 's Pool \<Rightarrow> bool" where
  "pool_Exist ops ip p = store_Exist ops ip (pool_store p)"

definition Gateway :: "'s Pool \<Rightarrow> Addr" where
  "Gateway p = gateway p"

definition Broadcast :: "'s Pool \<Rightarrow> Addr" where
  "Broadcast p = pool_last p"

definition IPNet :: "'s Pool \<Rightarrow> Prefix" where
  "IPNet p = ipnet p"

definition CloneFrom :: "'s store_ops \<Rightarrow> 's Pool \<Rightarrow> 's Pool \<Rightarrow> 's Pool" where
  "CloneFrom ops old p = p\<lparr>pool_store := store_CloneTo ops (pool_store old) (pool_store p)\<rparr>"

definition FlushFakeIP :: "'s store_ops \<Rightarrow> 's Pool \<Rightarrow> string option \<times> 's Pool" where
  "FlushFakeIP ops p =
     (let r = store_FlushFakeIP ops (pool_store p);
          p1 = p\<lparr>pool_store := snd r\<rparr>
      in (fst r, if fst r = None then p1\<lparr>cycle := False, offset := Prev (pool_first p1)\<rparr> else p1))"

definition offsetKey :: string where
  "offsetKey = ''key-offset-fake-ip''"

definition cycleKey :: string where
  "cycleKey = ''key-cycle-fake-ip''"

definition StoreState :: "'s store_ops \<Rightarrow> 's Pool \<Rightarrow> 's Pool" where
  "StoreState ops p =
     (if is_cachefileStore ops
      then let p1 = p\<lparr>pool_store := PutByHost ops offsetKey (offset p) (pool_store p)\<rparr>
           in if cycle p1
              then p1\<lparr>pool_store := PutByHost ops cycleKey (offset p1) (pool_store p1)\<rparr> else p1
      else p)"

definition restoreState :: "'s store_ops \<Rightarrow> 's Pool \<Rightarrow> 's Pool" where
  "restoreState ops p =
     (if is_cachefileStore ops
      then let r = GetByHost ops cycleKey (pool_store p);
               p1 = p\<lparr>pool_store := snd r\<rparr>;
               p2 = (if fst r \<noteq> None then p1\<lparr>cycle := True\<rparr> else p1);
               q = GetByHost ops offsetKey (pool_store p2);
               p3 = p2\<lparr>pool_store := snd q\<rparr>
           in case fst q of
                Some off \<Rightarrow>
                  (if PrefixContains (ipnet p3) off then p3\<lparr>offset := off\<rparr>
                   else snd (FlushFakeIP ops p3))
              | None \<Rightarrow>
                  (if store_Exist ops (pool_first p3) (pool_store p3)
                   then snd (FlushFakeIP ops p3) else p3)
      else p)"

text \<open>
  \<open>New\<close>: the last address of a prefix is computed by the package \<open>netipx\<close> and is an argument. A
  prefix is valid when it has an address: \<open>netip\<close> builds no prefix with too many bits.
\<close>

definition NewPool :: "(Prefix \<Rightarrow> Addr) \<Rightarrow> 's store_ops \<Rightarrow> 's \<Rightarrow> Prefix \<Rightarrow> 's Pool result" where
  "NewPool PrefixLastIP ops st net =
     (let hostAddr = Masked net;
          gw = Next hostAddr;
          fst_ip = Next (Next (Next gw));
          lst_ip = PrefixLastIP net
      in if \<not> IsValid (pfx_addr net) \<or> \<not> IsValid fst_ip \<or> \<not> Less fst_ip lst_ip
         then Inl ''ipnet don't have valid ip''
         else Inr (restoreState ops
           \<lparr>gateway = gw, pool_first = fst_ip, pool_last = lst_ip, offset = Prev fst_ip,
            cycle = False, ipnet = net, pool_store = st\<rparr>))"

section \<open>The contract of a store\<close>

text \<open>
  A store holds a set of pairs of a host and an address, seen as the two maps \<open>ip_of\<close> and
  \<open>host_of\<close>, which are inverse to each other. It may drop pairs when a new one is bound, never
  the new one.
\<close>

locale fake_store =
  fixes ops :: "'s store_ops"
    and sinv :: "'s \<Rightarrow> bool"
    and ip_of :: "'s \<Rightarrow> string \<Rightarrow> Addr option"
    and host_of :: "'s \<Rightarrow> Addr \<Rightarrow> string option"
  assumes mirror: "sinv s \<Longrightarrow> ip_of s h = Some a \<longleftrightarrow> host_of s a = Some h"
    and get_host: "sinv s \<Longrightarrow> fst (GetByHost ops h s) = ip_of s h
      \<and> sinv (snd (GetByHost ops h s)) \<and> host_of (snd (GetByHost ops h s)) = host_of s"
    and get_ip: "sinv s \<Longrightarrow> fst (GetByIP ops a s) = host_of s a
      \<and> sinv (snd (GetByIP ops a s)) \<and> host_of (snd (GetByIP ops a s)) = host_of s"
    and exist: "sinv s \<Longrightarrow> store_Exist ops a s \<longleftrightarrow> host_of s a \<noteq> None"
    and del: "sinv s \<Longrightarrow> sinv (DelByIP ops a s) \<and> host_of (DelByIP ops a s) = (host_of s)(a := None)"
    and bind: "sinv s \<Longrightarrow> ip_of s h = None \<Longrightarrow> host_of s a = None
      \<Longrightarrow> sinv (PutByHost ops h a (PutByIP ops a h s))
        \<and> host_of (PutByHost ops h a (PutByIP ops a h s)) a = Some h
        \<and> host_of (PutByHost ops h a (PutByIP ops a h s)) \<subseteq>\<^sub>m (host_of s)(a \<mapsto> h)"
    and flush: "sinv s \<Longrightarrow> sinv (snd (store_FlushFakeIP ops s))
      \<and> host_of (snd (store_FlushFakeIP ops s))
        = (if fst (store_FlushFakeIP ops s) = None then Map.empty else host_of s)"

section \<open>Invariant of the pool\<close>

definition in_range :: "'s Pool \<Rightarrow> Addr \<Rightarrow> bool" where
  "in_range p a = (BitLen a = BitLen (pool_first p) \<and> Zone a = []
     \<and> addr_val (pool_first p) \<le> addr_val a \<and> addr_val a < addr_val (pool_last p))"

text \<open>The next address to hand out comes after \<open>offset\<close>, which lies at most one before the range.\<close>

definition range_ok :: "'s Pool \<Rightarrow> bool" where
  "range_ok p = (BitLen (pool_first p) \<noteq> 0 \<and> Zone (pool_first p) = []
     \<and> IsValid (Prev (pool_first p))
     \<and> BitLen (pool_last p) = BitLen (pool_first p) \<and> Zone (pool_last p) = []
     \<and> addr_val (pool_first p) < addr_val (pool_last p)
     \<and> BitLen (offset p) = BitLen (pool_first p) \<and> Zone (offset p) = []
     \<and> addr_val (pool_first p) \<le> addr_val (offset p) + 1
     \<and> addr_val (offset p) < addr_val (pool_last p))"

definition pool_inv :: "('s \<Rightarrow> bool) \<Rightarrow> ('s \<Rightarrow> Addr \<Rightarrow> string option) \<Rightarrow> 's Pool \<Rightarrow> bool" where
  "pool_inv sinv host_of p = (sinv (pool_store p) \<and> range_ok p
     \<and> (\<forall>a h. host_of (pool_store p) a = Some h \<longrightarrow> in_range p a \<and> ToLower h = h))"

lemma Next_below:
  assumes "BitLen a = BitLen b" "addr_val a < addr_val b" "BitLen b \<noteq> 0"
  shows "IsValid (Next a)"
proof -
  have w: "w + 1 \<noteq> 0" if "uint w < uint v" for w v :: "'n::len word"
  proof
    assume "w + 1 = 0"
    then have "w = - 1" by (simp add: eq_neg_iff_add_eq_0)
    with that have "(- 1 :: 'n word) < v" by (simp add: word_less_def)
    then show False using word_n1_ge [of v] by simp
  qed
  show ?thesis using assms w by (cases a; cases b) auto
qed

lemma Prev_props: "IsValid (Prev a) \<Longrightarrow> BitLen (Prev a) = BitLen a \<and> Zone (Prev a) = Zone a
    \<and> addr_val (Prev a) + 1 = addr_val a"
  using addr_val_Next [of "Prev a"] BitLen_Next [of "Prev a"] Zone_Next [of "Prev a"] Next_Prev [of a]
  by (cases a) (auto split: if_splits)

text \<open>The address \<open>pool_get\<close> moves to.\<close>

definition next_offset :: "'s Pool \<Rightarrow> Addr" where
  "next_offset p = (if Less (Next (offset p)) (pool_last p) then Next (offset p) else pool_first p)"

lemma next_offset_range: "range_ok p \<Longrightarrow> in_range p (next_offset p)"
proof -
  assume r: "range_ok p"
  then have v: "IsValid (Next (offset p))"
    by (intro Next_below [of _ "pool_last p"]) (auto simp: range_ok_def)
  show ?thesis
    using r addr_val_Next [OF v] BitLen_Next [OF v] Zone_Next [OF v]
    by (auto simp: next_offset_def in_range_def range_ok_def Less_def split: if_splits)
qed

lemma range_ok_offset:
  "range_ok p \<Longrightarrow> in_range p a \<Longrightarrow> range_ok (p\<lparr>offset := a, cycle := c, pool_store := s\<rparr>)"
  by (auto simp: range_ok_def in_range_def)

text \<open>\<open>pool_get\<close> in one piece.\<close>

lemma pool_get_eq:
  fixes ops :: "'s store_ops" and p :: "'s Pool"
  defines "a \<equiv> next_offset p"
    and "c \<equiv> cycle p \<or> \<not> Less (Next (offset p)) (pool_last p)"
  defines "st \<equiv> if c \<or> store_Exist ops a (pool_store p)
    then DelByIP ops a (pool_store p) else pool_store p"
  shows "pool_get ops host p
    = (a, p\<lparr>offset := a, cycle := c, pool_store := PutByIP ops a host st\<rparr>)"
  by (cases p) (simp add: pool_get_def Let_def assms next_offset_def)

context fake_store
begin

lemma ip_of_cong: "sinv s \<Longrightarrow> sinv t \<Longrightarrow> host_of s = host_of t \<Longrightarrow> ip_of s = ip_of t"
proof
  fix h
  assume st: "sinv s" "sinv t" "host_of s = host_of t"
  have "ip_of s h = Some a \<longleftrightarrow> ip_of t h = Some a" for a
    by (simp only: mirror [OF st(1)] mirror [OF st(2)] st(3))
  then show "ip_of s h = ip_of t h" by (metis option.exhaust)
qed

lemma ip_of_del: "sinv s \<Longrightarrow> ip_of s h = None \<Longrightarrow> ip_of (DelByIP ops a s) h = None"
proof (rule ccontr)
  assume s: "sinv s" "ip_of s h = None" and "ip_of (DelByIP ops a s) h \<noteq> None"
  then obtain b where "ip_of (DelByIP ops a s) h = Some b" by blast
  then have "host_of s b = Some h"
    using mirror [of "DelByIP ops a s" h b] del [OF s(1), of a] by (simp split: if_splits)
  with mirror [OF s(1), of h b] s(2) show False by simp
qed

lemma Lookup_known:
  assumes "pool_inv sinv host_of p" "ip_of (pool_store p) (ToLower h) = Some a"
  shows "fst (Lookup ops h p) = a
    \<and> host_of (pool_store (snd (Lookup ops h p))) = host_of (pool_store p)
    \<and> pool_inv sinv host_of (snd (Lookup ops h p))"
  using assms get_host [of "pool_store p" "ToLower h"]
  by (auto simp: Lookup_def Let_def pool_inv_def range_ok_def in_range_def)

lemma Lookup_new:
  assumes p: "pool_inv sinv host_of p" and new: "ip_of (pool_store p) (ToLower h) = None"
  shows "fst (Lookup ops h p) = next_offset p
    \<and> host_of (pool_store (snd (Lookup ops h p))) (next_offset p) = Some (ToLower h)
    \<and> host_of (pool_store (snd (Lookup ops h p)))
        \<subseteq>\<^sub>m (host_of (pool_store p))(next_offset p \<mapsto> ToLower h)
    \<and> offset (snd (Lookup ops h p)) = next_offset p
    \<and> pool_inv sinv host_of (snd (Lookup ops h p))"
proof -
  let ?h = "ToLower h" and ?s = "pool_store p" and ?a = "next_offset p"
  let ?r = "snd (GetByHost ops ?h ?s)"
  let ?c = "cycle p \<or> \<not> Less (Next (offset p)) (pool_last p)"
  let ?t = "if ?c \<or> store_Exist ops ?a ?r then DelByIP ops ?a ?r else ?r"
  let ?u = "PutByHost ops ?h ?a (PutByIP ops ?a ?h ?t)"
  from p have s: "sinv ?s" and rok: "range_ok p"
    and rng: "\<And>x y. host_of ?s x = Some y \<Longrightarrow> in_range p x \<and> ToLower y = y"
    by (auto simp: pool_inv_def)
  from get_host [OF s, of ?h] new have r: "fst (GetByHost ops ?h ?s) = None" "sinv ?r"
    "host_of ?r = host_of ?s" by auto
  from ip_of_cong [OF s r(2)] r(3) new have rn: "ip_of ?r ?h = None" by simp
  have t: "sinv ?t" "ip_of ?t ?h = None" "host_of ?t ?a = None" "host_of ?t \<subseteq>\<^sub>m host_of ?s"
  proof -
    have d: "sinv (DelByIP ops ?a ?r)" "host_of (DelByIP ops ?a ?r) = (host_of ?s)(?a := None)"
      using del [OF r(2), of ?a] r(3) by auto
    show "sinv ?t" using r(2) d(1) by (simp split: if_split)
    show "ip_of ?t ?h = None" using rn ip_of_del [OF r(2) rn, of ?a] by (simp split: if_split)
    show "host_of ?t ?a = None"
      using d(2) exist [OF r(2), of ?a] r(3) by (cases "?c \<or> store_Exist ops ?a ?r") auto
    have "(host_of ?s)(?a := None) \<subseteq>\<^sub>m host_of ?s" by (auto simp: map_le_def)
    then show "host_of ?t \<subseteq>\<^sub>m host_of ?s"
      using d(2) r(3) by (cases "?c \<or> store_Exist ops ?a ?r") simp_all
  qed
  from bind [OF t(1-3)] have u: "sinv ?u" "host_of ?u ?a = Some ?h"
    "host_of ?u \<subseteq>\<^sub>m (host_of ?t)(?a \<mapsto> ?h)" by auto
  have sub: "host_of ?u \<subseteq>\<^sub>m (host_of ?s)(?a \<mapsto> ?h)"
    by (rule map_le_trans [OF u(3) map_le_upd [OF t(4)]])
  have no: "next_offset (p\<lparr>pool_store := ?r\<rparr>) = ?a" by (simp add: next_offset_def)
  have L: "Lookup ops h p = (?a, p\<lparr>offset := ?a, cycle := ?c, pool_store := ?u\<rparr>)"
    using r(1) by (simp add: Lookup_def Let_def pool_get_eq no)
  have ia: "in_range p ?a" by (rule next_offset_range [OF rok])
  let ?q = "p\<lparr>offset := ?a, cycle := ?c, pool_store := ?u\<rparr>"
  have "in_range ?q x \<and> ToLower y = y" if y: "host_of (pool_store ?q) x = Some y" for x y
  proof (cases "x = ?a")
    case True
    with ia u(2) y show ?thesis by (auto simp: in_range_def)
  next
    case False
    from y have "x \<in> dom (host_of ?u)" by auto
    with sub have "host_of ?u x = ((host_of ?s)(?a \<mapsto> ?h)) x" by (simp only: map_le_def)
    with y False have "host_of ?s x = Some y" by simp
    from rng [OF this] show ?thesis by (simp add: in_range_def)
  qed
  moreover have "sinv (pool_store ?q)" using u(1) by simp
  ultimately have "pool_inv sinv host_of (snd (Lookup ops h p))"
    unfolding L snd_conv pool_inv_def using range_ok_offset [OF rok ia] by blast
  with u(2) sub show ?thesis by (simp add: L)
qed

end

context fake_store
begin

lemma Lookup_spec:
  assumes "pool_inv sinv host_of p"
  shows "pool_inv sinv host_of (snd (Lookup ops h p))
    \<and> host_of (pool_store (snd (Lookup ops h p))) (fst (Lookup ops h p)) = Some (ToLower h)"
proof (cases "ip_of (pool_store p) (ToLower h)")
  case None
  from Lookup_new [OF assms None] show ?thesis by simp
next
  case (Some a)
  from assms have "sinv (pool_store p)" by (simp add: pool_inv_def)
  from mirror [OF this, of "ToLower h" a] Lookup_known [OF assms Some] Some show ?thesis by simp
qed

lemma LookBack_spec:
  assumes "pool_inv sinv host_of p"
  shows "fst (LookBack ops a p) = host_of (pool_store p) a
    \<and> host_of (pool_store (snd (LookBack ops a p))) = host_of (pool_store p)
    \<and> pool_inv sinv host_of (snd (LookBack ops a p))"
  using assms get_ip [of "pool_store p" a]
  by (auto simp: LookBack_def Let_def pool_inv_def range_ok_def in_range_def)

lemma FlushFakeIP_inv:
  assumes "pool_inv sinv host_of p"
  shows "pool_inv sinv host_of (snd (FlushFakeIP ops p))"
proof -
  from assms have s: "sinv (pool_store p)" and r: "range_ok p"
    and h: "\<And>a y. host_of (pool_store p) a = Some y \<Longrightarrow> in_range p a \<and> ToLower y = y"
    by (auto simp: pool_inv_def)
  let ?f = "store_FlushFakeIP ops (pool_store p)"
  show ?thesis
  proof (cases "fst ?f = None")
    case True
    have "range_ok (p\<lparr>pool_store := snd ?f, cycle := False, offset := Prev (pool_first p)\<rparr>)"
      using r Prev_props [of "pool_first p"] by (auto simp: range_ok_def)
    with True flush [OF s] show ?thesis by (simp add: FlushFakeIP_def Let_def pool_inv_def)
  next
    case False
    have rs: "range_ok (p\<lparr>pool_store := snd ?f\<rparr>)" using r by (simp add: range_ok_def)
    have "in_range (p\<lparr>pool_store := snd ?f\<rparr>) a \<and> ToLower y = y"
      if "host_of (pool_store p) a = Some y" for a y
      using h [OF that] by (simp add: in_range_def)
    with rs False flush [OF s] show ?thesis
      by (auto simp: FlushFakeIP_def Let_def pool_inv_def)
  qed
qed

end

section \<open>The in-memory store\<close>

text \<open>
  The caches have a size bound and no age, so the time \<open>now\<close> they are called at does not matter;
  it is an argument because the cache operations have it.
\<close>

record memoryStore =
  cacheIP :: "(string, Addr) LruCache"
  cacheHost :: "(Addr, string) LruCache"

definition mem_GetByHost :: "int \<Rightarrow> string \<Rightarrow> memoryStore \<Rightarrow> Addr option \<times> memoryStore" where
  "mem_GetByHost now host m =
     (let r = Get now host (cacheIP m); m1 = m\<lparr>cacheIP := snd r\<rparr>
      in case fst r of
           Some ip \<Rightarrow> (Some ip, m1\<lparr>cacheHost := snd (Get now ip (cacheHost m1))\<rparr>)
         | None \<Rightarrow> (None, m1))"

definition mem_PutByHost :: "int \<Rightarrow> string \<Rightarrow> Addr \<Rightarrow> memoryStore \<Rightarrow> memoryStore" where
  "mem_PutByHost now host ip m = m\<lparr>cacheIP := Set now host ip (cacheIP m)\<rparr>"

definition mem_GetByIP :: "int \<Rightarrow> Addr \<Rightarrow> memoryStore \<Rightarrow> string option \<times> memoryStore" where
  "mem_GetByIP now ip m =
     (let r = Get now ip (cacheHost m); m1 = m\<lparr>cacheHost := snd r\<rparr>
      in case fst r of
           Some host \<Rightarrow> (Some host, m1\<lparr>cacheIP := snd (Get now host (cacheIP m1))\<rparr>)
         | None \<Rightarrow> (None, m1))"

definition mem_PutByIP :: "int \<Rightarrow> Addr \<Rightarrow> string \<Rightarrow> memoryStore \<Rightarrow> memoryStore" where
  "mem_PutByIP now ip host m = m\<lparr>cacheHost := Set now ip host (cacheHost m)\<rparr>"

definition mem_DelByIP :: "int \<Rightarrow> Addr \<Rightarrow> memoryStore \<Rightarrow> memoryStore" where
  "mem_DelByIP now ip m =
     (let r = Get now ip (cacheHost m);
          m1 = m\<lparr>cacheHost := snd r\<rparr>;
          m2 = (case fst r of
                  Some host \<Rightarrow> m1\<lparr>cacheIP := Delete host (cacheIP m1)\<rparr>
                | None \<Rightarrow> m1)
      in m2\<lparr>cacheHost := Delete ip (cacheHost m2)\<rparr>)"

definition mem_Exist :: "Addr \<Rightarrow> memoryStore \<Rightarrow> bool" where
  "mem_Exist ip m = Exist ip (cacheHost m)"

definition mem_CloneTo :: "memoryStore \<Rightarrow> memoryStore \<Rightarrow> memoryStore" where
  "mem_CloneTo m ms =
     ms\<lparr>cacheIP := CloneTo (cacheIP m) (cacheIP ms), cacheHost := CloneTo (cacheHost m) (cacheHost ms)\<rparr>"

definition mem_FlushFakeIP :: "memoryStore \<Rightarrow> string option \<times> memoryStore" where
  "mem_FlushFakeIP m = (None, m\<lparr>cacheIP := Clear (cacheIP m), cacheHost := Clear (cacheHost m)\<rparr>)"

definition newMemoryStore :: "int \<Rightarrow> memoryStore" where
  "newMemoryStore sz = \<lparr>cacheIP = NewCache [WithSize sz], cacheHost = NewCache [WithSize sz]\<rparr>"

definition memory_ops :: "int \<Rightarrow> memoryStore store_ops" where
  "memory_ops now =
     \<lparr>GetByHost = mem_GetByHost now, PutByHost = mem_PutByHost now, GetByIP = mem_GetByIP now,
      PutByIP = mem_PutByIP now, DelByIP = mem_DelByIP now, store_Exist = mem_Exist,
      store_CloneTo = mem_CloneTo, store_FlushFakeIP = mem_FlushFakeIP, is_cachefileStore = False\<rparr>"

section \<open>The two caches mirror each other\<close>

definition pairs :: "('k, 'v) LruCache \<Rightarrow> ('k \<times> 'v) list" where
  "pairs c = map (\<lambda>e. (e_key e, e_value e)) (lru c)"

text \<open>The entries of the two caches are the same pairs in the same order of use.\<close>

definition mem_inv :: "memoryStore \<Rightarrow> bool" where
  "mem_inv m = (cache_inv (cacheIP m) \<and> cache_inv (cacheHost m)
     \<and> maxAge (cacheIP m) = 0 \<and> maxAge (cacheHost m) = 0
     \<and> maxSize (cacheIP m) = maxSize (cacheHost m)
     \<and> pairs (cacheHost m) = map prod.swap (pairs (cacheIP m)))"

definition mem_ip_of :: "memoryStore \<Rightarrow> string \<Rightarrow> Addr option" where
  "mem_ip_of m h = map_of (pairs (cacheIP m)) h"

definition mem_host_of :: "memoryStore \<Rightarrow> Addr \<Rightarrow> string option" where
  "mem_host_of m a = map_of (pairs (cacheHost m)) a"

lemma cached_pairs: "map_of (pairs c) k = map_option e_value (cached c k)"
proof -
  have "map_of (map (\<lambda>e. (e_key e, e_value e)) es) j = map_option e_value (find (\<lambda>e. e_key e = j) es)"
    for es :: "('x, 'y) lru_entry list" and j
    by (induction es) auto
  then show ?thesis by (simp add: pairs_def cached_def)
qed

lemma cache_inv_pairs: "cache_inv c \<longleftrightarrow> distinct (map fst (pairs c))
    \<and> (maxSize c > 0 \<longrightarrow> int (length (pairs c)) \<le> maxSize c)"
  by (simp add: cache_inv_def pairs_def keys_of_def o_def)

lemma pairs_without: "map (\<lambda>e. (e_key e, e_value e)) (without k es)
    = filter (\<lambda>x. fst x \<noteq> k) (map (\<lambda>e. (e_key e, e_value e)) es)"
  by (induction es) auto

text \<open>The cache operations on the pairs, for a cache without an age.\<close>

lemma Get_pairs:
  assumes "maxAge c = 0"
  shows "fst (Get now k c) = map_of (pairs c) k"
    and "pairs (snd (Get now k c)) = (case map_of (pairs c) k of None \<Rightarrow> pairs c
      | Some v \<Rightarrow> filter (\<lambda>x. fst x \<noteq> k) (pairs c) @ [(k, v)])"
    and "maxAge (snd (Get now k c)) = 0" "maxSize (snd (Get now k c)) = maxSize c"
    and "cache_inv c \<Longrightarrow> cache_inv (snd (Get now k c))"
proof -
  show "fst (Get now k c) = map_of (pairs c) k"
    using assms by (auto simp: Get_def cache_get_def cached_pairs split: option.split)
  show "pairs (snd (Get now k c)) = (case map_of (pairs c) k of None \<Rightarrow> pairs c
      | Some v \<Rightarrow> filter (\<lambda>x. fst x \<noteq> k) (pairs c) @ [(k, v)])"
    using assms cached_Some [of c k]
    by (cases "cached c k") (auto simp: Get_def cache_get_def cached_pairs, simp add: pairs_def pairs_without)
  show "maxAge (snd (Get now k c)) = 0" "maxSize (snd (Get now k c)) = maxSize c"
    using assms by (auto simp: Get_def cache_get_def split: option.split)
  show "cache_inv (snd (Get now k c))" if "cache_inv c"
    using cache_get_inv [OF that, of now k] by (auto simp: Get_def split: prod.split)
qed

lemma Set_pairs:
  assumes "cache_inv c" "maxAge c = 0" "map_of (pairs c) k = None"
  shows "pairs (Set now k v c) = (if maxSize c > 0 \<and> int (length (pairs c)) = maxSize c
    then tl (pairs c) else pairs c) @ [(k, v)]"
proof -
  have n: "cached c k = None" using assms(3) by (simp add: cached_pairs)
  then have k: "k \<notin> set (keys_of (lru c))" by (simp add: cached_None)
  show ?thesis
  proof (cases "lru c")
    case Nil
    then show ?thesis using assms n
      by (auto simp: Set_def cache_set_def setWithExpire_def Let_def maybeDeleteOldest_def pairs_def)
  next
    case (Cons e es)
    with assms(1) have d: "e_key e \<notin> set (keys_of es)" by (simp add: cache_inv_def)
    have l: "maxSize c > 0 \<Longrightarrow> maxSize c < int (length (lru c)) + 1 \<longleftrightarrow> int (length (lru c)) = maxSize c"
      using assms(1) by (auto simp: cache_inv_def)
    show ?thesis using assms n k d l Cons
      by (auto simp: Set_def cache_set_def setWithExpire_def Let_def maybeDeleteOldest_def pairs_def
          without_id)
  qed
qed

lemma Set_params: "maxAge (Set now k v c) = maxAge c" "maxSize (Set now k v c) = maxSize c"
  "cache_inv c \<Longrightarrow> cache_inv (Set now k v c)"
  by (simp_all add: Set_def cache_set_def Let_def setWithExpire_inv)

lemma Delete_pairs:
  "pairs (Delete k c) = filter (\<lambda>x. fst x \<noteq> k) (pairs c)"
  "maxAge (Delete k c) = maxAge c" "maxSize (Delete k c) = maxSize c"
  "cache_inv c \<Longrightarrow> cache_inv (Delete k c)"
proof -
  show "pairs (Delete k c) = filter (\<lambda>x. fst x \<noteq> k) (pairs c)"
  proof (cases "cached c k")
    case None
    then have "k \<notin> set (keys_of (lru c))" by (simp add: cached_None)
    then have "filter (\<lambda>x. fst x \<noteq> k) (pairs c) = pairs c"
      by (auto simp: filter_id_conv pairs_def keys_of_def)
    with None show ?thesis by (simp add: Delete_def cache_delete_def)
  next
    case (Some e)
    with cached_Some [OF Some] show ?thesis
      by (simp add: Delete_def cache_delete_def pairs_def pairs_without)
  qed
  show "maxAge (Delete k c) = maxAge c" "maxSize (Delete k c) = maxSize c"
    by (simp_all add: Delete_def cache_delete_def split: option.split)
  show "cache_inv c \<Longrightarrow> cache_inv (Delete k c)"
    by (simp add: Delete_def cache_delete_inv)
qed

text \<open>Lists of pairs in which no first and no second component is repeated.\<close>

lemma filter_pair:
  assumes "distinct (map fst ps)" "distinct (map snd ps)" "(h, a) \<in> set ps"
  shows "filter (\<lambda>x. fst x \<noteq> h) ps = filter (\<lambda>x. snd x \<noteq> a) ps"
proof (rule filter_cong [OF refl])
  fix x assume "x \<in> set ps"
  then show "(fst x \<noteq> h) = (snd x \<noteq> a)"
    using assms by (metis distinct_map fst_conv inj_onD snd_conv)
qed

lemma filter_move:
  assumes "distinct (map fst ps)" "(h, a) \<in> set ps"
  shows "set (filter (\<lambda>x. fst x \<noteq> h) ps @ [(h, a)]) = set ps"
proof -
  have "\<forall>x\<in>set ps. fst x = h \<longrightarrow> x = (h, a)"
    using assms by (metis distinct_map fst_conv inj_on_def)
  with assms(2) show ?thesis unfolding set_append set_filter by (simp only: list.set) blast
qed

lemma map_of_swap:
  assumes "distinct (map fst ps)" "distinct (map snd ps)"
  shows "map_of (map prod.swap ps) a = Some h \<longleftrightarrow> map_of ps h = Some a"
proof -
  have "distinct (map fst (map prod.swap ps))" using assms(2) by (simp add: o_def)
  then show ?thesis using assms(1) by (auto simp: map_of_eq_Some_iff)
qed

lemma filter_swap: "filter (\<lambda>x. fst x \<noteq> a) (map prod.swap ps) = map prod.swap (filter (\<lambda>x. snd x \<noteq> a) ps)"
  by (simp add: filter_map o_def)


lemma mem_inv_distinct:
  "mem_inv m \<Longrightarrow> distinct (map fst (pairs (cacheIP m))) \<and> distinct (map snd (pairs (cacheIP m)))"
  by (auto simp: mem_inv_def cache_inv_pairs o_def)

lemma mem_mirror: "mem_inv m \<Longrightarrow> mem_ip_of m h = Some a \<longleftrightarrow> mem_host_of m a = Some h"
  using mem_inv_distinct [of m] map_of_swap [of "pairs (cacheIP m)" a h]
  by (auto simp: mem_ip_of_def mem_host_of_def mem_inv_def)

text \<open>Using a pair moves it to the end of both lists.\<close>

lemma mem_touch:
  fixes now :: int
  assumes m: "mem_inv m" and ha: "(h, a) \<in> set (pairs (cacheIP m))"
  defines "m' \<equiv> m\<lparr>cacheIP := snd (Get now h (cacheIP m)), cacheHost := snd (Get now a (cacheHost m))\<rparr>"
  shows "mem_inv m' \<and> mem_host_of m' = mem_host_of m"
proof -
  let ?ps = "pairs (cacheIP m)"
  note d = mem_inv_distinct [OF m, THEN conjunct1] mem_inv_distinct [OF m, THEN conjunct2]
  from m have c: "maxAge (cacheIP m) = 0" "maxAge (cacheHost m) = 0"
    "pairs (cacheHost m) = map prod.swap ?ps" by (auto simp: mem_inv_def)
  from ha d(1) have v: "map_of ?ps h = Some a" by simp
  then have w: "map_of (pairs (cacheHost m)) a = Some h" using map_of_swap [OF d] c(3) by simp
  let ?qs = "filter (\<lambda>x. fst x \<noteq> h) ?ps @ [(h, a)]"
  have ip: "pairs (snd (Get now h (cacheIP m))) = ?qs"
    using Get_pairs(2) [OF c(1), of now h] v by simp
  have hst: "pairs (snd (Get now a (cacheHost m))) = map prod.swap ?qs"
    using Get_pairs(2) [OF c(2), of now a] w filter_pair [OF d ha] by (simp add: c(3) filter_swap)
  have inv: "mem_inv m'"
    using m Get_pairs(3-5) [OF c(1), of now h] Get_pairs(3-5) [OF c(2), of now a]
    unfolding mem_inv_def m'_def by (simp add: ip hst)
  have "map_of (map prod.swap ?qs) x = map_of (pairs (cacheHost m)) x" for x
  proof -
    have ds: "distinct (map fst (map prod.swap ?qs))"
    proof -
      have "cache_inv (snd (Get now a (cacheHost m)))"
        using m by (intro Get_pairs(5) [OF c(2)]) (simp add: mem_inv_def)
      then show ?thesis unfolding cache_inv_pairs hst by (rule conjunct1)
    qed
    have st: "set (map prod.swap ?qs) = set (map prod.swap ?ps)"
      using filter_move [OF d(1) ha] by (simp only: set_map)
    have "distinct (map fst (map prod.swap ?ps))" using d by (simp add: o_def)
    with ds st show ?thesis unfolding c(3) by (metis map_of_inject_set)
  qed
  with inv show ?thesis unfolding mem_host_of_def m'_def by (simp add: hst fun_eq_iff)
qed

lemma mem_inv_pairs_mem:
  "mem_inv m \<Longrightarrow> map_of (pairs (cacheIP m)) h = Some a \<Longrightarrow> (h, a) \<in> set (pairs (cacheIP m))"
  "mem_inv m \<Longrightarrow> map_of (pairs (cacheHost m)) a = Some h \<Longrightarrow> (h, a) \<in> set (pairs (cacheIP m))"
  using mem_mirror [of m h a] by (auto simp: mem_ip_of_def mem_host_of_def dest: map_of_SomeD)

lemma Get_missing: "map_of (pairs c) k = None \<Longrightarrow> Get now k c = (None, c)"
  by (simp add: cached_pairs Get_def cache_get_def)

lemma mem_GetByHost_spec:
  assumes m: "mem_inv m"
  shows "fst (mem_GetByHost now h m) = mem_ip_of m h
    \<and> mem_inv (snd (mem_GetByHost now h m)) \<and> mem_host_of (snd (mem_GetByHost now h m)) = mem_host_of m"
proof (cases "map_of (pairs (cacheIP m)) h")
  case None
  then show ?thesis using m by (simp add: mem_GetByHost_def Get_missing mem_ip_of_def)
next
  case (Some a)
  have g: "fst (Get now h (cacheIP m)) = Some a"
    using m Get_pairs(1) [of "cacheIP m" now h] Some by (simp add: mem_inv_def)
  show ?thesis using mem_touch [OF m mem_inv_pairs_mem(1) [OF m Some], of now] g Some
    by (simp add: mem_GetByHost_def mem_ip_of_def Let_def)
qed

lemma mem_GetByIP_spec:
  assumes m: "mem_inv m"
  shows "fst (mem_GetByIP now a m) = mem_host_of m a
    \<and> mem_inv (snd (mem_GetByIP now a m)) \<and> mem_host_of (snd (mem_GetByIP now a m)) = mem_host_of m"
proof (cases "map_of (pairs (cacheHost m)) a")
  case None
  then show ?thesis using m by (simp add: mem_GetByIP_def Get_missing mem_host_of_def)
next
  case (Some h)
  have g: "fst (Get now a (cacheHost m)) = Some h"
    using m Get_pairs(1) [of "cacheHost m" now a] Some by (simp add: mem_inv_def)
  have "mem_GetByIP now a m = (Some h,
      m\<lparr>cacheIP := snd (Get now h (cacheIP m)), cacheHost := snd (Get now a (cacheHost m))\<rparr>)"
    using g by (simp add: mem_GetByIP_def Let_def)
  with mem_touch [OF m mem_inv_pairs_mem(2) [OF m Some], of now] Some show ?thesis
    by (simp add: mem_host_of_def)
qed

lemma map_of_filter_fst: "map_of (filter (\<lambda>x. fst x \<noteq> a) ps) = (map_of ps)(a := None)"
  by (induction ps) auto

lemma mem_DelByIP_spec:
  assumes m: "mem_inv m"
  shows "mem_inv (mem_DelByIP now a m) \<and> mem_host_of (mem_DelByIP now a m) = (mem_host_of m)(a := None)"
proof (cases "map_of (pairs (cacheHost m)) a")
  case None
  then have "mem_DelByIP now a m = m"
    by (simp add: mem_DelByIP_def Get_missing Delete_def cache_delete_def cached_pairs)
  with m None show ?thesis by (simp add: mem_host_of_def fun_upd_idem_iff fun_eq_iff)
next
  case (Some h)
  note d = mem_inv_distinct [OF m, THEN conjunct1] mem_inv_distinct [OF m, THEN conjunct2]
  note ha = mem_inv_pairs_mem(2) [OF m Some]
  from m have c: "maxAge (cacheHost m) = 0" "pairs (cacheHost m) = map prod.swap (pairs (cacheIP m))"
    by (auto simp: mem_inv_def)
  let ?g = "snd (Get now a (cacheHost m))"
  have D: "mem_DelByIP now a m = m\<lparr>cacheIP := Delete h (cacheIP m), cacheHost := Delete a ?g\<rparr>"
    using Get_pairs(1) [OF c(1), of now a] Some by (simp add: mem_DelByIP_def Let_def)
  have h: "pairs (Delete a ?g) = filter (\<lambda>x. fst x \<noteq> a) (pairs (cacheHost m))"
    using Get_pairs(2) [OF c(1), of now a] Some by (simp add: Delete_pairs(1))
  have "pairs (Delete a ?g) = map prod.swap (pairs (Delete h (cacheIP m)))"
    unfolding h by (simp only: Delete_pairs(1) c(2) filter_swap filter_pair [OF d ha])
  then have "mem_inv (mem_DelByIP now a m)"
    using m Get_pairs(3-5) [OF c(1), of now a]
    unfolding D mem_inv_def by (simp add: Delete_pairs(2-4))
  then show ?thesis
    by (simp add: D mem_host_of_def fun_eq_iff h map_of_filter_fst)
qed

lemma map_of_tl: "distinct (map fst ps) \<Longrightarrow> map_of (tl ps) \<subseteq>\<^sub>m map_of ps"
  by (cases ps) (force simp: map_le_def dom_map_of_conv_image_fst)+

lemma mem_bind:
  fixes now :: int
  assumes m: "mem_inv m" and h: "mem_ip_of m h = None" and a: "mem_host_of m a = None"
  defines "m' \<equiv> mem_PutByHost now h a (mem_PutByIP now a h m)"
  shows "mem_inv m' \<and> mem_host_of m' a = Some h \<and> mem_host_of m' \<subseteq>\<^sub>m (mem_host_of m)(a \<mapsto> h)"
proof -
  let ?ps = "pairs (cacheIP m)" and ?qs = "pairs (cacheHost m)"
  from m have c: "cache_inv (cacheIP m)" "cache_inv (cacheHost m)" "maxAge (cacheIP m) = 0"
    "maxAge (cacheHost m) = 0" "maxSize (cacheIP m) = maxSize (cacheHost m)"
    "?qs = map prod.swap ?ps" by (auto simp: mem_inv_def)
  let ?full = "maxSize (cacheHost m) > 0 \<and> int (length ?ps) = maxSize (cacheHost m)"
  let ?keep = "\<lambda>xs. if ?full then tl xs else xs"
  have ip: "pairs (Set now h a (cacheIP m)) = ?keep ?ps @ [(h, a)]"
    using Set_pairs [OF c(1) c(3)] h by (simp add: c(5) mem_ip_of_def)
  have hst: "pairs (Set now a h (cacheHost m)) = ?keep ?qs @ [(a, h)]"
    using Set_pairs [OF c(2) c(4)] a by (simp add: c(6) mem_host_of_def)
  have M: "m' = m\<lparr>cacheIP := Set now h a (cacheIP m), cacheHost := Set now a h (cacheHost m)\<rparr>"
    by (simp add: m'_def mem_PutByHost_def mem_PutByIP_def)
  have inv: "mem_inv m'"
    using c unfolding M mem_inv_def by (simp add: Set_params ip hst map_tl)
  have dq: "distinct (map fst ?qs)" using c(2) by (simp add: cache_inv_pairs)
  have an: "a \<notin> fst ` set ?qs" using a by (simp add: mem_host_of_def map_of_eq_None_iff)
  have sub: "map_of (?keep ?qs) \<subseteq>\<^sub>m map_of ?qs" using map_of_tl [OF dq] by simp
  have kn: "map_of (?keep ?qs) a = None" 
  proof (rule ccontr)
    assume "map_of (?keep ?qs) a \<noteq> None"
    then have "a \<in> dom (map_of (?keep ?qs))" by blast
    with sub have "map_of ?qs a \<noteq> None" by (simp only: map_le_def) (metis domD option.distinct(1))
    with an show False by (simp add: map_of_eq_None_iff)
  qed
  have "mem_host_of m' = (map_of (?keep ?qs))(a \<mapsto> h)"
    unfolding M mem_host_of_def using kn by (auto simp: fun_eq_iff hst map_add_def split: option.split)
  moreover have "mem_host_of m = map_of ?qs" by (simp add: mem_host_of_def fun_eq_iff)
  ultimately show ?thesis using inv map_le_upd [OF sub, of a "Some h"] by simp
qed

interpretation mem: fake_store "memory_ops now" mem_inv mem_ip_of mem_host_of for now
proof unfold_locales
  fix m :: memoryStore and h a
  assume m: "mem_inv m"
  show "mem_ip_of m h = Some a \<longleftrightarrow> mem_host_of m a = Some h" by (rule mem_mirror [OF m])
  show "fst (GetByHost (memory_ops now) h m) = mem_ip_of m h
      \<and> mem_inv (snd (GetByHost (memory_ops now) h m))
      \<and> mem_host_of (snd (GetByHost (memory_ops now) h m)) = mem_host_of m"
    by (simp only: memory_ops_def store_ops.select_convs mem_GetByHost_spec [OF m])
  show "fst (GetByIP (memory_ops now) a m) = mem_host_of m a
      \<and> mem_inv (snd (GetByIP (memory_ops now) a m))
      \<and> mem_host_of (snd (GetByIP (memory_ops now) a m)) = mem_host_of m"
    by (simp only: memory_ops_def store_ops.select_convs mem_GetByIP_spec [OF m])
  show "store_Exist (memory_ops now) a m \<longleftrightarrow> mem_host_of m a \<noteq> None"
    by (simp add: memory_ops_def mem_Exist_def Exist_def mem_host_of_def cached_pairs)
  show "mem_inv (DelByIP (memory_ops now) a m)
      \<and> mem_host_of (DelByIP (memory_ops now) a m) = (mem_host_of m)(a := None)"
    by (simp only: memory_ops_def store_ops.select_convs mem_DelByIP_spec [OF m])
  show "mem_inv (snd (store_FlushFakeIP (memory_ops now) m))
      \<and> mem_host_of (snd (store_FlushFakeIP (memory_ops now) m))
        = (if fst (store_FlushFakeIP (memory_ops now) m) = None then Map.empty else mem_host_of m)"
    using m by (simp add: memory_ops_def mem_FlushFakeIP_def mem_inv_def Clear_def cache_inv_pairs
        pairs_def mem_host_of_def fun_eq_iff)
  show "mem_inv (PutByHost (memory_ops now) h a (PutByIP (memory_ops now) a h m))
      \<and> mem_host_of (PutByHost (memory_ops now) h a (PutByIP (memory_ops now) a h m)) a = Some h
      \<and> mem_host_of (PutByHost (memory_ops now) h a (PutByIP (memory_ops now) a h m))
        \<subseteq>\<^sub>m (mem_host_of m)(a \<mapsto> h)" if "mem_ip_of m h = None" "mem_host_of m a = None"
    unfolding memory_ops_def store_ops.select_convs by (rule mem_bind [OF m that])
qed

section \<open>Pools in use\<close>

text \<open>What the documentation of \<open>netipx.PrefixLastIP\<close> promises and the pool relies on.\<close>

definition last_ip_ok :: "(Prefix \<Rightarrow> Addr) \<Rightarrow> Prefix \<Rightarrow> bool" where
  "last_ip_ok PrefixLastIP net =
     (BitLen (PrefixLastIP net) = BitLen (pfx_addr net) \<and> Zone (PrefixLastIP net) = [])"

datatype pool_op = OpLookup string | OpLookBack Addr | OpFlush

fun pool_step :: "int \<times> pool_op \<Rightarrow> memoryStore Pool \<Rightarrow> memoryStore Pool" where
  "pool_step (now, OpLookup h) p = snd (Lookup (memory_ops now) h p)"
| "pool_step (now, OpLookBack a) p = snd (LookBack (memory_ops now) a p)"
| "pool_step (now, OpFlush) p = snd (FlushFakeIP (memory_ops now) p)"

lemma pool_step_inv: "pool_inv mem_inv mem_host_of p \<Longrightarrow> pool_inv mem_inv mem_host_of (pool_step x p)"
  using mem.Lookup_spec mem.LookBack_spec mem.FlushFakeIP_inv
  by (cases x; cases "snd x") (metis pool_step.simps prod.collapse snd_conv)+

lemma pool_steps_inv:
  "pool_inv mem_inv mem_host_of p \<Longrightarrow> pool_inv mem_inv mem_host_of (fold pool_step xs p)"
  by (induction xs arbitrary: p) (auto simp: pool_step_inv)

lemma newMemoryStore_inv:
  "mem_inv (newMemoryStore sz) \<and> mem_host_of (newMemoryStore sz) = Map.empty"
  by (simp add: newMemoryStore_def mem_inv_def cache_inv_pairs pairs_def NewCache_empty
      mem_host_of_def fun_eq_iff) (simp add: NewCache_def)

lemma Masked_props: "BitLen (Masked net) = BitLen (pfx_addr net) \<and> Zone (Masked net) = []"
  by (simp add: Masked_def split: Addr.split)

lemma Prev_Next: "IsValid (Next a) \<Longrightarrow> Prev (Next a) = a"
  by (cases a) auto

lemma BitLen_IsValid: "IsValid a \<longleftrightarrow> BitLen a \<noteq> 0"
  by (cases a) auto

lemma NewPool_inv:
  assumes "NewPool PrefixLastIP (memory_ops t) (newMemoryStore sz) net = Inr p"
    and "last_ip_ok PrefixLastIP net"
  shows "pool_inv mem_inv mem_host_of p \<and> offset p = Prev (pool_first p) \<and> mem_host_of (pool_store p) = Map.empty"
proof -
  let ?f = "Next (Next (Next (Next (Masked net))))"
  from assms(1) have v: "IsValid ?f" and l: "Less ?f (PrefixLastIP net)"
    and p: "p = \<lparr>gateway = Next (Masked net), pool_first = ?f, pool_last = PrefixLastIP net,
        offset = Prev ?f, cycle = False, ipnet = net, pool_store = newMemoryStore sz\<rparr>"
    by (auto simp: NewPool_def Let_def restoreState_def memory_ops_def split: if_splits)
  note v' = v IsValid_NextD [OF v] IsValid_NextD [OF IsValid_NextD [OF v]]
    IsValid_NextD [OF IsValid_NextD [OF IsValid_NextD [OF v]]]
  have f: "BitLen ?f = BitLen (pfx_addr net)" "Zone ?f = []"
    using v' Masked_props [of net] by (simp_all add: BitLen_Next Zone_Next)
  have lt: "addr_val ?f < addr_val (PrefixLastIP net)"
    using l f assms(2) by (auto simp: Less_def last_ip_ok_def split: if_splits)
  have pv: "IsValid (Prev ?f)" using v'(2) by (simp add: Prev_Next [OF v])
  have "range_ok p"
    using f lt pv v Prev_props [OF pv] assms(2) by (auto simp: range_ok_def p last_ip_ok_def BitLen_IsValid)
  then show ?thesis using newMemoryStore_inv by (simp add: pool_inv_def p)
qed

text \<open>The addresses a sequence of lookups returns.\<close>

fun lookups_from :: "'s store_ops \<Rightarrow> string list \<Rightarrow> 's Pool \<Rightarrow> Addr list" where
  "lookups_from ops [] p = []"
| "lookups_from ops (h # hs) p = fst (Lookup ops h p) # lookups_from ops hs (snd (Lookup ops h p))"

context fake_store
begin

lemma fresh_host:
  assumes "pool_inv sinv host_of p" "Some h \<notin> range (host_of (pool_store p))"
  shows "ip_of (pool_store p) h = None"
proof (rule ccontr)
  assume "ip_of (pool_store p) h \<noteq> None"
  then obtain a where "ip_of (pool_store p) h = Some a" by blast
  with assms(1) have "host_of (pool_store p) a = Some h" by (simp add: mirror pool_inv_def)
  with assms(2) show False by (metis rangeI)
qed

lemma known:
  assumes "pool_inv sinv host_of p" "host_of (pool_store p) a = Some h" "ToLower g = h"
  shows "fst (Lookup ops g p) = a"
  using Lookup_known [OF assms(1), of g a] mirror [of "pool_store p" h a] assms
  by (simp add: pool_inv_def)

lemma map_le_range: "f \<subseteq>\<^sub>m g(a \<mapsto> b) \<Longrightarrow> c \<noteq> b \<Longrightarrow> Some c \<notin> range g \<Longrightarrow> Some c \<notin> range f"
  by (auto simp: map_le_def dom_def) (metis fun_upd_apply option.inject rangeI)

lemma lookups_consecutive:
  assumes "pool_inv sinv host_of p" "distinct (map ToLower hs)"
    and "\<And>h. h \<in> set hs \<Longrightarrow> Some (ToLower h) \<notin> range (host_of (pool_store p))"
    and "addr_val (offset p) + int (length hs) < addr_val (pool_last p)"
  shows "map addr_val (lookups_from ops hs p)
    = map (\<lambda>i. addr_val (offset p) + 1 + int i) [0..<length hs]"
  using assms
proof (induction hs arbitrary: p)
  case (Cons h hs)
  let ?q = "snd (Lookup ops h p)"
  have n: "ip_of (pool_store p) (ToLower h) = None"
    using fresh_host [OF "Cons.prems"(1)] "Cons.prems"(3) by simp
  note L = Lookup_new [OF "Cons.prems"(1) n]
  from "Cons.prems"(1) have r: "range_ok p" by (simp add: pool_inv_def)
  have v: "IsValid (Next (offset p))"
    using r "Cons.prems"(4) by (intro Next_below [of _ "pool_last p"]) (auto simp: range_ok_def)
  have o: "next_offset p = Next (offset p)"
    using r "Cons.prems"(4) addr_val_Next [OF v] BitLen_Next [OF v]
    by (auto simp: next_offset_def Less_def range_ok_def)
  have lst: "pool_last ?q = pool_last p"
    by (simp add: Lookup_def Let_def pool_get_eq split: option.split)
  have "Some (ToLower g) \<notin> range (host_of (pool_store ?q))" if g: "g \<in> set hs" for g
  proof (rule map_le_range)
    have "ToLower g \<in> ToLower ` set hs" using g by (rule imageI)
    with "Cons.prems"(2) show "ToLower g \<noteq> ToLower h" by auto
  qed (use L g "Cons.prems"(3) in auto)
  moreover have "addr_val (offset ?q) = addr_val (offset p) + 1"
    using L o addr_val_Next [OF v] by simp
  ultimately have "map addr_val (lookups_from ops hs ?q)
      = map (\<lambda>i. addr_val (offset p) + 2 + int i) [0..<length hs]"
    using Cons.IH [of ?q] L "Cons.prems"(2,4) lst by simp
  then show ?case
    using L o addr_val_Next [OF v] by (simp add: upt_conv_Cons map_Suc_upt [symmetric] o_def del: upt_Suc)
qed simp

end


section \<open>Properties\<close>

definition example_last :: "Prefix \<Rightarrow> Addr" where
  "example_last net = (case pfx_addr net of
     Addr4 w \<Rightarrow> Addr4 (w + 255) | Addr6 w z \<Rightarrow> Addr6 (w + 255) [] | AddrInvalid \<Rightarrow> AddrInvalid)"

definition example_net :: Prefix where
  "example_net = \<lparr>pfx_addr = Addr4 0xC6120000, pfx_bits = 24\<rparr>"

definition example_pool :: "memoryStore Pool" where
  "example_pool = \<lparr>gateway = Addr4 0xC6120001, pool_first = Addr4 0xC6120004,
     pool_last = Addr4 0xC61200FF, offset = Addr4 0xC6120003, cycle = False, ipnet = example_net,
     pool_store = newMemoryStore 2\<rparr>"

lemma example_NewPool:
  "NewPool example_last (memory_ops 0) (newMemoryStore 2) example_net = Inr example_pool"
  by code_simp

lemma example_last_ok: "last_ip_ok example_last example_net"
  by code_simp

text \<open>
  C6. In a pool over the in-memory store that \<open>New\<close> returned, after any sequence of lookups, reverse
  lookups and flushes, the address \<open>Lookup\<close> gives for a host lies in the range of the pool, and
  looking it up in reverse right afterwards gives the host back, in lower case.
\<close>

theorem LookBack_Lookup:
  assumes "NewPool PrefixLastIP (memory_ops t) (newMemoryStore sz) net = Inr p"
    and "last_ip_ok PrefixLastIP net"
  shows "let q = fold pool_step ops p; r = Lookup (memory_ops now) h q
    in in_range q (fst r) \<and> fst (LookBack (memory_ops later) (fst r) (snd r)) = Some (ToLower h)"
proof -
  let ?q = "fold pool_step ops p"
  let ?r = "Lookup (memory_ops now) h ?q"
  have q: "pool_inv mem_inv mem_host_of ?q"
    using NewPool_inv [OF assms] by (intro pool_steps_inv) simp
  note L = mem.Lookup_spec [OF q, of now h]
  have "in_range (snd ?r) (fst ?r)" using L by (auto simp: pool_inv_def)
  moreover have "pool_first (snd ?r) = pool_first ?q \<and> pool_last (snd ?r) = pool_last ?q"
    by (simp add: Lookup_def Let_def pool_get_eq split: option.split)
  ultimately have "in_range ?q (fst ?r)" by (simp add: in_range_def)
  with L mem.LookBack_spec [of "snd ?r" later "fst ?r"] show ?thesis by (simp add: Let_def)
qed

theorem LookBack_Lookup_witness:
  "in_range example_pool (fst (Lookup (memory_ops 0) ''Example.COM'' example_pool))
   \<and> fst (LookBack (memory_ops 5) (fst (Lookup (memory_ops 0) ''Example.COM'' example_pool))
        (snd (Lookup (memory_ops 0) ''Example.COM'' example_pool))) = Some ''example.com''"
  using LookBack_Lookup [OF example_NewPool example_last_ok, of "[]" 0 "''Example.COM''" 5]
  by (simp add: Let_def) code_simp

text \<open>
  Binding is stable: asking again for the host, in any case of its letters, gives the same
  address; and an address that has a host is the address that host gets.
\<close>

theorem Lookup_stable:
  assumes "NewPool PrefixLastIP (memory_ops t) (newMemoryStore sz) net = Inr p"
    and "last_ip_ok PrefixLastIP net" and "ToLower h' = ToLower h"
  shows "let q = fold pool_step ops p
    in fst (Lookup (memory_ops later) h' (snd (Lookup (memory_ops now) h q)))
          = fst (Lookup (memory_ops now) h q)
       \<and> (\<forall>a. fst (LookBack (memory_ops now) a q) = Some h
            \<longrightarrow> fst (Lookup (memory_ops later) h (snd (LookBack (memory_ops now) a q))) = a)"
proof -
  let ?q = "fold pool_step ops p"
  have q: "pool_inv mem_inv mem_host_of ?q"
    using NewPool_inv [OF assms(1,2)] by (intro pool_steps_inv) simp
  let ?r = "snd (Lookup (memory_ops now) h ?q)"
  have again: "fst (Lookup (memory_ops later) h' ?r) = fst (Lookup (memory_ops now) h ?q)"
  proof -
    from mem.Lookup_spec [OF q, of now h] have r: "pool_inv mem_inv mem_host_of ?r"
      and b: "mem_host_of (pool_store ?r) (fst (Lookup (memory_ops now) h ?q)) = Some (ToLower h)"
      by auto
    from mem.known [OF r b, of h' later] show ?thesis using assms(3) by simp
  qed
  have "fst (Lookup (memory_ops later) h (snd (LookBack (memory_ops now) a ?q))) = a"
    if a: "fst (LookBack (memory_ops now) a ?q) = Some h" for a
  proof -
    note B = mem.LookBack_spec [OF q, of now a]
    from q a B have "ToLower h = h" unfolding pool_inv_def by metis
    with mem.known [of "snd (LookBack (memory_ops now) a ?q)" a "ToLower h" h later] a B
    show ?thesis by simp
  qed
  with again show ?thesis by (simp add: Let_def)
qed

theorem Lookup_stable_witness:
  "fst (Lookup (memory_ops 9) ''EXAMPLE.com'' (snd (Lookup (memory_ops 0) ''Example.COM'' example_pool)))
     = fst (Lookup (memory_ops 0) ''Example.COM'' example_pool)"
proof -
  have "ToLower ''EXAMPLE.com'' = ToLower ''Example.COM''" by code_simp
  from Lookup_stable [OF example_NewPool example_last_ok this, of "[]" 9 0] show ?thesis
    by (simp only: Let_def fold.simps id_apply)
qed

text \<open>
  A new pool hands out consecutive addresses: as long as different hosts are asked for and the
  range is not exhausted, the \<open>i\<close>-th host gets the \<open>i\<close>-th address of the range, whatever the size
  bound of the caches evicts meanwhile.
\<close>

theorem lookups_from_first:
  assumes "NewPool PrefixLastIP (memory_ops t) (newMemoryStore sz) net = Inr p"
    and "last_ip_ok PrefixLastIP net" and "distinct (map ToLower hs)"
    and "addr_val (pool_first p) + int (length hs) \<le> addr_val (pool_last p)"
  shows "map addr_val (lookups_from (memory_ops now) hs p)
    = map (\<lambda>i. addr_val (pool_first p) + int i) [0..<length hs]"
proof -
  note N = NewPool_inv [OF assms(1,2)]
  then have "IsValid (Prev (pool_first p))" by (simp add: pool_inv_def range_ok_def)
  from Prev_props [OF this] N have o: "addr_val (offset p) + 1 = addr_val (pool_first p)" by simp
  show ?thesis
    using mem.lookups_consecutive [of p hs now] N assms(3,4) o by (simp add: o)
qed

theorem lookups_from_first_witness:
  "map addr_val (lookups_from (memory_ops 0) [''a.com'', ''b.com'', ''c.com''] example_pool)
     = [0xC6120004, 0xC6120005, 0xC6120006]"
  using lookups_from_first [OF example_NewPool example_last_ok, of "[''a.com'', ''b.com'', ''c.com'']" 0]
  by (simp add: example_pool_def ToLower_def lower_char_def upt_rec)

end
