(* ===== verification/JumpHash.thy ===== *)
theory JumpHash
  imports Go_Prelude
begin

text \<open>
  The jump consistent hash of the load balancer (\<open>jumpHash\<close> in
  src/adapter/outboundgroup/loadbalance.go). It computes with \<open>float64\<close>. All its values are at
  least one and below \<open>2 ^ 63\<close>, where a \<open>float64\<close> is a multiple of \<open>2 powr -52\<close>; so a float is the
  integer that is \<open>2 ^ 52\<close> times its value, and an operation rounds the exact result to 53
  significant bits, to the nearest and on a tie to the even one, as IEEE 754 asks.
\<close>

section \<open>Rounding\<close>

function bit_size :: "int \<Rightarrow> nat" where
  "bit_size n = (if n \<le> 0 then 0 else Suc (bit_size (n div 2)))"
  by pat_completeness auto
termination
  by (relation "measure nat") auto

declare bit_size.simps [simp del]

text \<open>The quotient rounded to the nearest integer, ties to even.\<close>

definition round_div :: "int \<Rightarrow> int \<Rightarrow> int" where
  "round_div n d = (let q = n div d; r = n mod d
     in if 2 * r < d \<or> (2 * r = d \<and> even q) then q else q + 1)"

text \<open>The float nearest to \<open>n / d\<close>, all scaled by \<open>2 ^ 52\<close>.\<close>

definition float_div :: "int \<Rightarrow> int \<Rightarrow> int" where
  "float_div n d = (let e = bit_size (n div d) - 53 in round_div n (d * 2 ^ e) * 2 ^ e)"

definition float_scale :: int where
  "float_scale = 2 ^ 52"

lemma bit_size_bounds: "0 < n \<Longrightarrow> 2 ^ (bit_size n - 1) \<le> n \<and> n < 2 ^ bit_size n"
proof (induction n rule: bit_size.induct)
  case (1 n)
  show ?case
  proof (cases "n = 1")
    case True
    then show ?thesis by (simp add: bit_size.simps)
  next
    case False
    with "1.prems" have n2: "0 < n div 2" by simp
    define k where "k = bit_size (n div 2)"
    have k: "bit_size n = Suc k" using "1.prems" unfolding k_def by (subst bit_size.simps) simp
    have k0: "0 < k" using n2 unfolding k_def by (subst bit_size.simps) simp
    have "2 ^ (k - 1) \<le> n div 2" "n div 2 < 2 ^ k" using "1.IH" "1.prems" n2 by (simp_all add: k_def)
    moreover have "(2 :: int) ^ k = 2 * 2 ^ (k - 1)" using k0 by (cases k) simp_all
    ultimately have "2 * 2 ^ (k - 1) \<le> n" "n < 2 * 2 ^ k" by linarith+
    then show ?thesis unfolding k using k0 by (cases k) simp_all
  qed
qed

lemma round_div_ge: "n div d \<le> round_div n d"
  by (simp add: round_div_def Let_def)

text \<open>Rounding does not fall below an integer of 53 bits that the exact result reaches.\<close>

lemma float_div_ge:
  assumes "0 < d" "c * float_scale \<le> n div d" "0 < c" "c \<le> 2 ^ 52"
  shows "c * float_scale \<le> float_div n d"
proof -
  define v where "v = n div d"
  define e where "e = bit_size v - 53"
  have v: "c * 2 ^ 52 \<le> v" using assms(2) by (simp add: v_def float_scale_def)
  then have pos: "0 < v" using assms(3) by (smt (verit) mult_pos_pos zero_less_power)
  have "n div (d * 2 ^ e) = v div 2 ^ e" using assms(1) by (simp add: v_def zdiv_zmult2_eq)
  with round_div_ge [of n "d * 2 ^ e"] have "v div 2 ^ e * 2 ^ e \<le> float_div n d"
    by (simp add: float_div_def Let_def e_def v_def)
  moreover have "c * 2 ^ 52 \<le> v div 2 ^ e * 2 ^ e"
  proof (cases "e \<le> 52")
    case True
    then have "c * 2 ^ 52 = c * 2 ^ (52 - e) * 2 ^ e" by (simp flip: power_add)
    then have x: "c * 2 ^ 52 div 2 ^ e = c * 2 ^ (52 - e)" by (metis nonzero_mult_div_cancel_right power_not_zero zero_neq_numeral)
    have "c * 2 ^ (52 - e) \<le> v div 2 ^ e" using zdiv_mono1 [OF v, of "2 ^ e"] unfolding x by simp
    then have "c * 2 ^ (52 - e) * 2 ^ e \<le> v div 2 ^ e * 2 ^ e" by simp
    then show ?thesis by (simp only: \<open>c * 2 ^ 52 = c * 2 ^ (52 - e) * 2 ^ e\<close>)
  next
    case False
    have "2 ^ (bit_size v - 1) \<le> v" using bit_size_bounds [of v] pos by simp
    moreover have "bit_size v - 1 = 52 + e" using False by (simp add: e_def)
    ultimately have "(2 :: int) ^ 52 * 2 ^ e \<le> v" by (simp add: power_add)
    then have "(2 :: int) ^ 52 \<le> v div 2 ^ e" using zdiv_mono1 [of "2 ^ 52 * 2 ^ e" v "2 ^ e"] by simp
    then have "(2 :: int) ^ 52 * 2 ^ e \<le> v div 2 ^ e * 2 ^ e" by simp
    moreover have "(2 :: int) ^ 52 \<le> 2 ^ e" by (rule power_increasing) (use False in simp_all)
    then have "c * 2 ^ 52 \<le> (2 :: int) ^ 52 * 2 ^ e" by (rule mult_mono [OF assms(4)]) simp_all
    ultimately show ?thesis by (rule order_trans [rotated])
  qed
  ultimately show ?thesis by (simp add: float_scale_def)
qed

section \<open>The hash\<close>

definition jump_step :: "u64 \<Rightarrow> int \<Rightarrow> int" where
  "jump_step key b =
     (let q = float_div (2 ^ 31 * float_scale) (uint (drop_bit 33 key) + 1)
      in float_div ((b + 1) * q) 1 div float_scale)"

lemma jump_step_gt:
  assumes "0 \<le> b" "b < 2 ^ 52"
  shows "b < jump_step key b"
proof -
  let ?k = "uint (drop_bit 33 key) + 1"
  have k: "0 < ?k" "?k \<le> 2 ^ 31"
  proof -
    have "uint (drop_bit 33 key) = uint key div 2 ^ 33"
      by (simp only: unsigned_drop_bit_eq) (simp add: drop_bit_eq_div take_bit_eq_mod uint_lt2p [of key, simplified])
    moreover have "uint key < 2 ^ 64" using uint_lt2p [of key] by simp
    moreover have "x div 2 ^ 33 < 2 ^ 31" if "x < 2 ^ 64" for x :: int using that by simp
    moreover have "0 \<le> uint (drop_bit 33 key)" by simp
    ultimately show "0 < ?k" "?k \<le> 2 ^ 31" by (simp_all only: zle_add1_eq_le flip: zless_add1_eq) (simp_all add: add1_zle_eq)
  qed
  have "1 * float_scale \<le> 2 ^ 31 * float_scale div ?k"
    using zdiv_mono2 [OF _ k, of "2 ^ 31 * float_scale"] by (simp add: float_scale_def)
  then have q: "1 * float_scale \<le> float_div (2 ^ 31 * float_scale) ?k"
    by (rule float_div_ge [OF k(1)]) simp_all
  have "(b + 1) * float_scale \<le> (b + 1) * float_div (2 ^ 31 * float_scale) ?k div 1"
    using q assms by (simp add: mult_left_mono)
  then have "(b + 1) * float_scale \<le> float_div ((b + 1) * float_div (2 ^ 31 * float_scale) ?k) 1"
    by (rule float_div_ge [OF zero_less_one]) (use assms in simp_all)
  then have "b + 1 \<le> jump_step key b"
    using zdiv_mono1 [of "(b + 1) * float_scale" _ float_scale] by (simp add: jump_step_def Let_def float_scale_def)
  then show ?thesis by simp
qed


text \<open>
  The loop: \<open>b\<close> and \<open>j\<close> are its variables. The number of buckets is an \<open>int32\<close> and \<open>j\<close> starts at zero
  and grows, which the condition of the loop spells out.
\<close>

function jumpLoop :: "u64 \<Rightarrow> int \<Rightarrow> int \<Rightarrow> int \<Rightarrow> int" where
  "jumpLoop key b j buckets =
     (if 0 \<le> j \<and> j < buckets \<and> buckets < 2 ^ 31 then
        (let key1 = key * 2862933555777941757 + 1
         in jumpLoop key1 j (jump_step key1 j) buckets)
      else b)"
  by pat_completeness auto
termination
proof (relation "measure (\<lambda>(key, b, j, buckets). nat (buckets - j))")
  fix key key1 :: u64 and b j buckets :: int
  assume a: "0 \<le> j \<and> j < buckets \<and> buckets < 2 ^ 31"
  then have "j < jump_step key1 j" by (intro jump_step_gt) simp_all
  with a show "((key1, j, jump_step key1 j, buckets), key, b, j, buckets) \<in> measure (\<lambda>(key, b, j, buckets). nat (buckets - j))"
    by simp
qed simp

declare jumpLoop.simps [simp del]

definition jumpHash :: "u64 \<Rightarrow> int \<Rightarrow> int" where
  "jumpHash key buckets = jumpLoop key 0 0 buckets"

lemma jumpLoop_range:
  "0 \<le> b \<Longrightarrow> 0 \<le> j \<Longrightarrow> b < buckets \<or> (b = 0 \<and> j = 0) \<Longrightarrow>
    0 \<le> jumpLoop key b j buckets \<and> (0 < buckets \<longrightarrow> buckets < 2 ^ 31 \<longrightarrow> jumpLoop key b j buckets < buckets)
    \<and> (buckets \<le> 0 \<longrightarrow> jumpLoop key b j buckets = b)"
proof (induction key b j buckets rule: jumpLoop.induct)
  case (1 key b j buckets)
  show ?case
  proof (cases "0 \<le> j \<and> j < buckets \<and> buckets < 2 ^ 31")
    case True
    then have "j < jump_step (key * 2862933555777941757 + 1) j" by (intro jump_step_gt) simp_all
    with "1.IH" [OF True refl] True show ?thesis by (subst (1 2 3) jumpLoop.simps) (simp add: Let_def)
  next
    case False
    with "1.prems" show ?thesis by (subst (1 2 3) jumpLoop.simps) auto
  qed
qed

lemma jumpHash_range:
  "0 \<le> jumpHash key buckets" "0 < buckets \<Longrightarrow> buckets < 2 ^ 31 \<Longrightarrow> jumpHash key buckets < buckets"
  "buckets \<le> 0 \<Longrightarrow> jumpHash key buckets = 0"
  using jumpLoop_range [of 0 0 buckets key] by (auto simp: jumpHash_def)

text \<open>Values of the published test vectors of the algorithm.\<close>

lemma jumpHash_vectors:
  "jumpHash 1 1 = 0" "jumpHash 42 57 = 43" "jumpHash 0xDEAD10CC 666 = 361" "jumpHash 256 1024 = 520"
  by code_simp+

end
