(* ===== verification/Float64.thy ===== *)
theory Float64
  imports JumpHash
begin

text \<open>
  The type \<open>float64\<close> of Go: IEEE 754 binary64 with signed zeros, infinities and a NaN, its arithmetic
  rounded to nearest even, conversion to and from integers, \<open>strconv.ParseFloat\<close> and the shortest
  decimal form that \<open>fmt.Sprint\<close> prints. A finite value is a sign, an odd mantissa or zero, and a power
  of two. The conversion of a value that does not fit into an \<open>int\<close> is left to the implementation by
  the language; here it is that of amd64.
\<close>

section \<open>Values and rounding\<close>

datatype float64 = FNaN | FInf bool | FFin bool int int

function strip2 :: "int \<Rightarrow> int \<Rightarrow> int \<times> int" where
  "strip2 m e = (if m \<le> 0 then (0, 0) else if even m then strip2 (m div 2) (e + 1) else (m, e))"
  by pat_completeness auto
termination by (relation "measure (\<lambda>(m, e). nat m)") auto

declare strip2.simps [simp del]

definition scaled :: "int \<Rightarrow> int \<Rightarrow> int \<Rightarrow> int \<times> int" where
  "scaled num den e = (if e \<ge> 0 then (num, den * 2 ^ nat e) else (num * 2 ^ nat (- e), den))"

text \<open>The float nearest to a fraction: 53 significant bits, fewer near zero, infinite past the largest.\<close>

definition mkFloat :: "bool \<Rightarrow> int \<Rightarrow> int \<Rightarrow> float64" where
  "mkFloat neg num den =
     (if num \<le> 0 then FFin neg 0 0
      else
        let e0 = int (bit_size num) - int (bit_size den) - 53;
            e1 = (case scaled num den e0 of (n, d) \<Rightarrow> if n div d \<ge> 2 ^ 53 then e0 + 1 else e0);
            e = max e1 (- 1074);
            q = (case scaled num den e of (n, d) \<Rightarrow> round_div n d)
        in if q = 0 then FFin neg 0 0
           else if int (bit_size q) + e > 1024 then FInf neg
           else (case strip2 q e of (m, x) \<Rightarrow> FFin neg m x))"

definition mkPow :: "bool \<Rightarrow> int \<Rightarrow> int \<Rightarrow> float64" where
  "mkPow neg num e = (if e \<ge> 0 then mkFloat neg (num * 2 ^ nat e) 1 else mkFloat neg num (2 ^ nat (- e)))"

definition float_of_int :: "int \<Rightarrow> float64" where
  "float_of_int n = mkFloat (n < 0) (abs n) 1"

definition trunc_fin :: "bool \<Rightarrow> int \<Rightarrow> int \<Rightarrow> int" where
  "trunc_fin neg m e = (let a = (if e \<ge> 0 then m * 2 ^ nat e else m div 2 ^ nat (- e)) in if neg then - a else a)"

fun int_of_float :: "float64 \<Rightarrow> int" where
  "int_of_float (FFin neg m e) =
     (let n = trunc_fin neg m e in if - (2 ^ 63) \<le> n \<and> n < 2 ^ 63 then n else - (2 ^ 63))"
| "int_of_float _ = - (2 ^ 63)"

section \<open>Arithmetic\<close>

definition signed :: "bool \<Rightarrow> int \<Rightarrow> int" where
  "signed neg m = (if neg then - m else m)"

fun fneg :: "float64 \<Rightarrow> float64" where
  "fneg FNaN = FNaN"
| "fneg (FInf s) = FInf (\<not> s)"
| "fneg (FFin s m e) = FFin (\<not> s) m e"

fun fadd :: "float64 \<Rightarrow> float64 \<Rightarrow> float64" where
  "fadd FNaN y = FNaN"
| "fadd (FInf s) FNaN = FNaN"
| "fadd (FInf s) (FInf t) = (if s = t then FInf s else FNaN)"
| "fadd (FInf s) (FFin t n f) = FInf s"
| "fadd (FFin s m e) FNaN = FNaN"
| "fadd (FFin s m e) (FInf t) = FInf t"
| "fadd (FFin s m e) (FFin t n f) =
     (let g = min e f; v = signed s m * 2 ^ nat (e - g) + signed t n * 2 ^ nat (f - g)
      in if v = 0 then FFin (s \<and> t) 0 0 else mkPow (v < 0) (abs v) g)"

definition fsub :: "float64 \<Rightarrow> float64 \<Rightarrow> float64" where
  "fsub x y = fadd x (fneg y)"

fun fmul :: "float64 \<Rightarrow> float64 \<Rightarrow> float64" where
  "fmul FNaN y = FNaN"
| "fmul x FNaN = FNaN"
| "fmul (FInf s) (FInf t) = FInf (s \<noteq> t)"
| "fmul (FInf s) (FFin t n f) = (if n = 0 then FNaN else FInf (s \<noteq> t))"
| "fmul (FFin s m e) (FInf t) = (if m = 0 then FNaN else FInf (s \<noteq> t))"
| "fmul (FFin s m e) (FFin t n f) = mkPow (s \<noteq> t) (m * n) (e + f)"

fun fdiv :: "float64 \<Rightarrow> float64 \<Rightarrow> float64" where
  "fdiv FNaN y = FNaN"
| "fdiv x FNaN = FNaN"
| "fdiv (FInf s) (FInf t) = FNaN"
| "fdiv (FInf s) (FFin t n f) = FInf (s \<noteq> t)"
| "fdiv (FFin s m e) (FInf t) = FFin (s \<noteq> t) 0 0"
| "fdiv (FFin s m e) (FFin t n f) =
     (if n = 0 then (if m = 0 then FNaN else FInf (s \<noteq> t))
      else let g = min e f in mkFloat (s \<noteq> t) (m * 2 ^ nat (e - g)) (n * 2 ^ nat (f - g)))"

text \<open>\<open>math.Mod\<close>: exact, with the sign of the dividend.\<close>

fun fmod :: "float64 \<Rightarrow> float64 \<Rightarrow> float64" where
  "fmod (FFin s m e) (FFin t n f) =
     (if n = 0 then FNaN
      else let g = min e f in mkPow s ((m * 2 ^ nat (e - g)) mod (n * 2 ^ nat (f - g))) g)"
| "fmod (FFin s m e) (FInf t) = FFin s m e"
| "fmod _ _ = FNaN"

fun fless :: "float64 \<Rightarrow> float64 \<Rightarrow> bool" where
  "fless (FInf s) (FInf t) = (s \<and> \<not> t)"
| "fless (FInf s) (FFin t n f) = s"
| "fless (FFin s m e) (FInf t) = (\<not> t)"
| "fless (FFin s m e) (FFin t n f) =
     (let g = min e f in signed s m * 2 ^ nat (e - g) < signed t n * 2 ^ nat (f - g))"
| "fless _ _ = False"

fun feq :: "float64 \<Rightarrow> float64 \<Rightarrow> bool" where
  "feq (FInf s) (FInf t) = (s = t)"
| "feq (FFin s m e) (FFin t n f) =
     (let g = min e f in signed s m * 2 ^ nat (e - g) = signed t n * 2 ^ nat (f - g))"
| "feq _ _ = False"

section \<open>Printing\<close>

text \<open>
  The decimal exponent of a positive fraction, found by search from a lower bound, and the shortest
  digits that are read back as the same float.
\<close>

fun pow10_frac :: "int \<Rightarrow> int \<Rightarrow> int \<Rightarrow> int \<times> int" where
  "pow10_frac num den p = (if p \<ge> 0 then (num, den * 10 ^ nat p) else (num * 10 ^ nat (- p), den))"

fun dec_exp :: "nat \<Rightarrow> int \<Rightarrow> int \<Rightarrow> int \<Rightarrow> int" where
  "dec_exp 0 num den p = p"
| "dec_exp (Suc k) num den p =
     (case pow10_frac num den (p + 1) of (n, d) \<Rightarrow> if n \<ge> d then dec_exp k num den (p + 1) else p)"

definition float_frac :: "int \<Rightarrow> int \<Rightarrow> int \<times> int" where
  "float_frac m e = (if e \<ge> 0 then (m * 2 ^ nat e, 1) else (m, 2 ^ nat (- e)))"

definition from_digits :: "bool \<Rightarrow> int \<Rightarrow> int \<Rightarrow> float64" where
  "from_digits neg c p = (if p \<ge> 0 then mkFloat neg (c * 10 ^ nat p) 1 else mkFloat neg c (10 ^ nat (- p)))"

fun shortest :: "nat \<Rightarrow> nat \<Rightarrow> float64 \<Rightarrow> int \<Rightarrow> int \<Rightarrow> int \<Rightarrow> int \<times> int" where
  "shortest 0 n x num den p = (case pow10_frac num den (p - 16) of (a, b) \<Rightarrow> (round_div a b, p - 16))"
| "shortest (Suc k) n x num den p =
     (case pow10_frac num den (p - int n) of (a, b) \<Rightarrow>
        let c = round_div a b
        in if feq (from_digits False c (p - int n)) x then (c, p - int n) else shortest k (Suc n) x num den p)"

definition strip_zeros :: "string \<Rightarrow> string" where
  "strip_zeros ds = rev (dropWhile (\<lambda>c. c = CHR ''0'') (rev ds))"

definition fmt_exp :: "string \<Rightarrow> int \<Rightarrow> string" where
  "fmt_exp ds x =
     hd ds # (if tl ds = [] then [] else CHR ''.'' # tl ds) @ ''e'' @ (if x < 0 then ''-'' else ''+'')
     @ (if abs x < 10 then ''0'' else []) @ FormatUint (abs x)"

definition fmt_plain :: "string \<Rightarrow> int \<Rightarrow> string" where
  "fmt_plain ds dp =
     (let n = int (length ds)
      in (if dp \<le> 0 then ''0'' else take (nat dp) ds @ replicate (nat (dp - n)) CHR ''0'')
         @ (if n > dp then CHR ''.'' # replicate (nat (- dp)) CHR ''0'' @ drop (nat dp) ds else []))"

fun FormatFloat :: "float64 \<Rightarrow> string" where
  "FormatFloat FNaN = ''NaN''"
| "FormatFloat (FInf s) = (if s then ''-Inf'' else ''+Inf'')"
| "FormatFloat (FFin s m e) =
     (if s then ''-'' else []) @
     (if m = 0 then ''0''
      else
        case float_frac m e of (num, den) \<Rightarrow>
        let p = dec_exp 700 num den (- 330);
            r = shortest 17 0 (FFin False m e) num den p;
            all = FormatUint (fst r);
            x = int (length all) - 1 + snd r;
            ds = strip_zeros all
        in if x < - 4 \<or> x \<ge> 6 then fmt_exp ds x else fmt_plain ds (x + 1))"

section \<open>Reading\<close>

definition hex_digit :: "char \<Rightarrow> int option" where
  "hex_digit c =
     (let n = (of_char c :: int)
      in if 48 \<le> n \<and> n \<le> 57 then Some (n - 48)
         else if 97 \<le> n \<and> n \<le> 102 then Some (n - 87)
         else if 65 \<le> n \<and> n \<le> 70 then Some (n - 55)
         else None)"

definition digit_in :: "int \<Rightarrow> char \<Rightarrow> int option" where
  "digit_in base c = (case hex_digit c of None \<Rightarrow> None | Some d \<Rightarrow> if d < base then Some d else None)"

text \<open>
  The mantissa: its value, the number of digits behind the dot, whether a dot and a digit were seen,
  whether an underscore was, and what follows.
\<close>

fun mantissa :: "int \<Rightarrow> string \<Rightarrow> int \<times> int \<times> bool \<times> bool \<times> bool \<Rightarrow> (int \<times> int \<times> bool \<times> bool \<times> bool) \<times> string" where
  "mantissa base [] st = (st, [])"
| "mantissa base (c # s) (m, frac, dot, digits, uscore) =
     (if c = CHR ''_'' then mantissa base s (m, frac, dot, digits, True)
      else if c = CHR ''.'' then
        (if dot then ((m, frac, dot, digits, uscore), c # s) else mantissa base s (m, frac, True, digits, uscore))
      else case digit_in base c of
        Some d \<Rightarrow> mantissa base s (m * base + d, if dot then frac + 1 else frac, dot, True, uscore)
      | None \<Rightarrow> ((m, frac, dot, digits, uscore), c # s))"

fun exp_digits :: "string \<Rightarrow> int \<Rightarrow> bool \<Rightarrow> (int \<times> bool) \<times> string" where
  "exp_digits [] e uscore = ((e, uscore), [])"
| "exp_digits (c # s) e uscore =
     (if c = CHR ''_'' then exp_digits s e True
      else case digit_in 10 c of
        Some d \<Rightarrow> exp_digits s (if e < 10000 then e * 10 + d else e) uscore
      | None \<Rightarrow> ((e, uscore), c # s))"

text \<open>The rest after the mantissa: an exponent or nothing; a hexadecimal mantissa needs one.\<close>

definition exponent :: "bool \<Rightarrow> string \<Rightarrow> (int \<times> bool) option" where
  "exponent hex s =
     (case s of
        [] \<Rightarrow> if hex then None else Some (0, False)
      | c # r \<Rightarrow>
          if lower_char c = (if hex then CHR ''p'' else CHR ''e'') then
            (let neg = (r \<noteq> [] \<and> hd r = CHR ''-''); r1 = (if r \<noteq> [] \<and> (hd r = CHR ''+'' \<or> hd r = CHR ''-'') then tl r else r)
             in if r1 = [] \<or> digit_in 10 (hd r1) = None then None
                else case exp_digits r1 0 False of ((e, uscore), rest) \<Rightarrow>
                  if rest = [] then Some (if neg then - e else e, uscore) else None)
          else None)"

text \<open>Underscores stand between digits, or between the base prefix and a digit.\<close>

fun underscoreLoop :: "bool \<Rightarrow> string \<Rightarrow> char \<Rightarrow> bool" where
  "underscoreLoop hex [] i = (i \<noteq> CHR ''_'')"
| "underscoreLoop hex (c # s) i =
     (if digit_in 10 c \<noteq> None \<or> hex \<and> hex_digit c \<noteq> None then underscoreLoop hex s (CHR ''0'')
      else if c = CHR ''_'' then (if i \<noteq> CHR ''0'' then False else underscoreLoop hex s (CHR ''_''))
      else if i = CHR ''_'' then False
      else underscoreLoop hex s (CHR ''!''))"

definition unsigned_part :: "string \<Rightarrow> string" where
  "unsigned_part s = (if s \<noteq> [] \<and> (hd s = CHR ''+'' \<or> hd s = CHR ''-'') then tl s else s)"

definition underscoreOK :: "string \<Rightarrow> bool" where
  "underscoreOK s =
     (let u = unsigned_part s
      in if length u \<ge> 2 \<and> hd u = CHR ''0'' \<and> lower_char (u ! 1) \<in> {CHR ''b'', CHR ''o'', CHR ''x''}
         then underscoreLoop (lower_char (u ! 1) = CHR ''x'') (drop 2 u) (CHR ''0'')
         else underscoreLoop False u (CHR ''^''))"

definition parse_special :: "string \<Rightarrow> float64 option" where
  "parse_special s =
     (let l = ToLower s; u = unsigned_part l
      in if l = ''nan'' then Some FNaN
         else if u = ''inf'' \<or> u = ''infinity'' then Some (FInf (hd l = CHR ''-''))
         else None)"

definition read_float :: "string \<Rightarrow> float64 option" where
  "read_float s =
     (let neg = (s \<noteq> [] \<and> hd s = CHR ''-''); u = unsigned_part s;
          hex = (length u > 2 \<and> hd u = CHR ''0'' \<and> lower_char (u ! 1) = CHR ''x'')
      in case mantissa (if hex then 16 else 10) (if hex then drop 2 u else u) (0, 0, False, False, False) of
           ((m, frac, dot, digits, uscore), rest) \<Rightarrow>
           if \<not> digits then None
           else case exponent hex rest of
             None \<Rightarrow> None
           | Some (e, uscore2) \<Rightarrow>
               if (uscore \<or> uscore2) \<and> \<not> underscoreOK s then None
               else Some (if hex then mkPow neg m (e - 4 * frac) else from_digits neg m (e - frac)))"

text \<open>\<open>strconv.ParseFloat\<close>: no result for malformed text, nor for a number that is too large.\<close>

definition ParseFloat :: "string \<Rightarrow> float64 option" where
  "ParseFloat s = (case parse_special s of
     Some x \<Rightarrow> Some x
   | None \<Rightarrow> (case read_float s of Some (FInf n) \<Rightarrow> None | r \<Rightarrow> r))"

end
