(* ===== verification/FloatFacts.thy ===== *)
theory FloatFacts
  imports Float64
begin

text \<open>
  Facts about float64: rounding keeps a quotient between the integers it lies between, integers below
  2 ^ 53 are exact and keep their order, and what is left of a duration when its seconds are read as
  a float64 and cut to an integer.
\<close>

section \<open>Exact integers\<close>

lemma fless_asym: "fless x y \<Longrightarrow> \<not> fless y x"
  by (induction x y rule: fless.induct) (auto simp: Let_def min_def split: if_splits)

lemma strip2_value: "0 < q \<Longrightarrow> strip2 q e = (m, x) \<Longrightarrow> e \<le> x \<and> m * 2 ^ nat (x - e) = q"
proof (induction q e arbitrary: m x rule: strip2.induct)
  case (1 q e)
  show ?case
  proof (cases "even q")
    case True
    then have "strip2 (q div 2) (e + 1) = (m, x)" using "1.prems" by (subst (asm) strip2.simps) simp
    moreover have "0 < q div 2" using True "1.prems"(1) by presburger
    ultimately have s: "e + 1 \<le> x" "m * 2 ^ nat (x - (e + 1)) = q div 2" using "1.IH" True "1.prems"(1) by auto
    then have "nat (x - e) = Suc (nat (x - (e + 1)))" by simp
    then have "m * 2 ^ nat (x - e) = 2 * (m * 2 ^ nat (x - (e + 1)))" by simp
    also have "\<dots> = q" using s(2) True by simp
    finally show ?thesis using s(1) by simp
  next
    case False
    then show ?thesis using "1.prems" by (subst (asm) strip2.simps) auto
  qed
qed

lemma round_div_one: "round_div n 1 = n"
  by (simp add: round_div_def Let_def)

lemma trunc_scaled:
  assumes "e \<le> 0" "e \<le> x" "m * 2 ^ nat (x - e) = n * 2 ^ nat (- e)"
  shows "trunc_fin neg m x = (if neg then - n else n)"
proof (cases "0 \<le> x")
  case True
  then have "(2 :: int) ^ nat (x - e) = 2 ^ nat x * 2 ^ nat (- e)" using assms(1) by (simp add: power_add [symmetric] nat_add_distrib [symmetric])
  then have "m * 2 ^ nat x * 2 ^ nat (- e) = n * 2 ^ nat (- e)" using assms(3) by (simp add: mult.assoc)
  then have "m * 2 ^ nat x = n" by simp
  then show ?thesis using True by (simp add: trunc_fin_def)
next
  case False
  then have "(2 :: int) ^ nat (- e) = 2 ^ nat (- x) * 2 ^ nat (x - e)" using assms(2) by (simp add: power_add [symmetric] nat_add_distrib [symmetric])
  then have "m * 2 ^ nat (x - e) = n * 2 ^ nat (- x) * 2 ^ nat (x - e)" using assms(3) by (simp add: mult.assoc)
  then have "m = n * 2 ^ nat (- x)" by simp
  then show ?thesis using False by (simp add: trunc_fin_def Let_def)
qed

lemma bit_size_one: "bit_size 1 = 1"
  by (simp add: bit_size.simps [of 1] bit_size.simps [of 0])

lemma bit_size_pow: "0 < n \<Longrightarrow> n < 2 ^ k \<Longrightarrow> bit_size n \<le> k"
proof (rule ccontr)
  assume n: "0 < n" "n < 2 ^ k" "\<not> bit_size n \<le> k"
  then have "(2 :: int) ^ k \<le> 2 ^ (bit_size n - 1)" by (intro power_increasing) auto
  then show False using bit_size_bounds [OF n(1)] n(2) by linarith
qed

lemma bit_size_mult_pow: "0 < n \<Longrightarrow> bit_size (n * 2 ^ k) \<le> bit_size n + k"
  using bit_size_bounds [of n] by (intro bit_size_pow) (auto simp: power_add)

lemma float_of_int_exact:
  assumes "abs n < 2 ^ 53"
  obtains m x e where "float_of_int n = FFin (n < 0) m x" "e \<le> 0" "e \<le> x"
    "m * 2 ^ nat (x - e) = abs n * 2 ^ nat (- e)"
proof (cases "n = 0")
  case True
  then show thesis using that [of 0 0 0] by (simp add: float_of_int_def mkFloat_def)
next
  case False
  define a where "a = abs n"
  have a: "0 < a" "a < 2 ^ 53" using False assms by (auto simp: a_def)
  define e0 where "e0 = int (bit_size a) - 54"
  have b: "bit_size a \<le> 53" using bit_size_pow [of a 53] a by simp
  define e1 where "e1 = (case scaled a 1 e0 of (n, d) \<Rightarrow> if n div d \<ge> 2 ^ 53 then e0 + 1 else e0)"
  have e1: "- 54 \<le> e1" "e1 \<le> 0" using b by (auto simp: e1_def e0_def split: prod.splits)
  define q where "q = a * 2 ^ nat (- e1)"
  have q: "(case scaled a 1 e1 of (n, d) \<Rightarrow> round_div n d) = q"
    using e1(2) by (cases "e1 = 0") (auto simp: scaled_def q_def round_div_one)
  have q0: "0 < q" using a(1) by (simp add: q_def)
  have big: "\<not> int (bit_size q) + e1 > 1024" using bit_size_mult_pow [OF a(1), of "nat (- e1)"] b e1 by (simp add: q_def)
  obtain m x where s: "strip2 q e1 = (m, x)" by (cases "strip2 q e1")
  have E: "int (bit_size a) - int (bit_size 1) - 53 = e0" by (simp add: e0_def bit_size_one)
  have M: "max e1 (- 1074) = e1" using e1(1) by simp
  have "mkFloat (n < 0) a 1 = FFin (n < 0) m x"
    using a(1) q0 big s unfolding mkFloat_def Let_def E e1_def [symmetric] M q by simp
  with strip2_value [OF q0 s] e1(2) show thesis
    by (intro that [of m x e1]) (auto simp: float_of_int_def a_def q_def)
qed

lemma int_float_roundtrip:
  assumes "abs n < 2 ^ 53"
  shows "int_of_float (float_of_int n) = n"
proof -
  obtain m x e where f: "float_of_int n = FFin (n < 0) m x" "e \<le> 0" "e \<le> x"
    "m * 2 ^ nat (x - e) = abs n * 2 ^ nat (- e)" using float_of_int_exact [OF assms] .
  have "- (2 ^ 63) \<le> n \<and> n < 2 ^ 63" using assms by auto
  then show ?thesis using trunc_scaled [OF f(2-4), of "n < 0"] by (simp add: f(1))
qed

lemma scaled_up:
  assumes "m * 2 ^ nat (x - e) = a * 2 ^ nat (- e)" "E \<le> e" "e \<le> x" "e \<le> 0"
  shows "m * 2 ^ nat (x - E) = a * (2 :: int) ^ nat (- E)"
proof -
  have "nat (x - E) = nat (x - e) + nat (e - E)" "nat (- E) = nat (- e) + nat (e - E)" using assms by auto
  then show ?thesis using assms(1) by (simp add: power_add)
qed

lemma fless_of_int:
  assumes "abs a < 2 ^ 53" "abs b < 2 ^ 53"
  shows "fless (float_of_int a) (float_of_int b) \<longleftrightarrow> a < b"
proof -
  obtain m x e where m: "float_of_int a = FFin (a < 0) m x" "e \<le> 0" "e \<le> x"
    "m * 2 ^ nat (x - e) = abs a * 2 ^ nat (- e)" using float_of_int_exact [OF assms(1)] .
  obtain k y f where k: "float_of_int b = FFin (b < 0) k y" "f \<le> 0" "f \<le> y"
    "k * 2 ^ nat (y - f) = abs b * 2 ^ nat (- f)" using float_of_int_exact [OF assms(2)] .
  define E where "E = min e f"
  define g where "g = min x y"
  have E: "E \<le> e" "E \<le> f" "E \<le> g" "g \<le> x" "g \<le> y" using m k by (auto simp: E_def g_def)
  have up: "signed s j * 2 ^ nat (z - g) * 2 ^ nat (g - E) = signed s (j * 2 ^ nat (z - E))" if "g \<le> z" for s j z
  proof -
    have "nat (z - E) = nat (z - g) + nat (g - E)" using that E(3) by simp
    then show ?thesis by (simp add: signed_def power_add)
  qed
  have s: "signed (n < 0) (abs n * 2 ^ j) = n * 2 ^ j" for n :: int and j by (simp add: signed_def)
  have "signed (a < 0) m * 2 ^ nat (x - g) < signed (b < 0) k * 2 ^ nat (y - g) \<longleftrightarrow>
      signed (a < 0) m * 2 ^ nat (x - g) * 2 ^ nat (g - E) < signed (b < 0) k * 2 ^ nat (y - g) * 2 ^ nat (g - E)"
    by simp
  also have "\<dots> \<longleftrightarrow> a * 2 ^ nat (- E) < b * 2 ^ nat (- E)"
    unfolding up [OF E(4)] up [OF E(5)] scaled_up [OF m(4) E(1) m(3,2)] scaled_up [OF k(4) E(2) k(3,2)] s ..
  finally show ?thesis by (simp add: m(1) k(1) Let_def g_def)
qed

section \<open>Rounding between integers\<close>

text \<open>The value of a finite float, said without fractions: at least a and at most b.\<close>

definition between :: "int \<Rightarrow> int \<Rightarrow> float64 \<Rightarrow> bool" where
  "between a b f = (\<exists>m x e. f = FFin False m x \<and> 0 \<le> m \<and> e \<le> 0 \<and> e \<le> x
     \<and> a * 2 ^ nat (- e) \<le> m * 2 ^ nat (x - e) \<and> m * 2 ^ nat (x - e) \<le> b * 2 ^ nat (- e))"

lemma round_div_between:
  assumes "0 < d" "a * d \<le> n" "n \<le> b * d"
  shows "a \<le> round_div n d" "round_div n d \<le> b"
proof -
  have "a * d div d \<le> n div d" using assms by (intro zdiv_mono1) auto
  then show "a \<le> round_div n d" using round_div_ge [of n d] assms(1) by simp
  have n: "n = n div d * d + n mod d" "0 \<le> n mod d" using assms(1) by simp_all
  show "round_div n d \<le> b"
  proof (cases "n mod d = 0")
    case True
    have "n div d \<le> b * d div d" using assms by (intro zdiv_mono1) auto
    then show ?thesis using True assms(1) by (simp add: round_div_def Let_def)
  next
    case False
    then have "n div d * d < b * d" using n assms(3) by linarith
    then have "n div d < b" using assms(1) by simp
    then show ?thesis by (simp add: round_div_def Let_def)
  qed
qed

lemma mkFloat_between:
  assumes "0 \<le> num" "0 < den" "0 \<le> a" "a * den \<le> num" "num \<le> b * den" "b \<le> 2 ^ 52"
  shows "between a b (mkFloat False num den)"
proof (cases "num = 0")
  case True
  then have "a * den \<le> 0" using assms(4) by simp
  then have "a = 0" "0 \<le> b" using assms True by (auto simp: mult_le_0_iff zero_le_mult_iff)
  then show ?thesis using True unfolding between_def by (auto simp: mkFloat_def intro!: exI [of _ 0])
next
  case False
  define e0 where "e0 = int (bit_size num) - int (bit_size den) - 53"
  define e1 where "e1 = (case scaled num den e0 of (n, d) \<Rightarrow> if n div d \<ge> 2 ^ 53 then e0 + 1 else e0)"
  define e where "e = max e1 (- 1074)"
  have b: "0 < b" using assms(1,2,5) False by (smt (verit) mult_nonpos_nonneg)
  have "num < 2 ^ (52 + bit_size den)"
  proof -
    have "num \<le> 2 ^ 52 * den" using assms(2,5,6) by (meson mult_right_mono order.trans less_imp_le)
    also have "\<dots> < 2 ^ 52 * 2 ^ bit_size den" using bit_size_bounds [OF assms(2)] by simp
    finally show ?thesis by (simp add: power_add)
  qed
  then have "bit_size num \<le> 52 + bit_size den" using False assms(1) by (intro bit_size_pow) auto
  then have "e0 \<le> - 1" by (simp add: e0_def)
  then have "e1 \<le> 0" by (auto simp: e1_def split: prod.splits)
  then have e: "e \<le> 0" "- 1074 \<le> e" by (simp_all add: e_def)
  define q where "q = round_div (num * 2 ^ nat (- e)) den"
  have q: "(case scaled num den e of (n, d) \<Rightarrow> round_div n d) = q"
    using e(1) by (cases "e = 0") (auto simp: scaled_def q_def)
  have "a * den * 2 ^ nat (- e) \<le> num * 2 ^ nat (- e)" "num * 2 ^ nat (- e) \<le> b * den * 2 ^ nat (- e)"
    using assms(4,5) by (simp_all add: mult_right_mono)
  then have qb: "a * 2 ^ nat (- e) \<le> q" "q \<le> b * 2 ^ nat (- e)"
    unfolding q_def using round_div_between [OF assms(2), of "a * 2 ^ nat (- e)" "num * 2 ^ nat (- e)" "b * 2 ^ nat (- e)"]
    by (simp_all add: ac_simps)
  have f: "mkFloat False num den = (if q = 0 then FFin False 0 0
           else if int (bit_size q) + e > 1024 then FInf False
           else (case strip2 q e of (m, x) \<Rightarrow> FFin False m x))"
    using False assms(1) unfolding mkFloat_def Let_def e0_def [symmetric] e1_def [symmetric] e_def [symmetric] q by simp
  show ?thesis
  proof (cases "q = 0")
    case True
    then have "a * 2 ^ nat (- e) \<le> 0" using qb by simp
    then have "a = 0" using assms(3) by (simp add: mult_le_0_iff)
    then show ?thesis using True f b unfolding between_def by (auto intro!: exI [of _ 0])
  next
    case q0: False
    have "0 \<le> a * 2 ^ nat (- e)" using assms(3) by simp
    then have pos: "0 < q" using qb(1) q0 by linarith
    have "q \<le> 2 ^ 52 * 2 ^ nat (- e)" using qb(2) assms(6) by (meson mult_right_mono order.trans zero_le_power zero_le_numeral)
    also have "(2 :: int) ^ 52 * 2 ^ nat (- e) < 2 ^ 53 * 2 ^ nat (- e)" by (intro mult_strict_right_mono) simp_all
    finally have "q < 2 ^ (53 + nat (- e))" by (simp add: power_add)
    then have "bit_size q \<le> 53 + nat (- e)" using pos by (intro bit_size_pow) auto
    then have big: "\<not> int (bit_size q) + e > 1024" using e by simp
    obtain m x where s: "strip2 q e = (m, x)" by (cases "strip2 q e")
    note v = strip2_value [OF pos s]
    have "0 \<le> m" using v pos by (smt (verit) mult_nonpos_nonneg zero_le_power)
    then show ?thesis using f q0 big s v qb e(1) unfolding between_def by auto
  qed
qed

lemma between_trunc:
  assumes "between a b f" "0 \<le> a" "b < 2 ^ 63"
  shows "a \<le> int_of_float f" "int_of_float f \<le> b"
proof -
  from assms(1) obtain m x e where f: "f = FFin False m x" "0 \<le> m" "e \<le> 0" "e \<le> x"
    and le: "a * 2 ^ nat (- e) \<le> m * 2 ^ nat (x - e)" "m * 2 ^ nat (x - e) \<le> b * 2 ^ nat (- e)"
    unfolding between_def by blast
  have "a \<le> trunc_fin False m x \<and> trunc_fin False m x \<le> b"
  proof (cases "0 \<le> x")
    case True
    have "(2 :: int) ^ nat (x - e) = 2 ^ nat x * 2 ^ nat (- e)"
      using True f(3) by (simp add: power_add [symmetric] nat_add_distrib [symmetric])
    then have "a * 2 ^ nat (- e) \<le> (m * 2 ^ nat x) * 2 ^ nat (- e)" "(m * 2 ^ nat x) * 2 ^ nat (- e) \<le> b * 2 ^ nat (- e)"
      using le by (simp_all add: mult.assoc)
    then show ?thesis using True by (simp add: trunc_fin_def)
  next
    case False
    have "(2 :: int) ^ nat (- e) = 2 ^ nat (- x) * 2 ^ nat (x - e)"
      using False f(4) by (simp add: power_add [symmetric] nat_add_distrib [symmetric])
    then have "(a * 2 ^ nat (- x)) * 2 ^ nat (x - e) \<le> m * 2 ^ nat (x - e)" "m * 2 ^ nat (x - e) \<le> (b * 2 ^ nat (- x)) * 2 ^ nat (x - e)"
      using le by (simp_all add: mult.assoc)
    then have m: "a * 2 ^ nat (- x) \<le> m" "m \<le> b * 2 ^ nat (- x)" by simp_all
    have "a * 2 ^ nat (- x) div 2 ^ nat (- x) \<le> m div 2 ^ nat (- x)" "m div 2 ^ nat (- x) \<le> b * 2 ^ nat (- x) div 2 ^ nat (- x)"
      using zdiv_mono1 [OF m(1), of "2 ^ nat (- x)"] zdiv_mono1 [OF m(2), of "2 ^ nat (- x)"] by simp_all
    then show ?thesis using False by (simp add: trunc_fin_def Let_def)
  qed
  then show "a \<le> int_of_float f" "int_of_float f \<le> b" using assms(2,3) f(1) by (auto simp: Let_def)
qed


lemma float_of_nat_between: "0 \<le> n \<Longrightarrow> n \<le> 2 ^ 52 \<Longrightarrow> between n n (float_of_int n)"
  unfolding float_of_int_def using mkFloat_between [of n 1 n n] by simp

lemma between_scaled:
  assumes "a * 2 ^ nat (- e) \<le> m * 2 ^ nat (x - e)" "E \<le> e" "e \<le> x" "e \<le> 0"
  shows "a * (2 :: int) ^ nat (- E) \<le> m * 2 ^ nat (x - E)"
proof -
  have "nat (x - E) = nat (x - e) + nat (e - E)" "nat (- E) = nat (- e) + nat (e - E)" using assms by auto
  then show ?thesis using mult_right_mono [OF assms(1), of "2 ^ nat (e - E)"] by (simp add: power_add mult.assoc)
qed

lemma scaled_between:
  assumes "m * 2 ^ nat (x - e) \<le> a * 2 ^ nat (- e)" "E \<le> e" "e \<le> x" "e \<le> 0"
  shows "m * 2 ^ nat (x - E) \<le> a * (2 :: int) ^ nat (- E)"
proof -
  have "nat (x - E) = nat (x - e) + nat (e - E)" "nat (- E) = nat (- e) + nat (e - E)" using assms by auto
  then show ?thesis using mult_right_mono [OF assms(1), of "2 ^ nat (e - E)"] by (simp add: power_add mult.assoc)
qed

lemma mkPow_between:
  assumes "0 \<le> v" "0 \<le> a" "E \<le> G" "E \<le> 0" "b \<le> 2 ^ 52"
    "a * 2 ^ nat (- E) \<le> v * 2 ^ nat (G - E)" "v * 2 ^ nat (G - E) \<le> b * 2 ^ nat (- E)"
  shows "between a b (mkPow False v G)"
proof (cases "0 \<le> G")
  case True
  have "(2 :: int) ^ nat (G - E) = 2 ^ nat G * 2 ^ nat (- E)"
    using True assms(4) by (simp add: power_add [symmetric] nat_add_distrib [symmetric])
  then have "a * 2 ^ nat (- E) \<le> (v * 2 ^ nat G) * 2 ^ nat (- E)" "(v * 2 ^ nat G) * 2 ^ nat (- E) \<le> b * 2 ^ nat (- E)"
    using assms(6,7) by (simp_all add: mult.assoc)
  then have "a \<le> v * 2 ^ nat G" "v * 2 ^ nat G \<le> b" by simp_all
  with True assms mkFloat_between [of "v * 2 ^ nat G" 1 a b] show ?thesis by (simp add: mkPow_def)
next
  case False
  have "(2 :: int) ^ nat (- E) = 2 ^ nat (- G) * 2 ^ nat (G - E)"
    using False assms(3) by (simp add: power_add [symmetric] nat_add_distrib [symmetric])
  then have "(a * 2 ^ nat (- G)) * 2 ^ nat (G - E) \<le> v * 2 ^ nat (G - E)" "v * 2 ^ nat (G - E) \<le> (b * 2 ^ nat (- G)) * 2 ^ nat (G - E)"
    using assms(6,7) by (simp_all add: mult.assoc)
  then have "a * 2 ^ nat (- G) \<le> v" "v \<le> b * 2 ^ nat (- G)" by simp_all
  with False assms mkFloat_between [of v "2 ^ nat (- G)" a b] show ?thesis by (simp add: mkPow_def)
qed

lemma fadd_between:
  assumes "between a b f" "between c d g" "0 \<le> a" "0 \<le> c" "b + d \<le> 2 ^ 52"
  shows "between (a + c) (b + d) (fadd f g)"
proof -
  from assms(1) obtain m x e where f: "f = FFin False m x" "0 \<le> m" "e \<le> 0" "e \<le> x"
    and lf: "a * 2 ^ nat (- e) \<le> m * 2 ^ nat (x - e)" "m * 2 ^ nat (x - e) \<le> b * 2 ^ nat (- e)"
    unfolding between_def by blast
  from assms(2) obtain n y h where g: "g = FFin False n y" "0 \<le> n" "h \<le> 0" "h \<le> y"
    and lg: "c * 2 ^ nat (- h) \<le> n * 2 ^ nat (y - h)" "n * 2 ^ nat (y - h) \<le> d * 2 ^ nat (- h)"
    unfolding between_def by blast
  define E where "E = min e h"
  define G where "G = min x y"
  define v where "v = m * 2 ^ nat (x - G) + n * 2 ^ nat (y - G)"
  have E: "E \<le> e" "E \<le> h" "E \<le> G" "E \<le> 0" "G \<le> x" "G \<le> y" using f g by (auto simp: E_def G_def)
  have up: "k * 2 ^ nat (z - G) * 2 ^ nat (G - E) = k * (2 :: int) ^ nat (z - E)" if "G \<le> z" for k z
  proof -
    have "nat (z - E) = nat (z - G) + nat (G - E)" using that E(3) by simp
    then show ?thesis by (simp add: power_add)
  qed
  have V: "v * 2 ^ nat (G - E) = m * 2 ^ nat (x - E) + n * 2 ^ nat (y - E)"
    unfolding v_def distrib_right up [OF E(5)] up [OF E(6)] ..
  have le: "(a + c) * 2 ^ nat (- E) \<le> v * 2 ^ nat (G - E)" "v * 2 ^ nat (G - E) \<le> (b + d) * 2 ^ nat (- E)"
    using between_scaled [OF lf(1) E(1) f(4,3)] between_scaled [OF lg(1) E(2) g(4,3)]
      scaled_between [OF lf(2) E(1) f(4,3)] scaled_between [OF lg(2) E(2) g(4,3)]
    unfolding V by (simp_all add: distrib_right)
  have v: "0 \<le> v" using f(2) g(2) by (simp add: v_def)
  have F: "fadd f g = (if v = 0 then FFin False 0 0 else mkPow (v < 0) (abs v) G)"
    by (simp add: f(1) g(1) Let_def G_def [symmetric] signed_def v_def [symmetric])
  show ?thesis
  proof (cases "v = 0")
    case True
    then have "(a + c) * 2 ^ nat (- E) \<le> 0" "0 \<le> (b + d) * 2 ^ nat (- E)" using le by simp_all
    then have "a + c \<le> 0" "0 \<le> b + d" by (simp_all add: mult_le_0_iff zero_le_mult_iff)
    then show ?thesis using True F unfolding between_def by (auto intro!: exI [of _ 0])
  next
    case False
    then show ?thesis using F v mkPow_between [OF v _ E(3,4) assms(5) le] assms(3,4) by simp
  qed
qed

section \<open>The seconds of a duration\<close>

text \<open>\<open>time.Duration\<close> in nanoseconds; division and remainder are cut towards zero.\<close>

definition nanos :: int where
  "nanos = 1000000000"

definition Duration_Seconds :: "int \<Rightarrow> float64" where
  "Duration_Seconds d =
     (let sec = sgn d * (abs d div nanos); nsec = sgn d * (abs d mod nanos)
      in fadd (float_of_int sec) (fdiv (float_of_int nsec) (float_of_int nanos)))"

lemma nsec_between:
  assumes "0 \<le> n" "n < nanos"
  shows "between 0 (if n = 0 then 0 else 1) (fdiv (float_of_int n) (float_of_int nanos))"
proof -
  have G: "float_of_int nanos = FFin False 1953125 9" by code_simp
  have "between n n (float_of_int n)" using assms by (intro float_of_nat_between) (auto simp: nanos_def)
  then obtain m x e where f: "float_of_int n = FFin False m x" "0 \<le> m" "e \<le> 0" "e \<le> x"
    and le: "n * 2 ^ nat (- e) \<le> m * 2 ^ nat (x - e)" "m * 2 ^ nat (x - e) \<le> n * 2 ^ nat (- e)"
    unfolding between_def by blast
  define g where "g = min x 9"
  have g: "g \<le> x" "g \<le> 9" "e \<le> g" using f by (auto simp: g_def)
  have F: "fdiv (float_of_int n) (float_of_int nanos) = mkFloat False (m * 2 ^ nat (x - g)) (1953125 * 2 ^ nat (9 - g))"
    by (simp add: f(1) G Let_def g_def [symmetric])
  have sp: "(2 :: int) ^ nat (z - e) = 2 ^ nat (z - g) * 2 ^ nat (g - e)" if "g \<le> z" for z
  proof -
    have "nat (z - e) = nat (z - g) + nat (g - e)" using that g(3) by simp
    then show ?thesis by (simp add: power_add)
  qed
  have "m * 2 ^ nat (x - g) * 2 ^ nat (g - e) = n * 2 ^ nat (- e)" using le by (simp add: sp [OF g(1)] mult.assoc)
  also have "\<dots> \<le> nanos * 2 ^ nat (- e)" using assms by (simp add: mult_right_mono)
  also have "\<dots> = 1953125 * (2 ^ 9 * 2 ^ nat (- e))" by (simp add: nanos_def)
  also have "2 ^ 9 * 2 ^ nat (- e) = (2 :: int) ^ nat (9 - e)" 
  proof -
    have "nat (9 - e) = 9 + nat (- e)" using f(3) by simp
    then show ?thesis by (simp add: power_add)
  qed
  also have "\<dots> = 2 ^ nat (9 - g) * 2 ^ nat (g - e)" by (rule sp [OF g(2)])
  finally have "m * 2 ^ nat (x - g) * 2 ^ nat (g - e) \<le> (1953125 * 2 ^ nat (9 - g)) * 2 ^ nat (g - e)" by (simp add: mult.assoc)
  then have one: "m * 2 ^ nat (x - g) \<le> 1 * (1953125 * 2 ^ nat (9 - g))" by simp
  show ?thesis
  proof (cases "n = 0")
    case True
    then have "m = 0" using le f(2) by (auto simp: mult_le_0_iff)
    then have "fdiv (float_of_int n) (float_of_int nanos) = FFin False 0 0" unfolding F by (simp add: mkFloat_def)
    then show ?thesis using True by (auto simp: between_def intro!: exI [of _ 0])
  next
    case False
    then show ?thesis unfolding F using f(2) one by (simp add: mkFloat_between)
  qed
qed

lemma seconds_bounds:
  assumes "0 \<le> d" "d < 2 ^ 51 * nanos"
  shows "d div nanos \<le> int_of_float (Duration_Seconds d)"
    "int_of_float (Duration_Seconds d) \<le> d div nanos + (if d mod nanos = 0 then 0 else 1)"
proof -
  have n: "0 < nanos" by (simp add: nanos_def)
  have s: "sgn d * (abs d div nanos) = d div nanos" "sgn d * (abs d mod nanos) = d mod nanos"
    using assms(1) by (cases "d = 0"; simp)+
  have "d div nanos < 2 ^ 51" using assms(2) by (simp add: nanos_def)
  moreover have "0 \<le> d div nanos" using assms(1) n by (simp add: pos_imp_zdiv_nonneg_iff)
  ultimately have b: "between (d div nanos + 0) (d div nanos + (if d mod nanos = 0 then 0 else 1)) (Duration_Seconds d)"
    unfolding Duration_Seconds_def Let_def s using n
    by (intro fadd_between float_of_nat_between nsec_between) auto
  from between_trunc [OF this] \<open>d div nanos < 2 ^ 51\<close> \<open>0 \<le> d div nanos\<close>
  show "d div nanos \<le> int_of_float (Duration_Seconds d)"
    "int_of_float (Duration_Seconds d) \<le> d div nanos + (if d mod nanos = 0 then 0 else 1)" by auto
qed

end
