(* ===== verification/Dns.thy ===== *)
theory Dns
  imports Rules Hosts FakeIP FloatFacts
begin

text \<open>
  The DNS front end: the skipper of the fake-IP mode (src/component/fakeip/skipper.go), the
  enhancer that holds the fake-IP pools and the address mapping (src/dns/enhancer.go), the
  middlewares (src/dns/middleware.go), the decisions of the resolver
  (src/dns/resolver.go, src/dns/policy.go) and the message helpers (src/dns/util.go).

  A message is a record of the sections of the wire format; \<open>SetRcode\<close> and the exchange with the
  name servers are operations of packages outside the repository and are arguments, collected in
  the record \<open>DnsEnv\<close>. A handler is a function from a request and the enhancer to an answer and
  the enhancer; it returns an \<open>outcome\<close> because it searches the hosts table and matches rules.

  The race between the servers of a group, the merging of concurrent equal questions and the
  repetition of a failed or stale question in the background are not modelled; that a question is
  asked again in the background is part of the result of \<open>ExchangeContext\<close>.
\<close>

section \<open>Messages\<close>

record RR_Header =
  h_Name :: string
  h_Rrtype :: u16
  h_Class :: u16
  h_Ttl :: u32

datatype RR =
    RR_A (rr_hdr: RR_Header) "u8 list"
  | RR_AAAA (rr_hdr: RR_Header) "u8 list"
  | RR_CNAME (rr_hdr: RR_Header) string
  | RR_other (rr_hdr: RR_Header) string

record Question =
  q_Name :: string
  q_Qtype :: u16
  q_Qclass :: u16

record Msg =
  m_Id :: u16
  m_Rcode :: int
  m_Authoritative :: bool
  m_RecursionAvailable :: bool
  m_Question :: "Question list"
  m_Answer :: "RR list"
  m_Ns :: "RR list"
  m_Extra :: "RR list"

definition empty_msg :: Msg where
  "empty_msg = \<lparr>m_Id = 0, m_Rcode = 0, m_Authoritative = False, m_RecursionAvailable = False,
     m_Question = [], m_Answer = [], m_Ns = [], m_Extra = []\<rparr>"

definition TypeA :: u16 where "TypeA = 1"
definition TypeCNAME :: u16 where "TypeCNAME = 5"
definition TypeTXT :: u16 where "TypeTXT = 16"
definition TypeAAAA :: u16 where "TypeAAAA = 28"
definition TypeOPT :: u16 where "TypeOPT = 41"
definition TypeSVCB :: u16 where "TypeSVCB = 64"
definition TypeHTTPS :: u16 where "TypeHTTPS = 65"
definition ClassINET :: u16 where "ClassINET = 1"

lemmas dns_types = TypeA_def TypeCNAME_def TypeTXT_def TypeAAAA_def TypeOPT_def TypeSVCB_def
  TypeHTTPS_def ClassINET_def

record DnsEnv =
  SetRcode :: "Msg \<Rightarrow> Msg \<Rightarrow> int \<Rightarrow> Msg"
  Exchange :: "Msg \<Rightarrow> Msg result"
  de_hosts :: "HostValue Node"
  de_systemHosts :: "(string \<Rightarrow> string list) option"
  de_now :: int

definition TrimRight_dots :: "string \<Rightarrow> string" where
  "TrimRight_dots s = rev (dropWhile (\<lambda>c. c = CHR ''.'') (rev s))"

section \<open>Helpers of messages\<close>

definition set_ttl :: "u32 \<Rightarrow> RR \<Rightarrow> RR" where
  "set_ttl ttl rr = (case rr of
     RR_A h b \<Rightarrow> RR_A (h\<lparr>h_Ttl := ttl\<rparr>) b
   | RR_AAAA h b \<Rightarrow> RR_AAAA (h\<lparr>h_Ttl := ttl\<rparr>) b
   | RR_CNAME h t \<Rightarrow> RR_CNAME (h\<lparr>h_Ttl := ttl\<rparr>) t
   | RR_other h t \<Rightarrow> RR_other (h\<lparr>h_Ttl := ttl\<rparr>) t)"

definition rr_ttl :: "RR \<Rightarrow> u32" where
  "rr_ttl rr = h_Ttl (rr_hdr rr)"

text \<open>\<open>lo.MinBy\<close>: the first least record; no record at all gives the nil record.\<close>

definition minimalTTL :: "RR list \<Rightarrow> u32" where
  "minimalTTL records = (case records of
     [] \<Rightarrow> 0
   | r # rs \<Rightarrow> rr_ttl (fold (\<lambda>x m. if rr_ttl x < rr_ttl m then x else m) rs r))"

text \<open>\<open>lo.Clamp\<close>; the subtractions wrap around.\<close>

definition Clamp :: "u32 \<Rightarrow> u32 \<Rightarrow> u32 \<Rightarrow> u32" where
  "Clamp x lo hi = (if x < lo then lo else if x > hi then hi else x)"

definition updateTTL :: "RR list \<Rightarrow> u32 \<Rightarrow> RR list" where
  "updateTTL records ttl =
     (if length records = 0 then records
      else
        (let delta = minimalTTL records - ttl
         in map (\<lambda>r. set_ttl (Clamp (rr_ttl r - delta) 1 (rr_ttl r)) r) records))"

definition setMsgTTL :: "Msg \<Rightarrow> u32 \<Rightarrow> Msg" where
  "setMsgTTL msg ttl = msg\<lparr>m_Answer := map (set_ttl ttl) (m_Answer msg),
     m_Ns := map (set_ttl ttl) (m_Ns msg),
     m_Extra := map (\<lambda>r. if h_Rrtype (rr_hdr r) = TypeOPT then r else set_ttl ttl r) (m_Extra msg)\<rparr>"

definition updateMsgTTL :: "Msg \<Rightarrow> u32 \<Rightarrow> Msg" where
  "updateMsgTTL msg ttl = msg\<lparr>m_Answer := updateTTL (m_Answer msg) ttl,
     m_Ns := updateTTL (m_Ns msg) ttl, m_Extra := updateTTL (m_Extra msg) ttl\<rparr>"

definition isIPRequest :: "Question \<Rightarrow> bool" where
  "isIPRequest q = (q_Qclass q = ClassINET
     \<and> (q_Qtype q = TypeA \<or> q_Qtype q = TypeAAAA \<or> q_Qtype q = TypeCNAME))"

definition handleMsgWithEmptyAnswer :: "DnsEnv \<Rightarrow> Msg \<Rightarrow> Msg" where
  "handleMsgWithEmptyAnswer de r =
     (SetRcode de empty_msg r 0)\<lparr>m_Authoritative := True, m_RecursionAvailable := True\<rparr>"

definition rr_addr :: "RR \<Rightarrow> Addr" where
  "rr_addr rr = (case rr of
     RR_A h b \<Rightarrow> AddrFromSlice b | RR_AAAA h b \<Rightarrow> AddrFromSlice b | _ \<Rightarrow> AddrInvalid)"

definition msgToIP :: "Msg \<Rightarrow> Addr list" where
  "msgToIP msg = map Unmap (filter IsValid (map rr_addr (m_Answer msg)))"

definition msgToDomain :: "Msg \<Rightarrow> string" where
  "msgToDomain msg = (case m_Question msg of [] \<Rightarrow> [] | q # _ \<Rightarrow> TrimRight_dots (q_Name q))"

section \<open>The skipper\<close>

record Skipper =
  sk_Rules :: "rule list"
  sk_Host :: "(string \<Rightarrow> bool) list"
  sk_Mode :: FilterMode

definition skipper_shouldSkipped :: "Skipper \<Rightarrow> string \<Rightarrow> bool" where
  "skipper_shouldSkipped p domain = list_ex (\<lambda>matcher. matcher domain) (sk_Host p)"

fun skipRules :: "nat \<Rightarrow> RuleEnv \<Rightarrow> rule list \<Rightarrow> Metadata \<Rightarrow> bool outcome" where
  "skipRules n env [] m = Ret False"
| "skipRules n env (r # rs) m = obind (ruleMatch n env r no_helper ((), m)) (\<lambda>res.
     if fst (fst res) then Ret (snd (fst res) = ''real-ip'') else skipRules n env rs (snd (snd res)))"

definition ShouldSkipped :: "nat \<Rightarrow> RuleEnv \<Rightarrow> Skipper \<Rightarrow> string \<Rightarrow> bool outcome" where
  "ShouldSkipped n env p domain =
     (if length (sk_Rules p) > 0
      then skipRules n env (sk_Rules p) (empty_metadata\<lparr>md_Host := domain\<rparr>)
      else
        (let should = skipper_shouldSkipped p domain
         in Ret (if sk_Mode p = FilterWhiteList then \<not> should else should)))"

section \<open>The enhancer\<close>

record 's ResolverEnhancer =
  e_ipv6 :: bool
  e_mode :: DNSMode
  fakeIPPool :: "'s Pool option"
  fakeIPPool6 :: "'s Pool option"
  fakeIPSkipper :: "Skipper option"
  fakeIPTTL :: int
  e_mapping :: "(Addr, string) LruCache option"
  useHosts :: bool

definition FakeIPEnabled :: "'s ResolverEnhancer \<Rightarrow> bool" where
  "FakeIPEnabled h = (e_mode h = DNSFakeIP)"

definition MappingEnabled :: "'s ResolverEnhancer \<Rightarrow> bool" where
  "MappingEnabled h = (e_mode h = DNSFakeIP \<or> e_mode h = DNSMapping)"

definition in_pool :: "('s Pool \<Rightarrow> bool) \<Rightarrow> 's Pool option \<Rightarrow> bool" where
  "in_pool P pool = (case pool of None \<Rightarrow> False | Some p \<Rightarrow> P p)"

definition IsExistFakeIP :: "'s store_ops \<Rightarrow> 's ResolverEnhancer \<Rightarrow> Addr \<Rightarrow> bool" where
  "IsExistFakeIP ops h ip = (FakeIPEnabled h
     \<and> (in_pool (pool_Exist ops ip) (fakeIPPool h) \<or> in_pool (pool_Exist ops ip) (fakeIPPool6 h)))"

definition fake_in :: "Addr \<Rightarrow> 's Pool \<Rightarrow> bool" where
  "fake_in ip p = (PrefixContains (IPNet p) ip \<and> ip \<noteq> Gateway p \<and> ip \<noteq> Broadcast p)"

definition IsFakeIP :: "'s ResolverEnhancer \<Rightarrow> Addr \<Rightarrow> bool" where
  "IsFakeIP h ip = (FakeIPEnabled h
     \<and> (in_pool (fake_in ip) (fakeIPPool h) \<or> in_pool (fake_in ip) (fakeIPPool6 h)))"

definition IsFakeBroadcastIP :: "'s ResolverEnhancer \<Rightarrow> Addr \<Rightarrow> bool" where
  "IsFakeBroadcastIP h ip = (FakeIPEnabled h
     \<and> (in_pool (\<lambda>p. Broadcast p = ip) (fakeIPPool h) \<or> in_pool (\<lambda>p. Broadcast p = ip) (fakeIPPool6 h)))"

definition pool_LookBack :: "'s store_ops \<Rightarrow> Addr \<Rightarrow> 's Pool option \<Rightarrow> string option \<times> 's Pool option" where
  "pool_LookBack ops ip pool = (case pool of
     None \<Rightarrow> (None, None)
   | Some p \<Rightarrow> (let r = LookBack ops ip p in (fst r, Some (snd r))))"

definition FindHostByIP :: "'s store_ops \<Rightarrow> int \<Rightarrow> Addr \<Rightarrow> 's ResolverEnhancer
    \<Rightarrow> string option \<times> 's ResolverEnhancer" where
  "FindHostByIP ops now ip h =
     (let r = pool_LookBack ops ip (fakeIPPool h); h1 = h\<lparr>fakeIPPool := snd r\<rparr>
      in case fst r of Some host \<Rightarrow> (Some host, h1)
       | None \<Rightarrow>
           (let r6 = pool_LookBack ops ip (fakeIPPool6 h1); h2 = h1\<lparr>fakeIPPool6 := snd r6\<rparr>
            in case fst r6 of Some host \<Rightarrow> (Some host, h2)
             | None \<Rightarrow>
                 (case e_mapping h2 of
                    None \<Rightarrow> (None, h2)
                  | Some mapping \<Rightarrow>
                      (let g = Get now ip mapping in (fst g, h2\<lparr>e_mapping := Some (snd g)\<rparr>)))))"

definition InsertHostByIP :: "int \<Rightarrow> Addr \<Rightarrow> string \<Rightarrow> 's ResolverEnhancer \<Rightarrow> 's ResolverEnhancer" where
  "InsertHostByIP now ip host h = (case e_mapping h of
     None \<Rightarrow> h
   | Some mapping \<Rightarrow> h\<lparr>e_mapping := Some (Set now ip host mapping)\<rparr>)"

definition flush_pool :: "'s store_ops \<Rightarrow> 's Pool option \<Rightarrow> string list \<times> 's Pool option" where
  "flush_pool ops pool = (case pool of
     None \<Rightarrow> ([], None)
   | Some p \<Rightarrow> (let r = FlushFakeIP ops p in (case fst r of None \<Rightarrow> [] | Some e \<Rightarrow> [e], Some (snd r))))"

text \<open>The joined error is the list of the errors of the two pools.\<close>

definition enhancer_FlushFakeIP :: "'s store_ops \<Rightarrow> 's ResolverEnhancer \<Rightarrow> string list \<times> 's ResolverEnhancer" where
  "enhancer_FlushFakeIP ops h =
     (let r = flush_pool ops (fakeIPPool h); r6 = flush_pool ops (fakeIPPool6 h)
      in (fst r @ fst r6, h\<lparr>fakeIPPool := snd r, fakeIPPool6 := snd r6\<rparr>))"

definition clone_pool :: "'s store_ops \<Rightarrow> 's Pool option \<Rightarrow> 's Pool option \<Rightarrow> 's Pool option" where
  "clone_pool ops old pool = (case (old, pool) of
     (Some q, Some p) \<Rightarrow> Some (CloneFrom ops q p) | _ \<Rightarrow> pool)"

definition PatchFrom :: "'s store_ops \<Rightarrow> 's ResolverEnhancer \<Rightarrow> 's ResolverEnhancer \<Rightarrow> 's ResolverEnhancer" where
  "PatchFrom ops old h = h\<lparr>
     e_mapping := (case (e_mapping old, e_mapping h) of (Some c, Some n) \<Rightarrow> Some (CloneTo c n) | _ \<Rightarrow> e_mapping h),
     fakeIPPool := clone_pool ops (fakeIPPool old) (fakeIPPool h),
     fakeIPPool6 := clone_pool ops (fakeIPPool6 old) (fakeIPPool6 h)\<rparr>"

definition StoreFakePoolState :: "'s store_ops \<Rightarrow> 's ResolverEnhancer \<Rightarrow> 's ResolverEnhancer" where
  "StoreFakePoolState ops h = h\<lparr>fakeIPPool := map_option (StoreState ops) (fakeIPPool h),
     fakeIPPool6 := map_option (StoreState ops) (fakeIPPool6 h)\<rparr>"

definition NewEnhancer :: "bool \<Rightarrow> DNSMode \<Rightarrow> 's Pool option \<Rightarrow> 's Pool option \<Rightarrow> Skipper option \<Rightarrow> int
    \<Rightarrow> bool \<Rightarrow> 's ResolverEnhancer" where
  "NewEnhancer ipv6 mode pool pool6 skipper ttl hosts =
     (let e = \<lparr>e_ipv6 = ipv6, e_mode = mode, fakeIPPool = None, fakeIPPool6 = None,
               fakeIPSkipper = None, fakeIPTTL = 0, e_mapping = None, useHosts = hosts\<rparr>
      in if mode \<noteq> DNSNormal
         then e\<lparr>fakeIPPool := pool, fakeIPPool6 := (if ipv6 then pool6 else None),
                fakeIPSkipper := skipper, fakeIPTTL := (if ttl < 1 then 1 else ttl),
                e_mapping := Some (NewCache [WithSize 4096])\<rparr>
         else e)"

section \<open>Middlewares\<close>

type_synonym 's handler = "Msg \<Rightarrow> 's ResolverEnhancer \<Rightarrow> (Msg result \<times> 's ResolverEnhancer) outcome"
type_synonym 's middleware = "'s handler \<Rightarrow> 's handler"

definition dns_header :: "string \<Rightarrow> u16 \<Rightarrow> u32 \<Rightarrow> RR_Header" where
  "dns_header name tp ttl = \<lparr>h_Name = name, h_Rrtype = tp, h_Class = ClassINET, h_Ttl = ttl\<rparr>"

definition handleCName :: "Question \<Rightarrow> Msg \<Rightarrow> string \<Rightarrow> Msg" where
  "handleCName q resp domain =
     resp\<lparr>m_Answer := RR_CNAME (dns_header (q_Name q) TypeCNAME 10) (domain @ ''.'') # m_Answer resp\<rparr>"

definition map_host :: "int \<Rightarrow> Addr \<Rightarrow> string \<Rightarrow> int \<Rightarrow> 's ResolverEnhancer \<Rightarrow> 's ResolverEnhancer" where
  "map_host now ip host expires h = (case e_mapping h of
     None \<Rightarrow> h
   | Some mapping \<Rightarrow> h\<lparr>e_mapping := Some (SetWithExpire now ip host expires mapping)\<rparr>)"

fun handleIPs :: "int \<Rightarrow> Question \<Rightarrow> string \<Rightarrow> Addr list \<Rightarrow> Msg \<Rightarrow> 's ResolverEnhancer
    \<Rightarrow> Msg \<times> 's ResolverEnhancer" where
  "handleIPs now q host [] msg h = (msg, h)"
| "handleIPs now q host (ip # ips) msg h =
     (if Is4 ip \<and> q_Qtype q = TypeA then
        handleIPs now q host ips
          (msg\<lparr>m_Answer := m_Answer msg @ [RR_A (dns_header (q_Name q) TypeA 10) (AsSlice ip)]\<rparr>)
          (map_host now ip host (now + 10) h)
      else if Is6 ip \<and> q_Qtype q = TypeAAAA then
        handleIPs now q host ips
          (msg\<lparr>m_Answer := m_Answer msg @ [RR_AAAA (dns_header (q_Name q) TypeAAAA 10) (AsSlice ip)]\<rparr>)
          (map_host now ip host (now + 10) h)
      else handleIPs now q host ips msg h)"

definition answered :: "DnsEnv \<Rightarrow> Msg \<Rightarrow> Msg \<Rightarrow> Msg" where
  "answered de r msg = (SetRcode de msg r 0)\<lparr>m_Authoritative := True, m_RecursionAvailable := True\<rparr>"

definition withHosts :: "DnsEnv \<Rightarrow> 's middleware" where
  "withHosts de next r h = (case m_Question r of
     [] \<Rightarrow> Panic
   | q # qs \<Rightarrow>
       (if \<not> isIPRequest q then next r h
        else
          (let host = TrimRight_dots (q_Name q) in
           case hostsSearch (de_systemHosts de) (de_hosts de) host
                  (q_Qtype q \<noteq> TypeA \<and> q_Qtype q \<noteq> TypeAAAA) of
             None \<Rightarrow> Diverge
           | Some (record, ok) \<Rightarrow>
               (if \<not> ok then
                  (case record of
                     None \<Rightarrow> next r h
                   | Some rec \<Rightarrow>
                       (if IsDomain rec then
                          obind (next (r\<lparr>m_Question := q\<lparr>q_Name := hv_Domain rec @ ''.''\<rparr> # qs\<rparr>) h) (\<lambda>res.
                            Ret (case fst res of
                                   Inl err \<Rightarrow> Inl err
                                 | Inr resp \<Rightarrow> Inr (handleCName q
                                     (resp\<lparr>m_Id := m_Id r, m_Question := m_Question r\<rparr>) (hv_Domain rec)),
                                 snd res))
                        else next r h))
                else
                  (case record of
                     None \<Rightarrow> Panic
                   | Some rec \<Rightarrow>
                       (if q_Qtype q = TypeA \<or> q_Qtype q = TypeAAAA then
                          (let res = handleIPs (de_now de) q host (IPs rec) r h
                           in Ret (Inr (answered de r (fst res)), snd res))
                        else if q_Qtype q = TypeCNAME then
                          Ret (Inr (answered de r (handleCName q r (hv_Domain rec))), h)
                        else next r h))))))"

definition IsGlobalUnicast :: "Addr \<Rightarrow> bool" where
  "IsGlobalUnicast ip = (ip \<noteq> AddrInvalid \<and> ip \<noteq> Addr4 0 \<and> ip \<noteq> Addr4 (- 1) \<and> ip \<noteq> Addr6 0 []
     \<and> \<not> IsLoopback ip \<and> \<not> IsMulticast ip \<and> \<not> IsLinkLocalUnicast ip)"

fun mapAnswers :: "int \<Rightarrow> string \<Rightarrow> RR list \<Rightarrow> 's ResolverEnhancer \<Rightarrow> 's ResolverEnhancer" where
  "mapAnswers now host [] h = h"
| "mapAnswers now host (ans # rest) h =
     (let ip = rr_addr ans; ttl = rr_ttl ans in
      if \<not> IsValid ip \<or> \<not> IsGlobalUnicast ip then mapAnswers now host rest h
      else mapAnswers now host rest
             (map_host now (Unmap ip) host (now + uint (if ttl < 1 then 1 else ttl)) h))"

definition withMapping :: "DnsEnv \<Rightarrow> 's middleware" where
  "withMapping de next r h = (case m_Question r of
     [] \<Rightarrow> Panic
   | q # qs \<Rightarrow>
       (if \<not> isIPRequest q then next r h
        else obind (next r h) (\<lambda>res.
          Ret (case fst res of
                 Inl err \<Rightarrow> (Inl err, snd res)
               | Inr msg \<Rightarrow>
                   (Inr msg, mapAnswers (de_now de) (TrimRight_dots (q_Name q)) (m_Answer msg) (snd res))))))"

definition dnsDefaultTTL :: u32 where
  "dnsDefaultTTL = 600"

definition fakeAnswer :: "DnsEnv \<Rightarrow> 's ResolverEnhancer \<Rightarrow> Msg \<Rightarrow> RR \<Rightarrow> Msg" where
  "fakeAnswer de h r rr = answered de r (setMsgTTL (r\<lparr>m_Answer := [rr]\<rparr>) (word_of_int (fakeIPTTL h)))"

definition withFakeIP :: "nat \<Rightarrow> RuleEnv \<Rightarrow> DnsEnv \<Rightarrow> 's store_ops \<Rightarrow> 's middleware" where
  "withFakeIP n env de ops next r h = (case m_Question r of
     [] \<Rightarrow> Panic
   | q # qs \<Rightarrow>
       (let host = TrimRight_dots (q_Name q) in
        case fakeIPSkipper h of
          None \<Rightarrow> Panic
        | Some skipper \<Rightarrow>
            obind (ShouldSkipped n env skipper host) (\<lambda>skip.
              if skip then next r h
              else if q_Qtype q = TypeA then
                (case fakeIPPool h of
                   None \<Rightarrow> Ret (Inr (handleMsgWithEmptyAnswer de r), h)
                 | Some p \<Rightarrow>
                     (let l = Lookup ops host p
                      in Ret (Inr (fakeAnswer de h r
                                (RR_A (dns_header (q_Name q) TypeA dnsDefaultTTL) (AsSlice (fst l)))),
                              h\<lparr>fakeIPPool := Some (snd l)\<rparr>)))
              else if q_Qtype q = TypeAAAA then
                (case fakeIPPool6 h of
                   None \<Rightarrow> Ret (Inr (handleMsgWithEmptyAnswer de r), h)
                 | Some p \<Rightarrow>
                     (let l = Lookup ops host p
                      in Ret (Inr (fakeAnswer de h r
                                (RR_AAAA (dns_header (q_Name q) TypeAAAA dnsDefaultTTL) (AsSlice (fst l)))),
                              h\<lparr>fakeIPPool6 := Some (snd l)\<rparr>)))
              else if q_Qtype q = TypeSVCB \<or> q_Qtype q = TypeHTTPS then
                Ret (Inr (handleMsgWithEmptyAnswer de r), h)
              else next r h)))"

definition withResolver :: "DnsEnv \<Rightarrow> bool \<Rightarrow> 's handler" where
  "withResolver de ipv6 r h = (case m_Question r of
     [] \<Rightarrow> Panic
   | q # qs \<Rightarrow>
       (if \<not> ipv6 \<and> q_Qtype q = TypeAAAA then Ret (Inr (handleMsgWithEmptyAnswer de r), h)
        else Ret (case Exchange de r of
                    Inl err \<Rightarrow> Inl err
                  | Inr msg \<Rightarrow> Inr ((SetRcode de msg r (m_Rcode msg))\<lparr>m_Authoritative := True\<rparr>), h)))"

definition compose :: "'s middleware list \<Rightarrow> 's handler \<Rightarrow> 's handler" where
  "compose middlewares endpoint = foldr (\<lambda>m h. m h) middlewares endpoint"

definition newHandler :: "nat \<Rightarrow> RuleEnv \<Rightarrow> DnsEnv \<Rightarrow> 's store_ops \<Rightarrow> 's ResolverEnhancer \<Rightarrow> 's handler" where
  "newHandler n env de ops mapper =
     compose ((if useHosts mapper then [withHosts de] else [])
       @ (if e_mode mapper = DNSFakeIP then [withFakeIP n env de ops] else [])
       @ (if e_mode mapper \<noteq> DNSNormal then [withMapping de] else []))
       (withResolver de (e_ipv6 mapper))"

section \<open>The resolver\<close>

text \<open>
  The name servers are abstract: \<open>batchExchange\<close> asks a list of clients at once and gives the
  answer of the fastest and whether it may be cached. It is an operation on the outside world, of
  type \<open>'w\<close>, so that asking twice, or in another order, may give other answers. A completed exchange is
  modelled: one that is started is finished before the next starts, that a caller may give up waiting
  for it is not modelled, nor that equal questions asked at the same time share one exchange.

  Times are in nanoseconds, as \<open>time.Now()\<close> gives them; the cache keeps the expiry of an entry in whole
  seconds of Unix time.
\<close>

datatype 'c dnsPolicy =
    domainTriePolicy "'c list Node"
  | domainMatcherPolicy "string \<Rightarrow> bool" "'c list"

fun policy_Match :: "'c dnsPolicy \<Rightarrow> string \<Rightarrow> 'c list" where
  "policy_Match (domainTriePolicy t) domain =
     (case Search t domain of
        None \<Rightarrow> [] | Some record \<Rightarrow> (case nodeData record of Some cs \<Rightarrow> cs | None \<Rightarrow> []))"
| "policy_Match (domainMatcherPolicy matcher cs) domain = (if matcher domain then cs else [])"

record 'c Resolver =
  r_main :: "'c list"
  r_fallback :: "'c list option"
  fallbackDomainFilters :: "(string \<Rightarrow> bool) list"
  fallbackIPFilters :: "(Addr \<Rightarrow> bool) list"
  fallbackLazyQuery :: bool
  r_cache :: "(string, Msg) LruCache"
  r_policy :: "'c dnsPolicy list"

record ('c, 'w) ResolverEnv =
  batchExchange :: "'c list \<Rightarrow> Msg \<Rightarrow> 'w \<Rightarrow> (Msg result \<times> bool) \<times> 'w"
  QuestionString :: "Question \<Rightarrow> string"
  SetQuestion :: "string \<Rightarrow> u16 \<Rightarrow> Msg"

definition shouldIPFallback :: "'c Resolver \<Rightarrow> Addr \<Rightarrow> bool" where
  "shouldIPFallback r ip = list_ex (\<lambda>f. f ip) (fallbackIPFilters r)"

fun firstPolicy :: "'c dnsPolicy list \<Rightarrow> string \<Rightarrow> 'c list" where
  "firstPolicy [] domain = []"
| "firstPolicy (p # ps) domain =
     (let cs = policy_Match p domain in if length cs > 0 then cs else firstPolicy ps domain)"

definition matchPolicy :: "'c Resolver \<Rightarrow> Msg \<Rightarrow> 'c list" where
  "matchPolicy r m =
     (let domain = msgToDomain m
      in if domain = [] then [] else firstPolicy (r_policy r) domain)"

definition shouldOnlyQueryFallback :: "'c Resolver \<Rightarrow> Msg \<Rightarrow> bool" where
  "shouldOnlyQueryFallback r m =
     (if r_fallback r = None \<or> length (fallbackDomainFilters r) = 0 then False
      else
        (let domain = msgToDomain m
         in if domain = [] then False else list_ex (\<lambda>df. df domain) (fallbackDomainFilters r)))"

definition asyncExchange :: "('c, 'w) ResolverEnv \<Rightarrow> 'c list \<Rightarrow> Msg \<Rightarrow> 'w \<Rightarrow> Msg result \<times> 'w" where
  "asyncExchange re cs m w = (case batchExchange re cs m w of ((res, _), w1) \<Rightarrow> (res, w1))"

text \<open>
  Without the lazy option both groups are asked before the first answer is looked at, the main
  group first.
\<close>

definition ipExchange :: "('c, 'w) ResolverEnv \<Rightarrow> 'c Resolver \<Rightarrow> Msg \<Rightarrow> 'w \<Rightarrow> Msg result \<times> 'w" where
  "ipExchange re r m w =
     (let matched = matchPolicy r m in
      if length matched \<noteq> 0 then asyncExchange re matched m w
      else if shouldOnlyQueryFallback r m then asyncExchange re (case r_fallback r of None \<Rightarrow> [] | Some fb \<Rightarrow> fb) m w
      else case asyncExchange re (r_main r) m w of (res, w1) \<Rightarrow>
        (case r_fallback r of
           None \<Rightarrow> (res, w1)
         | Some fb \<Rightarrow>
             (let started = (if fallbackLazyQuery r then None else Some (asyncExchange re fb m w1));
                  w2 = (case started of None \<Rightarrow> w1 | Some x \<Rightarrow> snd x);
                  shouldNotFallback = (case res of
                    Inl _ \<Rightarrow> False
                  | Inr msg \<Rightarrow>
                      length (msgToIP msg) \<noteq> 0 \<and> list_all (\<lambda>ip. \<not> shouldIPFallback r ip) (msgToIP msg))
              in if shouldNotFallback then (res, w2)
                 else case started of
                   Some x \<Rightarrow> (fst x, w2)
                 | None \<Rightarrow> asyncExchange re fb m w2)))"

definition serverFailureCacheTTL :: u32 where
  "serverFailureCacheTTL = 5"

text \<open>\<open>time.Time.Unix\<close>.\<close>

definition Unix :: "int \<Rightarrow> int" where
  "Unix t = t div nanos"

text \<open>The expiry that is returned is a time: the second it starts at.\<close>

definition getMsgFromCache :: "('c, 'w) ResolverEnv \<Rightarrow> int \<Rightarrow> Question \<Rightarrow> (string, Msg) LruCache
    \<Rightarrow> (Msg \<times> int) option \<times> (string, Msg) LruCache" where
  "getMsgFromCache re now q c = (case GetWithExpire (Unix now) (QuestionString re q) c of
     (r, c1) \<Rightarrow> (map_option (\<lambda>(msg, expires). (msg, expires * nanos)) r, c1))"

definition putMsgToCache :: "('c, 'w) ResolverEnv \<Rightarrow> int \<Rightarrow> Question \<Rightarrow> Msg \<Rightarrow> (string, Msg) LruCache
    \<Rightarrow> (string, Msg) LruCache" where
  "putMsgToCache re now q msg0 c =
     (if q_Qtype q = TypeTXT \<and> HasPrefix (q_Name q) ''_acme-challenge.'' then c
      else
        (let msg = msg0\<lparr>m_Extra := filter (\<lambda>rr. h_Rrtype (rr_hdr rr) \<noteq> TypeOPT) (m_Extra msg0)\<rparr>;
             ttl = (if m_Rcode msg = 2 then serverFailureCacheTTL
                    else minimalTTL (m_Answer msg @ m_Ns msg @ m_Extra msg))
         in if ttl = 0 then c
            else SetWithExpire (Unix now) (QuestionString re q) msg (Unix (now + uint ttl * nanos)) c))"

definition exchangeWithoutCache :: "('c, 'w) ResolverEnv \<Rightarrow> int \<Rightarrow> Msg \<Rightarrow> 'c Resolver \<Rightarrow> 'w
    \<Rightarrow> Msg result \<times> 'c Resolver \<times> 'w" where
  "exchangeWithoutCache re now m r w =
     (let q = hd (m_Question m);
          x = (if isIPRequest q then (case ipExchange re r m w of (res, w1) \<Rightarrow> ((res, True), w1))
               else if length (matchPolicy r m) \<noteq> 0 then batchExchange re (matchPolicy r m) m w
               else batchExchange re (r_main r) m w)
      in case fst (fst x) of
           Inl err \<Rightarrow> (Inl err, r, snd x)
         | Inr msg \<Rightarrow>
             (Inr msg, if snd (fst x) then r\<lparr>r_cache := putMsgToCache re now q msg (r_cache r)\<rparr> else r, snd x))"

text \<open>
  The clock is read when the entry is found, \<open>now\<close>, and again, \<open>now'\<close>, for the time that is left. The
  conversion of the seconds left to \<open>uint32\<close> cuts them; a negative number, which Go leaves to the
  implementation, is converted as on amd64. The last component says whether a stale answer was given
  and a new one is fetched in the background.
\<close>

definition ExchangeContext :: "('c, 'w) ResolverEnv \<Rightarrow> int \<Rightarrow> int \<Rightarrow> Msg \<Rightarrow> 'c Resolver \<Rightarrow> 'w
    \<Rightarrow> Msg result \<times> 'c Resolver \<times> 'w \<times> bool" where
  "ExchangeContext re now now' m r w = (case m_Question m of
     [] \<Rightarrow> (Inl ''should have one question at least'', r, w, False)
   | q # qs \<Rightarrow>
       (let g = getMsgFromCache re now q (r_cache r); r1 = r\<lparr>r_cache := snd g\<rparr>
        in case fst g of
             Some (msg, expireTime) \<Rightarrow>
               (if expireTime < now then (Inr (setMsgTTL msg 1), r1, w, True)
                else (Inr (updateMsgTTL msg (word_of_int (int_of_float (Duration_Seconds (expireTime - now'))))), r1, w, False))
           | None \<Rightarrow> (case exchangeWithoutCache re now' m r1 w of (res, r2, w1) \<Rightarrow> (res, r2, w1, False))))"

datatype lookup_error = LErrIPVersion | LErrIPNotFound | LErrExchange string

definition lookupIP :: "('c, 'w) ResolverEnv \<Rightarrow> int \<Rightarrow> int \<Rightarrow> string \<Rightarrow> u16 \<Rightarrow> 'c Resolver \<Rightarrow> 'w
    \<Rightarrow> (lookup_error + Addr list) \<times> 'c Resolver \<times> 'w" where
  "lookupIP re now now' host dnsType r w = (case ParseAddr host of
     Some ip0 \<Rightarrow>
       (let ip = Unmap ip0 in
        if dnsType = TypeAAAA \<and> \<not> Is4 ip then (Inr [ip], r, w)
        else if dnsType = TypeA \<and> Is4 ip then (Inr [ip], r, w)
        else (Inl LErrIPVersion, r, w))
   | None \<Rightarrow>
       (case ExchangeContext re now now' (SetQuestion re host dnsType) r w of
          (Inl err, r1, w1, _) \<Rightarrow> (Inl (LErrExchange err), r1, w1)
        | (Inr msg, r1, w1, _) \<Rightarrow>
            (let ips = msgToIP msg
             in if length ips = 0 then (Inl LErrIPNotFound, r1, w1) else (Inr ips, r1, w1))))"

definition LookupIPv4 :: "('c, 'w) ResolverEnv \<Rightarrow> int \<Rightarrow> int \<Rightarrow> string \<Rightarrow> 'c Resolver \<Rightarrow> 'w
    \<Rightarrow> (lookup_error + Addr list) \<times> 'c Resolver \<times> 'w" where
  "LookupIPv4 re now now' host r w = lookupIP re now now' host TypeA r w"

definition LookupIPv6 :: "('c, 'w) ResolverEnv \<Rightarrow> int \<Rightarrow> int \<Rightarrow> string \<Rightarrow> 'c Resolver \<Rightarrow> 'w
    \<Rightarrow> (lookup_error + Addr list) \<times> 'c Resolver \<times> 'w" where
  "LookupIPv6 re now now' host r w = lookupIP re now now' host TypeAAAA r w"

definition ClearCache :: "'c Resolver \<Rightarrow> 'c Resolver" where
  "ClearCache r = r\<lparr>r_cache := Clear (r_cache r)\<rparr>"

text \<open>\<open>makePolicy\<close>: runs of plain domains are collected in one trie, matchers stand alone.\<close>

record 'c Policy =
  pol_Domain :: string
  pol_Matcher :: "(string \<Rightarrow> bool) option"
  pol_NameServers :: "'c list"

definition flushTrie :: "'c list Node option \<Rightarrow> 'c dnsPolicy list" where
  "flushTrie t = (case t of None \<Rightarrow> [] | Some t \<Rightarrow> [domainTriePolicy (optimize t)])"

fun makePolicy_loop :: "'c Policy list \<Rightarrow> 'c list Node option \<Rightarrow> 'c dnsPolicy list" where
  "makePolicy_loop [] t = flushTrie t"
| "makePolicy_loop (p # ps) t = (case pol_Matcher p of
     Some matcher \<Rightarrow>
       flushTrie t @ domainMatcherPolicy matcher (pol_NameServers p) # makePolicy_loop ps None
   | None \<Rightarrow>
       (let t1 = (case t of None \<Rightarrow> newNode | Some t \<Rightarrow> t);
            t2 = (case Insert (pol_Domain p) (pol_NameServers p) t1 of Inl _ \<Rightarrow> t1 | Inr t' \<Rightarrow> t')
        in makePolicy_loop ps (Some t2)))"

definition makePolicy :: "'c Policy list \<Rightarrow> 'c dnsPolicy list" where
  "makePolicy policies = makePolicy_loop policies None"

section \<open>Lemmas\<close>

lemma rr_ttl_set [simp]: "rr_ttl (set_ttl t r) = t"
  by (cases r) (simp_all add: rr_ttl_def set_ttl_def)

lemma set_ttl_twice [simp]: "set_ttl t (set_ttl u r) = set_ttl t r"
  by (cases r) (simp_all add: set_ttl_def)

lemma rr_addr_set_ttl [simp]: "rr_addr (set_ttl t r) = rr_addr r"
  by (cases r) (simp_all add: set_ttl_def rr_addr_def)

lemma fold_min_rr: "rr_ttl (fold (\<lambda>x m. if rr_ttl x < rr_ttl m then x else m) rs r)
    = Min (rr_ttl ` set (r # rs))"
proof (induction rs arbitrary: r)
  case (Cons x rs)
  let ?m = "if rr_ttl x < rr_ttl r then x else r"
  have m: "rr_ttl ?m = min (rr_ttl r) (rr_ttl x)" by (auto simp: min_def)
  have i: "rr_ttl (fold (\<lambda>x m. if rr_ttl x < rr_ttl m then x else m) (x # rs) r)
      = Min (rr_ttl ` set (?m # rs))" using Cons by (simp only: fold_simps)
  show ?case unfolding i using m by (cases "set rs = {}") (simp_all add: min.assoc)
qed simp

lemma minimalTTL_Min: "rs \<noteq> [] \<Longrightarrow> minimalTTL rs = Min (rr_ttl ` set rs)"
  by (cases rs) (simp_all add: minimalTTL_def fold_min_rr)

lemma minimalTTL_le: "r \<in> set rs \<Longrightarrow> minimalTTL rs \<le> rr_ttl r"
  by (cases "rs = []") (auto simp: minimalTTL_Min)

lemma minimalTTL_map:
  assumes "rs \<noteq> []" "\<And>r. r \<in> set rs \<Longrightarrow> rr_ttl (f r) = g (rr_ttl r)" "mono g"
  shows "minimalTTL (map f rs) = g (minimalTTL rs)"
proof -
  have "rr_ttl ` set (map f rs) = g ` rr_ttl ` set rs"
    using assms(2) by (auto simp: image_iff intro!: bexI)
  then show ?thesis
    using assms(1,3) mono_Min_commute [of g "rr_ttl ` set rs"] by (simp add: minimalTTL_Min)
qed

lemma word_sub_exact:
  fixes x m t :: "'a::len word"
  assumes "t \<le> m" "m \<le> x"
  shows "uint (x - (m - t)) = uint x - (uint m - uint t)"
proof -
  have d: "uint (m - t) = uint m - uint t" using assms(1) by (simp add: uint_sub_lem [symmetric] word_le_def)
  have "uint (m - t) \<le> uint x" using assms d uint_ge_0 [of t] unfolding word_le_def by linarith
  then have "uint (x - (m - t)) = uint x - uint (m - t)" by (simp only: uint_sub_lem)
  with d show ?thesis by simp
qed

lemma word_ge_1: "1 \<le> x \<longleftrightarrow> x \<noteq> 0" for x :: "'a::len word"
  by (metis linorder_not_less word_less_1)

text \<open>With a remaining time that is not more than the least TTL, every TTL loses the same.\<close>

lemma updateTTL_exact:
  assumes "r \<in> set rs" "t \<le> minimalTTL rs"
  shows "Clamp (rr_ttl r - (minimalTTL rs - t)) 1 (rr_ttl r)
    = (if rr_ttl r - (minimalTTL rs - t) = 0 then 1 else rr_ttl r - (minimalTTL rs - t))"
proof -
  have u: "uint (rr_ttl r - (minimalTTL rs - t)) = uint (rr_ttl r) - (uint (minimalTTL rs) - uint t)"
    by (rule word_sub_exact [OF assms(2) minimalTTL_le [OF assms(1)]])
  have "uint t \<le> uint (minimalTTL rs)" using assms(2) by (simp add: word_le_def)
  with u have "rr_ttl r - (minimalTTL rs - t) \<le> rr_ttl r" by (simp add: word_le_def)
  moreover have "x < 1 \<longleftrightarrow> x = 0" for x :: u32 by (simp add: word_less_1)
  ultimately show ?thesis by (auto simp: Clamp_def)
qed

lemma updateTTL_min:
  assumes "rs \<noteq> []" "t \<le> minimalTTL rs" "t \<noteq> 0"
  shows "minimalTTL (updateTTL rs t) = t"
proof -
  let ?M = "minimalTTL rs"
  let ?f = "\<lambda>r. rr_ttl r - (?M - t)"
  have f: "uint (?f r) = uint (rr_ttl r) - (uint ?M - uint t)" if "r \<in> set rs" for r
    by (rule word_sub_exact [OF assms(2) minimalTTL_le [OF that]])
  have nz: "?f r \<noteq> 0" if "r \<in> set rs" for r
  proof -
    have "uint ?M \<le> uint (rr_ttl r)" using minimalTTL_le [OF that] by (simp add: word_le_def)
    moreover have "0 < uint t" using assms(3) uint_ge_0 [of t] uint_0_iff [of t] by linarith
    ultimately have "uint (?f r) \<noteq> 0" using f [OF that] by linarith
    then show ?thesis by auto
  qed
  have "rr_ttl ` set (updateTTL rs t) = ?f ` set rs"
    using updateTTL_exact [OF _ assms(2)] nz assms(1)
    by (auto simp: updateTTL_def Let_def image_iff intro!: bexI)
  moreover have "Min (?f ` set rs) = t"
  proof (rule Min_eqI)
    show "finite (?f ` set rs)" by simp
    obtain r where r: "r \<in> set rs" "rr_ttl r = ?M"
    proof -
      have "Min (rr_ttl ` set rs) \<in> rr_ttl ` set rs" using assms(1) by (intro Min_in) auto
      then show thesis using that minimalTTL_Min [OF assms(1)] by auto
    qed
    then show "t \<in> ?f ` set rs" by (intro image_eqI [of _ _ r]) simp_all
    fix y assume "y \<in> ?f ` set rs"
    then obtain x where "x \<in> set rs" "y = ?f x" by blast
    with f [of x] minimalTTL_le [of x rs] show "t \<le> y" by (simp add: word_le_def)
  qed
  moreover have "updateTTL rs t \<noteq> []" using assms(1) by (simp add: updateTTL_def Let_def)
  ultimately show ?thesis by (simp add: minimalTTL_Min)
qed

section \<open>Properties\<close>

text \<open>
  C35. Ageing a section of a cached answer: a record whose TTL is at least one never lives longer
  than before and never drops to zero; when the time left is within the least TTL of the section and at
  least one, the record loses exactly the time that has passed, in wrap-around arithmetic at 32 bits.
  (A TTL of zero, which the code does not cache on its own, may become one.)
\<close>

theorem updateTTL_bounds:
  assumes "r \<in> set records" "1 \<le> rr_ttl r"
  shows "let new = Clamp (rr_ttl r - (minimalTTL records - ttl)) 1 (rr_ttl r)
    in set_ttl new r \<in> set (updateTTL records ttl) \<and> 1 \<le> new \<and> new \<le> rr_ttl r
      \<and> (1 \<le> ttl \<and> ttl \<le> minimalTTL records
         \<longrightarrow> uint new = uint (rr_ttl r) - (uint (minimalTTL records) - uint ttl))"
proof -
  let ?new = "Clamp (rr_ttl r - (minimalTTL records - ttl)) 1 (rr_ttl r)"
  have "set_ttl ?new r \<in> set (updateTTL records ttl)"
    using assms(1) by (auto simp: updateTTL_def Let_def)
  moreover have "1 \<le> ?new" "?new \<le> rr_ttl r" using assms(2) by (auto simp: Clamp_def word_ge_1)
  moreover have "uint ?new = uint (rr_ttl r) - (uint (minimalTTL records) - uint ttl)"
    if t: "1 \<le> ttl \<and> ttl \<le> minimalTTL records"
  proof -
    have u: "uint (rr_ttl r - (minimalTTL records - ttl))
        = uint (rr_ttl r) - (uint (minimalTTL records) - uint ttl)"
      using t by (intro word_sub_exact minimalTTL_le assms(1)) simp
    have "uint (minimalTTL records) \<le> uint (rr_ttl r)" "1 \<le> uint ttl"
      using minimalTTL_le [OF assms(1)] t by (simp_all add: word_le_def)
    with u have "rr_ttl r - (minimalTTL records - ttl) \<noteq> 0" by auto
    with u show ?thesis using updateTTL_exact [OF assms(1), of ttl] t by simp
  qed
  ultimately show ?thesis by (simp add: Let_def)
qed

definition example_rr :: "u32 \<Rightarrow> RR" where
  "example_rr ttl = RR_A (dns_header ''a.'' TypeA ttl) [1, 2, 3, 4]"

theorem updateTTL_bounds_witness:
  "uint (Clamp (300 - (minimalTTL [example_rr 60, example_rr 300] - 20)) 1 300) = 260"
proof -
  have "example_rr 300 \<in> set [example_rr 60, example_rr 300]" "1 \<le> rr_ttl (example_rr 300)"
    "minimalTTL [example_rr 60, example_rr 300] = 60" by code_simp+
  moreover have "rr_ttl (example_rr 300) = 300" by code_simp
  ultimately show ?thesis
    using updateTTL_bounds [of "example_rr 300" "[example_rr 60, example_rr 300]" 20]
    by (simp only: Let_def) simp
qed

text \<open>
  With fallback servers and no policy for the name, an answer of the main servers that is an error, has no
  address, or has one that a fallback filter catches is not given to a client: the fallback's is.
\<close>

lemma ipExchange_fallback:
  assumes "matchPolicy r m = []" "\<not> shouldOnlyQueryFallback r m" "r_fallback r = Some fb"
    and "asyncExchange re (r_main r) m w = (res, w1)"
    and "\<And>msg. res = Inr msg \<Longrightarrow> msgToIP msg = [] \<or> list_ex (shouldIPFallback r) (msgToIP msg)"
  shows "ipExchange re r m w = asyncExchange re fb m w1"
  using assms by (auto simp: ipExchange_def Let_def list_ex_iff list_all_iff split: sum.split)

definition example_resolver :: "nat Resolver" where
  "example_resolver = \<lparr>r_main = [0], r_fallback = Some [1], fallbackDomainFilters = [],
     fallbackIPFilters = [\<lambda>ip. ip = Addr4 0x01020304], fallbackLazyQuery = True,
     r_cache = NewCache [WithSize 2, WithStale True], r_policy = []\<rparr>"

definition example_answer :: "u8 \<Rightarrow> Msg" where
  "example_answer b = empty_msg\<lparr>m_Answer := [RR_A (dns_header ''a.'' TypeA 60) [1, 2, 3, b]]\<rparr>"

text \<open>The world of the example counts the exchanges.\<close>

definition example_renv :: "(nat, nat) ResolverEnv" where
  "example_renv = \<lparr>batchExchange = (\<lambda>cs m w. ((Inr (example_answer (if cs = [0] then 4 else 9)), True), w + 1)),
     QuestionString = (\<lambda>q. q_Name q),
     SetQuestion = (\<lambda>host tp. empty_msg\<lparr>m_Question := [\<lparr>q_Name = host @ ''.'', q_Qtype = tp, q_Qclass = ClassINET\<rparr>]\<rparr>)\<rparr>"

lemma updateTTL_zero:
  assumes "rs \<noteq> []" "minimalTTL rs \<noteq> 0"
  shows "minimalTTL (updateTTL rs 0) = 1"
proof -
  let ?f = "\<lambda>r. Clamp (rr_ttl r - minimalTTL rs) 1 (rr_ttl r)"
  have img: "rr_ttl ` set (updateTTL rs 0) = ?f ` set rs"
    using assms(1) by (auto simp: updateTTL_def Let_def image_iff)
  have "Min (?f ` set rs) = 1"
  proof (rule Min_eqI)
    obtain r where r: "r \<in> set rs" "rr_ttl r = minimalTTL rs"
    proof -
      have "Min (rr_ttl ` set rs) \<in> rr_ttl ` set rs" using assms(1) by (intro Min_in) auto
      then show thesis using that minimalTTL_Min [OF assms(1)] by auto
    qed
    then have "?f r = 1" by (simp add: Clamp_def)
    with r(1) show "1 \<in> ?f ` set rs" by force
    fix y assume "y \<in> ?f ` set rs"
    then obtain x where x: "x \<in> set rs" "y = ?f x" by blast
    then have "rr_ttl x \<noteq> 0" using minimalTTL_le [OF x(1)] assms(2) by auto
    then show "1 \<le> y" unfolding x(2) by (auto simp: Clamp_def word_ge_1)
  qed simp
  moreover have "updateTTL rs 0 \<noteq> []" using assms(1) by (simp add: updateTTL_def Let_def)
  ultimately show ?thesis by (simp add: minimalTTL_Min img)
qed

lemma updateTTL_least:
  assumes "rs \<noteq> []" "t \<le> minimalTTL rs" "minimalTTL rs \<noteq> 0"
  shows "minimalTTL (updateTTL rs t) = (if t = 0 then 1 else t)"
  using updateTTL_min [OF assms(1,2)] updateTTL_zero [OF assms(1,3)] by simp

text \<open>
  The expiry falls on a whole second: adding whole seconds commutes with cutting to seconds.
\<close>

lemma Unix_add: "Unix (now + n * nanos) = Unix now + n"
  by (simp add: Unix_def nanos_def)

lemma uint32_seconds:
  assumes "0 \<le> d" "d \<le> uint (t :: u32) * nanos"
  shows "let s = word_of_int (int_of_float (Duration_Seconds d)) :: u32 in
    s \<le> t \<and> d div nanos \<le> uint s \<and> uint s \<le> d div nanos + 1"
proof -
  let ?s = "int_of_float (Duration_Seconds d)"
  have n: "0 < nanos" by (simp add: nanos_def)
  have t: "uint t < 2 ^ 32" using uint_lt2p [of t] by simp
  have "uint t * nanos < 2 ^ 51 * nanos" using t n by (intro mult_strict_right_mono) auto
  with seconds_bounds [OF assms(1)] assms(2)
  have b: "d div nanos \<le> ?s" "?s \<le> d div nanos + (if d mod nanos = 0 then 0 else 1)" by linarith+
  have "?s \<le> uint t"
  proof (cases "d mod nanos = 0")
    case True
    have "d div nanos \<le> uint t * nanos div nanos" using assms(2) n by (intro zdiv_mono1)
    then show ?thesis using b True n by simp
  next
    case False
    have "d = d div nanos * nanos + d mod nanos" "0 \<le> d mod nanos" using n by simp_all
    then have "d div nanos * nanos < uint t * nanos" using assms(2) False by linarith
    then have "d div nanos < uint t" using n by simp
    then show ?thesis using b False by simp
  qed
  moreover have "0 \<le> ?s" using b(1) assms(1) n pos_imp_zdiv_nonneg_iff [of nanos d] by linarith
  ultimately have "uint (word_of_int ?s :: u32) = ?s" using t by (simp add: uint_word_of_int)
  then show ?thesis using b \<open>?s \<le> uint t\<close> by (simp add: Let_def word_le_def split: if_splits)
qed



lemma handleIPs_A:
  assumes "q_Qtype q = TypeA"
  shows "m_Answer (fst (handleIPs now q host ips msg h))
    = m_Answer msg @ map (\<lambda>ip. RR_A (dns_header (q_Name q) TypeA 10) (AsSlice ip)) (filter Is4 ips)"
  using assms by (induction ips arbitrary: msg h) (auto simp: dns_types)

text \<open>
  A host of the hosts table is answered from the table alone: whatever the rest of the chain
  would do, a question for its IPv4 addresses gets exactly the IPv4 addresses of the entry, after
  those already in the request.
\<close>

theorem withHosts_answers:
  assumes "m_Question r = q # qs" "isIPRequest q" "q_Qtype q = TypeA"
    and "hostsSearch (de_systemHosts de) (de_hosts de) (TrimRight_dots (q_Name q)) False
      = Some (Some rec, True)"
    and "\<And>msg r c. m_Answer (SetRcode de msg r c) = m_Answer msg"
  shows "\<exists>msg h1. withHosts de next r h = Ret (Inr msg, h1)
    \<and> msgToIP msg = msgToIP r @ filter Is4 (IPs rec)"
proof -
  let ?host = "TrimRight_dots (q_Name q)"
  let ?res = "handleIPs (de_now de) q ?host (IPs rec) r h"
  have w: "withHosts de next r h = Ret (Inr (answered de r (fst ?res)), snd ?res)"
    using assms(1-4) by (simp add: withHosts_def Let_def)
  have a: "rr_addr (RR_A hd (AsSlice ip)) = ip" if "Is4 ip" for hd ip
    using that AddrFromSlice_AsSlice [of ip] by (cases ip) (simp_all add: rr_addr_def)
  have f: "filter IsValid (map (rr_addr \<circ> (\<lambda>ip. RR_A hd (AsSlice ip))) (filter Is4 ips)) = filter Is4 ips"
    and u: "map Unmap (filter Is4 ips) = filter Is4 ips" for hd ips
    using a by (induction ips) (auto split: Addr.split simp: Addr.split, (metis Is4.elims(2) IsValid.simps)+)
  have "m_Answer (answered de r (fst ?res)) = m_Answer (fst ?res)"
    by (simp add: answered_def assms(5))
  then have "msgToIP (answered de r (fst ?res)) = msgToIP r @ filter Is4 (IPs rec)"
    unfolding msgToIP_def by (simp add: handleIPs_A [OF assms(3)] f u)
  with w show ?thesis by blast
qed


definition example_denv :: DnsEnv where
  "example_denv = \<lparr>SetRcode = (\<lambda>msg r c. msg\<lparr>m_Id := m_Id r, m_Rcode := c, m_Question := m_Question r\<rparr>),
     Exchange = (\<lambda>_. Inl ''no server''), de_hosts = example_hosts, de_systemHosts = None, de_now = 0\<rparr>"

definition example_query :: "string \<Rightarrow> Msg" where
  "example_query name = empty_msg\<lparr>m_Question := [\<lparr>q_Name = name, q_Qtype = TypeA, q_Qclass = ClassINET\<rparr>]\<rparr>"

definition example_enhancer :: "memoryStore ResolverEnhancer" where
  "example_enhancer = NewEnhancer True DNSFakeIP (Some example_pool) None
     (Some \<lparr>sk_Rules = [], sk_Host = [\<lambda>d. d = ''lan''], sk_Mode = FilterBlackList\<rparr>) 1 True"

theorem withHosts_answers_witness:
  "\<exists>msg h1. withHosts example_denv (\<lambda>_ _. Panic) (example_query ''b.com.'') example_enhancer = Ret (Inr msg, h1)
    \<and> msgToIP msg = [Addr4 0x01020304]"
proof -
  let ?q = "\<lparr>q_Name = ''b.com.'', q_Qtype = TypeA, q_Qclass = ClassINET\<rparr>"
  let ?rec = "\<lparr>IsDomain = False, IPs = [Addr4 0x01020304], hv_Domain = []\<rparr>"
  have q: "m_Question (example_query ''b.com.'') = [?q]" "isIPRequest ?q" "q_Qtype ?q = TypeA"
    by (simp_all add: example_query_def isIPRequest_def)
  have t: "TrimRight_dots (q_Name ?q) = ''b.com''" by code_simp
  have s: "value_of (Search example_hosts ''b.com'') = Some \<lparr>IsDomain = True, IPs = [], hv_Domain = ''a.com''\<rparr>"
    "value_of (Search example_hosts ''a.com'') = Some ?rec" by code_simp+
  have h: "hostsSearch (de_systemHosts example_denv) (de_hosts example_denv) (TrimRight_dots (q_Name ?q)) False
      = Some (Some ?rec, True)"
    unfolding t hostsSearch_def example_denv_def by (simp add: s searchLoop.simps) (simp add: value_of_def)
  have "m_Answer (SetRcode example_denv msg r c) = m_Answer msg" for msg r c
    by (simp add: example_denv_def)
  from withHosts_answers [OF q h this, of "\<lambda>_ _. Panic" example_enhancer] show ?thesis
    by (simp add: msgToIP_def example_query_def empty_msg_def)
qed

end
