(* ===== verification/GroupSort.thy ===== *)
theory GroupSort
  imports Rules "HOL-Library.AList"
begin

text \<open>
  Ordering the proxy groups of a configuration by their dependencies, and the check of the
  dialer-proxy references (src/config/utils.go).

  A group names proxies and other groups; the groups have to be built after those they name. The
  graph is a Go map, kept as an association list with one entry per key; the order in which Go
  iterates over it is not specified and is the argument \<open>iter\<close>, which may differ from loop to loop. Decoding the options of a group
  is not part of these functions and is the argument \<open>decode\<close>: the name and the members, or the
  name as far as it was read and an error. A lookup of a key that is not in the map, whose
  nil result the code would dereference, is a panic.
\<close>

section \<open>Sorting the groups\<close>

record 'cfg graphNode =
  indegree :: int
  n_data :: "'cfg option"
  outdegree :: int
  n_option :: "string list option"
  n_from :: "string list"

type_synonym 'cfg graph = "(string \<times> 'cfg graphNode) list"

text \<open>Step 1.1: one pass over the members of a group, then over the groups.\<close>

fun addProxies :: "string list \<Rightarrow> 'cfg graph \<Rightarrow> 'cfg graph" where
  "addProxies [] g = g"
| "addProxies (p # ps) g = (case map_of g p of
     Some node \<Rightarrow> addProxies ps (AList.update p (node\<lparr>indegree := indegree node + 1\<rparr>) g)
   | None \<Rightarrow> addProxies ps (AList.update p
       \<lparr>indegree = 1, n_data = None, outdegree = 0, n_option = None, n_from = []\<rparr> g))"

fun buildGraph :: "('cfg \<Rightarrow> (string \<times> string) + (string \<times> string list)) \<Rightarrow> 'cfg list \<Rightarrow> 'cfg graph \<Rightarrow> 'cfg graph result" where
  "buildGraph decode [] g = Inr g"
| "buildGraph decode (mapping # rest) g = (case decode mapping of
     Inl (name, err) \<Rightarrow> Inl (''ProxyGroup '' @ name @ '': '' @ err)
   | Inr (groupName, proxies) \<Rightarrow>
       (case map_of g groupName of
          Some node \<Rightarrow>
            (if n_data node \<noteq> None
             then Inl (''ProxyGroup '' @ groupName @ '': duplicate group name'')
             else buildGraph decode rest (addProxies proxies (AList.update groupName
                    (node\<lparr>n_data := Some mapping, n_option := Some proxies\<rparr>) g)))
        | None \<Rightarrow>
            buildGraph decode rest (addProxies proxies (AList.update groupName
              \<lparr>indegree = 0, n_data = Some mapping, outdegree = 0, n_option = Some proxies, n_from = []\<rparr> g))))"

text \<open>
  The loops of steps 1.2 and 2.2 both lower a counter of some nodes and queue those where it
  becomes zero; \<open>get\<close> and \<open>upd\<close> read and change the counter.
\<close>

fun decAll :: "('cfg graphNode \<Rightarrow> int) \<Rightarrow> ((int \<Rightarrow> int) \<Rightarrow> 'cfg graphNode \<Rightarrow> 'cfg graphNode)
    \<Rightarrow> string list \<Rightarrow> 'cfg graph \<Rightarrow> string list \<Rightarrow> ('cfg graph \<times> string list) outcome" where
  "decAll get upd [] g queue = Ret (g, queue)"
| "decAll get upd (p # ps) g queue = (case map_of g p of
     None \<Rightarrow> Panic
   | Some child \<Rightarrow>
       (let child1 = upd (\<lambda>n. n - 1) child
        in decAll get upd ps (AList.update p child1 g)
             (if get child1 = 0 then queue @ [p] else queue)))"

text \<open>
  Step 1.2. The groups are written to the configuration from its end. The number of nodes bounds
  the number of iterations, since each deletes one; running past it would be an endless loop.
\<close>

fun sortLoop :: "nat \<Rightarrow> string list \<Rightarrow> 'cfg graph \<Rightarrow> nat \<Rightarrow> 'cfg list \<Rightarrow> ('cfg graph \<times> 'cfg list) outcome" where
  "sortLoop n [] g index cfgs = Ret (g, cfgs)"
| "sortLoop 0 (name # queue) g index cfgs = Diverge"
| "sortLoop (Suc n) (name # queue) g index cfgs = (case map_of g name of
     None \<Rightarrow> Panic
   | Some node \<Rightarrow>
       (case n_option node of
          None \<Rightarrow> sortLoop n queue (AList.delete name g) index cfgs
        | Some proxies \<Rightarrow>
            (case n_data node of
               None \<Rightarrow> Panic
             | Some d \<Rightarrow>
                 (let cfgs1 = cfgs[length cfgs - (index + 1) := d]
                  in if length proxies = 0
                     then sortLoop n queue (AList.delete name g) (index + 1) cfgs1
                     else obind (decAll indegree indegree_update proxies g queue) (\<lambda>res.
                       sortLoop n (snd res) (AList.delete name (fst res)) (index + 1) cfgs1)))))"

text \<open>Step 2.1: count the members and note who names whom.\<close>

fun addFrom :: "string \<Rightarrow> string list \<Rightarrow> 'cfg graph \<Rightarrow> 'cfg graph outcome" where
  "addFrom name [] g = Ret g"
| "addFrom name (p # ps) g = (case map_of g name of
     None \<Rightarrow> Panic
   | Some node \<Rightarrow>
       (let g1 = AList.update name (node\<lparr>outdegree := outdegree node + 1\<rparr>) g
        in case map_of g1 p of
             None \<Rightarrow> Panic
           | Some child \<Rightarrow> addFrom name ps (AList.update p (child\<lparr>n_from := n_from child @ [name]\<rparr>) g1)))"

fun addFroms :: "string list \<Rightarrow> 'cfg graph \<Rightarrow> 'cfg graph outcome" where
  "addFroms [] g = Ret g"
| "addFroms (name # names) g = (case map_of g name of
     None \<Rightarrow> Panic
   | Some node \<Rightarrow>
       (case n_option node of
          None \<Rightarrow> addFroms names g
        | Some proxies \<Rightarrow> obind (addFrom name proxies g) (\<lambda>g1. addFroms names g1)))"

text \<open>Step 2.2.\<close>

fun pruneLoop :: "nat \<Rightarrow> string list \<Rightarrow> 'cfg graph \<Rightarrow> 'cfg graph outcome" where
  "pruneLoop n [] g = Ret g"
| "pruneLoop 0 (name # queue) g = Diverge"
| "pruneLoop (Suc n) (name # queue) g = (case map_of g name of
     None \<Rightarrow> Panic
   | Some node \<Rightarrow> obind (decAll outdegree outdegree_update (n_from node) g queue) (\<lambda>res.
       pruneLoop n (snd res) (AList.delete name (fst res))))"

datatype sort_error = SortInvalid string | SortLoop "string list"

definition zero_nodes :: "('cfg graphNode \<Rightarrow> int) \<Rightarrow> string list \<Rightarrow> 'cfg graph \<Rightarrow> string list" where
  "zero_nodes get names g =
     filter (\<lambda>name. case map_of g name of None \<Rightarrow> False | Some node \<Rightarrow> get node = 0) names"

text \<open>The four loops over the map may each see their own order.\<close>

definition proxyGroupsDagSort :: "('cfg \<Rightarrow> (string \<times> string) + (string \<times> string list)) \<Rightarrow> (nat \<Rightarrow> string list \<Rightarrow> string list)
    \<Rightarrow> 'cfg list \<Rightarrow> (sort_error option \<times> 'cfg list) outcome" where
  "proxyGroupsDagSort decode iter groupsConfig = (case buildGraph decode groupsConfig [] of
     Inl err \<Rightarrow> Ret (Some (SortInvalid err), groupsConfig)
   | Inr g \<Rightarrow>
       obind (sortLoop (length g) (zero_nodes indegree (iter 0 (map fst g)) g) g 0 groupsConfig) (\<lambda>res.
         let g1 = fst res in
         if length g1 = 0 then Ret (None, snd res)
         else obind (addFroms (iter 1 (map fst g1)) g1) (\<lambda>g2.
           obind (pruneLoop (length g2) (zero_nodes outdegree (iter 2 (map fst g2)) g2) g2) (\<lambda>g3.
             Ret (Some (SortLoop (iter 3 (map fst g3))), snd res)))))"

section \<open>Dialer proxies\<close>

text \<open>
  The graph is a map from a proxy to its dialer proxy. A path longer than the number of proxies
  repeats one of them, so that bound on the recursion is never reached.
\<close>

fun hasCycle :: "nat \<Rightarrow> string \<Rightarrow> (string \<Rightarrow> string option) \<Rightarrow> string list \<Rightarrow> string list \<Rightarrow> bool outcome" where
  "hasCycle n current g visited path =
     (if current \<in> set path then Ret True
      else if current \<in> set visited then Ret False
      else (case g current of
          None \<Rightarrow> Ret False
        | Some dialerProxy \<Rightarrow>
            (case n of
               0 \<Rightarrow> Diverge
             | Suc k \<Rightarrow> hasCycle k dialerProxy g (current # visited) (path @ [current]))))"

fun collectDialers :: "(string \<Rightarrow> bool) \<Rightarrow> (string \<times> string) list \<Rightarrow> (string \<times> string) list result" where
  "collectDialers exist [] = Inr []"
| "collectDialers exist ((name, dialerProxy) # rest) =
     (if dialerProxy \<noteq> [] then
        (if \<not> exist dialerProxy
         then Inl (''proxy ['' @ name @ ''] dialer-proxy ['' @ dialerProxy @ ''] not found'')
         else (case collectDialers exist rest of
             Inl e \<Rightarrow> Inl e
           | Inr g \<Rightarrow> Inr ((name, dialerProxy) # g)))
      else collectDialers exist rest)"

fun checkCycles :: "nat \<Rightarrow> string list \<Rightarrow> (string \<Rightarrow> string option) \<Rightarrow> string option outcome" where
  "checkCycles n [] g = Ret None"
| "checkCycles n (name # names) g = obind (hasCycle n name g [] []) (\<lambda>cyc.
     if cyc then Ret (Some (''proxy ['' @ name @ ''] has circular dialer-proxy dependency''))
     else checkCycles n names g)"

text \<open>\<open>proxies\<close> lists the proxies with the name of their dialer proxy, empty when there is none.\<close>

definition validateDialerProxies :: "(string list \<Rightarrow> string list) \<Rightarrow> (string \<times> string) list
    \<Rightarrow> string option outcome" where
  "validateDialerProxies iter proxies =
     (case collectDialers (\<lambda>p. p \<in> fst ` set proxies) proxies of
        Inl err \<Rightarrow> Ret (Some err)
      | Inr g \<Rightarrow> checkCycles (length g) (iter (map fst g)) (map_of g))"

section \<open>Dialer proxies: correctness\<close>

text \<open>Following the dialer proxies from a proxy comes to an end.\<close>

inductive chain_ends :: "(string \<Rightarrow> string option) \<Rightarrow> string \<Rightarrow> bool" for g where
  stop: "g x = None \<Longrightarrow> chain_ends g x"
| step: "g x = Some y \<Longrightarrow> chain_ends g y \<Longrightarrow> chain_ends g x"

inductive_simps chain_ends_iff: "chain_ends g x"

definition dials :: "(string \<Rightarrow> string option) \<Rightarrow> (string \<times> string) set" where
  "dials g = {(x, y). g x = Some y}"

lemma chain_ends_acyclic: "chain_ends g x \<Longrightarrow> (x, x) \<notin> (dials g)\<^sup>+"
proof (induction rule: chain_ends.induct)
  case (stop x)
  then show ?case by (auto simp: dials_def dest: tranclD)
next
  case (step x y)
  show ?case
  proof
    assume "(x, x) \<in> (dials g)\<^sup>+"
    then obtain z where "(x, z) \<in> dials g" "(z, x) \<in> (dials g)\<^sup>*" by (auto dest: tranclD)
    with step have "(y, x) \<in> (dials g)\<^sup>*" "(x, y) \<in> dials g" by (auto simp: dials_def)
    then have "(y, y) \<in> (dials g)\<^sup>+" by auto
    with step.IH show False by blast
  qed
qed

lemma hasCycle_correct:
  assumes "finite (dom g)" "distinct path" "set path \<subseteq> dom g"
    and "\<And>p. p \<in> set path \<Longrightarrow> (p, current) \<in> (dials g)\<^sup>+" "card (dom g) \<le> n + length path"
  shows "hasCycle n current g (rev path) path = Ret (\<not> chain_ends g current)"
  using assms(2-5)
proof (induction n arbitrary: current path)
  case (0 current path)
  show ?case
  proof (cases "current \<in> set path")
    case True
    with 0 chain_ends_acyclic [of g current] show ?thesis by auto
  next
    case False
    have "g current = None"
    proof (rule ccontr)
      assume "g current \<noteq> None"
      then have "insert current (set path) \<subseteq> dom g" using 0 by auto
      from card_mono [OF assms(1) this] 0 False show False by (simp add: distinct_card)
    qed
    with False show ?thesis by (simp add: chain_ends.stop)
  qed
next
  case (Suc n current path)
  show ?case
  proof (cases "current \<in> set path")
    case True
    with Suc chain_ends_acyclic [of g current] show ?thesis by auto
  next
    case False
    show ?thesis
    proof (cases "g current")
      case None
      with False show ?thesis by (simp add: chain_ends.stop)
    next
      case (Some d)
      then have e: "(current, d) \<in> (dials g)\<^sup>+" by (auto simp: dials_def)
      have "hasCycle n d g (rev (path @ [current])) (path @ [current]) = Ret (\<not> chain_ends g d)"
      proof (rule Suc.IH)
        show "(p, d) \<in> (dials g)\<^sup>+" if "p \<in> set (path @ [current])" for p
          using that Suc.prems(3) e by (auto intro: trancl_trans)
      qed (use Suc.prems False Some in auto)
      then show ?thesis using False Some chain_ends_iff [of g current] by simp
    qed
  qed
qed

lemma checkCycles_correct:
  assumes "finite (dom g)" "card (dom g) \<le> n"
  shows "\<exists>r. checkCycles n names g = Ret r \<and> (r = None \<longleftrightarrow> (\<forall>x\<in>set names. chain_ends g x))"
proof (induction names)
  case (Cons x names)
  have "hasCycle n x g [] [] = Ret (\<not> chain_ends g x)"
    using hasCycle_correct [of g "[]" x n] assms by simp
  with Cons show ?case by auto
qed simp

lemma collectDialers_ok:
  "\<forall>p\<in>set ps. snd p \<noteq> [] \<longrightarrow> exist (snd p) \<Longrightarrow> collectDialers exist ps = Inr (filter (\<lambda>p. snd p \<noteq> []) ps)"
  by (induction exist ps rule: collectDialers.induct) auto

lemma collectDialers_error:
  "\<not> (\<forall>p\<in>set ps. snd p \<noteq> [] \<longrightarrow> exist (snd p)) \<Longrightarrow> \<exists>e. collectDialers exist ps = Inl e"
  by (induction exist ps rule: collectDialers.induct) (force split: sum.splits if_splits)+

text \<open>The dialer proxy of a proxy, when it has one.\<close>

definition dialer_of :: "(string \<times> string) list \<Rightarrow> string \<Rightarrow> string option" where
  "dialer_of proxies = map_of (filter (\<lambda>p. snd p \<noteq> []) proxies)"

text \<open>
  C34. The check of the dialer-proxy references always returns, and it accepts a configuration
  exactly when every dialer proxy that is named exists and following the dialer proxies from any
  proxy comes to an end; in whatever order the map is walked. The check follows names only: what a
  group that is named as a dialer proxy would choose is not looked at.
\<close>

theorem validateDialerProxies_correct:
  assumes "\<And>xs. set (iter xs) = set xs"
  shows "\<exists>r. validateDialerProxies iter proxies = Ret r
    \<and> (r = None \<longleftrightarrow> (\<forall>p\<in>set proxies. snd p \<noteq> [] \<longrightarrow> snd p \<in> fst ` set proxies)
        \<and> (\<forall>x. chain_ends (dialer_of proxies) x))"
proof (cases "\<forall>p\<in>set proxies. snd p \<noteq> [] \<longrightarrow> snd p \<in> fst ` set proxies")
  case True
  let ?g = "filter (\<lambda>p. snd p \<noteq> []) proxies"
  have c: "collectDialers (\<lambda>p. p \<in> fst ` set proxies) proxies = Inr ?g"
    by (rule collectDialers_ok [OF True])
  have "card (dom (map_of ?g)) \<le> length ?g"
    unfolding dom_map_of_conv_image_fst by (rule order_trans [OF card_image_le card_length]) simp
  from checkCycles_correct [OF finite_dom_map_of this, of "iter (map fst ?g)"]
  obtain r where r: "checkCycles (length ?g) (iter (map fst ?g)) (map_of ?g) = Ret r"
    "r = None \<longleftrightarrow> (\<forall>x\<in>fst ` set ?g. chain_ends (map_of ?g) x)" by (auto simp: assms)
  moreover have "(\<forall>x\<in>fst ` set ?g. chain_ends (map_of ?g) x) \<longleftrightarrow> (\<forall>x. chain_ends (map_of ?g) x)"
  proof -
    have "chain_ends (map_of ?g) x" if "x \<notin> fst ` set ?g" for x
      by (rule chain_ends.stop) (use that in \<open>simp add: map_of_eq_None_iff\<close>)
    then show ?thesis by blast
  qed
  ultimately show ?thesis using True c by (simp add: validateDialerProxies_def dialer_of_def)
next
  case False
  from collectDialers_error [OF this]
  obtain e where "collectDialers (\<lambda>p. p \<in> fst ` set proxies) proxies = Inl e" by blast
  with False show ?thesis by (auto simp: validateDialerProxies_def)
qed

theorem validateDialerProxies_correct_witness:
  "validateDialerProxies id [(''a'', ''b''), (''b'', []), (''c'', ''a'')] = Ret None
   \<and> (\<forall>x. chain_ends (dialer_of [(''a'', ''b''), (''b'', []), (''c'', ''a'')]) x)"
proof -
  have "validateDialerProxies id [(''a'', ''b''), (''b'', []), (''c'', ''a'')] = Ret None" by code_simp
  with validateDialerProxies_correct [of id "[(''a'', ''b''), (''b'', []), (''c'', ''a'')]"]
  show ?thesis by auto
qed

section \<open>Peeling a graph\<close>

text \<open>
  A counter of a node. Both loops rely on the same facts about it: it can be read back after it
  was changed, and changes add up.
\<close>

locale node_counter =
  fixes get :: "'cfg graphNode \<Rightarrow> int"
    and upd :: "(int \<Rightarrow> int) \<Rightarrow> 'cfg graphNode \<Rightarrow> 'cfg graphNode"
    and adj :: "'cfg graphNode \<Rightarrow> string list"
  assumes get_upd: "get (upd f nd) = f (get nd)"
    and upd_upd: "upd f (upd h nd) = upd (\<lambda>n. f (h n)) nd"
    and upd_id: "upd (\<lambda>n. n) nd = nd"
    and adj_upd: "adj (upd f nd) = adj nd"

definition members :: "('cfg graphNode \<Rightarrow> string list) \<Rightarrow> (string \<Rightarrow> 'cfg graphNode option) \<Rightarrow> string \<Rightarrow> string list" where
  "members adj M v = (case M v of None \<Rightarrow> [] | Some nd \<Rightarrow> adj nd)"

definition refs :: "('cfg graphNode \<Rightarrow> string list) \<Rightarrow> (string \<Rightarrow> 'cfg graphNode option) \<Rightarrow> string \<Rightarrow> int" where
  "refs adj M u = (\<Sum>v\<in>dom M. int (count_list (members adj M v) u))"

text \<open>
  The counter of every node is the number of references to it from the nodes that are left, and
  the queue holds exactly the nodes without one.
\<close>

definition peel_inv :: "('cfg graphNode \<Rightarrow> int) \<Rightarrow> ('cfg graphNode \<Rightarrow> string list)
    \<Rightarrow> (string \<Rightarrow> 'cfg graphNode option) \<Rightarrow> string list \<Rightarrow> bool" where
  "peel_inv get adj M queue = (finite (dom M) \<and> (\<forall>v. set (members adj M v) \<subseteq> dom M)
     \<and> (\<forall>u nd. M u = Some nd \<longrightarrow> get nd = refs adj M u)
     \<and> distinct queue \<and> set queue = {u. \<exists>nd. M u = Some nd \<and> get nd = 0})"

lemma count_list_pos: "x \<in> set xs \<longleftrightarrow> 0 < count_list xs x"
  by (metis count_list_0_iff gr0I less_numeral_extra(3))

context node_counter
begin

lemma decAll_spec:
  assumes "set ps \<subseteq> dom (map_of g)"
    and "\<And>u nd. map_of g u = Some nd \<Longrightarrow> int (count_list ps u) \<le> get nd"
  shows "\<exists>g' zs. decAll get upd ps g queue = Ret (g', queue @ zs)
    \<and> map_of g' = (\<lambda>u. map_option (upd (\<lambda>n. n - int (count_list ps u))) (map_of g u))
    \<and> distinct zs \<and> set zs = {u \<in> set ps. \<exists>nd. map_of g u = Some nd \<and> get nd = int (count_list ps u)}"
  using assms
proof (induction ps arbitrary: g queue)
  case Nil
  have "map_option (upd (\<lambda>n. n)) x = x" for x by (cases x) (simp_all add: upd_id)
  then show ?case by simp
next
  case (Cons p ps)
  from Cons.prems(1) obtain child where c: "map_of g p = Some child" by auto
  let ?c1 = "upd (\<lambda>n. n - 1) child"
  let ?g1 = "AList.update p ?c1 g"
  let ?q1 = "if get ?c1 = 0 then queue @ [p] else queue"
  have m1: "map_of ?g1 = (map_of g)(p \<mapsto> ?c1)" by (rule update_conv')
  have ge: "1 + int (count_list ps p) \<le> get child" using Cons.prems(2) [OF c] by simp
  have pre: "set ps \<subseteq> dom (map_of ?g1)" "\<And>u nd. map_of ?g1 u = Some nd \<Longrightarrow> int (count_list ps u) \<le> get nd"
  proof -
    show "set ps \<subseteq> dom (map_of ?g1)" using Cons.prems(1) by (auto simp: m1)
    fix u nd assume u: "map_of ?g1 u = Some nd"
    show "int (count_list ps u) \<le> get nd"
    proof (cases "u = p")
      case True
      with u ge show ?thesis by (auto simp: m1 get_upd)
    next
      case False
      with u Cons.prems(2) [of u nd] show ?thesis by (simp add: m1)
    qed
  qed
  from Cons.IH [OF pre, of ?q1] obtain g' zs where
    d: "decAll get upd ps ?g1 ?q1 = Ret (g', ?q1 @ zs)"
    and m: "map_of g' = (\<lambda>u. map_option (upd (\<lambda>n. n - int (count_list ps u))) (map_of ?g1 u))"
    and z: "distinct zs" "set zs = {u \<in> set ps. \<exists>nd. map_of ?g1 u = Some nd \<and> get nd = int (count_list ps u)}"
    by blast
  have m': "map_of g' = (\<lambda>u. map_option (upd (\<lambda>n. n - int (count_list (p # ps) u))) (map_of g u))"
    unfolding m m1 using c by (auto simp: fun_eq_iff upd_upd algebra_simps)
  let ?zs = "if get ?c1 = 0 then p # zs else zs"
  have zero: "get ?c1 = 0 \<longleftrightarrow> get child = 1" by (simp add: get_upd)
  have notin: "p \<notin> set ps" if "get ?c1 = 0"
  proof -
    from that ge zero have "count_list ps p = 0" by simp
    then show ?thesis by (simp add: count_list_0_iff)
  qed
  have set_z: "set zs = {u \<in> set ps. \<exists>nd. map_of g u = Some nd \<and> get nd = int (count_list (p # ps) u)}"
    unfolding z(2) m1 using c by (auto simp: get_upd)
  have p_in: "get child = int (count_list (p # ps) p) \<longleftrightarrow> get ?c1 = 0 \<or> p \<in> set zs"
    using set_z c zero notin by (auto simp: count_list_0_iff)
  have "distinct ?zs" using z notin by auto
  moreover have "set ?zs = {u \<in> set (p # ps). \<exists>nd. map_of g u = Some nd \<and> get nd = int (count_list (p # ps) u)}"
    using set_z p_in c by auto
  moreover have "decAll get upd (p # ps) g queue = Ret (g', queue @ ?zs)"
    using c d by (simp add: Let_def)
  ultimately show ?case using m' by blast
qed

end

lemma refs_ge:
  "finite (dom M) \<Longrightarrow> v \<in> dom M \<Longrightarrow> int (count_list (members adj M v) u) \<le> refs adj M u"
  unfolding refs_def by (rule member_le_sum) auto

lemma refs_nonneg: "0 \<le> refs adj M u"
  by (auto simp: refs_def intro: sum_nonneg)

lemma refs_zero_iff: "finite (dom M) \<Longrightarrow> refs adj M u = 0 \<longleftrightarrow> (\<forall>v. u \<notin> set (members adj M v))"
proof -
  assume fin: "finite (dom M)"
  have "refs adj M u = 0 \<longleftrightarrow> (\<forall>v\<in>dom M. u \<notin> set (members adj M v))"
    unfolding refs_def by (subst sum_nonneg_eq_0_iff) (auto simp: fin count_list_0_iff)
  also have "\<dots> \<longleftrightarrow> (\<forall>v. u \<notin> set (members adj M v))"
    by (metis domIff empty_iff empty_set members_def option.simps(4))
  finally show ?thesis .
qed

lemma peel_inv_queue:
  assumes "peel_inv get adj M queue"
  shows "set queue = {u \<in> dom M. \<forall>v. u \<notin> set (members adj M v)}"
  using assms refs_zero_iff [of M adj] by (fastforce simp: peel_inv_def)

lemma peel_inv_hd:
  assumes "peel_inv get adj M (name # queue)"
  shows "name \<in> dom M" "name \<notin> set (members adj M v)"
  using peel_inv_queue [OF assms] by auto

context node_counter
begin

lemma peel_step:
  assumes inv: "peel_inv get adj (map_of g) (name # queue)" and nd: "map_of g name = Some nd"
  shows "\<exists>g' zs. decAll get upd (adj nd) g queue = Ret (g', queue @ zs)
    \<and> map_of g' = (\<lambda>u. map_option (upd (\<lambda>n. n - int (count_list (adj nd) u))) (map_of g u))
    \<and> peel_inv get adj ((map_of g')(name := None)) (queue @ zs)"
proof -
  let ?M = "map_of g"
  let ?c = "\<lambda>u. int (count_list (adj nd) u)"
  have adj: "members adj ?M name = adj nd" by (simp add: members_def nd)
  have fin: "finite (dom ?M)" and closed: "\<And>v. set (members adj ?M v) \<subseteq> dom ?M"
    and cnt: "\<And>u x. ?M u = Some x \<Longrightarrow> get x = refs adj ?M u"
    and q: "distinct (name # queue)" "set (name # queue) = {u. \<exists>x. ?M u = Some x \<and> get x = 0}"
    using inv by (auto simp: peel_inv_def)
  have unref: "name \<notin> set (members adj ?M v)" for v using peel_inv_hd(2) [OF inv] .
  have le: "?c u \<le> refs adj ?M u" for u
    using refs_ge [of "map_of g" name adj u] fin nd by (simp add: adj domI)
  from decAll_spec [of "adj nd" g queue] closed [of name] le cnt adj
  obtain g' zs where d: "decAll get upd (adj nd) g queue = Ret (g', queue @ zs)"
    and m: "map_of g' = (\<lambda>u. map_option (upd (\<lambda>n. n - ?c u)) (?M u))"
    and z: "distinct zs" "set zs = {u \<in> set (adj nd). \<exists>x. ?M u = Some x \<and> get x = ?c u}"
    by auto
  let ?M' = "(map_of g')(name := None)"
  have dom: "dom ?M' = dom ?M - {name}" by (auto simp: m)
  have mem: "members adj ?M' v = (if v = name then [] else members adj ?M v)" for v
    by (auto simp: members_def m adj_upd split: option.split)
  have refs': "refs adj ?M' u = refs adj ?M u - ?c u" for u
  proof -
    have "refs adj ?M u = ?c u + (\<Sum>v\<in>dom ?M - {name}. int (count_list (members adj ?M v) u))"
      unfolding refs_def using fin nd by (subst sum.remove [of _ name]) (auto simp: adj)
    then show ?thesis unfolding refs_def dom by (simp add: mem)
  qed
  have "peel_inv get adj ?M' (queue @ zs)" unfolding peel_inv_def
  proof (intro conjI allI impI)
    show "finite (dom ?M')" unfolding dom using fin by simp
    show "set (members adj ?M' v) \<subseteq> dom ?M'" for v unfolding dom mem using closed [of v] unref [of v] by auto
    show "get x = refs adj ?M' u" if "?M' u = Some x" for u x
      unfolding refs' using that by (auto simp: m get_upd dest: cnt split: if_splits)
    have disj: "set queue \<inter> set zs = {}"
    proof (rule ccontr)
      assume "set queue \<inter> set zs \<noteq> {}"
      then obtain u where u: "u \<in> set queue" "u \<in> set zs" by blast
      from u(1) q(2) obtain x where "?M u = Some x" "get x = 0" by (auto simp: set_eq_iff)
      with u(2) show False by (auto simp: z(2) count_list_0_iff)
    qed
    then show "distinct (queue @ zs)" using q z by simp
    have "u \<in> set (queue @ zs) \<longleftrightarrow> (\<exists>x. ?M' u = Some x \<and> get x = 0)" for u
    proof (cases "u = name")
      case True
      with q unref [of name] show ?thesis by (auto simp: z(2) adj)
    next
      case False
      then have *: "(\<exists>x. ?M' u = Some x \<and> get x = 0) \<longleftrightarrow> (\<exists>x. ?M u = Some x \<and> get x = ?c u)"
        by (auto simp: m get_upd)
      have **: "u \<in> set queue \<longleftrightarrow> (\<exists>x. ?M u = Some x \<and> get x = 0)" using q False by auto
      show ?thesis
      proof (cases "u \<in> set (adj nd)")
        case True
        then have "?c u \<noteq> 0" by (simp add: count_list_0_iff)
        with le [of u] have "u \<notin> set queue" unfolding ** using cnt by fastforce
        with * True show ?thesis by (auto simp: z(2))
      next
        case False
        then have "?c u = 0" by (simp add: count_list_0_iff)
        with False * ** show ?thesis by (auto simp: z(2))
      qed
    qed
    then show "set (queue @ zs) = {u. \<exists>x. ?M' u = Some x \<and> get x = 0}" by blast
  qed
  with d m show ?thesis by blast
qed

end

definition proxies_of :: "'cfg graphNode \<Rightarrow> string list" where
  "proxies_of nd = (case n_option nd of None \<Rightarrow> [] | Some ps \<Rightarrow> ps)"

lemma proxies_of_simps [simp]:
  "proxies_of (indegree_update f nd) = proxies_of nd" "proxies_of (outdegree_update f nd) = proxies_of nd"
  "proxies_of (n_from_update h nd) = proxies_of nd"
  by (simp_all add: proxies_of_def)

interpretation uses: node_counter indegree indegree_update proxies_of
  by unfold_locales simp_all

interpretation used_by: node_counter outdegree outdegree_update n_from
  by unfold_locales simp_all

section \<open>The sort loop\<close>

text \<open>The configuration entry of a node, when it is a group.\<close>

definition node_data :: "(string \<Rightarrow> 'cfg graphNode option) \<Rightarrow> string \<Rightarrow> 'cfg list" where
  "node_data M u = (case M u of None \<Rightarrow> []
     | Some nd \<Rightarrow> (case n_option nd of None \<Rightarrow> [] | Some _ \<Rightarrow> [the (n_data nd)]))"

definition groups :: "(string \<Rightarrow> 'cfg graphNode option) \<Rightarrow> string list \<Rightarrow> 'cfg list" where
  "groups M us = concat (map (node_data M) us)"

text \<open>Whoever names a node stands before it.\<close>

definition users_first :: "(string \<Rightarrow> 'cfg graphNode option) \<Rightarrow> string list \<Rightarrow> bool" where
  "users_first M us = (\<forall>ys u zs. us = ys @ u # zs \<longrightarrow> (\<forall>v. u \<in> set (members proxies_of M v) \<longrightarrow> v \<in> set ys))"

text \<open>
  The state of the loop after the nodes \<open>us\<close> were taken from the graph \<open>M\<close>: what is left of the
  graph differs from it in the counters only, and the groups taken fill the end of the list.
\<close>

definition sort_inv :: "(string \<Rightarrow> 'cfg graphNode option) \<Rightarrow> 'cfg list \<Rightarrow> string list
    \<Rightarrow> 'cfg graph \<Rightarrow> string list \<Rightarrow> nat \<Rightarrow> 'cfg list \<Rightarrow> bool" where
  "sort_inv M cfgs0 us g queue index cfgs =
     (peel_inv indegree proxies_of (map_of g) queue \<and> distinct (map fst g)
      \<and> (\<forall>u nd. map_of g u = Some nd \<longrightarrow> (\<exists>nd0 f. M u = Some nd0 \<and> nd = indegree_update f nd0))
      \<and> distinct us \<and> set us = dom M - dom (map_of g) \<and> users_first M us
      \<and> index = length (groups M us) \<and> cfgs = take (length cfgs0 - index) cfgs0 @ rev (groups M us))"

text \<open>What the graph must have for the loop to work: every group has its entry, and there is room.\<close>

definition sort_graph :: "(string \<Rightarrow> 'cfg graphNode option) \<Rightarrow> 'cfg list \<Rightarrow> bool" where
  "sort_graph M cfgs0 = ((\<forall>u nd. M u = Some nd \<longrightarrow> n_option nd \<noteq> None \<longrightarrow> n_data nd \<noteq> None)
     \<and> (\<forall>us. distinct us \<longrightarrow> set us \<subseteq> dom M \<longrightarrow> length (groups M us) \<le> length cfgs0))"

lemma users_first_snoc:
  assumes "users_first M us" "\<And>v. u \<in> set (members proxies_of M v) \<Longrightarrow> v \<in> set us"
  shows "users_first M (us @ [u])"
  unfolding users_first_def
proof (intro allI impI)
  fix ys x zs v assume s: "us @ [u] = ys @ x # zs" and v: "x \<in> set (members proxies_of M v)"
  show "v \<in> set ys"
  proof (cases zs rule: rev_cases)
    case Nil
    with s v assms(2) show ?thesis by simp
  next
    case (snoc zs' z)
    with s v assms(1) show ?thesis by (auto simp: users_first_def)
  qed
qed

lemma sortLoop_step:
  assumes "map_of g name = Some nd" "n_option nd \<noteq> None \<longrightarrow> n_data nd \<noteq> None"
  shows "sortLoop (Suc n) (name # queue) g index cfgs =
    obind (decAll indegree indegree_update (proxies_of nd) g queue) (\<lambda>res.
      sortLoop n (snd res) (AList.delete name (fst res))
        (if n_option nd = None then index else index + 1)
        (if n_option nd = None then cfgs else cfgs[length cfgs - (index + 1) := the (n_data nd)]))"
  using assms by (auto simp: proxies_of_def Let_def split: option.split)

lemma update_from_end:
  assumes "i = length xs" "i < length c"
  shows "(take (length c - i) c @ rev xs)[length (take (length c - i) c @ rev xs) - (i + 1) := d]
    = take (length c - (i + 1)) c @ rev (xs @ [d])"
proof -
  have len: "length (take (length c - i) c @ rev xs) = length c" using assms by simp
  have "take (length c - i) c = take (length c - (i + 1)) c @ [c ! (length c - (i + 1))]"
    using assms by (metis Suc_diff_Suc Suc_eq_plus1 diff_less_mono2 length_greater_0_conv less_nat_zero_code
      lessI list.size(3) diff_less zero_less_Suc take_Suc_conv_app_nth)
  then show ?thesis unfolding len using assms by (simp add: list_update_append)
qed

lemma decAll_keys: "decAll get upd ps g queue = Ret (g', queue') \<Longrightarrow> map fst g' = map fst g"
proof (induction get upd ps g queue rule: decAll.induct)
  case (2 get upd p ps g queue)
  then show ?case
    by (cases "map_of g p") (auto simp: Let_def update_keys dest: map_of_SomeD intro: rev_image_eqI)
qed simp

lemma length_delete:
  assumes "distinct (map fst g)" "k \<in> dom (map_of g)"
  shows "Suc (length (AList.delete k g)) = length g"
proof -
  have "k \<in> set (map fst g)" using assms(2) by (simp add: dom_map_of_conv_image_fst)
  then have "Suc (length (removeAll k (map fst g))) = length (map fst g)"
    using assms(1) by (metis One_nat_def Suc_pred distinct_remove1_removeAll length_pos_if_in_set length_remove1)
  then show ?thesis by (metis delete_keys length_map)
qed

lemma sort_inv_step:
  assumes graph: "sort_graph M cfgs0" and inv: "sort_inv M cfgs0 us g (name # queue) index cfgs"
  shows "\<exists>g' queue' index' cfgs'. sortLoop (Suc n) (name # queue) g index cfgs = sortLoop n queue' g' index' cfgs'
    \<and> sort_inv M cfgs0 (us @ [name]) g' queue' index' cfgs' \<and> Suc (length g') = length g"
proof -
  from inv have peel: "peel_inv indegree proxies_of (map_of g) (name # queue)"
    and same: "\<And>u nd. map_of g u = Some nd \<Longrightarrow> \<exists>nd0 f. M u = Some nd0 \<and> nd = indegree_update f nd0"
    and us: "distinct us" "set us = dom M - dom (map_of g)" "users_first M us"
    and idx: "index = length (groups M us)" "cfgs = take (length cfgs0 - index) cfgs0 @ rev (groups M us)"
    and dist: "distinct (map fst g)"
    by (auto simp: sort_inv_def)
  from peel_inv_hd(1) [OF peel] obtain nd where nd: "map_of g name = Some nd" by auto
  from same [OF nd] obtain nd0 f where nd0: "M name = Some nd0" "nd = indegree_update f nd0" by blast
  from uses.peel_step [OF peel nd] obtain g1 zs
    where d: "decAll indegree indegree_update (proxies_of nd) g queue = Ret (g1, queue @ zs)"
      and m: "map_of g1 = (\<lambda>u. map_option (indegree_update (\<lambda>n. n - int (count_list (proxies_of nd) u))) (map_of g u))"
      and p': "peel_inv indegree proxies_of ((map_of g1)(name := None)) (queue @ zs)" by blast
  let ?g' = "AList.delete name g1"
  have m': "map_of ?g' = (map_of g1)(name := None)" by (simp add: delete_conv')
  have opt: "n_option nd \<noteq> None \<longrightarrow> n_data nd \<noteq> None"
    using graph nd0 by (auto simp: sort_graph_def)
  have grp: "groups M (us @ [name]) = groups M us @ (if n_option nd = None then [] else [the (n_data nd)])"
    using nd0 by (auto simp: groups_def node_data_def)
  have members: "members proxies_of (map_of g) v = members proxies_of M v" if "v \<in> dom (map_of g)" for v
    using that same by (fastforce simp: members_def)
  have first: "v \<in> set us" if "name \<in> set (members proxies_of M v)" for v
    using that peel_inv_hd(2) [OF peel, of v] members [of v] us(2)
    by (cases "v \<in> dom M") (auto simp: members_def domIff)
  have room: "length (groups M (us @ [name])) \<le> length cfgs0"
    using graph us nd0 nd by (simp add: sort_graph_def) (auto simp: domIff)
  let ?index = "if n_option nd = None then index else index + 1"
  let ?cfgs = "if n_option nd = None then cfgs else cfgs[length cfgs - (index + 1) := the (n_data nd)]"
  have "sort_inv M cfgs0 (us @ [name]) ?g' (queue @ zs) ?index ?cfgs"
    unfolding sort_inv_def
  proof (intro conjI allI impI)
    show "peel_inv indegree proxies_of (map_of ?g') (queue @ zs)" using p' by (simp add: m')
    show "distinct (map fst ?g')" using dist decAll_keys [OF d] by (metis delete_keys distinct_removeAll)
    show "\<exists>nd0 f. M u = Some nd0 \<and> x = indegree_update f nd0" if "map_of ?g' u = Some x" for u x
      using that same [of u] by (fastforce simp: m' m split: if_splits)
    show "distinct (us @ [name])" using us nd by auto
    show "set (us @ [name]) = dom M - dom (map_of ?g')"
      using us nd nd0 by (auto simp: m' m)
    show "users_first M (us @ [name])" by (rule users_first_snoc [OF us(3) first])
    show "?index = length (groups M (us @ [name]))" using idx by (simp add: grp)
    show "?cfgs = take (length cfgs0 - ?index) cfgs0 @ rev (groups M (us @ [name]))"
      using update_from_end [OF idx(1), of cfgs0 "the (n_data nd)"] room idx by (auto simp: grp)
  qed
  moreover have "Suc (length ?g') = length g"
    using length_delete [of g1 name] dist decAll_keys [OF d] nd by (metis length_map domI m option.simps(9))
  moreover have "sortLoop (Suc n) (name # queue) g index cfgs = sortLoop n (queue @ zs) ?g' ?index ?cfgs"
    unfolding sortLoop_step [OF nd opt] d by simp
  ultimately show ?thesis by blast
qed

lemma sortLoop_spec:
  assumes "sort_graph M cfgs0" "sort_inv M cfgs0 us g queue index cfgs" "length g \<le> n"
  shows "\<exists>g' us' cfgs'. sortLoop n queue g index cfgs = Ret (g', cfgs')
    \<and> sort_inv M cfgs0 us' g' [] (length (groups M us')) cfgs'"
  using assms(2,3)
proof (induction n arbitrary: us g queue index cfgs)
  case 0
  then have "queue = []" by (auto simp: sort_inv_def peel_inv_def)
  with 0 show ?case by (auto simp: sort_inv_def)
next
  case (Suc n)
  show ?case
  proof (cases queue)
    case Nil
    with Suc.prems show ?thesis by (auto simp: sort_inv_def)
  next
    case (Cons name q)
    with sort_inv_step [OF assms(1), of us g name q index cfgs n] Suc.prems Suc.IH show ?thesis
      by (metis Suc_le_mono)
  qed
qed

section \<open>The graph of a configuration\<close>

definition group_name :: "('cfg \<Rightarrow> (string \<times> string) + (string \<times> string list)) \<Rightarrow> 'cfg \<Rightarrow> string" where
  "group_name decode d = fst (projr (decode d))"

definition group_proxies :: "('cfg \<Rightarrow> (string \<times> string) + (string \<times> string list)) \<Rightarrow> 'cfg \<Rightarrow> string list" where
  "group_proxies decode d = snd (projr (decode d))"

text \<open>Every entry can be decoded and no two groups share a name.\<close>

definition valid_groups :: "('cfg \<Rightarrow> (string \<times> string) + (string \<times> string list)) \<Rightarrow> 'cfg list \<Rightarrow> bool" where
  "valid_groups decode cs = ((\<forall>d\<in>set cs. \<not> isl (decode d)) \<and> distinct (map (group_name decode) cs))"

definition graph_of :: "('cfg \<Rightarrow> (string \<times> string) + (string \<times> string list)) \<Rightarrow> 'cfg list
    \<Rightarrow> string \<Rightarrow> 'cfg graphNode option" where
  "graph_of decode cs u =
     (if u \<in> group_name decode ` set cs \<or> u \<in> set (concat (map (group_proxies decode) cs)) then
        (let d = find (\<lambda>d. group_name decode d = u) cs
         in Some \<lparr>indegree = int (count_list (concat (map (group_proxies decode) cs)) u), n_data = d,
              outdegree = 0, n_option = map_option (group_proxies decode) d, n_from = []\<rparr>)
      else None)"

lemma find_name_None: "find (\<lambda>d. f d = u) cs = None \<longleftrightarrow> u \<notin> f ` set cs"
  by (auto simp: find_None_iff)

lemma map_of_addProxies:
  "map_of (addProxies ps g) u = (case map_of g u of
     Some nd \<Rightarrow> Some (indegree_update (\<lambda>n. n + int (count_list ps u)) nd)
   | None \<Rightarrow> if u \<in> set ps
       then Some \<lparr>indegree = int (count_list ps u), n_data = None, outdegree = 0, n_option = None, n_from = []\<rparr>
       else None)"
proof (induction ps arbitrary: g)
  case Nil
  have "indegree_update (\<lambda>n. n) nd = nd" for nd :: "'a graphNode" by simp
  then show ?case by (simp split: option.split)
next
  case (Cons p ps)
  show ?case
    by (cases "map_of g p"; cases "map_of g u")
      (auto simp: Cons.IH update_conv' algebra_simps split: option.split)
qed

lemma distinct_addProxies: "distinct (map fst g) \<Longrightarrow> distinct (map fst (addProxies ps g))"
  by (induction ps g rule: addProxies.induct) (auto simp: distinct_update split: option.splits)

lemma graph_of_snoc:
  assumes "valid_groups decode (cs @ [d])" "decode d = Inr (name, ps)"
  shows "graph_of decode (cs @ [d]) u =
    (let nd = (case graph_of decode cs name of
        None \<Rightarrow> \<lparr>indegree = 0, n_data = Some d, outdegree = 0, n_option = Some ps, n_from = []\<rparr>
      | Some node \<Rightarrow> node\<lparr>n_data := Some d, n_option := Some ps\<rparr>)
     in case ((graph_of decode cs)(name \<mapsto> nd)) u of
       Some nd \<Rightarrow> Some (indegree_update (\<lambda>n. n + int (count_list ps u)) nd)
     | None \<Rightarrow> if u \<in> set ps
         then Some \<lparr>indegree = int (count_list ps u), n_data = None, outdegree = 0, n_option = None, n_from = []\<rparr>
         else None)"
proof -
  have n: "group_name decode d = name" "group_proxies decode d = ps"
    using assms(2) by (simp_all add: group_name_def group_proxies_def)
  have new: "name \<notin> group_name decode ` set cs" using assms(1) n by (auto simp: valid_groups_def)
  have find: "find (\<lambda>d. group_name decode d = u) (cs @ [d]) =
      (if u = name then Some d else find (\<lambda>d. group_name decode d = u) cs)"
    using new find_name_None [of "group_name decode" name cs] by (auto simp: n find_append split: option.split)
  have none: "find (\<lambda>d. group_name decode d = u) cs = None" if "u \<notin> group_name decode ` set cs"
    using that by (simp add: find_name_None)
  show ?thesis
  proof (cases "u = name")
    case True
    then show ?thesis using find none new
      by (auto simp: graph_of_def n Let_def count_list_0_iff split: option.split)
  next
    case False
    then show ?thesis using find none
      by (auto simp: graph_of_def n Let_def count_list_0_iff split: option.split)
  qed
qed

lemma buildGraph_spec:
  assumes "map_of g = graph_of decode cs0" "valid_groups decode cs0" "distinct (map fst g)"
  shows "if valid_groups decode (cs0 @ cs)
    then \<exists>g'. buildGraph decode cs g = Inr g' \<and> map_of g' = graph_of decode (cs0 @ cs) \<and> distinct (map fst g')
    else \<exists>e. buildGraph decode cs g = Inl e"
  using assms
proof (induction cs arbitrary: cs0 g)
  case Nil
  then show ?case by simp
next
  case (Cons d cs)
  show ?case
  proof (cases "decode d")
    case (Inl e)
    then show ?thesis by (auto simp: valid_groups_def split: prod.split)
  next
    case (Inr r)
    obtain name ps where r: "r = (name, ps)" by fastforce
    have n: "group_name decode d = name" using Inr r by (simp add: group_name_def)
    have data: "n_data nd \<noteq> None \<longleftrightarrow> name \<in> group_name decode ` set cs0" if "map_of g name = Some nd" for nd
      using that find_name_None [of "group_name decode" name cs0] unfolding Cons.prems(1)
      by (auto simp: graph_of_def Let_def split: if_splits)
    have isin: "map_of g name \<noteq> None" if "name \<in> group_name decode ` set cs0"
      using that Cons.prems(1) by (simp add: graph_of_def Let_def)
    show ?thesis
    proof (cases "name \<in> group_name decode ` set cs0")
      case True
      then have "\<not> valid_groups decode (cs0 @ d # cs)" using n by (auto simp: valid_groups_def)
      then show ?thesis using True data isin Inr r by (auto simp: split: option.split)
    next
      case False
      then have v: "valid_groups decode (cs0 @ [d])"
        using Cons.prems(2) n Inr by (auto simp: valid_groups_def)
      let ?nd = "case map_of g name of
        None \<Rightarrow> \<lparr>indegree = 0, n_data = Some d, outdegree = 0, n_option = Some ps, n_from = []\<rparr>
      | Some node \<Rightarrow> node\<lparr>n_data := Some d, n_option := Some ps\<rparr>"
      let ?g = "addProxies ps (AList.update name ?nd g)"
      have g: "map_of ?g = graph_of decode (cs0 @ [d])"
        using graph_of_snoc [OF v, of name ps] Inr r Cons.prems(1)
        by (simp add: fun_eq_iff map_of_addProxies update_conv' Let_def)
      have b: "buildGraph decode (d # cs) g = buildGraph decode cs ?g"
        using False data Inr r by (auto split: option.split)
      show ?thesis unfolding b
        using Cons.IH [OF g v distinct_addProxies [OF distinct_update [OF Cons.prems(3)]]]
        by (simp only: append_assoc append_Cons append_Nil)
    qed
  qed
qed

lemma find_name: "distinct (map f cs) \<Longrightarrow> d \<in> set cs \<Longrightarrow> find (\<lambda>x. f x = f d) cs = Some d"
  by (induction cs) (auto simp: image_iff)

lemma find_name_Some: "find (\<lambda>x. f x = u) cs = Some d \<Longrightarrow> d \<in> set cs \<and> f d = u"
  by (auto simp: find_Some_iff)

lemma count_list_concat: "count_list (concat xss) u = sum_list (map (\<lambda>xs. count_list xs u) xss)"
  by (induction xss) auto

lemma dom_graph_of: "dom (graph_of decode cs) =
    group_name decode ` set cs \<union> set (concat (map (group_proxies decode) cs))"
  by (auto simp: graph_of_def Let_def split: if_splits)

lemma members_graph_of:
  "members proxies_of (graph_of decode cs) v =
    (case find (\<lambda>d. group_name decode d = v) cs of None \<Rightarrow> [] | Some d \<Rightarrow> group_proxies decode d)"
  using find_name_None [of "group_name decode" v cs]
  by (auto simp: members_def graph_of_def proxies_of_def Let_def split: option.split)

lemma refs_graph_of:
  assumes "valid_groups decode cs"
  shows "refs proxies_of (graph_of decode cs) u = int (count_list (concat (map (group_proxies decode) cs)) u)"
proof -
  let ?F = "\<lambda>v. int (count_list (members proxies_of (graph_of decode cs) v) u)"
  have dist: "distinct (map (group_name decode) cs)" using assms by (simp add: valid_groups_def)
  have "refs proxies_of (graph_of decode cs) u = (\<Sum>v\<in>group_name decode ` set cs. ?F v)"
    unfolding refs_def dom_graph_of
    by (rule sum.mono_neutral_right)
      (auto simp: members_graph_of find_name_None [THEN iffD2])
  also have "\<dots> = sum_list (map ?F (map (group_name decode) cs))"
    using sum_list_distinct_conv_sum_set [OF dist, of ?F] by simp
  also have "map ?F (map (group_name decode) cs) = map (\<lambda>d. int (count_list (group_proxies decode d) u)) cs"
    using find_name [OF dist] by (auto simp: members_graph_of)
  also have "sum_list \<dots> = int (count_list (concat (map (group_proxies decode) cs)) u)"
    by (induction cs) auto
  finally show ?thesis .
qed

text \<open>The groups among some nodes, by name.\<close>

lemma groups_graph_of:
  "map (group_name decode) (groups (graph_of decode cs) us) = filter (\<lambda>u. u \<in> group_name decode ` set cs) us"
  "set (groups (graph_of decode cs) us) \<subseteq> set cs"
proof -
  have nd: "node_data (graph_of decode cs) u =
      (case find (\<lambda>d. group_name decode d = u) cs of None \<Rightarrow> [] | Some d \<Rightarrow> [d])" for u
    using find_name_None [of "group_name decode" u cs]
    by (auto simp: node_data_def graph_of_def Let_def split: option.split)
  show "map (group_name decode) (groups (graph_of decode cs) us) = filter (\<lambda>u. u \<in> group_name decode ` set cs) us"
  proof (induction us)
    case (Cons u us)
    show ?case
    proof (cases "find (\<lambda>d. group_name decode d = u) cs")
      case None
      with Cons find_name_None [of "group_name decode" u cs] show ?thesis by (simp add: groups_def nd)
    next
      case (Some d)
      with find_name_Some [OF Some] Cons show ?thesis by (auto simp: groups_def nd)
    qed
  qed (simp add: groups_def)
  show "set (groups (graph_of decode cs) us) \<subseteq> set cs"
  proof
    fix d assume "d \<in> set (groups (graph_of decode cs) us)"
    then obtain u where "d \<in> set (node_data (graph_of decode cs) u)" by (auto simp: groups_def)
    then have "find (\<lambda>d. group_name decode d = u) cs = Some d"
      by (cases "find (\<lambda>d. group_name decode d = u) cs") (simp_all add: nd)
    from find_name_Some [OF this] show "d \<in> set cs" by simp
  qed
qed

lemma sort_graph_of: "sort_graph (graph_of decode cs) cs"
proof -
  have "length (groups (graph_of decode cs) us) \<le> length cs" if "distinct us" for us
  proof -
    have "length (groups (graph_of decode cs) us) = length (filter (\<lambda>u. u \<in> group_name decode ` set cs) us)"
      by (metis groups_graph_of(1) length_map)
    also have "\<dots> = card (set (filter (\<lambda>u. u \<in> group_name decode ` set cs) us))"
      using that by (metis distinct_card distinct_filter)
    also have "\<dots> \<le> card (group_name decode ` set cs)" by (rule card_mono) auto
    also have "\<dots> \<le> length cs" by (metis card_length length_map set_map)
    finally show ?thesis .
  qed
  then show ?thesis by (auto simp: sort_graph_def graph_of_def Let_def split: if_splits)
qed

lemma set_zero_nodes:
  "set (zero_nodes get names g) = {u \<in> set names. \<exists>nd. map_of g u = Some nd \<and> get nd = 0}"
  by (auto simp: zero_nodes_def split: option.splits)

text \<open>A walk over the keys of a Go map: every key once, in some order.\<close>

definition map_order :: "(string list \<Rightarrow> string list) \<Rightarrow> bool" where
  "map_order iter = (\<forall>xs. mset (iter xs) = mset xs)"

lemma map_orderD:
  assumes "map_order iter"
  shows "set (iter xs) = set xs" "distinct (iter xs) \<longleftrightarrow> distinct xs" "length (iter xs) = length xs"
  using assms by (metis map_order_def mset_eq_setD, metis map_order_def mset_eq_imp_distinct_iff,
    metis map_order_def mset_eq_length)

lemma zero_nodes_queue:
  assumes "map_order iter" "distinct (map fst g)"
  shows "distinct (zero_nodes get (iter (map fst g)) g)"
    "set (zero_nodes get (iter (map fst g)) g) = {u. \<exists>nd. map_of g u = Some nd \<and> get nd = 0}"
proof -
  show "distinct (zero_nodes get (iter (map fst g)) g)"
    using map_orderD(2) [OF assms(1)] assms(2) by (simp add: zero_nodes_def)
  show "set (zero_nodes get (iter (map fst g)) g) = {u. \<exists>nd. map_of g u = Some nd \<and> get nd = 0}"
    unfolding set_zero_nodes using map_orderD(1) [OF assms(1)] by (force dest: map_of_SomeD)
qed

lemma sort_inv_init:
  assumes "map_order iter" "valid_groups decode cs" "map_of g = graph_of decode cs" "distinct (map fst g)"
  shows "sort_inv (graph_of decode cs) cs [] g (zero_nodes indegree (iter (map fst g)) g) 0 cs"
proof -
  let ?M = "graph_of decode cs"
  have "set (members proxies_of ?M v) \<subseteq> dom ?M" for v
    using find_name_Some [of "group_name decode" v cs]
    by (cases "find (\<lambda>d. group_name decode d = v) cs") (auto simp: members_graph_of dom_graph_of)
  moreover have "indegree nd = refs proxies_of ?M u" if "?M u = Some nd" for u nd
    unfolding refs_graph_of [OF assms(2)] using that by (auto simp: graph_of_def Let_def split: if_splits)
  ultimately have "peel_inv indegree proxies_of ?M (zero_nodes indegree (iter (map fst g)) g)"
    using zero_nodes_queue [OF assms(1,4), of indegree] finite_dom_map_of [of g]
    by (simp add: peel_inv_def assms(3))
  moreover have "\<exists>nd0 f. ?M u = Some nd0 \<and> nd = indegree_update f nd0" if "?M u = Some nd" for u nd
  proof -
    have "nd = indegree_update (\<lambda>n. n) nd" by simp
    with that show ?thesis by blast
  qed
  ultimately show ?thesis using assms(3,4) by (auto simp: sort_inv_def users_first_def groups_def)
qed

section \<open>Order and cycles\<close>

text \<open>No group names itself or a later one.\<close>

fun build_order :: "('cfg \<Rightarrow> (string \<times> string) + (string \<times> string list)) \<Rightarrow> 'cfg list \<Rightarrow> bool" where
  "build_order decode [] = True"
| "build_order decode (d # ds) =
     ((\<forall>e\<in>set (d # ds). group_name decode e \<notin> set (group_proxies decode d)) \<and> build_order decode ds)"

definition names_group :: "('cfg \<Rightarrow> (string \<times> string) + (string \<times> string list)) \<Rightarrow> 'cfg list \<Rightarrow> (string \<times> string) set" where
  "names_group decode cs = {(v, u). \<exists>d\<in>set cs. group_name decode d = v \<and> u \<in> set (group_proxies decode d)}"

lemma build_order_sorted_wrt:
  "build_order decode ds \<longleftrightarrow>
    sorted_wrt (\<lambda>d e. group_name decode e \<notin> set (group_proxies decode d)) ds
    \<and> (\<forall>d\<in>set ds. group_name decode d \<notin> set (group_proxies decode d))"
  by (induction ds) auto

lemma names_group_members:
  assumes "valid_groups decode cs"
  shows "(v, u) \<in> names_group decode cs \<longleftrightarrow> u \<in> set (members proxies_of (graph_of decode cs) v)"
proof -
  have dist: "distinct (map (group_name decode) cs)" using assms by (simp add: valid_groups_def)
  show ?thesis
  proof (cases "find (\<lambda>d. group_name decode d = v) cs")
    case None
    then have "v \<notin> group_name decode ` set cs" unfolding find_name_None .
    with None show ?thesis by (auto simp: names_group_def members_graph_of)
  next
    case (Some d)
    from find_name_Some [OF Some] have d: "d \<in> set cs" "group_name decode d = v" by auto
    have "e = d" if "e \<in> set cs" "group_name decode e = v" for e
      using find_name [OF dist that(1)] Some that(2) by simp
    with d have "(v, u) \<in> names_group decode cs \<longleftrightarrow> u \<in> set (group_proxies decode d)"
      unfolding names_group_def by blast
    with Some show ?thesis by (simp add: members_graph_of)
  qed
qed

lemma users_first_sorted_wrt:
  assumes "users_first M us" "distinct us"
  shows "sorted_wrt (\<lambda>x y. x \<notin> set (members proxies_of M y)) us"
    "\<forall>x\<in>set us. x \<notin> set (members proxies_of M x)"
proof -
  have *: "us ! i \<notin> set (members proxies_of M (us ! j))" if "i \<le> j" "j < length us" for i j
  proof
    assume "us ! i \<in> set (members proxies_of M (us ! j))"
    moreover have "us = take i us @ us ! i # drop (Suc i) us" using that by (simp add: id_take_nth_drop)
    ultimately have "us ! j \<in> set (take i us)" using assms(1) unfolding users_first_def by blast
    then obtain k where "k < i" "us ! k = us ! j" using that by (auto simp: in_set_conv_nth)
    with assms(2) that show False by (simp add: nth_eq_iff_index_eq)
  qed
  show "sorted_wrt (\<lambda>x y. x \<notin> set (members proxies_of M y)) us"
    using * by (simp add: sorted_wrt_iff_nth_less)
  show "\<forall>x\<in>set us. x \<notin> set (members proxies_of M x)"
    using * by (auto simp: in_set_conv_nth)
qed

lemma build_order_groups:
  assumes "valid_groups decode cs" "users_first (graph_of decode cs) us" "distinct us"
  shows "build_order decode (rev (groups (graph_of decode cs) us))"
proof -
  let ?M = "graph_of decode cs" and ?G = "groups (graph_of decode cs) us"
  let ?R = "\<lambda>x y. x \<notin> set (members proxies_of ?M y)"
  have dist: "distinct (map (group_name decode) cs)" using assms by (simp add: valid_groups_def)
  have mem: "members proxies_of ?M (group_name decode d) = group_proxies decode d" if "d \<in> set ?G" for d
    using find_name [OF dist, of d] groups_graph_of(2) [of decode cs us] that by (auto simp: members_graph_of)
  have "sorted_wrt ?R (map (group_name decode) ?G)"
    unfolding groups_graph_of(1) by (rule sorted_wrt_filter [OF users_first_sorted_wrt(1) [OF assms(2,3)]])
  then have s: "sorted_wrt (\<lambda>d e. ?R (group_name decode d) (group_name decode e)) ?G"
    by (simp add: sorted_wrt_map)
  have "sorted_wrt (\<lambda>d e. group_name decode d \<notin> set (group_proxies decode e)) ?G"
    by (rule sorted_wrt_mono_rel [OF _ s]) (simp add: mem)
  moreover have "group_name decode d \<notin> set (group_proxies decode d)" if "d \<in> set ?G" for d
  proof -
    have "group_name decode d \<in> set (map (group_name decode) ?G)" using that by simp
    then have "group_name decode d \<in> set us" unfolding groups_graph_of(1) by simp
    with users_first_sorted_wrt(2) [OF assms(2,3)] mem [OF that] show ?thesis by auto
  qed
  ultimately show ?thesis by (simp add: build_order_sorted_wrt sorted_wrt_rev)
qed

lemma mset_groups:
  assumes "valid_groups decode cs" "distinct us" "set us = dom (graph_of decode cs)"
  shows "mset (groups (graph_of decode cs) us) = mset cs"
proof -
  let ?G = "groups (graph_of decode cs) us"
  have dist: "distinct (map (group_name decode) cs)" using assms by (simp add: valid_groups_def)
  have names: "map (group_name decode) ?G = filter (\<lambda>u. u \<in> group_name decode ` set cs) us"
    by (rule groups_graph_of(1))
  have "distinct (map (group_name decode) ?G)" unfolding names using assms(2) by simp
  moreover have "group_name decode ` set ?G = group_name decode ` set cs"
    using arg_cong [OF names, of set] assms(3) by (auto simp: dom_graph_of)
  moreover have "set ?G \<subseteq> set cs" by (rule groups_graph_of(2))
  ultimately show ?thesis
    using dist by (metis distinct_map inj_on_image_eq_iff order_refl set_eq_iff_mset_eq_distinct)
qed

lemma users_first_acyclic:
  assumes "users_first M us" "distinct us" "dom M \<subseteq> set us" "\<And>v. set (members proxies_of M v) \<subseteq> dom M"
  shows "acyclic {(v, u). u \<in> set (members proxies_of M v)}"
proof (rule acyclicI_order)
  fix v u assume "(v, u) \<in> {(v, u). u \<in> set (members proxies_of M v)}"
  then have u: "u \<in> set (members proxies_of M v)" by simp
  with assms(3,4) have "u \<in> set us" by blast
  then obtain ys zs where us: "us = ys @ u # zs" by (auto simp: in_set_conv_decomp)
  with u assms(1) have "v \<in> set ys" by (auto simp: users_first_def)
  then obtain xs ws where ys: "ys = xs @ v # ws" by (auto simp: in_set_conv_decomp)
  have "takeWhile (\<lambda>x. x \<noteq> u) us = ys" "takeWhile (\<lambda>x. x \<noteq> v) us = xs"
    using assms(2) unfolding us ys by (auto simp: takeWhile_append)
  then show "- int (length (takeWhile (\<lambda>x. x \<noteq> u) us)) < - int (length (takeWhile (\<lambda>x. x \<noteq> v) us))"
    by (simp add: ys)
qed

text \<open>When the loop ends with nodes left, each of them is named by one of them.\<close>

lemma stuck_cycle:
  assumes "finite r" "Q \<noteq> {}" "\<And>u. u \<in> Q \<Longrightarrow> \<exists>v\<in>Q. (v, u) \<in> r"
  shows "\<not> acyclic r"
proof
  assume "acyclic r"
  with assms(1) have "wf r" by (rule finite_acyclic_wf)
  with assms(2) obtain u where "u \<in> Q" "\<And>v. (v, u) \<in> r \<Longrightarrow> v \<notin> Q" by (metis wf_eq_minimal ex_in_conv)
  with assms(3) show False by blast
qed

section \<open>Locating the loop\<close>

lemma map_option_ident: "(\<And>y. x = Some y \<Longrightarrow> f y = y) \<Longrightarrow> map_option f x = x"
  by (cases x) auto

definition add_from :: "string \<Rightarrow> string list \<Rightarrow> string \<Rightarrow> 'cfg graphNode \<Rightarrow> 'cfg graphNode" where
  "add_from name ps u nd = nd\<lparr>n_from := n_from nd @ replicate (count_list ps u) name,
     outdegree := outdegree nd + (if u = name then int (length ps) else 0)\<rparr>"

lemma addFrom_spec:
  assumes "name \<in> dom (map_of g)" "set ps \<subseteq> dom (map_of g)"
  shows "\<exists>g'. addFrom name ps g = Ret g' \<and> map fst g' = map fst g
    \<and> map_of g' = (\<lambda>u. map_option (add_from name ps u) (map_of g u))"
  using assms
proof (induction ps arbitrary: g)
  case Nil
  have "map_option (add_from name [] u) (map_of g u) = map_of g u" for u
    by (rule map_option_ident) (simp add: add_from_def)
  then show ?case by simp
next
  case (Cons p ps)
  from Cons.prems obtain node where n: "map_of g name = Some node" by auto
  let ?g1 = "AList.update name (node\<lparr>outdegree := outdegree node + 1\<rparr>) g"
  have m1: "map_of ?g1 = (map_of g)(name \<mapsto> node\<lparr>outdegree := outdegree node + 1\<rparr>)" by (rule update_conv')
  have "p \<in> dom (map_of ?g1)" using Cons.prems(2) by (auto simp: m1)
  then obtain child where c: "map_of ?g1 p = Some child" by auto
  let ?g2 = "AList.update p (child\<lparr>n_from := n_from child @ [name]\<rparr>) ?g1"
  have m2: "map_of ?g2 = (map_of ?g1)(p \<mapsto> child\<lparr>n_from := n_from child @ [name]\<rparr>)" by (rule update_conv')
  have keys: "map fst ?g2 = map fst g"
  proof -
    have "name \<in> set (map fst g)" "p \<in> set (map fst g)"
      using Cons.prems by (auto simp: dom_map_of_conv_image_fst)
    then show ?thesis by (simp add: update_keys)
  qed
  have "name \<in> dom (map_of ?g2)" "set ps \<subseteq> dom (map_of ?g2)" using Cons.prems by (auto simp: m2 m1)
  from Cons.IH [OF this] obtain g' where g': "addFrom name ps ?g2 = Ret g'" "map fst g' = map fst ?g2"
    "map_of g' = (\<lambda>u. map_option (add_from name ps u) (map_of ?g2 u))" by blast
  have two: "map_option (add_from name ps u) (map_of ?g2 u) = map_option (add_from name (p # ps) u) (map_of g u)" for u
    using n c unfolding m2
    by (cases "map_of g u"; cases "u = name"; cases "u = p")
      (auto simp: m1 add_from_def replicate_append_same [symmetric] split: if_splits)
  have "addFrom name (p # ps) g = addFrom name ps ?g2" using n c by (simp add: Let_def)
  with g' keys two show ?case by auto
qed

text \<open>All groups that are left, each once.\<close>

definition add_froms :: "('cfg graphNode \<Rightarrow> string list) \<Rightarrow> (string \<Rightarrow> 'cfg graphNode option) \<Rightarrow> string list
    \<Rightarrow> string \<Rightarrow> 'cfg graphNode \<Rightarrow> 'cfg graphNode" where
  "add_froms adj M names u nd = nd\<lparr>
     n_from := n_from nd @ concat (map (\<lambda>v. replicate (count_list (members adj M v) u) v) names),
     outdegree := outdegree nd + (if u \<in> set names then int (length (adj nd)) else 0)\<rparr>"

lemma addFroms_spec:
  assumes "distinct names" "set names \<subseteq> dom (map_of g)" "\<And>v. set (members proxies_of (map_of g) v) \<subseteq> dom (map_of g)"
  shows "\<exists>g'. addFroms names g = Ret g' \<and> map fst g' = map fst g
    \<and> map_of g' = (\<lambda>u. map_option (add_froms proxies_of (map_of g) names u) (map_of g u))"
  using assms
proof (induction names arbitrary: g)
  case Nil
  have "map_option (add_froms proxies_of (map_of g) [] u) (map_of g u) = map_of g u" for u
    by (rule map_option_ident) (simp add: add_froms_def)
  then show ?case by simp
next
  case (Cons name names)
  from Cons.prems(2) obtain node where n: "map_of g name = Some node" by auto
  let ?ps = "proxies_of node"
  have mem: "members proxies_of (map_of g) name = ?ps" by (simp add: members_def n)
  from addFrom_spec [of name g ?ps] Cons.prems(2) Cons.prems(3) [of name] mem obtain g1 where
    g1: "addFrom name ?ps g = Ret g1" "map fst g1 = map fst g"
    "map_of g1 = (\<lambda>u. map_option (add_from name ?ps u) (map_of g u))" by auto
  have dom: "dom (map_of g1) = dom (map_of g)" by (auto simp: g1(3))
  have pr: "proxies_of (add_from name ?ps u nd) = proxies_of nd" for u and nd :: "'a graphNode"
    by (simp add: add_from_def proxies_of_def)
  have mems: "members proxies_of (map_of g1) = members proxies_of (map_of g)"
    by (auto simp: fun_eq_iff members_def g1(3) pr split: option.split)
  from Cons.IH [of g1] Cons.prems obtain g2 where g2: "addFroms names g1 = Ret g2" "map fst g2 = map fst g1"
    "map_of g2 = (\<lambda>u. map_option (add_froms proxies_of (map_of g1) names u) (map_of g1 u))"
    unfolding dom mems by auto
  have afs: "add_froms proxies_of (map_of g1) = add_froms proxies_of (map_of g)"
    by (simp add: fun_eq_iff add_froms_def mems)
  have "map_of g2 u = map_option (add_froms proxies_of (map_of g) (name # names) u) (map_of g u)" for u
    unfolding g2(3) afs unfolding g1(3) using Cons.prems(1)
    by (cases "map_of g u"; cases "u = name") (auto simp: add_froms_def add_from_def mem n)
  moreover have "addFroms (name # names) g = addFroms names g1"
  proof (cases "n_option node")
    case None
    then have "?ps = []" by (simp add: proxies_of_def)
    with g1(1) None n show ?thesis by simp
  next
    case (Some ps)
    then have "?ps = ps" by (simp add: proxies_of_def)
    with g1(1) Some n show ?thesis by simp
  qed
  ultimately show ?case using g2 g1 by auto
qed

lemma count_replicates:
  assumes "distinct names"
  shows "count_list (concat (map (\<lambda>v. replicate (f v) v) names)) u = (if u \<in> set names then f u else 0)"
  using assms
proof (induction names)
  case (Cons v names)
  have "count_list (replicate k v) u = (if u = v then k else 0)" for k by (induction k) auto
  with Cons show ?case by auto
qed simp

lemma addFroms_peel:
  fixes iter :: "nat \<Rightarrow> string list \<Rightarrow> string list"
  assumes ord: "\<And>k. map_order (iter k)" and dist: "distinct (map fst g)"
    and closed: "\<And>v. set (members proxies_of (map_of g) v) \<subseteq> dom (map_of g)"
    and fresh: "\<And>u nd. map_of g u = Some nd \<Longrightarrow> outdegree nd = 0 \<and> n_from nd = []"
  shows "\<exists>g'. addFroms (iter 1 (map fst g)) g = Ret g' \<and> map fst g' = map fst g
    \<and> peel_inv outdegree n_from (map_of g') (zero_nodes outdegree (iter 2 (map fst g')) g')
    \<and> (\<forall>u v. v \<in> set (members n_from (map_of g') u) \<longleftrightarrow> u \<in> set (members proxies_of (map_of g) v))"
proof -
  let ?names = "iter 1 (map fst g)" and ?M = "map_of g"
  have names: "distinct ?names" "set ?names = dom ?M"
    using map_orderD [OF ord] dist by (simp_all add: dom_map_of_conv_image_fst)
  from addFroms_spec [OF names(1) _ closed] names(2) obtain g' where
    g': "addFroms ?names g = Ret g'" "map fst g' = map fst g"
    "map_of g' = (\<lambda>u. map_option (add_froms proxies_of ?M ?names u) (?M u))" by auto
  have dom: "dom (map_of g') = dom ?M" by (auto simp: g'(3))
  let ?rep = "\<lambda>u. concat (map (\<lambda>v. replicate (count_list (members proxies_of ?M v) u) v) ?names)"
  have from_u: "members n_from (map_of g') u = (if u \<in> dom ?M then ?rep u else [])" for u
  proof (cases "?M u")
    case (Some nd)
    with fresh [OF Some] show ?thesis by (simp add: members_def [of n_from] g'(3) add_froms_def domI)
  qed (simp add: members_def [of n_from] g'(3) domIff)
  have mem: "v \<in> set (members n_from (map_of g') u) \<longleftrightarrow> u \<in> set (members proxies_of ?M v)" for u v
  proof -
    have "u \<in> dom ?M \<and> v \<in> dom ?M" if "u \<in> set (members proxies_of ?M v)"
      using closed [of v] that by (cases "?M v") (auto simp: members_def)
    then show ?thesis unfolding from_u by (auto simp: names(2) count_list_0_iff simp del: One_nat_def)
  qed
  have refs: "refs n_from (map_of g') u = int (length (members proxies_of ?M u))" if "u \<in> dom ?M" for u
  proof -
    have "refs n_from (map_of g') u = (\<Sum>w\<in>dom ?M. int (count_list (members proxies_of ?M u) w))"
      unfolding refs_def dom by (rule sum.cong) (use that in \<open>simp_all add: from_u count_replicates names del: One_nat_def\<close>)
    also have "\<dots> = int (length (members proxies_of ?M u))"
      using sum_count_set [OF closed [of u] finite_dom_map_of] by (simp flip: of_nat_sum)
    finally show ?thesis .
  qed
  have "peel_inv outdegree n_from (map_of g') (zero_nodes outdegree (iter 2 (map fst g')) g')"
    unfolding peel_inv_def
  proof (intro conjI allI impI)
    show "finite (dom (map_of g'))" by (rule finite_dom_map_of)
    show "set (members n_from (map_of g') v) \<subseteq> dom (map_of g')" for v
      unfolding dom using from_u [of v] names(2) by auto
    show "outdegree nd = refs n_from (map_of g') u" if "map_of g' u = Some nd" for u nd
    proof -
      from that have u: "u \<in> dom ?M" using dom by auto
      with that fresh names(2) show ?thesis
        unfolding refs [OF u] by (auto simp: g'(3) add_froms_def members_def)
    qed
  qed (use zero_nodes_queue [OF ord [of 2], of g' outdegree] dist g'(2) in auto)
  with g' mem show ?thesis by blast
qed

lemma pruneLoop_spec:
  assumes "peel_inv outdegree n_from (map_of g) queue" "distinct (map fst g)" "length g \<le> n" "dom (map_of g) \<noteq> {}"
    and "\<And>u. u \<in> dom (map_of g) \<Longrightarrow> members n_from (map_of g) u \<noteq> []"
  shows "\<exists>g'. pruneLoop n queue g = Ret g' \<and> peel_inv outdegree n_from (map_of g') [] \<and> distinct (map fst g')
    \<and> dom (map_of g') \<noteq> {} \<and> dom (map_of g') \<subseteq> dom (map_of g)
    \<and> (\<forall>u\<in>dom (map_of g'). members n_from (map_of g') u = members n_from (map_of g) u)"
  using assms
proof (induction n arbitrary: g queue)
  case 0
  then show ?case by simp
next
  case (Suc n)
  show ?case
  proof (cases queue)
    case Nil
    with Suc.prems show ?thesis by auto
  next
    case (Cons name q)
    with Suc.prems(1) have peel: "peel_inv outdegree n_from (map_of g) (name # q)" by simp
    from peel_inv_hd(1) [OF peel] obtain nd where nd: "map_of g name = Some nd" by auto
    from used_by.peel_step [OF peel nd] obtain g1 zs
      where d: "decAll outdegree outdegree_update (n_from nd) g q = Ret (g1, q @ zs)"
        and m: "map_of g1 = (\<lambda>u. map_option (outdegree_update (\<lambda>n. n - int (count_list (n_from nd) u))) (map_of g u))"
        and p': "peel_inv outdegree n_from ((map_of g1)(name := None)) (q @ zs)" by blast
    let ?g' = "AList.delete name g1"
    have m': "map_of ?g' = (map_of g1)(name := None)" by (simp add: delete_conv')
    have dom: "dom (map_of ?g') = dom (map_of g) - {name}" by (auto simp: m' m)
    have mem: "members n_from (map_of ?g') u = members n_from (map_of g) u" if "u \<noteq> name" for u
      using that by (auto simp: members_def m' m split: option.split)
    have len: "Suc (length ?g') = length g"
      using length_delete [of g1 name] Suc.prems(2) decAll_keys [OF d] nd by (metis length_map domI m option.simps(9))
    have ne: "dom (map_of ?g') \<noteq> {}"
    proof -
      have "members n_from (map_of g) name \<noteq> []" using Suc.prems(5) [of name] nd by auto
      then obtain v where v: "v \<in> set (members n_from (map_of g) name)" by (cases "members n_from (map_of g) name") auto
      with peel have "v \<in> dom (map_of g)" by (auto simp: peel_inv_def)
      moreover have "v \<noteq> name" using v peel_inv_hd(2) [OF peel] by metis
      ultimately show ?thesis by (auto simp: dom)
    qed
    have "distinct (map fst ?g')" using Suc.prems(2) decAll_keys [OF d] by (metis delete_keys distinct_removeAll)
    moreover have "members n_from (map_of ?g') u \<noteq> []" if "u \<in> dom (map_of ?g')" for u
      using that Suc.prems(5) [of u] mem [of u] by (simp add: dom)
    moreover have "peel_inv outdegree n_from (map_of ?g') (q @ zs)" unfolding m' by (rule p')
    moreover have "length ?g' \<le> n" using len Suc.prems(3) by simp
    ultimately obtain g2 where g2: "pruneLoop n (q @ zs) ?g' = Ret g2" "peel_inv outdegree n_from (map_of g2) []"
      "distinct (map fst g2)" "dom (map_of g2) \<noteq> {}" "dom (map_of g2) \<subseteq> dom (map_of ?g')"
      "\<forall>u\<in>dom (map_of g2). members n_from (map_of g2) u = members n_from (map_of ?g') u"
      using Suc.IH [of ?g' "q @ zs"] ne by blast
    have "pruneLoop (Suc n) queue g = Ret g2" using Cons nd d g2(1) by simp
    moreover have "dom (map_of g2) \<subseteq> dom (map_of g)" using g2(5) unfolding dom by blast
    moreover have "\<forall>u\<in>dom (map_of g2). members n_from (map_of g2) u = members n_from (map_of g) u"
      using g2(5,6) mem unfolding dom by (metis DiffE insertCI subsetD)
    ultimately show ?thesis using g2 by blast
  qed
qed

section \<open>Sorting the groups: correctness\<close>

definition in_loops :: "(string \<times> string) set \<Rightarrow> string list \<Rightarrow> bool" where
  "in_loops r L = (L \<noteq> [] \<and> distinct L \<and> (\<forall>u\<in>set L. (\<exists>v\<in>set L. (v, u) \<in> r) \<and> (\<exists>w\<in>set L. (u, w) \<in> r)))"

lemma locate_loop:
  fixes iter :: "nat \<Rightarrow> string list \<Rightarrow> string list"
  assumes ord: "\<And>k. map_order (iter k)" and valid: "valid_groups decode cs"
    and inv: "sort_inv (graph_of decode cs) cs us g [] index cfgs" and ne: "g \<noteq> []"
  shows "\<exists>g2 g3. addFroms (iter 1 (map fst g)) g = Ret g2
    \<and> pruneLoop (length g2) (zero_nodes outdegree (iter 2 (map fst g2)) g2) g2 = Ret g3
    \<and> in_loops (names_group decode cs) (iter 3 (map fst g3))"
proof -
  let ?M = "graph_of decode cs"
  from inv have peel: "peel_inv indegree proxies_of (map_of g) []" and dist: "distinct (map fst g)"
    and same: "\<And>u nd. map_of g u = Some nd \<Longrightarrow> \<exists>nd0 f. ?M u = Some nd0 \<and> nd = indegree_update f nd0"
    by (auto simp: sort_inv_def)
  have fresh: "outdegree nd = 0 \<and> n_from nd = []" if "map_of g u = Some nd" for u nd
    using same [OF that] by (auto simp: graph_of_def Let_def split: if_splits)
  have names: "(v, u) \<in> names_group decode cs" if "u \<in> set (members proxies_of (map_of g) v)" for u v
  proof (cases "map_of g v")
    case (Some nd)
    from same [OF Some] that Some show ?thesis
      unfolding names_group_members [OF valid] by (auto simp: members_def)
  qed (use that in \<open>simp add: members_def\<close>)
  have closed: "set (members proxies_of (map_of g) v) \<subseteq> dom (map_of g)" for v
    using peel by (simp add: peel_inv_def)
  from addFroms_peel [where iter = iter, OF ord dist closed] fresh obtain g2 where
    g2: "addFroms (iter 1 (map fst g)) g = Ret g2" "map fst g2 = map fst g"
      "peel_inv outdegree n_from (map_of g2) (zero_nodes outdegree (iter 2 (map fst g2)) g2)"
    and rev: "\<And>u v. v \<in> set (members n_from (map_of g2) u) \<longleftrightarrow> u \<in> set (members proxies_of (map_of g) v)"
    by blast
  have dom2: "dom (map_of g2) = dom (map_of g)"
    using arg_cong [OF g2(2), of set] by (simp add: dom_map_of_conv_image_fst)
  have some: "members n_from (map_of g2) u \<noteq> []" if "u \<in> dom (map_of g2)" for u
    using that peel_inv_queue [OF peel] rev [of _ u] unfolding dom2 by fastforce
  have "dom (map_of g2) \<noteq> {}" using ne dom2 by simp
  from pruneLoop_spec [OF g2(3) _ order_refl this some] g2(2) dist obtain g3 where
    g3: "pruneLoop (length g2) (zero_nodes outdegree (iter 2 (map fst g2)) g2) g2 = Ret g3"
      "peel_inv outdegree n_from (map_of g3) []" "distinct (map fst g3)" "dom (map_of g3) \<noteq> {}"
      "dom (map_of g3) \<subseteq> dom (map_of g2)"
      "\<forall>u\<in>dom (map_of g3). members n_from (map_of g3) u = members n_from (map_of g2) u" by auto
  let ?L = "iter 3 (map fst g3)"
  have L: "set ?L = dom (map_of g3)" "distinct ?L"
    using map_orderD [OF ord] g3(3) by (simp_all add: dom_map_of_conv_image_fst)
  have edge: "(v, u) \<in> names_group decode cs" "v \<in> dom (map_of g3)" "u \<in> dom (map_of g3)"
    if "v \<in> set (members n_from (map_of g3) u)" for v u
  proof -
    from that show u: "u \<in> dom (map_of g3)" by (cases "map_of g3 u") (auto simp: members_def)
    from that g3(2) show "v \<in> dom (map_of g3)" by (auto simp: peel_inv_def)
    from that g3(6) u rev [of v u] names [of u v] show "(v, u) \<in> names_group decode cs" by simp
  qed
  have "\<exists>v\<in>set ?L. (v, u) \<in> names_group decode cs" if "u \<in> set ?L" for u
    using that g3(5,6) some edge [of _ u] unfolding L by (metis last_in_set subsetD)
  moreover have "\<exists>w\<in>set ?L. (u, w) \<in> names_group decode cs" if "u \<in> set ?L" for u
    using that peel_inv_queue [OF g3(2)] edge [of u] unfolding L by fastforce
  moreover have "?L \<noteq> []" using L(1) g3(4) by (metis empty_set)
  ultimately show ?thesis using g2(1) g3(1) L(2) by (auto simp: in_loops_def)
qed

lemma proxyGroupsDagSort_cases:
  assumes ord: "\<And>k. map_order (iter k)"
  shows "if \<not> valid_groups decode cs then \<exists>e. proxyGroupsDagSort decode iter cs = Ret (Some (SortInvalid e), cs)
    else if acyclic (names_group decode cs) then
      \<exists>out. proxyGroupsDagSort decode iter cs = Ret (None, out) \<and> mset out = mset cs \<and> build_order decode out
    else \<exists>L out. proxyGroupsDagSort decode iter cs = Ret (Some (SortLoop L), out)
      \<and> in_loops (names_group decode cs) L"
proof -
  have init: "map_of [] = graph_of decode []" "valid_groups decode []" "distinct (map fst [])"
    by (auto simp: fun_eq_iff graph_of_def valid_groups_def)
  note b = buildGraph_spec [OF init, of cs]
  show ?thesis
  proof (cases "valid_groups decode cs")
    case False
    with b show ?thesis by (auto simp: proxyGroupsDagSort_def)
  next
    case valid: True
    let ?M = "graph_of decode cs"
    from b valid obtain g where g: "buildGraph decode cs [] = Inr g" "map_of g = ?M" "distinct (map fst g)" by auto
    from sortLoop_spec [OF sort_graph_of sort_inv_init [OF ord [of 0] valid g(2,3)] order_refl]
    obtain g1 us out where s: "sortLoop (length g) (zero_nodes indegree (iter 0 (map fst g)) g) g 0 cs = Ret (g1, out)"
      and inv: "sort_inv ?M cs us g1 [] (length (groups ?M us)) out" by blast
    have r: "{(v, u). u \<in> set (members proxies_of ?M v)} = names_group decode cs"
      using names_group_members [OF valid] by auto
    have closed: "set (members proxies_of ?M v) \<subseteq> dom ?M" for v
      using sort_inv_init [OF ord [of 0] valid g(2,3)] by (simp add: sort_inv_def peel_inv_def g(2))
    show ?thesis
    proof (cases "g1 = []")
      case True
      with inv have us: "distinct us" "set us = dom ?M" "users_first ?M us"
        "out = take (length cs - length (groups ?M us)) cs @ rev (groups ?M us)" by (auto simp: sort_inv_def)
      have perm: "mset (groups ?M us) = mset cs" by (rule mset_groups [OF valid us(1,2)])
      then have "length (groups ?M us) = length cs" by (rule mset_eq_length)
      with us(4) have out: "out = rev (groups ?M us)" by simp
      have "acyclic (names_group decode cs)"
        using users_first_acyclic [OF us(3,1) _ closed] us(2) unfolding r by simp
      moreover have "proxyGroupsDagSort decode iter cs = Ret (None, out)"
        using g(1) s True by (simp add: proxyGroupsDagSort_def)
      ultimately show ?thesis
        using valid perm out build_order_groups [OF valid us(3,1)] by simp
    next
      case False
      from locate_loop [where iter = iter, OF ord valid inv False] obtain g2 g3 where
        l: "addFroms (iter 1 (map fst g1)) g1 = Ret g2"
          "pruneLoop (length g2) (zero_nodes outdegree (iter 2 (map fst g2)) g2) g2 = Ret g3"
          "in_loops (names_group decode cs) (iter 3 (map fst g3))" by blast
      have "\<not> acyclic (names_group decode cs)"
      proof (rule stuck_cycle [of _ "set (iter 3 (map fst g3))"])
        have "v \<in> dom ?M" if "u \<in> set (members proxies_of ?M v)" for u v
          using that by (cases "?M v") (auto simp: members_def)
        with closed have "names_group decode cs \<subseteq> dom ?M \<times> dom ?M" unfolding r [symmetric] by blast
        then show "finite (names_group decode cs)"
          by (rule finite_subset) (simp add: finite_dom_map_of flip: g(2))
      qed (use l(3) in \<open>auto simp: in_loops_def\<close>)
      moreover have "proxyGroupsDagSort decode iter cs = Ret (Some (SortLoop (iter 3 (map fst g3))), out)"
        using g(1) s l False by (simp add: proxyGroupsDagSort_def Let_def)
      ultimately show ?thesis using valid l(3) by simp
    qed
  qed
qed


text \<open>
  C7. Sorting the proxy groups never dereferences a missing node and never loops forever. It
  succeeds exactly when every entry can be decoded, no two groups share a name and no group names
  itself directly or through others; in whatever order Go walks its maps.
\<close>

theorem proxyGroupsDagSort_accepts:
  assumes "\<And>k. map_order (iter k)"
  shows "\<exists>e out. proxyGroupsDagSort decode iter cs = Ret (e, out)
    \<and> (e = None \<longleftrightarrow> valid_groups decode cs \<and> acyclic (names_group decode cs))"
  using proxyGroupsDagSort_cases [where iter = iter, OF assms, of decode cs] by (auto split: if_splits)

definition example_groups :: "(string \<times> string list) list" where
  "example_groups = [(''Proxy'', [''Auto'', ''node1'']), (''Auto'', [''node1'', ''node2'']), (''Media'', [''Proxy'', ''Auto''])]"

theorem proxyGroupsDagSort_accepts_witness:
  "\<exists>e out. proxyGroupsDagSort Inr (\<lambda>_. rev) (example_groups @ [(''Loop'', [''Loop''])]) = Ret (e, out)
    \<and> (e = None \<longleftrightarrow> valid_groups Inr (example_groups @ [(''Loop'', [''Loop''])])
          \<and> acyclic (names_group Inr (example_groups @ [(''Loop'', [''Loop''])])))"
  using proxyGroupsDagSort_accepts [of "\<lambda>_. rev" Inr "example_groups @ [(''Loop'', [''Loop''])]"]
  by (simp add: map_order_def)

text \<open>
  C8. After a successful sort the configuration has the same groups, and no group names itself or a
  group that comes later: when the groups are built in this order, every group finds those it names.
\<close>

theorem proxyGroupsDagSort_order:
  assumes "\<And>k. map_order (iter k)" "proxyGroupsDagSort decode iter cs = Ret (None, out)"
  shows "mset out = mset cs \<and> build_order decode out"
  using proxyGroupsDagSort_cases [where iter = iter, OF assms(1), of decode cs] assms(2) by (auto split: if_splits)

theorem proxyGroupsDagSort_order_witness:
  "proxyGroupsDagSort Inr (\<lambda>_. id) example_groups =
     Ret (None, [(''Auto'', [''node1'', ''node2'']), (''Proxy'', [''Auto'', ''node1'']), (''Media'', [''Proxy'', ''Auto''])])
   \<and> build_order Inr [(''Auto'', [''node1'', ''node2'']), (''Proxy'', [''Auto'', ''node1'']), (''Media'', [''Proxy'', ''Auto''])]"
proof -
  have "proxyGroupsDagSort Inr (\<lambda>_. id) example_groups =
      Ret (None, [(''Auto'', [''node1'', ''node2'']), (''Proxy'', [''Auto'', ''node1'']), (''Media'', [''Proxy'', ''Auto''])])"
    by code_simp
  with proxyGroupsDagSort_order [of "\<lambda>_. id" Inr example_groups] show ?thesis by (simp add: map_order_def)
qed

text \<open>
  When the sort reports a loop, the names it reports are not empty, there are no duplicates
  among them, and each of them names one of them and is named by one of them.
\<close>

theorem proxyGroupsDagSort_reports_loop:
  assumes "\<And>k. map_order (iter k)" "proxyGroupsDagSort decode iter cs = Ret (Some (SortLoop L), out)"
  shows "in_loops (names_group decode cs) L"
  using proxyGroupsDagSort_cases [where iter = iter, OF assms(1), of decode cs] assms(2) by (auto split: if_splits)

theorem proxyGroupsDagSort_reports_loop_witness:
  "\<exists>out. proxyGroupsDagSort Inr (\<lambda>_. id) (example_groups @ [(''X'', [''Y'']), (''Y'', [''X'', ''Auto''])])
      = Ret (Some (SortLoop [''X'', ''Y'']), out)
    \<and> in_loops (names_group Inr (example_groups @ [(''X'', [''Y'']), (''Y'', [''X'', ''Auto''])])) [''X'', ''Y'']"
proof -
  let ?cs = "example_groups @ [(''X'', [''Y'']), (''Y'', [''X'', ''Auto''])]"
  have "(case proxyGroupsDagSort Inr (\<lambda>_. id) ?cs of Ret (e, out) \<Rightarrow> e = Some (SortLoop [''X'', ''Y'']) | _ \<Rightarrow> False)"
    by code_simp
  then obtain out where "proxyGroupsDagSort Inr (\<lambda>_. id) ?cs = Ret (Some (SortLoop [''X'', ''Y'']), out)"
    by (auto split: outcome.splits)
  with proxyGroupsDagSort_reports_loop [of "\<lambda>_. id" Inr ?cs] show ?thesis by (simp add: map_order_def)
qed

end
