(* ===== verification/ProxyHealth.thy ===== *)
theory ProxyHealth
  imports Rules "HOL-Library.AList"
begin

text \<open>
  The state a proxy keeps about its health (src/adapter/adapter.go) with the queue of its delay
  history (src/common/queue/queue.go), and the health checks of the proxy providers
  (src/adapter/provider/healthcheck.go, the base provider of src/adapter/provider/provider.go).

  A proxy is shared by the providers and groups that list it, so it lives in a heap and is reached
  by its address. What the network gives is an argument: a test is described by the results of
  dialling and of the HTTP requests and by the clock. The tests of one health check run in
  parallel; each ends with a step that is atomic for one proxy, and the order of these steps is
  an argument. The time is in nanoseconds.
\<close>

section \<open>Delay histories\<close>

record DelayHistory =
  dh_Time :: int
  dh_Delay :: u16

type_synonym 'a Queue = "'a list"

definition Put :: "'a list \<Rightarrow> 'a Queue \<Rightarrow> 'a Queue" where
  "Put items q = (if length items = 0 then q else q @ items)"

text \<open>On an empty queue the zero value of the type is returned.\<close>

definition Pop :: "'a \<Rightarrow> 'a Queue \<Rightarrow> 'a \<times> 'a Queue" where
  "Pop zero q = (case q of [] \<Rightarrow> (zero, q) | x # xs \<Rightarrow> (x, xs))"

definition Last :: "'a \<Rightarrow> 'a Queue \<Rightarrow> 'a" where
  "Last zero q = (if length q = 0 then zero else q ! (length q - 1))"

definition Len :: "'a Queue \<Rightarrow> int" where
  "Len q = int (length q)"

definition zero_history :: DelayHistory where
  "zero_history = \<lparr>dh_Time = 0, dh_Delay = 0\<rparr>"

section \<open>Proxies\<close>

record internalProxyState =
  st_alive :: bool
  st_history :: "DelayHistory Queue"

record AdapterProxy =
  px_name :: string
  px_type :: AdapterType
  px_udp :: bool
  px_alive :: bool
  px_history :: "DelayHistory Queue"
  px_extra :: "string \<Rightarrow> internalProxyState option"

definition defaultHistoriesNum :: int where
  "defaultHistoriesNum = 10"

definition NewProxy :: "string \<Rightarrow> AdapterType \<Rightarrow> bool \<Rightarrow> AdapterProxy" where
  "NewProxy name tp udp = \<lparr>px_name = name, px_type = tp, px_udp = udp, px_alive = True,
     px_history = [], px_extra = (\<lambda>_. None)\<rparr>"

definition AliveForTestUrl :: "string \<Rightarrow> AdapterProxy \<Rightarrow> bool" where
  "AliveForTestUrl url p = (case px_extra p url of Some state \<Rightarrow> st_alive state | None \<Rightarrow> px_alive p)"

definition DelayHistory_all :: "AdapterProxy \<Rightarrow> DelayHistory list" where
  "DelayHistory_all p = px_history p"

definition DelayHistoryForTestUrl :: "string \<Rightarrow> AdapterProxy \<Rightarrow> DelayHistory list" where
  "DelayHistoryForTestUrl url p = (case px_extra p url of Some state \<Rightarrow> st_history state | None \<Rightarrow> [])"

definition ExtraDelayHistories :: "AdapterProxy \<Rightarrow> string \<Rightarrow> (bool \<times> DelayHistory list) option" where
  "ExtraDelayHistories p = (\<lambda>url. map_option (\<lambda>state. (st_alive state, st_history state)) (px_extra p url))"

definition LastDelayForTestUrl :: "string \<Rightarrow> AdapterProxy \<Rightarrow> u16" where
  "LastDelayForTestUrl url p =
     (let maxDelay = 0xffff;
          x = (case px_extra p url of
            Some state \<Rightarrow> (st_alive state, Last zero_history (st_history state))
          | None \<Rightarrow> (False, zero_history))
      in if \<not> fst x \<or> dh_Delay (snd x) = 0 then maxDelay else dh_Delay (snd x))"

section \<open>A test of a proxy\<close>

text \<open>
  What the outside gives: the scheme, host and port of the test URL or a parse error; the errors of
  dialling, of building the request and of the TLS configuration; the status of the first and of
  the second response; and the clock when the test starts, when the second request starts and when
  the test ends.
\<close>

record TestRun =
  run_parse :: "string \<Rightarrow> (string \<times> string \<times> string) result"
  run_dial :: "string option"
  run_request :: "string option"
  run_tls :: "string option"
  run_first :: "int result"
  run_second :: "int result"
  run_start :: int
  run_secondStart :: int
  run_end :: int

definition urlToMetadata :: "(string \<Rightarrow> (string \<times> string \<times> string) result) \<Rightarrow> string \<Rightarrow> Metadata result" where
  "urlToMetadata parse rawURL = (case parse rawURL of
     Inl err \<Rightarrow> Inl err
   | Inr (scheme, hostname, port0) \<Rightarrow>
       (let withPort = (\<lambda>port. case SetRemoteAddress (JoinHostPort hostname port) empty_metadata of
              (Some err, m) \<Rightarrow> Inl err
            | (None, m) \<Rightarrow> Inr m)
        in if port0 \<noteq> [] then withPort port0
           else if scheme = ''https'' then withPort ''443''
           else if scheme = ''http'' then withPort ''80''
           else Inl (rawURL @ '' scheme not Support'')))"

text \<open>The body of \<open>URLTest\<close>: the delay, the error and whether the status was expected.\<close>

definition runTest :: "bool \<Rightarrow> TestRun \<Rightarrow> string \<Rightarrow> 16 IntRanges \<Rightarrow> u16 \<times> string option \<times> bool" where
  "runTest unifiedDelay run url expectedStatus = (case urlToMetadata (run_parse run) url of
     Inl err \<Rightarrow> (0, Some err, False)
   | Inr addr \<Rightarrow>
       (case run_dial run of Some err \<Rightarrow> (0, Some err, False) | None \<Rightarrow>
       (case run_request run of Some err \<Rightarrow> (0, Some err, False) | None \<Rightarrow>
       (case run_tls run of Some err \<Rightarrow> (0, Some err, False) | None \<Rightarrow>
       (case run_first run of Inl err \<Rightarrow> (0, Some err, False) | Inr status1 \<Rightarrow>
         (let x = (if unifiedDelay then
                     (case run_second run of
                        Inr status2 \<Rightarrow> (status2, run_secondStart run)
                      | Inl _ \<Rightarrow> (status1, run_start run))
                   else (status1, run_start run));
              satisfied = Check expectedStatus (word_of_int (fst x));
              t = word_of_int ((run_end run - snd x) div 1000000)
          in (t, None, satisfied)))))))"

definition pushHistory :: "DelayHistory \<Rightarrow> DelayHistory Queue \<Rightarrow> DelayHistory Queue" where
  "pushHistory r q =
     (let q1 = Put [r] q in if Len q1 > defaultHistoriesNum then snd (Pop zero_history q1) else q1)"

text \<open>
  The deferred step that records the result. The code stores into the flags and queues one by one, each safe
  for itself; here they are one step, so that nothing is read between them.
\<close>

definition recordTest :: "int \<Rightarrow> string \<Rightarrow> u16 \<times> string option \<times> bool \<Rightarrow> AdapterProxy \<Rightarrow> AdapterProxy" where
  "recordTest now url res p =
     (let t = fst res; err = fst (snd res); satisfied = snd (snd res);
          alive = (err = None);
          record1 = \<lparr>dh_Time = now, dh_Delay = (if alive then t else 0)\<rparr>;
          p1 = p\<lparr>px_alive := alive, px_history := pushHistory record1 (px_history p)\<rparr>;
          state = (case px_extra p1 url of Some s \<Rightarrow> s | None \<Rightarrow> \<lparr>st_alive = True, st_history = []\<rparr>);
          record2 = (if \<not> satisfied then record1\<lparr>dh_Delay := 0\<rparr> else record1);
          alive2 = (if \<not> satisfied then False else alive);
          state1 = state\<lparr>st_alive := alive2, st_history := pushHistory record2 (st_history state)\<rparr>
      in p1\<lparr>px_extra := (px_extra p1)(url \<mapsto> state1)\<rparr>)"

definition URLTest :: "bool \<Rightarrow> TestRun \<Rightarrow> string \<Rightarrow> 16 IntRanges \<Rightarrow> AdapterProxy
    \<Rightarrow> (u16 \<times> string option) \<times> AdapterProxy" where
  "URLTest unifiedDelay run url expectedStatus p =
     (let res = runTest unifiedDelay run url expectedStatus
      in ((fst res, fst (snd res)), recordTest (run_end run) url res p))"

section \<open>Doing something once in a while\<close>

text \<open>
  \<open>Single\<close> (src/common/singledo/singledo.go): a result is kept for a while. The definition is the
  sequential behaviour, where no other call is under way.
\<close>

record 'a Single =
  sg_wait :: int
  sg_result :: "('a \<times> int) option"

definition NewSingle :: "int \<Rightarrow> 'a Single" where
  "NewSingle wait = \<lparr>sg_wait = wait, sg_result = None\<rparr>"

definition single_Do :: "int \<Rightarrow> ('st \<Rightarrow> ('a \<times> 'st) outcome) \<Rightarrow> 'st \<Rightarrow> 'a Single
    \<Rightarrow> (('a \<times> bool) \<times> 'st \<times> 'a Single) outcome" where
  "single_Do now fn st s =
     (let run = obind (fn st) (\<lambda>x. Ret ((fst x, False), snd x, s\<lparr>sg_result := Some (fst x, now)\<rparr>))
      in case sg_result s of
           Some (v, time) \<Rightarrow> if now - time < sg_wait s then Ret ((v, True), st, s) else run
         | None \<Rightarrow> run)"

definition single_Reset :: "'a Single \<Rightarrow> 'a Single" where
  "single_Reset s = s\<lparr>sg_result := None\<rparr>"

section \<open>Health checks\<close>

type_synonym pref = nat
type_synonym heap = "pref \<Rightarrow> AdapterProxy"

record extraOption =
  eo_expectedStatus :: "16 IntRanges"
  eo_filters :: "string list"

record HealthCheck =
  hc_url :: string
  hc_extra :: "(string \<times> extraOption) list"
  hc_proxies :: "pref list"
  hc_interval :: int
  hc_lazy :: bool
  hc_expectedStatus :: "16 IntRanges"
  hc_lastTouch :: int
  hc_single :: "unit Single"
  hc_timeout :: int

definition second_ns :: int where
  "second_ns = 1000000000"

definition NewHealthCheck :: "pref list \<Rightarrow> string \<Rightarrow> nat \<Rightarrow> nat \<Rightarrow> bool \<Rightarrow> 16 IntRanges \<Rightarrow> HealthCheck" where
  "NewHealthCheck proxies url timeout interval lazy expectedStatus =
     (let expectedStatus1 = (if url = [] then [] else expectedStatus);
          interval1 = (if url = [] then 0 else interval);
          timeout1 = (if timeout = 0 then 5000 else timeout)
      in \<lparr>hc_url = url, hc_extra = [], hc_proxies = proxies, hc_interval = int interval1 * second_ns,
          hc_lazy = lazy, hc_expectedStatus = expectedStatus1, hc_lastTouch = 0,
          hc_single = NewSingle second_ns, hc_timeout = int timeout1 * 1000000\<rparr>)"

definition hc_setProxies :: "pref list \<Rightarrow> HealthCheck \<Rightarrow> HealthCheck" where
  "hc_setProxies proxies hc = hc\<lparr>hc_proxies := proxies\<rparr>"

definition hc_auto :: "HealthCheck \<Rightarrow> bool" where
  "hc_auto hc = (hc_interval hc \<noteq> 0)"

definition hc_touch :: "int \<Rightarrow> HealthCheck \<Rightarrow> HealthCheck" where
  "hc_touch now hc = hc\<lparr>hc_lastTouch := now\<rparr>"

definition splitAndAddFiltersToExtra :: "string \<Rightarrow> extraOption \<Rightarrow> extraOption" where
  "splitAndAddFiltersToExtra filter0 option0 =
     (let f = TrimSpace filter0 in
      if length f \<noteq> 0
      then option0\<lparr>eo_filters := fold (\<lambda>regex fs. let r = TrimSpace regex in
             if length r \<noteq> 0 \<and> r \<notin> set fs then fs @ [r] else fs) (Split f (CHR 0x60)) (eo_filters option0)\<rparr>
      else option0)"

definition registerHealthCheckTask :: "string \<Rightarrow> 16 IntRanges \<Rightarrow> string \<Rightarrow> nat \<Rightarrow> HealthCheck \<Rightarrow> HealthCheck" where
  "registerHealthCheckTask url0 expectedStatus filter0 interval hc =
     (let url = TrimSpace url0 in
      if length url = 0 \<or> url = hc_url hc then hc
      else
        (let hc1 = (if hc_interval hc = 0 then hc\<lparr>hc_interval := int interval * second_ns\<rparr> else hc)
         in case map_of (hc_extra hc1) url of
              Some opt \<Rightarrow>
                (if url \<noteq> hc_url hc1 \<and> length filter0 \<noteq> 0
                 then hc1\<lparr>hc_extra := AList.update url (splitAndAddFiltersToExtra filter0 opt) (hc_extra hc1)\<rparr>
                 else hc1)
            | None \<Rightarrow>
                hc1\<lparr>hc_extra := AList.update url (splitAndAddFiltersToExtra filter0
                      \<lparr>eo_expectedStatus = expectedStatus, eo_filters = []\<rparr>) (hc_extra hc1)\<rparr>))"

text \<open>
  \<open>execute\<close>: the tests one URL asks for. \<open>compile\<close> is the regular expression engine; the filters are
  joined in the order in which Go walks the map, which \<open>iter\<close> gives.
\<close>

type_synonym task = "pref \<times> string \<times> 16 IntRanges"

definition execute :: "(string \<Rightarrow> (string \<Rightarrow> bool) option) \<Rightarrow> (string list \<Rightarrow> string list) \<Rightarrow> heap
    \<Rightarrow> HealthCheck \<Rightarrow> string \<Rightarrow> extraOption \<Rightarrow> task list outcome" where
  "execute compile iter h hc url0 opt =
     (let url = TrimSpace url0 in
      if length url = 0 then Ret []
      else
        (let tasks = (\<lambda>sel. map (\<lambda>p. (p, url, eo_expectedStatus opt)) (filter sel (hc_proxies hc)))
         in if length (eo_filters opt) \<noteq> 0 then
              (case compile (Join (iter (eo_filters opt)) ''|'') of
                 None \<Rightarrow> Panic
               | Some re \<Rightarrow> Ret (tasks (\<lambda>p. re (px_name (h p)))))
            else Ret (tasks (\<lambda>_. True))))"

fun executeAll :: "(string \<Rightarrow> (string \<Rightarrow> bool) option) \<Rightarrow> (string list \<Rightarrow> string list) \<Rightarrow> heap
    \<Rightarrow> HealthCheck \<Rightarrow> (string \<times> extraOption) list \<Rightarrow> task list outcome" where
  "executeAll compile iter h hc [] = Ret []"
| "executeAll compile iter h hc ((url, opt) # rest) =
     obind (execute compile iter h hc url opt) (\<lambda>ts.
       obind (executeAll compile iter h hc rest) (\<lambda>us. Ret (ts @ us)))"

text \<open>One test ends; \<open>runs\<close> gives what the network did for each.\<close>

definition runTask :: "bool \<Rightarrow> (pref \<Rightarrow> string \<Rightarrow> TestRun) \<Rightarrow> task \<Rightarrow> heap \<Rightarrow> heap" where
  "runTask unifiedDelay runs x h =
     (let p = fst x; url = fst (snd x)
      in h(p := snd (URLTest unifiedDelay (runs p url) url (snd (snd x)) (h p))))"

text \<open>\<open>sched\<close> is the order in which the tests end.\<close>

definition hc_check :: "bool \<Rightarrow> (string \<Rightarrow> (string \<Rightarrow> bool) option) \<Rightarrow> (string list \<Rightarrow> string list)
    \<Rightarrow> (task list \<Rightarrow> task list) \<Rightarrow> (pref \<Rightarrow> string \<Rightarrow> TestRun) \<Rightarrow> int \<Rightarrow> heap \<Rightarrow> HealthCheck
    \<Rightarrow> (heap \<times> HealthCheck) outcome" where
  "hc_check unifiedDelay compile iter sched runs now h hc =
     (if length (hc_proxies hc) = 0 then Ret (h, hc)
      else obind (single_Do now (\<lambda>h.
          obind (executeAll compile iter h hc
              ((hc_url hc, \<lparr>eo_expectedStatus = hc_expectedStatus hc, eo_filters = []\<rparr>) # hc_extra hc))
            (\<lambda>ts. Ret ((), fold (runTask unifiedDelay runs) (sched ts) h))) h (hc_single hc))
        (\<lambda>x. Ret (fst (snd x), hc\<lparr>hc_single := snd (snd x)\<rparr>)))"

text \<open>A tick of the loop in \<open>process\<close>.\<close>

definition hc_tick :: "bool \<Rightarrow> (string \<Rightarrow> (string \<Rightarrow> bool) option) \<Rightarrow> (string list \<Rightarrow> string list)
    \<Rightarrow> (task list \<Rightarrow> task list) \<Rightarrow> (pref \<Rightarrow> string \<Rightarrow> TestRun) \<Rightarrow> int \<Rightarrow> heap \<Rightarrow> HealthCheck
    \<Rightarrow> (heap \<times> HealthCheck) outcome" where
  "hc_tick unifiedDelay compile iter sched runs now h hc =
     (let since = now - hc_lastTouch hc
      in if \<not> hc_lazy hc \<or> since < hc_interval hc
         then hc_check unifiedDelay compile iter sched runs now h hc
         else Ret (h, hc))"

section \<open>Providers\<close>

record Provider =
  pd_name :: string
  pd_proxies :: "pref list"
  pd_healthCheck :: HealthCheck
  pd_version :: u32
  pd_compatible :: bool

definition pd_Touch :: "int \<Rightarrow> Provider \<Rightarrow> Provider" where
  "pd_Touch now pd = pd\<lparr>pd_healthCheck := hc_touch now (pd_healthCheck pd)\<rparr>"

definition setProxies :: "pref list \<Rightarrow> Provider \<Rightarrow> Provider" where
  "setProxies proxies pd = pd\<lparr>pd_proxies := proxies, pd_version := pd_version pd + 1,
     pd_healthCheck := hc_setProxies proxies (pd_healthCheck pd)\<rparr>"

definition RegisterHealthCheckTask :: "string \<Rightarrow> 16 IntRanges \<Rightarrow> string \<Rightarrow> nat \<Rightarrow> Provider \<Rightarrow> Provider" where
  "RegisterHealthCheckTask url expectedStatus filter0 interval pd =
     pd\<lparr>pd_healthCheck := registerHealthCheckTask url expectedStatus filter0 interval (pd_healthCheck pd)\<rparr>"

definition NewCompatibleProvider :: "string \<Rightarrow> pref list \<Rightarrow> HealthCheck \<Rightarrow> Provider result" where
  "NewCompatibleProvider name proxies hc =
     (if length proxies = 0 then Inl ''provider need one proxy at least''
      else Inr \<lparr>pd_name = name, pd_proxies = proxies, pd_healthCheck = hc, pd_version = 0,
                pd_compatible = True\<rparr>)"

section \<open>What a history shows\<close>

definition lastN :: "nat \<Rightarrow> 'a list \<Rightarrow> 'a list" where
  "lastN n xs = drop (length xs - n) xs"

lemma lastN_snoc: "lastN (Suc n) (xs @ [x]) = lastN n xs @ [x]"
  by (simp add: lastN_def)

lemma length_lastN [simp]: "length (lastN n xs) = min n (length xs)"
  by (simp add: lastN_def)

lemma pushHistory_lastN: "pushHistory r (lastN 10 xs) = lastN 10 (xs @ [r])"
proof (cases "length xs < 10")
  case True
  then show ?thesis
    by (simp add: pushHistory_def Put_def Len_def defaultHistoriesNum_def lastN_def)
next
  case False
  then have l: "length (lastN 10 xs) = 10" by simp
  have "Suc (length xs - 10) = length xs - 9" using False by simp
  then have e: "tl (lastN 10 xs) = lastN 9 xs" unfolding lastN_def by (metis drop_Suc tl_drop)
  have "pushHistory r (lastN 10 xs) = tl (lastN 10 xs @ [r])"
    using l by (simp add: pushHistory_def Put_def Len_def defaultHistoriesNum_def Pop_def Let_def split: list.split)
  also have "\<dots> = tl (lastN 10 xs) @ [r]" using l by (cases "lastN 10 xs") auto
  also have "\<dots> = lastN 10 (xs @ [r])" using lastN_snoc [of 9 xs r] by (simp add: e)
  finally show ?thesis .
qed

text \<open>A finished test: when it ended, for which URL, and what it gave.\<close>

type_synonym finished_test = "int \<times> string \<times> (u16 \<times> string option \<times> bool)"

definition finishTest :: "finished_test \<Rightarrow> AdapterProxy \<Rightarrow> AdapterProxy" where
  "finishTest x p = recordTest (fst x) (fst (snd x)) (snd (snd x)) p"

text \<open>The test found the proxy working for its URL.\<close>

definition passed :: "finished_test \<Rightarrow> bool" where
  "passed x = (fst (snd (snd (snd x))) = None \<and> snd (snd (snd (snd x))))"

definition url_record :: "finished_test \<Rightarrow> DelayHistory" where
  "url_record x = \<lparr>dh_Time = fst x, dh_Delay = (if passed x then fst (snd (snd x)) else 0)\<rparr>"

definition url_state :: "finished_test list \<Rightarrow> string \<Rightarrow> internalProxyState option" where
  "url_state xs url = (let ys = filter (\<lambda>x. fst (snd x) = url) xs
     in if ys = [] then None else Some \<lparr>st_alive = passed (last ys), st_history = lastN 10 (map url_record ys)\<rparr>)"

lemma recordTest_extra:
  "px_extra (recordTest now url res p) = (px_extra p)(url \<mapsto>
     \<lparr>st_alive = passed (now, url, res),
      st_history = pushHistory (url_record (now, url, res))
        (case px_extra p url of Some s \<Rightarrow> st_history s | None \<Rightarrow> [])\<rparr>)"
  by (cases "px_extra p url")
    (auto simp: recordTest_def Let_def passed_def url_record_def fun_eq_iff)

lemma finishTest_extra:
  "px_extra (finishTest x p) = (px_extra p)(fst (snd x) \<mapsto>
     \<lparr>st_alive = passed x, st_history = pushHistory (url_record x)
        (case px_extra p (fst (snd x)) of Some s \<Rightarrow> st_history s | None \<Rightarrow> [])\<rparr>)"
  by (cases x) (simp add: finishTest_def recordTest_extra)

lemma tests_extra: "px_extra (fold finishTest xs (NewProxy name tp udp)) url = url_state xs url"
proof (induction xs arbitrary: url rule: rev_induct)
  case Nil
  show ?case by (simp add: NewProxy_def url_state_def)
next
  case (snoc x xs)
  let ?ys = "filter (\<lambda>y. fst (snd y) = fst (snd x)) xs"
  have old: "(case url_state xs (fst (snd x)) of Some s \<Rightarrow> st_history s | None \<Rightarrow> []) = lastN 10 (map url_record ?ys)"
    by (simp add: url_state_def Let_def lastN_def)
  show ?case
    using pushHistory_lastN [of "url_record x" "map url_record ?ys"]
    by (simp add: finishTest_extra snoc old) (simp add: url_state_def Let_def)
qed

text \<open>
  C16. What a proxy reports about a test URL depends on the tests for that URL only: the history is
  the last ten results in order, the proxy is alive for the URL exactly when the latest of them
  passed, and its delay is the delay of the latest, or the largest value when that one failed or
  took less than a millisecond.
\<close>

theorem tests_report:
  assumes "p = fold finishTest (xs @ [x] @ zs) (NewProxy name tp udp)" "fst (snd x) = url"
    "filter (\<lambda>z. fst (snd z) = url) zs = []"
  shows "DelayHistoryForTestUrl url p = lastN 10 (map url_record (filter (\<lambda>y. fst (snd y) = url) (xs @ [x])))
    \<and> AliveForTestUrl url p = passed x
    \<and> LastDelayForTestUrl url p =
        (if passed x \<and> fst (snd (snd x)) \<noteq> 0 then fst (snd (snd x)) else 0xffff)"
proof -
  let ?ys = "filter (\<lambda>y. fst (snd y) = url) xs"
  have f: "filter (\<lambda>y. fst (snd y) = url) (xs @ [x] @ zs) = ?ys @ [x]" using assms(2,3) by simp
  have e: "px_extra p url = Some \<lparr>st_alive = passed x, st_history = lastN 10 (map url_record ?ys @ [url_record x])\<rparr>"
    unfolding assms(1) tests_extra url_state_def f by simp
  have l: "Last zero_history (lastN 10 (map url_record ?ys @ [url_record x])) = url_record x"
    using lastN_snoc [of 9 "map url_record ?ys" "url_record x"] by (simp add: Last_def nth_append)
  have d: "dh_Delay (url_record x) = (if passed x then fst (snd (snd x)) else 0)" by (simp add: url_record_def)
  show ?thesis using assms(2)
    by (simp add: DelayHistoryForTestUrl_def AliveForTestUrl_def LastDelayForTestUrl_def e l Let_def d)
qed

theorem tests_report_witness:
  "LastDelayForTestUrl ''http://t'' (fold finishTest
     [(1, ''http://t'', (120, None, True)), (2, ''http://u'', (0, Some ''timeout'', False))] (NewProxy ''a'' AT_Direct True)) = 120"
  using tests_report [of _ "[]" "(1, ''http://t'', (120, None, True))" "[(2, ''http://u'', (0, Some ''timeout'', False))]"
    "''a''" AT_Direct True "''http://t''"]
  by (simp add: passed_def)

lemma URLTest_finish:
  "snd (URLTest u run url exp p) = finishTest (run_end run, url, runTest u run url exp) p"
  by (simp add: URLTest_def finishTest_def Let_def)

section \<open>Parallel tests\<close>

text \<open>
  The state for one URL after a test depends on the state for this URL before, so tests for
  different proxies or URLs can end in any order.
\<close>

definition task_key :: "task \<Rightarrow> pref \<times> string" where
  "task_key x = (fst x, fst (snd x))"

definition task_state :: "bool \<Rightarrow> (pref \<Rightarrow> string \<Rightarrow> TestRun) \<Rightarrow> task
    \<Rightarrow> internalProxyState option \<Rightarrow> internalProxyState option" where
  "task_state u runs x st =
     (let run = runs (fst x) (fst (snd x));
          f = (run_end run, fst (snd x), runTest u run (fst (snd x)) (snd (snd x)))
      in Some \<lparr>st_alive = passed f,
           st_history = pushHistory (url_record f) (case st of Some s \<Rightarrow> st_history s | None \<Rightarrow> [])\<rparr>)"

lemma runTask_extra:
  "px_extra (runTask u runs x h p) url =
    (if task_key x = (p, url) then task_state u runs x (px_extra (h p) url) else px_extra (h p) url)"
  by (auto simp: runTask_def Let_def URLTest_finish finishTest_extra task_key_def task_state_def)

lemma px_name_runTask [simp]: "px_name (runTask u runs x h p) = px_name (h p)"
  by (simp add: runTask_def Let_def URLTest_def recordTest_def)

lemma runTasks_extra:
  assumes "distinct (map task_key ts)"
  shows "px_extra (fold (runTask u runs) ts h p) url =
    (case find (\<lambda>x. task_key x = (p, url)) ts of
       None \<Rightarrow> px_extra (h p) url | Some x \<Rightarrow> task_state u runs x (px_extra (h p) url))"
  using assms
proof (induction ts arbitrary: h)
  case (Cons x ts)
  show ?case
  proof (cases "task_key x = (p, url)")
    case True
    with Cons.prems have "(p, url) \<notin> task_key ` set ts" by (metis distinct.simps(2) list.map(2) set_map)
    then have "find (\<lambda>x. task_key x = (p, url)) ts = None" unfolding find_None_iff by (metis imageI)
    with True Cons show ?thesis by (simp add: runTask_extra)
  next
    case False
    with Cons show ?thesis by (simp add: runTask_extra split: option.split)
  qed
qed simp

lemma find_mset_cong:
  assumes "mset xs = mset ys" "distinct (map f xs)"
  shows "find (\<lambda>x. f x = k) xs = find (\<lambda>x. f x = k) ys"
proof -
  have d: "distinct (map f ys)" using assms by (metis mset_eq_imp_distinct_iff mset_map)
  have s: "set xs = set ys" using assms(1) by (rule mset_eq_setD)
  show ?thesis
  proof (cases "\<exists>x\<in>set xs. f x = k")
    case True
    then obtain x where x: "x \<in> set xs" "f x = k" by blast
    have "find (\<lambda>y. f y = k) zs = Some x" if "distinct (map f zs)" "x \<in> set zs" for zs
      using that x(2) by (induction zs) (auto simp: image_iff)
    then show ?thesis using x s assms(2) d by simp
  next
    case False
    then have "find (\<lambda>x. f x = k) xs = None" "find (\<lambda>x. f x = k) ys = None"
      using s unfolding find_None_iff by blast+
    then show ?thesis by simp
  qed
qed

lemma runTasks_order:
  assumes "distinct (map task_key ts)" "mset ts = mset us"
  shows "px_extra (fold (runTask u runs) ts h p) = px_extra (fold (runTask u runs) us h p)"
proof
  fix url
  have "distinct (map task_key us)" using assms by (metis mset_eq_imp_distinct_iff mset_map)
  with assms find_mset_cong [OF assms(2,1)] show "px_extra (fold (runTask u runs) ts h p) url =
      px_extra (fold (runTask u runs) us h p) url" by (simp add: runTasks_extra)
qed

text \<open>The URLs of a health check stay apart.\<close>

definition hc_wf :: "HealthCheck \<Rightarrow> bool" where
  "hc_wf hc = (TrimSpace (hc_url hc) = hc_url hc \<and> distinct (map fst (hc_extra hc))
     \<and> (\<forall>url\<in>fst ` set (hc_extra hc). TrimSpace url = url \<and> url \<noteq> hc_url hc))"

lemma dropWhile_idem: "dropWhile P (dropWhile P xs) = dropWhile P xs"
  by (induction xs) auto

lemma dropWhile_rev_dropWhile:
  "dropWhile P (rev (dropWhile P (rev (dropWhile P xs)))) = rev (dropWhile P (rev (dropWhile P xs)))"
proof (cases "dropWhile P xs")
  case (Cons y ys)
  then have y: "\<not> P y" by (metis hd_dropWhile list.distinct(1) list.sel(1))
  have "dropWhile P (rev ys @ [y]) = dropWhile P (rev ys) @ [y]" using y by (simp add: dropWhile_append3 dropWhile_append)
  with Cons y show ?thesis by simp
next
  case Nil
  then show ?thesis by (simp only: rev.simps(1) dropWhile.simps(1))
qed

lemma TrimSpace_idem: "TrimSpace (TrimSpace s) = TrimSpace s"
  by (simp add: TrimSpace_def Trim_def Let_def dropWhile_rev_dropWhile dropWhile_idem)

lemma hc_wf_New: "TrimSpace url = url \<Longrightarrow> hc_wf (NewHealthCheck ps url timeout interval lazy es)"
  by (simp add: hc_wf_def NewHealthCheck_def Let_def)

lemma hc_wf_register: "hc_wf hc \<Longrightarrow> hc_wf (registerHealthCheckTask url es filter0 interval hc)"
proof -
  assume wf: "hc_wf hc"
  have keys: "fst ` set (AList.update k v al) = insert k (fst ` set al)" for k and v :: extraOption and al
    using dom_update [of k v al] unfolding dom_map_of_conv_image_fst by simp
  have "distinct (map fst (AList.update k v (hc_extra hc)))" for k v
    using wf by (intro distinct_update) (simp add: hc_wf_def)
  then have upd: "hc_wf (hc\<lparr>hc_interval := i, hc_extra := AList.update k v (hc_extra hc)\<rparr>)"
    "hc_wf (hc\<lparr>hc_interval := i\<rparr>)" "hc_wf (hc\<lparr>hc_extra := AList.update k v (hc_extra hc)\<rparr>)"
    if "TrimSpace k = k" "k \<noteq> hc_url hc" for i k v
    using wf that unfolding hc_wf_def by (simp_all add: keys)
  show ?thesis
  proof (cases "map_of (hc_extra hc) (TrimSpace url)")
    case None
    then show ?thesis using wf upd [of "TrimSpace url"]
      by (simp add: registerHealthCheckTask_def Let_def TrimSpace_idem)
  next
    case (Some opt)
    then show ?thesis using wf upd [of "TrimSpace url"]
      by (simp add: registerHealthCheckTask_def Let_def TrimSpace_idem)
  qed
qed


lemma execute_keys:
  assumes "execute compile iter h hc url opt = Ret ts"
  shows "\<exists>sel. map task_key ts = map (\<lambda>p. (p, TrimSpace url)) (filter sel (hc_proxies hc))"
proof -
  have k: "map task_key (map (\<lambda>p. (p, TrimSpace url, es)) xs) = map (\<lambda>p. (p, TrimSpace url)) xs" for xs es
    by (simp add: task_key_def)
  consider "ts = []" | sel where "ts = map (\<lambda>p. (p, TrimSpace url, eo_expectedStatus opt)) (filter sel (hc_proxies hc))"
    using assms by (fastforce simp: execute_def Let_def simp flip: filter_True split: if_splits option.splits)
  then show ?thesis
  proof cases
    case 1
    then have "map task_key ts = map (\<lambda>p. (p, TrimSpace url)) (filter (\<lambda>_. False) (hc_proxies hc))" by simp
    then show ?thesis by blast
  next
    case 2
    with k show ?thesis by blast
  qed
qed

lemma executeAll_keys:
  assumes "executeAll compile iter h hc us = Ret ts" "distinct (hc_proxies hc)" "distinct (map (TrimSpace \<circ> fst) us)"
  shows "distinct (map task_key ts) \<and> set (map task_key ts) \<subseteq> UNIV \<times> (TrimSpace \<circ> fst) ` set us"
  using assms
proof (induction us arbitrary: ts)
  case (Cons x us)
  obtain url opt where x: "x = (url, opt)" by fastforce
  with Cons.prems(1) obtain t1 t2 where t: "execute compile iter h hc url opt = Ret t1"
    "executeAll compile iter h hc us = Ret t2" "ts = t1 @ t2" by (auto simp: obind_eq_Ret)
  from Cons.IH [OF t(2) Cons.prems(2)] Cons.prems(3) have
    i: "distinct (map task_key t2)" "set (map task_key t2) \<subseteq> UNIV \<times> (TrimSpace \<circ> fst) ` set us" by simp_all
  from execute_keys [OF t(1)] obtain sel where
    k: "map task_key t1 = map (\<lambda>p. (p, TrimSpace url)) (filter sel (hc_proxies hc))" by blast
  have k1: "distinct (map task_key t1)" "set (map task_key t1) \<subseteq> UNIV \<times> {TrimSpace url}"
    unfolding k using Cons.prems(2) by (auto simp: distinct_map inj_on_def)
  have "TrimSpace url \<notin> (TrimSpace \<circ> fst) ` set us" using Cons.prems(3) x by auto
  then have "set (map task_key t1) \<inter> set (map task_key t2) = {}" using k1(2) i(2) by blast
  moreover have "set (map task_key t1) \<union> set (map task_key t2) \<subseteq> UNIV \<times> (TrimSpace \<circ> fst) ` set (x # us)"
    using k1(2) i(2) x by force
  ultimately show ?case using k1(1) i(1) unfolding t(3) map_append set_append distinct_append by blast
qed simp


definition example_run :: TestRun where
  "example_run = \<lparr>run_parse = (\<lambda>_. Inr (''http'', ''t.example'', [])), run_dial = None, run_request = None,
     run_tls = None, run_first = Inr 204, run_second = Inr 204, run_start = 0, run_secondStart = 0,
     run_end = 35000000\<rparr>"

definition example_heap :: heap where
  "example_heap = (\<lambda>p. NewProxy (if p = 0 then ''a'' else ''b'') AT_Direct True)"


end
