(* ===== verification/ProxyGroups.thy ===== *)
theory ProxyGroups
  imports ProxyHealth LruCache JumpHash
begin

text \<open>
  The proxy groups (src/adapter/outboundgroup): the list of proxies a group sees through its
  providers, the four kinds of groups with their choice of a proxy, the counting of failed dials,
  and the construction of a group from its options.

  Proxies and providers are shared between groups, so both live in heaps of a \<open>World\<close>. The
  regular expression engine, the public suffix list and the seeded string hash are packages
  outside the repository and are arguments. A filter is kept as the predicate the engine compiled.
\<close>

section \<open>The base of a group\<close>

type_synonym dref = nat

record World =
  w_proxies :: heap
  w_providers :: "dref \<Rightarrow> Provider"

record GroupBase =
  gb_name :: string
  gb_type :: AdapterType
  filterRegs :: "(string \<Rightarrow> bool) list"
  excludeFilterRegs :: "(string \<Rightarrow> bool) list"
  excludeTypeArray :: "string list option"
  providers :: "dref list"
  failedTimes :: int
  failedTime :: int
  failedTesting :: bool
  testTimeout :: int
  maxFailedTimes :: int
  emptyFallback :: pref
  providerVersions :: "u32 list"
  providerProxies :: "pref list"

text \<open>\<open>MustCompile\<close> panics when an expression is malformed.\<close>

fun compileAll :: "(string \<Rightarrow> (string \<Rightarrow> bool) option) \<Rightarrow> string list \<Rightarrow> (string \<Rightarrow> bool) list outcome" where
  "compileAll compile [] = Ret []"
| "compileAll compile (s # ss) = (case compile s of
     None \<Rightarrow> Panic
   | Some re \<Rightarrow> obind (compileAll compile ss) (\<lambda>rs. Ret (re # rs)))"

definition compileFilter :: "(string \<Rightarrow> (string \<Rightarrow> bool) option) \<Rightarrow> string \<Rightarrow> (string \<Rightarrow> bool) list outcome" where
  "compileFilter compile s = (if s \<noteq> [] then compileAll compile (Split s (CHR 0x60)) else Ret [])"

record GroupBaseOption =
  gbo_Name :: string
  gbo_Type :: AdapterType
  gbo_Filter :: string
  gbo_ExcludeFilter :: string
  gbo_ExcludeType :: string
  gbo_TestTimeout :: int
  gbo_MaxFailedTimes :: int
  gbo_EmptyFallback :: pref
  gbo_Providers :: "dref list"

definition NewGroupBase :: "(string \<Rightarrow> (string \<Rightarrow> bool) option) \<Rightarrow> GroupBaseOption \<Rightarrow> GroupBase outcome" where
  "NewGroupBase compile opt =
     obind (compileFilter compile (gbo_ExcludeFilter opt)) (\<lambda>excl.
     obind (compileFilter compile (gbo_Filter opt)) (\<lambda>filt.
       Ret \<lparr>gb_name = gbo_Name opt, gb_type = gbo_Type opt, filterRegs = filt, excludeFilterRegs = excl,
            excludeTypeArray = (if gbo_ExcludeType opt \<noteq> [] then Some (Split (gbo_ExcludeType opt) (CHR ''|'')) else None),
            providers = gbo_Providers opt, failedTimes = 0, failedTime = 0, failedTesting = False,
            testTimeout = (if gbo_TestTimeout opt = 0 then 5000 else gbo_TestTimeout opt),
            maxFailedTimes = (if gbo_MaxFailedTimes opt = 0 then 5 else gbo_MaxFailedTimes opt),
            emptyFallback = gbo_EmptyFallback opt, providerVersions = [], providerProxies = []\<rparr>))"

definition touchAll :: "int \<Rightarrow> dref list \<Rightarrow> World \<Rightarrow> World" where
  "touchAll now ds w = w\<lparr>w_providers := (\<lambda>d. if d \<in> set ds then pd_Touch now (w_providers w d) else w_providers w d)\<rparr>"

definition gb_Touch :: "int \<Rightarrow> GroupBase \<Rightarrow> World \<Rightarrow> World" where
  "gb_Touch now gb w = touchAll now (providers gb) w"

section \<open>The proxies of a group\<close>

text \<open>
  One filter over a list of proxies: the names seen so far and the proxies taken so far. A proxy
  whose name was already taken is left out.
\<close>

fun takeMatching :: "heap \<Rightarrow> (string \<Rightarrow> bool) \<Rightarrow> pref list \<Rightarrow> string list \<times> pref list \<Rightarrow> string list \<times> pref list" where
  "takeMatching h re [] acc = acc"
| "takeMatching h re (p # ps) acc =
     (let name = px_name (h p)
      in takeMatching h re ps
           (if re name \<and> name \<notin> set (fst acc) then (name # fst acc, snd acc @ [p]) else acc))"

definition takeByFilters :: "heap \<Rightarrow> (string \<Rightarrow> bool) list \<Rightarrow> pref list \<Rightarrow> string list \<times> pref list \<Rightarrow> string list \<times> pref list" where
  "takeByFilters h regs ps acc = fold (\<lambda>re. takeMatching h re ps) regs acc"

text \<open>What a provider offers: its proxies and whether it is a compatible one.\<close>

type_synonym offer = "pref list \<times> bool"

definition offers :: "World \<Rightarrow> GroupBase \<Rightarrow> offer list" where
  "offers w gb = map (\<lambda>d. (pd_proxies (w_providers w d), pd_compatible (w_providers w d))) (providers gb)"

definition collectProxies :: "heap \<Rightarrow> (string \<Rightarrow> bool) list \<Rightarrow> offer list \<Rightarrow> pref list" where
  "collectProxies h regs os =
     (if length regs = 0 then concat (map fst os)
      else concat (map (\<lambda>x. if snd x then fst x else snd (takeByFilters h regs (fst x) ([], []))) os))"

definition reorderProxies :: "heap \<Rightarrow> (string \<Rightarrow> bool) list \<Rightarrow> offer list \<Rightarrow> pref list \<Rightarrow> pref list" where
  "reorderProxies h regs os proxies =
     (if length os > 1 \<and> length regs > 1
      then snd (takeMatching h (\<lambda>_. True) proxies (takeByFilters h regs proxies ([], [])))
      else proxies)"

definition excludeByName :: "heap \<Rightarrow> (string \<Rightarrow> bool) list \<Rightarrow> pref list \<Rightarrow> pref list" where
  "excludeByName h regs proxies =
     (if length regs > 0 then filter (\<lambda>p. \<not> list_ex (\<lambda>re. re (px_name (h p))) regs) proxies else proxies)"

definition excludeByType :: "heap \<Rightarrow> string list option \<Rightarrow> pref list \<Rightarrow> pref list" where
  "excludeByType h types proxies = (case types of
     None \<Rightarrow> proxies
   | Some ts \<Rightarrow> filter (\<lambda>p. \<not> list_ex (EqualFold (AdapterTypeString (px_type (h p)))) ts) proxies)"

definition freshProxies :: "heap \<Rightarrow> GroupBase \<Rightarrow> offer list \<Rightarrow> pref list" where
  "freshProxies h gb os =
     excludeByType h (excludeTypeArray gb) (excludeByName h (excludeFilterRegs gb)
       (reorderProxies h (filterRegs gb) os (collectProxies h (filterRegs gb) os)))"

definition GetProxies :: "bool \<Rightarrow> int \<Rightarrow> World \<Rightarrow> GroupBase \<Rightarrow> pref list \<times> World \<times> GroupBase" where
  "GetProxies touch now w gb =
     (let w1 = (if touch then touchAll now (providers gb) w else w);
          versions = map (\<lambda>d. pd_version (w_providers w1 d)) (providers gb)
      in if versions = providerVersions gb then (providerProxies gb, w1, gb)
         else
           (let proxies = freshProxies (w_proxies w1) gb (offers w1 gb)
            in if length proxies = 0 then ([emptyFallback gb], w1, gb)
               else (proxies, w1, gb\<lparr>providerVersions := versions, providerProxies := proxies\<rparr>)))"

section \<open>Failed dials\<close>

definition ignoredTypes :: "AdapterType list" where
  "ignoredTypes = [AT_Direct, AT_Compatible, AT_Reject, AT_Pass, AT_RejectDrop]"

text \<open>
  The goroutine of \<open>onDialFailed\<close> as one step; the result says whether the health check \<open>fn\<close> is
  called. \<open>notSupport\<close> tells whether the error wraps \<open>ErrNotSupport\<close>. Times are in nanoseconds.
\<close>

definition onDialFailed :: "int \<Rightarrow> AdapterType \<Rightarrow> bool \<Rightarrow> string \<Rightarrow> GroupBase \<Rightarrow> bool \<times> GroupBase" where
  "onDialFailed now adapterType notSupport err gb =
     (if adapterType \<in> set ignoredTypes then (False, gb)
      else if notSupport then (False, gb)
      else if Contains err ''connection refused'' then (True, gb)
      else
        (let gb1 = gb\<lparr>failedTimes := failedTimes gb + 1\<rparr>
         in if failedTimes gb1 = 1 then (False, gb1\<lparr>failedTime := now\<rparr>)
            else if now - failedTime gb1 > testTimeout gb1 * 1000000 then (False, gb1\<lparr>failedTimes := 0\<rparr>)
            else (failedTimes gb1 \<ge> maxFailedTimes gb1, gb1)))"

text \<open>
  The health check of a group: whether the providers are asked, and the group when it has ended. The checks
  of the providers, which run between the two writes of \<open>failedTesting\<close>, are \<open>hc_check\<close> of ProxyHealth and
  are not run by this definition.
\<close>

definition gb_healthCheck :: "GroupBase \<Rightarrow> bool \<times> GroupBase" where
  "gb_healthCheck gb = (if failedTesting gb then (False, gb)
     else (True, gb\<lparr>failedTesting := False, failedTimes := 0\<rparr>))"

definition onDialSuccess :: "GroupBase \<Rightarrow> GroupBase" where
  "onDialSuccess gb = (if \<not> failedTesting gb then gb\<lparr>failedTimes := 0\<rparr> else gb)"

section \<open>Selector\<close>

record Selector =
  s_base :: GroupBase
  s_disableUDP :: bool
  s_selected :: string
  s_testUrl :: string

definition named :: "heap \<Rightarrow> string \<Rightarrow> pref list \<Rightarrow> pref option" where
  "named h name proxies = find (\<lambda>p. px_name (h p) = name) proxies"

definition selectedProxy :: "bool \<Rightarrow> int \<Rightarrow> World \<Rightarrow> Selector \<Rightarrow> (pref \<times> World \<times> Selector) outcome" where
  "selectedProxy touch now w s =
     (let x = GetProxies touch now w (s_base s); w1 = fst (snd x); s1 = s\<lparr>s_base := snd (snd x)\<rparr>
      in case named (w_proxies w1) (s_selected s) (fst x) of
           Some p \<Rightarrow> Ret (p, w1, s1)
         | None \<Rightarrow> obind (at (fst x) 0) (\<lambda>p. Ret (p, w1, s1)))"

definition selector_Set :: "int \<Rightarrow> World \<Rightarrow> string \<Rightarrow> Selector \<Rightarrow> string option \<times> World \<times> Selector" where
  "selector_Set now w name s =
     (let x = GetProxies False now w (s_base s); w1 = fst (snd x); s1 = s\<lparr>s_base := snd (snd x)\<rparr>
      in case named (w_proxies w1) name (fst x) of
           Some p \<Rightarrow> (None, w1, s1\<lparr>s_selected := name\<rparr>)
         | None \<Rightarrow> (Some ''proxy not exist'', w1, s1))"

definition selector_ForceSet :: "string \<Rightarrow> Selector \<Rightarrow> Selector" where
  "selector_ForceSet name s = s\<lparr>s_selected := name\<rparr>"

definition selector_Now :: "int \<Rightarrow> World \<Rightarrow> Selector \<Rightarrow> (string \<times> World \<times> Selector) outcome" where
  "selector_Now now w s = obind (selectedProxy False now w s) (\<lambda>x.
     Ret (px_name (w_proxies (fst (snd x)) (fst x)), snd x))"

definition selector_SupportUDP :: "int \<Rightarrow> World \<Rightarrow> Selector \<Rightarrow> (bool \<times> World \<times> Selector) outcome" where
  "selector_SupportUDP now w s =
     (if s_disableUDP s then Ret (False, w, s)
      else obind (selectedProxy False now w s) (\<lambda>x. Ret (px_udp (w_proxies (fst (snd x)) (fst x)), snd x)))"

definition selector_Unwrap :: "bool \<Rightarrow> int \<Rightarrow> World \<Rightarrow> Selector \<Rightarrow> (pref \<times> World \<times> Selector) outcome" where
  "selector_Unwrap touch now w s = selectedProxy touch now w s"

section \<open>Fallback\<close>

record Fallback =
  f_base :: GroupBase
  f_disableUDP :: bool
  f_testUrl :: string
  f_selected :: string
  f_expectedStatus :: string

text \<open>The loop over the proxies; it may clear the selection on its way.\<close>

fun fallbackLoop :: "heap \<Rightarrow> string \<Rightarrow> pref list \<Rightarrow> string \<Rightarrow> pref option \<times> string" where
  "fallbackLoop h url [] selected = (None, selected)"
| "fallbackLoop h url (p # ps) selected =
     (if length selected = 0 then
        (if AliveForTestUrl url (h p) then (Some p, selected) else fallbackLoop h url ps selected)
      else if px_name (h p) = selected then
        (if AliveForTestUrl url (h p) then (Some p, selected) else fallbackLoop h url ps [])
      else fallbackLoop h url ps selected)"

definition findAliveProxy :: "bool \<Rightarrow> int \<Rightarrow> World \<Rightarrow> Fallback \<Rightarrow> (pref \<times> World \<times> Fallback) outcome" where
  "findAliveProxy touch now w f =
     (let x = GetProxies touch now w (f_base f); w1 = fst (snd x);
          y = fallbackLoop (w_proxies w1) (f_testUrl f) (fst x) (f_selected f);
          f1 = f\<lparr>f_base := snd (snd x), f_selected := snd y\<rparr>
      in case fst y of
           Some p \<Rightarrow> Ret (p, w1, f1)
         | None \<Rightarrow> obind (at (fst x) 0) (\<lambda>p. Ret (p, w1, f1)))"

text \<open>\<open>run\<close> is what the network does for the test of a proxy that is set while it is not alive.\<close>

definition fallback_Set :: "bool \<Rightarrow> TestRun \<Rightarrow> int \<Rightarrow> World \<Rightarrow> string \<Rightarrow> Fallback \<Rightarrow> string option \<times> World \<times> Fallback" where
  "fallback_Set unifiedDelay run now w name f =
     (let x = GetProxies False now w (f_base f); w1 = fst (snd x); f1 = f\<lparr>f_base := snd (snd x)\<rparr>
      in case named (w_proxies w1) name (fst x) of
           None \<Rightarrow> (Some ''proxy not exist'', w1, f1)
         | Some p \<Rightarrow>
             (let f2 = f1\<lparr>f_selected := name\<rparr>; h = w_proxies w1
              in if \<not> AliveForTestUrl (f_testUrl f) (h p) then
                   (let es = (case NewUnsignedRanges (f_expectedStatus f) of Inl _ \<Rightarrow> [] | Inr rs \<Rightarrow> rs)
                    in (None, w1\<lparr>w_proxies := h(p := snd (URLTest unifiedDelay run (f_testUrl f) es (h p)))\<rparr>, f2))
                 else (None, w1, f2)))"

definition fallback_ForceSet :: "string \<Rightarrow> Fallback \<Rightarrow> Fallback" where
  "fallback_ForceSet name f = f\<lparr>f_selected := name\<rparr>"

definition fallback_Now :: "int \<Rightarrow> World \<Rightarrow> Fallback \<Rightarrow> (string \<times> World \<times> Fallback) outcome" where
  "fallback_Now now w f = obind (findAliveProxy False now w f) (\<lambda>x.
     Ret (px_name (w_proxies (fst (snd x)) (fst x)), snd x))"

definition fallback_SupportUDP :: "int \<Rightarrow> World \<Rightarrow> Fallback \<Rightarrow> (bool \<times> World \<times> Fallback) outcome" where
  "fallback_SupportUDP now w f =
     (if f_disableUDP f then Ret (False, w, f)
      else obind (findAliveProxy False now w f) (\<lambda>x. Ret (px_udp (w_proxies (fst (snd x)) (fst x)), snd x)))"

definition fallback_Unwrap :: "bool \<Rightarrow> int \<Rightarrow> World \<Rightarrow> Fallback \<Rightarrow> (pref \<times> World \<times> Fallback) outcome" where
  "fallback_Unwrap touch now w f = findAliveProxy touch now w f"

section \<open>URL test\<close>

record URLTestGroup =
  u_base :: GroupBase
  u_selected :: string
  u_testUrl :: string
  u_expectedStatus :: string
  u_tolerance :: u16
  u_disableUDP :: bool
  u_fastNode :: "pref option"
  u_fastSingle :: "pref Single"

text \<open>The loop over all proxies but the first: the fastest so far with its delay, and whether the
  node in use was met.\<close>

fun fastLoop :: "heap \<Rightarrow> string \<Rightarrow> pref option \<Rightarrow> pref list \<Rightarrow> pref \<times> u16 \<times> bool \<Rightarrow> pref \<times> u16 \<times> bool" where
  "fastLoop h url fastNode [] acc = acc"
| "fastLoop h url fastNode (p # ps) (fast, minDelay, fastNotExist) =
     (let fastNotExist1 = (case fastNode of
            None \<Rightarrow> fastNotExist
          | Some n \<Rightarrow> if px_name (h p) = px_name (h n) then False else fastNotExist)
      in if \<not> AliveForTestUrl url (h p) then fastLoop h url fastNode ps (fast, minDelay, fastNotExist1)
         else
           (let delay = LastDelayForTestUrl url (h p)
            in if delay < minDelay then fastLoop h url fastNode ps (p, delay, fastNotExist1)
               else fastLoop h url fastNode ps (fast, minDelay, fastNotExist1)))"

text \<open>The choice itself: the chosen proxy becomes the node in use. The sum of delay and tolerance is
  a \<open>uint16\<close>.\<close>

definition chooseFast :: "heap \<Rightarrow> string \<Rightarrow> string \<Rightarrow> u16 \<Rightarrow> pref option \<Rightarrow> pref list \<Rightarrow> pref outcome" where
  "chooseFast h url selected tolerance fastNode proxies =
     (let fixed = (if selected \<noteq> []
            then find (\<lambda>p. AliveForTestUrl url (h p) \<and> px_name (h p) = selected) proxies else None)
      in case fixed of
           Some p \<Rightarrow> Ret p
         | None \<Rightarrow> obind (at proxies 0) (\<lambda>p0.
             let r = fastLoop h url fastNode (tl proxies) (p0, LastDelayForTestUrl url (h p0), True);
                 fast = fst r; fastNotExist = snd (snd r)
             in case fastNode of
                  None \<Rightarrow> Ret fast
                | Some n \<Rightarrow>
                    if fastNotExist \<or> \<not> AliveForTestUrl url (h n)
                       \<or> LastDelayForTestUrl url (h n) > LastDelayForTestUrl url (h fast) + tolerance
                    then Ret fast else Ret n))"

definition fast :: "bool \<Rightarrow> int \<Rightarrow> World \<Rightarrow> URLTestGroup \<Rightarrow> (pref \<times> World \<times> URLTestGroup) outcome" where
  "fast touch now w u =
     obind (single_Do now (\<lambda>(w, u).
         let x = GetProxies touch now w (u_base u); w1 = fst (snd x); u1 = u\<lparr>u_base := snd (snd x)\<rparr>
         in obind (chooseFast (w_proxies w1) (u_testUrl u) (u_selected u) (u_tolerance u) (u_fastNode u) (fst x))
              (\<lambda>p. Ret (p, w1, u1\<lparr>u_fastNode := Some p\<rparr>))) (w, u) (u_fastSingle u))
       (\<lambda>r. let elm = fst (fst r); shared = snd (fst r); w1 = fst (fst (snd r));
                u1 = (snd (fst (snd r)))\<lparr>u_fastSingle := snd (snd r)\<rparr>
            in Ret (elm, if shared \<and> touch then gb_Touch now (u_base u1) w1 else w1, u1))"

definition urltest_ForceSet :: "string \<Rightarrow> URLTestGroup \<Rightarrow> URLTestGroup" where
  "urltest_ForceSet name u = u\<lparr>u_selected := name, u_fastSingle := single_Reset (u_fastSingle u)\<rparr>"

definition urltest_Set :: "int \<Rightarrow> World \<Rightarrow> string \<Rightarrow> URLTestGroup \<Rightarrow> string option \<times> World \<times> URLTestGroup" where
  "urltest_Set now w name u =
     (let x = GetProxies False now w (u_base u); w1 = fst (snd x); u1 = u\<lparr>u_base := snd (snd x)\<rparr>
      in case named (w_proxies w1) name (fst x) of
           None \<Rightarrow> (Some ''proxy not exist'', w1, u1)
         | Some p \<Rightarrow> (None, w1, urltest_ForceSet name u1))"

definition urltest_Now :: "int \<Rightarrow> World \<Rightarrow> URLTestGroup \<Rightarrow> (string \<times> World \<times> URLTestGroup) outcome" where
  "urltest_Now now w u = obind (fast False now w u) (\<lambda>x.
     Ret (px_name (w_proxies (fst (snd x)) (fst x)), snd x))"

definition urltest_SupportUDP :: "int \<Rightarrow> World \<Rightarrow> URLTestGroup \<Rightarrow> (bool \<times> World \<times> URLTestGroup) outcome" where
  "urltest_SupportUDP now w u =
     (if u_disableUDP u then Ret (False, w, u)
      else obind (fast False now w u) (\<lambda>x. Ret (px_udp (w_proxies (fst (snd x)) (fst x)), snd x)))"

definition urltest_Unwrap :: "bool \<Rightarrow> int \<Rightarrow> World \<Rightarrow> URLTestGroup \<Rightarrow> (pref \<times> World \<times> URLTestGroup) outcome" where
  "urltest_Unwrap touch now w u = fast touch now w u"

definition urltest_healthCheck :: "URLTestGroup \<Rightarrow> bool \<times> URLTestGroup" where
  "urltest_healthCheck u =
     (let u1 = u\<lparr>u_fastSingle := single_Reset (u_fastSingle u)\<rparr>; r = gb_healthCheck (u_base u1)
      in (fst r, u1\<lparr>u_base := snd r, u_fastSingle := single_Reset (u_fastSingle u1)\<rparr>))"

section \<open>Load balancing\<close>

text \<open>
  What the strategies take from outside: the effective top-level domain of a host name, the seeded
  hash of strings, and the nanosecond clock, read once for every attempt of a call.
\<close>

record BalanceEnv =
  be_etld :: "string \<Rightarrow> string result"
  be_hash :: "string \<Rightarrow> u64"
  be_nanos :: "nat \<Rightarrow> u64"

text \<open>\<open>net.ParseIP\<close> accepts what \<open>ParseAddr\<close> accepts, without a zone.\<close>

definition isIP :: "string \<Rightarrow> bool" where
  "isIP s = (case ParseAddr s of Some (Addr6 w zone) \<Rightarrow> zone = [] | Some _ \<Rightarrow> True | None \<Rightarrow> False)"

definition getKey :: "BalanceEnv \<Rightarrow> Metadata option \<Rightarrow> string" where
  "getKey be metadata = (case metadata of
     None \<Rightarrow> []
   | Some m \<Rightarrow>
       (let byIP = (if \<not> IsValid (md_DstIP m) then [] else AddrString (md_DstIP m))
        in if md_Host m \<noteq> [] then
             (if isIP (md_Host m) then md_Host m
              else case be_etld be (md_Host m) of Inr etld \<Rightarrow> etld | Inl _ \<Rightarrow> byIP)
           else byIP))"

definition getKeyWithSrcAndDst :: "BalanceEnv \<Rightarrow> Metadata option \<Rightarrow> string" where
  "getKeyWithSrcAndDst be metadata =
     (let dst = getKey be metadata;
          src = (case metadata of None \<Rightarrow> [] | Some m \<Rightarrow> AddrString (md_SrcIP m))
      in src @ dst)"

text \<open>Round robin: the loop over the offsets \<open>i\<close> from the position \<open>idx\<close>.\<close>

fun rrLoop :: "(pref \<Rightarrow> bool) \<Rightarrow> pref list \<Rightarrow> nat \<Rightarrow> nat list \<Rightarrow> pref option \<times> nat" where
  "rrLoop alive proxies idx [] = (None, length proxies)"
| "rrLoop alive proxies idx (i # is) =
     (let p = proxies ! ((idx + i) mod length proxies)
      in if alive p then (Some p, i + 1) else rrLoop alive proxies idx is)"

definition strategyRoundRobin :: "(pref \<Rightarrow> bool) \<Rightarrow> pref list \<Rightarrow> bool \<Rightarrow> nat \<Rightarrow> (pref \<times> nat) outcome" where
  "strategyRoundRobin alive proxies touch idx =
     (let r = rrLoop alive proxies idx [0..<length proxies];
          idx1 = (if touch then (idx + snd r) mod length proxies else idx)
      in case fst r of
           Some p \<Rightarrow> Ret (p, idx1)
         | None \<Rightarrow> obind (at proxies 0) (\<lambda>p. Ret (p, idx1)))"

text \<open>The number of proxies as an \<open>int32\<close>.\<close>

definition int32_len :: "'a list \<Rightarrow> int" where
  "int32_len xs = sint (word_of_nat (length xs) :: u32)"

fun hashLoop :: "(pref \<Rightarrow> bool) \<Rightarrow> pref list \<Rightarrow> nat \<Rightarrow> u64 \<Rightarrow> pref option outcome" where
  "hashLoop alive proxies 0 key = Ret None"
| "hashLoop alive proxies (Suc n) key =
     obind (at proxies (jumpHash key (int32_len proxies))) (\<lambda>p.
       if alive p then Ret (Some p) else hashLoop alive proxies n (key + 1))"

definition strategyConsistentHashing :: "BalanceEnv \<Rightarrow> (pref \<Rightarrow> bool) \<Rightarrow> pref list \<Rightarrow> Metadata option \<Rightarrow> pref outcome" where
  "strategyConsistentHashing be alive proxies metadata =
     obind (hashLoop alive proxies 5 (be_hash be (getKey be metadata))) (\<lambda>r. case r of
       Some p \<Rightarrow> Ret p
     | None \<Rightarrow> (case find alive proxies of Some p \<Rightarrow> Ret p | None \<Rightarrow> at proxies 0))"

text \<open>Sticky sessions: the attempts, with the position that was found alive.\<close>

fun stickyLoop :: "(pref \<Rightarrow> bool) \<Rightarrow> (nat \<Rightarrow> u64) \<Rightarrow> pref list \<Rightarrow> u64 \<Rightarrow> nat \<Rightarrow> nat \<Rightarrow> int
    \<Rightarrow> (pref \<times> int) option outcome" where
  "stickyLoop alive nanos proxies key 0 i nowIdx = Ret None"
| "stickyLoop alive nanos proxies key (Suc n) i nowIdx =
     obind (at proxies nowIdx) (\<lambda>p.
       if alive p then Ret (Some (p, nowIdx))
       else stickyLoop alive nanos proxies key n (i + 1) (jumpHash (key + nanos i) (int32_len proxies)))"

definition newStickyCache :: "(u64, int) LruCache" where
  "newStickyCache = NewCache [WithAge 600, WithSize 1000]"

definition strategyStickySessions :: "BalanceEnv \<Rightarrow> (pref \<Rightarrow> bool) \<Rightarrow> pref list \<Rightarrow> Metadata option \<Rightarrow> int
    \<Rightarrow> (u64, int) LruCache \<Rightarrow> (pref \<times> (u64, int) LruCache) outcome" where
  "strategyStickySessions be alive proxies metadata now cache =
     (let key = be_hash be (getKeyWithSrcAndDst be metadata);
          g = Get now key cache; has = (fst g \<noteq> None);
          fresh = jumpHash (key + be_nanos be 0) (int32_len proxies);
          idx = (case fst g of
            None \<Rightarrow> fresh | Some i \<Rightarrow> if i \<ge> int (length proxies) then fresh else i)
      in obind (stickyLoop alive (be_nanos be) proxies key 4 1 idx) (\<lambda>r. case r of
           Some (p, nowIdx) \<Rightarrow>
             Ret (p, if \<not> has \<or> nowIdx \<noteq> idx then Set now key nowIdx (snd g) else snd g)
         | None \<Rightarrow> obind (at proxies 0) (\<lambda>p. Ret (p, Set now key 0 (snd g)))))"

datatype lbState = RoundRobin nat | ConsistentHashing | StickySessions "(u64, int) LruCache"

record LoadBalance =
  lb_base :: GroupBase
  lb_disableUDP :: bool
  lb_strategy :: lbState
  lb_testUrl :: string
  lb_expectedStatus :: string

definition newStrategy :: "string \<Rightarrow> lbState result" where
  "newStrategy name =
     (if name = [] \<or> name = ''consistent-hashing'' then Inr ConsistentHashing
      else if name = ''round-robin'' then Inr (RoundRobin 0)
      else if name = ''sticky-sessions'' then Inr (StickySessions newStickyCache)
      else Inl (''unsupported strategy: '' @ name))"

definition runStrategy :: "BalanceEnv \<Rightarrow> (pref \<Rightarrow> bool) \<Rightarrow> pref list \<Rightarrow> Metadata option \<Rightarrow> bool \<Rightarrow> int
    \<Rightarrow> lbState \<Rightarrow> (pref \<times> lbState) outcome" where
  "runStrategy be alive proxies metadata touch now st = (case st of
     RoundRobin idx \<Rightarrow> obind (strategyRoundRobin alive proxies touch idx) (\<lambda>x. Ret (fst x, RoundRobin (snd x)))
   | ConsistentHashing \<Rightarrow> obind (strategyConsistentHashing be alive proxies metadata) (\<lambda>p. Ret (p, ConsistentHashing))
   | StickySessions c \<Rightarrow> obind (strategyStickySessions be alive proxies metadata now c)
       (\<lambda>x. Ret (fst x, StickySessions (snd x))))"

text \<open>The clock is in nanoseconds, the cache of the sticky sessions counts seconds.\<close>

definition balance_Unwrap :: "BalanceEnv \<Rightarrow> Metadata option \<Rightarrow> bool \<Rightarrow> int \<Rightarrow> World \<Rightarrow> LoadBalance
    \<Rightarrow> (pref \<times> World \<times> LoadBalance) outcome" where
  "balance_Unwrap be metadata touch now w lb =
     (let x = GetProxies touch now w (lb_base lb); w1 = fst (snd x)
      in obind (runStrategy be (\<lambda>p. AliveForTestUrl (lb_testUrl lb) (w_proxies w1 p)) (fst x) metadata touch
            (now div second_ns) (lb_strategy lb))
          (\<lambda>r. Ret (fst r, w1, lb\<lparr>lb_base := snd (snd x), lb_strategy := snd r\<rparr>)))"

definition balance_SupportUDP :: "LoadBalance \<Rightarrow> bool" where
  "balance_SupportUDP lb = (\<not> lb_disableUDP lb)"

section \<open>Groups from their options\<close>

record GroupCommonOption =
  go_Name :: string
  go_Type :: string
  go_Proxies :: "string list"
  go_Use :: "string list"
  go_URL :: string
  go_Interval :: int
  go_TestTimeout :: int
  go_MaxFailedTimes :: int
  go_EmptyFallback :: string
  go_Lazy :: bool
  go_DisableUDP :: bool
  go_Filter :: string
  go_ExcludeFilter :: string
  go_ExcludeType :: string
  go_ExpectedStatus :: string
  go_IncludeAll :: bool
  go_IncludeAllProxies :: bool
  go_IncludeAllProviders :: bool

datatype Group = GSelector Selector | GFallback Fallback | GURLTest URLTestGroup | GLoadBalance LoadBalance

definition baseOption :: "AdapterType \<Rightarrow> GroupCommonOption \<Rightarrow> pref \<Rightarrow> dref list \<Rightarrow> GroupBaseOption" where
  "baseOption tp option0 fb ds =
     \<lparr>gbo_Name = go_Name option0, gbo_Type = tp, gbo_Filter = go_Filter option0,
      gbo_ExcludeFilter = go_ExcludeFilter option0, gbo_ExcludeType = go_ExcludeType option0,
      gbo_TestTimeout = go_TestTimeout option0, gbo_MaxFailedTimes = go_MaxFailedTimes option0,
      gbo_EmptyFallback = fb, gbo_Providers = ds\<rparr>"

type_synonym compiler = "string \<Rightarrow> (string \<Rightarrow> bool) option"

definition NewSelector :: "compiler \<Rightarrow> GroupCommonOption \<Rightarrow> string \<Rightarrow> pref \<Rightarrow> dref list \<Rightarrow> Selector outcome" where
  "NewSelector compile option0 defaultSelected fb ds =
     obind (NewGroupBase compile (baseOption AT_Selector option0 fb ds)) (\<lambda>gb.
       Ret \<lparr>s_base = gb, s_disableUDP = go_DisableUDP option0, s_selected = defaultSelected,
            s_testUrl = go_URL option0\<rparr>)"

definition NewFallback :: "compiler \<Rightarrow> GroupCommonOption \<Rightarrow> pref \<Rightarrow> dref list \<Rightarrow> Fallback outcome" where
  "NewFallback compile option0 fb ds =
     obind (NewGroupBase compile (baseOption AT_Fallback option0 fb ds)) (\<lambda>gb.
       Ret \<lparr>f_base = gb, f_disableUDP = go_DisableUDP option0, f_testUrl = go_URL option0,
            f_selected = [], f_expectedStatus = go_ExpectedStatus option0\<rparr>)"

definition NewURLTest :: "compiler \<Rightarrow> GroupCommonOption \<Rightarrow> u16 \<Rightarrow> pref \<Rightarrow> dref list \<Rightarrow> URLTestGroup outcome" where
  "NewURLTest compile option0 tolerance fb ds =
     obind (NewGroupBase compile (baseOption AT_URLTest option0 fb ds)) (\<lambda>gb.
       Ret \<lparr>u_base = gb, u_selected = [], u_testUrl = go_URL option0,
            u_expectedStatus = go_ExpectedStatus option0, u_tolerance = tolerance,
            u_disableUDP = go_DisableUDP option0, u_fastNode = None,
            u_fastSingle = NewSingle (10 * second_ns)\<rparr>)"

definition NewLoadBalance :: "compiler \<Rightarrow> GroupCommonOption \<Rightarrow> string \<Rightarrow> pref \<Rightarrow> dref list \<Rightarrow> LoadBalance result outcome" where
  "NewLoadBalance compile option0 strategy fb ds = (case newStrategy strategy of
     Inl err \<Rightarrow> Ret (Inl err)
   | Inr st \<Rightarrow>
       obind (NewGroupBase compile (baseOption AT_LoadBalance option0 fb ds)) (\<lambda>gb.
         Ret (Inr \<lparr>lb_base = gb, lb_disableUDP = go_DisableUDP option0, lb_strategy = st,
              lb_testUrl = go_URL option0, lb_expectedStatus = go_ExpectedStatus option0\<rparr>)))"

fun getProxies :: "(string \<Rightarrow> pref option) \<Rightarrow> string list \<Rightarrow> pref list result" where
  "getProxies mapping [] = Inr []"
| "getProxies mapping (name # ns) = (case mapping name of
     None \<Rightarrow> Inl (name @ '' not found'')
   | Some p \<Rightarrow> (case getProxies mapping ns of Inl e \<Rightarrow> Inl e | Inr ps \<Rightarrow> Inr (p # ps)))"

fun getProviders :: "(dref \<Rightarrow> Provider) \<Rightarrow> (string \<Rightarrow> dref option) \<Rightarrow> string list \<Rightarrow> dref list result" where
  "getProviders heap0 mapping [] = Inr []"
| "getProviders heap0 mapping (name # ns) = (case mapping name of
     None \<Rightarrow> Inl (name @ '' not found'')
   | Some d \<Rightarrow>
       (if pd_compatible (heap0 d) then Inl (''proxy group '' @ name @ '' can't contains in use'')
        else (case getProviders heap0 mapping ns of Inl e \<Rightarrow> Inl e | Inr ds \<Rightarrow> Inr (d # ds))))"

definition addTestUrlToProviders :: "dref list \<Rightarrow> string \<Rightarrow> 16 IntRanges \<Rightarrow> string \<Rightarrow> nat \<Rightarrow> World \<Rightarrow> World" where
  "addTestUrlToProviders ds url expectedStatus filter0 interval w =
     (if length ds = 0 \<or> length url = 0 then w
      else w\<lparr>w_providers := fold (\<lambda>d hp. hp(d := RegisterHealthCheckTask url expectedStatus filter0 interval (hp d)))
             ds (w_providers w)\<rparr>)"

definition DefaultTestURL :: string where
  "DefaultTestURL = ''https://www.gstatic.com/generate_204''"

text \<open>Conversion of an \<open>int\<close> to a \<open>uint\<close>.\<close>

definition to_uint :: "int \<Rightarrow> nat" where
  "to_uint i = nat (i mod 2 ^ 64)"

text \<open>
  What parsing takes and leaves: the heaps, the table of the providers, and the address the next
  provider gets. The options of the group and of its kind come from the decoder.
\<close>

record ParseState =
  ps_world :: World
  ps_providersMap :: "string \<Rightarrow> dref option"
  ps_next :: dref

record ParseInput =
  pi_option :: "GroupCommonOption result"
  pi_tolerance :: "u16 result"
  pi_selected :: "string result"
  pi_fallback :: "unit result"
  pi_strategy :: "string result"
  pi_proxyMap :: "string \<Rightarrow> pref option"
  pi_isGroup :: "pref \<Rightarrow> bool"
  pi_AllProxies :: "string list"
  pi_AllProviders :: "string list"

text \<open>The inclusion of all proxies and providers.\<close>

definition includeAll :: "compiler \<Rightarrow> string list \<Rightarrow> string list \<Rightarrow> GroupCommonOption \<Rightarrow> GroupCommonOption outcome" where
  "includeAll compile allProxies allProviders o0 =
     (let o1 = (if go_IncludeAll o0 then o0\<lparr>go_IncludeAllProviders := True, go_IncludeAllProxies := True\<rparr> else o0);
          o2 = (if go_IncludeAllProviders o1 then o1\<lparr>go_Use := allProviders\<rparr> else o1)
      in if go_IncludeAllProxies o2 then
           obind (if go_Filter o2 \<noteq> []
              then obind (compileFilter compile (go_Filter o2)) (\<lambda>regs.
                Ret (concat (map (\<lambda>p. concat (map (\<lambda>re. if re p then [p] else []) regs)) allProxies)))
              else Ret allProxies) (\<lambda>more.
             let o3 = o2\<lparr>go_Proxies := go_Proxies o2 @ more\<rparr>
             in Ret (if length (go_Proxies o3) = 0 \<and> length (go_Use o3) = 0
                     then o3\<lparr>go_Proxies := [go_EmptyFallback o3]\<rparr> else o3))
         else Ret o2)"

text \<open>The providers named in \<open>use\<close>, and the test URL.\<close>

definition useProviders :: "16 IntRanges \<Rightarrow> GroupCommonOption \<Rightarrow> ParseState
    \<Rightarrow> (GroupCommonOption \<times> dref list \<times> ParseState) result" where
  "useProviders expectedStatus o0 ps =
     (if length (go_Use o0) \<noteq> 0 then
        (case getProviders (w_providers (ps_world ps)) (ps_providersMap ps) (go_Use o0) of
           Inl e \<Rightarrow> Inl (go_Name o0 @ '': '' @ e)
         | Inr ds \<Rightarrow>
             (if go_URL o0 = [] then
                (let urls = filter (\<lambda>u. u \<noteq> []) (map (\<lambda>d. hc_url (pd_healthCheck (w_providers (ps_world ps) d))) ds)
                 in Inr (o0\<lparr>go_URL := (case urls of [] \<Rightarrow> DefaultTestURL | u # us \<Rightarrow> u)\<rparr>, ds, ps))
              else Inr (o0, ds, ps\<lparr>ps_world := addTestUrlToProviders ds (go_URL o0) expectedStatus
                     (go_Filter o0) (to_uint (go_Interval o0)) (ps_world ps)\<rparr>)))
      else Inr (o0, [], ps))"

text \<open>The proxies named in \<open>proxies\<close> become a provider of the group's own.\<close>

definition ownProvider :: "(string \<Rightarrow> pref option) \<Rightarrow> 16 IntRanges \<Rightarrow> GroupCommonOption \<Rightarrow> dref list \<Rightarrow> ParseState
    \<Rightarrow> (GroupCommonOption \<times> dref list \<times> ParseState) result" where
  "ownProvider proxyMap expectedStatus o0 ds ps =
     (if length (go_Proxies o0) \<noteq> 0 then
        (case getProxies proxyMap (go_Proxies o0) of
           Inl e \<Rightarrow> Inl (go_Name o0 @ '': '' @ e)
         | Inr proxies \<Rightarrow>
             (if ps_providersMap ps (go_Name o0) \<noteq> None then Inl (go_Name o0 @ '': duplicate provider name'')
              else
                (let o1 = (if go_URL o0 = [] then o0\<lparr>go_URL := DefaultTestURL\<rparr> else o0);
                     o2 = (if go_Type o1 \<noteq> ''select'' \<and> go_Type o1 \<noteq> ''relay'' \<and> go_Interval o1 = 0
                           then o1\<lparr>go_Interval := 300\<rparr> else o1);
                     hc = NewHealthCheck proxies (go_URL o2) (to_uint (go_TestTimeout o2))
                            (to_uint (go_Interval o2)) (go_Lazy o2) expectedStatus
                 in case NewCompatibleProvider (go_Name o2) proxies hc of
                      Inl e \<Rightarrow> Inl (go_Name o2 @ '': '' @ e)
                    | Inr pd \<Rightarrow>
                        (let d = ps_next ps
                         in Inr (o2, d # ds,
                              ps\<lparr>ps_world := (ps_world ps)\<lparr>w_providers := (w_providers (ps_world ps))(d := pd)\<rparr>,
                                 ps_providersMap := (ps_providersMap ps)(go_Name o2 \<mapsto> d),
                                 ps_next := d + 1\<rparr>)))))
      else Inr (o0, ds, ps))"

definition newGroup :: "compiler \<Rightarrow> ParseInput \<Rightarrow> GroupCommonOption \<Rightarrow> pref \<Rightarrow> dref list \<Rightarrow> Group result outcome" where
  "newGroup compile pin o0 fb ds =
     (if go_Type o0 = ''url-test'' then
        (case pi_tolerance pin of Inl e \<Rightarrow> Ret (Inl e)
         | Inr t \<Rightarrow> obind (NewURLTest compile o0 t fb ds) (\<lambda>u. Ret (Inr (GURLTest u))))
      else if go_Type o0 = ''select'' then
        (case pi_selected pin of Inl e \<Rightarrow> Ret (Inl e)
         | Inr s \<Rightarrow> obind (NewSelector compile o0 s fb ds) (\<lambda>u. Ret (Inr (GSelector u))))
      else if go_Type o0 = ''fallback'' then
        (case pi_fallback pin of Inl e \<Rightarrow> Ret (Inl e)
         | Inr _ \<Rightarrow> obind (NewFallback compile o0 fb ds) (\<lambda>u. Ret (Inr (GFallback u))))
      else if go_Type o0 = ''load-balance'' then
        (case pi_strategy pin of Inl e \<Rightarrow> Ret (Inl e)
         | Inr s \<Rightarrow> obind (NewLoadBalance compile o0 s fb ds) (\<lambda>r.
             Ret (case r of Inl e \<Rightarrow> Inl e | Inr u \<Rightarrow> Inr (GLoadBalance u))))
      else if go_Type o0 = ''relay'' then Ret (Inl (''unsupported type: The group ['' @ go_Name o0
             @ ''] with relay type was removed, please using dialer-proxy instead''))
      else Ret (Inl (''unsupported type: '' @ go_Type o0)))"

definition ParseProxyGroup :: "compiler \<Rightarrow> ParseInput \<Rightarrow> ParseState \<Rightarrow> (Group result \<times> ParseState) outcome" where
  "ParseProxyGroup compile pin ps = (case pi_option pin of
     Inl _ \<Rightarrow> Ret (Inl ''format error'', ps)
   | Inr o0 \<Rightarrow>
       (if go_Type o0 = [] \<or> go_Name o0 = [] then Ret (Inl ''format error'', ps)
        else
          (let o1 = (if go_EmptyFallback o0 = [] then o0\<lparr>go_EmptyFallback := ''COMPATIBLE''\<rparr> else o0);
               notFound = Inl (go_Name o1 @ '': empty fallback proxy '' @ go_EmptyFallback o1 @ '' not found'')
           in case pi_proxyMap pin (go_EmptyFallback o1) of
                None \<Rightarrow> Ret (notFound, ps)
              | Some fb \<Rightarrow>
                  (if pi_isGroup pin fb then Ret (notFound, ps)
                   else obind (includeAll compile (pi_AllProxies pin) (pi_AllProviders pin) o1) (\<lambda>o2.
                     if length (go_Proxies o2) = 0 \<and> length (go_Use o2) = 0
                     then Ret (Inl (go_Name o2 @ '': use or proxies missing''), ps)
                     else case NewUnsignedRanges (go_ExpectedStatus o2) of
                       Inl e \<Rightarrow> Ret (Inl (go_Name o2 @ '': '' @ e), ps)
                     | Inr expectedStatus \<Rightarrow>
                         (let status = TrimSpace (go_ExpectedStatus o2);
                              o3 = o2\<lparr>go_ExpectedStatus := (if status = [] then ''*'' else status)\<rparr>
                          in case useProviders expectedStatus o3 ps of
                               Inl e \<Rightarrow> Ret (Inl e, ps)
                             | Inr (o4, ds, ps1) \<Rightarrow>
                                 (case ownProvider (pi_proxyMap pin) expectedStatus o4 ds ps1 of
                                    Inl e \<Rightarrow> Ret (Inl e, ps1)
                                  | Inr (o5, ds1, ps2) \<Rightarrow>
                                      obind (newGroup compile pin o5 fb ds1) (\<lambda>g. Ret (g, ps2)))))))))"

section \<open>A group always has a proxy\<close>

text \<open>A group has a provider, and what it remembers of them is not empty.\<close>

definition gb_inv :: "GroupBase \<Rightarrow> bool" where
  "gb_inv gb = (providers gb \<noteq> [] \<and> (providerVersions gb = [] \<or> providerProxies gb \<noteq> []))"

lemma GetProxies_nonempty:
  assumes "gb_inv gb"
  shows "fst (GetProxies touch now w gb) \<noteq> []" "gb_inv (snd (snd (GetProxies touch now w gb)))"
  using assms by (auto simp: GetProxies_def gb_inv_def Let_def)

lemma GetProxies_keeps:
  "w_proxies (fst (snd (GetProxies touch now w gb))) = w_proxies w"
  "emptyFallback (snd (snd (GetProxies touch now w gb))) = emptyFallback gb"
  "providers (snd (snd (GetProxies touch now w gb))) = providers gb"
  by (simp_all add: GetProxies_def Let_def touchAll_def)

section \<open>Strategies\<close>

text \<open>What the load balancer asks of a strategy: from a list that is not empty it picks a member.\<close>

locale balance_strategy =
  fixes run :: "(pref \<Rightarrow> bool) \<Rightarrow> pref list \<Rightarrow> 's \<Rightarrow> (pref \<times> 's) outcome"
    and sinv :: "'s \<Rightarrow> bool"
  assumes picks: "sinv s \<Longrightarrow> proxies \<noteq> [] \<Longrightarrow>
    \<exists>p s'. run alive proxies s = Ret (p, s') \<and> p \<in> set proxies \<and> sinv s'"
begin

lemma picks_member:
  "sinv s \<Longrightarrow> proxies \<noteq> [] \<Longrightarrow> run alive proxies s = Ret (p, s') \<Longrightarrow> p \<in> set proxies \<and> sinv s'"
  using picks [of s proxies alive] by auto

end

text \<open>Some strategies also find a proxy that is alive when there is one.\<close>

locale alive_strategy = balance_strategy +
  assumes picks_alive: "sinv s \<Longrightarrow> run alive proxies s = Ret (p, s') \<Longrightarrow> q \<in> set proxies \<Longrightarrow> alive q \<Longrightarrow> alive p"
begin

lemma dead_only_if_all_dead:
  assumes "sinv s" "proxies \<noteq> []"
  shows "\<exists>p s'. run alive proxies s = Ret (p, s') \<and> (alive p \<or> (\<forall>q\<in>set proxies. \<not> alive q))"
  using picks [OF assms, of alive] picks_alive [OF assms(1)] by blast

end

lemma rrLoop_found:
  "rrLoop alive proxies idx is = (Some p, i) \<Longrightarrow> proxies \<noteq> [] \<Longrightarrow> p \<in> set proxies \<and> alive p"
  by (induction "is") (auto simp: Let_def split: if_splits)

lemma rrLoop_None:
  "rrLoop alive proxies idx is = (None, i) \<Longrightarrow> k \<in> set is \<Longrightarrow> \<not> alive (proxies ! ((idx + k) mod length proxies))"
  by (induction "is") (auto simp: Let_def split: if_splits)

lemma rrLoop_all:
  assumes "rrLoop alive proxies idx [0..<length proxies] = (None, i)" "q \<in> set proxies"
  shows "\<not> alive q"
proof -
  from assms(2) obtain j where j: "j < length proxies" "proxies ! j = q" by (auto simp: in_set_conv_nth)
  define n where "n = length proxies"
  define k where "k = (j + (n - idx mod n)) mod n"
  have n: "0 < n" "j < n" using j by (auto simp: n_def)
  have "(idx + k) mod n = (idx mod n + (j + (n - idx mod n))) mod n" unfolding k_def by (simp add: mod_simps)
  also have "idx mod n + (j + (n - idx mod n)) = j + n" using n mod_less_divisor [of n idx] by linarith
  also have "(j + n) mod n = j" using n by simp
  finally have "(idx + k) mod n = j" .
  moreover have "k < n" using n by (simp add: k_def)
  ultimately show ?thesis using rrLoop_None [OF assms(1), of k] j by (simp add: n_def)
qed

interpretation rr: alive_strategy "\<lambda>alive proxies. strategyRoundRobin alive proxies touch" "\<lambda>_. True" for touch
proof unfold_locales
  fix s proxies alive assume ne: "proxies \<noteq> ([] :: pref list)"
  show "\<exists>p s'. strategyRoundRobin alive proxies touch s = Ret (p, s') \<and> p \<in> set proxies \<and> True"
  proof (cases "rrLoop alive proxies s [0..<length proxies]")
    case (Pair r i)
    with ne rrLoop_found [of alive proxies s "[0..<length proxies]"] show ?thesis
      by (cases r) (auto simp: strategyRoundRobin_def Let_def at_0)
  qed
next
  fix s proxies alive p s' q
  assume run: "strategyRoundRobin alive proxies touch s = Ret (p, s')" and q: "q \<in> set proxies" "alive q"
  then have ne: "proxies \<noteq> []" by auto
  show "alive p"
  proof (cases "rrLoop alive proxies s [0..<length proxies]")
    case (Pair r i)
    with run ne q rrLoop_found [of alive proxies s "[0..<length proxies]"] rrLoop_all [of alive proxies s] show ?thesis
      by (cases r) (auto simp: strategyRoundRobin_def Let_def at_0)
  qed
qed


lemma int32_len_bounds: "int32_len xs \<le> int (length xs)" "int32_len xs < 2 ^ 31"
proof -
  let ?w = "word_of_nat (length xs) :: u32"
  have "sint ?w \<le> uint ?w" using uint_ge_0 [of ?w]
    by (simp only: sint_uint signed_take_bit_int_less_eq_self_iff) (rule order_trans [rotated], assumption, simp)
  also have "uint ?w \<le> int (length xs)" by (simp add: unsigned_of_nat take_bit_eq_mod zmod_int zmod_le_nonneg_dividend)
  finally show "int32_len xs \<le> int (length xs)" by (simp add: int32_len_def)
  show "int32_len xs < 2 ^ 31" using sint_lt [of ?w] by (simp add: int32_len_def)
qed

lemma jumpHash_index:
  assumes "proxies \<noteq> []"
  shows "0 \<le> jumpHash key (int32_len proxies)" "jumpHash key (int32_len proxies) < int (length proxies)"
proof -
  show "0 \<le> jumpHash key (int32_len proxies)" by (rule jumpHash_range)
  show "jumpHash key (int32_len proxies) < int (length proxies)"
    using jumpHash_range(2,3) [of "int32_len proxies" key] int32_len_bounds [of proxies] assms
    by (cases "0 < int32_len proxies") auto
qed

lemma hashLoop_picks:
  assumes "proxies \<noteq> []"
  shows "\<exists>r. hashLoop alive proxies n key = Ret r \<and> (\<forall>p. r = Some p \<longrightarrow> p \<in> set proxies \<and> alive p)"
proof (induction n arbitrary: key)
  case (Suc n)
  then show ?case using at_Ret [OF jumpHash_index [OF assms], of key] by auto
qed simp

lemma find_alive: "find P xs = Some p \<Longrightarrow> p \<in> set xs \<and> P p"
  by (auto simp: find_Some_iff)

lemma consistentHashing_picks:
  assumes "proxies \<noteq> []"
  shows "\<exists>p. strategyConsistentHashing be alive proxies m = Ret p \<and> p \<in> set proxies
    \<and> ((\<exists>q\<in>set proxies. alive q) \<longrightarrow> alive p)"
proof -
  from hashLoop_picks [OF assms, of alive 5 "be_hash be (getKey be m)"] obtain r where
    r: "hashLoop alive proxies 5 (be_hash be (getKey be m)) = Ret r"
    "\<And>p. r = Some p \<Longrightarrow> p \<in> set proxies \<and> alive p" by blast
  show ?thesis
  proof (cases r)
    case (Some p)
    with r show ?thesis by (simp add: strategyConsistentHashing_def)
  next
    case None
    show ?thesis
    proof (cases "find alive proxies")
      case None2: None
      then have "\<not> (\<exists>q\<in>set proxies. alive q)" by (auto simp: find_None_iff)
      with None None2 r assms show ?thesis by (simp add: strategyConsistentHashing_def at_0)
    next
      case (Some p)
      with None r find_alive [OF Some] show ?thesis by (simp add: strategyConsistentHashing_def)
    qed
  qed
qed

interpretation ch: alive_strategy
  "\<lambda>alive proxies st. obind (strategyConsistentHashing be alive proxies m) (\<lambda>p. Ret (p, st))" "\<lambda>_. True" for be m
proof unfold_locales
  fix s proxies alive assume "proxies \<noteq> ([] :: pref list)"
  from consistentHashing_picks [OF this, of be alive m]
  show "\<exists>p s'. obind (strategyConsistentHashing be alive proxies m) (\<lambda>p. Ret (p, s)) = Ret (p, s') \<and> p \<in> set proxies \<and> True"
    by auto
next
  fix s s' proxies alive p q
  assume "obind (strategyConsistentHashing be alive proxies m) (\<lambda>p. Ret (p, s)) = Ret (p, s')" "q \<in> set proxies" "alive q"
  with consistentHashing_picks [of proxies be alive m] show "alive p" by fastforce
qed

text \<open>The positions the sticky sessions remember are not negative.\<close>

definition sticky_inv :: "(u64, int) LruCache \<Rightarrow> bool" where
  "sticky_inv c = (\<forall>e\<in>set (lru c). 0 \<le> e_value e)"

lemma stickyLoop_picks:
  assumes "proxies \<noteq> []" "0 \<le> i" "i < int (length proxies)"
  shows "\<exists>r. stickyLoop alive nanos proxies key n k i = Ret r
    \<and> (\<forall>p j. r = Some (p, j) \<longrightarrow> p \<in> set proxies \<and> alive p \<and> 0 \<le> j \<and> p = proxies ! nat j \<and> j < int (length proxies))"
  using assms(2,3)
proof (induction n arbitrary: k i)
  case (Suc n)
  show ?case
  proof (cases "alive (proxies ! nat i)")
    case True
    with Suc.prems at_Ret [OF Suc.prems] show ?thesis by auto
  next
    case False
    with Suc.IH [OF jumpHash_index [OF assms(1)], of "k + 1" "key + nanos k"] at_Ret [OF Suc.prems] show ?thesis by auto
  qed
qed simp


text \<open>What is in a cache after an operation was in it before or was just put there.\<close>

lemma deleteOldest_loop_subset: "set (lru (deleteOldest_loop now c)) \<subseteq> set (lru c)"
proof (induction now c rule: deleteOldest_loop.induct)
  case (1 now c)
  then show ?case by (subst deleteOldest_loop.simps) (auto split: list.splits if_splits)
qed

lemma maybeDeleteOldest_subset: "set (lru (maybeDeleteOldest now c)) \<subseteq> set (lru c)"
  using deleteOldest_loop_subset [of now c] by (simp add: maybeDeleteOldest_def)

lemma Get_values:
  "e_value ` set (lru (snd (Get now key c))) \<subseteq> e_value ` set (lru c)"
  "fst (Get now key c) = Some v \<Longrightarrow> v \<in> e_value ` set (lru c)"
proof -
  have e: "e_value (if b then e\<lparr>e_expires := x\<rparr> else e) = e_value e" for b x and e :: "('a, 'b) lru_entry" by simp
  show "e_value ` set (lru (snd (Get now key c))) \<subseteq> e_value ` set (lru c)"
    using maybeDeleteOldest_subset [of now "deleteElement (the (cached c key)) c"] cached_Some [of c key]
    by (cases "cached c key") (auto simp: Get_def cache_get_def Let_def split: if_splits)
  show "fst (Get now key c) = Some v \<Longrightarrow> v \<in> e_value ` set (lru c)"
    using cached_Some [of c key]
    by (cases "cached c key") (auto simp: Get_def cache_get_def Let_def split: if_splits)
qed

lemma Set_values: "e_value ` set (lru (Set now key v c)) \<subseteq> insert v (e_value ` set (lru c))"
proof -
  let ?e = "\<lparr>e_key = key, e_value = v, e_expires = (if maxAge c > 0 then now + maxAge c else 0)\<rparr>"
  let ?c1 = "c\<lparr>lru := without key (lru c) @ [?e]\<rparr>"
  have "set (lru (Set now key v c)) \<subseteq> set (lru ?c1)"
    using maybeDeleteOldest_subset [of now ?c1] maybeDeleteOldest_subset [of now "deleteElement (hd (lru ?c1)) ?c1"]
    by (auto simp: Set_def cache_set_def setWithExpire_def Let_def split: if_splits)
  then show ?thesis by auto
qed

lemma sticky_picks:
  assumes "sticky_inv c" "proxies \<noteq> []"
  shows "\<exists>p c'. strategyStickySessions be alive proxies m now c = Ret (p, c') \<and> p \<in> set proxies \<and> sticky_inv c'"
proof -
  define key where "key = be_hash be (getKeyWithSrcAndDst be m)"
  define g where "g = Get now key c"
  define idx where "idx = (case fst g of None \<Rightarrow> jumpHash (key + be_nanos be 0) (int32_len proxies)
    | Some i \<Rightarrow> if i \<ge> int (length proxies) then jumpHash (key + be_nanos be 0) (int32_len proxies) else i)"
  have i: "0 \<le> idx" "idx < int (length proxies)"
    using jumpHash_index [OF assms(2)] Get_values(2) [of now key c] assms(1)
    by (auto simp: idx_def g_def sticky_inv_def split: option.split)
  from stickyLoop_picks [OF assms(2) i, of alive "be_nanos be" key 4 1] obtain r where
    r: "stickyLoop alive (be_nanos be) proxies key 4 1 idx = Ret r"
    "\<And>p j. r = Some (p, j) \<Longrightarrow> p \<in> set proxies \<and> 0 \<le> j" by blast
  have g1: "sticky_inv (snd g)" using Get_values(1) [of now key c] assms(1) by (fastforce simp: g_def sticky_inv_def)
  have s: "sticky_inv (Set now key j (snd g))" if "0 \<le> j" for j
    using Set_values [of now key j "snd g"] g1 that by (fastforce simp: sticky_inv_def)
  have run: "strategyStickySessions be alive proxies m now c = obind (Ret r) (\<lambda>r. case r of
           Some (p, nowIdx) \<Rightarrow>
             Ret (p, if \<not> (fst g \<noteq> None) \<or> nowIdx \<noteq> idx then Set now key nowIdx (snd g) else snd g)
         | None \<Rightarrow> obind (at proxies 0) (\<lambda>p. Ret (p, Set now key 0 (snd g))))"
    unfolding r(1) [symmetric] by (simp only: strategyStickySessions_def Let_def key_def g_def idx_def)
  show ?thesis
  proof (cases r)
    case None
    with run s [of 0] assms(2) show ?thesis by (simp add: at_0)
  next
    case (Some x)
    obtain p j where x: "x = (p, j)" by fastforce
    with Some r(2) [of p j] s [of j] g1 run show ?thesis by simp
  qed
qed

interpretation sticky: balance_strategy
  "\<lambda>alive proxies. strategyStickySessions be alive proxies m now" sticky_inv for be m now
  by unfold_locales (rule sticky_picks)

definition lb_inv :: "LoadBalance \<Rightarrow> bool" where
  "lb_inv lb = (gb_inv (lb_base lb) \<and> (case lb_strategy lb of StickySessions c \<Rightarrow> sticky_inv c | _ \<Rightarrow> True))"

lemma runStrategy_picks:
  assumes "case st of StickySessions c \<Rightarrow> sticky_inv c | _ \<Rightarrow> True" "proxies \<noteq> []"
  shows "\<exists>p st'. runStrategy be alive proxies m touch now st = Ret (p, st') \<and> p \<in> set proxies
    \<and> (case st' of StickySessions c \<Rightarrow> sticky_inv c | _ \<Rightarrow> True)"
proof (cases st)
  case (RoundRobin idx)
  with rr.picks [OF _ assms(2), where alive = alive and touch = touch and s = idx] show ?thesis by (auto simp: runStrategy_def)
next
  case ConsistentHashing
  with consistentHashing_picks [OF assms(2), of be alive m] show ?thesis by (auto simp: runStrategy_def)
next
  case (StickySessions c)
  with sticky.picks [OF _ assms(2), where s = c and be = be and m = m and now = now and alive = alive] assms(1) show ?thesis by (auto simp: runStrategy_def)
qed

lemma balance_Unwrap_picks:
  assumes "lb_inv lb"
  shows "\<exists>p w' lb'. balance_Unwrap be m touch now w lb = Ret (p, w', lb') \<and> lb_inv lb'
    \<and> p \<in> set (fst (GetProxies touch now w (lb_base lb)))"
proof -
  have gb: "gb_inv (lb_base lb)" using assms by (simp add: lb_inv_def)
  have "case lb_strategy lb of StickySessions c \<Rightarrow> sticky_inv c | _ \<Rightarrow> True" using assms by (simp add: lb_inv_def)
  from runStrategy_picks [OF this GetProxies_nonempty(1) [OF gb, of touch now w],
      where be = be and m = m and touch = touch and now = "now div second_ns"
        and alive = "\<lambda>p. AliveForTestUrl (lb_testUrl lb) (w_proxies (fst (snd (GetProxies touch now w (lb_base lb)))) p)"]
  show ?thesis using GetProxies_nonempty(2) [OF gb, of touch now w]
    by (auto simp: balance_Unwrap_def Let_def lb_inv_def)
qed

section \<open>Groups that were parsed\<close>

text \<open>The methods of the interface \<open>ProxyGroup\<close>, by the kind of the group.\<close>

definition group_base :: "Group \<Rightarrow> GroupBase" where
  "group_base g = (case g of GSelector s \<Rightarrow> s_base s | GFallback f \<Rightarrow> f_base f
     | GURLTest u \<Rightarrow> u_base u | GLoadBalance lb \<Rightarrow> lb_base lb)"

definition map_base :: "(GroupBase \<Rightarrow> GroupBase) \<Rightarrow> Group \<Rightarrow> Group" where
  "map_base f g = (case g of GSelector s \<Rightarrow> GSelector (s\<lparr>s_base := f (s_base s)\<rparr>)
     | GFallback x \<Rightarrow> GFallback (x\<lparr>f_base := f (f_base x)\<rparr>)
     | GURLTest u \<Rightarrow> GURLTest (u\<lparr>u_base := f (u_base u)\<rparr>)
     | GLoadBalance lb \<Rightarrow> GLoadBalance (lb\<lparr>lb_base := f (lb_base lb)\<rparr>))"

definition group_Unwrap :: "BalanceEnv \<Rightarrow> Metadata option \<Rightarrow> bool \<Rightarrow> int \<Rightarrow> World \<Rightarrow> Group \<Rightarrow> (pref \<times> World \<times> Group) outcome" where
  "group_Unwrap be m touch now w g = (case g of
     GSelector s \<Rightarrow> obind (selector_Unwrap touch now w s) (\<lambda>x. Ret (fst x, fst (snd x), GSelector (snd (snd x))))
   | GFallback f \<Rightarrow> obind (fallback_Unwrap touch now w f) (\<lambda>x. Ret (fst x, fst (snd x), GFallback (snd (snd x))))
   | GURLTest u \<Rightarrow> obind (urltest_Unwrap touch now w u) (\<lambda>x. Ret (fst x, fst (snd x), GURLTest (snd (snd x))))
   | GLoadBalance lb \<Rightarrow> obind (balance_Unwrap be m touch now w lb) (\<lambda>x. Ret (fst x, fst (snd x), GLoadBalance (snd (snd x)))))"

definition group_Set :: "bool \<Rightarrow> TestRun \<Rightarrow> int \<Rightarrow> string \<Rightarrow> World \<Rightarrow> Group \<Rightarrow> World \<times> Group" where
  "group_Set unifiedDelay run now name w g = (case g of
     GSelector s \<Rightarrow> (let x = selector_Set now w name s in (fst (snd x), GSelector (snd (snd x))))
   | GFallback f \<Rightarrow> (let x = fallback_Set unifiedDelay run now w name f in (fst (snd x), GFallback (snd (snd x))))
   | GURLTest u \<Rightarrow> (let x = urltest_Set now w name u in (fst (snd x), GURLTest (snd (snd x))))
   | GLoadBalance lb \<Rightarrow> (w, g))"

definition group_ForceSet :: "string \<Rightarrow> Group \<Rightarrow> Group" where
  "group_ForceSet name g = (case g of
     GSelector s \<Rightarrow> GSelector (selector_ForceSet name s) | GFallback f \<Rightarrow> GFallback (fallback_ForceSet name f)
   | GURLTest u \<Rightarrow> GURLTest (urltest_ForceSet name u) | GLoadBalance lb \<Rightarrow> g)"

text \<open>
  What can happen to a group: a connection asks for a proxy, a proxy is selected, a provider gets
  new proxies, tests change the state of the proxies, a dial fails or succeeds, a health check ends.
\<close>

datatype group_op =
    OUnwrap BalanceEnv "Metadata option" bool int
  | OSet bool TestRun int string
  | OForceSet string
  | OUpdate dref "pref list"
  | OTested heap
  | ODialFailed int AdapterType bool string
  | ODialSuccess
  | OHealthCheck

fun group_step :: "group_op \<Rightarrow> World \<times> Group \<Rightarrow> (World \<times> Group) outcome" where
  "group_step (OUnwrap be m touch now) (w, g) = obind (group_Unwrap be m touch now w g) (\<lambda>x. Ret (snd x))"
| "group_step (OSet u run now name) (w, g) = Ret (group_Set u run now name w g)"
| "group_step (OForceSet name) (w, g) = Ret (w, group_ForceSet name g)"
| "group_step (OUpdate d ps) (w, g) =
     Ret (w\<lparr>w_providers := (w_providers w)(d := setProxies ps (w_providers w d))\<rparr>, g)"
| "group_step (OTested h) (w, g) = Ret (w\<lparr>w_proxies := h\<rparr>, g)"
| "group_step (ODialFailed now tp ns err) (w, g) = Ret (w, map_base (\<lambda>gb. snd (onDialFailed now tp ns err gb)) g)"
| "group_step ODialSuccess (w, g) = Ret (w, map_base onDialSuccess g)"
| "group_step OHealthCheck (w, g) = Ret (w, case g of GURLTest u \<Rightarrow> GURLTest (snd (urltest_healthCheck u))
     | _ \<Rightarrow> map_base (\<lambda>gb. snd (gb_healthCheck gb)) g)"

fun group_run :: "group_op list \<Rightarrow> World \<times> Group \<Rightarrow> (World \<times> Group) outcome" where
  "group_run [] x = Ret x"
| "group_run (op # ops) x = obind (group_step op x) (group_run ops)"

definition group_inv :: "Group \<Rightarrow> bool" where
  "group_inv g = (gb_inv (group_base g)
     \<and> (case g of GLoadBalance lb \<Rightarrow> lb_inv lb | _ \<Rightarrow> True))"

lemma selectedProxy_picks:
  assumes "gb_inv (s_base s)"
  shows "\<exists>p w' s'. selectedProxy touch now w s = Ret (p, w', s') \<and> gb_inv (s_base s')
    \<and> p \<in> set (fst (GetProxies touch now w (s_base s)))"
  using GetProxies_nonempty [OF assms, of touch now w]
  by (auto simp: selectedProxy_def Let_def named_def at_0 dest!: find_alive split: option.split)

lemma fallbackLoop_member: "fallbackLoop h url ps sel = (Some p, sel') \<Longrightarrow> p \<in> set ps \<and> AliveForTestUrl url (h p)"
  by (induction h url ps sel rule: fallbackLoop.induct) (auto split: if_splits)

lemma findAliveProxy_picks:
  assumes "gb_inv (f_base f)"
  shows "\<exists>p w' f'. findAliveProxy touch now w f = Ret (p, w', f') \<and> gb_inv (f_base f')
    \<and> p \<in> set (fst (GetProxies touch now w (f_base f)))"
proof (cases "fallbackLoop (w_proxies (fst (snd (GetProxies touch now w (f_base f))))) (f_testUrl f)
    (fst (GetProxies touch now w (f_base f))) (f_selected f)")
  case (Pair r sel)
  with GetProxies_nonempty [OF assms, of touch now w] fallbackLoop_member [of _ _ _ _ _ sel] show ?thesis
    by (cases r) (auto simp: findAliveProxy_def Let_def at_0)
qed

lemma chooseFast_Ret: "proxies \<noteq> [] \<Longrightarrow> \<exists>p. chooseFast h url sel tol n proxies = Ret p"
  by (auto simp: chooseFast_def Let_def at_0 split: option.split)

lemma fast_picks:
  assumes "gb_inv (u_base u)"
  shows "\<exists>p w' u'. fast touch now w u = Ret (p, w', u') \<and> gb_inv (u_base u')"
proof -
  let ?x = "GetProxies touch now w (u_base u)"
  note ne = GetProxies_nonempty [OF assms, of touch now w]
  from chooseFast_Ret [OF ne(1)] obtain p where
    p: "chooseFast (w_proxies (fst (snd ?x))) (u_testUrl u) (u_selected u) (u_tolerance u) (u_fastNode u) (fst ?x) = Ret p" by blast
  then show ?thesis using ne(2) assms
    by (auto simp: fast_def single_Do_def Let_def gb_Touch_def split: option.split)
qed

lemma onDial_inv:
  "gb_inv gb \<Longrightarrow> gb_inv (snd (onDialFailed now tp ns err gb))" "gb_inv gb \<Longrightarrow> gb_inv (onDialSuccess gb)"
  "gb_inv gb \<Longrightarrow> gb_inv (snd (gb_healthCheck gb))"
  by (auto simp: onDialFailed_def onDialSuccess_def gb_healthCheck_def gb_inv_def Let_def)

lemma map_base_inv: "(\<And>gb. gb_inv gb \<Longrightarrow> gb_inv (f gb)) \<Longrightarrow> group_inv g \<Longrightarrow> group_inv (map_base f g)"
  by (cases g) (simp_all add: group_inv_def map_base_def group_base_def lb_inv_def)

lemma group_Set_inv: "group_inv g \<Longrightarrow> group_inv (snd (group_Set u run now name w g))"
  using GetProxies_nonempty(2) [of "group_base g" False now w]
  by (cases g) (auto simp: group_inv_def group_base_def group_Set_def selector_Set_def fallback_Set_def
      urltest_Set_def urltest_ForceSet_def Let_def split: option.split)

lemma group_Unwrap_inv:
  assumes "group_inv g"
  shows "\<exists>p w' g'. group_Unwrap be m touch now w g = Ret (p, w', g') \<and> group_inv g'"
proof (cases g)
  case (GSelector s)
  with assms selectedProxy_picks [of s touch now w] show ?thesis
    by (auto simp: group_inv_def group_base_def group_Unwrap_def selector_Unwrap_def)
next
  case (GFallback f)
  with assms findAliveProxy_picks [of f touch now w] show ?thesis
    by (auto simp: group_inv_def group_base_def group_Unwrap_def fallback_Unwrap_def)
next
  case (GURLTest u)
  with assms fast_picks [of u touch now w] show ?thesis
    by (auto simp: group_inv_def group_base_def group_Unwrap_def urltest_Unwrap_def)
next
  case (GLoadBalance lb)
  with assms balance_Unwrap_picks [of lb be m touch now w] show ?thesis
    by (auto simp: group_inv_def group_base_def group_Unwrap_def lb_inv_def)
qed

lemma group_step_inv:
  assumes "group_inv (snd x)"
  shows "\<exists>y. group_step op x = Ret y \<and> group_inv (snd y)"
proof -
  obtain w g where x: "x = (w, g)" by fastforce
  show ?thesis
  proof (cases op)
    case (OUnwrap be m touch now)
    with group_Unwrap_inv [of g be m touch now w] assms x show ?thesis by auto
  next
    case OHealthCheck
    with assms x map_base_inv [of "\<lambda>gb. snd (gb_healthCheck gb)" g] onDial_inv(3) show ?thesis
      by (cases g) (auto simp: urltest_healthCheck_def Let_def group_inv_def group_base_def onDial_inv)
  next
    case (OForceSet name)
    with assms x show ?thesis
      by (cases g) (auto simp: group_ForceSet_def group_inv_def group_base_def selector_ForceSet_def
          fallback_ForceSet_def urltest_ForceSet_def)
  qed (use assms x group_Set_inv map_base_inv onDial_inv in auto)
qed

lemma group_run_inv: "group_inv (snd x) \<Longrightarrow> \<exists>y. group_run ops x = Ret y \<and> group_inv (snd y)"
proof (induction ops arbitrary: x)
  case (Cons op ops)
  from group_step_inv [OF Cons.prems, of op] obtain y where "group_step op x = Ret y" "group_inv (snd y)" by blast
  with Cons.IH [of y] show ?case by simp
qed simp


lemma getProviders_length: "getProviders hp mapping ns = Inr ds \<Longrightarrow> length ds = length ns"
  by (induction hp mapping ns arbitrary: ds rule: getProviders.induct) (auto split: option.splits if_splits sum.splits)

lemma useProviders_nonempty:
  assumes "useProviders es o0 ps = Inr (o1, ds, ps')"
  shows "go_Proxies o1 = go_Proxies o0 \<and> (go_Use o0 \<noteq> [] \<longrightarrow> ds \<noteq> [])"
  using assms getProviders_length [of "w_providers (ps_world ps)" "ps_providersMap ps" "go_Use o0"]
  by (fastforce simp: useProviders_def Let_def split: if_splits sum.splits)

lemma ownProvider_nonempty:
  assumes "ownProvider pm es o0 ds ps = Inr (o1, ds', ps')" "go_Proxies o0 \<noteq> [] \<or> ds \<noteq> []"
  shows "ds' \<noteq> []"
  using assms by (auto simp: ownProvider_def Let_def split: if_splits sum.splits)

lemma NewGroupBase_inv:
  "NewGroupBase compile opt = Ret gb \<Longrightarrow> gbo_Providers opt \<noteq> [] \<Longrightarrow> gb_inv gb"
  by (auto simp: NewGroupBase_def obind_eq_Ret gb_inv_def)

lemma newStickyCache_inv: "sticky_inv newStickyCache"
  by (simp add: sticky_inv_def newStickyCache_def NewCache_empty)

lemma case_Inr_iff:
  "(case r of Inl e \<Rightarrow> Inl e | Inr u \<Rightarrow> Inr (f u)) = Inr g \<longleftrightarrow> (\<exists>u. r = Inr u \<and> g = f u)"
  by (cases r) auto

lemma case_error_iff:
  "(case r of Inl e \<Rightarrow> Ret (Inl (k e), a) | Inr y \<Rightarrow> F y) = Ret (Inr g, b) \<longleftrightarrow> (\<exists>y. r = Inr y \<and> F y = Ret (Inr g, b))"
  by (cases r) auto

lemma New_inv:
  assumes "ds \<noteq> []"
  shows "NewSelector compile o0 s fb ds = Ret sel \<Longrightarrow> gb_inv (s_base sel)"
    "NewFallback compile o0 fb ds = Ret f \<Longrightarrow> gb_inv (f_base f)"
    "NewURLTest compile o0 t fb ds = Ret u \<Longrightarrow> gb_inv (u_base u)"
    "NewLoadBalance compile o0 s fb ds = Ret (Inr lb) \<Longrightarrow> lb_inv lb"
proof -
  have gb: "gb_inv gb" if "NewGroupBase compile (baseOption tp o0 fb ds) = Ret gb" for tp gb
    by (rule NewGroupBase_inv [OF that]) (simp add: baseOption_def assms)
  show "NewSelector compile o0 s fb ds = Ret sel \<Longrightarrow> gb_inv (s_base sel)"
    "NewFallback compile o0 fb ds = Ret f \<Longrightarrow> gb_inv (f_base f)"
    "NewURLTest compile o0 t fb ds = Ret u \<Longrightarrow> gb_inv (u_base u)"
    by (auto simp: NewSelector_def NewFallback_def NewURLTest_def obind_eq_Ret dest: gb)
  show "NewLoadBalance compile o0 s fb ds = Ret (Inr lb) \<Longrightarrow> lb_inv lb"
    by (auto simp: NewLoadBalance_def newStrategy_def obind_eq_Ret lb_inv_def newStickyCache_inv
        dest: gb split: if_splits)
qed

lemma newGroup_inv:
  assumes "newGroup compile pin o0 fb ds = Ret (Inr g)" "ds \<noteq> []"
  shows "group_inv g"
proof -
  note n = New_inv [OF assms(2), of compile o0]
  consider t u where "NewURLTest compile o0 t fb ds = Ret u" "g = GURLTest u"
    | s u where "NewSelector compile o0 s fb ds = Ret u" "g = GSelector u"
    | u where "NewFallback compile o0 fb ds = Ret u" "g = GFallback u"
    | s u where "NewLoadBalance compile o0 s fb ds = Ret (Inr u)" "g = GLoadBalance u"
    using assms(1) by (auto simp: newGroup_def obind_eq_Ret case_Inr_iff split: if_splits sum.split_asm)
  then show ?thesis by cases (auto simp: group_inv_def group_base_def lb_inv_def dest: n)
qed

lemma ParseProxyGroup_inv:
  assumes "ParseProxyGroup compile pin ps = Ret (Inr g, ps')"
  shows "group_inv g"
proof -
  from assms obtain o3 es o4 ds ps1 o5 ds1 fb where
    u: "useProviders es o3 ps = Inr (o4, ds, ps1)" "ownProvider (pi_proxyMap pin) es o4 ds ps1 = Inr (o5, ds1, ps')"
    and g: "newGroup compile pin o5 fb ds1 = Ret (Inr g)" and ne: "\<not> (go_Proxies o3 = [] \<and> go_Use o3 = [])"
    by (auto simp: ParseProxyGroup_def Let_def obind_eq_Ret case_error_iff
        split: prod.split_asm if_split_asm option.split_asm)
  from useProviders_nonempty [OF u(1)] ne have "go_Proxies o4 \<noteq> [] \<or> ds \<noteq> []" by auto
  from newGroup_inv [OF g ownProvider_nonempty [OF u(2) this]] show ?thesis .
qed

text \<open>
  C25. A group that the configuration parser accepted never indexes out of range: whatever connections
  ask for, whatever is selected, whatever its providers and their health checks do, in any order,
  every operation returns, and the group can choose a proxy afterwards.
\<close>

theorem parsed_group_never_panics:
  assumes "ParseProxyGroup compile pin ps = Ret (Inr g, ps')"
  shows "\<exists>w' g' p w'' g''. group_run ops (w, g) = Ret (w', g')
    \<and> group_Unwrap be m touch now w' g' = Ret (p, w'', g'')"
proof -
  from group_run_inv [of "(w, g)" ops] ParseProxyGroup_inv [OF assms] obtain w' g' where
    r: "group_run ops (w, g) = Ret (w', g')" "group_inv g'" by auto
  from group_Unwrap_inv [OF r(2), of be m touch now w'] r(1) show ?thesis by auto
qed

definition example_input :: "string \<Rightarrow> string \<Rightarrow> ParseInput" where
  "example_input tp strategy =
     \<lparr>pi_option = Inr \<lparr>go_Name = ''auto'', go_Type = tp, go_Proxies = [''a'', ''b''], go_Use = [],
        go_URL = [], go_Interval = 0, go_TestTimeout = 0, go_MaxFailedTimes = 0, go_EmptyFallback = [],
        go_Lazy = True, go_DisableUDP = False, go_Filter = [], go_ExcludeFilter = [], go_ExcludeType = [],
        go_ExpectedStatus = [], go_IncludeAll = False, go_IncludeAllProxies = False, go_IncludeAllProviders = False\<rparr>,
      pi_tolerance = Inr 50, pi_selected = Inr [], pi_fallback = Inr (), pi_strategy = Inr strategy,
      pi_proxyMap = [''a'' \<mapsto> 0, ''b'' \<mapsto> 1, ''COMPATIBLE'' \<mapsto> 2], pi_isGroup = (\<lambda>_. False),
      pi_AllProxies = [''a'', ''b''], pi_AllProviders = []\<rparr>"

definition example_state :: ParseState where
  "example_state = \<lparr>ps_world = \<lparr>w_proxies = example_heap,
      w_providers = (\<lambda>_. \<lparr>pd_name = [], pd_proxies = [], pd_healthCheck = NewHealthCheck [] [] 0 0 True [],
         pd_version = 0, pd_compatible = False\<rparr>)\<rparr>,
     ps_providersMap = (\<lambda>_. None), ps_next = 0\<rparr>"

definition example_benv :: BalanceEnv where
  "example_benv = \<lparr>be_etld = Inr, be_hash = (\<lambda>s. word_of_nat (length s)), be_nanos = word_of_nat\<rparr>"

theorem parsed_group_never_panics_witness:
  "\<exists>g ps' w' g' p w'' g''. ParseProxyGroup (\<lambda>_. None) (example_input ''load-balance'' ''sticky-sessions'') example_state
      = Ret (Inr g, ps')
    \<and> group_run [OUnwrap example_benv (Some empty_metadata) True 5, OUpdate 0 []] (ps_world ps', g) = Ret (w', g')
    \<and> group_Unwrap example_benv None False 7 w' g' = Ret (p, w'', g'')"
proof -
  have "case ParseProxyGroup (\<lambda>_. None) (example_input ''load-balance'' ''sticky-sessions'') example_state of
      Ret (Inr _, _) \<Rightarrow> True | _ \<Rightarrow> False" by code_simp
  then obtain g ps' where
    p: "ParseProxyGroup (\<lambda>_. None) (example_input ''load-balance'' ''sticky-sessions'') example_state = Ret (Inr g, ps')"
    by (auto split: outcome.splits sum.splits)
  from parsed_group_never_panics [OF p, of "[OUnwrap example_benv (Some empty_metadata) True 5, OUpdate 0 []]"
      "ps_world ps'" example_benv None False 7] p show ?thesis by blast
qed

section \<open>The choice of a fallback group\<close>

lemma fallbackLoop_empty: "fallbackLoop h url ps [] = (find (\<lambda>p. AliveForTestUrl url (h p)) ps, [])"
  by (induction ps) auto

lemma fallbackLoop_skip:
  "sel \<noteq> [] \<Longrightarrow> \<forall>p\<in>set as. px_name (h p) \<noteq> sel \<Longrightarrow> fallbackLoop h url (as @ ps) sel = fallbackLoop h url ps sel"
  by (induction as) auto

text \<open>
  C30. A fallback group without a fixed choice uses the first of its proxies that is alive, and the
  first one when none is; with a fixed choice that is alive it uses the first proxy of that name.
\<close>

theorem fallback_first_alive:
  assumes "gb_inv (f_base f)" "ps = fst (GetProxies touch now w (f_base f))"
    and "f_selected f = [] \<or> (ps = as @ p # bs \<and> px_name (w_proxies w p) = f_selected f
      \<and> (\<forall>q\<in>set as. px_name (w_proxies w q) \<noteq> f_selected f) \<and> AliveForTestUrl (f_testUrl f) (w_proxies w p))"
  shows "\<exists>w' f'. findAliveProxy touch now w f = Ret
      (if f_selected f \<noteq> [] then p
       else (case find (\<lambda>q. AliveForTestUrl (f_testUrl f) (w_proxies w q)) ps of Some q \<Rightarrow> q | None \<Rightarrow> hd ps), w', f')
    \<and> f_selected f' = f_selected f"
proof -
  have ne: "ps \<noteq> []" using GetProxies_nonempty(1) [OF assms(1)] assms(2) by simp
  note h = GetProxies_keeps(1) [of touch now w "f_base f"]
  show ?thesis
  proof (cases "f_selected f = []")
    case True
    then show ?thesis using ne h
      by (simp add: findAliveProxy_def Let_def assms(2) fallbackLoop_empty at_0 split: option.split)
  next
    case False
    with assms(3) have p: "ps = as @ p # bs" "px_name (w_proxies w p) = f_selected f"
      "\<forall>q\<in>set as. px_name (w_proxies w q) \<noteq> f_selected f" "AliveForTestUrl (f_testUrl f) (w_proxies w p)" by auto
    have "fallbackLoop (w_proxies w) (f_testUrl f) ps (f_selected f) = (Some p, f_selected f)"
      unfolding p(1) fallbackLoop_skip [OF False p(3)] using False p by simp
    then show ?thesis using False h by (simp add: findAliveProxy_def Let_def flip: assms(2))
  qed
qed

definition example_base :: GroupBase where
  "example_base = \<lparr>gb_name = ''g'', gb_type = AT_Fallback, filterRegs = [], excludeFilterRegs = [],
     excludeTypeArray = None, providers = [0], failedTimes = 0, failedTime = 0, failedTesting = False,
     testTimeout = 5000, maxFailedTimes = 5, emptyFallback = 9, providerVersions = [], providerProxies = []\<rparr>"

text \<open>Three proxies a, b and c; the argument lists the dead ones and gives the delays.\<close>

definition example_world :: "pref list \<Rightarrow> (pref \<Rightarrow> u16) \<Rightarrow> World" where
  "example_world dead delay = \<lparr>w_proxies = (\<lambda>p. finishTest (0, ''http://t'', (delay p, None, p \<notin> set dead))
       (NewProxy [char_of (97 + p)] AT_Vless True)),
     w_providers = (\<lambda>_. \<lparr>pd_name = ''p'', pd_proxies = [0, 1, 2], pd_healthCheck = NewHealthCheck [] [] 0 0 True [],
        pd_version = 1, pd_compatible = False\<rparr>)\<rparr>"

definition example_fallback :: "string \<Rightarrow> Fallback" where
  "example_fallback sel = \<lparr>f_base = example_base, f_disableUDP = False, f_testUrl = ''http://t'',
     f_selected = sel, f_expectedStatus = ''*''\<rparr>"

theorem fallback_first_alive_witness:
  "\<exists>w' f'. findAliveProxy True 0 (example_world [0] (\<lambda>_. 10)) (example_fallback []) = Ret (1, w', f') \<and> f_selected f' = []"
proof -
  let ?w = "example_world [0] (\<lambda>_. 10)" and ?f = "example_fallback []"
  have g: "gb_inv (f_base ?f)" by (simp add: example_fallback_def example_base_def gb_inv_def)
  have ps: "fst (GetProxies True 0 ?w (f_base ?f)) = [0, 1, 2]" by code_simp
  have "find (\<lambda>q. AliveForTestUrl (f_testUrl ?f) (w_proxies ?w q)) [0, 1, 2] = Some 1" by code_simp
  moreover have "f_selected ?f = []" by (simp add: example_fallback_def)
  ultimately show ?thesis using fallback_first_alive [OF g ps [symmetric]] by simp
qed

text \<open>
  When the fixed choice of a fallback group is not alive, the search goes on behind it instead
  of starting again: an alive proxy in front of it is passed over, and when there is none behind it
  the first proxy is used, alive or not.
\<close>

theorem fallback_skips_alive:
  assumes "gb_inv (f_base f)" "fst (GetProxies touch now w (f_base f)) = as @ c # bs"
    and "f_selected f \<noteq> []" "px_name (w_proxies w c) = f_selected f" "\<not> AliveForTestUrl (f_testUrl f) (w_proxies w c)"
    and "\<forall>q\<in>set as. px_name (w_proxies w q) \<noteq> f_selected f"
  shows "\<exists>w' f'. findAliveProxy touch now w f = Ret
      (case find (\<lambda>q. AliveForTestUrl (f_testUrl f) (w_proxies w q)) bs of Some q \<Rightarrow> q | None \<Rightarrow> hd (as @ [c]), w', f')
    \<and> f_selected f' = []"
proof -
  have "fallbackLoop (w_proxies w) (f_testUrl f) (as @ c # bs) (f_selected f)
      = (find (\<lambda>q. AliveForTestUrl (f_testUrl f) (w_proxies w q)) bs, [])"
    unfolding fallbackLoop_skip [OF assms(3,6)] using assms(3-5) by (simp add: fallbackLoop_empty)
  moreover have "hd (as @ c # bs) = hd (as @ [c])" by (cases as) simp_all
  ultimately show ?thesis using assms(2) GetProxies_keeps(1) [of touch now w "f_base f"]
    by (simp add: findAliveProxy_def Let_def at_0 split: option.split)
qed

theorem fallback_skips_alive_witness:
  "\<exists>w' f'. findAliveProxy True 0 (example_world [0, 2] (\<lambda>_. 10)) (example_fallback ''c'') = Ret (0, w', f') \<and> f_selected f' = []"
proof -
  let ?w = "example_world [0, 2] (\<lambda>_. 10)" and ?f = "example_fallback ''c''"
  have g: "gb_inv (f_base ?f)" by (simp add: example_fallback_def example_base_def gb_inv_def)
  have ps: "fst (GetProxies True 0 ?w (f_base ?f)) = [0, 1] @ 2 # []" by code_simp
  have s: "f_selected ?f \<noteq> []" "px_name (w_proxies ?w 2) = f_selected ?f"
    "\<not> AliveForTestUrl (f_testUrl ?f) (w_proxies ?w 2)" "\<forall>q\<in>set [0, 1]. px_name (w_proxies ?w q) \<noteq> f_selected ?f"
    by code_simp+
  show ?thesis using fallback_skips_alive [OF g ps s] by simp
qed

section \<open>The choice of a URL-test group\<close>

lemma le_ffff: "(x :: u16) \<le> 0xffff"
proof -
  have "(0xffff :: u16) = - 1" by simp
  then show ?thesis by (metis word_order.extremum)
qed

lemma dead_delay: "\<not> AliveForTestUrl url p \<Longrightarrow> LastDelayForTestUrl url p = 0xffff"
  by (simp add: AliveForTestUrl_def LastDelayForTestUrl_def Let_def split: option.splits)

lemma fastLoop_spec:
  assumes "fastLoop h url n ps (f0, d0, e0) = (f, d, e)" "d0 = LastDelayForTestUrl url (h f0)"
  shows "d = LastDelayForTestUrl url (h f) \<and> f \<in> insert f0 (set ps)
    \<and> (\<forall>p\<in>insert f0 (set ps). d \<le> LastDelayForTestUrl url (h p))
    \<and> (e \<longleftrightarrow> e0 \<and> (\<forall>k p. n = Some k \<longrightarrow> p \<in> set ps \<longrightarrow> px_name (h p) \<noteq> px_name (h k)))"
  using assms
proof (induction ps arbitrary: f0 d0 e0)
  case Nil
  then show ?case by auto
next
  case (Cons p ps)
  let ?e1 = "case n of None \<Rightarrow> e0 | Some k \<Rightarrow> if px_name (h p) = px_name (h k) then False else e0"
  let ?take = "AliveForTestUrl url (h p) \<and> LastDelayForTestUrl url (h p) < d0"
  let ?f1 = "if ?take then p else f0"
  have step: "fastLoop h url n ps (?f1, LastDelayForTestUrl url (h ?f1), ?e1) = (f, d, e)"
    using Cons.prems by (cases "AliveForTestUrl url (h p)"; cases "LastDelayForTestUrl url (h p) < d0") (simp_all add: Let_def)
  have "LastDelayForTestUrl url (h ?f1) \<le> LastDelayForTestUrl url (h p)"
    using dead_delay [of url "h p"] le_ffff Cons.prems(2) by auto
  moreover have "LastDelayForTestUrl url (h ?f1) \<le> LastDelayForTestUrl url (h f0)"
    using Cons.prems(2) by auto
  moreover have "e \<longleftrightarrow> e0 \<and> (\<forall>k q. n = Some k \<longrightarrow> q \<in> set (p # ps) \<longrightarrow> px_name (h q) \<noteq> px_name (h k))"
    using Cons.IH [OF step refl] by (cases n) auto
  ultimately show ?case using Cons.IH [OF step refl] by (auto split: if_splits intro: order_trans)
qed

text \<open>
  What a choice without a fixed proxy gives: the fastest proxy \<open>q\<close>, or the node in use when it is
  still named in the list behind its first entry, is alive and is within the tolerance of \<open>q\<close>.
\<close>

lemma chooseFast_spec:
  assumes "proxies \<noteq> []"
  shows "\<exists>q\<in>set proxies. (\<forall>p\<in>set proxies. LastDelayForTestUrl url (h q) \<le> LastDelayForTestUrl url (h p))
    \<and> chooseFast h url [] tol n proxies = Ret (case n of None \<Rightarrow> q
        | Some k \<Rightarrow> if (\<exists>p\<in>set (tl proxies). px_name (h p) = px_name (h k)) \<and> AliveForTestUrl url (h k)
             \<and> \<not> LastDelayForTestUrl url (h k) > LastDelayForTestUrl url (h q) + tol
           then k else q)"
proof -
  obtain f d e where r: "fastLoop h url n (tl proxies) (hd proxies, LastDelayForTestUrl url (h (hd proxies)), True) = (f, d, e)"
    by (metis prod_cases3)
  have set: "insert (hd proxies) (set (tl proxies)) = set proxies" using assms by (cases proxies) auto
  note s = fastLoop_spec [OF r refl, unfolded set]
  have "chooseFast h url [] tol n proxies = Ret (case n of None \<Rightarrow> f
        | Some k \<Rightarrow> if (\<exists>p\<in>set (tl proxies). px_name (h p) = px_name (h k)) \<and> AliveForTestUrl url (h k)
             \<and> \<not> LastDelayForTestUrl url (h k) > LastDelayForTestUrl url (h f) + tol
           then k else f)"
  proof (cases n)
    case None
    then show ?thesis using r [unfolded None] by (simp add: chooseFast_def Let_def at_0 assms)
  next
    case (Some k)
    have "e \<longleftrightarrow> \<not> (\<exists>p\<in>set (tl proxies). px_name (h p) = px_name (h k))" using s Some by auto
    then show ?thesis using r [unfolded Some] Some by (auto simp: chooseFast_def Let_def at_0 assms)
  qed
  with s show ?thesis by blast
qed

lemma fast_chooses:
  assumes "gb_inv (u_base u)" "sg_result (u_fastSingle u) = None"
    "chooseFast (w_proxies w) (u_testUrl u) (u_selected u) (u_tolerance u) (u_fastNode u)
       (fst (GetProxies touch now w (u_base u))) = Ret p"
  shows "\<exists>w' u'. fast touch now w u = Ret (p, w', u') \<and> u_fastNode u' = Some p"
  using assms GetProxies_keeps(1) [of touch now w "u_base u"] by (simp add: fast_def single_Do_def Let_def)

text \<open>
  C29. A URL-test group with no fixed choice and no node in use takes a proxy whose delay is the
  smallest of all, and remembers it.
\<close>

theorem urltest_fastest:
  assumes "gb_inv (u_base u)" "sg_result (u_fastSingle u) = None" "u_selected u = []" "u_fastNode u = None"
  shows "\<exists>p w' u'. fast touch now w u = Ret (p, w', u') \<and> u_fastNode u' = Some p
    \<and> p \<in> set (fst (GetProxies touch now w (u_base u)))
    \<and> (\<forall>q\<in>set (fst (GetProxies touch now w (u_base u))).
         LastDelayForTestUrl (u_testUrl u) (w_proxies w p) \<le> LastDelayForTestUrl (u_testUrl u) (w_proxies w q))"
  using chooseFast_spec [OF GetProxies_nonempty(1) [OF assms(1), of touch now w],
      of "u_testUrl u" "w_proxies w" "u_tolerance u" None] fast_chooses [OF assms(1,2), of w touch now] assms(3,4)
  by fastforce

definition example_urltest :: "u16 \<Rightarrow> pref option \<Rightarrow> URLTestGroup" where
  "example_urltest tol n = \<lparr>u_base = example_base, u_selected = [], u_testUrl = ''http://t'',
     u_expectedStatus = ''*'', u_tolerance = tol, u_disableUDP = False, u_fastNode = n, u_fastSingle = NewSingle (10 * second_ns)\<rparr>"

definition example_delay :: "pref \<Rightarrow> u16" where
  "example_delay p = (if p = 0 then 120 else if p = 1 then 80 else 100)"

lemma example_urltest_simps [simp]:
  "gb_inv (u_base (example_urltest tol n))" "sg_result (u_fastSingle (example_urltest tol n)) = None"
  "u_selected (example_urltest tol n) = []" "u_fastNode (example_urltest tol n) = n"
  "u_testUrl (example_urltest tol n) = ''http://t''" "u_tolerance (example_urltest tol n) = tol"
  by (simp_all add: example_urltest_def example_base_def gb_inv_def NewSingle_def)

lemma example_urltest_proxies [simp]:
  "fst (GetProxies touch now (example_world dead delay) (u_base (example_urltest tol n))) = [0, 1, 2]"
  by (simp add: GetProxies_def example_urltest_def example_base_def example_world_def touchAll_def pd_Touch_def Let_def
      freshProxies_def offers_def collectProxies_def reorderProxies_def excludeByName_def excludeByType_def)

theorem urltest_fastest_witness:
  "\<exists>p w' u'. fast True 0 (example_world [] example_delay) (example_urltest 50 None) = Ret (p, w', u')
    \<and> LastDelayForTestUrl ''http://t'' (w_proxies (example_world [] example_delay) p)
      \<le> LastDelayForTestUrl ''http://t'' (w_proxies (example_world [] example_delay) 1)"
  using urltest_fastest [of "example_urltest 50 None" True 0 "example_world [] example_delay"] by auto

text \<open>
  A URL-test group does not switch while the node in use is within the tolerance of all others,
  unless that node is the first of its list: it is kept when its delay is at most the tolerance above
  every other delay and the sum of its delay and the tolerance is below 65536.
\<close>

theorem urltest_keeps_node:
  assumes "gb_inv (u_base u)" "sg_result (u_fastSingle u) = None" "u_selected u = []" "u_fastNode u = Some n"
    and "n \<in> set (tl (fst (GetProxies touch now w (u_base u))))" "AliveForTestUrl (u_testUrl u) (w_proxies w n)"
    and "\<forall>q\<in>set (fst (GetProxies touch now w (u_base u))).
      unat (LastDelayForTestUrl (u_testUrl u) (w_proxies w n)) \<le> unat (LastDelayForTestUrl (u_testUrl u) (w_proxies w q)) + unat (u_tolerance u)"
    and "unat (LastDelayForTestUrl (u_testUrl u) (w_proxies w n)) + unat (u_tolerance u) < 2 ^ 16"
  shows "\<exists>w' u'. fast touch now w u = Ret (n, w', u') \<and> u_fastNode u' = Some n"
proof -
  let ?ps = "fst (GetProxies touch now w (u_base u))" and ?d = "\<lambda>p. LastDelayForTestUrl (u_testUrl u) (w_proxies w p)"
  have ne: "?ps \<noteq> []" by (rule GetProxies_nonempty(1) [OF assms(1)])
  from chooseFast_spec [OF ne, of "u_testUrl u" "w_proxies w" "u_tolerance u" "Some n"] obtain q where
    q: "q \<in> set ?ps" "\<forall>p\<in>set ?ps. ?d q \<le> ?d p"
    and c: "chooseFast (w_proxies w) (u_testUrl u) [] (u_tolerance u) (Some n) ?ps = Ret
       (if (\<exists>p\<in>set (tl ?ps). px_name (w_proxies w p) = px_name (w_proxies w n)) \<and> AliveForTestUrl (u_testUrl u) (w_proxies w n)
           \<and> \<not> ?d n > ?d q + u_tolerance u then n else q)" by auto
  have "n \<in> set ?ps" using assms(5) by (meson list.set_sel(2) ne)
  with q have "unat (?d q) \<le> unat (?d n)" by (simp add: word_le_nat_alt)
  with assms(8) have "unat (?d q + u_tolerance u) = unat (?d q) + unat (u_tolerance u)"
    by (intro unat_add_lem [THEN iffD1]) simp
  then have "\<not> ?d n > ?d q + u_tolerance u" using assms(7) q(1) by (simp add: word_less_nat_alt not_less)
  with c assms(5,6) have "chooseFast (w_proxies w) (u_testUrl u) [] (u_tolerance u) (Some n) ?ps = Ret n" by auto
  with fast_chooses [OF assms(1,2), of w touch now] assms(3,4) show ?thesis by simp
qed

lemma example_delays:
  "AliveForTestUrl ''http://t'' (w_proxies (example_world [] example_delay) 2)"
  "LastDelayForTestUrl ''http://t'' (w_proxies (example_world [] example_delay) 0) = 120"
  "LastDelayForTestUrl ''http://t'' (w_proxies (example_world [] example_delay) 1) = 80"
  "LastDelayForTestUrl ''http://t'' (w_proxies (example_world [] example_delay) 2) = 100"
  by code_simp+

theorem urltest_keeps_node_witness:
  "\<exists>w' u'. fast True 0 (example_world [] example_delay) (example_urltest 50 (Some 2)) = Ret (2, w', u') \<and> u_fastNode u' = Some 2"
  by (rule urltest_keeps_node) (simp_all add: example_delays [unfolded One_nat_def])


text \<open>
  The tolerance does not protect the first proxy of the list: when it is the node in use and its
  name is not repeated, the group switches as soon as another proxy is faster, by however little and
  whatever the tolerance is.
\<close>

theorem urltest_first_unprotected:
  assumes "gb_inv (u_base u)" "sg_result (u_fastSingle u) = None" "u_selected u = []"
    and "fst (GetProxies touch now w (u_base u)) = n # ps" "u_fastNode u = Some n"
    and "\<forall>p\<in>set ps. px_name (w_proxies w p) \<noteq> px_name (w_proxies w n)"
    and "q \<in> set ps" "LastDelayForTestUrl (u_testUrl u) (w_proxies w q) < LastDelayForTestUrl (u_testUrl u) (w_proxies w n)"
  shows "\<exists>p w' u'. fast touch now w u = Ret (p, w', u') \<and> p \<noteq> n"
proof -
  from chooseFast_spec [of "n # ps" "u_testUrl u" "w_proxies w" "u_tolerance u" "Some n"] assms(6) obtain p where
    p: "\<forall>r\<in>set (n # ps). LastDelayForTestUrl (u_testUrl u) (w_proxies w p) \<le> LastDelayForTestUrl (u_testUrl u) (w_proxies w r)"
    "chooseFast (w_proxies w) (u_testUrl u) [] (u_tolerance u) (Some n) (n # ps) = Ret p" by auto
  from p(1) assms(7,8) have "p \<noteq> n" by (auto simp: not_le)
  with fast_chooses [OF assms(1,2), of w touch now p] assms(3-5) p(2) show ?thesis by auto
qed

theorem urltest_first_unprotected_witness:
  "\<exists>p w' u'. fast True 0 (example_world [] example_delay) (example_urltest 5000 (Some 0)) = Ret (p, w', u') \<and> p \<noteq> 0"
proof (rule urltest_first_unprotected)
  show "fst (GetProxies True 0 (example_world [] example_delay) (u_base (example_urltest 5000 (Some 0)))) = 0 # [1, 2]" by simp
  show "\<forall>p\<in>set [1, 2]. px_name (w_proxies (example_world [] example_delay) p) \<noteq> px_name (w_proxies (example_world [] example_delay) 0)"
    by code_simp
  show "1 \<in> set [1, 2 :: pref]" by simp
  show "LastDelayForTestUrl (u_testUrl (example_urltest 5000 (Some 0))) (w_proxies (example_world [] example_delay) 1)
      < LastDelayForTestUrl (u_testUrl (example_urltest 5000 (Some 0))) (w_proxies (example_world [] example_delay) 0)"
    by (simp only: example_urltest_simps example_delays) simp
qed simp_all

text \<open>
  A provider that is updated replaces its proxies by new ones of the same names. The group
  recognises the node in use by its name only, so it goes on using the replaced proxy, which no
  health check visits any more, as long as its last delay is within the tolerance.
\<close>

theorem urltest_keeps_replaced:
  assumes "gb_inv (u_base u)" "sg_result (u_fastSingle u) = None" "u_selected u = []" "u_fastNode u = Some n"
    and "n \<notin> set (fst (GetProxies touch now w (u_base u)))"
    and "p \<in> set (tl (fst (GetProxies touch now w (u_base u))))" "px_name (w_proxies w p) = px_name (w_proxies w n)"
    and "AliveForTestUrl (u_testUrl u) (w_proxies w n)"
    and "\<forall>q\<in>set (fst (GetProxies touch now w (u_base u))).
      LastDelayForTestUrl (u_testUrl u) (w_proxies w n) \<le> LastDelayForTestUrl (u_testUrl u) (w_proxies w q) + u_tolerance u"
  shows "\<exists>r w' u'. fast touch now w u = Ret (r, w', u') \<and> r \<notin> set (fst (GetProxies touch now w (u_base u)))"
proof -
  from chooseFast_spec [OF GetProxies_nonempty(1) [OF assms(1), of touch now w], of "u_testUrl u" "w_proxies w" "u_tolerance u" "Some n"]
    assms(6-9) have "chooseFast (w_proxies w) (u_testUrl u) [] (u_tolerance u) (Some n) (fst (GetProxies touch now w (u_base u))) = Ret n"
    by (auto simp: not_less)
  with fast_chooses [OF assms(1,2), of w touch now n] assms(3-5) show ?thesis by auto
qed

definition replaced_world :: World where
  "replaced_world = (example_world [] example_delay)\<lparr>w_proxies := (w_proxies (example_world [] example_delay))(7 :=
     finishTest (0, ''http://t'', (60, None, True)) (NewProxy ''b'' AT_Vless True))\<rparr>"

theorem urltest_keeps_replaced_witness:
  "\<exists>r w' u'. fast True 0 replaced_world (example_urltest 50 (Some 7)) = Ret (r, w', u') \<and> r \<notin> set [0, 1, 2]"
proof -
  have ps: "fst (GetProxies True 0 replaced_world (u_base (example_urltest 50 (Some 7)))) = [0, 1, 2]" by code_simp
  have "px_name (w_proxies replaced_world 1) = px_name (w_proxies replaced_world 7)"
    "AliveForTestUrl ''http://t'' (w_proxies replaced_world 7)"
    "LastDelayForTestUrl ''http://t'' (w_proxies replaced_world 7) = 60"
    "LastDelayForTestUrl ''http://t'' (w_proxies replaced_world 0) = 120"
    "LastDelayForTestUrl ''http://t'' (w_proxies replaced_world 1) = 80"
    "LastDelayForTestUrl ''http://t'' (w_proxies replaced_world 2) = 100" by code_simp+
  then show ?thesis using urltest_keeps_replaced [of "example_urltest 50 (Some 7)" 7 True 0 replaced_world 1]
    by (simp add: ps del: One_nat_def)
qed

end
