(* ===== verification/GroupOffers.thy ===== *)
theory GroupOffers
  imports ProxyGroups
begin

text \<open>
  What the groups of ProxyGroups offer over time: the list of proxies against its filters, the
  transparency of its cache, the rotation of the round-robin strategy, the stickiness of sessions
  and the counting of failed dials. There are no definitions of the program here but the sequences
  of operations the theorems speak about.
\<close>

section \<open>The proxies a group offers\<close>

lemma takeMatching_spec:
  assumes "takeMatching h re ps (seen, out) = (seen', out')" "set seen = px_name ` h ` set out"
  shows "set seen' = px_name ` h ` set out' \<and> set out \<subseteq> set out'
    \<and> set out' \<subseteq> set out \<union> {p \<in> set ps. re (px_name (h p))}
    \<and> px_name ` h ` set out' = px_name ` h ` (set out \<union> {p \<in> set ps. re (px_name (h p))})"
  using assms
proof (induction ps arbitrary: seen out)
  case Nil
  then show ?case by auto
next
  case (Cons p ps)
  let ?n = "px_name (h p)"
  show ?case
  proof (cases "re ?n \<and> ?n \<notin> set seen")
    case True
    with Cons.prems have "takeMatching h re ps (?n # seen, out @ [p]) = (seen', out')" by (simp add: Let_def)
    from Cons.IH [OF this] Cons.prems(2) True show ?thesis by auto
  next
    case False
    with Cons.prems have r: "takeMatching h re ps (seen, out) = (seen', out')" by (auto simp: Let_def)
    from False Cons.prems(2) have "re ?n \<Longrightarrow> ?n \<in> px_name ` h ` set out" by auto
    with Cons.IH [OF r Cons.prems(2)] show ?thesis by auto
  qed
qed

lemma takeByFilters_spec:
  assumes "takeByFilters h regs ps (seen, out) = (seen', out')" "set seen = px_name ` h ` set out"
  shows "set seen' = px_name ` h ` set out' \<and> set out' \<subseteq> set out \<union> {p \<in> set ps. \<exists>re\<in>set regs. re (px_name (h p))}
    \<and> px_name ` h ` set out' = px_name ` h ` (set out \<union> {p \<in> set ps. \<exists>re\<in>set regs. re (px_name (h p))})"
  using assms
proof (induction regs arbitrary: seen out)
  case Nil
  then show ?case by (auto simp: takeByFilters_def)
next
  case (Cons re regs)
  obtain s1 o1 where m: "takeMatching h re ps (seen, out) = (s1, o1)" by fastforce
  note t = takeMatching_spec [OF m Cons.prems(2)]
  have "takeByFilters h regs ps (s1, o1) = (seen', out')" using Cons.prems(1) m by (simp add: takeByFilters_def)
  from Cons.IH [OF this] t have i: "set seen' = px_name ` h ` set out'"
    "set out' \<subseteq> set o1 \<union> {p \<in> set ps. \<exists>re\<in>set regs. re (px_name (h p))}"
    "px_name ` h ` set out' = px_name ` h ` (set o1 \<union> {p \<in> set ps. \<exists>re\<in>set regs. re (px_name (h p))})" by auto
  have e: "{p \<in> set ps. \<exists>r\<in>set (re # regs). r (px_name (h p))}
      = {p \<in> set ps. re (px_name (h p))} \<union> {p \<in> set ps. \<exists>r\<in>set regs. r (px_name (h p))}" by auto
  have "set out' \<subseteq> set out \<union> {p \<in> set ps. \<exists>re\<in>set (re # regs). re (px_name (h p))}"
    unfolding e using i(2) t [THEN conjunct2, THEN conjunct2, THEN conjunct1] by blast
  moreover have "px_name ` h ` set out' = px_name ` h ` (set out \<union> {p \<in> set ps. \<exists>re\<in>set (re # regs). re (px_name (h p))})"
  proof -
    have "px_name ` h ` set o1 = px_name ` h ` (set out \<union> {p \<in> set ps. re (px_name (h p))})" by (rule t [THEN conjunct2, THEN conjunct2, THEN conjunct2])
    then show ?thesis unfolding e by (simp only: i(3) image_Un Un_assoc)
  qed
  ultimately show ?case using i(1) by blast
qed

text \<open>The proxies a group may offer.\<close>

definition eligible :: "heap \<Rightarrow> GroupBase \<Rightarrow> offer list \<Rightarrow> pref set" where
  "eligible h gb os = {p. (\<exists>x\<in>set os. p \<in> set (fst x) \<and> (filterRegs gb = [] \<or> snd x \<or> (\<exists>re\<in>set (filterRegs gb). re (px_name (h p)))))
     \<and> \<not> (\<exists>re\<in>set (excludeFilterRegs gb). re (px_name (h p)))
     \<and> (\<forall>ts. excludeTypeArray gb = Some ts \<longrightarrow> \<not> (\<exists>t\<in>set ts. EqualFold (AdapterTypeString (px_type (h p))) t))}"

definition offered :: "heap \<Rightarrow> (string \<Rightarrow> bool) list \<Rightarrow> offer list \<Rightarrow> pref set" where
  "offered h regs os = {p. \<exists>x\<in>set os. p \<in> set (fst x) \<and> (regs = [] \<or> snd x \<or> (\<exists>re\<in>set regs. re (px_name (h p))))}"

lemma collectProxies_spec:
  "set (collectProxies h regs os) \<subseteq> offered h regs os"
  "px_name ` h ` set (collectProxies h regs os) = px_name ` h ` offered h regs os"
proof -
  let ?t = "\<lambda>x. set (if snd x then fst x else snd (takeByFilters h regs (fst x) ([], [])))"
  let ?e = "\<lambda>x. {p \<in> set (fst x). snd x \<or> (\<exists>re\<in>set regs. re (px_name (h p)))}"
  have one: "?t x \<subseteq> ?e x" "px_name ` h ` ?t x = px_name ` h ` ?e x" for x :: offer
  proof -
    obtain s1 o1 where m: "takeByFilters h regs (fst x) ([], []) = (s1, o1)" by fastforce
    from takeByFilters_spec [OF m] show "?t x \<subseteq> ?e x" "px_name ` h ` ?t x = px_name ` h ` ?e x" by (auto simp: m)
  qed
  show "set (collectProxies h regs os) \<subseteq> offered h regs os"
    "px_name ` h ` set (collectProxies h regs os) = px_name ` h ` offered h regs os"
  proof (induction os)
    case (Cons x os)
    have a: "set (collectProxies h regs (x # os)) = (if regs = [] then set (fst x) else ?t x) \<union> set (collectProxies h regs os)"
      by (simp add: collectProxies_def)
    have b: "offered h regs (x # os) = (if regs = [] then set (fst x) else ?e x) \<union> offered h regs os"
      by (auto simp: offered_def)
    have c: "(if regs = [] then set (fst x) else ?t x) \<subseteq> (if regs = [] then set (fst x) else ?e x)"
      "px_name ` h ` (if regs = [] then set (fst x) else ?t x) = px_name ` h ` (if regs = [] then set (fst x) else ?e x)"
      using one [of x] by (cases "regs = []"; simp)+
    show "set (collectProxies h regs (x # os)) \<subseteq> offered h regs (x # os)"
      unfolding a b by (rule Un_mono [OF c(1) Cons(1)])
    show "px_name ` h ` set (collectProxies h regs (x # os)) = px_name ` h ` offered h regs (x # os)"
      unfolding a b by (simp only: image_Un c(2) Cons(2))
  qed (simp_all add: collectProxies_def offered_def)
qed


lemma reorderProxies_spec:
  "set (reorderProxies h regs os ps) \<subseteq> set ps" "px_name ` h ` set (reorderProxies h regs os ps) = px_name ` h ` set ps"
proof -
  obtain s1 o1 where m: "takeByFilters h regs ps ([], []) = (s1, o1)" by fastforce
  obtain s2 o2 where m2: "takeMatching h (\<lambda>_. True) ps (s1, o1) = (s2, o2)" by fastforce
  from takeByFilters_spec [OF m] have b: "set s1 = px_name ` h ` set o1" "set o1 \<subseteq> set ps" by auto
  show "set (reorderProxies h regs os ps) \<subseteq> set ps" "px_name ` h ` set (reorderProxies h regs os ps) = px_name ` h ` set ps"
    using takeMatching_spec [OF m2 b(1)] b(2) by (auto simp: reorderProxies_def m m2)
qed

definition kept :: "heap \<Rightarrow> GroupBase \<Rightarrow> pref \<Rightarrow> bool" where
  "kept h gb p = (\<not> (\<exists>re\<in>set (excludeFilterRegs gb). re (px_name (h p)))
     \<and> (\<forall>ts. excludeTypeArray gb = Some ts \<longrightarrow> \<not> (\<exists>t\<in>set ts. EqualFold (AdapterTypeString (px_type (h p))) t)))"

lemma eligible_offered: "eligible h gb os = {p \<in> offered h (filterRegs gb) os. kept h gb p}"
  by (simp add: eligible_def offered_def kept_def)

lemma set_freshProxies: "set (freshProxies h gb os) =
    {p \<in> set (reorderProxies h (filterRegs gb) os (collectProxies h (filterRegs gb) os)). kept h gb p}"
  by (cases "excludeTypeArray gb")
    (simp_all add: freshProxies_def excludeByName_def excludeByType_def kept_def list_ex_iff conj_ac)

lemma freshProxies_eligible: "set (freshProxies h gb os) \<subseteq> eligible h gb os"
  unfolding set_freshProxies eligible_offered
  using collectProxies_spec(1) [of h "filterRegs gb" os]
    reorderProxies_spec(1) [of h "filterRegs gb" os "collectProxies h (filterRegs gb) os"] by blast

lemma names_determine:
  assumes "S \<subseteq> A" "px_name ` h ` S = px_name ` h ` A" "inj_on (\<lambda>p. px_name (h p)) A"
  shows "S = A"
proof -
  have "(\<lambda>p. px_name (h p)) ` S = (\<lambda>p. px_name (h p)) ` A" using assms(2) by (simp add: image_image)
  then show ?thesis by (metis assms(1,3) inj_on_image_eq_iff order_refl)
qed

lemma freshProxies_complete:
  assumes "inj_on (\<lambda>p. px_name (h p)) (offered h (filterRegs gb) os)"
  shows "set (freshProxies h gb os) = eligible h gb os"
proof -
  let ?c = "collectProxies h (filterRegs gb) os"
  have c: "set ?c = offered h (filterRegs gb) os"
    by (rule names_determine [OF collectProxies_spec assms])
  have r: "set (reorderProxies h (filterRegs gb) os ?c) = offered h (filterRegs gb) os"
    using names_determine [OF reorderProxies_spec [of h "filterRegs gb" os ?c]] assms by (simp add: c)
  show ?thesis unfolding set_freshProxies eligible_offered r ..
qed

section \<open>The cache of the proxy list\<close>

datatype base_op = BGet bool int | BUpdate dref "pref list"

fun base_step :: "base_op \<Rightarrow> World \<times> GroupBase \<Rightarrow> World \<times> GroupBase" where
  "base_step (BGet touch now) (w, gb) = snd (GetProxies touch now w gb)"
| "base_step (BUpdate d ps) (w, gb) = (w\<lparr>w_providers := (w_providers w)(d := setProxies ps (w_providers w d))\<rparr>, gb)"

text \<open>
  What is remembered was computed from offers \<open>snap\<close>; a provider that has changed since has a
  version that is ahead by the number of changes.
\<close>

definition coherent :: "nat \<Rightarrow> World \<Rightarrow> GroupBase \<Rightarrow> bool" where
  "coherent n w gb = (providerVersions gb = [] \<or>
     (\<exists>snap ahead. length snap = length (providers gb) \<and> length (providerVersions gb) = length (providers gb)
        \<and> (\<forall>i<length (providers gb). pd_version (w_providers w (providers gb ! i)) = providerVersions gb ! i + of_nat (ahead i)
             \<and> ahead i \<le> n \<and> (ahead i = 0 \<longrightarrow> snap ! i = offers w gb ! i))
        \<and> providerProxies gb = freshProxies (w_proxies w) gb snap \<and> providerProxies gb \<noteq> []))"

definition currentProxies :: "World \<Rightarrow> GroupBase \<Rightarrow> pref list" where
  "currentProxies w gb = (let ps = freshProxies (w_proxies w) gb (offers w gb) in if ps = [] then [emptyFallback gb] else ps)"

lemma touchAll_offers:
  "offers (touchAll now ds w) gb = offers w gb" "w_proxies (touchAll now ds w) = w_proxies w"
  "pd_version (w_providers (touchAll now ds w) d) = pd_version (w_providers w d)"
  by (simp_all add: offers_def touchAll_def pd_Touch_def)

lemma freshProxies_cache [simp]:
  "freshProxies h (gb\<lparr>providerVersions := vs, providerProxies := ps\<rparr>) os = freshProxies h gb os"
  "offers w (gb\<lparr>providerVersions := vs, providerProxies := ps\<rparr>) = offers w gb"
  by (simp_all add: freshProxies_def offers_def)

lemma coherent_cong:
  "w_proxies w' = w_proxies w \<Longrightarrow> offers w' gb = offers w gb \<Longrightarrow> (\<And>d. pd_version (w_providers w' d) = pd_version (w_providers w d))
    \<Longrightarrow> coherent n w' gb = coherent n w gb"
  by (simp add: coherent_def)

lemma coherent_hit:
  assumes "coherent n w gb" "n < 2 ^ 32" "gb_inv gb"
    and "map (\<lambda>d. pd_version (w_providers w d)) (providers gb) = providerVersions gb"
  shows "providerProxies gb = currentProxies w gb"
proof -
  have "providerVersions gb \<noteq> []" using assms(3,4) by (auto simp: gb_inv_def)
  with assms(1) obtain snap ahead where l: "length snap = length (providers gb)"
    and v: "\<And>i. i < length (providers gb) \<Longrightarrow>
        pd_version (w_providers w (providers gb ! i)) = providerVersions gb ! i + of_nat (ahead i)
        \<and> ahead i \<le> n \<and> (ahead i = 0 \<longrightarrow> snap ! i = offers w gb ! i)"
    and p: "providerProxies gb = freshProxies (w_proxies w) gb snap" "providerProxies gb \<noteq> []"
    unfolding coherent_def by blast
  have "ahead i = 0" if "i < length (providers gb)" for i
  proof -
    have "(of_nat (ahead i) :: u32) = 0"
      using v [OF that] arg_cong [OF assms(4), of "\<lambda>xs. xs ! i"] that by simp
    then have "2 ^ 32 dvd ahead i" by (simp add: word_of_nat_eq_0_iff)
    with v [OF that] assms(2) show ?thesis by (auto dest: nat_dvd_not_less)
  qed
  with v l have "snap = offers w gb" by (intro nth_equalityI) (auto simp: offers_def)
  with p show ?thesis by (simp add: currentProxies_def)
qed


lemma GetProxies_coherent:
  assumes "coherent n w gb" "n < 2 ^ 32" "gb_inv gb"
  shows "fst (GetProxies touch now w gb) = currentProxies w gb"
    "coherent n (fst (snd (GetProxies touch now w gb))) (snd (snd (GetProxies touch now w gb)))"
proof -
  let ?w = "if touch then touchAll now (providers gb) w else w"
  let ?vs = "map (\<lambda>d. pd_version (w_providers w d)) (providers gb)"
  let ?ps = "freshProxies (w_proxies w) gb (offers w gb)"
  have w: "offers ?w gb' = offers w gb'" "w_proxies ?w = w_proxies w" "pd_version (w_providers ?w d) = pd_version (w_providers w d)" for gb' d
    by (simp_all add: touchAll_offers)
  have eq: "GetProxies touch now w gb = (if ?vs = providerVersions gb then (providerProxies gb, ?w, gb)
      else if ?ps = [] then ([emptyFallback gb], ?w, gb)
      else (?ps, ?w, gb\<lparr>providerVersions := ?vs, providerProxies := ?ps\<rparr>))"
    unfolding GetProxies_def Let_def w by simp
  have c: "coherent n ?w gb' = coherent n w gb'" for gb' by (rule coherent_cong) (rule w)+
  show "fst (GetProxies touch now w gb) = currentProxies w gb"
    unfolding eq using coherent_hit [OF assms] by (auto simp: currentProxies_def)
  have "coherent n w (gb\<lparr>providerVersions := ?vs, providerProxies := ?ps\<rparr>)" if "?ps \<noteq> []"
    unfolding coherent_def
    by (rule disjI2, rule exI [of _ "offers w gb"], rule exI [of _ "\<lambda>_. 0"]) (use that in \<open>simp add: offers_def\<close>)
  then show "coherent n (fst (snd (GetProxies touch now w gb))) (snd (snd (GetProxies touch now w gb)))"
    unfolding eq using assms(1) by (simp add: c)
qed

lemma coherent_update:
  assumes "coherent n w gb"
  shows "coherent (Suc n) (w\<lparr>w_providers := (w_providers w)(d := setProxies ps (w_providers w d))\<rparr>) gb"
proof (cases "providerVersions gb = []")
  case False
  let ?w = "w\<lparr>w_providers := (w_providers w)(d := setProxies ps (w_providers w d))\<rparr>"
  from False assms obtain snap ahead where l: "length snap = length (providers gb)" "length (providerVersions gb) = length (providers gb)"
    and v: "\<And>i. i < length (providers gb) \<Longrightarrow>
        pd_version (w_providers w (providers gb ! i)) = providerVersions gb ! i + of_nat (ahead i)
        \<and> ahead i \<le> n \<and> (ahead i = 0 \<longrightarrow> snap ! i = offers w gb ! i)"
    and p: "providerProxies gb = freshProxies (w_proxies w) gb snap" "providerProxies gb \<noteq> []"
    unfolding coherent_def by blast
  let ?ahead = "\<lambda>i. if providers gb ! i = d then Suc (ahead i) else ahead i"
  have "pd_version (w_providers ?w (providers gb ! i)) = providerVersions gb ! i + of_nat (?ahead i)
      \<and> ?ahead i \<le> Suc n \<and> (?ahead i = 0 \<longrightarrow> snap ! i = offers ?w gb ! i)" if "i < length (providers gb)" for i
    using v [OF that] that by (auto simp: setProxies_def offers_def)
  with l p show ?thesis unfolding coherent_def by (intro disjI2 exI [of _ snap] exI [of _ ?ahead]) simp
qed (simp add: coherent_def)

lemma base_steps:
  assumes "coherent n w gb" "gb_inv gb" "n + length ops < 2 ^ 32"
  shows "coherent (n + length ops) (fst (fold base_step ops (w, gb))) (snd (fold base_step ops (w, gb)))
    \<and> gb_inv (snd (fold base_step ops (w, gb)))"
  using assms
proof (induction ops arbitrary: n w gb)
  case (Cons x ops)
  have mono: "coherent n w gb \<Longrightarrow> coherent (Suc n) w gb" for n w gb
    unfolding coherent_def by (meson le_SucI)
  obtain w1 gb1 where s: "base_step x (w, gb) = (w1, gb1)" by fastforce
  have "coherent (Suc n) w1 gb1 \<and> gb_inv gb1"
  proof (cases x)
    case (BGet touch now)
    then show ?thesis using s mono GetProxies_coherent(2) [OF Cons.prems(1) _ Cons.prems(2), of touch now]
        GetProxies_nonempty(2) [OF Cons.prems(2), of touch now w] Cons.prems(3) by simp
  next
    case (BUpdate d ps)
    then show ?thesis using s coherent_update [OF Cons.prems(1), of d ps] Cons.prems(2) by simp
  qed
  with Cons.IH [of "Suc n" w1 gb1] Cons.prems(3) s show ?case by simp
qed simp

text \<open>
  C26. A group keeps the list of its proxies and rebuilds it only when a provider reports a new
  version. This is not observable: after any sequence of lookups and provider updates (fewer than
  the versions a \<open>uint32\<close> counts), the list a group returns is the one its filters give for what the
  providers offer at that moment, or the fallback proxy when that is empty.
\<close>

theorem GetProxies_cache_transparent:
  assumes "NewGroupBase compile opt = Ret gb0" "gbo_Providers opt \<noteq> []" "length ops < 2 ^ 32"
    and "fold base_step ops (w0, gb0) = (w, gb)"
  shows "fst (GetProxies touch now w gb) = currentProxies w gb
    \<and> set (freshProxies (w_proxies w) gb (offers w gb)) \<subseteq> eligible (w_proxies w) gb (offers w gb)
    \<and> (inj_on (\<lambda>p. px_name (w_proxies w p)) (offered (w_proxies w) (filterRegs gb) (offers w gb)) \<longrightarrow>
       set (freshProxies (w_proxies w) gb (offers w gb)) = eligible (w_proxies w) gb (offers w gb))"
proof -
  have "coherent 0 w0 gb0" using assms(1) by (auto simp: NewGroupBase_def obind_eq_Ret coherent_def)
  from base_steps [OF this NewGroupBase_inv [OF assms(1,2)], of ops] assms(3,4)
  have "coherent (length ops) w gb" "gb_inv gb" by auto
  from GetProxies_coherent(1) [OF this(1) assms(3) this(2)] show ?thesis
    using freshProxies_eligible freshProxies_complete by blast
qed

theorem GetProxies_cache_transparent_witness:
  "\<exists>gb0. NewGroupBase (\<lambda>_. None) (baseOption AT_Fallback (projr (pi_option (example_input ''fallback'' []))) 2 [0]) = Ret gb0
    \<and> fst (GetProxies False 9 (fst (fold base_step [BGet True 1, BUpdate 0 [1, 2]] (example_world [] (\<lambda>_. 10), gb0)))
        (snd (fold base_step [BGet True 1, BUpdate 0 [1, 2]] (example_world [] (\<lambda>_. 10), gb0)))) =
      currentProxies (fst (fold base_step [BGet True 1, BUpdate 0 [1, 2]] (example_world [] (\<lambda>_. 10), gb0)))
        (snd (fold base_step [BGet True 1, BUpdate 0 [1, 2]] (example_world [] (\<lambda>_. 10), gb0)))"
proof -
  let ?opt = "baseOption AT_Fallback (projr (pi_option (example_input ''fallback'' []))) 2 [0]"
  obtain gb0 where g: "NewGroupBase (\<lambda>_. None) ?opt = Ret gb0"
    by (simp add: NewGroupBase_def baseOption_def example_input_def compileFilter_def)
  have ne: "gbo_Providers ?opt \<noteq> []" by (simp add: baseOption_def)
  have l: "length [BGet True 1, BUpdate 0 [1, 2]] < 2 ^ 32" by simp
  show ?thesis using GetProxies_cache_transparent [OF g ne l prod.collapse [symmetric],
      where ?w0.0 = "example_world [] (\<lambda>_. 10)" and touch = False and now = 9] g
    by blast
qed

section \<open>Round robin\<close>

text \<open>The picks of a number of calls, and the live proxies in the order the rotation meets them.\<close>

fun rrPicks :: "(pref \<Rightarrow> bool) \<Rightarrow> pref list \<Rightarrow> nat \<Rightarrow> nat \<Rightarrow> pref list" where
  "rrPicks alive proxies 0 idx = []"
| "rrPicks alive proxies (Suc k) idx = (case strategyRoundRobin alive proxies True idx of
     Ret (p, idx1) \<Rightarrow> p # rrPicks alive proxies k idx1 | _ \<Rightarrow> [])"

definition rotation :: "(pref \<Rightarrow> bool) \<Rightarrow> pref list \<Rightarrow> nat \<Rightarrow> pref list" where
  "rotation alive proxies idx = filter alive (rotate idx proxies)"

lemma rotate_split:
  assumes "rotate idx xs = ys @ p # zs"
  shows "length xs = length ys + Suc (length zs)" "i < length ys + Suc (length zs) \<Longrightarrow> xs ! ((idx + i) mod length xs) = (ys @ p # zs) ! i"
proof -
  show l: "length xs = length ys + Suc (length zs)" using arg_cong [OF assms, of length] by simp
  show "xs ! ((idx + i) mod length xs) = (ys @ p # zs) ! i" if "i < length ys + Suc (length zs)"
    using nth_rotate [of i xs idx] that l assms by simp
qed

lemma rrLoop_split:
  assumes "rotate idx xs = ys @ p # zs" "alive p" "\<forall>y\<in>set ys. \<not> alive y" "i \<le> length ys"
  shows "rrLoop alive xs idx [i..<length xs] = (Some p, length ys + 1)"
  using assms(4)
proof (induction "length ys - i" arbitrary: i)
  case 0
  then have i: "i = length ys" by simp
  have n: "xs ! ((idx + length ys) mod length xs) = p" using rotate_split(2) [OF assms(1), of "length ys"] by simp
  have "[i..<length xs] = length ys # [Suc (length ys)..<length xs]"
    using rotate_split(1) [OF assms(1)] i by (simp add: upt_conv_Cons del: upt_Suc)
  then show ?case using n assms(2) by (simp add: Let_def)
next
  case (Suc d)
  then have i: "i < length ys" by simp
  have n: "xs ! ((idx + i) mod length xs) = ys ! i" using rotate_split(2) [OF assms(1), of i] i by (simp add: nth_append)
  have "[i..<length xs] = i # [Suc i..<length xs]" using rotate_split(1) [OF assms(1)] i by (simp add: upt_conv_Cons del: upt_Suc)
  moreover have "\<not> alive (ys ! i)" using assms(3) i by simp
  moreover have "rrLoop alive xs idx [Suc i..<length xs] = (Some p, length ys + 1)" using Suc i by simp
  ultimately show ?case using n by (simp add: Let_def)
qed

text \<open>A call picks the head of the rotation and moves it to the end.\<close>

lemma strategyRoundRobin_step:
  assumes "rotation alive proxies idx = p # ps"
  shows "\<exists>idx1. strategyRoundRobin alive proxies True idx = Ret (p, idx1) \<and> rotation alive proxies idx1 = ps @ [p]"
proof -
  from assms obtain ys zs where s: "rotate idx proxies = ys @ p # zs" "alive p" "\<forall>y\<in>set ys. \<not> alive y"
    and ps: "ps = filter alive zs" by (auto simp: rotation_def filter_eq_Cons_iff)
  define k where "k = (idx + (length ys + 1)) mod length proxies"
  have run: "strategyRoundRobin alive proxies True idx = Ret (p, k)"
    using rrLoop_split [OF s, of 0] by (simp add: strategyRoundRobin_def k_def)
  have "rotate k proxies = rotate (Suc (length ys)) (ys @ p # zs)"
    unfolding k_def rotate_conv_mod [symmetric] by (simp only: s(1) [symmetric] rotate_rotate add.commute Suc_eq_plus1)
  also have "\<dots> = zs @ ys @ [p]" using rotate_append [of "ys @ [p]" zs] by simp
  finally have "rotation alive proxies k = ps @ [p]" using s(2,3) ps by (simp add: rotation_def)
  with run show ?thesis by blast
qed

lemma rrPicks_rotation:
  "rotation alive proxies idx = cyc \<Longrightarrow> cyc \<noteq> [] \<Longrightarrow>
    rrPicks alive proxies k idx = map (\<lambda>i. cyc ! (i mod length cyc)) [0..<k]"
proof (induction k arbitrary: idx cyc)
  case (Suc k)
  then obtain p ps where c: "cyc = p # ps" by (cases cyc) auto
  with Suc.prems strategyRoundRobin_step [of alive proxies idx p ps] obtain idx1 where
    s: "strategyRoundRobin alive proxies True idx = Ret (p, idx1)" "rotation alive proxies idx1 = rotate1 cyc" by auto
  have "rotate1 cyc ! (i mod length cyc) = cyc ! (Suc i mod length cyc)" for i
    using nth_rotate1 [of "i mod length cyc" cyc] Suc.prems(2) by (simp add: mod_Suc_eq)
  then have "rrPicks alive proxies k idx1 = map (\<lambda>i. cyc ! (Suc i mod length cyc)) [0..<k]"
    using Suc.IH [OF s(2)] Suc.prems(2) by simp
  moreover have "[0..<Suc k] = 0 # map Suc [0..<k]" by (simp add: upt_conv_Cons map_Suc_upt del: upt_Suc)
  ultimately show ?case using s(1) c by (simp del: upt_Suc)
qed simp

text \<open>
  C27. Round robin is fair: while the same proxies are alive, the calls that use a proxy (\<open>touch\<close> set) go through the live proxies
  in the order of the list, starting at the stored position and over again, so that as many calls
  as there are live proxies reach every one of them and nothing else.
\<close>

theorem round_robin_fair:
  assumes "q \<in> set proxies" "alive q" and "n = length (filter alive proxies)"
  shows "rrPicks alive proxies k idx = map (\<lambda>i. rotation alive proxies idx ! (i mod n)) [0..<k]
    \<and> set (rrPicks alive proxies n idx) = {p \<in> set proxies. alive p}"
proof -
  let ?c = "rotation alive proxies idx"
  have set: "set ?c = {p \<in> set proxies. alive p}" by (auto simp: rotation_def)
  then have ne: "?c \<noteq> []" using assms(1,2) by (auto simp del: set_empty simp: set_empty [symmetric])
  define m where "m = idx mod length proxies"
  have "length (filter alive (take m proxies @ drop m proxies)) = n" using assms(3) by simp
  then have n: "length ?c = n" by (simp only: rotation_def rotate_drop_take filter_append length_append m_def add.commute)
  have picks: "rrPicks alive proxies k idx = map (\<lambda>i. ?c ! (i mod n)) [0..<k]" for k
    using rrPicks_rotation [OF refl ne, of k] n by simp
  have "map (\<lambda>i. ?c ! (i mod n)) [0..<n] = map (nth ?c) [0..<length ?c]" using n by simp
  then have "rrPicks alive proxies n idx = ?c" by (simp add: picks map_nth del: map_eq_conv)
  with picks set show ?thesis by simp
qed

theorem round_robin_fair_witness:
  "rrPicks (\<lambda>p. p \<noteq> 1) [0, 1, 2] 4 2 = [2, 0, 2, 0] \<and> set (rrPicks (\<lambda>p. p \<noteq> 1) [0, 1, 2] 2 2) = {0, 2}"
proof -
  have r: "rotation (\<lambda>p. p \<noteq> 1) [0, 1, 2] 2 = [2, 0]" by code_simp
  have m: "map (\<lambda>i. [2, 0 :: nat] ! (i mod 2)) [0..<4] = [2, 0, 2, 0]" by code_simp
  have s: "{p \<in> set [0, 1, 2 :: nat]. p \<noteq> 1} = {0, 2}" by auto
  show ?thesis using round_robin_fair [of 0 "[0, 1, 2]" "\<lambda>p. p \<noteq> 1" 2 4 2] unfolding r m s by simp
qed

section \<open>Sticky sessions\<close>

text \<open>The cache of the sessions as the calls leave it.\<close>

definition sticky_ok :: "(u64, int) LruCache \<Rightarrow> bool" where
  "sticky_ok c = (cache_inv c \<and> sticky_inv c \<and> maxAge c = 600 \<and> \<not> staleReturn c \<and> \<not> updateAgeOnGet c)"

lemma updateAgeOnGet_kept:
  "updateAgeOnGet (deleteOldest_loop now c) = updateAgeOnGet c"
  "updateAgeOnGet (maybeDeleteOldest now c) = updateAgeOnGet c"
  "updateAgeOnGet (setWithExpire now k v x c) = updateAgeOnGet c"
proof -
  have d: "updateAgeOnGet (deleteElement e c) = updateAgeOnGet c" for e and c :: "('a, 'b) LruCache"
    by (simp add: deleteElement_def Let_def)
  show a: "updateAgeOnGet (deleteOldest_loop now c) = updateAgeOnGet c" for c :: "('a, 'b) LruCache"
    by (induction now c rule: deleteOldest_loop.induct)
      (subst deleteOldest_loop.simps, auto split: list.split simp: d)
  show b: "updateAgeOnGet (maybeDeleteOldest now c) = updateAgeOnGet c" for c :: "('a, 'b) LruCache"
    by (simp add: maybeDeleteOldest_def a)
  show "updateAgeOnGet (setWithExpire now k v x c) = updateAgeOnGet c"
    by (simp add: setWithExpire_def Let_def b d)
qed

lemma maybeDeleteOldest_params:
  "maxAge (maybeDeleteOldest now c) = maxAge c" "staleReturn (maybeDeleteOldest now c) = staleReturn c"
proof -
  have "maxAge (deleteOldest_loop now c) = maxAge c \<and> staleReturn (deleteOldest_loop now c) = staleReturn c"
    by (induction now c rule: deleteOldest_loop.induct)
      (subst (1 2) deleteOldest_loop.simps, auto split: list.split)
  then show "maxAge (maybeDeleteOldest now c) = maxAge c" "staleReturn (maybeDeleteOldest now c) = staleReturn c"
    by (simp_all add: maybeDeleteOldest_def)
qed

lemma sticky_ok_new: "sticky_ok newStickyCache"
  by (simp add: sticky_ok_def newStickyCache_def NewCache_def cache_inv_def sticky_inv_def)

lemma sticky_ok_Get: "sticky_ok c \<Longrightarrow> sticky_ok (snd (Get now key c))"
  using cache_get_inv [of c now key] Get_values(1) [of now key c]
  by (auto simp: sticky_ok_def sticky_inv_def Get_def cache_get_def Let_def maybeDeleteOldest_params updateAgeOnGet_kept
      deleteElement_def split: option.splits if_splits)

lemma sticky_ok_Set: "sticky_ok c \<Longrightarrow> 0 \<le> j \<Longrightarrow> sticky_ok (Set now key j c)"
  using cache_set_inv [of c now key j] Set_values [of now key j c]
  by (fastforce simp: sticky_ok_def sticky_inv_def Set_def cache_set_def Let_def updateAgeOnGet_kept)

lemma strategyStickySessions_cases:
  assumes "sticky_ok c" "proxies \<noteq> []" "strategyStickySessions be alive proxies m now c = Ret (p, c1)"
    and "key = be_hash be (getKeyWithSrcAndDst be m)" "fst (Get now key c) = None"
  shows "\<exists>j. 0 \<le> j \<and> j < int (length proxies) \<and> p = proxies ! nat j \<and> c1 = Set now key j (snd (Get now key c))"
proof -
  define idx where "idx = jumpHash (key + be_nanos be 0) (int32_len proxies)"
  have run: "strategyStickySessions be alive proxies m now c =
      obind (stickyLoop alive (be_nanos be) proxies key 4 1 idx) (\<lambda>r. case r of
           Some (p, nowIdx) \<Rightarrow> Ret (p, Set now key nowIdx (snd (Get now key c)))
         | None \<Rightarrow> obind (at proxies 0) (\<lambda>p. Ret (p, Set now key 0 (snd (Get now key c)))))"
    using assms(5) unfolding strategyStickySessions_def Let_def assms(4) [symmetric] idx_def by simp
  from stickyLoop_picks [OF assms(2) jumpHash_index [OF assms(2)], of alive "be_nanos be" key 4 1 "key + be_nanos be 0"]
  obtain r where r: "stickyLoop alive (be_nanos be) proxies key 4 1 idx = Ret r"
    "\<And>p j. r = Some (p, j) \<Longrightarrow> 0 \<le> j \<and> p = proxies ! nat j \<and> j < int (length proxies)" unfolding idx_def by blast
  show ?thesis
  proof (cases r)
    case None
    with run r(1) assms(2,3) have "p = proxies ! nat 0 \<and> c1 = Set now key 0 (snd (Get now key c))"
      by (simp add: at_0 hd_conv_nth)
    with assms(2) show ?thesis by (intro exI [of _ 0]) simp
  next
    case (Some x)
    with run r assms(3) show ?thesis by (cases x) auto
  qed
qed

text \<open>A call for a session that is remembered and alive returns it and leaves the memory.\<close>

definition remembers :: "(u64, int) LruCache \<Rightarrow> u64 \<Rightarrow> int \<Rightarrow> int \<Rightarrow> bool" where
  "remembers c key j expires = (cached c key = Some \<lparr>e_key = key, e_value = j, e_expires = expires\<rparr>)"

lemma strategyStickySessions_stays:
  assumes "sticky_ok c" "remembers c key j x" "now < x" "0 \<le> j" "j < int (length proxies)" "alive (proxies ! nat j)"
    and "key = be_hash be (getKeyWithSrcAndDst be m)"
  shows "\<exists>c1. strategyStickySessions be alive proxies m now c = Ret (proxies ! nat j, c1)
    \<and> sticky_ok c1 \<and> remembers c1 key j x \<and> c1 = snd (Get now key c)"
proof -
  let ?g = "Get now key c"
  have g: "fst ?g = Some j" using Get_live [OF assms(2) [unfolded remembers_def], of now] assms(3) by simp
  have l: "stickyLoop alive nanos proxies key 4 1 j = Ret (Some (proxies ! nat j, j))" for nanos
    using at_Ret [OF assms(4,5)] assms(6) by (simp add: eval_nat_numeral)
  have "strategyStickySessions be alive proxies m now c = Ret (proxies ! nat j, snd ?g)"
    using g l assms(5) unfolding strategyStickySessions_def Let_def assms(7) [symmetric] by simp
  moreover have "remembers (snd ?g) key j x"
    using assms(1-3) by (simp add: remembers_def sticky_ok_def Get_def cache_get_def Let_def cached_set_back)
  ultimately show ?thesis using sticky_ok_Get [OF assms(1)] by blast
qed

lemma key_nanos [simp]: "getKeyWithSrcAndDst (be\<lparr>be_nanos := nanos\<rparr>) m = getKeyWithSrcAndDst be m"
  by (simp add: getKeyWithSrcAndDst_def getKey_def split: option.split)

lemma maybeDeleteOldest_length:
  "distinct (keys_of (lru c)) \<Longrightarrow> length (lru (maybeDeleteOldest now c)) \<le> length (lru c)"
  using deleteOldest_loop_front [of c now] by (auto simp: maybeDeleteOldest_def dest: arg_cong [where f = length])

lemma maxSize_kept: "maxSize (maybeDeleteOldest now c) = maxSize c"
proof -
  have "maxSize (deleteOldest_loop now c) = maxSize c"
    by (induction now c rule: deleteOldest_loop.induct) (subst deleteOldest_loop.simps, auto split: list.split)
  then show ?thesis by (simp add: maybeDeleteOldest_def)
qed

text \<open>What a call for another session does to a remembered one, while the cache is not full.\<close>

lemma Get_size:
  assumes "distinct (keys_of (lru c))"
  shows "length (lru (snd (Get now k c))) \<le> length (lru c)" "maxSize (snd (Get now k c)) = maxSize c"
proof -
  have "length (lru (maybeDeleteOldest now (deleteElement e c))) \<le> length (lru c)" for e
    using maybeDeleteOldest_length [of "deleteElement e c" now] length_without_le [of "e_key e" "lru c"] assms
    by (simp add: keys_without)
  moreover have "Suc (length (without k (lru c))) \<le> length (lru c)" if "cached c k = Some e" for e
    using length_without_less [of k "lru c"] cached_None [of c k] that by (simp add: Suc_le_eq)
  ultimately show "length (lru (snd (Get now k c))) \<le> length (lru c)"
    by (auto simp: Get_def cache_get_def Let_def split: option.split)
  show "maxSize (snd (Get now k c)) = maxSize c"
    by (auto simp: Get_def cache_get_def Let_def maxSize_kept split: option.split)
qed

lemma other_Get:
  assumes "sticky_ok c" "remembers c k j x" "now < x" "k' \<noteq> k"
  shows "remembers (snd (Get now k' c)) k j x"
proof -
  have "remembers (maybeDeleteOldest now (deleteElement e c)) k j x" if "e_key e = k'" for e
    unfolding remembers_def using assms that
    by (intro maybeDeleteOldest_keeps) (auto simp: cached_deleteElement remembers_def sticky_ok_def cache_inv_def keys_without)
  then show ?thesis using cached_Some [of c k'] assms(2,4)
    by (auto simp: Get_def cache_get_def Let_def remembers_def cached_set_back split: option.split)
qed

lemma other_Set:
  assumes "sticky_ok c" "remembers c k j x" "now < x" "k' \<noteq> k" "int (length (lru c)) < maxSize c"
  shows "remembers (Set now k' v c) k j x" "length (lru (Set now k' v c)) \<le> length (lru c) + 1"
    "maxSize (Set now k' v c) = maxSize c"
proof -
  let ?e = "\<lparr>e_key = k', e_value = v, e_expires = (if maxAge c > 0 then now + maxAge c else 0)\<rparr>"
  let ?c1 = "c\<lparr>lru := without k' (lru c) @ [?e]\<rparr>"
  have "int (length (lru ?c1)) \<le> maxSize c" using length_without_le [of k' "lru c"] assms(5) by simp
  then have s: "Set now k' v c = maybeDeleteOldest now ?c1"
    by (simp add: Set_def cache_set_def setWithExpire_def Let_def)
  have d: "distinct (keys_of (lru ?c1))" using assms(1) by (simp add: sticky_ok_def cache_inv_def keys_without)
  show "remembers (Set now k' v c) k j x" unfolding remembers_def s
    by (rule maybeDeleteOldest_keeps [OF d]) (use assms(2-4) in \<open>auto simp: cached_set_back remembers_def\<close>)
  show "length (lru (Set now k' v c)) \<le> length (lru c) + 1"
    using maybeDeleteOldest_length [OF d, of now] length_without_le [of k' "lru c"] unfolding s by simp
  show "maxSize (Set now k' v c) = maxSize c" unfolding s maxSize_kept by simp
qed

lemma strategyStickySessions_other:
  assumes "sticky_ok c" "remembers c k j x" "now < x" "int (length (lru c)) < maxSize c" "proxies \<noteq> []"
    and "be_hash be (getKeyWithSrcAndDst be m) \<noteq> k"
  shows "\<exists>q c1. strategyStickySessions be alive proxies m now c = Ret (q, c1) \<and> sticky_ok c1
    \<and> remembers c1 k j x \<and> length (lru c1) \<le> length (lru c) + 1 \<and> maxSize c1 = maxSize c"
proof -
  define k' where "k' = be_hash be (getKeyWithSrcAndDst be m)"
  define g where "g = Get now k' c"
  define idx where "idx = (case fst g of None \<Rightarrow> jumpHash (k' + be_nanos be 0) (int32_len proxies)
     | Some i \<Rightarrow> if i \<ge> int (length proxies) then jumpHash (k' + be_nanos be 0) (int32_len proxies) else i)"
  have "0 \<le> v" if "fst g = Some v" for v
    using Get_values(2) [of now k' c v] that assms(1) by (auto simp: g_def sticky_ok_def sticky_inv_def)
  then have "0 \<le> idx" "idx < int (length proxies)"
    using jumpHash_index [OF assms(5)] by (auto simp: idx_def split: option.split)
  from stickyLoop_picks [OF assms(5) this, of alive "be_nanos be" k' 4 1]
  obtain r where r: "stickyLoop alive (be_nanos be) proxies k' 4 1 idx = Ret r" "\<And>p j. r = Some (p, j) \<Longrightarrow> 0 \<le> j" by blast
  have run: "strategyStickySessions be alive proxies m now c = obind (Ret r) (\<lambda>r. case r of
           Some (p, nowIdx) \<Rightarrow> Ret (p, if \<not> (fst g \<noteq> None) \<or> nowIdx \<noteq> idx then Set now k' nowIdx (snd g) else snd g)
         | None \<Rightarrow> obind (at proxies 0) (\<lambda>p. Ret (p, Set now k' 0 (snd g))))"
    unfolding r(1) [symmetric] by (simp only: strategyStickySessions_def Let_def k'_def g_def idx_def)
  have ne: "k' \<noteq> k" using assms(6) by (simp add: k'_def)
  have d: "distinct (keys_of (lru c))" using assms(1) by (simp add: sticky_ok_def cache_inv_def)
  note G = sticky_ok_Get [OF assms(1), of now k', folded g_def] other_Get [OF assms(1-3) ne, folded g_def]
    Get_size [OF d, of now k', folded g_def]
  have room: "int (length (lru (snd g))) < maxSize (snd g)" using G(3,4) assms(4) by linarith
  note S = sticky_ok_Set [OF G(1)] other_Set [OF G(1,2) assms(3) ne room]
  show ?thesis
  proof (cases r)
    case None
    have "strategyStickySessions be alive proxies m now c = Ret (hd proxies, Set now k' 0 (snd g))"
      using assms(5) None run by (simp add: at_0)
    moreover have "length (lru (Set now k' 0 (snd g))) \<le> length (lru c) + 1" using S(3) [of 0] G(3) by linarith
    ultimately show ?thesis using S(1) [OF order_refl] S(2,4) [of 0] G(4) by metis
  next
    case (Some z)
    obtain p i where z: "z = (p, i)" by fastforce
    have i: "0 \<le> i" using r(2) Some z by simp
    have "strategyStickySessions be alive proxies m now c = Ret (p, Set now k' i (snd g)) \<or>
       strategyStickySessions be alive proxies m now c = Ret (p, snd g)" using run Some z by simp
    then show ?thesis
    proof
      assume "strategyStickySessions be alive proxies m now c = Ret (p, Set now k' i (snd g))"
      moreover have "length (lru (Set now k' i (snd g))) \<le> length (lru c) + 1" using S(3) [of i] G(3) by linarith
      ultimately show ?thesis using S(1) [OF i] S(2,4) [of i] G(4) by metis
    next
      assume "strategyStickySessions be alive proxies m now c = Ret (p, snd g)"
      moreover have "length (lru (snd g)) \<le> length (lru c) + 1" using G(3) by linarith
      ultimately show ?thesis using G(1,2,4) by blast
    qed
  qed
qed

text \<open>
  Calls for any connections: the metadata of each call and its clock readings, in nanoseconds for the
  hash and in seconds for the cache.
\<close>

fun stickyTraffic :: "BalanceEnv \<Rightarrow> (pref \<Rightarrow> bool) \<Rightarrow> pref list \<Rightarrow> (Metadata option \<times> (nat \<Rightarrow> u64) \<times> int) list
    \<Rightarrow> (u64, int) LruCache \<Rightarrow> pref list outcome" where
  "stickyTraffic be alive proxies [] c = Ret []"
| "stickyTraffic be alive proxies ((m, nanos, now) # calls) c =
     obind (strategyStickySessions (be\<lparr>be_nanos := nanos\<rparr>) alive proxies m now c) (\<lambda>(p, c1).
       obind (stickyTraffic be alive proxies calls c1) (\<lambda>ps. Ret (p # ps)))"

lemma stickyTraffic_stay:
  assumes "sticky_ok c" "remembers c k j x" "\<forall>call\<in>set calls. snd (snd call) < x"
    and "int (length (lru c) + length calls) \<le> maxSize c" "proxies \<noteq> []"
    and "0 \<le> j" "j < int (length proxies)" "alive (proxies ! nat j)"
  shows "\<exists>ps. stickyTraffic be alive proxies calls c = Ret ps
    \<and> list_all2 (\<lambda>call q. be_hash be (getKeyWithSrcAndDst be (fst call)) = k \<longrightarrow> q = proxies ! nat j) calls ps"
  using assms(1-4)
proof (induction calls arbitrary: c)
  case (Cons a calls)
  obtain m nanos now where a: "a = (m, nanos, now)" by (metis prod_cases3)
  let ?be = "be\<lparr>be_nanos := nanos\<rparr>"
  have hash: "be_hash ?be (getKeyWithSrcAndDst ?be m) = be_hash be (getKeyWithSrcAndDst be m)" by simp
  have now: "now < x" using Cons.prems(3) a by simp
  have room: "int (length (lru c)) < maxSize c" using Cons.prems(4) by simp
  show ?case
  proof (cases "be_hash be (getKeyWithSrcAndDst be m) = k")
    case True
    have k: "k = be_hash ?be (getKeyWithSrcAndDst ?be m)" using True by simp
    obtain c1 where c1: "strategyStickySessions ?be alive proxies m now c = Ret (proxies ! nat j, c1)"
      "sticky_ok c1" "remembers c1 k j x" "c1 = snd (Get now k c)"
      using strategyStickySessions_stays [where alive = alive, OF Cons.prems(1,2) now assms(6-8) k] by blast
    have "distinct (keys_of (lru c))" using Cons.prems(1) by (simp add: sticky_ok_def cache_inv_def)
    from Get_size [OF this, of now k] c1(4) Cons.prems(4) have "int (length (lru c1) + length calls) \<le> maxSize c1" by simp
    with Cons.IH [OF c1(2,3)] Cons.prems(3) a obtain ps where "stickyTraffic be alive proxies calls c1 = Ret ps"
      "list_all2 (\<lambda>call q. be_hash be (getKeyWithSrcAndDst be (fst call)) = k \<longrightarrow> q = proxies ! nat j) calls ps" by auto
    then show ?thesis using a c1(1) by auto
  next
    case False
    then have "be_hash ?be (getKeyWithSrcAndDst ?be m) \<noteq> k" by simp
    from strategyStickySessions_other [OF Cons.prems(1,2) now room assms(5) this, of alive]
    obtain q c1 where c1: "strategyStickySessions ?be alive proxies m now c = Ret (q, c1)" "sticky_ok c1" "remembers c1 k j x"
      "length (lru c1) \<le> length (lru c) + 1" "maxSize c1 = maxSize c" by blast
    have "int (length (lru c1) + length calls) \<le> maxSize c1" using c1(4,5) Cons.prems(4) by simp
    with Cons.IH [OF c1(2,3)] Cons.prems(3) a obtain ps where "stickyTraffic be alive proxies calls c1 = Ret ps"
      "list_all2 (\<lambda>call q. be_hash be (getKeyWithSrcAndDst be (fst call)) = k \<longrightarrow> q = proxies ! nat j) calls ps" by auto
    then show ?thesis using a c1(1) False by auto
  qed
qed simp

text \<open>
  C31. A session sticks to its proxy: when a connection without a remembered position was given a
  proxy that is alive, every call for a connection with the same hash of source and destination in the next
  ten minutes gets the same proxy, whatever the clock would hash to and whatever calls for other
  connections come in between, as long as the list of proxies and its health stay and the cache of
  sessions has room: its size, 1000 in the code, is at least the sessions it holds plus the calls that follow.
\<close>

theorem sticky_session:
  assumes "sticky_ok c" "proxies \<noteq> []" "fst (Get now (be_hash be (getKeyWithSrcAndDst be m)) c) = None"
    and "strategyStickySessions be alive proxies m now c = Ret (p, c1)" "alive p"
    and "\<forall>call\<in>set calls. snd (snd call) < now + 600" "int (length (lru c1) + length calls) \<le> maxSize c1"
  shows "\<exists>ps. stickyTraffic be alive proxies calls c1 = Ret ps
    \<and> list_all2 (\<lambda>call q. be_hash be (getKeyWithSrcAndDst be (fst call)) = be_hash be (getKeyWithSrcAndDst be m) \<longrightarrow> q = p) calls ps"
proof -
  let ?k = "be_hash be (getKeyWithSrcAndDst be m)"
  let ?c = "snd (Get now ?k c)"
  obtain j where j: "0 \<le> j" "j < int (length proxies)" "p = proxies ! nat j" "c1 = Set now ?k j ?c"
    using strategyStickySessions_cases [OF assms(1,2,4) refl assms(3)] by blast
  have ok: "sticky_ok ?c" by (rule sticky_ok_Get [OF assms(1)])
  then have "remembers c1 ?k j (now + 600)" unfolding j(4) remembers_def Set_def cache_set_def
    using setWithExpire_cached [of ?c now "now + 600" ?k j] by (simp add: sticky_ok_def)
  from stickyTraffic_stay [where alive = alive and be = be, OF _ this _ assms(7,2) j(1,2)] sticky_ok_Set [OF ok j(1)] j assms(5,6)
  show ?thesis by simp
qed

definition example_calls :: "(Metadata option \<times> (nat \<Rightarrow> u64) \<times> int) list" where
  "example_calls = [(None, \<lambda>_. 3, 100), (Some (empty_metadata\<lparr>md_Host := ''b.com''\<rparr>), \<lambda>_. 1, 200), (None, \<lambda>_. 11, 604)]"

theorem sticky_session_witness:
  "\<exists>c1 ps. strategyStickySessions example_benv (\<lambda>_. True) [7, 8, 9] None 5 newStickyCache = Ret (7, c1)
    \<and> stickyTraffic example_benv (\<lambda>_. True) [7, 8, 9] example_calls c1 = Ret ps \<and> length ps = 3 \<and> ps ! 0 = 7 \<and> ps ! 2 = 7"
proof -
  have s: "case strategyStickySessions example_benv (\<lambda>_. True) [7, 8, 9] None 5 newStickyCache of
    Ret (p, c) \<Rightarrow> p = 7 \<and> length (lru c) = 1 \<and> maxSize c = 1000 | _ \<Rightarrow> False" by code_simp
  then obtain c1 where c1: "strategyStickySessions example_benv (\<lambda>_. True) [7, 8, 9] None 5 newStickyCache = Ret (7, c1)"
    "length (lru c1) = 1" "maxSize c1 = 1000"
    by (auto split: outcome.splits)
  have g: "fst (Get 5 (be_hash example_benv (getKeyWithSrcAndDst example_benv None)) newStickyCache) = None" by code_simp
  have t: "\<forall>call\<in>set example_calls. snd (snd call) < 5 + 600" "int (length (lru c1) + length example_calls) \<le> maxSize c1"
    using c1(2,3) by (simp_all add: example_calls_def)
  from sticky_session [OF sticky_ok_new _ g c1(1) TrueI t]
  obtain ps where ps: "stickyTraffic example_benv (\<lambda>_. True) [7, 8, 9] example_calls c1 = Ret ps"
    "list_all2 (\<lambda>call q. be_hash example_benv (getKeyWithSrcAndDst example_benv (fst call))
       = be_hash example_benv (getKeyWithSrcAndDst example_benv None) \<longrightarrow> q = 7) example_calls ps" by auto
  then have "length ps = 3 \<and> ps ! 0 = 7 \<and> ps ! 2 = 7" by (auto simp: example_calls_def list_all2_Cons1)
  with ps(1) c1(1) show ?thesis by blast
qed

text \<open>
  A remembered position that lies past the end of a list that has become shorter is neither used
  nor replaced: every call picks by the clock anew, although all proxies are alive, so the session
  does not stick until the entry expires.
\<close>

theorem sticky_stale_position:
  assumes "sticky_ok c" "remembers c (be_hash be (getKeyWithSrcAndDst be m)) j x" "now < x" "int (length proxies) \<le> j"
    and "proxies \<noteq> []"
  shows "\<exists>c1. strategyStickySessions be (\<lambda>_. True) proxies m now c =
      Ret (proxies ! nat (jumpHash (be_hash be (getKeyWithSrcAndDst be m) + be_nanos be 0) (int32_len proxies)), c1)
    \<and> remembers c1 (be_hash be (getKeyWithSrcAndDst be m)) j x"
proof -
  let ?k = "be_hash be (getKeyWithSrcAndDst be m)"
  let ?g = "Get now ?k c"
  let ?i = "jumpHash (?k + be_nanos be 0) (int32_len proxies)"
  have g: "fst ?g = Some j" using Get_live [OF assms(2) [unfolded remembers_def], of now] assms(3) by simp
  have l: "stickyLoop (\<lambda>_. True) nanos proxies ?k 4 1 ?i = Ret (Some (proxies ! nat ?i, ?i))" for nanos
    using at_Ret [OF jumpHash_index [OF assms(5)]] by (simp add: eval_nat_numeral)
  have "strategyStickySessions be (\<lambda>_. True) proxies m now c = Ret (proxies ! nat ?i, snd ?g)"
    using g l assms(4) unfolding strategyStickySessions_def Let_def by simp
  moreover have "remembers (snd ?g) ?k j x"
    using assms(1-3) by (simp add: remembers_def sticky_ok_def Get_def cache_get_def Let_def cached_set_back)
  ultimately show ?thesis by blast
qed

theorem sticky_stale_position_witness:
  "\<exists>c1. strategyStickySessions example_benv (\<lambda>_. True) [7] None 9 (Set 5 0 4 newStickyCache) = Ret (7, c1)
    \<and> remembers c1 0 4 605"
proof -
  have k: "be_hash example_benv (getKeyWithSrcAndDst example_benv None) = 0" by code_simp
  have ok: "sticky_ok (Set 5 0 4 newStickyCache)" by (rule sticky_ok_Set [OF sticky_ok_new]) simp
  have r: "remembers (Set 5 0 4 newStickyCache) 0 4 605" unfolding remembers_def by code_simp
  have i: "jumpHash (0 + be_nanos example_benv 0) (int32_len [7 :: nat]) = 0" by code_simp
  show ?thesis using sticky_stale_position [OF ok, of example_benv None 4 605 9 "[7]"] r k i by simp
qed

section \<open>Failed dials\<close>

text \<open>A failed dial of a group: the health check runs when the counting says so.\<close>

definition dialFailed :: "int \<Rightarrow> AdapterType \<Rightarrow> string \<Rightarrow> GroupBase \<Rightarrow> bool \<times> GroupBase" where
  "dialFailed now adapterType err gb =
     (let r = onDialFailed now adapterType False err gb in if fst r then gb_healthCheck (snd r) else r)"

fun dialsFailed :: "AdapterType \<Rightarrow> string \<Rightarrow> int list \<Rightarrow> GroupBase \<Rightarrow> bool list \<times> GroupBase" where
  "dialsFailed adapterType err [] gb = ([], gb)"
| "dialsFailed adapterType err (now # ts) gb =
     (let r = dialFailed now adapterType err gb; rs = dialsFailed adapterType err ts (snd r)
      in (fst r # fst rs, snd rs))"

lemma dialsFailed_counting:
  assumes "tp \<notin> set ignoredTypes" "\<not> Contains err ''connection refused''" "\<not> failedTesting gb"
    and "\<forall>t\<in>set ts. t - failedTime gb \<le> testTimeout gb * 1000000"
    and "0 < failedTimes gb" "failedTimes gb + int (length ts) = max 2 (maxFailedTimes gb)" "ts \<noteq> []"
  shows "fst (dialsFailed tp err ts gb) = replicate (length ts - 1) False @ [True]
    \<and> failedTimes (snd (dialsFailed tp err ts gb)) = 0"
  using assms(3-7)
proof (induction ts arbitrary: gb)
  case (Cons t ts)
  let ?gb = "gb\<lparr>failedTimes := failedTimes gb + 1\<rparr>"
  have r: "onDialFailed t tp False err gb = (failedTimes gb + 1 \<ge> maxFailedTimes gb, ?gb)"
    using Cons.prems assms(1,2) by (simp add: onDialFailed_def Let_def)
  show ?case
  proof (cases "ts = []")
    case True
    with Cons.prems r show ?thesis by (simp add: dialFailed_def gb_healthCheck_def)
  next
    case False
    then have "\<not> failedTimes gb + 1 \<ge> maxFailedTimes gb" using Cons.prems by (cases ts) auto
    with r have d: "dialFailed t tp err gb = (False, ?gb)" by (simp add: dialFailed_def)
    have "fst (dialsFailed tp err ts ?gb) = replicate (length ts - 1) False @ [True]
      \<and> failedTimes (snd (dialsFailed tp err ts ?gb)) = 0"
      by (rule Cons.IH) (use Cons.prems False in auto)
    then show ?thesis using d False by (cases ts) (simp_all add: Let_def)
  qed
qed simp

text \<open>
  Failed dials start a health check after \<open>max-failed-times\<close> failures that fall into the time
  window that begins with the first of them, not earlier, and counting starts over after it. A limit
  of one counts as two.
\<close>

theorem failed_dials_start_check:
  assumes "tp \<notin> set ignoredTypes" "\<not> Contains err ''connection refused''"
    and "failedTimes gb = 0" "\<not> failedTesting gb" "int (length ts) = max 2 (maxFailedTimes gb)"
    and "\<forall>t\<in>set ts. t - hd ts \<le> testTimeout gb * 1000000"
  shows "fst (dialsFailed tp err ts gb) = replicate (length ts - 1) False @ [True]
    \<and> failedTimes (snd (dialsFailed tp err ts gb)) = 0"
proof (cases ts)
  case (Cons t us)
  let ?gb = "gb\<lparr>failedTimes := 1, failedTime := t\<rparr>"
  have d: "dialFailed t tp err gb = (False, ?gb)"
    using assms(1-3) by (simp add: dialFailed_def onDialFailed_def Let_def)
  have us: "us \<noteq> []" using assms(5) Cons by auto
  have "fst (dialsFailed tp err us ?gb) = replicate (length us - 1) False @ [True]
      \<and> failedTimes (snd (dialsFailed tp err us ?gb)) = 0"
    by (rule dialsFailed_counting) (use assms Cons us in auto)
  with d Cons us show ?thesis by (cases us) (simp_all add: Let_def)
qed (use assms(5) in auto)

theorem failed_dials_start_check_witness:
  "fst (dialsFailed AT_Shadowsocks ''timeout'' [0, 1000, 2000]
      (example_base\<lparr>failedTimes := 0, failedTesting := False, maxFailedTimes := 3, testTimeout := 5000\<rparr>)) = [False, False, True]"
proof -
  let ?gb = "example_base\<lparr>failedTimes := 0, failedTesting := False, maxFailedTimes := 3, testTimeout := 5000\<rparr>"
  have t: "AT_Shadowsocks \<notin> set ignoredTypes" "\<not> Contains ''timeout'' ''connection refused''" by code_simp+
  show ?thesis using failed_dials_start_check [OF t, of ?gb "[0, 1000, 2000]"] by (simp add: eval_nat_numeral)
qed

end
