(* ===== verification/DomainSet.thy ===== *)
theory DomainSet
  imports DomainTrie "HOL-Library.Char_ord" "HOL-Library.List_Lexorder"
begin

text \<open>
  The succinct domain set (src/component/trie/domain_set.go): the sorted, reversed domains of a trie
  as a byte-level trie in level order, its shape a bitmap with a zero for each label and a one at the
  end of each node, walked by rank and select; and \<open>Reverse\<close> of src/common/utils/strings.go, which
  works on runes. The package of rank and select indexes is a parameter, its documented behaviour a
  hypothesis (\<open>documented_pkg\<close>). The loop of \<open>Has\<close> over an arbitrary bitmap may run forever, so it is
  a partial function; over a set that was built from keys it returns.
\<close>


section \<open>Reversal of strings\<close>

text \<open>
  The conversion of a string to runes as the language defines it: UTF-8, a byte that is not part of
  a well-formed sequence counting as U+FFFD.
\<close>

definition byte_between :: "int \<Rightarrow> int \<Rightarrow> int \<Rightarrow> bool" where
  "byte_between lo hi x = (lo \<le> x \<and> x \<le> hi)"

definition decodeRune :: "int \<Rightarrow> int list \<Rightarrow> int \<times> nat" where
  "decodeRune b0 bs =
     (let cont = byte_between 128 191; b = (\<lambda>i. if i < length bs then bs ! i else 0) in
      if b0 < 128 then (b0, 1)
      else if byte_between 194 223 b0 \<and> cont (b 0) then ((b0 mod 32) * 64 + b 0 mod 64, 2)
      else if byte_between 224 239 b0 \<and> byte_between (if b0 = 224 then 160 else 128) (if b0 = 237 then 159 else 191) (b 0) \<and> cont (b 1)
      then ((b0 mod 16) * 4096 + (b 0 mod 64) * 64 + b 1 mod 64, 3)
      else if byte_between 240 244 b0 \<and> byte_between (if b0 = 240 then 144 else 128) (if b0 = 244 then 143 else 191) (b 0) \<and> cont (b 1) \<and> cont (b 2)
      then ((b0 mod 8) * 262144 + (b 0 mod 64) * 4096 + (b 1 mod 64) * 64 + b 2 mod 64, 4)
      else (65533, 1))"

definition encodeRune :: "int \<Rightarrow> int list" where
  "encodeRune r =
     (if r < 128 then [r]
      else if r < 2048 then [192 + r div 64, 128 + r mod 64]
      else if r < 65536 then [224 + r div 4096, 128 + r div 64 mod 64, 128 + r mod 64]
      else [240 + r div 262144, 128 + r div 4096 mod 64, 128 + r div 64 mod 64, 128 + r mod 64])"

function runes :: "int list \<Rightarrow> int list" where
  "runes [] = []"
| "runes (b # bs) = (case decodeRune b bs of (r, n) \<Rightarrow> r # runes (drop (n - 1) bs))"
  by pat_completeness auto
termination by (relation "measure length") auto

definition Reverse :: "string \<Rightarrow> string" where
  "Reverse s = map char_of (concat (map encodeRune (rev (runes (map of_char s)))))"

definition ascii :: "string \<Rightarrow> bool" where
  "ascii s = list_all (\<lambda>c. (of_char c :: int) < 128) s"

lemma runes_ascii: "ascii s \<Longrightarrow> runes (map of_char s) = map of_char s"
  by (induction s) (simp_all add: ascii_def decodeRune_def)

lemma Reverse_ascii: "ascii s \<Longrightarrow> Reverse s = rev s"
proof -
  assume a: "ascii s"
  have "concat (map encodeRune (map of_char t)) = map of_char t" if "ascii t" for t
    using that by (induction t) (simp_all add: ascii_def encodeRune_def)
  from this [of "rev s"] a show ?thesis
    by (simp add: Reverse_def runes_ascii rev_map [symmetric] ascii_def list_all_iff comp_def)
qed

section \<open>Bitmaps\<close>

definition setBit :: "u64 list \<Rightarrow> int \<Rightarrow> u64 \<Rightarrow> u64 list" where
  "setBit bm i v =
     (let bm1 = bm @ replicate (nat (i div 64) + 1 - length bm) 0
      in bm1[nat (i div 64) := bm1 ! nat (i div 64) OR push_bit (nat (i mod 64)) v])"

definition getBit :: "u64 list \<Rightarrow> int \<Rightarrow> u64 outcome" where
  "getBit bm i = obind (at bm (i div 64)) (\<lambda>w. Ret (w AND push_bit (nat (i mod 64)) 1))"

text \<open>
  The package bitmap of github.com/openacid/low, an argument: the construction of the two indexes of
  a bitmap (selects, ranks), the number of ones in front of a bit (and the bit), and the position of
  the i-th one (and of the next). Positions are of type \<open>int32\<close>.
\<close>

record bitmap_pkg =
  IndexSelect32R64 :: "u64 list \<Rightarrow> int list \<times> int list"
  Rank64 :: "u64 list \<Rightarrow> int list \<Rightarrow> int \<Rightarrow> (int \<times> int) outcome"
  Select32R64 :: "u64 list \<Rightarrow> int list \<Rightarrow> int list \<Rightarrow> int \<Rightarrow> (int \<times> int) outcome"

definition to_int32 :: "int \<Rightarrow> int" where
  "to_int32 i = sint (word_of_int i :: u32)"

definition countZeros :: "bitmap_pkg \<Rightarrow> u64 list \<Rightarrow> int list \<Rightarrow> int \<Rightarrow> int outcome" where
  "countZeros pkg bm ranks i = obind (Rank64 pkg bm ranks (to_int32 i)) (\<lambda>r. Ret (i - fst r))"

definition selectIthOne :: "bitmap_pkg \<Rightarrow> u64 list \<Rightarrow> int list \<Rightarrow> int list \<Rightarrow> int \<Rightarrow> int outcome" where
  "selectIthOne pkg bm ranks selects i = obind (Select32R64 pkg bm selects ranks (to_int32 i)) (\<lambda>r. Ret (fst r))"

section \<open>Construction\<close>

record DomainSet =
  leaves :: "u64 list"
  labelBitmap :: "u64 list"
  labels :: string
  ranks :: "int list"
  selects :: "int list"

definition ds_init :: "bitmap_pkg \<Rightarrow> DomainSet \<Rightarrow> DomainSet" where
  "ds_init pkg ss = (let x = IndexSelect32R64 pkg (labelBitmap ss) in ss\<lparr>selects := fst x, ranks := snd x\<rparr>)"

record qElt =
  q_s :: int
  q_e :: int
  q_col :: int

definition byteAt :: "string list \<Rightarrow> int \<Rightarrow> int \<Rightarrow> char outcome" where
  "byteAt keys j col = obind (at keys j) (\<lambda>k. at k col)"

text \<open>The end of the run of keys with the same byte.\<close>

function runEnd :: "string list \<Rightarrow> int \<Rightarrow> int \<Rightarrow> char \<Rightarrow> int \<Rightarrow> int outcome" where
  "runEnd keys col e c j =
     (if j < e then obind (byteAt keys j col) (\<lambda>d. if d = c then runEnd keys col e c (j + 1) else Ret j) else Ret j)"
  by pat_completeness auto
termination by (relation "measure (\<lambda>(keys, col, e, c, j). nat (e - j))") auto

declare runEnd.simps [simp del]

lemma runEnd_ge: "runEnd keys col e c j = Ret k \<Longrightarrow> j \<le> k"
proof (induction keys col e c j arbitrary: k rule: runEnd.induct)
  case (1 keys col e c j)
  then show ?case by (subst (asm) (2) runEnd.simps) (force simp: obind_eq_Ret split: if_splits)
qed

text \<open>What the two loops build: the part of the queue that is still to come, and the arrays.\<close>

record building =
  b_queue :: "qElt list"
  b_labels :: string
  b_bitmap :: "u64 list"
  b_leaves :: "u64 list"
  b_lIdx :: int

definition add_bit :: "u64 \<Rightarrow> building \<Rightarrow> building" where
  "add_bit v b = b\<lparr>b_bitmap := setBit (b_bitmap b) (b_lIdx b) v, b_lIdx := b_lIdx b + 1\<rparr>"

function childLoop :: "string list \<Rightarrow> int \<Rightarrow> int \<Rightarrow> int \<Rightarrow> building \<Rightarrow> building outcome" where
  "childLoop keys col e j b =
     (if j < e then
        obind (byteAt keys j col) (\<lambda>c.
        obind (runEnd keys col e c (j + 1)) (\<lambda>j1.
          childLoop keys col e j1
            (add_bit 0 (b\<lparr>b_queue := b_queue b @ [\<lparr>q_s = j, q_e = j1, q_col = col + 1\<rparr>], b_labels := b_labels b @ [c]\<rparr>))))
      else Ret b)"
  by pat_completeness auto
termination
  by (relation "measure (\<lambda>(keys, col, e, j, b). nat (e - j))") (auto dest!: runEnd_ge)

declare childLoop.simps [simp del]

text \<open>
  The queue shrinks: an entry weighs more than the entries that replace it, since these share out its
  keys and lie one column further.
\<close>

definition weight :: "string list \<Rightarrow> qElt \<Rightarrow> nat" where
  "weight keys q = 1 + nat (q_e q - q_s q) * nat (int (Max (insert 0 (length ` set keys))) + 1 - q_col q)"

lemma runEnd_le: "runEnd keys col e c j = Ret k \<Longrightarrow> j \<le> e \<Longrightarrow> k \<le> e"
proof (induction keys col e c j arbitrary: k rule: runEnd.induct)
  case (1 keys col e c j)
  then show ?case by (subst (asm) (2) runEnd.simps) (force simp: obind_eq_Ret split: if_splits)
qed

lemma byteAt_Ret:
  "byteAt keys j col = Ret c \<longleftrightarrow> 0 \<le> j \<and> j < int (length keys) \<and> 0 \<le> col \<and> col < int (length (keys ! nat j))
     \<and> c = keys ! nat j ! nat col"
  by (auto simp: byteAt_def obind_eq_Ret at_def)

lemma add_bit_sel [simp]:
  "b_queue (add_bit v b) = b_queue b" "b_labels (add_bit v b) = b_labels b" "b_leaves (add_bit v b) = b_leaves b"
  "b_lIdx (add_bit v b) = b_lIdx b + 1" "b_bitmap (add_bit v b) = setBit (b_bitmap b) (b_lIdx b) v"
  by (simp_all add: add_bit_def)

lemma childLoop_weight:
  "childLoop keys col e j b = Ret b' \<Longrightarrow> \<exists>new. b_queue b' = b_queue b @ new
     \<and> sum_list (map (weight keys) new) \<le> nat (e - j) * nat (int (Max (insert 0 (length ` set keys))) + 1 - col)"
proof (induction keys col e j b rule: childLoop.induct)
  case (1 keys col e j b)
  let ?M = "int (Max (insert 0 (length ` set keys))) + 1"
  show ?case
  proof (cases "j < e")
    case False
    with "1.prems" show ?thesis by (simp add: childLoop.simps)
  next
    case True
    let ?q = "\<lambda>j1. \<lparr>q_s = j, q_e = j1, q_col = col + 1\<rparr>"
    from True "1.prems" obtain c j1 where c: "byteAt keys j col = Ret c" and r: "runEnd keys col e c (j + 1) = Ret j1"
      and l: "childLoop keys col e j1 (add_bit 0 (b\<lparr>b_queue := b_queue b @ [?q j1], b_labels := b_labels b @ [c]\<rparr>)) = Ret b'"
      by (subst (asm) childLoop.simps) (auto simp: obind_eq_Ret)
    from "1.IH" [OF True c r l] obtain new where new: "b_queue b' = b_queue b @ ?q j1 # new"
      "sum_list (map (weight keys) new) \<le> nat (e - j1) * nat (?M - col)" by auto
    have "length (keys ! nat j) \<le> Max (insert 0 (length ` set keys))" using c by (intro Max_ge) (auto simp: byteAt_Ret)
    then have col: "col + 1 < ?M" using c by (auto simp: byteAt_Ret)
    have j1: "j + 1 \<le> j1" "j1 \<le> e" using runEnd_ge [OF r] runEnd_le [OF r] True by auto
    have "int (weight keys (?q j1) + nat (e - j1) * nat (?M - col)) = 1 + (j1 - j) * (?M - col - 1) + (e - j1) * (?M - col)"
      using col j1 by (simp add: weight_def algebra_simps)
    also have "\<dots> \<le> (e - j) * (?M - col)" using j1 by (simp add: algebra_simps)
    also have "\<dots> = int (nat (e - j) * nat (?M - col))" using col True by simp
    finally have "weight keys (?q j1) + nat (e - j1) * nat (?M - col) \<le> nat (e - j) * nat (?M - col)"
      by (simp only: of_nat_le_iff)
    with new show ?thesis by (intro exI [of _ "?q j1 # new"]) (simp del: nat_le_iff)
  qed
qed

definition is_leaf :: "string \<Rightarrow> qElt \<Rightarrow> bool" where
  "is_leaf key q = (q_col q = int (length key))"

function buildLoop :: "string list \<Rightarrow> int \<Rightarrow> building \<Rightarrow> building outcome" where
  "buildLoop keys i b = (case b_queue b of
     [] \<Rightarrow> Ret b
   | elt # queue \<Rightarrow>
       obind (at keys (q_s elt)) (\<lambda>key.
       obind (childLoop keys (q_col elt) (q_e elt) (if is_leaf key elt then q_s elt + 1 else q_s elt)
           (b\<lparr>b_queue := queue, b_leaves := if is_leaf key elt then setBit (b_leaves b) i 1 else b_leaves b\<rparr>)) (\<lambda>b1.
         buildLoop keys (i + 1) (add_bit 1 b1))))"
  by pat_completeness auto
termination
proof (relation "measure (\<lambda>(keys, i, b). sum_list (map (weight keys) (b_queue b)))", goal_cases)
  case (2 keys i b elt queue key b1)
  let ?M = "int (Max (insert 0 (length ` set keys))) + 1"
  define s where "s = (if is_leaf key elt then q_s elt + 1 else q_s elt)"
  from childLoop_weight [OF 2(3)] obtain new where new: "b_queue b1 = queue @ new"
    "sum_list (map (weight keys) new) \<le> nat (q_e elt - s) * nat (?M - q_col elt)" unfolding s_def by auto
  have "nat (q_e elt - s) \<le> nat (q_e elt - q_s elt)" by (rule nat_mono) (simp add: s_def)
  then have "nat (q_e elt - s) * nat (?M - q_col elt) < weight keys elt"
    unfolding weight_def using mult_le_mono1 by (simp add: less_Suc_eq_le)
  with new 2(1) show ?case by simp
qed simp

declare buildLoop.simps [simp del]

definition newDomainSet_keys :: "bitmap_pkg \<Rightarrow> string list \<Rightarrow> DomainSet option outcome" where
  "newDomainSet_keys pkg keys =
     (if length keys = 0 then Ret None
      else obind (buildLoop keys 0
          \<lparr>b_queue = [\<lparr>q_s = 0, q_e = int (length keys), q_col = 0\<rparr>], b_labels = [], b_bitmap = [], b_leaves = [], b_lIdx = 0\<rparr>) (\<lambda>b.
        Ret (Some (ds_init pkg \<lparr>leaves = b_leaves b, labelBitmap = b_bitmap b, labels = b_labels b, ranks = [], selects = []\<rparr>))))"

definition NewDomainSet :: "bitmap_pkg \<Rightarrow> 'a Node \<Rightarrow> DomainSet option outcome" where
  "NewDomainSet pkg root =
     (let reserveDomains = Foreach (\<lambda>s domain data. (True, s @ [Reverse domain])) root [];
          keys = sort reserveDomains
      in newDomainSet_keys pkg keys)"

section \<open>Lookup\<close>

definition revLowerAt :: "string \<Rightarrow> int \<Rightarrow> char outcome" where
  "revLowerAt key i = obind (at key (int (length key) - 1 - i)) (\<lambda>c. Ret (lower_char c))"

definition byteReverse :: "string \<Rightarrow> string" where
  "byteReverse s = rev s"

record wildcardCursor =
  wc_bmIdx :: int
  wc_index :: int

text \<open>The end of the label that starts at an index.\<close>

function labelEnd :: "string \<Rightarrow> int \<Rightarrow> int outcome" where
  "labelEnd key j =
     (if j < int (length key) then obind (revLowerAt key j) (\<lambda>c. if c \<noteq> CHR ''.'' then labelEnd key (j + 1) else Ret j)
      else Ret j)"
  by pat_completeness auto
termination by (relation "measure (\<lambda>(key, j). nat (int (length key) - j))") auto

declare labelEnd.simps [simp del]

text \<open>The loop that looks for a dot among the labels, from a position on.\<close>

function stepScan :: "string \<Rightarrow> int \<Rightarrow> int \<Rightarrow> int option outcome" where
  "stepScan ls nextNodeId nextBmIdx =
     (if nextBmIdx - nextNodeId < int (length ls)
      then obind (at ls (nextBmIdx - nextNodeId)) (\<lambda>l.
        if l = CHR ''.'' then Ret (Some nextBmIdx) else stepScan ls nextNodeId (nextBmIdx + 1))
      else Ret None)"
  by pat_completeness auto
termination by (relation "measure (\<lambda>(ls, n, m). nat (int (length ls) - (m - n)))") auto

declare stepScan.simps [simp del]

text \<open>The variables of the loops of \<open>Has\<close>, and one iteration of the inner loop.\<close>

record has_state =
  h_i :: int
  h_nodeId :: int
  h_bmIdx :: int
  h_stack :: "wildcardCursor list"

datatype has_next = Return bool | Continue has_state

definition nextNode :: "bitmap_pkg \<Rightarrow> DomainSet \<Rightarrow> int \<Rightarrow> (int \<times> int) outcome" where
  "nextNode pkg ss bmIdx =
     obind (countZeros pkg (labelBitmap ss) (ranks ss) (bmIdx + 1)) (\<lambda>nodeId.
     obind (selectIthOne pkg (labelBitmap ss) (ranks ss) (selects ss) (nodeId - 1)) (\<lambda>k. Ret (nodeId, k + 1)))"

text \<open>At the end of the labels of a node: back to the last wildcard that was passed.\<close>

definition backtrack :: "bitmap_pkg \<Rightarrow> DomainSet \<Rightarrow> string \<Rightarrow> has_state \<Rightarrow> has_next outcome" where
  "backtrack pkg ss key st = (case h_stack st of
     [] \<Rightarrow> Ret (Return False)
   | cursor # stack \<Rightarrow>
       obind (nextNode pkg ss (wc_bmIdx cursor)) (\<lambda>(nextNodeId, nextBmIdx).
       obind (labelEnd key (wc_index cursor)) (\<lambda>j.
         if j = int (length key) then
           obind (getBit (leaves ss) nextNodeId) (\<lambda>b.
             Ret (if b \<noteq> 0 then Return True else Continue (st\<lparr>h_stack := stack\<rparr>)))
         else
           obind (stepScan (labels ss) nextNodeId nextBmIdx) (\<lambda>r. case r of
             Some m \<Rightarrow> Ret (Continue \<lparr>h_i = j, h_nodeId = nextNodeId, h_bmIdx = m, h_stack = stack\<rparr>)
           | None \<Rightarrow> Ret (Return False)))))"

text \<open>A matching label: to the child, and out of the loop with the last byte of the key.\<close>

definition descend :: "bitmap_pkg \<Rightarrow> DomainSet \<Rightarrow> string \<Rightarrow> has_state \<Rightarrow> has_next outcome" where
  "descend pkg ss key st =
     obind (nextNode pkg ss (h_bmIdx st)) (\<lambda>(nodeId, bmIdx).
       if h_i st + 1 < int (length key)
       then Ret (Continue (st\<lparr>h_i := h_i st + 1, h_nodeId := nodeId, h_bmIdx := bmIdx\<rparr>))
       else obind (getBit (leaves ss) nodeId) (\<lambda>b. Ret (Return (b \<noteq> 0))))"

definition has_step :: "bitmap_pkg \<Rightarrow> DomainSet \<Rightarrow> string \<Rightarrow> has_state \<Rightarrow> has_next outcome" where
  "has_step pkg ss key st =
     obind (revLowerAt key (h_i st)) (\<lambda>c.
     obind (getBit (labelBitmap ss) (h_bmIdx st)) (\<lambda>b.
       if b \<noteq> 0 then backtrack pkg ss key st
       else
         obind (at (labels ss) (h_bmIdx st - h_nodeId st)) (\<lambda>l.
           let next = Ret (Continue (st\<lparr>h_bmIdx := h_bmIdx st + 1\<rparr>)) in
           if l = CHR ''+'' then Ret (Return True)
           else if l = CHR ''*'' then
             Ret (Continue (st\<lparr>h_bmIdx := h_bmIdx st + 1,
                h_stack := \<lparr>wc_bmIdx = h_bmIdx st, wc_index = h_i st\<rparr> # h_stack st\<rparr>))
           else if l = c then descend pkg ss key st
           else next)))"

partial_function (option) hasLoop :: "bitmap_pkg \<Rightarrow> DomainSet \<Rightarrow> string \<Rightarrow> has_state \<Rightarrow> bool outcome option" where
  "hasLoop pkg ss key st = (case has_step pkg ss key st of
     Ret (Return b) \<Rightarrow> Some (Ret b)
   | Ret (Continue st1) \<Rightarrow> hasLoop pkg ss key st1
   | Panic \<Rightarrow> Some Panic
   | Diverge \<Rightarrow> Some Diverge)"

declare hasLoop.simps [code]

definition Has :: "bitmap_pkg \<Rightarrow> DomainSet option \<Rightarrow> string \<Rightarrow> bool outcome" where
  "Has pkg ds key0 = (case ds of
     None \<Rightarrow> Ret False
   | Some ss \<Rightarrow>
       (let key = (if ascii key0 then key0 else byteReverse (ToLower (Reverse key0)))
        in if 0 < length key
           then (case hasLoop pkg ss key \<lparr>h_i = 0, h_nodeId = 0, h_bmIdx = 0, h_stack = []\<rparr> of
                   Some r \<Rightarrow> r | None \<Rightarrow> Diverge)
           else obind (getBit (leaves ss) 0) (\<lambda>b. Ret (b \<noteq> 0))))"

definition MatchDomain :: "bitmap_pkg \<Rightarrow> DomainSet option \<Rightarrow> string \<Rightarrow> bool outcome" where
  "MatchDomain pkg ds domain = Has pkg ds domain"

section \<open>Bits of a bitmap\<close>

definition bitAt :: "u64 list \<Rightarrow> nat \<Rightarrow> bool" where
  "bitAt bm k = (k div 64 < length bm \<and> bit (bm ! (k div 64)) (k mod 64))"

lemma bitAt_Nil [simp]: "\<not> bitAt [] k"
  by (simp add: bitAt_def)

lemma bitAt_bound: "bitAt bm k \<Longrightarrow> k < 64 * length bm"
  by (simp add: bitAt_def div_less_iff_less_mult mult.commute)

lemma int_div64: "nat (int k div 64) = k div 64" "nat (int k mod 64) = k mod 64"
  by (simp_all add: nat_div_distrib nat_mod_distrib)

lemma getBit_bitAt:
  assumes "k < 64 * length bm"
  shows "\<exists>w. getBit bm (int k) = Ret w \<and> (w \<noteq> 0 \<longleftrightarrow> bitAt bm k)"
proof -
  have d: "k div 64 < length bm" using assms by (simp add: div_less_iff_less_mult mult.commute)
  have "int k div 64 = int (k div 64)" by (simp add: zdiv_int)
  then have "at bm (int k div 64) = Ret (bm ! (k div 64))" using d by (simp add: at_def)
  then have g: "getBit bm (int k) = Ret (bm ! (k div 64) AND push_bit (k mod 64) 1)"
    by (simp add: getBit_def int_div64)
  then show ?thesis using d by (simp only: bitAt_def bit_iff_and_push_bit_not_eq_0) simp
qed

lemma bitAt_setBit:
  assumes "v = 0 \<or> v = 1"
  shows "bitAt (setBit bm (int i) v) k \<longleftrightarrow> bitAt bm k \<or> k = i \<and> v = 1"
proof -
  let ?d = "i div 64"
  define bm1 where "bm1 = bm @ replicate (?d + 1 - length bm) 0"
  have l: "?d < length bm1" by (simp add: bm1_def)
  have z: "bitAt bm1 k = bitAt bm k" for k by (auto simp: bm1_def bitAt_def nth_append)
  have s: "setBit bm (int i) v = bm1[?d := bm1 ! ?d OR push_bit (i mod 64) v]"
    by (simp add: setBit_def bm1_def Let_def int_div64)
  have one: "bit (push_bit (i mod 64) v) (k mod 64) \<longleftrightarrow> v = 1 \<and> k mod 64 = i mod 64"
    using assms by (auto simp: bit_push_bit_iff bit_1_iff)
  have "bitAt (setBit bm (int i) v) k \<longleftrightarrow> bitAt bm1 k \<or> v = 1 \<and> k div 64 = ?d \<and> k mod 64 = i mod 64"
    unfolding s using l one by (cases "k div 64 = ?d") (auto simp: bitAt_def bit_or_iff)
  moreover have "k div 64 = ?d \<and> k mod 64 = i mod 64 \<longleftrightarrow> k = i" by (metis mod_div_decomp)
  ultimately show ?thesis using z by auto
qed

lemma length_setBit: "length (setBit bm (int i) v) = max (length bm) (i div 64 + 1)"
  by (simp add: setBit_def Let_def int_div64)

text \<open>A bitmap that holds a sequence of bits.\<close>

definition holds_bits :: "u64 list \<Rightarrow> bool list \<Rightarrow> bool" where
  "holds_bits bm bs = (length bs \<le> 64 * length bm \<and> (\<forall>k. bitAt bm k \<longleftrightarrow> k < length bs \<and> bs ! k))"

lemma holds_bits_Nil: "holds_bits [] []"
  by (simp add: holds_bits_def)

lemma holds_bits_snoc:
  assumes "holds_bits bm bs"
  shows "holds_bits (setBit bm (int (length bs)) 0) (bs @ [False])" "holds_bits (setBit bm (int (length bs)) 1) (bs @ [True])"
proof -
  have "length bs + 1 \<le> 64 * (length bs div 64 + 1)" by presburger
  then have l: "length bs + 1 \<le> 64 * length (setBit bm (int (length bs)) v)" for v
    unfolding length_setBit by (rule order_trans) (rule mult_le_mono2, rule max.cobounded2)
  show "holds_bits (setBit bm (int (length bs)) 0) (bs @ [False])" "holds_bits (setBit bm (int (length bs)) 1) (bs @ [True])"
    using assms l by (auto simp: holds_bits_def bitAt_setBit nth_append less_Suc_eq)
qed

section \<open>The order of the label bitmap\<close>

text \<open>
  The labels of node \<open>v\<close> are \<open>Ls ! v\<close>; in the bitmap they are zeros, closed by a one. The bits of node
  \<open>v\<close> begin at \<open>start Ls v\<close>, its labels in the array of all labels at \<open>off Ls v\<close>.
\<close>

definition node_bits :: "'a list \<Rightarrow> bool list" where
  "node_bits l = replicate (length l) False @ [True]"

definition louds :: "'a list list \<Rightarrow> bool list" where
  "louds Ls = concat (map node_bits Ls)"

definition off :: "'a list list \<Rightarrow> nat \<Rightarrow> nat" where
  "off Ls v = length (concat (take v Ls))"

definition start :: "'a list list \<Rightarrow> nat \<Rightarrow> nat" where
  "start Ls v = length (louds (take v Ls))"

lemma louds_append [simp]: "louds (xs @ ys) = louds xs @ louds ys"
  by (simp add: louds_def)

lemma louds_Cons [simp]: "louds (l # Ls) = node_bits l @ louds Ls" "louds [] = []"
  by (simp_all add: louds_def)

lemma length_node_bits [simp]: "length (node_bits l) = length l + 1"
  by (simp add: node_bits_def)

lemma start_off: "v \<le> length Ls \<Longrightarrow> start Ls v = off Ls v + v"
proof (induction v)
  case (Suc v)
  then have "take (Suc v) Ls = take v Ls @ [Ls ! v]" by (simp add: take_Suc_conv_app_nth)
  with Suc show ?case by (simp add: start_def off_def)
qed (simp_all add: start_def off_def)

lemma start_Suc: "v < length Ls \<Longrightarrow> start Ls (Suc v) = start Ls v + length (Ls ! v) + 1"
  by (simp add: start_def take_Suc_conv_app_nth)

lemma off_Suc: "v < length Ls \<Longrightarrow> off Ls (Suc v) = off Ls v + length (Ls ! v)"
  by (simp add: off_def take_Suc_conv_app_nth)

lemma louds_split:
  assumes "v < length Ls"
  shows "louds Ls = louds (take v Ls) @ node_bits (Ls ! v) @ louds (drop (Suc v) Ls)"
  using arg_cong [OF id_take_nth_drop [OF assms], of louds] by simp

lemma louds_nth:
  assumes "v < length Ls" "t \<le> length (Ls ! v)"
  shows "start Ls v + t < length (louds Ls)" "louds Ls ! (start Ls v + t) \<longleftrightarrow> t = length (Ls ! v)"
  using assms by (simp_all add: louds_split [OF assms(1)] start_def nth_append node_bits_def)

lemma concat_nth:
  assumes "v < length Ls" "t < length (Ls ! v)"
  shows "off Ls v + t < length (concat Ls)" "concat Ls ! (off Ls v + t) = Ls ! v ! t"
proof -
  have c: "concat Ls = concat (take v Ls) @ Ls ! v @ concat (drop (Suc v) Ls)"
    using arg_cong [OF id_take_nth_drop [OF assms(1)], of concat] by simp
  show "off Ls v + t < length (concat Ls)" "concat Ls ! (off Ls v + t) = Ls ! v ! t"
    unfolding c off_def using assms(2) by (simp_all add: nth_append)
qed

text \<open>The ones in front of a bit of node \<open>v\<close> are those of the nodes in front of it.\<close>

lemma louds_rank:
  assumes "v < length Ls" "t \<le> length (Ls ! v)"
  shows "length (filter id (take (start Ls v + t) (louds Ls))) = v"
proof -
  have o: "length (filter id (louds Ls)) = length Ls" for Ls :: "'a list list"
    by (induction Ls) (simp_all add: node_bits_def)
  have "take (start Ls v + t) (louds Ls) = louds (take v Ls) @ replicate t False"
    using assms by (simp add: louds_split [OF assms(1)] start_def node_bits_def)
  then show ?thesis using assms o [of "take v Ls"] by simp
qed

section \<open>Moving to a child\<close>

text \<open>
  What the documentation of the package promises: with the indexes built for a bitmap, \<open>Rank64\<close>
  counts the ones in front of a bit and \<open>Select32R64\<close> finds the one with a given number.
\<close>

definition documented_pkg :: "bitmap_pkg \<Rightarrow> bool" where
  "documented_pkg pkg = (\<forall>bm. 64 * length bm < 2 ^ 31 \<longrightarrow>
     (\<forall>i < 64 * length bm. \<exists>y. Rank64 pkg bm (snd (IndexSelect32R64 pkg bm)) (int i) = Ret (int (card {k. k < i \<and> bitAt bm k}), y))
     \<and> (\<forall>k. bitAt bm k \<longrightarrow> (\<exists>y. Select32R64 pkg bm (fst (IndexSelect32R64 pkg bm)) (snd (IndexSelect32R64 pkg bm))
           (int (card {j. j < k \<and> bitAt bm j})) = Ret (int k, y))))"

lemma documented_rank:
  "documented_pkg pkg \<Longrightarrow> 64 * length bm < 2 ^ 31 \<Longrightarrow> i < 64 * length bm \<Longrightarrow>
    \<exists>y. Rank64 pkg bm (snd (IndexSelect32R64 pkg bm)) (int i) = Ret (int (card {k. k < i \<and> bitAt bm k}), y)"
  by (simp only: documented_pkg_def)

lemma documented_select:
  "documented_pkg pkg \<Longrightarrow> 64 * length bm < 2 ^ 31 \<Longrightarrow> bitAt bm k \<Longrightarrow>
    \<exists>y. Select32R64 pkg bm (fst (IndexSelect32R64 pkg bm)) (snd (IndexSelect32R64 pkg bm))
      (int (card {j. j < k \<and> bitAt bm j})) = Ret (int k, y)"
  by (simp only: documented_pkg_def)

lemma holds_bits_rank:
  assumes "holds_bits bm bs" "k \<le> length bs"
  shows "card {j. j < k \<and> bitAt bm j} = length (filter id (take k bs))"
proof -
  have b: "bitAt bm j \<longleftrightarrow> j < length bs \<and> bs ! j" for j using assms(1) by (simp add: holds_bits_def)
  have "{j. j < k \<and> bitAt bm j} = {j. j < length (take k bs) \<and> id (take k bs ! j)}"
    unfolding b using assms(2) by (intro Collect_cong) auto
  then show ?thesis by (simp only: length_filter_conv_card)
qed

lemma to_int32_id: "0 \<le> i \<Longrightarrow> i < 2 ^ 31 \<Longrightarrow> to_int32 i = i"
  by (simp add: to_int32_def signed_of_int signed_take_bit_int_eq_self)

text \<open>What a set needs so that its nodes can be walked.\<close>

definition walkable :: "bitmap_pkg \<Rightarrow> DomainSet \<Rightarrow> string list \<Rightarrow> bool" where
  "walkable pkg ss Ls = (documented_pkg pkg \<and> (selects ss, ranks ss) = IndexSelect32R64 pkg (labelBitmap ss)
     \<and> 64 * length (labelBitmap ss) < 2 ^ 31 \<and> holds_bits (labelBitmap ss) (louds Ls) \<and> labels ss = concat Ls
     \<and> length (concat Ls) + 1 = length Ls)"

lemma nextNode_child:
  assumes w: "walkable pkg ss Ls" and v: "v < length Ls" and t: "t < length (Ls ! v)"
  shows "nextNode pkg ss (int (start Ls v + t)) = Ret (int (off Ls v + t + 1), int (start Ls (off Ls v + t + 1)))"
proof -
  let ?bm = "labelBitmap ss" and ?i = "start Ls v + t + 1" and ?u = "off Ls v + t"
  have hb: "holds_bits ?bm (louds Ls)" and len: "64 * length ?bm < 2 ^ 31" and doc: "documented_pkg pkg"
    and ix: "selects ss = fst (IndexSelect32R64 pkg ?bm)" "ranks ss = snd (IndexSelect32R64 pkg ?bm)"
    using w by (simp_all add: walkable_def) (metis fst_conv snd_conv)+
  have le: "length (louds Ls) \<le> 64 * length ?bm" using hb by (simp add: holds_bits_def)
  have i: "?i < length (louds Ls)" using louds_nth(1) [OF v, of "Suc t"] t by simp
  have r: "card {k. k < ?i \<and> bitAt ?bm k} = v"
    using holds_bits_rank [OF hb, of ?i] louds_rank [OF v, of "Suc t"] i t by simp
  obtain y where "Rank64 pkg ?bm (ranks ss) (int ?i) = Ret (int v, y)"
    using documented_rank [OF doc len less_le_trans [OF i le]] unfolding r ix by blast
  moreover have "to_int32 (int ?i) = int ?i" using i le len by (intro to_int32_id) auto
  ultimately have "countZeros pkg ?bm (ranks ss) (int ?i) = Ret (int ?i - int v)"
    by (simp only: countZeros_def obind.simps fst_conv)
  moreover have "int ?i - int v = int (?u + 1)" "int (start Ls v + t) + 1 = int ?i" using start_off [of v Ls] v by simp_all
  ultimately have c: "countZeros pkg ?bm (ranks ss) (int (start Ls v + t) + 1) = Ret (int (?u + 1))" by (simp only:)
  have u: "?u < length Ls" using concat_nth(1) [OF v t] w by (simp add: walkable_def)
  let ?k = "start Ls ?u + length (Ls ! ?u)"
  have k: "?k < length (louds Ls)" "louds Ls ! ?k" using louds_nth [OF u, of "length (Ls ! ?u)"] by simp_all
  then have "bitAt ?bm ?k" using hb by (simp add: holds_bits_def)
  moreover have "card {j. j < ?k \<and> bitAt ?bm j} = ?u"
    using holds_bits_rank [OF hb, of ?k] louds_rank [OF u, of "length (Ls ! ?u)"] k by simp
  ultimately obtain y where "Select32R64 pkg ?bm (selects ss) (ranks ss) (int ?u) = Ret (int ?k, y)"
    using documented_select [OF doc len, of ?k] unfolding ix by auto
  moreover have "to_int32 (int ?u) = int ?u"
    using k(1) le len start_off [of ?u Ls] u i start_off [of v Ls] v by (intro to_int32_id) auto
  ultimately have "selectIthOne pkg ?bm (ranks ss) (selects ss) (int (?u + 1) - 1) = Ret (int ?k)"
    by (simp add: selectIthOne_def)
  then show ?thesis using c start_Suc [OF u] by (simp add: nextNode_def)
qed

section \<open>A lookup without wildcards\<close>

text \<open>
  The nodes of the trie of the keys: \<open>ps ! v\<close> is the prefix that node \<open>v\<close> stands for, its labels are
  the bytes that extend it to a prefix of a key, in ascending order.
\<close>

definition shape :: "string list \<Rightarrow> string list \<Rightarrow> string list \<Rightarrow> bool" where
  "shape keys ps Ls = (length ps = length Ls \<and> 0 < length ps \<and> ps ! 0 = []
     \<and> (\<forall>v < length Ls. sorted_wrt (<) (Ls ! v) \<and> set (Ls ! v) = {c. \<exists>k\<in>set keys. prefix (ps ! v @ [c]) k}
         \<and> (\<forall>t < length (Ls ! v). ps ! (off Ls v + t + 1) = ps ! v @ [Ls ! v ! t])))"

definition marks :: "u64 list \<Rightarrow> string list \<Rightarrow> string list \<Rightarrow> bool" where
  "marks lv ps keys = (\<forall>v < length ps. v < 64 * length lv \<and> (bitAt lv v \<longleftrightarrow> ps ! v \<in> set keys))"

definition represents :: "bitmap_pkg \<Rightarrow> DomainSet \<Rightarrow> string list \<Rightarrow> string list \<Rightarrow> string list \<Rightarrow> bool" where
  "represents pkg ss keys ps Ls = (walkable pkg ss Ls \<and> shape keys ps Ls \<and> marks (leaves ss) ps keys)"

definition has_at :: "string list \<Rightarrow> nat \<Rightarrow> nat \<Rightarrow> nat \<Rightarrow> has_state" where
  "has_at Ls i v t = \<lparr>h_i = int i, h_nodeId = int v, h_bmIdx = int (start Ls v + t), h_stack = []\<rparr>"

lemma revLowerAt_nth:
  assumes "i < length key"
  shows "revLowerAt key (int i) = Ret (rev (ToLower key) ! i)"
proof -
  have "int (length key) - 1 - int i = int (length key - Suc i)" using assms by simp
  moreover have "rev (ToLower key) ! i = lower_char (key ! (length key - Suc i))"
    using assms by (simp add: ToLower_def rev_nth)
  moreover have "at key (int (length key - Suc i)) = Ret (key ! (length key - Suc i))"
    unfolding at_def nat_int using assms by simp
  ultimately show ?thesis by (simp only: revLowerAt_def obind.simps)
qed

lemma getBit_label:
  assumes "walkable pkg ss Ls" "v < length Ls" "t \<le> length (Ls ! v)"
  shows "\<exists>w. getBit (labelBitmap ss) (int (start Ls v + t)) = Ret w \<and> (w \<noteq> 0 \<longleftrightarrow> t = length (Ls ! v))"
proof -
  have hb: "holds_bits (labelBitmap ss) (louds Ls)" using assms(1) by (simp add: walkable_def)
  have k: "start Ls v + t < length (louds Ls)" "louds Ls ! (start Ls v + t) \<longleftrightarrow> t = length (Ls ! v)"
    using louds_nth [OF assms(2,3)] by auto
  then have "start Ls v + t < 64 * length (labelBitmap ss)" using hb by (simp add: holds_bits_def)
  moreover have "bitAt (labelBitmap ss) (start Ls v + t) \<longleftrightarrow> t = length (Ls ! v)" using hb k by (simp add: holds_bits_def)
  ultimately show ?thesis using getBit_bitAt by metis
qed

lemma getBit_leaf:
  assumes "marks lv ps keys" "v < length ps"
  shows "\<exists>w. getBit lv (int v) = Ret w \<and> (w \<noteq> 0 \<longleftrightarrow> ps ! v \<in> set keys)"
  using assms getBit_bitAt [of v lv] by (simp add: marks_def)

lemma label_at:
  assumes "walkable pkg ss Ls" "v < length Ls" "t < length (Ls ! v)"
  shows "at (labels ss) (int (start Ls v + t) - int v) = Ret (Ls ! v ! t)"
proof -
  have "int (start Ls v + t) - int v = int (off Ls v + t)" using start_off [of v Ls] assms(2) by simp
  moreover have "at (labels ss) (int (off Ls v + t)) = Ret (Ls ! v ! t)"
    using concat_nth [OF assms(2,3)] assms(1) by (simp add: walkable_def at_def nat_int_add)
  ultimately show ?thesis by (simp only:)
qed

text \<open>One iteration of the inner loop at a label, and at the end of a node.\<close>

lemma has_step_label:
  assumes "walkable pkg ss Ls" "v < length Ls" "t < length (Ls ! v)" "i < length key" "Ls ! v ! t \<noteq> CHR ''*''"
  shows "has_step pkg ss key (has_at Ls i v t) =
    (if Ls ! v ! t = CHR ''+'' then Ret (Return True)
     else if Ls ! v ! t = rev (ToLower key) ! i then descend pkg ss key (has_at Ls i v t)
     else Ret (Continue (has_at Ls i v (Suc t))))"
proof -
  obtain w where "getBit (labelBitmap ss) (int (start Ls v + t)) = Ret w" "w = 0"
    using getBit_label [OF assms(1,2), of t] assms(3) by auto
  then show ?thesis using label_at [OF assms(1-3)] revLowerAt_nth [OF assms(4)] assms(5)
    by (simp add: has_step_def has_at_def Let_def)
qed

lemma has_step_end:
  assumes "walkable pkg ss Ls" "v < length Ls" "i < length key"
  shows "has_step pkg ss key (has_at Ls i v (length (Ls ! v))) = Ret (Return False)"
proof -
  obtain w where "getBit (labelBitmap ss) (int (start Ls v + length (Ls ! v))) = Ret w" "w \<noteq> 0"
    using getBit_label [OF assms(1,2), of "length (Ls ! v)"] by auto
  then show ?thesis using revLowerAt_nth [OF assms(3)] by (simp add: has_step_def has_at_def backtrack_def)
qed

lemma hasLoop_skip:
  assumes "walkable pkg ss Ls" "v < length Ls" "i < length key" "t \<le> u" "u \<le> length (Ls ! v)"
    and "\<forall>x. t \<le> x \<and> x < u \<longrightarrow> Ls ! v ! x \<notin> {CHR ''+'', CHR ''*'', rev (ToLower key) ! i}"
  shows "hasLoop pkg ss key (has_at Ls i v t) = hasLoop pkg ss key (has_at Ls i v u)"
  using assms(4-)
proof (induction "u - t" arbitrary: t)
  case (Suc d)
  then have t: "t < u" "t < length (Ls ! v)" by auto
  have "hasLoop pkg ss key (has_at Ls i v t) = hasLoop pkg ss key (has_at Ls i v (Suc t))"
    using has_step_label [OF assms(1,2) t(2) assms(3)] Suc.prems t by (subst hasLoop.simps) auto
  also have "\<dots> = hasLoop pkg ss key (has_at Ls i v u)" using Suc t by (intro Suc.hyps(1)) auto
  finally show ?case .
qed simp

lemma hasLoop_descend:
  assumes "walkable pkg ss Ls" "v < length Ls" "t < length (Ls ! v)" "Suc i \<le> length key"
    and "Ls ! v ! t = rev (ToLower key) ! i" "Ls ! v ! t \<notin> {CHR ''+'', CHR ''*''}"
  shows "hasLoop pkg ss key (has_at Ls i v t) =
    (if Suc i < length key then hasLoop pkg ss key (has_at Ls (Suc i) (off Ls v + t + 1) 0)
     else Some (obind (getBit (leaves ss) (int (off Ls v + t + 1))) (\<lambda>b. Ret (b \<noteq> 0))))"
proof -
  have s: "has_step pkg ss key (has_at Ls i v t) = descend pkg ss key (has_at Ls i v t)"
    using has_step_label [OF assms(1-3), of i key] assms(4-6) by simp
  have n: "nextNode pkg ss (h_bmIdx (has_at Ls i v t)) = Ret (int (off Ls v + t + 1), int (start Ls (off Ls v + t + 1)))"
    using nextNode_child [OF assms(1-3)] by (simp add: has_at_def)
  show ?thesis
    unfolding hasLoop.simps [of pkg ss key "has_at Ls i v t"] s descend_def n
    by (cases "getBit (leaves ss) (int (off Ls v + t + 1))") (simp_all add: has_at_def add.commute)
qed

text \<open>
  A visit of a node, for the byte \<open>c\<close> of the key: a plus among its labels comes in front of \<open>c\<close> and
  ends the search; otherwise the walk goes on at the child for \<open>c\<close>, if there is one.
\<close>

definition no_star :: "string list \<Rightarrow> bool" where
  "no_star keys = (\<forall>k\<in>set keys. CHR ''*'' \<notin> set k)"

lemma no_star_label:
  assumes "shape keys ps Ls" "no_star keys" "v < length Ls" "x < length (Ls ! v)"
  shows "Ls ! v ! x \<noteq> CHR ''*''"
proof
  assume "Ls ! v ! x = CHR ''*''"
  then have "CHR ''*'' \<in> set (Ls ! v)" using assms(4) nth_mem by metis
  then obtain k where "k \<in> set keys" "prefix (ps ! v @ ''*'') k" using assms(1,3) by (auto simp: shape_def)
  with assms(2) show False by (auto simp: prefix_def no_star_def)
qed

lemma hasLoop_skip0:
  assumes R: "represents pkg ss keys ps Ls" "no_star keys" and v: "v < length Ls" and i: "i < length key"
    and "u \<le> length (Ls ! v)" "\<forall>x<u. Ls ! v ! x \<noteq> CHR ''+'' \<and> Ls ! v ! x \<noteq> rev (ToLower key) ! i"
  shows "hasLoop pkg ss key (has_at Ls i v 0) = hasLoop pkg ss key (has_at Ls i v u)"
  using assms no_star_label [OF _ R(2) v, of ps] by (intro hasLoop_skip) (auto simp: represents_def)

lemma visit_plus:
  assumes R: "represents pkg ss keys ps Ls" "no_star keys" and v: "v < length Ls" and i: "i < length key"
    and "CHR ''+'' \<in> set (Ls ! v)" "\<not> rev (ToLower key) ! i < CHR ''+''"
  shows "hasLoop pkg ss key (has_at Ls i v 0) = Some (Ret True)"
proof -
  let ?L = "Ls ! v"
  obtain u where u: "u < length ?L" "?L ! u = CHR ''+''" using assms(5) by (auto simp: in_set_conv_nth)
  have "?L ! x < CHR ''+''" if "x < u" for x
    using sorted_wrt_nth_less [of "(<)" ?L x u] that u R v by (simp add: represents_def shape_def)
  then have "hasLoop pkg ss key (has_at Ls i v 0) = hasLoop pkg ss key (has_at Ls i v u)"
    using u assms(6) by (intro hasLoop_skip0 [OF R v i]) force+
  then show ?thesis using has_step_label [of pkg ss Ls v u i key] u v i R(1) by (subst (asm) (2) hasLoop.simps) (simp add: represents_def)
qed

lemma visit_down:
  assumes R: "represents pkg ss keys ps Ls" "no_star keys" and v: "v < length Ls" and i: "i < length key"
    and plus: "CHR ''+'' \<notin> set (Ls ! v)" and c: "rev (ToLower key) ! i \<in> set (Ls ! v)"
  shows "\<exists>w < length Ls. ps ! w = ps ! v @ [rev (ToLower key) ! i] \<and> hasLoop pkg ss key (has_at Ls i v 0) =
    (if Suc i < length key then hasLoop pkg ss key (has_at Ls (Suc i) w 0)
     else Some (Ret (ps ! w \<in> set keys)))"
proof -
  let ?L = "Ls ! v" and ?c = "rev (ToLower key) ! i"
  have W: "walkable pkg ss Ls" and S: "shape keys ps Ls" and M: "marks (leaves ss) ps keys" using R by (simp_all add: represents_def)
  obtain u where u: "u < length ?L" "?L ! u = ?c" using c by (auto simp: in_set_conv_nth)
  let ?w = "off Ls v + u + 1"
  have ne: "?L ! x \<noteq> CHR ''+''" if "x < length ?L" for x using plus that nth_mem by metis
  have "?L ! x \<noteq> ?c" if "x < u" for x
    using sorted_wrt_nth_less [of "(<)" ?L x u] that u S v by (auto simp: shape_def)
  then have "hasLoop pkg ss key (has_at Ls i v 0) = hasLoop pkg ss key (has_at Ls i v u)"
    using ne u by (intro hasLoop_skip0 [OF R v i]) auto
  also have "\<dots> = (if Suc i < length key then hasLoop pkg ss key (has_at Ls (Suc i) ?w 0)
        else Some (obind (getBit (leaves ss) (int ?w)) (\<lambda>b. Ret (b \<noteq> 0))))"
    using i u(2) ne [OF u(1)] no_star_label [OF S R(2) v u(1)] by (intro hasLoop_descend [OF W v u(1)]) simp_all
  finally have go: "hasLoop pkg ss key (has_at Ls i v 0) = \<dots>" .
  have w: "?w < length Ls" using concat_nth(1) [OF v u(1)] W by (simp add: walkable_def)
  moreover have "ps ! ?w = ps ! v @ [?c]" using S v u by (simp add: shape_def)
  moreover from getBit_leaf [OF M, of ?w] w S obtain x where "getBit (leaves ss) (int ?w) = Ret x" "x \<noteq> 0 \<longleftrightarrow> ps ! ?w \<in> set keys"
    by (auto simp: shape_def)
  ultimately show ?thesis using go by (intro exI [of _ ?w]) simp
qed

lemma visit_none:
  assumes R: "represents pkg ss keys ps Ls" "no_star keys" and v: "v < length Ls" and i: "i < length key"
    and "CHR ''+'' \<notin> set (Ls ! v)" "rev (ToLower key) ! i \<notin> set (Ls ! v)"
  shows "hasLoop pkg ss key (has_at Ls i v 0) = Some (Ret False)"
proof -
  have "Ls ! v ! x \<noteq> CHR ''+'' \<and> Ls ! v ! x \<noteq> rev (ToLower key) ! i" if "x < length (Ls ! v)" for x
    using assms(5,6) that nth_mem by metis
  then have "hasLoop pkg ss key (has_at Ls i v 0) = hasLoop pkg ss key (has_at Ls i v (length (Ls ! v)))"
    by (intro hasLoop_skip0 [OF R v i]) auto
  then show ?thesis using has_step_end [of pkg ss Ls v i key] v i R(1) by (subst (asm) (2) hasLoop.simps) (simp add: represents_def)
qed

text \<open>What a walk from a node answers: the whole key is there, or a plus further down matches.\<close>

definition plus_below :: "string list \<Rightarrow> string \<Rightarrow> nat \<Rightarrow> bool" where
  "plus_below keys rl m = (\<exists>k\<in>set keys. prefix (take m rl @ ''+'') k)"

lemma plus_below_from:
  "\<not> plus_below keys rl i \<Longrightarrow>
    (\<exists>m. i \<le> m \<and> m < n \<and> plus_below keys rl m) \<longleftrightarrow> (\<exists>m. Suc i \<le> m \<and> m < n \<and> plus_below keys rl m)"
  by (metis Suc_leD Suc_leI le_neq_implies_less)

lemma prefix_of_below:
  assumes "rl \<in> set keys \<or> (\<exists>m. Suc i \<le> m \<and> m < length rl \<and> plus_below keys rl m)"
  shows "\<exists>k\<in>set keys. prefix (take (Suc i) rl) k"
proof -
  have "prefix (take (Suc i) rl) (take m rl @ ''+'')" if "Suc i \<le> m" for m
    using that by (metis min.absorb1 prefix_def prefix_order.trans take_is_prefix take_take)
  then show ?thesis using assms take_is_prefix unfolding plus_below_def by (meson prefix_order.trans)
qed

lemma hasLoop_spec:
  assumes R: "represents pkg ss keys ps Ls" "no_star keys"
    and rl: "rl = rev (ToLower key)" and plus: "\<forall>c\<in>set rl. \<not> c < CHR ''+''"
    and "i < length key" "v < length Ls" "ps ! v = take i rl"
  shows "hasLoop pkg ss key (has_at Ls i v 0) = Some (Ret (rl \<in> set keys \<or> (\<exists>m. i \<le> m \<and> m < length rl \<and> plus_below keys rl m)))"
  using assms(5-)
proof (induction "length key - i" arbitrary: i v)
  case (Suc d)
  note i = Suc.prems(1) and v = Suc.prems(2) and pv = Suc.prems(3)
  have len: "length rl = length key" by (simp add: rl ToLower_def)
  have set: "c \<in> set (Ls ! v) \<longleftrightarrow> (\<exists>k\<in>set keys. prefix (take i rl @ [c]) k)" for c
    using R(1) v pv by (simp add: represents_def shape_def)
  have Suc_i: "take (Suc i) rl = take i rl @ [rl ! i]" using i len by (simp add: take_Suc_conv_app_nth)
  have pb: "plus_below keys rl i \<longleftrightarrow> CHR ''+'' \<in> set (Ls ! v)" by (simp add: plus_below_def set)
  consider "CHR ''+'' \<in> set (Ls ! v)" | (down) "CHR ''+'' \<notin> set (Ls ! v)" "rl ! i \<in> set (Ls ! v)"
    | (none) "CHR ''+'' \<notin> set (Ls ! v)" "rl ! i \<notin> set (Ls ! v)" by blast
  then show ?case
  proof cases
    case 1
    have "\<not> rl ! i < CHR ''+''" using plus i len by simp
    then have "hasLoop pkg ss key (has_at Ls i v 0) = Some (Ret True)" using visit_plus [OF R v i 1] rl by simp
    moreover have "\<exists>m. i \<le> m \<and> m < length rl \<and> plus_below keys rl m" using pb 1 i len by auto
    ultimately show ?thesis by simp
  next
    case down
    then obtain w where w: "w < length Ls" "ps ! w = take (Suc i) rl" "hasLoop pkg ss key (has_at Ls i v 0) =
        (if Suc i < length key then hasLoop pkg ss key (has_at Ls (Suc i) w 0) else Some (Ret (take (Suc i) rl \<in> set keys)))"
      using visit_down [OF R v i] pv Suc_i rl by auto
    show ?thesis
    proof (cases "Suc i < length key")
      case True
      then show ?thesis using Suc.hyps w plus_below_from [of keys rl i "length rl"] pb down(1) by simp
    next
      case False
      then show ?thesis using w plus_below_from [of keys rl i "length rl"] pb down(1) i len by auto
    qed
  next
    case none
    then have "\<not> (rl \<in> set keys \<or> (\<exists>m. Suc i \<le> m \<and> m < length rl \<and> plus_below keys rl m))"
      using prefix_of_below [of rl keys i] set Suc_i by auto
    then show ?thesis using visit_none [OF R v i] none plus_below_from [of keys rl i "length rl"] pb rl by auto
  qed
qed simp

section \<open>What the construction builds\<close>

lemma runEnd_spec:
  assumes "\<forall>a. j \<le> a \<and> a < e \<longrightarrow> col < length (keys ! a)" "e \<le> length keys" "j \<le> e"
  shows "\<exists>k. runEnd keys (int col) (int e) c (int j) = Ret (int k) \<and> j \<le> k \<and> k \<le> e
    \<and> (\<forall>a. j \<le> a \<and> a < k \<longrightarrow> keys ! a ! col = c) \<and> (k < e \<longrightarrow> keys ! k ! col \<noteq> c)"
  using assms
proof (induction "e - j" arbitrary: j)
  case 0
  then show ?case by (subst runEnd.simps) auto
next
  case (Suc d)
  then have j: "j < e" by simp
  then have b: "byteAt keys (int j) (int col) = Ret (keys ! j ! col)" using Suc.prems by (simp add: byteAt_Ret)
  show ?case
  proof (cases "keys ! j ! col = c")
    case False
    then show ?thesis using j b by (subst runEnd.simps) (auto intro!: exI [of _ j])
  next
    case True
    from Suc j have "\<exists>k. runEnd keys (int col) (int e) c (int (Suc j)) = Ret (int k) \<and> Suc j \<le> k \<and> k \<le> e
      \<and> (\<forall>a. Suc j \<le> a \<and> a < k \<longrightarrow> keys ! a ! col = c) \<and> (k < e \<longrightarrow> keys ! k ! col \<noteq> c)"
      by (intro Suc.hyps(1)) auto
    then obtain k where k: "runEnd keys (int col) (int e) c (int j + 1) = Ret (int k)" "Suc j \<le> k" "k \<le> e"
      "\<forall>a. Suc j \<le> a \<and> a < k \<longrightarrow> keys ! a ! col = c" "k < e \<longrightarrow> keys ! k ! col \<noteq> c" by (auto simp: add.commute)
    have "\<forall>a. j \<le> a \<and> a < k \<longrightarrow> keys ! a ! col = c" using k(4) True by (metis Suc_leI le_neq_implies_less)
    with k j b True show ?thesis by (subst runEnd.simps) (auto intro!: exI [of _ k])
  qed
qed

text \<open>The children of a node: one for every byte at the column, with the keys that have it.\<close>

definition child_entry :: "string list \<Rightarrow> nat \<Rightarrow> nat \<Rightarrow> nat \<Rightarrow> char \<Rightarrow> qElt \<Rightarrow> bool" where
  "child_entry keys col j e c q = (\<exists>s f. q = \<lparr>q_s = int s, q_e = int f, q_col = int col + 1\<rparr> \<and> s < f \<and> f \<le> e
     \<and> (\<forall>a. s \<le> a \<and> a < f \<longleftrightarrow> j \<le> a \<and> a < e \<and> keys ! a ! col = c))"

definition children_added :: "string list \<Rightarrow> nat \<Rightarrow> nat \<Rightarrow> nat \<Rightarrow> bool list \<Rightarrow> building \<Rightarrow> string \<Rightarrow> qElt list \<Rightarrow> building \<Rightarrow> bool" where
  "children_added keys col e j bs b cs new b' =
     (b_queue b' = b_queue b @ new \<and> b_labels b' = b_labels b @ cs \<and> b_leaves b' = b_leaves b
      \<and> b_lIdx b' = int (length bs + length cs) \<and> holds_bits (b_bitmap b') (bs @ replicate (length cs) False)
      \<and> sorted_wrt (<) cs \<and> set cs = (\<lambda>a. keys ! a ! col) ` {j..<e} \<and> list_all2 (child_entry keys col j e) cs new)"

lemma first_child:
  assumes "\<forall>a. j \<le> a \<and> a < e \<longrightarrow> col < length (keys ! a)" "e \<le> length keys" "j < e"
    and "\<forall>a b. j \<le> a \<and> a \<le> b \<and> b < e \<longrightarrow> keys ! a ! col \<le> keys ! b ! col" and c: "c = keys ! j ! col"
  shows "\<exists>k. runEnd keys (int col) (int e) c (int j + 1) = Ret (int k) \<and> j < k \<and> k \<le> e
    \<and> (\<forall>a. j \<le> a \<and> a < k \<longrightarrow> keys ! a ! col = c) \<and> (\<forall>a. k \<le> a \<and> a < e \<longrightarrow> c < keys ! a ! col)
    \<and> child_entry keys col j e c \<lparr>q_s = int j, q_e = int k, q_col = int col + 1\<rparr>"
proof -
  from runEnd_spec [of "Suc j" e col keys c] assms obtain k where
    k: "runEnd keys (int col) (int e) c (int j + 1) = Ret (int k)" "Suc j \<le> k" "k \<le> e"
    "\<forall>a. Suc j \<le> a \<and> a < k \<longrightarrow> keys ! a ! col = c" "k < e \<longrightarrow> keys ! k ! col \<noteq> c" by (auto simp: add.commute)
  have run: "\<forall>a. j \<le> a \<and> a < k \<longrightarrow> keys ! a ! col = c" using k(4) c by (metis Suc_leI le_neq_implies_less)
  have later: "c < keys ! a ! col" if "k \<le> a" "a < e" for a
  proof -
    have "c \<le> keys ! k ! col" "keys ! k ! col \<le> keys ! a ! col" using assms(4) k(2) that unfolding c by auto
    then show ?thesis using k(5) that by auto
  qed
  have "j \<le> a \<and> a < k \<longleftrightarrow> j \<le> a \<and> a < e \<and> keys ! a ! col = c" for a
    using run later [of a] k(3) by (cases "a < k") auto
  then have "child_entry keys col j e c \<lparr>q_s = int j, q_e = int k, q_col = int col + 1\<rparr>"
    unfolding child_entry_def using k(2,3) by (intro exI [of _ j] exI [of _ k]) simp
  with k run later show ?thesis by (intro exI [of _ k]) auto
qed

lemma childLoop_spec:
  assumes "\<forall>a. j \<le> a \<and> a < e \<longrightarrow> col < length (keys ! a)" "e \<le> length keys" "j \<le> e"
    and "\<forall>a b. j \<le> a \<and> a \<le> b \<and> b < e \<longrightarrow> keys ! a ! col \<le> keys ! b ! col"
    and "holds_bits (b_bitmap b) bs" "b_lIdx b = int (length bs)"
  shows "\<exists>cs new b'. childLoop keys (int col) (int e) (int j) b = Ret b' \<and> children_added keys col e j bs b cs new b'"
  using assms
proof (induction "e - j" arbitrary: j b bs rule: less_induct)
  case less
  show ?case
  proof (cases "j < e")
    case False
    then show ?thesis using less.prems by (subst childLoop.simps) (auto simp: children_added_def intro!: exI [of _ "[]"])
  next
    case True
    define c where "c = keys ! j ! col"
    from first_child [OF less.prems(1,2) True less.prems(4) c_def] obtain k where
      k: "runEnd keys (int col) (int e) c (int j + 1) = Ret (int k)" "j < k" "k \<le> e"
      and run: "\<forall>a. j \<le> a \<and> a < k \<longrightarrow> keys ! a ! col = c" and later: "\<forall>a. k \<le> a \<and> a < e \<longrightarrow> c < keys ! a ! col"
      and entry: "child_entry keys col j e c \<lparr>q_s = int j, q_e = int k, q_col = int col + 1\<rparr>" by blast
    let ?q = "\<lparr>q_s = int j, q_e = int k, q_col = int col + 1\<rparr>"
    let ?b1 = "add_bit 0 (b\<lparr>b_queue := b_queue b @ [?q], b_labels := b_labels b @ [c]\<rparr>)"
    have "\<exists>cs new b'. childLoop keys (int col) (int e) (int k) ?b1 = Ret b' \<and> children_added keys col e k (bs @ [False]) ?b1 cs new b'"
      using less.prems k True holds_bits_snoc(1) [OF less.prems(5)] by (intro less.hyps) auto
    then obtain cs new b' where r: "childLoop keys (int col) (int e) (int k) ?b1 = Ret b'" "children_added keys col e k (bs @ [False]) ?b1 cs new b'"
      by blast
    have cs: "set cs = (\<lambda>a. keys ! a ! col) ` {k..<e}" using r(2) by (simp add: children_added_def)
    have "child_entry keys col j e d q" if "child_entry keys col k e d q" "d \<in> set cs" for d q
    proof -
      have "d \<noteq> c" using that(2) cs later by fastforce
      then have "(j \<le> a \<and> a < e \<and> keys ! a ! col = d) \<longleftrightarrow> (k \<le> a \<and> a < e \<and> keys ! a ! col = d)" for a
        using run k(2) by (metis less_le_not_le linorder_not_less order.trans)
      then show ?thesis using that(1) by (simp add: child_entry_def)
    qed
    then have "list_all2 (child_entry keys col j e) (c # cs) (?q # new)"
      using r(2) entry list.rel_mono_strong [of "child_entry keys col k e" cs new "child_entry keys col j e"]
      by (simp add: children_added_def)
    moreover have "{j..<e} = {j..<k} \<union> {k..<e}" "(\<lambda>a. keys ! a ! col) ` {j..<k} = {c}"
      using k(2,3) run by (auto simp: image_iff intro!: bexI [of _ j])
    then have "set (c # cs) = (\<lambda>a. keys ! a ! col) ` {j..<e}" using cs by (simp add: image_Un)
    moreover have "sorted_wrt (<) (c # cs)" using r(2) cs later by (auto simp: children_added_def)
    ultimately have "children_added keys col e j bs b (c # cs) (?q # new) b'"
      using r(2) by (simp add: children_added_def)
    moreover have "childLoop keys (int col) (int e) (int j) b = Ret b'"
      using True k(1) r(1) less.prems by (subst childLoop.simps) (simp add: byteAt_Ret [THEN iffD2] c_def)
    ultimately show ?thesis by blast
  qed
qed

text \<open>The entries of the queue cover the keys that begin with a prefix.\<close>

definition covers :: "string list \<Rightarrow> qElt \<Rightarrow> string \<Rightarrow> bool" where
  "covers keys q p = (\<exists>s e. q = \<lparr>q_s = int s, q_e = int e, q_col = int (length p)\<rparr> \<and> s < e \<and> e \<le> length keys
     \<and> (\<forall>a < length keys. s \<le> a \<and> a < e \<longleftrightarrow> prefix p (keys ! a)))"

lemma append_le: "p @ x \<le> p @ (y :: string) \<longleftrightarrow> x \<le> y"
  by (induction p) simp_all

lemma prefix_le: "prefix p (k :: string) \<Longrightarrow> p \<le> k"
  using append_le [of p "[]"] by (auto simp: prefix_def)

lemma prefix_snoc_nth: "prefix (p @ [c]) k \<longleftrightarrow> prefix p k \<and> length p < length k \<and> k ! length p = c"
proof -
  have "prefix [c] x \<longleftrightarrow> x \<noteq> [] \<and> hd x = c" for x by (cases x) auto
  then show ?thesis by (auto simp: prefix_def nth_append hd_conv_nth)
qed

lemma nth_mono:
  assumes "prefix p k" "prefix p (l :: string)" "k \<le> l" "length p < length k" "length p < length l"
  shows "k ! length p \<le> l ! length p"
proof -
  from assms obtain x y where k: "k = p @ x" "l = p @ y" by (auto simp: prefix_def)
  then have "x \<le> y" "x \<noteq> []" "y \<noteq> []" using assms append_le by auto
  then show ?thesis using k by (cases x; cases y) auto
qed

lemma sorted_keys:
  assumes "sorted_wrt (<) (keys :: string list)" "a \<le> b" "b < length keys"
  shows "keys ! a \<le> keys ! b"
  using assms sorted_wrt_nth_less [OF assms(1), of a b] by (cases "a = b") auto

text \<open>The prefix itself, if it is a key, is the first of the keys it covers; the others are longer.\<close>

lemma covers_first:
  assumes S: "sorted_wrt (<) (keys :: string list)" and e: "e \<le> length keys" and s: "s < e"
    and cov: "\<forall>a < length keys. s \<le> a \<and> a < e \<longleftrightarrow> prefix p (keys ! a)"
  shows "length (keys ! s) = length p \<longleftrightarrow> p \<in> set keys" "s < a \<Longrightarrow> a < e \<Longrightarrow> length p < length (keys ! a)"
    "length (keys ! s) \<noteq> length p \<Longrightarrow> length p < length (keys ! s)"
proof -
  have pre: "prefix p (keys ! a)" if "s \<le> a" "a < e" for a using cov e that by (metis order.strict_trans2)
  have ps: "prefix p (keys ! s)" using pre s by simp
  then show "length (keys ! s) \<noteq> length p \<Longrightarrow> length p < length (keys ! s)" using prefix_length_le by fastforce
  have first: "a = s" if "a < length keys" "keys ! a = p" for a
  proof (rule ccontr)
    assume "a \<noteq> s"
    moreover have "s \<le> a" using cov that by auto
    ultimately have "keys ! s < keys ! a" using sorted_wrt_nth_less [OF S, of s a] that by simp
    with prefix_le [OF ps] that show False by simp
  qed
  show "length (keys ! s) = length p \<longleftrightarrow> p \<in> set keys"
  proof
    assume "length (keys ! s) = length p"
    then have "keys ! s = p" using ps by (auto simp: prefix_def)
    then show "p \<in> set keys" using e s by (metis nth_mem order.strict_trans2)
  next
    assume "p \<in> set keys"
    then show "length (keys ! s) = length p" using first by (auto simp: in_set_conv_nth)
  qed
  show "length p < length (keys ! a)" if "s < a" "a < e"
  proof -
    have a: "a < length keys" "prefix p (keys ! a)" using that e pre by auto
    then have "keys ! a \<noteq> p" using first that by auto
    with a(2) show ?thesis by (auto simp: prefix_def)
  qed
qed

lemma covers_children:
  assumes S: "sorted_wrt (<) (keys :: string list)" and e: "e \<le> length keys" and s: "s < e"
    and cov: "\<forall>a < length keys. s \<le> a \<and> a < e \<longleftrightarrow> prefix p (keys ! a)"
    and j: "j = (if length (keys ! s) = length p then Suc s else s)"
  shows "j \<le> e" "\<forall>a. j \<le> a \<and> a < e \<longrightarrow> length p < length (keys ! a)"
    "\<forall>a b. j \<le> a \<and> a \<le> b \<and> b < e \<longrightarrow> keys ! a ! length p \<le> keys ! b ! length p"
    "\<forall>a < length keys. j \<le> a \<and> a < e \<and> keys ! a ! length p = c \<longleftrightarrow> prefix (p @ [c]) (keys ! a)"
proof -
  have pre: "prefix p (keys ! a)" if "s \<le> a" "a < e" for a using cov e that by (metis order.strict_trans2)
  show "j \<le> e" using j s by simp
  show l: "\<forall>a. j \<le> a \<and> a < e \<longrightarrow> length p < length (keys ! a)"
    using covers_first [OF S e s cov] j by (metis Suc_le_eq le_neq_implies_less)
  show "\<forall>a b. j \<le> a \<and> a \<le> b \<and> b < e \<longrightarrow> keys ! a ! length p \<le> keys ! b ! length p"
  proof (intro allI impI, elim conjE)
    fix a b assume "j \<le> a" "a \<le> b" "b < e"
    then show "keys ! a ! length p \<le> keys ! b ! length p"
      using l pre sorted_keys [OF S, of a b] e j by (intro nth_mono) (auto split: if_splits)
  qed
  show "\<forall>a < length keys. j \<le> a \<and> a < e \<and> keys ! a ! length p = c \<longleftrightarrow> prefix (p @ [c]) (keys ! a)"
  proof (intro allI impI)
    fix a assume a: "a < length keys"
    have "j \<le> a \<and> a < e \<longleftrightarrow> prefix p (keys ! a) \<and> length p < length (keys ! a)"
      using l cov a j by (cases "a = s") (auto split: if_splits)
    then show "j \<le> a \<and> a < e \<and> keys ! a ! length p = c \<longleftrightarrow> prefix (p @ [c]) (keys ! a)"
      by (auto simp: prefix_snoc_nth)
  qed
qed

definition node_ok :: "string list \<Rightarrow> string list \<Rightarrow> string list \<Rightarrow> nat \<Rightarrow> bool" where
  "node_ok keys ps Ls v = (v \<le> off Ls v \<and> sorted_wrt (<) (Ls ! v) \<and> set (Ls ! v) = {c. \<exists>k\<in>set keys. prefix (ps ! v @ [c]) k}
     \<and> (\<forall>t < length (Ls ! v). ps ! (off Ls v + t + 1) = ps ! v @ [Ls ! v ! t]))"

text \<open>
  The loop: \<open>i\<close> nodes are finished, with labels \<open>Ls\<close>; \<open>ps\<close> lists the prefixes of these and of the
  nodes in the queue.
\<close>

definition build_inv :: "string list \<Rightarrow> nat \<Rightarrow> string list \<Rightarrow> string list \<Rightarrow> building \<Rightarrow> bool" where
  "build_inv keys i ps Ls b = (length Ls = i \<and> length ps = i + length (b_queue b) \<and> length ps = length (concat Ls) + 1
     \<and> ps ! 0 = [] \<and> list_all2 (covers keys) (b_queue b) (drop i ps) \<and> b_labels b = concat Ls
     \<and> b_lIdx b = int (length (louds Ls)) \<and> holds_bits (b_bitmap b) (louds Ls)
     \<and> (\<forall>k. bitAt (b_leaves b) k \<longleftrightarrow> k < i \<and> ps ! k \<in> set keys) \<and> (\<forall>v<i. node_ok keys ps Ls v)
     \<and> (\<forall>p\<in>set ps. \<exists>k\<in>set keys. prefix p k))"

lemma off_append: "v \<le> length Ls \<Longrightarrow> off (Ls @ Ms) v = off Ls v"
  by (simp add: off_def)

lemma node_ok_append:
  assumes "node_ok keys ps Ls v" "v < length Ls" "length ps = length (concat Ls) + 1" "v < length ps"
  shows "node_ok keys (ps @ qs) (Ls @ Ms) v"
proof -
  have "off Ls v + t + 1 < length ps" if "t < length (Ls ! v)" for t
    using concat_nth(1) [OF assms(2) that] assms(3) by simp
  then show ?thesis using assms by (simp add: node_ok_def off_append nth_append)
qed

lemma child_covers:
  assumes "child_entry keys (length p) j e c q" "e \<le> length keys"
    and "\<forall>a < length keys. j \<le> a \<and> a < e \<and> keys ! a ! length p = c \<longleftrightarrow> prefix (p @ [c]) (keys ! a)"
  shows "covers keys q (p @ [c])"
  using assms unfolding child_entry_def covers_def by (fastforce intro: le_trans)

text \<open>A node that is finished: its labels, its mark, and its children at the end of the queue.\<close>

lemma build_inv_next:
  assumes I: "build_inv keys i ps Ls b" and q: "b_queue b = q # qs" and p: "p = ps ! i"
    and add: "children_added keys (length p) e j (louds Ls) (b\<lparr>b_queue := qs, b_leaves := lv\<rparr>) cs new b1"
    and lv: "\<forall>k. bitAt lv k \<longleftrightarrow> bitAt (b_leaves b) k \<or> k = i \<and> p \<in> set keys"
    and set: "set cs = {c. \<exists>k\<in>set keys. prefix (p @ [c]) k}"
    and new: "list_all2 (covers keys) new (map (\<lambda>c. p @ [c]) cs)"
  shows "build_inv keys (Suc i) (ps @ map (\<lambda>c. p @ [c]) cs) (Ls @ [cs]) (add_bit 1 b1)"
proof -
  let ?ps = "ps @ map (\<lambda>c. p @ [c]) cs"
  have i: "i < length ps" "length Ls = i" "length ps = length (concat Ls) + 1" using I q by (auto simp: build_inv_def)
  have "length new = length cs" using new by (simp add: list_all2_lengthD)
  then have len: "length ?ps = Suc i + length (b_queue (add_bit 1 b1))" "length ?ps = length (concat (Ls @ [cs])) + 1"
    using I q add by (simp_all add: build_inv_def children_added_def)
  have "list_all2 (covers keys) qs (drop (Suc i) ps)" using I q i(1) by (auto simp: build_inv_def Cons_nth_drop_Suc [symmetric])
  then have que: "list_all2 (covers keys) (b_queue (add_bit 1 b1)) (drop (Suc i) ?ps)"
    using new add i(1) by (simp add: children_added_def list_all2_appendI)
  have bits: "b_lIdx (add_bit 1 b1) = int (length (louds (Ls @ [cs])))" "holds_bits (b_bitmap (add_bit 1 b1)) (louds (Ls @ [cs]))"
    using add holds_bits_snoc(2) [of "b_bitmap b1" "louds Ls @ replicate (length cs) False"]
    by (simp_all add: children_added_def node_bits_def)
  have leaves: "\<forall>k. bitAt (b_leaves (add_bit 1 b1)) k \<longleftrightarrow> k < Suc i \<and> ?ps ! k \<in> set keys"
    using I add lv i(1) p by (auto simp: build_inv_def children_added_def nth_append less_Suc_eq)
  have "node_ok keys ?ps (Ls @ [cs]) v" if "v < Suc i" for v
  proof (cases "v = i")
    case True
    have "off (Ls @ [cs]) i = length (concat Ls)" using i by (simp add: off_def)
    then show ?thesis using True i p set add by (simp add: node_ok_def children_added_def nth_append)
  next
    case False
    then show ?thesis using that I i by (intro node_ok_append) (auto simp: build_inv_def)
  qed
  moreover have "length (Ls @ [cs]) = Suc i" "?ps ! 0 = []" "b_labels (add_bit 1 b1) = concat (Ls @ [cs])"
    using I add i by (simp_all add: build_inv_def children_added_def nth_append)
  moreover have "\<forall>x\<in>set ?ps. \<exists>k\<in>set keys. prefix x k" using I set by (auto simp: build_inv_def)
  ultimately show ?thesis unfolding build_inv_def using len que bits leaves by blast
qed

lemma build_step:
  assumes S: "sorted_wrt (<) keys" and I: "build_inv keys i ps Ls b" and q: "b_queue b = q # qs"
  shows "\<exists>key cs b1. at keys (q_s q) = Ret key
    \<and> childLoop keys (q_col q) (q_e q) (if is_leaf key q then q_s q + 1 else q_s q)
        (b\<lparr>b_queue := qs, b_leaves := if is_leaf key q then setBit (b_leaves b) (int i) 1 else b_leaves b\<rparr>) = Ret b1
    \<and> build_inv keys (Suc i) (ps @ map (\<lambda>c. ps ! i @ [c]) cs) (Ls @ [cs]) (add_bit 1 b1)"
proof -
  let ?p = "ps ! i"
  have i: "i < length ps" "length Ls = i" "length ps = length (concat Ls) + 1" using I q by (auto simp: build_inv_def)
  have "drop i ps = ?p # drop (Suc i) ps" using i by (simp add: Cons_nth_drop_Suc)
  then have cq: "covers keys q ?p" and cqs: "list_all2 (covers keys) qs (drop (Suc i) ps)" using I q by (auto simp: build_inv_def)
  then obtain s e where qe: "q = \<lparr>q_s = int s, q_e = int e, q_col = int (length ?p)\<rparr>" and se: "s < e" "e \<le> length keys"
    and cov: "\<forall>a < length keys. s \<le> a \<and> a < e \<longleftrightarrow> prefix ?p (keys ! a)" by (auto simp: covers_def)
  let ?leaf = "length (keys ! s) = length ?p"
  define j where "j = (if ?leaf then Suc s else s)"
  let ?b = "b\<lparr>b_queue := qs, b_leaves := if ?leaf then setBit (b_leaves b) (int i) 1 else b_leaves b\<rparr>"
  note ch = covers_children [OF S se(2,1) cov j_def]
  from childLoop_spec [OF ch(2) se(2) ch(1) ch(3), of ?b "louds Ls"] I obtain cs new b1 where
    b1: "childLoop keys (int (length ?p)) (int e) (int j) ?b = Ret b1" "children_added keys (length ?p) e j (louds Ls) ?b cs new b1"
    by (auto simp: build_inv_def)
  have leaf: "?leaf \<longleftrightarrow> ?p \<in> set keys" by (rule covers_first(1) [OF S se(2,1) cov])
  have set: "set cs = {c. \<exists>k\<in>set keys. prefix (?p @ [c]) k}"
  proof (rule set_eqI)
    fix c
    have "set cs = (\<lambda>a. keys ! a ! length ?p) ` {j..<e}" using b1(2) by (simp add: children_added_def)
    then have "c \<in> set cs \<longleftrightarrow> (\<exists>a. j \<le> a \<and> a < e \<and> keys ! a ! length ?p = c)" by auto
    also have "\<dots> \<longleftrightarrow> (\<exists>a<length keys. j \<le> a \<and> a < e \<and> keys ! a ! length ?p = c)" using se(2) by (metis order.strict_trans2)
    also have "\<dots> \<longleftrightarrow> (\<exists>k\<in>set keys. prefix (?p @ [c]) k)" using ch(4) [of c] by (metis in_set_conv_nth)
    finally show "c \<in> set cs \<longleftrightarrow> c \<in> {c. \<exists>k\<in>set keys. prefix (?p @ [c]) k}" by simp
  qed
  have new: "list_all2 (covers keys) new (map (\<lambda>c. ?p @ [c]) cs)"
    using b1(2) child_covers [OF _ se(2) ch(4)] unfolding children_added_def list_all2_map2
    by (auto simp: list_all2_conv_all_nth)
  have "\<forall>k. bitAt (if ?leaf then setBit (b_leaves b) (int i) 1 else b_leaves b) k \<longleftrightarrow> bitAt (b_leaves b) k \<or> k = i \<and> ?p \<in> set keys"
    using leaf by (simp add: bitAt_setBit)
  from build_inv_next [OF I q refl b1(2) this set new]
  have "build_inv keys (Suc i) (ps @ map (\<lambda>c. ?p @ [c]) cs) (Ls @ [cs]) (add_bit 1 b1)" .
  moreover have "at keys (q_s q) = Ret (keys ! s)" "is_leaf (keys ! s) q \<longleftrightarrow> ?leaf" "q_col q = int (length ?p)" "q_e q = int e"
    "(if ?leaf then q_s q + 1 else q_s q) = int j" using qe se by (auto simp: at_def is_leaf_def j_def)
  ultimately show ?thesis using b1(1) by (intro exI [of _ "keys ! s"] exI [of _ cs] exI [of _ b1]) simp
qed

lemma buildLoop_spec:
  assumes "sorted_wrt (<) (keys :: string list)" "build_inv keys i ps Ls b"
  shows "\<exists>b' ps' Ls'. buildLoop keys (int i) b = Ret b' \<and> build_inv keys (length ps') ps' Ls' b'"
  using assms
proof (induction keys "int i" b arbitrary: i ps Ls rule: buildLoop.induct)
  case (1 keys b)
  show ?case
  proof (cases "b_queue b")
    case Nil
    then have "length ps = i" using "1.prems"(2) by (simp add: build_inv_def)
    then show ?thesis using "1.prems" Nil by (subst buildLoop.simps) auto
  next
    case (Cons q qs)
    from build_step [OF "1.prems" Cons] obtain key cs b1 where k: "at keys (q_s q) = Ret key"
      and c: "childLoop keys (q_col q) (q_e q) (if is_leaf key q then q_s q + 1 else q_s q)
        (b\<lparr>b_queue := qs, b_leaves := if is_leaf key q then setBit (b_leaves b) (int i) 1 else b_leaves b\<rparr>) = Ret b1"
      and inv: "build_inv keys (Suc i) (ps @ map (\<lambda>c. ps ! i @ [c]) cs) (Ls @ [cs]) (add_bit 1 b1)" by blast
    have "buildLoop keys (int i) b = buildLoop keys (int i + 1) (add_bit 1 b1)"
      using Cons k c by (subst buildLoop.simps) simp
    with "1.hyps" [OF Cons k c _ "1.prems"(1) inv] show ?thesis by (simp add: add.commute)
  qed
qed

text \<open>When the queue is empty, the last node is a leaf, so the marks reach as far as the nodes.\<close>

lemma build_done_marks:
  assumes S: "sorted_wrt (<) keys" and I: "build_inv keys (length ps) ps Ls b"
  shows "marks (b_leaves b) ps keys"
proof -
  let ?v = "length ps - 1"
  have v: "?v < length ps" "length Ls = length ps" "length ps = length (concat Ls) + 1" using I by (auto simp: build_inv_def)
  have "ps ! ?v \<in> set keys"
  proof (rule ccontr)
    assume n: "ps ! ?v \<notin> set keys"
    obtain k where k: "k \<in> set keys" "prefix (ps ! ?v) k"
      using I nth_mem [OF v(1)] unfolding build_inv_def by blast
    with n have "length (ps ! ?v) < length k" by (auto simp: prefix_def)
    with k have "prefix (ps ! ?v @ [k ! length (ps ! ?v)]) k" by (simp add: prefix_snoc_nth)
    moreover have ok: "node_ok keys ps Ls ?v" using I v(1) by (simp add: build_inv_def)
    ultimately have "Ls ! ?v \<noteq> []" using k(1) by (auto simp: node_ok_def)
    with concat_nth(1) [of ?v Ls 0] v have "off Ls ?v + 1 < length ps" by auto
    moreover have "?v \<le> off Ls ?v" using ok by (simp add: node_ok_def)
    ultimately show False using v(1) by linarith
  qed
  then have "bitAt (b_leaves b) ?v" using I v(1) by (simp add: build_inv_def)
  from bitAt_bound [OF this] show ?thesis using I by (auto simp: marks_def build_inv_def)
qed

lemma newDomainSet_represents:
  assumes S: "sorted_wrt (<) keys" and ne: "keys \<noteq> []" and pkg: "documented_pkg pkg"
  shows "\<exists>ss ps Ls. newDomainSet_keys pkg keys = Ret (Some ss)
    \<and> (64 * length (labelBitmap ss) < 2 ^ 31 \<longrightarrow> represents pkg ss keys ps Ls)"
proof -
  let ?b = "\<lparr>b_queue = [\<lparr>q_s = 0, q_e = int (length keys), q_col = 0\<rparr>], b_labels = [], b_bitmap = [], b_leaves = [], b_lIdx = 0\<rparr>"
  have "covers keys \<lparr>q_s = 0, q_e = int (length keys), q_col = 0\<rparr> []"
    using ne unfolding covers_def by (intro exI [of _ 0] exI [of _ "length keys"]) simp
  then have "build_inv keys 0 [[]] [] ?b" using ne by (simp add: build_inv_def holds_bits_Nil neq_Nil_conv) auto
  from buildLoop_spec [OF S this] obtain b ps Ls where run: "buildLoop keys 0 ?b = Ret b" and I: "build_inv keys (length ps) ps Ls b"
    by auto
  let ?ss = "ds_init pkg \<lparr>leaves = b_leaves b, labelBitmap = b_bitmap b, labels = b_labels b, ranks = [], selects = []\<rparr>"
  have "newDomainSet_keys pkg keys = Ret (Some ?ss)" using run ne by (simp add: newDomainSet_keys_def)
  moreover have "shape keys ps Ls" using I by (auto simp: build_inv_def shape_def node_ok_def)
  moreover have "walkable pkg ?ss Ls" if "64 * length (labelBitmap ?ss) < 2 ^ 31"
    using that I pkg by (auto simp: build_inv_def walkable_def ds_init_def Let_def)
  moreover have "marks (leaves ?ss) ps keys" using build_done_marks [OF S I] by (simp add: ds_init_def Let_def)
  ultimately show ?thesis by (auto simp: represents_def)
qed

text \<open>When a set of keys contains a name: the name itself, or a key that ends with a plus and fits in front of it.\<close>

definition keys_match :: "string list \<Rightarrow> string \<Rightarrow> bool" where
  "keys_match keys rl = (rl \<in> set keys \<or> (\<exists>m < length rl. plus_below keys rl m))"

lemma Has_keys:
  assumes R: "represents pkg ss keys ps Ls" "no_star keys" and key: "ascii key" "\<forall>c\<in>set key. \<not> lower_char c < CHR ''+''"
  shows "Has pkg (Some ss) key = Ret (keys_match keys (rev (ToLower key)))"
proof (cases "key = []")
  case True
  have "0 < length ps" "ps ! 0 = []" using R by (auto simp: represents_def shape_def)
  with getBit_leaf [of "leaves ss" ps keys 0] R True show ?thesis
    by (auto simp: Has_def ascii_def represents_def keys_match_def ToLower_def)
next
  case False
  have "0 < length Ls" "ps ! 0 = []" using R(1) by (auto simp: represents_def shape_def)
  then have "hasLoop pkg ss key (has_at Ls 0 0 0) = Some (Ret (keys_match keys (rev (ToLower key))))"
    using hasLoop_spec [OF R refl, of key 0 0] False key(2)
    by (auto simp: keys_match_def ToLower_def)
  moreover have "has_at Ls 0 0 0 = \<lparr>h_i = 0, h_nodeId = 0, h_bmIdx = 0, h_stack = []\<rparr>"
    by (simp add: has_at_def start_def)
  ultimately show ?thesis using False key(1) by (simp add: Has_def)
qed

end
