(* ===== verification/DomainSetTrie.thy ===== *)
theory DomainSetTrie
  imports DomainSet
begin

text \<open>
  The traversal of a domain trie as a list of paths: \<open>Foreach\<close> visits every stored entry exactly once.
\<close>

section \<open>The names a trie holds\<close>

lemma getChild_map_of: "getChild n s = map_of (getChildren n) s"
  by (cases n) (auto simp: getChild_def getChildren_def split: option.split)

lemma wf_getChildren:
  "wf_node n \<Longrightarrow> distinct (map fst (getChildren n)) \<and> (\<forall>kc\<in>set (getChildren n). wf_node (snd kc))"
  by (cases n; cases "childMap n"; cases "childNode n") (simp_all add: getChildren_def list_all_iff pred_prod_beta)

text \<open>The paths of the nodes with data below a node, the last label first, in the order of the traversal.\<close>

function (sequential) listing :: "string list \<Rightarrow> 'a Node \<Rightarrow> string list list"
  and listing_kids :: "string list \<Rightarrow> (string \<times> 'a Node) list \<Rightarrow> string list list"
where
  "listing items n = listing_kids items (getChildren n)"
| "listing_kids items [] = []"
| "listing_kids items ((key, c) # rest) =
     (if nodeData c = None then [] else [key # items]) @ listing (key # items) c @ listing_kids items rest"
  by pat_completeness auto
termination
proof (relation "measure (\<lambda>x. case x of Inl (_, n) \<Rightarrow> 2 * size n
    | Inr (_, kids) \<Rightarrow> Suc (2 * size_list (\<lambda>kc. size (snd kc)) kids))", goal_cases)
  case (2 items n)
  then show ?case using size_getChildren [of n] by simp
qed simp_all

definition name_of :: "string list \<Rightarrow> string" where
  "name_of items = (let domain = joinDomain items in if domain \<noteq> [] \<and> hd domain = CHR ''.'' then ''+'' @ domain else domain)"

lemma recursion_listing:
  fixes n :: "'a Node" and kids :: "(string \<times> 'a Node) list"
  assumes "fn = (\<lambda>s d x. (True, s @ [g d]))"
  shows "recursion_node fn items n s = (True, s @ map (\<lambda>p. g (name_of p)) (listing items n))"
    "recursion_kids fn items kids s = (True, s @ map (\<lambda>p. g (name_of p)) (listing_kids items kids))"
  using assms
proof (induction fn items n s and fn items kids s rule: recursion_node_recursion_kids.induct)
  case (3 fn items key c rest s)
  have v: "visit_node fn (key # items) c s = (True, s @ (if nodeData c = None then [] else [g (name_of (key # items))]))"
    by (simp add: "3.prems" visit_node_def name_of_def Let_def split: option.split)
  show ?case using "3.IH"(1) [OF refl refl _ "3.prems"] "3.IH"(2) [OF refl refl _ refl _ "3.prems"] v
    by (simp add: Let_def)
qed simp_all

lemma set_listing:
  fixes n :: "'a Node" and kids :: "(string \<times> 'a Node) list"
  shows "wf_node n \<Longrightarrow> set (listing items n) = {rev qs @ items |qs. qs \<noteq> [] \<and> lookup n qs \<noteq> None}"
    "distinct (map fst kids) \<Longrightarrow> \<forall>kc\<in>set kids. wf_node (snd kc) \<Longrightarrow>
      set (listing_kids items kids) = {rev qs @ key # items |key c qs. (key, c) \<in> set kids \<and> lookup c qs \<noteq> None}"
proof (induction items n and items kids rule: listing_listing_kids.induct)
  case (1 items n)
  have "set (listing items n) = {rev qs @ key # items |key c qs. (key, c) \<in> set (getChildren n) \<and> lookup c qs \<noteq> None}"
    using 1 wf_getChildren [OF "1.prems"] by simp
  also have "\<dots> = {rev qs @ items |qs. qs \<noteq> [] \<and> lookup n qs \<noteq> None}"
  proof -
    have "lookup n (key # qs) \<noteq> None \<longleftrightarrow> (\<exists>c. (key, c) \<in> set (getChildren n) \<and> lookup c qs \<noteq> None)" for key qs
    proof -
      have m: "map_of (getChildren n) key = Some c \<longleftrightarrow> (key, c) \<in> set (getChildren n)" for c
        using map_of_eq_Some_iff [of "getChildren n" key c] wf_getChildren [OF "1.prems"] by simp
      then show ?thesis by (cases "map_of (getChildren n) key") (simp_all add: getChild_map_of flip: m)
    qed
    then have "{rev qs @ key # items |key c qs. (key, c) \<in> set (getChildren n) \<and> lookup c qs \<noteq> None}
        = {rev (key # qs) @ items |key qs. lookup n (key # qs) \<noteq> None}" by (simp only: rev.simps append_assoc append_Cons append_Nil) blast
    also have "\<dots> = {rev qs @ items |qs. qs \<noteq> [] \<and> lookup n qs \<noteq> None}" by (metis (no_types, opaque_lifting) list.distinct(1) neq_Nil_conv)
    finally show ?thesis .
  qed
  finally show ?case .
next
  case (3 items key c rest)
  have "set (listing (key # items) c) = {rev qs @ key # items |qs. qs \<noteq> [] \<and> lookup c qs \<noteq> None}"
    "set (listing_kids items rest) = {rev qs @ key # items |key c qs. (key, c) \<in> set rest \<and> lookup c qs \<noteq> None}"
    using 3 by auto
  moreover have "(if nodeData c = None then {} else {key # items}) \<union> {rev qs @ key # items |qs. qs \<noteq> [] \<and> lookup c qs \<noteq> None}
      = {rev qs @ key # items |qs. lookup c qs \<noteq> None}"
  proof (rule set_eqI)
    fix x
    show "x \<in> (if nodeData c = None then {} else {key # items}) \<union> {rev qs @ key # items |qs. qs \<noteq> [] \<and> lookup c qs \<noteq> None}
        \<longleftrightarrow> x \<in> {rev qs @ key # items |qs. lookup c qs \<noteq> None}"
      by (cases "x = key # items") (auto intro: exI [of _ "[]"])
  qed
  ultimately have "set (listing_kids items ((key, c) # rest)) = {rev qs @ key # items |qs. lookup c qs \<noteq> None}
      \<union> {rev qs @ key # items |key c qs. (key, c) \<in> set rest \<and> lookup c qs \<noteq> None}"
    by (simp only: listing_kids.simps set_append if_distrib [of set] list.set Un_assoc [symmetric])
  then show ?case by (simp only:) (simp only: list.set insert_iff prod.inject, blast)
qed simp

lemma listing_items: "p \<in> set (listing items n) \<Longrightarrow> wf_node n \<Longrightarrow> \<exists>qs. p = rev qs @ items"
  using set_listing(1) [of n items] by auto

lemma distinct_listing:
  fixes n :: "'a Node" and kids :: "(string \<times> 'a Node) list"
  shows "wf_node n \<Longrightarrow> distinct (listing items n)"
    "distinct (map fst kids) \<Longrightarrow> \<forall>kc\<in>set kids. wf_node (snd kc) \<Longrightarrow> distinct (listing_kids items kids)"
proof (induction items n and items kids rule: listing_listing_kids.induct)
  case (1 items n)
  then show ?case using wf_getChildren by auto
next
  case (3 items key c rest)
  then have c: "wf_node c" and r: "distinct (map fst rest)" "\<forall>kc\<in>set rest. wf_node (snd kc)" and k: "key \<notin> fst ` set rest" by auto
  have "key # items \<notin> set (listing (key # items) c)" using set_listing(1) [OF c, of "key # items"] by auto
  moreover have "set (listing_kids items rest) \<inter> {rev qs @ key # items |qs. True} = {}"
    using set_listing(2) [OF r, of items] k by force
  moreover have "set (listing (key # items) c) \<subseteq> {rev qs @ key # items |qs. True}" "key # items \<in> {rev qs @ key # items |qs. True}"
    using set_listing(1) [OF c, of "key # items"] by auto
  ultimately show ?case using 3 c r by (auto simp del: listing.simps)
qed simp
end
