(* ===== verification/DomainSetMatch.thy ===== *)
theory DomainSetMatch
  imports DomainSetTrie "HOL-Library.Multiset"
begin

text \<open>
  The set built from a trie matches what the trie matches: the list of keys that the traversal of
  the trie produces, the meaning of a key as a path of labels, and the two theorems, that the set
  refines the trie when no pattern has a star label, and that it does not in general.
\<close>

section \<open>The paths of a trie in the order of its traversal\<close>

fun Foreach_paths :: "(string \<times> 'a Node) list \<Rightarrow> string list list" where
  "Foreach_paths [] = []"
| "Foreach_paths ((key, c) # rest) = listing [key] c @ (if nodeData c = None then [] else [[key]]) @ Foreach_paths rest"

lemma mset_Foreach_paths: "mset (Foreach_paths kids) = mset (listing_kids [] kids)"
  by (induction kids rule: Foreach_paths.induct) (simp_all del: listing.simps)

lemma Foreach_loop_paths:
  assumes "fn = (\<lambda>s d x. (True, s @ [g d]))" "\<forall>kc\<in>set kids. nodeData (snd kc) \<noteq> None \<longrightarrow> CHR ''.'' \<notin> set (fst kc)"
  shows "Foreach_loop fn kids s = s @ map (\<lambda>p. g (name_of p)) (Foreach_paths kids)"
  using assms(2)
proof (induction kids arbitrary: s rule: Foreach_paths.induct)
  case (2 key c rest)
  have "name_of [key] = joinDomain [key]" if "nodeData c \<noteq> None"
    using "2.prems" that by (cases key) (auto simp: name_of_def joinDomain_def)
  then show ?case using 2 recursion_listing(1) [OF assms(1), of "[key]" c s] assms(1)
    by (simp add: Let_def del: listing.simps recursion_node.simps split: option.split)
qed simp

text \<open>The paths that tries built from valid patterns hold, here without star labels.\<close>

definition plain_label :: "string \<Rightarrow> bool" where
  "plain_label l = (ascii l \<and> CHR ''.'' \<notin> set l \<and> CHR ''+'' \<notin> set l \<and> CHR ''*'' \<notin> set l)"

definition good_path :: "string list \<Rightarrow> bool" where
  "good_path qs = (qs \<noteq> [] \<and> hd qs \<noteq> [] \<and> list_all plain_label qs)"

lemma Join_append: "xs \<noteq> [] \<Longrightarrow> ys \<noteq> [] \<Longrightarrow> Join (xs @ ys) sep = Join xs sep @ sep @ Join ys sep"
  by (induction xs sep rule: Join.induct) (auto simp: Join_Cons)

lemma Split_append: "Split (a @ sep # b) sep = Split a sep @ Split b sep"
  by (induction a) (auto split: list.split)

lemma set_Join: "set (Join xs [sep]) \<subseteq> (\<Union>x\<in>set xs. set x) \<union> {sep}"
  by (induction xs "[sep]" rule: Join.induct) auto

definition key_of :: "string list \<Rightarrow> string" where
  "key_of qs = rev (name_of (rev qs))"

text \<open>A path ends with the empty label, and its key with a plus, or neither does.\<close>

lemma key_of_good:
  assumes "good_path qs"
  shows "last qs \<noteq> [] \<Longrightarrow> key_of qs = rev (Join (rev qs) ''.'')"
    "last qs = [] \<Longrightarrow> butlast qs \<noteq> [] \<and> key_of qs = rev (Join (rev (butlast qs)) ''.'') @ ''.+''"
proof -
  have qs: "rev qs = last qs # rev (butlast qs)" using assms by (cases qs rule: rev_cases) (simp_all add: good_path_def)
  have l: "CHR ''.'' \<notin> set (last qs)" using assms by (simp add: good_path_def list_all_iff plain_label_def)
  show "key_of qs = rev (Join (rev qs) ''.'')" if "last qs \<noteq> []"
  proof -
    have "hd (joinDomain (rev qs)) = hd (last qs)" using that by (cases "rev (butlast qs)") (simp_all add: joinDomain_def qs)
    moreover have "hd (last qs) \<noteq> CHR ''.''" using that l by (metis hd_in_set)
    ultimately show ?thesis by (simp add: key_of_def name_of_def Let_def joinDomain_def)
  qed
  show "butlast qs \<noteq> [] \<and> key_of qs = rev (Join (rev (butlast qs)) ''.'') @ ''.+''" if "last qs = []"
  proof -
    have "butlast qs \<noteq> []" using assms that by (cases qs) (auto simp: good_path_def split: if_splits)
    then show ?thesis using that by (simp add: key_of_def name_of_def joinDomain_def qs Join_Cons)
  qed
qed

lemma plus_free: "list_all plain_label xs \<Longrightarrow> CHR ''+'' \<notin> set (Join (rev xs) ''.'')"
  using set_Join [of "rev xs" "CHR ''.''"] by (auto simp: list_all_iff plain_label_def)

lemma key_of_plus: "good_path qs \<Longrightarrow> CHR ''+'' \<in> set (key_of qs) \<longleftrightarrow> last qs = []"
  using key_of_good [of qs] plus_free [of qs] by (cases "last qs = []") (auto simp: good_path_def)

lemma key_of_inj:
  assumes "good_path qs" "good_path rs" "key_of qs = key_of rs"
  shows "qs = rs"
proof -
  have sj: "Split (Join (rev xs) ''.'') (CHR ''.'') = rev xs" if "xs \<noteq> []" "\<forall>l\<in>set xs. CHR ''.'' \<notin> set l" for xs
    using Split_Join [of "rev xs" "CHR ''.''"] that by simp
  have J: "xs = ys" if "Join (rev xs) ''.'' = Join (rev ys) ''.''" "xs \<noteq> []" "ys \<noteq> []"
    "\<forall>l\<in>set xs. CHR ''.'' \<notin> set l" "\<forall>l\<in>set ys. CHR ''.'' \<notin> set l" for xs ys
    using sj [OF that(2,4)] sj [OF that(3,5)] that(1) by (metis rev_rev_ident)
  have d: "\<forall>l\<in>set qs. CHR ''.'' \<notin> set l" "\<forall>l\<in>set rs. CHR ''.'' \<notin> set l" "qs \<noteq> []" "rs \<noteq> []"
    using assms(1,2) by (simp_all add: good_path_def list_all_iff plain_label_def)
  consider "last qs \<noteq> []" "last rs \<noteq> []" | "last qs = []" "last rs = []"
    using key_of_plus [OF assms(1)] key_of_plus [OF assms(2)] assms(3) by auto
  then show ?thesis
  proof cases
    case 1
    then show ?thesis using key_of_good(1) [OF assms(1)] key_of_good(1) [OF assms(2)] assms(3) J [OF _ d(3,4,1,2)] by simp
  next
    case 2
    have "\<forall>l\<in>set (butlast qs). CHR ''.'' \<notin> set l" "\<forall>l\<in>set (butlast rs). CHR ''.'' \<notin> set l"
      using d(1,2) by (meson in_set_butlastD)+
    with 2 have "butlast qs = butlast rs"
      using key_of_good(2) [OF assms(1)] key_of_good(2) [OF assms(2)] assms(3) J [of "butlast qs" "butlast rs"] by simp
    then show ?thesis using 2 d(3,4) by (metis append_butlast_last_id)
  qed
qed

section \<open>Matching\<close>

lemma path_covers_plain:
  assumes "''*'' \<notin> set qs"
  shows "path_covers qs ps \<longleftrightarrow> qs = ps \<or> (\<exists>pre p more. qs = pre @ [[]] \<and> ps = pre @ p # more)"
  using assms
proof (induction qs ps rule: path_covers.induct)
  case (2 q qs p ps)
  then have IH: "path_covers qs ps \<longleftrightarrow> qs = ps \<or> (\<exists>pre p more. qs = pre @ [[]] \<and> ps = pre @ p # more)" by simp
  have "(\<exists>pre p' more. q # qs = pre @ [[]] \<and> p # ps = pre @ p' # more) \<longleftrightarrow>
      q = [] \<and> qs = [] \<or> q = p \<and> (\<exists>pre p' more. qs = pre @ [[]] \<and> ps = pre @ p' # more)"
    by (auto simp: Cons_eq_append_conv)
  then show ?case using IH 2 by auto
qed (auto simp: Cons_eq_append_conv)

text \<open>A host name by its labels: none is empty.\<close>

definition host_labels :: "string \<Rightarrow> string list \<Rightarrow> bool" where
  "host_labels h parts = (parts \<noteq> [] \<and> [] \<notin> set parts \<and> Split h (CHR ''.'') = parts)"

lemma exact_key:
  assumes g: "good_path qs" and h: "host_labels h parts"
  shows "rev h = key_of qs \<longleftrightarrow> (if last qs \<noteq> [] then qs = rev parts else parts = ''+'' # rev (butlast qs))"
proof -
  have J: "Join parts ''.'' = h" using h by (auto simp: host_labels_def)
  have d: "\<forall>l\<in>set qs. CHR ''.'' \<notin> set l" "qs \<noteq> []" using g by (simp_all add: good_path_def list_all_iff plain_label_def)
  have s: "h = Join xs ''.'' \<longleftrightarrow> parts = xs" if "xs \<noteq> []" "\<forall>l\<in>set xs. CHR ''.'' \<notin> set l" for xs
    using Split_Join [of xs "CHR ''.''"] that h J by (metis host_labels_def)
  show ?thesis
  proof (cases "last qs = []")
    case False
    then have "rev h = key_of qs \<longleftrightarrow> parts = rev qs" using key_of_good(1) [OF g] s [of "rev qs"] d by simp
    then show ?thesis using False by auto
  next
    case True
    note k = key_of_good(2) [OF g True]
    have "rev h = key_of qs \<longleftrightarrow> h = Join (''+'' # rev (butlast qs)) ''.''" using k by (simp add: Join_Cons rev_swap)
    also have "\<dots> \<longleftrightarrow> parts = ''+'' # rev (butlast qs)" using d(1) by (intro s) (auto dest: in_set_butlastD)
    finally show ?thesis using True by simp
  qed
qed

lemma plus_key:
  assumes g: "good_path qs" and h: "host_labels h parts"
  shows "(\<exists>m < length h. prefix (take m (rev h) @ ''+'') (key_of qs)) \<longleftrightarrow>
    last qs = [] \<and> (\<exists>p more. rev parts = butlast qs @ p # more)"
proof
  assume "\<exists>m < length h. prefix (take m (rev h) @ ''+'') (key_of qs)"
  then obtain m z where m: "m < length h" "key_of qs = take m (rev h) @ ''+'' @ z" by (auto simp: prefix_def)
  then have l: "last qs = []" using key_of_plus [OF g] by auto
  let ?x = "Join (rev (butlast qs)) ''.''"
  have k: "butlast qs \<noteq> []" "key_of qs = rev ?x @ ''.+''" using key_of_good(2) [OF g l] by auto
  have "CHR ''+'' \<notin> set ?x" using plus_free [of "butlast qs"] g by (auto simp: good_path_def list_all_iff dest: in_set_butlastD)
  then have "rev ?x \<noteq> a @ CHR ''+'' # b" for a b by (metis in_set_conv_decomp set_rev)
  then have "take m (rev h) = rev ?x @ ''.''" using m(2) k(2) by (auto simp: append_eq_append_conv2 append_eq_Cons_conv Cons_eq_append_conv)
  then have "rev h = rev ?x @ ''.'' @ drop m (rev h)" by (metis append_assoc append_take_drop_id)
  then have "h = rev (drop m (rev h)) @ CHR ''.'' # ?x" by (metis append_Cons append_Nil append_assoc rev_append rev_rev_ident rev_singleton_conv)
  then have "parts = Split (rev (drop m (rev h))) (CHR ''.'') @ Split ?x (CHR ''.'')" using Split_append h by (metis host_labels_def)
  moreover have "Split ?x (CHR ''.'') = rev (butlast qs)" using k(1) g
    by (intro Split_Join) (auto simp: good_path_def list_all_iff plain_label_def dest: in_set_butlastD)
  moreover obtain a as where "Split (rev (drop m (rev h))) (CHR ''.'') = as @ [a]" by (metis Split_nonempty rev_exhaust)
  ultimately show "last qs = [] \<and> (\<exists>p more. rev parts = butlast qs @ p # more)" using l by simp
next
  assume a: "last qs = [] \<and> (\<exists>p more. rev parts = butlast qs @ p # more)"
  then obtain p more where pm: "rev parts = butlast qs @ p # more" by blast
  let ?x = "Join (rev (butlast qs)) ''.''" and ?y = "Join (rev more @ [p]) ''.''"
  have k: "butlast qs \<noteq> []" "key_of qs = rev ?x @ ''.+''" using key_of_good(2) [OF g] a by auto
  have parts: "parts = (rev more @ [p]) @ rev (butlast qs)" using pm by (metis append.assoc append_Cons append_Nil rev.simps(2) rev_append rev_rev_ident)
  have hx: "h = ?y @ ''.'' @ ?x" using h k(1) unfolding parts host_labels_def by (metis Join_Split Join_append Nil_is_append_conv list.distinct(1) rev_is_Nil_conv)
  have "p \<noteq> []" using h parts by (auto simp: host_labels_def)
  then have "?y \<noteq> []" by (cases more rule: rev_cases) (auto simp: Join_append Join_Cons)
  then have "length ?x + 1 < length h" "take (length ?x + 1) (rev h) = rev ?x @ ''.''" using hx by simp_all
  then show "\<exists>m < length h. prefix (take m (rev h) @ ''+'') (key_of qs)" using k(2) by (intro exI [of _ "length ?x + 1"]) simp
qed

lemma keys_match_paths:
  assumes t: "\<forall>qs. lookup t qs \<noteq> None \<longrightarrow> good_path qs" and keys: "set keys = key_of ` {qs. lookup t qs \<noteq> None}"
    and h: "host_labels h parts"
  shows "keys_match keys (rev h) \<longleftrightarrow> (\<exists>qs. lookup t qs \<noteq> None \<and> path_covers qs (rev parts))"
proof -
  have "keys_match keys (rev h) \<longleftrightarrow>
      (\<exists>qs. lookup t qs \<noteq> None \<and> (rev h = key_of qs \<or> (\<exists>m < length h. prefix (take m (rev h) @ ''+'') (key_of qs))))"
    unfolding keys_match_def plus_below_def keys by auto
  moreover have "rev h = key_of qs \<or> (\<exists>m < length h. prefix (take m (rev h) @ ''+'') (key_of qs)) \<longleftrightarrow> path_covers qs (rev parts)"
    if "lookup t qs \<noteq> None" for qs
  proof -
    have g: "good_path qs" using t that by blast
    then have ne: "qs \<noteq> []" "''*'' \<notin> set qs" by (auto simp: good_path_def list_all_iff plain_label_def)
    have last: "last (rev parts) \<noteq> []" "rev parts \<noteq> []" using h hd_in_set [of parts] unfolding host_labels_def last_rev by (metis, simp)
    have snoc: "(\<exists>pre p more. qs = pre @ [[]] \<and> rev parts = pre @ p # more) \<longleftrightarrow> last qs = [] \<and> (\<exists>p more. rev parts = butlast qs @ p # more)"
      using ne(1) by (metis append_butlast_last_id butlast_snoc last_snoc)
    have "rev h = key_of qs \<longleftrightarrow> (if last qs \<noteq> [] then qs = rev parts else rev parts = butlast qs @ [''+''])"
      unfolding exact_key [OF g h] by (auto simp: rev_eq_append_conv)
    then show ?thesis
      unfolding path_covers_plain [OF ne(2)] snoc plus_key [OF g h] using last by auto
  qed
  ultimately show ?thesis by blast
qed

section \<open>The keys of a trie\<close>

lemma name_of_chars:
  assumes "good_path qs"
  shows "ascii (name_of (rev qs))" "CHR ''*'' \<notin> set (name_of (rev qs))"
proof -
  have "set (name_of (rev qs)) \<subseteq> (\<Union>l\<in>set qs. set l) \<union> {CHR ''.'', CHR ''+''}"
    using set_Join [of "rev qs" "CHR ''.''"] by (auto simp: name_of_def joinDomain_def Let_def)
  moreover have "\<forall>l\<in>set qs. \<forall>c\<in>set l. (of_char c :: int) < 128 \<and> c \<noteq> CHR ''*''"
    using assms by (auto simp: good_path_def list_all_iff plain_label_def ascii_def)
  ultimately have "(of_char c :: int) < 128 \<and> c \<noteq> CHR ''*''" if "c \<in> set (name_of (rev qs))" for c
    using that by (cases "c = CHR ''.'' \<or> c = CHR ''+''") auto
  then show "ascii (name_of (rev qs))" "CHR ''*'' \<notin> set (name_of (rev qs))" by (auto simp: ascii_def list_all_iff)
qed

lemma NewDomainSet_keys:
  assumes wf: "wf_node t" and t: "\<forall>qs. lookup t qs \<noteq> None \<longrightarrow> good_path qs"
  shows "\<exists>keys. NewDomainSet pkg t = newDomainSet_keys pkg keys \<and> sorted_wrt (<) keys
    \<and> set keys = key_of ` {qs. lookup t qs \<noteq> None} \<and> no_star keys"
proof -
  let ?fn = "\<lambda>s domain data. (True, s @ [Reverse domain])"
  let ?paths = "Foreach_paths (getChildren t)"
  have "CHR ''.'' \<notin> set k" if "(k, c) \<in> set (getChildren t)" "nodeData c \<noteq> None" for k c
  proof -
    have "lookup t [k] = nodeData c" using map_of_is_SomeI [of "getChildren t" k c] that(1) wf_getChildren [OF wf]
      by (simp add: getChild_map_of)
    then have "good_path [k]" using t that(2) by simp
    then show ?thesis by (simp add: good_path_def plain_label_def)
  qed
  then have f: "Foreach ?fn t [] = map (\<lambda>p. Reverse (name_of p)) ?paths"
    unfolding Foreach_def by (subst Foreach_loop_paths [OF refl]) force+
  have ms: "mset ?paths = mset (listing [] t)" by (simp add: mset_Foreach_paths)
  have paths: "set ?paths = rev ` {qs. lookup t qs \<noteq> None}"
  proof -
    have "lookup t [] = None" using t by (force simp: good_path_def)
    then show ?thesis using set_listing(1) [OF wf, of "[]"] mset_eq_setD [OF ms] by (auto simp del: listing.simps)
  qed
  have R: "Reverse (name_of p) = key_of (rev p) \<and> good_path (rev p)" if "p \<in> set ?paths" for p
    using that t paths name_of_chars [of "rev p"] by (auto simp: Reverse_ascii key_of_def)
  define keys where "keys = sort (map (\<lambda>p. key_of (rev p)) ?paths)"
  have "map (\<lambda>p. Reverse (name_of p)) ?paths = map (\<lambda>p. key_of (rev p)) ?paths" using R by simp
  then have "NewDomainSet pkg t = newDomainSet_keys pkg keys"
    by (simp only: NewDomainSet_def f keys_def Let_def)
  moreover have set: "set keys = key_of ` {qs. lookup t qs \<noteq> None}" unfolding keys_def set_sort set_map paths
    by (simp add: image_image)
  moreover have "distinct ?paths" using distinct_listing(1) [OF wf, of "[]"] ms by (metis mset_eq_imp_distinct_iff)
  then have "distinct keys" using R key_of_inj by (auto simp: keys_def distinct_map intro!: inj_onI)
  then have "sorted_wrt (<) keys" by (simp add: keys_def strict_sorted_iff)
  moreover have "no_star keys" using name_of_chars t by (auto simp: no_star_def set key_of_def)
  ultimately show ?thesis by blast
qed

section \<open>Patterns\<close>

lemma of_lower_char:
  "(of_char (lower_char c) :: int) = (if 65 \<le> (of_char c :: int) \<and> (of_char c :: int) \<le> 90 then of_char c + 32 else of_char c)"
  by (simp add: lower_char_def Let_def mod_pos_pos_trivial)

lemma lower_char_keeps:
  assumes "d = CHR ''*'' \<or> d = CHR ''+''"
  shows "lower_char c = d \<longleftrightarrow> c = d"
proof -
  have "lower_char c = d \<longleftrightarrow> (of_char (lower_char c) :: int) = of_char d" "c = d \<longleftrightarrow> (of_char c :: int) = of_char d"
    by (simp_all only: of_char_eq_iff)
  then show ?thesis using assms unfolding of_lower_char by auto
qed

lemma ascii_ToLower: "ascii s \<Longrightarrow> ascii (ToLower s)"
  by (simp add: ascii_def ToLower_def list_all_iff of_lower_char)

lemma Contains_char: "Contains s [c] \<longleftrightarrow> c \<in> set s"
  by (simp add: Contains_iff sublist_def in_set_conv_decomp)

lemma wildcard_misplaced_tl: "\<not> wildcard_misplaced n (Suc i) ps \<Longrightarrow> q \<in> set ps \<Longrightarrow> CHR ''+'' \<notin> set q"
  by (induction n "Suc i" ps arbitrary: i rule: wildcard_misplaced.induct) (auto simp: Contains_char split: if_splits)

lemma wildcard_placed:
  assumes "\<not> wildcard_misplaced n 0 (p # ps)"
  shows "CHR ''+'' \<in> set p \<Longrightarrow> p = ''+'' \<and> n \<noteq> 1" "q \<in> set ps \<Longrightarrow> CHR ''+'' \<notin> set q"
proof -
  have "\<not> wildcard_misplaced n (Suc 0) ps" using assms by (simp split: if_splits)
  then show "q \<in> set ps \<Longrightarrow> CHR ''+'' \<notin> set q" by (rule wildcard_misplaced_tl)
  show "CHR ''+'' \<in> set p \<Longrightarrow> p = ''+'' \<and> n \<noteq> 1" using assms by (simp add: Contains_char split: if_splits)
qed

lemma set_Join_member: "x \<in> set xs \<Longrightarrow> set x \<subseteq> set (Join xs sep)"
  by (induction xs sep rule: Join.induct) auto

definition plain_pattern :: "string \<Rightarrow> bool" where
  "plain_pattern d = (ascii d \<and> CHR ''*'' \<notin> set d)"

lemma Valid_parts:
  assumes "ValidAndSplitDomain d = Some parts"
  shows "parts = Split (ToLower d) (CHR ''.'')" "\<exists>p ps. parts = p # ps" "[] \<notin> set (tl parts)" "length parts = 1 \<Longrightarrow> hd parts \<noteq> []"
    "\<not> wildcard_misplaced (length parts) 0 parts"
proof -
  show p: "parts = Split (ToLower d) (CHR ''.'')" and o: "length parts = 1 \<Longrightarrow> hd parts \<noteq> []"
    and "\<not> wildcard_misplaced (length parts) 0 parts"
    using assms by (auto simp: ValidAndSplitDomain_def Let_def split: if_splits)
  show pp: "\<exists>p ps. parts = p # ps" using p Split_nonempty by (metis neq_Nil_conv)
  have "length parts \<noteq> 1 \<longrightarrow> [] \<notin> set (tl parts)" using assms by (auto simp: ValidAndSplitDomain_def Let_def split: if_splits)
  then show "[] \<notin> set (tl parts)" using pp by (cases "length parts = 1") auto
qed

lemma pattern_path_good:
  assumes "plain_pattern d" "qs \<in> set (pattern_paths d)"
  shows "good_path qs"
proof -
  obtain parts where v: "ValidAndSplitDomain d = Some parts" using assms(2) by (cases "ValidAndSplitDomain d") (simp_all add: pattern_paths_def)
  note parts = Valid_parts(1) [OF v] and tl = Valid_parts(3) [OF v] and one = Valid_parts(4) [OF v] and wm = Valid_parts(5) [OF v]
  obtain p ps where pp: "parts = p # ps" using Valid_parts(2) [OF v] by blast
  have sub: "set l \<subseteq> set (ToLower d)" if "l \<in> set parts" for l
    using that unfolding parts by (metis Join_Split set_Join_member)
  have lab: "plain_label l" if "l \<in> set parts" "CHR ''+'' \<notin> set l" for l
  proof -
    have "ascii (ToLower d)" using assms(1) ascii_ToLower by (simp add: plain_pattern_def)
    moreover have "CHR ''*'' \<notin> set (ToLower d)"
      using assms(1) lower_char_keeps [of "CHR ''*''"] unfolding plain_pattern_def ToLower_def by (metis imageE set_map)
    ultimately show ?thesis using that sub [OF that(1)] Split_parts_no_sep that(1) unfolding parts
      by (auto simp: plain_label_def ascii_def list_all_iff)
  qed
  note wp = wildcard_placed [OF wm [unfolded pp]]
  have ps: "list_all plain_label ps" "[] \<notin> set ps" using lab wp(2) tl pp by (auto simp: list_all_iff)
  show ?thesis
  proof (cases "p = ''+''")
    case True
    then have ne: "ps \<noteq> []" using wp(1) pp by auto
    then have "last ps \<noteq> []" using ps(2) by (metis last_in_set)
    then have "good_path (rev ps)" "good_path (rev ([] # ps))" using ps ne
      by (auto simp: good_path_def hd_rev plain_label_def ascii_def)
    then show ?thesis using assms(2) v pp True by (auto simp: pattern_paths_def)
  next
    case False
    then have "plain_label p" using lab wp(1) pp by auto
    moreover have "last parts \<noteq> []" using one ps(2) pp last_in_set [of ps] by (cases "ps = []") (simp, metis last_ConsR)
    then have "hd (rev parts) \<noteq> []" using pp by (metis hd_rev)
    ultimately have "good_path (rev parts)" using ps pp by (auto simp: good_path_def)
    then show ?thesis using assms(2) v pp False by (simp add: pattern_paths_def)
  qed
qed

lemma Valid_host:
  assumes "ValidAndSplitDomain host = Some parts" "hd parts \<noteq> []"
  shows "host_labels (ToLower host) parts"
proof -
  obtain q qs where pp: "parts = q # qs" using Valid_parts(2) [OF assms(1)] by blast
  then have "[] \<notin> set parts" using Valid_parts(3) [OF assms(1)] assms(2) by simp
  then show ?thesis using Valid_parts(1) [OF assms(1)] pp by (simp add: host_labels_def)
qed

lemma Search_paths:
  assumes "ValidAndSplitDomain host = Some parts" "hd parts \<noteq> []"
  shows "Search t host \<noteq> None \<longleftrightarrow> (\<exists>qs. lookup t qs \<noteq> None \<and> path_covers qs (rev parts))"
  using search_finds [of t "rev parts"] assms by (auto simp: Search_eq_value Search_value)

lemma Has_paths:
  assumes "documented_pkg pkg" "\<forall>(d, x)\<in>set xs. plain_pattern d"
  shows "\<exists>ds. NewDomainSet pkg (insert_all xs newNode) = Ret ds
    \<and> (\<forall>host parts. (\<forall>ss. ds = Some ss \<longrightarrow> 64 * length (labelBitmap ss) < 2 ^ 31)
        \<and> ValidAndSplitDomain host = Some parts \<and> hd parts \<noteq> [] \<and> ascii host \<and> (\<forall>c\<in>set host. \<not> lower_char c < CHR ''+'') \<longrightarrow>
        Has pkg ds host = Ret (\<exists>qs. lookup (insert_all xs newNode) qs \<noteq> None \<and> path_covers qs (rev parts)))"
proof -
  let ?t = "insert_all xs newNode"
  have wf: "wf_node ?t" by (simp add: insert_all_wf wf_newNode)
  have l: "lookup newNode qs = None" for qs by (cases qs) (simp_all add: newNode_def getChild_def)
  have good: "\<forall>qs. lookup ?t qs \<noteq> None \<longrightarrow> good_path qs"
    using insert_all_lookup [OF wf_newNode, of xs] assms(2) pattern_path_good l by fastforce
  obtain keys where K: "NewDomainSet pkg ?t = newDomainSet_keys pkg keys" "sorted_wrt (<) keys"
    "set keys = key_of ` {qs. lookup ?t qs \<noteq> None}" "no_star keys" using NewDomainSet_keys [OF wf good] by blast
  show ?thesis
  proof (cases "keys = []")
    case True
    then have "NewDomainSet pkg ?t = Ret None" using K(1) by (simp add: newDomainSet_keys_def)
    moreover have "\<not> (\<exists>qs. lookup ?t qs \<noteq> None)" using K(3) True by auto
    ultimately show ?thesis by (intro exI [of _ None]) (auto simp: Has_def)
  next
    case False
    from newDomainSet_represents [OF K(2) False assms(1)] obtain ss ps Ls where
      ss: "newDomainSet_keys pkg keys = Ret (Some ss)" "64 * length (labelBitmap ss) < 2 ^ 31 \<longrightarrow> represents pkg ss keys ps Ls" by blast
    have "Has pkg (Some ss) host = Ret (\<exists>qs. lookup ?t qs \<noteq> None \<and> path_covers qs (rev parts))" if "64 * length (labelBitmap ss) < 2 ^ 31"
      "ValidAndSplitDomain host = Some parts" "hd parts \<noteq> []" "ascii host" "\<forall>c\<in>set host. \<not> lower_char c < CHR ''+''" for host parts
      using Has_keys [of pkg ss keys ps Ls host] keys_match_paths [OF good K(3) Valid_host [OF that(2,3)]] ss(2) that K(4) by simp
    then show ?thesis using K(1) ss(1) by (intro exI [of _ "Some ss"]) auto
  qed
qed

text \<open>
  C9. The succinct set answers as the trie it was built from: for a trie of ASCII patterns without star
  labels, the set is built without a panic, and \<open>Has\<close> returns, for every valid ASCII host name whose
  characters do not sort in front of the plus, exactly whether the trie finds it. The package of
  rank and select indexes behaves as documented, and the bitmap is addressed by \<open>int32\<close>.
\<close>

theorem DomainSet_refines_trie:
  assumes "documented_pkg pkg" "\<forall>(d, x)\<in>set xs. plain_pattern d"
  shows "\<exists>ds. NewDomainSet pkg (insert_all xs newNode) = Ret ds
    \<and> (\<forall>host parts. (\<forall>ss. ds = Some ss \<longrightarrow> 64 * length (labelBitmap ss) < 2 ^ 31)
        \<and> ValidAndSplitDomain host = Some parts \<and> hd parts \<noteq> [] \<and> ascii host \<and> (\<forall>c\<in>set host. \<not> lower_char c < CHR ''+'') \<longrightarrow>
        Has pkg ds host = Ret (Search (insert_all xs newNode) host \<noteq> None))"
proof -
  let ?t = "insert_all xs newNode"
  obtain ds where ds: "NewDomainSet pkg ?t = Ret ds"
    "\<forall>host parts. (\<forall>ss. ds = Some ss \<longrightarrow> 64 * length (labelBitmap ss) < 2 ^ 31)
        \<and> ValidAndSplitDomain host = Some parts \<and> hd parts \<noteq> [] \<and> ascii host \<and> (\<forall>c\<in>set host. \<not> lower_char c < CHR ''+'') \<longrightarrow>
        Has pkg ds host = Ret (\<exists>qs. lookup ?t qs \<noteq> None \<and> path_covers qs (rev parts))"
    using Has_paths [OF assms] by (elim exE conjE) (rule that)
  have "Has pkg ds host = Ret (Search ?t host \<noteq> None)"
    if "(\<forall>ss. ds = Some ss \<longrightarrow> 64 * length (labelBitmap ss) < 2 ^ 31) \<and> ValidAndSplitDomain host = Some parts
      \<and> hd parts \<noteq> [] \<and> ascii host \<and> (\<forall>c\<in>set host. \<not> lower_char c < CHR ''+'')" for host parts
    using ds(2) [rule_format, OF that] Search_paths [of host parts ?t] that by simp
  then show ?thesis using ds(1) by (intro exI [of _ ds]) blast
qed

section \<open>A package that behaves as documented\<close>

fun int_bits :: "nat \<Rightarrow> int \<Rightarrow> bool list" where
  "int_bits 0 x = []"
| "int_bits (Suc n) x = odd x # int_bits n (x div 2)"

fun all_bits :: "u64 list \<Rightarrow> bool list" where
  "all_bits [] = []"
| "all_bits (w # bm) = int_bits 64 (uint w) @ all_bits bm"

definition positions :: "bool list \<Rightarrow> int list" where
  "positions bs = map fst (filter snd (zip [0..int (length bs) - 1] bs))"

definition reference_pkg :: bitmap_pkg where
  "reference_pkg = \<lparr>IndexSelect32R64 = (\<lambda>bm. ([], [])),
     Rank64 = (\<lambda>bm ranks i. Ret (int (length (filter id (take (nat i) (all_bits bm)))), 0)),
     Select32R64 = (\<lambda>bm selects ranks i. obind (at (positions (all_bits bm)) i) (\<lambda>k. Ret (k, 0)))\<rparr>"

lemma int_bits_nth: "length (int_bits n x) = n" "k < n \<Longrightarrow> int_bits n x ! k = bit x k"
proof -
  show "length (int_bits n x) = n" by (induction n arbitrary: x) simp_all
  show "k < n \<Longrightarrow> int_bits n x ! k = bit x k"
  proof (induction n arbitrary: x k)
    case (Suc n)
    then show ?case by (cases k) (simp_all add: bit_0 bit_Suc)
  qed simp
qed

lemma all_bits_holds: "holds_bits bm (all_bits bm)"
proof (induction bm)
  case (Cons w bm)
  then have IH: "length (all_bits bm) \<le> 64 * length bm" "bitAt bm k \<longleftrightarrow> k < length (all_bits bm) \<and> all_bits bm ! k" for k
    by (simp_all add: holds_bits_def)
  have "bitAt (w # bm) k \<longleftrightarrow> (if k < 64 then bit w k else bitAt bm (k - 64))" for k
    by (auto simp: bitAt_def nth_Cons' div_eq_0_iff le_div_geq le_mod_geq)
  then have "bitAt (w # bm) k \<longleftrightarrow> k < length (all_bits (w # bm)) \<and> all_bits (w # bm) ! k" for k
    using IH(2) [of "k - 64"] by (auto simp: nth_append int_bits_nth bit_uint_iff)
  then show ?case using IH(1) by (simp add: holds_bits_def int_bits_nth)
qed (simp add: holds_bits_Nil)

lemma length_all_bits: "length (all_bits bm) = 64 * length bm"
  by (induction bm) (simp_all add: int_bits_nth)

lemma positions_nth:
  assumes "k < length bs" "bs ! k"
  shows "length (filter id (take k bs)) < length (positions bs)" "positions bs ! length (filter id (take k bs)) = int k"
proof -
  define xs where "xs = [0..int (length bs) - 1]"
  have xs: "length xs = length bs" "xs ! k = int k" using assms(1) by (simp_all add: xs_def)
  have z: "zip xs bs = zip (take k xs) (take k bs) @ (int k, True) # zip (drop (Suc k) xs) (drop (Suc k) bs)"
    using id_take_nth_drop [of k "zip xs bs"] xs assms by (simp add: take_zip drop_zip)
  have "length (filter snd (zip as bs')) = length (filter id bs')" if "length as = length bs'" for as :: "int list" and bs'
    using that by (induction as bs' rule: list_induct2) simp_all
  then have l: "length (filter snd (zip (take k xs) (take k bs))) = length (filter id (take k bs))" using xs(1) by simp
  show "length (filter id (take k bs)) < length (positions bs)" "positions bs ! length (filter id (take k bs)) = int k"
    unfolding positions_def xs_def [symmetric] z using l by (simp_all add: nth_append)
qed

lemma reference_pkg_documented: "documented_pkg reference_pkg"
proof -
  have r: "card {k. k < i \<and> bitAt bm k} = length (filter id (take i (all_bits bm)))" if "i \<le> 64 * length bm" for i bm
    using holds_bits_rank [OF all_bits_holds, of i bm] that by (simp add: length_all_bits)
  have "\<exists>y. Select32R64 reference_pkg bm [] [] (int (card {j. j < k \<and> bitAt bm j})) = Ret (int k, y)" if "bitAt bm k" for bm k
  proof -
    have k: "k < length (all_bits bm)" "all_bits bm ! k" using all_bits_holds [of bm] that by (simp_all add: holds_bits_def)
    then show ?thesis using positions_nth [OF k] r [of k bm] by (simp add: reference_pkg_def at_def length_all_bits)
  qed
  then show ?thesis using r by (simp add: documented_pkg_def reference_pkg_def)
qed

theorem DomainSet_refines_trie_witness:
  "\<exists>ds. NewDomainSet reference_pkg (insert_all [(''+.com'', ()), (''www.a.net'', ())] newNode) = Ret ds
    \<and> Has reference_pkg ds ''A.com'' = Ret True \<and> Has reference_pkg ds ''a.net'' = Ret False"
proof -
  let ?xs = "[(''+.com'', ()), (''www.a.net'', ())]" and ?t = "insert_all [(''+.com'', ()), (''www.a.net'', ())] newNode"
  have p: "\<forall>(d, x)\<in>set ?xs. plain_pattern d" by code_simp
  obtain ds where ds: "NewDomainSet reference_pkg ?t = Ret ds" and H: "\<forall>host parts. (\<forall>ss. ds = Some ss \<longrightarrow> 64 * length (labelBitmap ss) < 2 ^ 31)
        \<and> ValidAndSplitDomain host = Some parts \<and> hd parts \<noteq> [] \<and> ascii host \<and> (\<forall>c\<in>set host. \<not> lower_char c < CHR ''+'') \<longrightarrow>
        Has reference_pkg ds host = Ret (Search ?t host \<noteq> None)"
    using DomainSet_refines_trie [OF reference_pkg_documented p] by (elim exE conjE) (rule that)
  have "case NewDomainSet reference_pkg ?t of Ret (Some ss) \<Rightarrow> length (labelBitmap ss) = 1 | _ \<Rightarrow> False" by code_simp
  then have small: "\<forall>ss. ds = Some ss \<longrightarrow> 64 * length (labelBitmap ss) < 2 ^ 31" using ds by (auto split: option.splits)
  have v: "ValidAndSplitDomain ''A.com'' = Some [''a'', ''com'']" "ValidAndSplitDomain ''a.net'' = Some [''a'', ''net'']"
    "ascii ''A.com''" "ascii ''a.net''" "\<forall>c\<in>set ''A.com''. \<not> lower_char c < CHR ''+''" "\<forall>c\<in>set ''a.net''. \<not> lower_char c < CHR ''+''"
    "Search ?t ''A.com'' \<noteq> None" "Search ?t ''a.net'' = None" by code_simp+
  have "Has reference_pkg ds ''A.com'' = Ret (Search ?t ''A.com'' \<noteq> None)" using H small v by auto
  moreover have "Has reference_pkg ds ''a.net'' = Ret (Search ?t ''a.net'' \<noteq> None)" using H small v by auto
  ultimately show ?thesis using ds v(7,8) by (intro exI [of _ ds]) simp
qed

text \<open>
  With star labels the set is wrong in both directions: when the child of a star has no labels
  of its own, the search for a dot runs into the labels of other nodes and the walk goes on at an
  unrelated node, so that a name is accepted that no pattern covers; and when a name ends at an inner
  node, no star that was passed is tried again, so that a covered name is refused.
\<close>

theorem DomainSet_star_wrong:
  "obind (NewDomainSet reference_pkg (insert_all [(''*.a'', ()), (''o.aba.ba'', ())] newNode)) (\<lambda>ss. Has reference_pkg ss ''o.a.abb.a'') = Ret True
   \<and> Search (insert_all [(''*.a'', ()), (''o.aba.ba'', ())] newNode) ''o.a.abb.a'' = None
   \<and> obind (NewDomainSet reference_pkg (insert_all [(''*.com'', ()), (''www.a.com'', ())] newNode)) (\<lambda>ss. Has reference_pkg ss ''a.com'') = Ret False
   \<and> Search (insert_all [(''*.com'', ()), (''www.a.com'', ())] newNode) ''a.com'' \<noteq> None"
  by (intro conjI) code_simp+

end
