(* ===== verification/DomainSetKeys.thy ===== *)
theory DomainSetKeys
  imports DomainSetMatch
begin

text \<open>
  The traversal of a domain set (\<open>keys\<close> and \<open>Foreach\<close> of src/component/trie/domain_set.go), and that
  it visits exactly the keys the set was built from, in ascending order. A bitmap read from a file
  can describe a cyclic structure, so the traversal is a partial function.
\<close>

section \<open>Traversal\<close>

definition enterNode :: "DomainSet \<Rightarrow> ('s \<Rightarrow> string \<Rightarrow> bool \<times> 's) \<Rightarrow> int \<Rightarrow> string \<Rightarrow> 's \<Rightarrow> (bool \<times> 's) outcome" where
  "enterNode ss f nodeId currentKey s =
     obind (getBit (leaves ss) nodeId) (\<lambda>b. Ret (if b \<noteq> 0 then f s currentKey else (True, s)))"

definition enterChild :: "bitmap_pkg \<Rightarrow> DomainSet \<Rightarrow> ('s \<Rightarrow> string \<Rightarrow> bool \<times> 's) \<Rightarrow> int \<Rightarrow> int \<Rightarrow> string \<Rightarrow> 's
    \<Rightarrow> (string \<times> int \<times> int \<times> bool \<times> 's) outcome" where
  "enterChild pkg ss f nodeId bmIdx currentKey s =
     obind (at (labels ss) (bmIdx - nodeId)) (\<lambda>nextLabel.
     obind (nextNode pkg ss bmIdx) (\<lambda>(nextNodeId, nextBmIdx).
     obind (enterNode ss f nextNodeId (currentKey @ [nextLabel]) s) (\<lambda>(go, s1).
       Ret (currentKey @ [nextLabel], nextNodeId, nextBmIdx, go, s1))))"

partial_function (option) traverse :: "bitmap_pkg \<Rightarrow> DomainSet \<Rightarrow> ('s \<Rightarrow> string \<Rightarrow> bool \<times> 's) \<Rightarrow> int \<Rightarrow> int \<Rightarrow> string \<Rightarrow> 's
    \<Rightarrow> (bool \<times> 's) outcome option" where
  "traverse pkg ss f nodeId bmIdx currentKey s = (case getBit (labelBitmap ss) bmIdx of
     Ret b \<Rightarrow>
       (if b \<noteq> 0 then Some (Ret (True, s))
        else case enterChild pkg ss f nodeId bmIdx currentKey s of
          Ret (nextKey, nextNodeId, nextBmIdx, go, s1) \<Rightarrow>
            (if \<not> go then Some (Ret (False, s1))
             else Option.bind (traverse pkg ss f nextNodeId nextBmIdx nextKey s1) (\<lambda>r. case r of
               Ret (go2, s2) \<Rightarrow> (if go2 then traverse pkg ss f nodeId (bmIdx + 1) currentKey s2 else Some (Ret (False, s2)))
             | Panic \<Rightarrow> Some Panic
             | Diverge \<Rightarrow> Some Diverge))
        | Panic \<Rightarrow> Some Panic
        | Diverge \<Rightarrow> Some Diverge)
   | Panic \<Rightarrow> Some Panic
   | Diverge \<Rightarrow> Some Diverge)"

declare traverse.simps [code]

definition ds_keys :: "bitmap_pkg \<Rightarrow> DomainSet \<Rightarrow> ('s \<Rightarrow> string \<Rightarrow> bool \<times> 's) \<Rightarrow> 's \<Rightarrow> 's outcome" where
  "ds_keys pkg ss f s =
     obind (enterNode ss f 0 [] s) (\<lambda>(go, s1).
       if go then (case traverse pkg ss f 0 0 [] s1 of None \<Rightarrow> Diverge | Some r \<Rightarrow> obind r (\<lambda>x. Ret (snd x)))
       else Ret s1)"

definition ds_Foreach :: "bitmap_pkg \<Rightarrow> DomainSet \<Rightarrow> ('s \<Rightarrow> string \<Rightarrow> bool \<times> 's) \<Rightarrow> 's \<Rightarrow> 's outcome" where
  "ds_Foreach pkg ss f s = ds_keys pkg ss (\<lambda>s key. f s (Reverse key)) s"

section \<open>The keys in order\<close>

text \<open>The keys below a prefix: the prefix itself, then those of its children in the order of the labels.\<close>

lemma prefix_snocE:
  assumes "prefix (p @ [c]) k" obtains x where "k = p @ c # x"
  using assms by (auto simp: prefix_def)

lemma children_less:
  assumes "prefix (p @ [c]) k" "prefix (p @ [d]) l" "c < d"
  shows "k < (l :: string)"
proof -
  obtain x where x: "k = p @ c # x" using assms(1) by (rule prefix_snocE)
  obtain y where y: "l = p @ d # y" using assms(2) by (rule prefix_snocE)
  show ?thesis using append_le [of p "d # y" "c # x"] assms(3) unfolding x y by (auto simp: not_le [symmetric])
qed

lemma prefix_snoc_less: "prefix (p @ [c]) k \<Longrightarrow> p < (k :: string)"
  using prefix_le [of p k] by (auto simp: less_le dest: append_prefixD elim: prefix_snocE)

lemma children_sorted:
  assumes "sorted_wrt (<) (keys :: string list)" "sorted_wrt (<) M"
  shows "sorted_wrt (<) (concat (map (\<lambda>c. filter (prefix (p @ [c])) keys) M))"
  using assms(2)
proof (induction M)
  case (Cons c M)
  have "k < l" if "prefix (p @ [c]) k" "l \<in> set (concat (map (\<lambda>c. filter (prefix (p @ [c])) keys) M))" for k l
    using that Cons.prems by (auto intro: children_less)
  with Cons show ?case using assms(1) by (simp add: sorted_wrt_append sorted_wrt_filter)
qed simp

lemma keys_below_split:
  assumes S: "sorted_wrt (<) (keys :: string list)" and L: "sorted_wrt (<) L" "set L = {c. \<exists>k\<in>set keys. prefix (p @ [c]) k}"
  shows "filter (prefix p) keys = (if p \<in> set keys then [p] else []) @ concat (map (\<lambda>c. filter (prefix (p @ [c])) keys) L)"
    (is "?l = ?r")
proof -
  have R: "sorted_wrt (<) ?r"
    using children_sorted [OF S L(1)] by (auto simp: sorted_wrt_append intro: prefix_snoc_less)
  have "k = p \<or> (\<exists>c\<in>set L. prefix (p @ [c]) k)" if k: "k \<in> set keys" "prefix p k" for k
  proof (cases "k = p")
    case False
    with k(2) have "prefix (p @ [k ! length p]) k"
      by (auto simp: prefix_snoc_nth prefix_length_less strict_prefix_def)
    with k(1) show ?thesis unfolding L(2) by blast
  qed simp
  then have E: "set ?l = set ?r" by (auto dest: append_prefixD)
  have "sorted_wrt (<) ?l" using S by (simp add: sorted_wrt_filter)
  then show ?thesis using E R strict_sorted_equal by metis
qed

fun visit :: "('s \<Rightarrow> string \<Rightarrow> bool \<times> 's) \<Rightarrow> 's \<Rightarrow> string list \<Rightarrow> bool \<times> 's" where
  "visit f s [] = (True, s)"
| "visit f s (k # ks) = (case f s k of (go, s1) \<Rightarrow> if go then visit f s1 ks else (False, s1))"

lemma visit_append: "visit f s (xs @ ys) = (case visit f s xs of (go, s1) \<Rightarrow> if go then visit f s1 ys else (False, s1))"
  by (induction xs arbitrary: s) (auto split: prod.split)

lemma enterNode_spec:
  assumes "represents pkg ss keys ps Ls" "v < length Ls"
  shows "enterNode ss f (int v) (ps ! v) s = Ret (visit f s (if ps ! v \<in> set keys then [ps ! v] else []))"
proof -
  obtain w where "getBit (leaves ss) (int v) = Ret w" "w \<noteq> 0 \<longleftrightarrow> ps ! v \<in> set keys"
    using getBit_leaf [of "leaves ss" ps keys v] assms by (auto simp: represents_def shape_def)
  then show ?thesis by (auto simp: enterNode_def split: prod.split)
qed

lemma child_node:
  assumes R: "represents pkg ss keys ps Ls" and v: "v < length Ls" and t: "t < length (Ls ! v)"
  shows "off Ls v + t + 1 < length Ls" "ps ! (off Ls v + t + 1) = ps ! v @ [Ls ! v ! t]"
    "enterChild pkg ss f (int v) (int (start Ls v + t)) (ps ! v) s =
       (case visit f s (if ps ! v @ [Ls ! v ! t] \<in> set keys then [ps ! v @ [Ls ! v ! t]] else []) of (go, s1) \<Rightarrow>
          Ret (ps ! v @ [Ls ! v ! t], int (off Ls v + t + 1), int (start Ls (off Ls v + t + 1)), go, s1))"
proof -
  let ?w = "off Ls v + t + 1"
  have W: "walkable pkg ss Ls" using R by (simp add: represents_def)
  show w: "?w < length Ls" using concat_nth(1) [OF v t] W by (simp add: walkable_def)
  show p: "ps ! ?w = ps ! v @ [Ls ! v ! t]" using R v t by (simp add: represents_def shape_def)
  show "enterChild pkg ss f (int v) (int (start Ls v + t)) (ps ! v) s =
       (case visit f s (if ps ! v @ [Ls ! v ! t] \<in> set keys then [ps ! v @ [Ls ! v ! t]] else []) of (go, s1) \<Rightarrow>
          Ret (ps ! v @ [Ls ! v ! t], int ?w, int (start Ls ?w), go, s1))"
    unfolding enterChild_def label_at [OF W v t] nextNode_child [OF W v t] obind.simps prod.case
      enterNode_spec [OF R w, unfolded p]
    by (simp only: obind.simps split: prod.split)
qed

text \<open>The keys that a node still has to visit from the label \<open>t\<close> on.\<close>

definition below :: "string list \<Rightarrow> string list \<Rightarrow> string list \<Rightarrow> nat \<Rightarrow> nat \<Rightarrow> string list" where
  "below keys ps Ls v t = concat (map (\<lambda>c. filter (prefix (ps ! v @ [c])) keys) (drop t (Ls ! v)))"

lemma below_all:
  assumes "represents pkg ss keys ps Ls" "v < length Ls" "sorted_wrt (<) keys"
  shows "filter (prefix (ps ! v)) keys = (if ps ! v \<in> set keys then [ps ! v] else []) @ below keys ps Ls v 0"
  using assms keys_below_split [OF assms(3), of "Ls ! v" "ps ! v"] by (simp add: below_def represents_def shape_def)

lemma below_child:
  assumes "represents pkg ss keys ps Ls" "v < length Ls" "sorted_wrt (<) keys" "t < length (Ls ! v)"
  shows "below keys ps Ls v t =
    (if ps ! v @ [Ls ! v ! t] \<in> set keys then [ps ! v @ [Ls ! v ! t]] else []) @ below keys ps Ls (off Ls v + t + 1) 0
    @ below keys ps Ls v (Suc t)"
proof -
  have "below keys ps Ls v t = filter (prefix (ps ! v @ [Ls ! v ! t])) keys @ below keys ps Ls v (Suc t)"
    using assms(4) by (simp add: below_def Cons_nth_drop_Suc [symmetric])
  then show ?thesis
    using below_all [OF assms(1) child_node(1) [OF assms(1,2,4)] assms(3)] child_node(2) [OF assms(1,2,4)] by simp
qed

lemma label_depth:
  assumes "represents pkg ss keys ps Ls" "v < length Ls" "t < length (Ls ! v)"
  shows "length (ps ! v) < sum_list (map length keys)"
proof -
  have "Ls ! v ! t \<in> set (Ls ! v)" using assms(3) by simp
  then obtain k where k: "k \<in> set keys" "prefix (ps ! v @ [Ls ! v ! t]) k"
    using assms(1,2) by (auto simp: represents_def shape_def)
  then have "length (ps ! v) < length k" using prefix_length_le by fastforce
  moreover have "length k \<le> sum_list (map length keys)" using k(1) by (simp add: member_le_sum_list)
  ultimately show ?thesis by simp
qed

lemma traverse_spec:
  assumes R: "represents pkg ss keys ps Ls" and S: "sorted_wrt (<) keys"
  shows "v < length Ls \<Longrightarrow> t \<le> length (Ls ! v) \<Longrightarrow>
    traverse pkg ss f (int v) (int (start Ls v + t)) (ps ! v) s = Some (Ret (visit f s (below keys ps Ls v t)))"
proof (induction "sum_list (map length keys) - length (ps ! v)" arbitrary: v t s rule: less_induct)
  case less
  note deeper = less.hyps and v = less.prems(1)
  have W: "walkable pkg ss Ls" using R by (simp add: represents_def)
  show ?case using less.prems(2)
  proof (induction "length (Ls ! v) - t" arbitrary: t s)
    case 0
    then have "t = length (Ls ! v)" by simp
    then show ?case using getBit_label [OF W v, of t] by (subst traverse.simps) (auto simp: below_def)
  next
    case (Suc d)
    then have t: "t < length (Ls ! v)" by simp
    let ?w = "off Ls v + t + 1" and ?k = "ps ! v @ [Ls ! v ! t]"
    note c = child_node [OF R v t]
    obtain b where b: "getBit (labelBitmap ss) (int (start Ls v + t)) = Ret b" "b = 0"
      using getBit_label [OF W v, of t] t by auto
    have down: "traverse pkg ss f (int ?w) (int (start Ls ?w)) ?k s1 = Some (Ret (visit f s1 (below keys ps Ls ?w 0)))" for s1
      using deeper [OF _ c(1), of 0 s1] label_depth [OF R v t] c(2) by simp
    have rest: "traverse pkg ss f (int v) (int (start Ls v + t) + 1) (ps ! v) s1 = Some (Ret (visit f s1 (below keys ps Ls v (Suc t))))" for s1
      using Suc.hyps(1) [of "Suc t" s1] Suc.hyps(2) t by (simp add: add.commute add.left_commute)
    define x y z where xyz: "x = int (start Ls v + t)" "y = int ?w" "z = int (start Ls ?w)"
    show ?case
      using b down rest c(3) [of f s] unfolding below_child [OF R v S t] visit_append xyz [symmetric]
      by (subst traverse.simps) (simp split: prod.split)
  qed
qed

lemma ds_keys_spec:
  assumes R: "represents pkg ss keys ps Ls" and S: "sorted_wrt (<) keys"
  shows "ds_keys pkg ss f s = Ret (snd (visit f s keys))"
proof -
  have 0: "0 < length Ls" "ps ! 0 = []" using R by (auto simp: represents_def shape_def)
  have k: "keys = (if [] \<in> set keys then [[]] else []) @ below keys ps Ls 0 0"
    using below_all [OF R 0(1) S] unfolding 0(2) by simp
  have e: "enterNode ss f 0 [] s = Ret (visit f s (if [] \<in> set keys then [[]] else []))"
    using enterNode_spec [OF R 0(1), of f s] unfolding 0(2) by (simp only: int_ops)
  have t: "traverse pkg ss f 0 0 [] s1 = Some (Ret (visit f s1 (below keys ps Ls 0 0)))" for s1
    using traverse_spec [OF R S 0(1), of 0] 0(2) by (simp add: start_def)
  have "ds_keys pkg ss f s = Ret (snd (visit f s ((if [] \<in> set keys then [[]] else []) @ below keys ps Ls 0 0)))"
    unfolding ds_keys_def e visit_append by (simp add: t split: prod.split)
  then show ?thesis using k by simp
qed

text \<open>
  C13. Building a set and traversing it gives the keys back: over the set that was built from any
  non-empty, strictly ascending list of keys, \<open>keys\<close> calls the visitor on exactly these keys, in this
  order, and stops early exactly when the visitor says so. The package of rank and select indexes behaves
  as documented, and the bitmap is addressed by \<open>int32\<close>.
\<close>

theorem ds_keys_roundtrip:
  assumes "documented_pkg pkg" "sorted_wrt (<) keys" "keys \<noteq> []" "newDomainSet_keys pkg keys = Ret (Some ss)"
    and "64 * length (labelBitmap ss) < 2 ^ 31"
  shows "ds_keys pkg ss f s = Ret (snd (visit f s keys))"
proof -
  obtain ss' ps Ls where "newDomainSet_keys pkg keys = Ret (Some ss')"
    "64 * length (labelBitmap ss') < 2 ^ 31 \<longrightarrow> represents pkg ss' keys ps Ls"
    using newDomainSet_represents [OF assms(2,3,1)] by blast
  then have "represents pkg ss keys ps Ls" using assms(4,5) by simp
  then show ?thesis by (rule ds_keys_spec [OF _ assms(2)])
qed

theorem ds_keys_roundtrip_witness:
  "case newDomainSet_keys reference_pkg [''moc.+'', ''moc.a'', ''moc.ab''] of
     Ret (Some ss) \<Rightarrow> ds_keys reference_pkg ss (\<lambda>s k. (length s < 1, s @ [k])) [] = Ret [''moc.+'', ''moc.a'']
   | _ \<Rightarrow> False"
proof -
  let ?keys = "[''moc.+'', ''moc.a'', ''moc.ab'']"
  have k: "sorted_wrt (<) ?keys" by code_simp
  have "case newDomainSet_keys reference_pkg ?keys of Ret (Some ss) \<Rightarrow> length (labelBitmap ss) = 1 | _ \<Rightarrow> False" by code_simp
  then obtain ss where ss: "newDomainSet_keys reference_pkg ?keys = Ret (Some ss)" "64 * length (labelBitmap ss) < 2 ^ 31"
    by (auto split: outcome.splits option.splits)
  show ?thesis
    using ds_keys_roundtrip [OF reference_pkg_documented k _ ss, of "\<lambda>s k. (length s < 1, s @ [k])" "[]"] ss(1) by simp
qed

end
