(* ===== verification/RuleFiles.thy ===== *)
theory RuleFiles
  imports DomainSetKeys RuleParser
begin

text \<open>
  The files behind rule providers (src/rules/provider): the three strategies that collect the rules
  of a file, the text, YAML and MRS formats of \<open>rulesParse\<close>, and the converter to MRS. The binary form
  of a domain set is src/component/trie/domain_set_bin.go, that of a set of address ranges is
  src/component/cidr. A stream is a list of bytes; reading past its end is an error. The writer and
  the compressing encoder are arguments, as are the YAML decoder, the decompressor, the package
  netipx of address ranges and the package of rank and select indexes.
\<close>

section \<open>Streams\<close>

definition rbind :: "'a result outcome \<Rightarrow> ('a \<Rightarrow> 'b result outcome) \<Rightarrow> 'b result outcome" where
  "rbind m f = obind m (\<lambda>r. case r of Inl e \<Rightarrow> Ret (Inl e) | Inr x \<Rightarrow> f x)"

definition bytes_of :: "string \<Rightarrow> u8 list" where
  "bytes_of s = map of_char s"

definition string_of :: "u8 list \<Rightarrow> string" where
  "string_of bs = map (\<lambda>b. char_of (uint b)) bs"

definition be64 :: "u64 \<Rightarrow> u8 list" where
  "be64 w = map (\<lambda>i. ucast (drop_bit (8 * i) w)) [7, 6, 5, 4, 3, 2, 1, 0]"

text \<open>\<open>io.ReadFull\<close> and \<open>binary.Read\<close> in big-endian order.\<close>

definition ReadFull :: "int \<Rightarrow> u8 list \<Rightarrow> (u8 list \<times> u8 list) result" where
  "ReadFull n bs =
     (if n \<le> int (length bs) then Inr (take (nat n) bs, drop (nat n) bs)
      else Inl (if bs = [] then ''EOF'' else ''unexpected EOF''))"

definition readUint64 :: "u8 list \<Rightarrow> (u64 \<times> u8 list) result" where
  "readUint64 bs = (case ReadFull 8 bs of Inl e \<Rightarrow> Inl e | Inr (b, r) \<Rightarrow> Inr (bytes_word b, r))"

definition readInt64 :: "u8 list \<Rightarrow> (int \<times> u8 list) result" where
  "readInt64 bs = (case readUint64 bs of Inl e \<Rightarrow> Inl e | Inr (w, r) \<Rightarrow> Inr (sint w, r))"

lemma readUint64_shorter: "readUint64 bs = Inr (w, r) \<Longrightarrow> length r < length bs"
  by (auto simp: readUint64_def ReadFull_def split: if_splits)

function readWords :: "int \<Rightarrow> u8 list \<Rightarrow> (u64 list \<times> u8 list) result" where
  "readWords n bs =
     (if n \<le> 0 then Inr ([], bs)
      else case readUint64 bs of
        Inl e \<Rightarrow> Inl e
      | Inr (w, r) \<Rightarrow> (case readWords (n - 1) r of Inl e \<Rightarrow> Inl e | Inr (ws, r') \<Rightarrow> Inr (w # ws, r')))"
  by pat_completeness auto
termination by (relation "measure (\<lambda>(n, bs). length bs)") (auto dest: readUint64_shorter)

declare readWords.simps [simp del]

text \<open>\<open>make\<close> of a slice panics when its size exceeds the address space, here that of 64-bit systems.\<close>

definition makeslice :: "int \<Rightarrow> int \<Rightarrow> 'a \<Rightarrow> 'a outcome" where
  "makeslice elem n x = (if elem * n > 281474976710656 then Panic else Ret x)"

text \<open>A writer returns an error or nothing, and its new state; a sequence of writes stops at the first error.\<close>

type_synonym 'w writer = "u8 list \<Rightarrow> 'w \<Rightarrow> string option \<times> 'w"

fun writeAll :: "'w writer \<Rightarrow> u8 list list \<Rightarrow> 'w \<Rightarrow> string option \<times> 'w" where
  "writeAll wr [] w = (None, w)"
| "writeAll wr (c # cs) w = (case wr c w of (Some e, w1) \<Rightarrow> (Some e, w1) | (None, w1) \<Rightarrow> writeAll wr cs w1)"

definition int64_bytes :: "int \<Rightarrow> u8 list" where
  "int64_bytes n = be64 (word_of_int n)"

section \<open>The binary form of a domain set\<close>

definition domainSet_chunks :: "DomainSet \<Rightarrow> u8 list list" where
  "domainSet_chunks ss =
     [[1], int64_bytes (int (length (leaves ss)))] @ map be64 (leaves ss)
     @ [int64_bytes (int (length (labelBitmap ss)))] @ map be64 (labelBitmap ss)
     @ [int64_bytes (int (length (labels ss))), bytes_of (labels ss)]"

definition WriteBin :: "'w writer \<Rightarrow> DomainSet \<Rightarrow> 'w \<Rightarrow> string option \<times> 'w" where
  "WriteBin wr ss w = writeAll wr (domainSet_chunks ss) w"

text \<open>A length, which has to be positive, and as many words.\<close>

definition readSlice :: "u8 list \<Rightarrow> (u64 list \<times> u8 list) result outcome" where
  "readSlice bs =
     rbind (Ret (readInt64 bs)) (\<lambda>(n, r).
       if n < 1 then Ret (Inl ''length is invalid'')
       else obind (makeslice 8 n ()) (\<lambda>_. Ret (readWords n r)))"

definition readVersion :: "u8 list \<Rightarrow> (unit \<times> u8 list) result" where
  "readVersion bs = (case ReadFull 1 bs of
     Inl e \<Rightarrow> Inl e
   | Inr (v, r) \<Rightarrow> if hd v \<noteq> 1 then Inl ''version is invalid'' else Inr ((), r))"

definition ReadDomainSetBin :: "bitmap_pkg \<Rightarrow> u8 list \<Rightarrow> (DomainSet \<times> u8 list) result outcome" where
  "ReadDomainSetBin pkg bs =
     rbind (Ret (readVersion bs)) (\<lambda>(_, r0).
     rbind (readSlice r0) (\<lambda>(lv, r1).
     rbind (readSlice r1) (\<lambda>(bm, r2).
     rbind (Ret (readInt64 r2)) (\<lambda>(n, r3).
       if n < 1 then Ret (Inl ''length is invalid'')
       else obind (makeslice 1 n ()) (\<lambda>_.
         rbind (Ret (ReadFull n r3)) (\<lambda>(ls, r4).
           Ret (Inr (ds_init pkg \<lparr>leaves = lv, labelBitmap = bm, labels = string_of ls, ranks = [], selects = []\<rparr>, r4))))))))"

section \<open>Sets of address ranges\<close>

type_synonym IPRange = "Addr \<times> Addr"

text \<open>
  The package netipx: the range of a prefix and whether a range is valid, the merged list of ranges
  of a set, membership, and the prefixes of a range.
\<close>

record netipx_pkg =
  RangeOfPrefix :: "Prefix \<Rightarrow> IPRange"
  RangeIsValid :: "IPRange \<Rightarrow> bool"
  IPSetBuild :: "IPRange list \<Rightarrow> IPRange list result"
  IPSetContains :: "IPRange list \<Rightarrow> Addr \<Rightarrow> bool"
  RangePrefixes :: "IPRange \<Rightarrow> Prefix list"

definition AddIpCidr :: "netipx_pkg \<Rightarrow> Prefix \<Rightarrow> IPRange list \<Rightarrow> IPRange list result" where
  "AddIpCidr np ipCidr rr =
     (let r = RangeOfPrefix np ipCidr in if RangeIsValid np r then Inr (rr @ [r]) else Inl ''not valid ipcidr range'')"

definition AddIpCidrForString :: "netipx_pkg \<Rightarrow> string \<Rightarrow> IPRange list \<Rightarrow> IPRange list result" where
  "AddIpCidrForString np ipCidr rr = (case ParsePrefix ipCidr of
     None \<Rightarrow> Inl ''netip.ParsePrefix'' | Some p \<Rightarrow> AddIpCidr np p rr)"

definition IsContain :: "netipx_pkg \<Rightarrow> IPRange list \<Rightarrow> Addr \<Rightarrow> bool" where
  "IsContain np rr ip = IPSetContains np rr (WithZone ip [])"

definition IsContainForString :: "netipx_pkg \<Rightarrow> IPRange list \<Rightarrow> string \<Rightarrow> bool" where
  "IsContainForString np rr s = (case ParseAddr s of None \<Rightarrow> False | Some ip \<Rightarrow> IsContain np rr ip)"

definition cidr_IsEmpty :: "IPRange list option \<Rightarrow> bool" where
  "cidr_IsEmpty cs = (case cs of None \<Rightarrow> True | Some rr \<Rightarrow> length rr = 0)"

definition cidr_MatchIp :: "netipx_pkg \<Rightarrow> IPRange list option \<Rightarrow> Addr \<Rightarrow> bool" where
  "cidr_MatchIp np cs ip = (if cidr_IsEmpty cs then False else IsContain np (the cs) ip)"

definition cidr_Merge :: "netipx_pkg \<Rightarrow> IPRange list \<Rightarrow> string option \<times> IPRange list" where
  "cidr_Merge np rr = (case IPSetBuild np rr of Inl e \<Rightarrow> (Some e, rr) | Inr i \<Rightarrow> (None, i))"

fun As16 :: "Addr \<Rightarrow> u8 list" where
  "As16 AddrInvalid = replicate 16 0"
| "As16 (Addr4 w) = replicate 10 0 @ [255, 255] @ AsSlice (Addr4 w)"
| "As16 (Addr6 w z) = AsSlice (Addr6 w z)"

definition cidrSet_chunks :: "IPRange list \<Rightarrow> u8 list list" where
  "cidrSet_chunks rr = [[1], int64_bytes (int (length rr))] @ concat (map (\<lambda>(f, t). [As16 f, As16 t]) rr)"

definition cidr_WriteBin :: "'w writer \<Rightarrow> IPRange list \<Rightarrow> 'w \<Rightarrow> string option \<times> 'w" where
  "cidr_WriteBin wr rr w = writeAll wr (cidrSet_chunks rr) w"

definition readAddr :: "u8 list \<Rightarrow> (Addr \<times> u8 list) result" where
  "readAddr bs = (case ReadFull 16 bs of Inl e \<Rightarrow> Inl e | Inr (b, r) \<Rightarrow> Inr (Unmap (AddrFromSlice b), r))"

definition readRange :: "u8 list \<Rightarrow> (IPRange \<times> u8 list) result" where
  "readRange bs = (case readAddr bs of
     Inl e \<Rightarrow> Inl e
   | Inr (f, r) \<Rightarrow> (case readAddr r of Inl e \<Rightarrow> Inl e | Inr (t, r') \<Rightarrow> Inr ((f, t), r')))"

lemma readRange_shorter: "readRange bs = Inr (w, r) \<Longrightarrow> length r < length bs"
  by (auto simp: readRange_def readAddr_def ReadFull_def split: if_splits sum.splits)

function readRanges :: "int \<Rightarrow> u8 list \<Rightarrow> (IPRange list \<times> u8 list) result" where
  "readRanges n bs =
     (if n \<le> 0 then Inr ([], bs)
      else case readRange bs of
        Inl e \<Rightarrow> Inl e
      | Inr (w, r) \<Rightarrow> (case readRanges (n - 1) r of Inl e \<Rightarrow> Inl e | Inr (ws, r') \<Rightarrow> Inr (w # ws, r')))"
  by pat_completeness auto
termination by (relation "measure (\<lambda>(n, bs). length bs)") (auto dest: readRange_shorter)

declare readRanges.simps [simp del]

text \<open>A range takes 48 bytes of memory: two addresses of 24.\<close>

definition ReadIpCidrSet :: "u8 list \<Rightarrow> (IPRange list \<times> u8 list) result outcome" where
  "ReadIpCidrSet bs =
     rbind (Ret (readVersion bs)) (\<lambda>(_, r0).
     rbind (Ret (readInt64 r0)) (\<lambda>(n, r1).
       if n < 1 then Ret (Inl ''length is invalid'')
       else obind (makeslice 48 n ()) (\<lambda>_. Ret (readRanges n r1))))"

section \<open>Strategies\<close>

datatype RuleBehavior = BDomain | BIPCIDR | BClassical

fun BehaviorString :: "RuleBehavior \<Rightarrow> string" where
  "BehaviorString BDomain = ''Domain''"
| "BehaviorString BIPCIDR = ''IPCIDR''"
| "BehaviorString BClassical = ''Classical''"

fun BehaviorByte :: "RuleBehavior \<Rightarrow> u8" where
  "BehaviorByte BDomain = 0"
| "BehaviorByte BIPCIDR = 1"
| "BehaviorByte BClassical = 2"

definition ParseBehavior :: "string \<Rightarrow> RuleBehavior result" where
  "ParseBehavior s =
     (if s = ''domain'' then Inr BDomain
      else if s = ''ipcidr'' then Inr BIPCIDR
      else if s = ''classical'' then Inr BClassical
      else Inl (''unsupported behavior type: '' @ s))"

datatype RuleFormat = YamlRule | TextRule | MrsRule

definition ParseRuleFormat :: "string \<Rightarrow> RuleFormat result" where
  "ParseRuleFormat s =
     (if s = [] \<or> s = ''yaml'' then Inr YamlRule
      else if s = ''text'' then Inr TextRule
      else if s = ''mrs'' then Inr MrsRule
      else Inl (''unsupported format type: '' @ s))"

record domain_strategy =
  dst_count :: int
  dst_trie :: "unit Node option"
  dst_set :: "DomainSet option"

record ipcidr_strategy =
  ics_count :: int
  ics_set :: "IPRange list option"

record classical_strategy =
  cls_rules :: "rule list"
  cls_count :: int

datatype strategy = SDomain domain_strategy | SIPCIDR ipcidr_strategy | SClassical classical_strategy

text \<open>
  What the strategies use from outside. The field \<open>fe_rules\<close> stands for the function that parses the rules of a
  classical file; it is none where the code passes nil for it.
\<close>

record FileEnv =
  fe_rules :: "RuleEnv option"
  fe_bitmap :: bitmap_pkg
  fe_netipx :: netipx_pkg

fun newStrategy :: "RuleBehavior \<Rightarrow> strategy" where
  "newStrategy BDomain = SDomain \<lparr>dst_count = 0, dst_trie = None, dst_set = None\<rparr>"
| "newStrategy BIPCIDR = SIPCIDR \<lparr>ics_count = 0, ics_set = None\<rparr>"
| "newStrategy BClassical = SClassical \<lparr>cls_rules = [], cls_count = 0\<rparr>"

fun strategy_Behavior :: "strategy \<Rightarrow> RuleBehavior" where
  "strategy_Behavior (SDomain _) = BDomain"
| "strategy_Behavior (SIPCIDR _) = BIPCIDR"
| "strategy_Behavior (SClassical _) = BClassical"

fun strategy_Count :: "strategy \<Rightarrow> int" where
  "strategy_Count (SDomain d) = dst_count d"
| "strategy_Count (SIPCIDR i) = ics_count i"
| "strategy_Count (SClassical c) = cls_count c"

fun strategy_Reset :: "strategy \<Rightarrow> strategy" where
  "strategy_Reset (SDomain d) = SDomain (d\<lparr>dst_trie := Some newNode, dst_set := None, dst_count := 0\<rparr>)"
| "strategy_Reset (SIPCIDR i) = SIPCIDR (i\<lparr>ics_set := Some [], ics_count := 0\<rparr>)"
| "strategy_Reset (SClassical c) = SClassical (c\<lparr>cls_rules := [], cls_count := 0\<rparr>)"

text \<open>A call of \<open>Insert\<close> on a nil trie or set dereferences it.\<close>

definition domainStrategy_Insert :: "string \<Rightarrow> domain_strategy \<Rightarrow> domain_strategy outcome" where
  "domainStrategy_Insert rule d =
     (if CHR ''/'' \<in> set rule then Ret d
      else case dst_trie d of
        None \<Rightarrow> Panic
      | Some t \<Rightarrow> (case Insert rule () t of
          Inl _ \<Rightarrow> Ret d
        | Inr t1 \<Rightarrow> Ret (d\<lparr>dst_trie := Some t1, dst_count := dst_count d + 1\<rparr>)))"

definition ipcidrStrategy_Insert :: "netipx_pkg \<Rightarrow> string \<Rightarrow> ipcidr_strategy \<Rightarrow> ipcidr_strategy outcome" where
  "ipcidrStrategy_Insert np rule i = (case ics_set i of
     None \<Rightarrow> (case ParsePrefix rule of
       None \<Rightarrow> Ret i
     | Some p \<Rightarrow> if RangeIsValid np (RangeOfPrefix np p) then Panic else Ret i)
   | Some rr \<Rightarrow> (case AddIpCidrForString np rule rr of
       Inl _ \<Rightarrow> Ret i
     | Inr rr1 \<Rightarrow> Ret (i\<lparr>ics_set := Some rr1, ics_count := ics_count i + 1\<rparr>)))"

definition payloadToRule :: "RuleEnv option \<Rightarrow> string \<Rightarrow> rule result outcome" where
  "payloadToRule parser r = (case ParseRulePayload r False of (tp, payload, target, params) \<Rightarrow>
     if tp \<in> {''MATCH'', ''RULE-SET'', ''SUB-RULE''} then Ret (Inl (''unsupported rule type on classical rule-set: '' @ tp))
     else case parser of
       None \<Rightarrow> Panic
     | Some env \<Rightarrow> Ret (ParseRule env tp payload target params))"

definition classicalStrategy_Insert :: "RuleEnv option \<Rightarrow> string \<Rightarrow> classical_strategy \<Rightarrow> classical_strategy outcome" where
  "classicalStrategy_Insert parser r c = obind (payloadToRule parser r) (\<lambda>x. case x of
     Inl _ \<Rightarrow> Ret c
   | Inr x \<Rightarrow> Ret (c\<lparr>cls_rules := cls_rules c @ [x], cls_count := cls_count c + 1\<rparr>))"

fun strategy_Insert :: "FileEnv \<Rightarrow> string \<Rightarrow> strategy \<Rightarrow> strategy outcome" where
  "strategy_Insert fe r (SDomain d) = obind (domainStrategy_Insert r d) (\<lambda>d1. Ret (SDomain d1))"
| "strategy_Insert fe r (SIPCIDR i) = obind (ipcidrStrategy_Insert (fe_netipx fe) r i) (\<lambda>i1. Ret (SIPCIDR i1))"
| "strategy_Insert fe r (SClassical c) = obind (classicalStrategy_Insert (fe_rules fe) r c) (\<lambda>c1. Ret (SClassical c1))"

text \<open>The error of \<open>Merge\<close> is dropped.\<close>

fun strategy_FinishInsert :: "FileEnv \<Rightarrow> strategy \<Rightarrow> strategy outcome" where
  "strategy_FinishInsert fe (SDomain d) = (case dst_trie d of
     None \<Rightarrow> Panic
   | Some t \<Rightarrow> obind (NewDomainSet (fe_bitmap fe) t) (\<lambda>ds. Ret (SDomain (d\<lparr>dst_set := ds, dst_trie := None\<rparr>))))"
| "strategy_FinishInsert fe (SIPCIDR i) = (case ics_set i of
     None \<Rightarrow> Panic
   | Some rr \<Rightarrow> Ret (SIPCIDR (i\<lparr>ics_set := Some (snd (cidr_Merge (fe_netipx fe) rr))\<rparr>)))"
| "strategy_FinishInsert fe (SClassical c) = Ret (SClassical c)"

text \<open>Both binary forms with the count; a classical set has none.\<close>

fun strategy_FromMrs :: "FileEnv \<Rightarrow> u8 list \<Rightarrow> int \<Rightarrow> strategy \<Rightarrow> strategy result outcome" where
  "strategy_FromMrs fe bs n (SDomain d) =
     rbind (ReadDomainSetBin (fe_bitmap fe) bs) (\<lambda>(ss, _). Ret (Inr (SDomain (d\<lparr>dst_count := n, dst_set := Some ss\<rparr>))))"
| "strategy_FromMrs fe bs n (SIPCIDR i) =
     rbind (ReadIpCidrSet bs) (\<lambda>(rr, _). Ret (Inr (SIPCIDR (i\<lparr>ics_count := n, ics_set := Some rr\<rparr>))))"
| "strategy_FromMrs fe bs n (SClassical c) = Ret (Inl ''invalid format'')"

fun strategy_WriteMrs :: "'w writer \<Rightarrow> strategy \<Rightarrow> 'w \<Rightarrow> string option \<times> 'w" where
  "strategy_WriteMrs wr (SDomain d) w = (case dst_set d of None \<Rightarrow> (Some ''nil domainSet'', w) | Some ss \<Rightarrow> WriteBin wr ss w)"
| "strategy_WriteMrs wr (SIPCIDR i) w = (case ics_set i of None \<Rightarrow> (Some ''nil cidrSet'', w) | Some rr \<Rightarrow> cidr_WriteBin wr rr w)"
| "strategy_WriteMrs wr (SClassical c) w = (Some ''invalid format'', w)"

text \<open>What the rules see of a strategy: membership in its set.\<close>

definition has_domain :: "bitmap_pkg \<Rightarrow> DomainSet \<Rightarrow> string \<Rightarrow> bool" where
  "has_domain pkg ss host = (Has pkg (Some ss) host = Ret True)"

fun strategy_view :: "FileEnv \<Rightarrow> strategy \<Rightarrow> ruleStrategy" where
  "strategy_view fe (SDomain d) = domainStrategy (map_option (has_domain (fe_bitmap fe)) (dst_set d))"
| "strategy_view fe (SIPCIDR i) = ipcidrStrategy (map_option (IsContain (fe_netipx fe)) (ics_set i))"
| "strategy_view fe (SClassical c) = classicalStrategy (cls_rules c)"

section \<open>Files\<close>

definition MrsMagicBytes :: "u8 list" where
  "MrsMagicBytes = bytes_of ''MRS'' @ [1]"

text \<open>The decompressor is an argument; a damaged stream ends at the damage.\<close>

definition rulesMrsParse :: "(u8 list \<Rightarrow> u8 list result) \<Rightarrow> FileEnv \<Rightarrow> u8 list \<Rightarrow> strategy \<Rightarrow> strategy result outcome" where
  "rulesMrsParse unzstd fe buf s = (case s of
     SClassical _ \<Rightarrow> Ret (Inl ''invalid format'')
   | _ \<Rightarrow>
       rbind (Ret (unzstd buf)) (\<lambda>r0.
       rbind (Ret (ReadFull 4 r0)) (\<lambda>(header, r1).
         if header \<noteq> MrsMagicBytes then Ret (Inl ''invalid MrsMagic bytes'')
         else
         rbind (Ret (ReadFull 1 r1)) (\<lambda>(b, r2).
           if hd b \<noteq> BehaviorByte (strategy_Behavior s) then Ret (Inl ''invalid behavior'')
           else
           rbind (Ret (readInt64 r2)) (\<lambda>(n, r3).
           rbind (Ret (readInt64 r3)) (\<lambda>(extra, r4).
             if extra < 0 then Ret (Inl ''length is invalid'')
             else
             rbind (if extra > 0 then obind (makeslice 1 extra ()) (\<lambda>_. Ret (ReadFull extra r4)) else Ret (Inr ([], r4))) (\<lambda>(_, r5).
               strategy_FromMrs fe r5 n s)))))))"

text \<open>
  The YAML decoder is an argument: it fills the two lists of the schema, which is kept from one line
  to the next, and says whether it failed.
\<close>

record RulePayload =
  rp_Payload :: "string list"
  rp_Rules :: "string list"

type_synonym yaml = "string \<Rightarrow> RulePayload \<Rightarrow> bool \<times> RulePayload"

definition newline :: char where
  "newline = CHR 0x0A"

text \<open>The first line of a buffer with its end, what follows, and whether it has an end.\<close>

definition cutLine :: "string \<Rightarrow> string \<times> string \<times> bool" where
  "cutLine buf =
     (if newline \<in> set buf
      then (takeWhile (\<lambda>c. c \<noteq> newline) buf @ [newline], tl (dropWhile (\<lambda>c. c \<noteq> newline) buf), True)
      else (buf, [], False))"

definition textLine :: "string \<Rightarrow> string" where
  "textLine line =
     (let str = TrimSpace line
      in if length str = 0 then [] else if hd str = CHR ''#'' then [] else if HasPrefix str ''//'' then [] else str)"

text \<open>
  One YAML line: the state is the head line, empty until it is found, and the schema; the result is
  the rule of the line, empty for none.
\<close>

definition yamlLine :: "yaml \<Rightarrow> string \<Rightarrow> string \<times> RulePayload \<Rightarrow> string \<times> string \<times> RulePayload" where
  "yamlLine unmarshal line st = (case st of (first, schema) \<Rightarrow>
     (let trimLine = TrimSpace line in
      if length trimLine = 0 then ([], first, schema)
      else if hd trimLine = CHR ''#'' then ([], first, schema)
      else if length first = 0 then
        (case unmarshal (line @ ''  - '' @ [CHR 0x27, CHR 0x27]) schema of (failed, schema1) \<Rightarrow>
           if \<not> failed \<and> (length (rp_Rules schema1) > 0 \<or> length (rp_Payload schema1) > 0) then ([], line, schema1)
           else ([], [], schema1))
      else
        (case unmarshal (first @ line) schema of (failed, schema1) \<Rightarrow>
           if failed then ([], first, schema1)
           else if length (rp_Payload schema1) > 0 then (hd (rp_Payload schema1), first, schema1)
           else if length (rp_Rules schema1) > 0 then (hd (rp_Rules schema1), first, schema1)
           else ([], first, schema1))))"

lemma cutLine_shorter: "buf \<noteq> [] \<Longrightarrow> cutLine buf = (line, rest, ended) \<Longrightarrow> length rest < length buf"
proof -
  have "length (dropWhile P buf) - 1 < length buf" if "buf \<noteq> []" for P
    using that length_dropWhile_le [of P buf] by (cases buf) auto
  then show "buf \<noteq> [] \<Longrightarrow> cutLine buf = (line, rest, ended) \<Longrightarrow> length rest < length buf"
    by (auto simp: cutLine_def split: if_splits)
qed

function parseLines :: "yaml \<Rightarrow> FileEnv \<Rightarrow> RuleFormat \<Rightarrow> string \<Rightarrow> string \<times> RulePayload \<Rightarrow> strategy \<Rightarrow> strategy result outcome" where
  "parseLines unmarshal fe fmt buf st s =
     (if buf = [] then Ret (Inr s)
      else case cutLine buf of (line, rest, ended) \<Rightarrow>
        if \<not> ended \<and> length (fst st) = 0 \<and> fmt = YamlRule then Ret (Inl ''file must have a `payload` field'')
        else if fmt = MrsRule then Ret (Inl ''invalid format'')
        else
          (case (if fmt = TextRule then (textLine line, st) else yamlLine unmarshal line st) of (str, st1) \<Rightarrow>
             if str = [] then parseLines unmarshal fe fmt rest st1 s
             else obind (strategy_Insert fe str s) (\<lambda>s1. parseLines unmarshal fe fmt rest st1 s1)))"
  by pat_completeness auto
termination
  by (relation "measure (\<lambda>(u, fe, fmt, buf, st, s). length buf)") (auto intro: cutLine_shorter [OF _ sym])

declare parseLines.simps [simp del]

definition rulesParse :: "(u8 list \<Rightarrow> u8 list result) \<Rightarrow> yaml \<Rightarrow> FileEnv \<Rightarrow> string \<Rightarrow> strategy \<Rightarrow> RuleFormat \<Rightarrow> strategy result outcome" where
  "rulesParse unzstd unmarshal fe buf s0 fmt =
     (let s = strategy_Reset s0
      in if fmt = MrsRule then rulesMrsParse unzstd fe (bytes_of buf) s
         else rbind (parseLines unmarshal fe fmt buf ([], \<lparr>rp_Payload = [], rp_Rules = []\<rparr>) s) (\<lambda>s1.
           obind (strategy_FinishInsert fe s1) (\<lambda>s2. Ret (Inr s2))))"

fun insertRules :: "FileEnv \<Rightarrow> string list \<Rightarrow> strategy \<Rightarrow> strategy outcome" where
  "insertRules fe [] s = Ret s"
| "insertRules fe (r # rs) s =
     (if r \<noteq> [] then obind (strategy_Insert fe r s) (insertRules fe rs) else insertRules fe rs s)"

definition rulesParseInline :: "FileEnv \<Rightarrow> string list \<Rightarrow> strategy \<Rightarrow> strategy outcome" where
  "rulesParseInline fe rs s = obind (insertRules fe rs (strategy_Reset s)) (strategy_FinishInsert fe)"

text \<open>
  The converter. The encoder that compresses is an argument: its state is made from the writer, takes
  bytes and is closed at the end, whatever happened before.
\<close>

record ('w, 'e) encoder =
  enc_new :: "'w \<Rightarrow> 'e result"
  enc_write :: "'e writer"
  enc_close :: "'e \<Rightarrow> string option \<times> 'w"

text \<open>
  The dump of a set, key by key, until the visitor stops it: the domains without those the trie added
  for a plus, and the prefixes of the ranges.
\<close>

definition PrefixString :: "Prefix \<Rightarrow> string" where
  "PrefixString p = AddrString (pfx_addr p) @ ''/'' @ FormatUint (int (pfx_bits p))"

fun dumpLoop :: "string list \<Rightarrow> string list \<Rightarrow> ('s \<Rightarrow> string \<Rightarrow> bool \<times> 's) \<Rightarrow> 's \<Rightarrow> 's" where
  "dumpLoop all [] f s = s"
| "dumpLoop all (key # ks) f s =
     (if ''+.'' @ key \<in> set all then dumpLoop all ks f s
      else case f s key of (go, s1) \<Rightarrow> if go then dumpLoop all ks f s1 else s1)"

definition cidr_Foreach :: "netipx_pkg \<Rightarrow> ('s \<Rightarrow> Prefix \<Rightarrow> bool \<times> 's) \<Rightarrow> IPRange list \<Rightarrow> 's \<Rightarrow> 's" where
  "cidr_Foreach np f rr s =
     snd (fold (\<lambda>p (go, s). if go then f s p else (False, s)) (concat (map (RangePrefixes np) rr)) (True, s))"

fun strategy_DumpMrs :: "FileEnv \<Rightarrow> ('s \<Rightarrow> string \<Rightarrow> bool \<times> 's) \<Rightarrow> strategy \<Rightarrow> 's \<Rightarrow> 's outcome" where
  "strategy_DumpMrs fe f (SDomain d) s = (case dst_set d of
     None \<Rightarrow> Ret s
   | Some ss \<Rightarrow> obind (ds_Foreach (fe_bitmap fe) ss (\<lambda>keys key. (True, keys @ [key])) []) (\<lambda>keys.
       Ret (dumpLoop (sort keys) (sort keys) f s)))"
| "strategy_DumpMrs fe f (SIPCIDR i) s = (case ics_set i of
     None \<Rightarrow> Ret s
   | Some rr \<Rightarrow> Ret (cidr_Foreach (fe_netipx fe) (\<lambda>s p. f s (PrefixString p)) rr s))"
| "strategy_DumpMrs fe f (SClassical c) s = Ret s"

definition printLine :: "'w writer \<Rightarrow> 'w \<Rightarrow> string \<Rightarrow> bool \<times> 'w" where
  "printLine wr w key = (case wr (bytes_of (key @ [newline])) w of (e, w1) \<Rightarrow> (e = None, w1))"

definition mrs_header :: "RuleBehavior \<Rightarrow> int \<Rightarrow> u8 list list" where
  "mrs_header behavior n = [MrsMagicBytes, [BehaviorByte behavior], int64_bytes n, int64_bytes 0, []]"

definition writeMrs :: "'e writer \<Rightarrow> RuleBehavior \<Rightarrow> strategy \<Rightarrow> 'e \<Rightarrow> string option \<times> 'e" where
  "writeMrs wr behavior s e = (case writeAll wr (mrs_header behavior (strategy_Count s)) e of
     (Some err, e1) \<Rightarrow> (Some err, e1)
   | (None, e1) \<Rightarrow> strategy_WriteMrs wr s e1)"

text \<open>
  An MRS file is exported as text instead, and the error of a failed write is dropped. The strategy is made with
  nil for the function that parses rules, so that the first rule of a classical file panics.
\<close>

definition ConvertToMrs :: "(u8 list \<Rightarrow> u8 list result) \<Rightarrow> yaml \<Rightarrow> FileEnv \<Rightarrow> ('w, 'e) encoder \<Rightarrow> 'w writer
    \<Rightarrow> string \<Rightarrow> RuleBehavior \<Rightarrow> RuleFormat \<Rightarrow> 'w \<Rightarrow> (string option \<times> 'w) outcome" where
  "ConvertToMrs unzstd unmarshal fe enc wr buf behavior fmt w =
     obind (rulesParse unzstd unmarshal (fe\<lparr>fe_rules := None\<rparr>) buf (newStrategy behavior) fmt) (\<lambda>r. case r of
       Inl e \<Rightarrow> Ret (Some e, w)
     | Inr s \<Rightarrow>
         if strategy_Count s = 0 then Ret (Some ''empty rule'', w)
         else (case s of
           SClassical _ \<Rightarrow> Ret (Some ''invalid format'', w)
         | _ \<Rightarrow>
           if fmt = MrsRule then obind (strategy_DumpMrs fe (printLine wr) s w) (\<lambda>w1. Ret (None, w1))
           else (case enc_new enc w of
             Inl e \<Rightarrow> Ret (Some e, w)
           | Inr e0 \<Rightarrow>
               (let r = writeMrs (enc_write enc) behavior s e0; z = enc_close enc (snd r)
                in Ret (case fst r of Some e \<Rightarrow> Some e | None \<Rightarrow> fst z, snd z)))))"

end
