(* ===== verification/MrsFormat.thy ===== *)
theory MrsFormat
  imports RuleFiles
begin

text \<open>
  The binary MRS format of rule files: what the writers of \<open>RuleFiles\<close> produce is what its readers
  accept, and nothing shorter is. Readers that take a fixed part of a stream are closed under
  sequencing, so that the claim about truncated files is a composition of small lemmas.
\<close>

section \<open>Words and addresses as bytes\<close>

lemma length_be64 [simp]: "length (be64 w) = 8"
  by (simp add: be64_def)

lemma bytes_word_be64 [simp]: "bytes_word (be64 w) = w"
proof -
  have "drop_bit 64 w = 0" using drop_bit_top [of w] by simp
  then show ?thesis
    using bytes_word_step [of 56 w] bytes_word_step [of 48 w] bytes_word_step [of 40 w] bytes_word_step [of 32 w]
      bytes_word_step [of 24 w] bytes_word_step [of 16 w] bytes_word_step [of 8 w] bytes_word_step [of 0 w]
    by (simp add: be64_def bytes_word_def)
qed

lemma bytes_string [simp]: "bytes_of (string_of bs) = bs" "string_of (bytes_of s) = s"
proof -
  have "(of_char (char_of (uint b)) :: u8) = b" for b :: u8
  proof -
    have "(of_char (char_of (uint b)) :: u8) = of_int (of_char (char_of (uint b)))" by (simp only: of_int_of_char)
    also have "\<dots> = of_int (uint b mod 256)" by (simp only: of_char_of)
    finally show ?thesis using uint_lt2p [of b] by (simp add: mod_pos_pos_trivial)
  qed
  moreover have "char_of (uint (of_char c :: u8)) = c" for c :: char
  proof -
    have "uint (of_char c :: u8) = uint (of_int (of_char c) :: u8)" by (simp only: of_int_of_char)
    also have "\<dots> = of_char c" by (simp add: uint_word_of_int del: of_int_of_char)
    finally show ?thesis by simp
  qed
  ultimately show "bytes_of (string_of bs) = bs" "string_of (bytes_of s) = s"
    by (simp_all add: bytes_of_def string_of_def comp_def)
qed

lemma ReadFull_append: "length b = nat n \<Longrightarrow> 0 \<le> n \<Longrightarrow> ReadFull n (b @ r) = Inr (b, r)"
  by (simp add: ReadFull_def)

lemma readInt64_append [simp]: "0 \<le> n \<Longrightarrow> n < 2 ^ 63 \<Longrightarrow> readInt64 (int64_bytes n @ r) = Inr (n, r)"
  by (simp add: readInt64_def readUint64_def int64_bytes_def ReadFull_append signed_of_int signed_take_bit_int_eq_self)

lemma readUint64_append [simp]: "readUint64 (be64 w @ r) = Inr (w, r)"
  by (simp add: readUint64_def ReadFull_append)

lemma readWords_append: "readWords (int (length ws)) (concat (map be64 ws) @ r) = Inr (ws, r)"
  by (induction ws) (subst readWords.simps, simp)+

lemma As16_read:
  assumes "IsValid a" "Zone a = []"
  shows "Unmap (AddrFromSlice (As16 a)) = Unmap a"
proof (cases a)
  case (Addr4 w)
  define v :: "128 word" where "v = push_bit 32 (mask 16) OR ucast w"
  have m: "mask 8 = (255 :: u8)" "mask 16 = (0xFFFF :: 128 word)" by (simp_all add: mask_eq_exp_minus_1)
  have lo: "ucast (drop_bit i v) = (ucast (drop_bit i w) :: u8)" if "i \<le> 24" for i
    using that unfolding v_def by (intro bit_word_eqI) (auto simp: bit_simps)
  have hi: "ucast (drop_bit i v) = (0 :: u8)" if "48 \<le> i" for i
    using that unfolding v_def by (intro bit_word_eqI) (auto simp: bit_simps dest: bit_imp_le_length)
  have mid: "ucast (drop_bit 32 v) = (255 :: u8)" "ucast (drop_bit 40 v) = (255 :: u8)"
    unfolding m [symmetric] v_def by (intro bit_word_eqI; auto simp: bit_simps)+
  have ten: "replicate 10 (0 :: u8) = [0, 0, 0, 0, 0, 0, 0, 0, 0, 0]" by code_simp
  have b: "As16 a = AsSlice (Addr6 v [])" unfolding Addr4 using lo [of 0] by (simp add: lo hi mid ten)
  have "AddrFromSlice (As16 a) = Addr6 v []" unfolding b by (rule AddrFromSlice_AsSlice) simp_all
  moreover have "drop_bit 32 v = 0xFFFF" "ucast v = w"
    unfolding m [symmetric] v_def by (intro bit_word_eqI; auto simp: bit_simps dest: bit_imp_le_length)+
  ultimately show ?thesis using Addr4 by simp
qed (use assms AddrFromSlice_AsSlice [of a] in simp_all)

section \<open>Reading what was written\<close>

definition slice_ok :: "'a list \<Rightarrow> bool" where
  "slice_ok xs = (xs \<noteq> [] \<and> int (length xs) \<le> 1099511627776)"

lemma rbind_simps [simp]: "rbind (Ret (Inr x)) f = f x" "rbind (Ret (Inl e)) f = Ret (Inl e)" "rbind Panic f = Panic"
  by (simp_all add: rbind_def)

lemma slice_ok_length:
  assumes "slice_ok xs"
  shows "readInt64 (int64_bytes (int (length xs)) @ r) = Inr (int (length xs), r)" "xs \<noteq> []"
    "k \<le> 64 \<Longrightarrow> makeslice k (int (length xs)) x = Ret x"
proof -
  have l: "1 \<le> int (length xs)" "int (length xs) \<le> 2 ^ 40" using assms by (cases xs; simp add: slice_ok_def)+
  then show "readInt64 (int64_bytes (int (length xs)) @ r) = Inr (int (length xs), r)" "xs \<noteq> []" by auto
  assume "k \<le> 64"
  then have "k * int (length xs) \<le> 64 * int (length xs)" by (intro mult_right_mono) simp_all
  then show "makeslice k (int (length xs)) x = Ret x" using l(2) by (simp add: makeslice_def)
qed

lemma readSlice_append:
  "slice_ok ws \<Longrightarrow> readSlice (int64_bytes (int (length ws)) @ concat (map be64 ws) @ r) = Ret (Inr (ws, r))"
  by (simp add: readSlice_def readWords_append slice_ok_length [of ws])

lemma readVersion_append [simp]: "readVersion (1 # r) = Inr ((), r)"
  by (simp add: readVersion_def ReadFull_def)

lemma ReadDomainSetBin_chunks:
  assumes "slice_ok (leaves ss)" "slice_ok (labelBitmap ss)" "slice_ok (labels ss)" "ds_init pkg ss = ss"
  shows "ReadDomainSetBin pkg (concat (domainSet_chunks ss) @ r) = Ret (Inr (ss, r))"
proof -
  let ?n = "int (length (labels ss))"
  have "length (bytes_of (labels ss)) = nat ?n" by (simp add: bytes_of_def)
  then have "ReadFull ?n (bytes_of (labels ss) @ r) = Inr (bytes_of (labels ss), r)" by (intro ReadFull_append) simp_all
  moreover have "ds_init pkg \<lparr>leaves = leaves ss, labelBitmap = labelBitmap ss, labels = labels ss, ranks = [], selects = []\<rparr> = ds_init pkg ss"
    by (cases ss) (simp add: ds_init_def Let_def case_prod_beta)
  ultimately show ?thesis
    using assms(4)
    by (simp add: slice_ok_length [OF assms(3)] ReadDomainSetBin_def domainSet_chunks_def readSlice_append [OF assms(1)] readSlice_append [OF assms(2)])
qed

lemma newDomainSet_keys_indexed: "newDomainSet_keys pkg keys = Ret (Some ss) \<Longrightarrow> ds_init pkg ss = ss"
  by (auto simp: newDomainSet_keys_def ds_init_def Let_def case_prod_beta obind_eq_Ret split: if_splits)

definition plain_range :: "IPRange \<Rightarrow> bool" where
  "plain_range r = (\<forall>a\<in>{fst r, snd r}. IsValid a \<and> Zone a = [])"

definition unmap_range :: "IPRange \<Rightarrow> IPRange" where
  "unmap_range r = (Unmap (fst r), Unmap (snd r))"

lemma readRange_append: "plain_range r \<Longrightarrow> readRange (As16 (fst r) @ As16 (snd r) @ b) = Inr (unmap_range r, b)"
proof -
  have "length (As16 a) = 16" for a by (cases a) simp_all
  then have "readAddr (As16 a @ c) = Inr (Unmap a, c)" if "IsValid a" "Zone a = []" for a c
    using As16_read [OF that] by (simp add: readAddr_def ReadFull_append)
  then show "plain_range r \<Longrightarrow> ?thesis" by (simp add: readRange_def plain_range_def unmap_range_def)
qed

lemma readRanges_append:
  "list_all plain_range rr \<Longrightarrow>
    readRanges (int (length rr)) (concat (concat (map (\<lambda>(f, t). [As16 f, As16 t]) rr)) @ b) = Inr (map unmap_range rr, b)"
proof (induction rr)
  case (Cons r rr)
  obtain f t where r: "r = (f, t)" by (cases r)
  with Cons.prems have "readRange (As16 f @ As16 t @ c) = Inr (unmap_range r, c)" for c using readRange_append [of r] by simp
  with Cons r show ?case by (subst readRanges.simps) simp
qed (subst readRanges.simps, simp)

lemma ReadIpCidrSet_chunks:
  assumes "slice_ok rr" "list_all plain_range rr"
  shows "ReadIpCidrSet (concat (cidrSet_chunks rr) @ b) = Ret (Inr (map unmap_range rr, b))"
  using readRanges_append [OF assms(2), of b]
  by (simp add: slice_ok_length [OF assms(1)] ReadIpCidrSet_def cidrSet_chunks_def)

section \<open>Files that were cut off\<close>

text \<open>
  A reader is exact when it takes a fixed part from the front of a stream that it accepts: what
  follows does not matter to it, and of a shorter stream it reports an error.
\<close>

definition exact_reader :: "(u8 list \<Rightarrow> ('a \<times> u8 list) result outcome) \<Rightarrow> bool" where
  "exact_reader rd = (\<forall>bs x r. rd bs = Ret (Inr (x, r)) \<longrightarrow>
     (\<exists>c. bs = c @ r \<and> (\<forall>b. rd (c @ b) = Ret (Inr (x, b))) \<and> (\<forall>n < length c. \<exists>e. rd (take n c) = Ret (Inl e))))"

lemma exact_readerE:
  assumes "exact_reader rd" "rd bs = Ret (Inr (x, r))"
  obtains c where "bs = c @ r" "\<And>b. rd (c @ b) = Ret (Inr (x, b))" "\<And>n. n < length c \<Longrightarrow> \<exists>e. rd (take n c) = Ret (Inl e)"
  using assms unfolding exact_reader_def by blast

lemma exact_return: "exact_reader (\<lambda>bs. Ret (Inr (x, bs)))"
  by (auto simp: exact_reader_def)

lemma exact_fail: "exact_reader (\<lambda>bs. Ret (Inl e))"
  by (auto simp: exact_reader_def)

lemma exact_panic: "exact_reader (\<lambda>bs. Panic)"
  by (auto simp: exact_reader_def)

lemma rbind_eq_Ret: "rbind m f = Ret (Inr y) \<longleftrightarrow> (\<exists>x. m = Ret (Inr x) \<and> f x = Ret (Inr y))"
  by (cases m) (auto simp: rbind_def split: sum.splits)

lemma exact_bind:
  assumes "exact_reader f" "\<And>x. exact_reader (g x)"
  shows "exact_reader (\<lambda>bs. rbind (f bs) (\<lambda>(x, r). g x r))"
  unfolding exact_reader_def
proof (intro allI impI)
  fix bs y r assume "rbind (f bs) (\<lambda>(x, r). g x r) = Ret (Inr (y, r))"
  then obtain x r1 where f: "f bs = Ret (Inr (x, r1))" and g: "g x r1 = Ret (Inr (y, r))" by (auto simp: rbind_eq_Ret)
  from assms(1) f obtain c where c: "bs = c @ r1" "\<And>b. f (c @ b) = Ret (Inr (x, b))" "\<And>n. n < length c \<Longrightarrow> \<exists>e. f (take n c) = Ret (Inl e)"
    by (rule exact_readerE) auto
  from assms(2) g obtain d where d: "r1 = d @ r" "\<And>b. g x (d @ b) = Ret (Inr (y, b))" "\<And>n. n < length d \<Longrightarrow> \<exists>e. g x (take n d) = Ret (Inl e)"
    by (rule exact_readerE) auto
  have "\<exists>e. rbind (f (take n (c @ d))) (\<lambda>(x, r). g x r) = Ret (Inl e)" if "n < length (c @ d)" for n
  proof (cases "n < length c")
    case True
    then show ?thesis using c(3) [OF True] by auto
  next
    case False
    then have "n - length c < length d" using that by simp
    then show ?thesis using d(3) [of "n - length c"] False by (auto simp: c(2))
  qed
  moreover have "rbind (f ((c @ d) @ b)) (\<lambda>(x, r). g x r) = Ret (Inr (y, b))" for b using c(2) [of "d @ b"] d(2) by simp
  ultimately show "\<exists>c. bs = c @ r \<and> (\<forall>b. rbind (f (c @ b)) (\<lambda>(x, r). g x r) = Ret (Inr (y, b)))
      \<and> (\<forall>n<length c. \<exists>e. rbind (f (take n c)) (\<lambda>(x, r). g x r) = Ret (Inl e))"
    using c(1) d(1) by (intro exI [of _ "c @ d"]) auto
qed

lemma exact_ReadFull: "0 \<le> n \<Longrightarrow> exact_reader (\<lambda>bs. Ret (ReadFull n bs))"
  unfolding exact_reader_def
proof (intro allI impI)
  fix bs x r assume n: "0 \<le> n" and "Ret (ReadFull n bs) = Ret (Inr (x, r))"
  then have "n \<le> int (length bs)" "x = take (nat n) bs" "r = drop (nat n) bs" by (auto simp: ReadFull_def split: if_splits)
  with n show "\<exists>c. bs = c @ r \<and> (\<forall>b. Ret (ReadFull n (c @ b)) = Ret (Inr (x, b))) \<and> (\<forall>k<length c. \<exists>e. Ret (ReadFull n (take k c)) = Ret (Inl e))"
    by (intro exI [of _ x]) (auto simp: ReadFull_def)
qed

lemma exact_ReadFull': "exact_reader (\<lambda>bs. Ret (ReadFull n bs))"
proof (cases "0 \<le> n")
  case False
  then have "ReadFull n = (\<lambda>bs. Inr ([], bs))" by (simp add: ReadFull_def fun_eq_iff)
  then show ?thesis by (simp add: exact_return)
qed (rule exact_ReadFull)


text \<open>Each reader of the file is exact.\<close>

lemma exact_map:
  assumes "exact_reader f"
  shows "exact_reader (\<lambda>bs. rbind (f bs) (\<lambda>(x, r). Ret (Inr (h x, r))))"
  by (intro exact_bind assms exact_return)

lemma exact_readUint64: "exact_reader (\<lambda>bs. Ret (readUint64 bs))"
proof -
  have "(\<lambda>bs. Ret (readUint64 bs)) = (\<lambda>bs. rbind (Ret (ReadFull 8 bs)) (\<lambda>(b, r). Ret (Inr (bytes_word b, r))))"
    by (auto simp: fun_eq_iff readUint64_def rbind_def split: sum.split)
  then show ?thesis by (simp only: exact_map exact_ReadFull')
qed

lemma exact_readInt64: "exact_reader (\<lambda>bs. Ret (readInt64 bs))"
proof -
  have "(\<lambda>bs. Ret (readInt64 bs)) = (\<lambda>bs. rbind (Ret (readUint64 bs)) (\<lambda>(w, r). Ret (Inr (sint w, r))))"
    by (auto simp: fun_eq_iff readInt64_def rbind_def split: sum.split)
  then show ?thesis by (simp only: exact_map exact_readUint64)
qed

lemma exact_repeat:
  assumes step: "exact_reader (\<lambda>bs. Ret (rd bs))"
    and eq: "\<And>n bs. rds n bs = (if n \<le> 0 then Inr ([], bs)
        else case rd bs of Inl e \<Rightarrow> Inl e
        | Inr (w, r) \<Rightarrow> (case rds (n - 1) r of Inl e \<Rightarrow> Inl e | Inr (ws, r') \<Rightarrow> Inr (w # ws, r')))"
  shows "exact_reader (\<lambda>bs. Ret (rds (n :: int) bs))"
proof (induction "nat n" arbitrary: n)
  case 0
  then show ?case by (subst eq) (simp add: exact_return)
next
  case (Suc k)
  then have "(\<lambda>bs. Ret (rds n bs)) = (\<lambda>bs. rbind (Ret (rd bs)) (\<lambda>(w, r). rbind (Ret (rds (n - 1) r)) (\<lambda>(ws, r'). Ret (Inr (w # ws, r')))))"
    by (subst eq) (auto simp: fun_eq_iff rbind_def split: sum.split)
  then show ?case using Suc by (simp only:) (intro exact_bind exact_map step Suc; simp)
qed

lemma exact_readWords: "exact_reader (\<lambda>bs. Ret (readWords n bs))"
  by (rule exact_repeat [OF exact_readUint64]) (rule readWords.simps)

lemma exact_readAddr: "exact_reader (\<lambda>bs. Ret (readAddr bs))"
proof -
  have "(\<lambda>bs. Ret (readAddr bs)) = (\<lambda>bs. rbind (Ret (ReadFull 16 bs)) (\<lambda>(b, r). Ret (Inr (Unmap (AddrFromSlice b), r))))"
    by (auto simp: fun_eq_iff readAddr_def rbind_def split: sum.split)
  then show ?thesis by (simp only: exact_map exact_ReadFull')
qed

lemma exact_readRange: "exact_reader (\<lambda>bs. Ret (readRange bs))"
proof -
  have "(\<lambda>bs. Ret (readRange bs)) = (\<lambda>bs. rbind (Ret (readAddr bs)) (\<lambda>(f, r). rbind (Ret (readAddr r)) (\<lambda>(t, r'). Ret (Inr ((f, t), r')))))"
    by (auto simp: fun_eq_iff readRange_def rbind_def split: sum.split)
  then show ?thesis by (simp only:) (intro exact_bind exact_map exact_readAddr)
qed

lemma exact_readRanges: "exact_reader (\<lambda>bs. Ret (readRanges n bs))"
  by (rule exact_repeat [OF exact_readRange]) (rule readRanges.simps)

lemma exact_readVersion: "exact_reader (\<lambda>bs. Ret (readVersion bs))"
proof -
  have "(\<lambda>bs. Ret (readVersion bs)) = (\<lambda>bs. rbind (Ret (ReadFull 1 bs)) (\<lambda>(v, r). if hd v \<noteq> 1 then Ret (Inl ''version is invalid'') else Ret (Inr ((), r))))"
    by (auto simp: fun_eq_iff readVersion_def rbind_def split: sum.split)
  moreover have "exact_reader (\<lambda>r. if hd v \<noteq> 1 then Ret (Inl ''version is invalid'') else Ret (Inr ((), r)))" for v :: "u8 list"
    by (cases "hd v = 1") (simp_all add: exact_return exact_fail)
  ultimately show ?thesis by (simp only:) (intro exact_bind exact_ReadFull')
qed

lemma exact_if: "exact_reader f \<Longrightarrow> exact_reader g \<Longrightarrow> exact_reader (\<lambda>bs. if b then f bs else g bs)"
  by (cases b) simp_all

lemma exact_makeslice: "exact_reader f \<Longrightarrow> exact_reader (\<lambda>bs. obind (makeslice k n ()) (\<lambda>_. f bs))"
  by (cases "k * n > 281474976710656") (simp_all add: makeslice_def exact_panic)

lemmas exact_intros = exact_bind exact_if exact_makeslice exact_return exact_fail exact_readVersion exact_readInt64
  exact_ReadFull' exact_readWords exact_readRanges

lemma exact_readSlice: "exact_reader readSlice"
  unfolding readSlice_def by (intro exact_intros)

lemma exact_ReadDomainSetBin: "exact_reader (ReadDomainSetBin pkg)"
  unfolding ReadDomainSetBin_def by (intro exact_intros exact_readSlice)

lemma exact_ReadIpCidrSet: "exact_reader ReadIpCidrSet"
  unfolding ReadIpCidrSet_def by (intro exact_intros)


section \<open>MRS files\<close>

text \<open>The part of \<open>rulesMrsParse\<close> behind the decompressor, as a reader.\<close>

definition mrs_reader :: "FileEnv \<Rightarrow> strategy \<Rightarrow> u8 list \<Rightarrow> (strategy \<times> u8 list) result outcome" where
  "mrs_reader fe s bs =
     rbind (Ret (ReadFull 4 bs)) (\<lambda>(header, r1).
       if header \<noteq> MrsMagicBytes then Ret (Inl ''invalid MrsMagic bytes'')
       else
       rbind (Ret (ReadFull 1 r1)) (\<lambda>(b, r2).
         if hd b \<noteq> BehaviorByte (strategy_Behavior s) then Ret (Inl ''invalid behavior'')
         else
         rbind (Ret (readInt64 r2)) (\<lambda>(n, r3).
         rbind (Ret (readInt64 r3)) (\<lambda>(extra, r4).
           if extra < 0 then Ret (Inl ''length is invalid'')
           else
           rbind (if extra > 0 then obind (makeslice 1 extra ()) (\<lambda>_. Ret (ReadFull extra r4)) else Ret (Inr ([], r4))) (\<lambda>(_, r5).
             case s of
               SDomain d \<Rightarrow> rbind (ReadDomainSetBin (fe_bitmap fe) r5) (\<lambda>(ss, r6). Ret (Inr (SDomain (d\<lparr>dst_count := n, dst_set := Some ss\<rparr>), r6)))
             | SIPCIDR i \<Rightarrow> rbind (ReadIpCidrSet r5) (\<lambda>(rr, r6). Ret (Inr (SIPCIDR (i\<lparr>ics_count := n, ics_set := Some rr\<rparr>), r6)))
             | SClassical c \<Rightarrow> Ret (Inl ''invalid format''))))))"

lemma rbind_assoc: "rbind (rbind m f) g = rbind m (\<lambda>x. rbind (f x) g)"
  by (cases m) (auto simp: rbind_def split: sum.split)

lemma rulesMrsParse_reader:
  assumes "strategy_Behavior s \<noteq> BClassical"
  shows "rulesMrsParse unzstd fe buf s = rbind (Ret (unzstd buf)) (\<lambda>bs. rbind (mrs_reader fe s bs) (\<lambda>(s', r). Ret (Inr s')))"
  using assms
  by (cases s) (simp_all add: rulesMrsParse_def mrs_reader_def rbind_assoc case_prod_unfold if_distrib [of "\<lambda>m. rbind m f" for f] cong: if_cong)

lemma exact_mrs_reader: "exact_reader (mrs_reader fe s)"
  unfolding mrs_reader_def
  by (cases s; simp only: strategy.case) (intro exact_intros exact_ReadDomainSetBin exact_ReadIpCidrSet)+

fun strategy_chunks :: "strategy \<Rightarrow> u8 list list" where
  "strategy_chunks (SDomain d) = (case dst_set d of None \<Rightarrow> [] | Some ss \<Rightarrow> domainSet_chunks ss)"
| "strategy_chunks (SIPCIDR i) = (case ics_set i of None \<Rightarrow> [] | Some rr \<Rightarrow> cidrSet_chunks rr)"
| "strategy_chunks (SClassical c) = []"

definition mrs_chunks :: "strategy \<Rightarrow> u8 list list" where
  "mrs_chunks s = mrs_header (strategy_Behavior s) (strategy_Count s) @ strategy_chunks s"

text \<open>
  What a file can hold: a positive count, slices that are neither empty nor larger than memory, and
  addresses that are plain, neither with a zone nor IPv4 addresses in the form of IPv6.
\<close>

fun storable :: "strategy \<Rightarrow> bool" where
  "storable (SDomain d) = (0 < dst_count d \<and> dst_count d < 2 ^ 63 \<and> (case dst_set d of None \<Rightarrow> False
     | Some ss \<Rightarrow> slice_ok (leaves ss) \<and> slice_ok (labelBitmap ss) \<and> slice_ok (labels ss)))"
| "storable (SIPCIDR i) = (0 < ics_count i \<and> ics_count i < 2 ^ 63 \<and> (case ics_set i of None \<Rightarrow> False
     | Some rr \<Rightarrow> slice_ok rr \<and> list_all (\<lambda>r. plain_range r \<and> unmap_range r = r) rr))"
| "storable (SClassical c) = False"

definition indexed :: "FileEnv \<Rightarrow> strategy \<Rightarrow> bool" where
  "indexed fe s = (case s of SDomain d \<Rightarrow> (\<forall>ss. dst_set d = Some ss \<longrightarrow> ds_init (fe_bitmap fe) ss = ss) | _ \<Rightarrow> True)"

fun same_kind :: "strategy \<Rightarrow> strategy \<Rightarrow> strategy" where
  "same_kind (SDomain d) (SDomain e) = SDomain (e\<lparr>dst_count := dst_count d, dst_set := dst_set d\<rparr>)"
| "same_kind (SIPCIDR d) (SIPCIDR e) = SIPCIDR (e\<lparr>ics_count := ics_count d, ics_set := ics_set d\<rparr>)"
| "same_kind s t = t"

lemma mrs_reader_header:
  assumes "0 \<le> n" "n < 2 ^ 63"
  shows "mrs_reader fe s (concat (mrs_header (strategy_Behavior s) n) @ bs) = (case s of
       SDomain d \<Rightarrow> rbind (ReadDomainSetBin (fe_bitmap fe) bs) (\<lambda>(ss, r6). Ret (Inr (SDomain (d\<lparr>dst_count := n, dst_set := Some ss\<rparr>), r6)))
     | SIPCIDR i \<Rightarrow> rbind (ReadIpCidrSet bs) (\<lambda>(rr, r6). Ret (Inr (SIPCIDR (i\<lparr>ics_count := n, ics_set := Some rr\<rparr>), r6)))
     | SClassical c \<Rightarrow> Ret (Inl ''invalid format''))"
proof -
  have "ReadFull 4 (MrsMagicBytes @ b) = Inr (MrsMagicBytes, b)" for b
    by (intro ReadFull_append) (simp_all add: MrsMagicBytes_def bytes_of_def)
  moreover have "ReadFull 1 (x # b) = Inr ([x], b)" for x b by (simp add: ReadFull_def)
  ultimately show ?thesis using assms by (simp add: mrs_reader_def mrs_header_def)
qed

lemma map_unmap: "list_all (\<lambda>r. plain_range r \<and> unmap_range r = r) rr \<Longrightarrow> list_all plain_range rr \<and> map unmap_range rr = rr"
  by (induction rr) simp_all

lemma mrs_reader_chunks:
  assumes "storable s" "indexed fe s" "strategy_Behavior t = strategy_Behavior s"
  shows "mrs_reader fe t (concat (mrs_chunks s) @ r) = Ret (Inr (same_kind s t, r))"
proof (cases s)
  case (SDomain d)
  then obtain ss e where "dst_set d = Some ss" "t = SDomain e" using assms by (cases t) (auto split: option.splits)
  then show ?thesis
    using assms SDomain mrs_reader_header [of "dst_count d" fe t "concat (domainSet_chunks ss) @ r"]
      ReadDomainSetBin_chunks [of ss "fe_bitmap fe" r] by (simp add: mrs_chunks_def indexed_def)
next
  case (SIPCIDR i)
  then obtain rr e where "ics_set i = Some rr" "t = SIPCIDR e" using assms by (cases t) (auto split: option.splits)
  then show ?thesis
    using assms SIPCIDR mrs_reader_header [of "ics_count i" fe t "concat (cidrSet_chunks rr) @ r"]
      ReadIpCidrSet_chunks [of rr r] map_unmap [of rr] by (simp add: mrs_chunks_def)
qed (use assms in simp)

section \<open>What the parser leaves\<close>

lemma Insert_Behavior: "strategy_Insert fe r s = Ret s1 \<Longrightarrow> strategy_Behavior s1 = strategy_Behavior s"
  by (cases s) (auto simp: obind_eq_Ret)

lemma parseLines_Behavior: "parseLines unmarshal fe fmt buf st s = Ret (Inr s1) \<Longrightarrow> strategy_Behavior s1 = strategy_Behavior s"
proof (induction unmarshal fe fmt buf st s rule: parseLines.induct)
  case (1 unmarshal fe fmt buf st s)
  obtain line rest ended where c: "cutLine buf = (line, rest, ended)" by (cases "cutLine buf") auto
  obtain str st1 where p: "(if fmt = TextRule then (textLine line, st) else yamlLine unmarshal line st) = (str, st1)" by (rule prod.exhaust)
  have "parseLines unmarshal fe fmt buf st s = Ret (Inr s1)" by (rule "1.prems")
  then consider "s1 = s" | "buf \<noteq> []" "str = []" "\<not> (\<not> ended \<and> length (fst st) = 0 \<and> fmt = YamlRule)" "fmt \<noteq> MrsRule"
      "parseLines unmarshal fe fmt rest st1 s = Ret (Inr s1)"
    | s2 where "buf \<noteq> []" "str \<noteq> []" "\<not> (\<not> ended \<and> length (fst st) = 0 \<and> fmt = YamlRule)" "fmt \<noteq> MrsRule"
      "strategy_Insert fe str s = Ret s2" "parseLines unmarshal fe fmt rest st1 s2 = Ret (Inr s1)"
    unfolding parseLines.simps [of unmarshal fe fmt buf st s] c prod.case p by (auto simp: obind_eq_Ret split: if_splits)
  then show ?case
  proof cases
    case 2
    show ?thesis by (rule "1.IH"(1) [OF 2(1) c [symmetric] refl 2(3,4) p [symmetric] 2(2,5)])
  next
    case 3
    show ?thesis using "1.IH"(2) [OF 3(1) c [symmetric] refl 3(3,4) p [symmetric] 3(2,5,6)] Insert_Behavior [OF 3(5)] by simp
  qed simp
qed

lemma Reset_Behavior [simp]: "strategy_Behavior (strategy_Reset s) = strategy_Behavior s" "strategy_Behavior (newStrategy b) = b"
  by (cases s; cases b; simp)+

lemma FinishInsert_leaves:
  assumes "strategy_FinishInsert fe s = Ret s1"
  shows "strategy_Behavior s1 = strategy_Behavior s" "indexed fe s1"
proof -
  show "strategy_Behavior s1 = strategy_Behavior s"
    using assms by (cases s) (auto simp: obind_eq_Ret split: option.splits)
  have "ds_init pkg ss = ss" if "NewDomainSet pkg t = Ret (Some ss)" for pkg ss and t :: "unit Node"
    using that newDomainSet_keys_indexed by (auto simp: NewDomainSet_def Let_def)
  then show "indexed fe s1"
    using assms by (cases s) (auto simp: indexed_def obind_eq_Ret split: option.splits)
qed

lemma rulesParse_leaves:
  assumes "rulesParse unzstd unmarshal fe buf (newStrategy b) fmt = Ret (Inr s)" "fmt \<noteq> MrsRule"
  shows "strategy_Behavior s = b" "indexed fe s"
proof -
  obtain s1 where "parseLines unmarshal fe fmt buf ([], \<lparr>rp_Payload = [], rp_Rules = []\<rparr>) (strategy_Reset (newStrategy b)) = Ret (Inr s1)"
    "strategy_FinishInsert fe s1 = Ret s"
    using assms by (auto simp: rulesParse_def Let_def rbind_eq_Ret obind_eq_Ret)
  then show "strategy_Behavior s = b" "indexed fe s" using parseLines_Behavior FinishInsert_leaves by (metis Reset_Behavior)+
qed

section \<open>Conversion\<close>

lemma writeAll_append:
  "writeAll wr (as @ bs) w = (case writeAll wr as w of (Some e, w1) \<Rightarrow> (Some e, w1) | (None, w1) \<Rightarrow> writeAll wr bs w1)"
  by (induction as arbitrary: w) (auto split: prod.split option.split)

lemma writeMrs_chunks: "storable s \<Longrightarrow> writeMrs wr (strategy_Behavior s) s e = writeAll wr (mrs_chunks s) e"
  by (cases s) (auto simp: writeMrs_def mrs_chunks_def writeAll_append WriteBin_def cidr_WriteBin_def split: option.splits prod.split)

text \<open>
  A compressor that loses nothing: it can be opened on any writer and accepts any sequence of writes,
  and what it has appended when it is closed decompresses to what was written.
\<close>

definition lossless :: "(u8 list, 'e) encoder \<Rightarrow> (u8 list \<Rightarrow> u8 list result) \<Rightarrow> bool" where
  "lossless enc unzstd = (\<forall>w chunks. \<exists>e0 e z. enc_new enc w = Inr e0 \<and> writeAll (enc_write enc) chunks e0 = (None, e)
     \<and> enc_close enc e = (None, w @ z) \<and> unzstd z = Inr (concat chunks))"

lemma storable_Count: "storable s \<Longrightarrow> 0 < strategy_Count s \<and> strategy_Behavior s \<noteq> BClassical"
  by (cases s) simp_all

text \<open>Without the parser of rules only classical files are read differently.\<close>

lemma Insert_no_rules:
  "strategy_Behavior s \<noteq> BClassical \<Longrightarrow> strategy_Insert (fe\<lparr>fe_rules := None\<rparr>) r s = strategy_Insert fe r s"
  by (cases s) simp_all

lemma parseLines_no_rules:
  "strategy_Behavior s \<noteq> BClassical \<Longrightarrow> parseLines unmarshal (fe\<lparr>fe_rules := None\<rparr>) fmt buf st s = parseLines unmarshal fe fmt buf st s"
proof (induction unmarshal fe fmt buf st s rule: parseLines.induct)
  case (1 unmarshal fe fmt buf st s)
  obtain line rest ended where c: "cutLine buf = (line, rest, ended)" by (cases "cutLine buf") auto
  obtain str st1 where p: "(if fmt = TextRule then (textLine line, st) else yamlLine unmarshal line st) = (str, st1)" by (rule prod.exhaust)
  note IH = "1.IH" [OF _ c [symmetric] refl _ _ p [symmetric]]
  show ?case
  proof (cases "buf = [] \<or> \<not> ended \<and> length (fst st) = 0 \<and> fmt = YamlRule \<or> fmt = MrsRule")
    case True
    then show ?thesis by (subst (1 2) parseLines.simps) (auto simp: c)
  next
    case False
    have "parseLines unmarshal (fe\<lparr>fe_rules := None\<rparr>) fmt rest st1 s = parseLines unmarshal fe fmt rest st1 s" if "str = []"
      using IH(1) that False "1.prems" by blast
    moreover have "parseLines unmarshal (fe\<lparr>fe_rules := None\<rparr>) fmt rest st1 s1 = parseLines unmarshal fe fmt rest st1 s1"
      if "str \<noteq> []" "strategy_Insert fe str s = Ret s1" for s1
      using IH(2) that False "1.prems" Insert_Behavior [OF that(2)] by auto
    ultimately show ?thesis unfolding parseLines.simps [of _ _ _ buf] c prod.case p Insert_no_rules [OF "1.prems"]
      by (cases "strategy_Insert fe str s") auto
  qed
qed

lemma rulesParse_no_rules:
  assumes "b \<noteq> BClassical" "fmt \<noteq> MrsRule"
  shows "rulesParse unzstd unmarshal (fe\<lparr>fe_rules := None\<rparr>) buf (newStrategy b) fmt = rulesParse unzstd unmarshal fe buf (newStrategy b) fmt"
proof -
  have "strategy_FinishInsert (fe\<lparr>fe_rules := None\<rparr>) s = strategy_FinishInsert fe s" for s
    by (cases s) (auto split: option.split)
  then show ?thesis using parseLines_no_rules [of "strategy_Reset (newStrategy b)"] assms by (simp add: rulesParse_def)
qed

lemma ConvertToMrs_writes:
  assumes "lossless enc unzstd" "fmt \<noteq> MrsRule" "rulesParse unzstd unmarshal fe buf (newStrategy b) fmt = Ret (Inr s)" "storable s"
  shows "\<exists>z. ConvertToMrs unzstd unmarshal fe enc wr buf b fmt w = Ret (None, w @ z) \<and> unzstd z = Inr (concat (mrs_chunks s))"
proof -
  obtain e0 e z where "enc_new enc w = Inr e0" "writeAll (enc_write enc) (mrs_chunks s) e0 = (None, e)"
    "enc_close enc e = (None, w @ z)" "unzstd z = Inr (concat (mrs_chunks s))"
    using assms(1) unfolding lossless_def by blast
  moreover have "writeMrs (enc_write enc) b s e0 = writeAll (enc_write enc) (mrs_chunks s) e0"
    using writeMrs_chunks [OF assms(4)] rulesParse_leaves [OF assms(3,2)] by simp
  moreover have "rulesParse unzstd unmarshal (fe\<lparr>fe_rules := None\<rparr>) buf (newStrategy b) fmt = Ret (Inr s)"
    using rulesParse_no_rules [of b fmt] assms(2,3) rulesParse_leaves(1) [OF assms(3,2)] storable_Count [OF assms(4)] by auto
  ultimately show ?thesis using assms(2,4) storable_Count [OF assms(4)]
    by (intro exI [of _ z]) (cases s; simp add: ConvertToMrs_def Let_def)
qed

lemma same_kind_view:
  "strategy_Behavior t = strategy_Behavior s \<Longrightarrow> storable s \<Longrightarrow>
    strategy_view fe (same_kind s t) = strategy_view fe s \<and> strategy_Count (same_kind s t) = strategy_Count s"
  by (cases s; cases t) simp_all

text \<open>
  C10. Conversion to MRS loses nothing: when a YAML or text file of domains or of prefixes parses to a set
  that a file can hold, \<open>ConvertToMrs\<close> succeeds and only appends to its writer, and parsing what it
  wrote as an MRS file gives a set with the same number of rules that answers every lookup the same.
\<close>

theorem mrs_roundtrip:
  assumes "lossless enc unzstd" "fmt \<noteq> MrsRule" "rulesParse unzstd unmarshal fe buf (newStrategy b) fmt = Ret (Inr s)" "storable s"
  shows "\<exists>z s'. ConvertToMrs unzstd unmarshal fe enc wr buf b fmt w = Ret (None, w @ z)
    \<and> rulesParse unzstd unmarshal fe (string_of z) (newStrategy b) MrsRule = Ret (Inr s')
    \<and> strategy_Count s' = strategy_Count s \<and> strategy_view fe s' = strategy_view fe s"
proof -
  obtain z where z: "ConvertToMrs unzstd unmarshal fe enc wr buf b fmt w = Ret (None, w @ z)" "unzstd z = Inr (concat (mrs_chunks s))"
    using ConvertToMrs_writes [OF assms] by blast
  let ?t = "strategy_Reset (newStrategy b)"
  have b: "strategy_Behavior ?t = strategy_Behavior s" using rulesParse_leaves(1) [OF assms(3,2)] by simp
  have "rulesParse unzstd unmarshal fe (string_of z) (newStrategy b) MrsRule = Ret (Inr (same_kind s ?t))"
    using rulesMrsParse_reader [of ?t unzstd fe z] storable_Count [OF assms(4)] b z(2)
      mrs_reader_chunks [OF assms(4) rulesParse_leaves(2) [OF assms(3,2)] b, of "[]"]
    by (simp add: rulesParse_def)
  then show ?thesis using z(1) same_kind_view [OF b assms(4)] by blast
qed

text \<open>
  C12. An MRS file that was cut off is refused: when the decompressed data is a proper prefix of what the
  converter wrote for a set, \<open>rulesMrsParse\<close> returns an error; it does not panic and it does not
  return a smaller set.
\<close>

theorem mrs_truncated_refused:
  assumes "storable s" "indexed fe s" "n < length (concat (mrs_chunks s))" "unzstd buf = Inr (take n (concat (mrs_chunks s)))"
  shows "\<exists>e. rulesMrsParse unzstd fe buf (strategy_Reset s) = Ret (Inl e)"
proof -
  have b: "strategy_Behavior (strategy_Reset s) = strategy_Behavior s" by simp
  have "mrs_reader fe (strategy_Reset s) (concat (mrs_chunks s)) = Ret (Inr (same_kind s (strategy_Reset s), []))"
    using mrs_reader_chunks [OF assms(1,2) b, of "[]"] by simp
  with exact_mrs_reader obtain c where "concat (mrs_chunks s) = c @ []"
    "\<And>n. n < length c \<Longrightarrow> \<exists>e. mrs_reader fe (strategy_Reset s) (take n c) = Ret (Inl e)" by (rule exact_readerE) auto
  then obtain e where "mrs_reader fe (strategy_Reset s) (take n (concat (mrs_chunks s))) = Ret (Inl e)" using assms(3) by auto
  then show ?thesis using assms(4) storable_Count [OF assms(1)] by (simp add: rulesMrsParse_reader)
qed

text \<open>
  The length of the reserved part is trusted: a file whose header announces more than the address
  space makes \<open>rulesMrsParse\<close> panic, although the file ends right behind its header.
\<close>

theorem mrs_header_panics:
  assumes "2 ^ 48 < n" "n < 2 ^ 63" "strategy_Behavior s \<noteq> BClassical"
    and "unzstd buf = Inr (MrsMagicBytes @ [BehaviorByte (strategy_Behavior s)] @ int64_bytes 1 @ int64_bytes n)"
  shows "rulesMrsParse unzstd fe buf s = Panic"
proof -
  have "ReadFull 4 (MrsMagicBytes @ b) = Inr (MrsMagicBytes, b)" for b
    by (intro ReadFull_append) (simp_all add: MrsMagicBytes_def bytes_of_def)
  moreover have "ReadFull 1 (x # b) = Inr ([x], b)" for x b by (simp add: ReadFull_def)
  ultimately show ?thesis using assms readInt64_append [of n "[]"] by (simp add: rulesMrsParse_reader mrs_reader_def makeslice_def)
qed

text \<open>A classical file makes the converter panic at its first rule.\<close>

lemma convert_classical_panics:
  "ConvertToMrs unzstd unmarshal fe enc wr ''DOMAIN,a.com'' BClassical TextRule w = Panic"
proof -
  have c: "fst (cutLine ''DOMAIN,a.com'') = ''DOMAIN,a.com''" "textLine ''DOMAIN,a.com'' = ''DOMAIN,a.com''" by code_simp+
  obtain rest ended where cut: "cutLine ''DOMAIN,a.com'' = (''DOMAIN,a.com'', rest, ended)" using c(1) by (metis prod.collapse)
  have p: "fst (ParseRulePayload ''DOMAIN,a.com'' False) = ''DOMAIN''" by code_simp
  have "payloadToRule None ''DOMAIN,a.com'' = Panic"
    using p by (cases "ParseRulePayload ''DOMAIN,a.com'' False") (simp add: payloadToRule_def)
  then show ?thesis
    by (simp add: ConvertToMrs_def rulesParse_def parseLines.simps [of _ _ _ "''DOMAIN,a.com''"] cut c(2) classicalStrategy_Insert_def)
qed

section \<open>An environment in which the hypotheses hold\<close>

definition example_netipx :: netipx_pkg where
  "example_netipx = \<lparr>RangeOfPrefix = (\<lambda>p. (Masked p, Masked p)), RangeIsValid = (\<lambda>r. IsValid (fst r)), IPSetBuild = Inr,
     IPSetContains = (\<lambda>rr a. list_ex (\<lambda>r. a = fst r) rr), RangePrefixes = (\<lambda>r. [])\<rparr>"

definition example_files :: FileEnv where
  "example_files = \<lparr>fe_rules = Some example_env, fe_bitmap = reference_pkg, fe_netipx = example_netipx\<rparr>"

definition store :: "(u8 list, u8 list \<times> u8 list) encoder" where
  "store = \<lparr>enc_new = (\<lambda>w. Inr (w, [])), enc_write = (\<lambda>c e. (None, (fst e, snd e @ c))), enc_close = (\<lambda>e. (None, fst e @ snd e))\<rparr>"

lemma store_lossless: "lossless store Inr"
proof -
  have "writeAll (enc_write store) chunks (w, p) = (None, (w, p @ concat chunks))" for chunks w p
    by (induction chunks arbitrary: p) (simp_all add: store_def)
  then show ?thesis by (simp add: lossless_def) (simp add: store_def)
qed

text \<open>The state of a domain strategy after two lines, and that a file can hold it.\<close>

definition two_domains :: string where
  "two_domains = ''a.com'' @ [newline] @ ''# b.net'' @ [newline] @ ''+.c.org''"

definition two_strategy :: "strategy result outcome" where
  "two_strategy = rulesParse Inr (\<lambda>l st. (True, st)) example_files two_domains (newStrategy BDomain) TextRule"

lemma two_domains_storable: "\<exists>s. two_strategy = Ret (Inr s) \<and> storable s"
proof -
  have "case two_strategy of Ret (Inr s) \<Rightarrow> storable s | _ \<Rightarrow> False" by code_simp
  then show ?thesis by (auto split: outcome.splits sum.splits)
qed

theorem mrs_roundtrip_witness:
  "\<exists>z s'. ConvertToMrs Inr (\<lambda>l st. (True, st)) example_files store (\<lambda>c w. (None, w @ c)) two_domains BDomain TextRule [] = Ret (None, z)
    \<and> rulesParse Inr (\<lambda>l st. (True, st)) example_files (string_of z) (newStrategy BDomain) MrsRule = Ret (Inr s')"
proof -
  obtain s where "two_strategy = Ret (Inr s)" "storable s" using two_domains_storable by blast
  then have "rulesParse Inr (\<lambda>l st. (True, st)) example_files two_domains (newStrategy BDomain) TextRule = Ret (Inr s)" "storable s"
    by (simp_all add: two_strategy_def)
  from mrs_roundtrip [OF store_lossless _ this, of "\<lambda>c w. (None, w @ c)" "[]"] show ?thesis by auto
qed

theorem mrs_truncated_refused_witness:
  "\<exists>s e. two_strategy = Ret (Inr s) \<and> rulesMrsParse (\<lambda>z. Inr (take 9 (concat (mrs_chunks s)))) example_files [] (strategy_Reset s) = Ret (Inl e)"
proof -
  obtain s where s: "two_strategy = Ret (Inr s)" "storable s" using two_domains_storable by blast
  then have i: "indexed example_files s" using rulesParse_leaves(2) [of Inr "\<lambda>l st. (True, st)" example_files two_domains BDomain TextRule s]
    by (simp add: two_strategy_def)
  have "9 < length (concat (mrs_chunks s))" by (simp add: mrs_chunks_def mrs_header_def MrsMagicBytes_def bytes_of_def int64_bytes_def)
  from mrs_truncated_refused [OF s(2) i this, of "\<lambda>z. Inr (take 9 (concat (mrs_chunks s)))" "[]"] s(1) show ?thesis by auto
qed

theorem mrs_header_panics_witness:
  "rulesMrsParse (\<lambda>z. Inr (MrsMagicBytes @ [0] @ int64_bytes 1 @ int64_bytes (2 ^ 62))) example_files [] (newStrategy BDomain) = Panic"
  using mrs_header_panics [of "2 ^ 62" "newStrategy BDomain" "\<lambda>z. Inr (MrsMagicBytes @ [0] @ int64_bytes 1 @ int64_bytes (2 ^ 62))" "[]" example_files]
  by simp

section \<open>Text files\<close>

text \<open>The rules of a text file: its lines without surrounding blanks, neither empty nor comments.\<close>

definition text_rules :: "string \<Rightarrow> string list" where
  "text_rules buf = filter (\<lambda>r. r \<noteq> []) (map textLine (Split buf newline))"

lemma TrimSpace_newline: "TrimSpace (l @ [newline]) = TrimSpace l"
proof -
  have "newline \<in> set space_chars" by code_simp
  then show ?thesis by (auto simp: TrimSpace_def Trim_def Let_def dropWhile_append dropWhile_eq_Nil_conv [symmetric] simp del: dropWhile_eq_Nil_conv)
qed

lemma Split_cutLine:
  assumes "cutLine buf = (line, rest, ended)" "buf \<noteq> []"
  shows "text_rules buf = (if textLine line = [] then [] else [textLine line]) @ text_rules rest"
proof (cases "newline \<in> set buf")
  case True
  let ?l = "takeWhile (\<lambda>c. c \<noteq> newline) buf"
  have "dropWhile (\<lambda>c. c \<noteq> newline) buf \<noteq> []" using True by (simp add: dropWhile_eq_Nil_conv)
  then have "dropWhile (\<lambda>c. c \<noteq> newline) buf = newline # rest" using True assms(1) hd_dropWhile [of "\<lambda>c. c \<noteq> newline" buf]
    by (cases "dropWhile (\<lambda>c. c \<noteq> newline) buf") (auto simp: cutLine_def)
  then have b: "buf = ?l @ newline # rest" by (metis takeWhile_dropWhile_id)
  have "newline \<notin> set ?l" by (auto dest: set_takeWhileD)
  then have "Split buf newline = ?l # Split rest newline" by (subst b) (rule Split_append_sep)
  moreover have "textLine line = textLine ?l" using True assms(1) by (auto simp: cutLine_def textLine_def TrimSpace_newline)
  ultimately show ?thesis by (simp add: text_rules_def)
next
  case False
  moreover have "textLine [] = []" by code_simp
  ultimately show ?thesis using assms(1) by (auto simp: text_rules_def cutLine_def Split_no_sep)
qed

definition domain_rules :: "string \<Rightarrow> (string \<times> unit) list" where
  "domain_rules buf = map (\<lambda>r. (r, ())) (filter (\<lambda>r. CHR ''/'' \<notin> set r) (text_rules buf))"

lemma insert_all_append: "insert_all (xs @ ys) t = insert_all ys (insert_all xs t)"
  by (induction xs t rule: insert_all.induct) (auto split: sum.split)

lemma domainStrategy_Insert_all:
  "\<exists>n. domainStrategy_Insert r \<lparr>dst_count = c, dst_trie = Some t, dst_set = x\<rparr> =
     Ret \<lparr>dst_count = n, dst_trie = Some (insert_all (map (\<lambda>r. (r, ())) (filter (\<lambda>r. CHR ''/'' \<notin> set r) [r])) t), dst_set = x\<rparr>"
  by (auto simp: domainStrategy_Insert_def split: sum.split)

lemma parseLines_text:
  "\<exists>n. parseLines unmarshal fe TextRule buf st (SDomain \<lparr>dst_count = c, dst_trie = Some t, dst_set = x\<rparr>) =
     Ret (Inr (SDomain \<lparr>dst_count = n, dst_trie = Some (insert_all (domain_rules buf) t), dst_set = x\<rparr>))"
proof (induction "length buf" arbitrary: buf c t rule: less_induct)
  case less
  show ?case
  proof (cases "buf = []")
    case True
    moreover have "domain_rules [] = []" by code_simp
    ultimately show ?thesis by (simp add: parseLines.simps)
  next
    case False
    obtain line rest ended where cut: "cutLine buf = (line, rest, ended)" by (cases "cutLine buf") auto
    note IH = less.hyps [OF cutLine_shorter [OF False cut]]
    note rules = Split_cutLine [OF cut False]
    show ?thesis
    proof (cases "textLine line = []")
      case True
      then show ?thesis using IH [of c t] False cut rules by (subst parseLines.simps) (simp add: domain_rules_def)
    next
      case ne: False
      obtain m where m: "domainStrategy_Insert (textLine line) \<lparr>dst_count = c, dst_trie = Some t, dst_set = x\<rparr> =
        Ret \<lparr>dst_count = m, dst_trie = Some (insert_all (map (\<lambda>r. (r, ())) (filter (\<lambda>r. CHR ''/'' \<notin> set r) [textLine line])) t), dst_set = x\<rparr>"
        using domainStrategy_Insert_all by blast
      have d: "domain_rules buf = map (\<lambda>r. (r, ())) (filter (\<lambda>r. CHR ''/'' \<notin> set r) [textLine line]) @ domain_rules rest"
        unfolding domain_rules_def rules using ne by simp
      show ?thesis unfolding d insert_all_append
        using IH [of m "insert_all (map (\<lambda>r. (r, ())) (filter (\<lambda>r. CHR ''/'' \<notin> set r) [textLine line])) t"] False cut ne m
        by (subst parseLines.simps) simp
    qed
  qed
qed

text \<open>
  C11. A text file of domains means its lines: when every rule is an ASCII pattern without a star, parsing
  the file succeeds, and the set that results contains a valid ASCII host name without a leading dot, none of whose
  characters sorts in front of the plus, exactly when one of the lines that are neither empty nor comments
  is a pattern that covers it. Lines that are not valid domains, or that contain a slash, are skipped
  without an error. The bitmap of the set is one that \<open>int32\<close> addresses, and the package of rank and
  select indexes behaves as documented.
\<close>

theorem text_file_meaning:
  assumes "documented_pkg (fe_bitmap fe)" "\<forall>r\<in>set (text_rules buf). plain_pattern r"
  shows "\<exists>n ds. rulesParse unzstd unmarshal fe buf (newStrategy BDomain) TextRule
      = Ret (Inr (SDomain \<lparr>dst_count = n, dst_trie = None, dst_set = ds\<rparr>))
    \<and> (\<forall>host parts. (\<forall>ss. ds = Some ss \<longrightarrow> 64 * length (labelBitmap ss) < 2 ^ 31)
        \<and> ValidAndSplitDomain host = Some parts \<and> hd parts \<noteq> [] \<and> ascii host \<and> (\<forall>c\<in>set host. \<not> lower_char c < CHR ''+'') \<longrightarrow>
        Has (fe_bitmap fe) ds host = Ret (\<exists>r\<in>set (text_rules buf). CHR ''/'' \<notin> set r \<and> pattern_covers r host))"
proof -
  let ?xs = "domain_rules buf"
  have p: "\<forall>(d, x)\<in>set ?xs. plain_pattern d" using assms(2) by (auto simp: domain_rules_def)
  obtain ds where ds: "NewDomainSet (fe_bitmap fe) (insert_all ?xs newNode) = Ret ds"
    "\<forall>host parts. (\<forall>ss. ds = Some ss \<longrightarrow> 64 * length (labelBitmap ss) < 2 ^ 31)
        \<and> ValidAndSplitDomain host = Some parts \<and> hd parts \<noteq> [] \<and> ascii host \<and> (\<forall>c\<in>set host. \<not> lower_char c < CHR ''+'') \<longrightarrow>
        Has (fe_bitmap fe) ds host = Ret (\<exists>qs. lookup (insert_all ?xs newNode) qs \<noteq> None \<and> path_covers qs (rev parts))"
    using Has_paths [OF assms(1) p] by (elim exE conjE) (rule that)
  obtain n where "parseLines unmarshal fe TextRule buf ([], \<lparr>rp_Payload = [], rp_Rules = []\<rparr>) (SDomain \<lparr>dst_count = 0, dst_trie = Some newNode, dst_set = None\<rparr>)
      = Ret (Inr (SDomain \<lparr>dst_count = n, dst_trie = Some (insert_all ?xs newNode), dst_set = None\<rparr>))"
    using parseLines_text by blast
  then have "rulesParse unzstd unmarshal fe buf (newStrategy BDomain) TextRule = Ret (Inr (SDomain \<lparr>dst_count = n, dst_trie = None, dst_set = ds\<rparr>))"
    by (simp add: rulesParse_def Let_def ds(1))
  moreover have "(\<exists>qs. lookup (insert_all ?xs newNode) qs \<noteq> None \<and> path_covers qs (rev parts)) \<longleftrightarrow>
      (\<exists>r\<in>set (text_rules buf). CHR ''/'' \<notin> set r \<and> pattern_covers r host)"
    if "ValidAndSplitDomain host = Some parts" "hd parts \<noteq> []" for host parts
  proof -
    have "lookup (insert_all ?xs newNode) qs \<noteq> None \<longleftrightarrow> (\<exists>(d, x)\<in>set ?xs. qs \<in> set (pattern_paths d))" for qs
      using insert_all_lookup [of newNode ?xs qs] by simp
    then show ?thesis using that by (auto simp: pattern_covers_def list_ex_iff domain_rules_def)
  qed
  then have "Has (fe_bitmap fe) ds host = Ret (\<exists>r\<in>set (text_rules buf). CHR ''/'' \<notin> set r \<and> pattern_covers r host)"
    if "(\<forall>ss. ds = Some ss \<longrightarrow> 64 * length (labelBitmap ss) < 2 ^ 31) \<and> ValidAndSplitDomain host = Some parts
      \<and> hd parts \<noteq> [] \<and> ascii host \<and> (\<forall>c\<in>set host. \<not> lower_char c < CHR ''+'')" for host parts
    using ds(2) [rule_format, OF that] that by simp
  ultimately show ?thesis by blast
qed


theorem text_file_meaning_witness:
  "\<exists>n ds. rulesParse Inr (\<lambda>l st. (True, st)) example_files two_domains (newStrategy BDomain) TextRule
      = Ret (Inr (SDomain \<lparr>dst_count = n, dst_trie = None, dst_set = ds\<rparr>))
    \<and> Has reference_pkg ds ''x.c.org'' = Ret True \<and> Has reference_pkg ds ''b.net'' = Ret False"
proof -
  let ?parse = "rulesParse Inr (\<lambda>l st. (True, st)) example_files two_domains (newStrategy BDomain) TextRule"
  have p: "\<forall>r\<in>set (text_rules two_domains). plain_pattern r" by code_simp
  have e: "fe_bitmap example_files = reference_pkg" by (simp add: example_files_def)
  obtain n ds where ds: "?parse = Ret (Inr (SDomain \<lparr>dst_count = n, dst_trie = None, dst_set = ds\<rparr>))"
    and H: "\<forall>host parts. (\<forall>ss. ds = Some ss \<longrightarrow> 64 * length (labelBitmap ss) < 2 ^ 31)
        \<and> ValidAndSplitDomain host = Some parts \<and> hd parts \<noteq> [] \<and> ascii host \<and> (\<forall>c\<in>set host. \<not> lower_char c < CHR ''+'') \<longrightarrow>
        Has reference_pkg ds host = Ret (\<exists>r\<in>set (text_rules two_domains). CHR ''/'' \<notin> set r \<and> pattern_covers r host)"
    using text_file_meaning [of example_files two_domains Inr "\<lambda>l st. (True, st)"] reference_pkg_documented p unfolding e
    by (elim meta_impE exE conjE) (assumption | rule that)+
  have "case ?parse of Ret (Inr (SDomain d)) \<Rightarrow> (case dst_set d of Some ss \<Rightarrow> length (labelBitmap ss) = 1 | None \<Rightarrow> False) | _ \<Rightarrow> False" by code_simp
  then have small: "\<forall>ss. ds = Some ss \<longrightarrow> 64 * length (labelBitmap ss) < 2 ^ 31" unfolding ds by (auto split: option.splits)
  have v: "ValidAndSplitDomain ''x.c.org'' = Some [''x'', ''c'', ''org'']" "ValidAndSplitDomain ''b.net'' = Some [''b'', ''net'']"
    "ascii ''x.c.org''" "ascii ''b.net''" "\<forall>c\<in>set ''x.c.org''. \<not> lower_char c < CHR ''+''" "\<forall>c\<in>set ''b.net''. \<not> lower_char c < CHR ''+''"
    "\<exists>r\<in>set (text_rules two_domains). CHR ''/'' \<notin> set r \<and> pattern_covers r ''x.c.org''"
    "\<not> (\<exists>r\<in>set (text_rules two_domains). CHR ''/'' \<notin> set r \<and> pattern_covers r ''b.net'')" by code_simp+
  have "Has reference_pkg ds ''x.c.org'' = Ret True" using H [rule_format, of "''x.c.org''" "[''x'', ''c'', ''org'']"] small v(1,3,5,7) by auto
  moreover have "Has reference_pkg ds ''b.net'' = Ret False" using H [rule_format, of "''b.net''" "[''b'', ''net'']"] small v(2,4,6,8) by auto
  ultimately show ?thesis using ds by blast
qed

text \<open>
  The export of an MRS file as text widens what it matches: a pattern with a leading dot covers the
  subdomains only, but it is printed with a plus, and read back it covers the domain itself too.
\<close>

theorem dump_widens:
  "(case rulesParse Inr (\<lambda>l st. (True, st)) example_files ''.a.com'' (newStrategy BDomain) TextRule of
      Ret (Inr s) \<Rightarrow> strategy_DumpMrs example_files (printLine (\<lambda>c w. (None, w @ c))) s [] = Ret (bytes_of (''+.a.com'' @ [newline]))
   | _ \<Rightarrow> False)
   \<and> \<not> pattern_covers ''.a.com'' ''a.com'' \<and> pattern_covers ''+.a.com'' ''a.com''"
  by (intro conjI) code_simp+

end
