(* ===== verification/OverrideValue.thy ===== *)
theory OverrideValue
  imports Float64 DomainSet
begin

text \<open>
  The values of override expressions and the operations on them
  (src/adapter/provider/override_expr.go). A value of type \<open>any\<close> is what the YAML decoder makes of a
  document: null, a boolean, an integer of type int or uint64, a float64, a string, an array or a
  mapping with string keys; any other Go value is \<open>VOther\<close> with the name of its type and its printed form;
  \<open>VNoMatch\<close> is the marker \<open>overrideNoMatch\<close>. A mapping is kept as a list of its entries in ascending order
  of their keys. The code updates arrays and mappings in place; the model returns the updated value.
  Error messages are kept without their quoted arguments.
\<close>

section \<open>Values\<close>

datatype "value" = VNull | VBool bool | VInt int | VFloat float64 | VString string
  | VArray "value list" | VMap "(string \<times> value) list" | VOther string string | VNoMatch

lemmas any_splits = "value.splits"

type_synonym vmap = "(string \<times> value) list"

fun mput :: "string \<Rightarrow> 'v \<Rightarrow> (string \<times> 'v) list \<Rightarrow> (string \<times> 'v) list" where
  "mput k v [] = [(k, v)]"
| "mput k v ((k1, v1) # m) =
     (if k = k1 then (k, v) # m else if k < k1 then (k, v) # (k1, v1) # m else (k1, v1) # mput k v m)"

definition mdel :: "string \<Rightarrow> (string \<times> 'v) list \<Rightarrow> (string \<times> 'v) list" where
  "mdel k m = filter (\<lambda>e. fst e \<noteq> k) m"

text \<open>Reading a key that is absent gives null.\<close>

definition mget :: "vmap \<Rightarrow> string \<Rightarrow> value" where
  "mget m k = (case map_of m k of None \<Rightarrow> VNull | Some v \<Rightarrow> v)"

fun cloneOverrideValue :: "value \<Rightarrow> value" where
  "cloneOverrideValue (VMap m) = VMap (map (\<lambda>e. (fst e, cloneOverrideValue (snd e))) m)"
| "cloneOverrideValue (VArray vs) = VArray (map cloneOverrideValue vs)"
| "cloneOverrideValue v = v"

lemma cloneOverrideValue_id [simp]: "cloneOverrideValue v = v"
  by (induction v rule: cloneOverrideValue.induct) (simp_all add: map_idI)

section \<open>Classification\<close>

fun overrideNumber :: "value \<Rightarrow> (float64 \<times> bool) option" where
  "overrideNumber (VInt n) = Some (float_of_int n, True)"
| "overrideNumber (VFloat x) = Some (x, False)"
| "overrideNumber _ = None"

fun overrideTruthy :: "value \<Rightarrow> bool" where
  "overrideTruthy VNull = False"
| "overrideTruthy (VBool b) = b"
| "overrideTruthy _ = True"

fun overrideType :: "value \<Rightarrow> string" where
  "overrideType VNull = ''!!null''"
| "overrideType (VBool _) = ''!!bool''"
| "overrideType (VString _) = ''!!str''"
| "overrideType (VArray _) = ''!!seq''"
| "overrideType (VMap _) = ''!!map''"
| "overrideType (VFloat _) = ''!!float''"
| "overrideType (VInt _) = ''!!int''"
| "overrideType (VOther t _) = t"
| "overrideType VNoMatch = ''provider.overrideNoMatch''"

fun isOverrideScalar :: "value \<Rightarrow> bool" where
  "isOverrideScalar VNull = True"
| "isOverrideScalar (VBool _) = True"
| "isOverrideScalar (VString _) = True"
| "isOverrideScalar (VInt _) = True"
| "isOverrideScalar (VFloat _) = True"
| "isOverrideScalar _ = False"

definition isOverrideNoMatch :: "value \<Rightarrow> bool" where
  "isOverrideNoMatch v = (v = VNoMatch)"

definition FormatInt :: "int \<Rightarrow> string" where
  "FormatInt n = (if n < 0 then CHR ''-'' # FormatUint (- n) else FormatUint n)"

text \<open>\<open>fmt.Sprint\<close> of the values it is applied to.\<close>

fun Sprint :: "value \<Rightarrow> string" where
  "Sprint VNull = ''<nil>''"
| "Sprint (VBool b) = (if b then ''true'' else ''false'')"
| "Sprint (VInt n) = FormatInt n"
| "Sprint (VFloat x) = FormatFloat x"
| "Sprint (VString s) = s"
| "Sprint (VOther t s) = s"
| "Sprint VNoMatch = ''{}''"
| "Sprint (VArray _) = []"
| "Sprint (VMap _) = []"

section \<open>Equality and containment\<close>

fun deepEqual :: "value \<Rightarrow> value \<Rightarrow> bool"
  and deepEqualList :: "value list \<Rightarrow> value list \<Rightarrow> bool"
  and deepEqualMap :: "vmap \<Rightarrow> vmap \<Rightarrow> bool" where
  "deepEqual (VFloat x) (VFloat y) = feq x y"
| "deepEqual (VArray xs) (VArray ys) = deepEqualList xs ys"
| "deepEqual (VMap m) (VMap n) = deepEqualMap m n"
| "deepEqual v w = (v = w)"
| "deepEqualList [] [] = True"
| "deepEqualList (x # xs) (y # ys) = (deepEqual x y \<and> deepEqualList xs ys)"
| "deepEqualList _ _ = False"
| "deepEqualMap [] [] = True"
| "deepEqualMap ((k, x) # m) ((l, y) # n) = (k = l \<and> deepEqual x y \<and> deepEqualMap m n)"
| "deepEqualMap _ _ = False"

definition overrideEqual :: "value \<Rightarrow> value \<Rightarrow> bool" where
  "overrideEqual left right = (case overrideNumber left of
     Some (x, i) \<Rightarrow> (case overrideNumber right of Some (y, j) \<Rightarrow> i = j \<and> feq x y | None \<Rightarrow> False)
   | None \<Rightarrow> deepEqual left right)"

definition overrideYQEqual :: "value \<Rightarrow> value \<Rightarrow> bool" where
  "overrideYQEqual left right =
     (if \<not> isOverrideScalar left \<or> \<not> isOverrideScalar right then False
      else if left = VNull \<or> right = VNull then left = VNull \<and> right = VNull
      else case (overrideNumber left, overrideNumber right) of
        (Some (x, i), Some (y, j)) \<Rightarrow> i = j \<and> feq x y
      | _ \<Rightarrow> Sprint left = Sprint right)"

fun overrideContains :: "value \<Rightarrow> value \<Rightarrow> bool" where
  "overrideContains (VString s) inner = (case inner of VString t \<Rightarrow> Contains s t | _ \<Rightarrow> False)"
| "overrideContains (VArray cs) inner =
     list_all (\<lambda>wanted. list_ex (\<lambda>candidate. overrideEqual candidate wanted \<or> overrideContains candidate wanted) cs)
       (case inner of VArray ws \<Rightarrow> ws | _ \<Rightarrow> [inner])"
| "overrideContains (VMap m) inner = (case inner of
     VMap ws \<Rightarrow>
       list_all (\<lambda>(key, wanted). list_ex (\<lambda>(k, candidate). k = key \<and> (overrideEqual candidate wanted \<or> overrideContains candidate wanted)) m) ws
   | _ \<Rightarrow> False)"
| "overrideContains _ _ = False"

section \<open>Order\<close>

definition compareOverrideValues :: "value \<Rightarrow> value \<Rightarrow> int result" where
  "compareOverrideValues left right = (case overrideNumber left of
     Some (x, _) \<Rightarrow> (case overrideNumber right of
       None \<Rightarrow> Inl (''cannot compare number and '' @ overrideType right)
     | Some (y, _) \<Rightarrow> Inr (if fless x y then - 1 else if fless y x then 1 else 0))
   | None \<Rightarrow> (case (left, right) of
       (VString s, VString t) \<Rightarrow> Inr (if s < t then - 1 else if t < s then 1 else 0)
     | _ \<Rightarrow> Inl (''cannot compare '' @ overrideType left @ '' and '' @ overrideType right)))"

fun sortRank :: "value \<Rightarrow> int" where
  "sortRank VNull = 0"
| "sortRank (VBool _) = 1"
| "sortRank (VInt _) = 2"
| "sortRank (VFloat _) = 2"
| "sortRank (VString _) = 3"
| "sortRank _ = 4"

definition compareOverrideSortValues :: "value \<Rightarrow> value \<Rightarrow> int result" where
  "compareOverrideSortValues left right =
     (if sortRank left \<noteq> sortRank right then Inr (if sortRank left < sortRank right then - 1 else 1)
      else case left of
        VNull \<Rightarrow> Inr 0
      | VBool b \<Rightarrow> Inr (if left = right then 0 else if \<not> b then - 1 else 1)
      | VInt _ \<Rightarrow> compareOverrideValues left right
      | VFloat _ \<Rightarrow> compareOverrideValues left right
      | VString _ \<Rightarrow> compareOverrideValues left right
      | _ \<Rightarrow> Inl ''sort only supports scalar array values in override-expr'')"

text \<open>
  The stable sort moves each element left past the larger ones; the sorted part is kept with its
  largest element first. The order of equal elements and the presence of an error do not depend on the
  algorithm; where a NaN compares with nothing, the result for more than 20 elements does.
\<close>

fun sinkLeft :: "value \<Rightarrow> value list \<Rightarrow> value list result" where
  "sinkLeft x [] = Inr [x]"
| "sinkLeft x (y # ys) = (case compareOverrideSortValues x y of
     Inl e \<Rightarrow> Inl e
   | Inr c \<Rightarrow> if c < 0 then (case sinkLeft x ys of Inl e \<Rightarrow> Inl e | Inr zs \<Rightarrow> Inr (y # zs)) else Inr (x # y # ys))"

fun sortOverrideArray :: "value list \<Rightarrow> value list \<Rightarrow> value list result" where
  "sortOverrideArray [] prev = Inr (rev prev)"
| "sortOverrideArray (x # xs) prev = (case sinkLeft x prev of Inl e \<Rightarrow> Inl e | Inr s \<Rightarrow> sortOverrideArray xs s)"

section \<open>Merging and flattening\<close>

fun mergeOverrideMaps :: "vmap \<Rightarrow> vmap \<Rightarrow> vmap" where
  "mergeOverrideMaps left [] = left"
| "mergeOverrideMaps left ((key, rightValue) # right) =
     mergeOverrideMaps
       (mput key (case mget left key of
            VMap leftMap \<Rightarrow> (case rightValue of VMap rightMap \<Rightarrow> VMap (mergeOverrideMaps leftMap rightMap) | _ \<Rightarrow> cloneOverrideValue rightValue)
          | _ \<Rightarrow> cloneOverrideValue rightValue) left) right"

fun flattenOverrideArray :: "value list \<Rightarrow> int \<Rightarrow> value list" where
  "flattenOverrideArray [] depth = []"
| "flattenOverrideArray (VArray children # values) depth =
     (if depth = 0 then cloneOverrideValue (VArray children) # flattenOverrideArray values depth
      else flattenOverrideArray children (if depth > 0 then depth - 1 else depth) @ flattenOverrideArray values depth)"
| "flattenOverrideArray (v # values) depth = cloneOverrideValue v # flattenOverrideArray values depth"

section \<open>Binary operators\<close>

definition wrap_int :: "int \<Rightarrow> int" where
  "wrap_int n = sint (word_of_int n :: 64 word)"

text \<open>The remainder has the sign of the dividend.\<close>

definition go_rem :: "int \<Rightarrow> int \<Rightarrow> int" where
  "go_rem a b = sgn a * (abs a mod abs b)"

definition evaluateOverrideNumbers :: "string \<Rightarrow> value \<Rightarrow> value \<Rightarrow> value result" where
  "evaluateOverrideNumbers operator left right = (case (overrideNumber left, overrideNumber right) of
     (Some (x, i), Some (y, j)) \<Rightarrow>
       (let ints = (i \<and> j); a = int_of_float x; b = int_of_float y in
        if operator = ''+'' then Inr (if ints then VInt (wrap_int (a + b)) else VFloat (fadd x y))
        else if operator = ''-'' then Inr (if ints then VInt (wrap_int (a - b)) else VFloat (fsub x y))
        else if operator = ''*'' then Inr (if ints then VInt (wrap_int (a * b)) else VFloat (fmul x y))
        else if operator = ''/'' then Inr (VFloat (fdiv x y))
        else if operator = ''%'' then
          (if ints then (if feq y (float_of_int 0) then Inl ''cannot modulo by zero'' else Inr (VInt (go_rem a b)))
           else Inr (VFloat (fmod x y)))
        else Inl ''unsupported numeric operator'')
   | _ \<Rightarrow> Inl (''operator '' @ operator @ '' cannot be used with '' @ overrideType left @ '' and '' @ overrideType right))"

text \<open>\<open>strings.Split\<close> with any separator; an empty one splits behind every rune.\<close>

function splitOn :: "string \<Rightarrow> string \<Rightarrow> string \<Rightarrow> string list" where
  "splitOn [] sep acc = [rev acc]"
| "splitOn (c # s) sep acc =
     (if sep \<noteq> [] \<and> HasPrefix (c # s) sep then rev acc # splitOn (drop (length sep) (c # s)) sep []
      else splitOn s sep (c # acc))"
  by pat_completeness auto
termination by (relation "measure (\<lambda>(s, sep, acc). length s)") auto

function explode :: "string \<Rightarrow> string list" where
  "explode [] = []"
| "explode (c # s) =
     (let n = max 1 (snd (decodeRune (of_char c) (map of_char s)))
      in take n (c # s) # explode (drop n (c # s)))"
  by pat_completeness auto
termination by (relation "measure length") auto

definition SplitString :: "string \<Rightarrow> string \<Rightarrow> string list" where
  "SplitString s sep = (if sep = [] then explode s else splitOn s sep [])"

definition repeatString :: "string \<Rightarrow> value \<Rightarrow> value result" where
  "repeatString s v = (case overrideNumber v of
     Some (count, True) \<Rightarrow>
       (if fless count (float_of_int 0) then Inl ''string multiplier must be a non-negative integer''
        else if fless (float_of_int 10000000) count then Inl ''string multiplier cannot exceed 10 million''
        else Inr (VString (concat (replicate (nat (int_of_float count)) s))))
   | _ \<Rightarrow> Inl ''string multiplier must be a non-negative integer'')"

definition addOverride :: "value \<Rightarrow> value \<Rightarrow> value result" where
  "addOverride left right = (case left of
     VNull \<Rightarrow> Inr (cloneOverrideValue right)
   | VString s \<Rightarrow>
       (if right = VNull then Inr (VString s)
        else if \<not> isOverrideScalar right then Inl (''cannot add string and '' @ overrideType right)
        else Inr (VString (s @ Sprint right)))
   | VArray xs \<Rightarrow> (case right of
       VNull \<Rightarrow> Inr (VArray xs)
     | VArray ys \<Rightarrow> Inr (VArray (xs @ map cloneOverrideValue ys))
     | _ \<Rightarrow> Inr (VArray (xs @ [cloneOverrideValue right])))
   | VMap m \<Rightarrow> (case right of
       VMap n \<Rightarrow> Inr (VMap (fold (\<lambda>(k, v). mput k (cloneOverrideValue v)) n m))
     | _ \<Rightarrow> Inl (''cannot add mapping and '' @ overrideType right))
   | _ \<Rightarrow> (case right of
       VString t \<Rightarrow> if isOverrideScalar left then Inr (VString (Sprint left @ t)) else evaluateOverrideNumbers ''+'' left right
     | _ \<Rightarrow> evaluateOverrideNumbers ''+'' left right))"

definition subOverride :: "value \<Rightarrow> value \<Rightarrow> value result" where
  "subOverride left right = (case left of
     VNull \<Rightarrow> Inr (cloneOverrideValue right)
   | VArray xs \<Rightarrow> (case right of
       VArray ys \<Rightarrow> Inr (VArray (filter (\<lambda>x. \<not> list_ex (overrideEqual x) ys) xs))
     | _ \<Rightarrow> Inl (overrideType right @ '' cannot be subtracted from !!seq''))
   | _ \<Rightarrow> evaluateOverrideNumbers ''-'' left right)"

definition mulOverride :: "value \<Rightarrow> value \<Rightarrow> value result" where
  "mulOverride left right =
     (if right = VNull then Inr (cloneOverrideValue left)
      else case (left, right) of
        (VNull, VArray ys) \<Rightarrow> Inr (cloneOverrideValue right)
      | (VNull, VMap n) \<Rightarrow> Inr (cloneOverrideValue right)
      | (VMap m, VMap n) \<Rightarrow> Inr (VMap (mergeOverrideMaps m n))
      | (VMap m, _) \<Rightarrow> Inl (''cannot multiply mapping and '' @ overrideType right)
      | (VArray xs, VArray ys) \<Rightarrow> Inr (cloneOverrideValue right)
      | (VString s, _) \<Rightarrow> repeatString s right
      | (_, VString t) \<Rightarrow> repeatString t left
      | _ \<Rightarrow> evaluateOverrideNumbers ''*'' left right)"

definition divOverride :: "value \<Rightarrow> value \<Rightarrow> value result" where
  "divOverride left right = (case left of
     VString s \<Rightarrow> (case right of
       VString sep \<Rightarrow> Inr (VArray (if s = [] then [] else map VString (SplitString s sep)))
     | _ \<Rightarrow> Inl (''operator / cannot be used with !!str and '' @ overrideType right))
   | _ \<Rightarrow> evaluateOverrideNumbers ''/'' left right)"

definition orderOverride :: "string \<Rightarrow> value \<Rightarrow> value \<Rightarrow> value result" where
  "orderOverride operator left right =
     (if \<not> isOverrideScalar left \<or> \<not> isOverrideScalar right
      then Inl (''cannot compare '' @ overrideType left @ '' and '' @ overrideType right)
      else if left = VNull \<or> right = VNull
      then Inr (VBool (left = VNull \<and> right = VNull \<and> (operator = ''<='' \<or> operator = ''>='')))
      else case compareOverrideValues left right of
        Inl e \<Rightarrow> Inl e
      | Inr c \<Rightarrow> Inr (VBool (if operator = ''<'' then c < 0 else if operator = ''<='' then c \<le> 0
          else if operator = ''>'' then c > 0 else c \<ge> 0)))"

definition evaluateOverrideBinary :: "string \<Rightarrow> value \<Rightarrow> value \<Rightarrow> value result" where
  "evaluateOverrideBinary operator left right =
     (if operator = ''and'' then Inr (VBool (overrideTruthy left \<and> overrideTruthy right))
      else if operator = ''or'' then Inr (VBool (overrideTruthy left \<or> overrideTruthy right))
      else if operator = ''//'' then Inr (if overrideTruthy left then left else right)
      else if operator = ''=='' then Inr (VBool (overrideYQEqual left right))
      else if operator = ''!='' then Inr (VBool (\<not> overrideYQEqual left right))
      else if operator \<in> {''<'', ''<='', ''>'', ''>=''} then orderOverride operator left right
      else if operator = ''+'' then addOverride left right
      else if operator = ''-'' then subOverride left right
      else if operator = ''*'' then mulOverride left right
      else if operator = ''/'' then divOverride left right
      else if operator = ''%'' then evaluateOverrideNumbers operator left right
      else Inl ''unsupported operator'')"

end
