(* ===== verification/OverrideLex.thy ===== *)
theory OverrideLex
  imports OverrideValue
begin

text \<open>
  The lexer of override expressions (\<open>lexOverrideExpr\<close> in src/adapter/provider/override_expr.go). It
  works on the bytes of the source; a byte is classified as the Latin-1 character with its number.
\<close>

section \<open>Tokens\<close>

datatype overrideTokenKind =
    overrideTokenEOF | overrideTokenDot | overrideTokenIdentifier | overrideTokenString | overrideTokenNumber
  | overrideTokenLeftParen | overrideTokenRightParen | overrideTokenLeftBracket | overrideTokenRightBracket
  | overrideTokenLeftBrace | overrideTokenRightBrace | overrideTokenComma | overrideTokenSemicolon
  | overrideTokenColon | overrideTokenPipe | overrideTokenAssign | overrideTokenUpdateAssign
  | overrideTokenAddAssign | overrideTokenSubtractAssign | overrideTokenMultiplyAssign | overrideTokenPlus
  | overrideTokenMinus | overrideTokenMultiply | overrideTokenDivide | overrideTokenModulo
  | overrideTokenAlternative | overrideTokenEqual | overrideTokenNotEqual | overrideTokenLess
  | overrideTokenLessEqual | overrideTokenGreater | overrideTokenGreaterEqual

record overrideToken =
  tk_kind :: overrideTokenKind
  tk_text :: string
  tk_pos :: int

definition mkToken :: "overrideTokenKind \<Rightarrow> string \<Rightarrow> int \<Rightarrow> overrideToken" where
  "mkToken kind text pos = \<lparr>tk_kind = kind, tk_text = text, tk_pos = pos\<rparr>"

section \<open>Characters\<close>

definition code :: "char \<Rightarrow> int" where
  "code c = of_char c"

definition unicode_IsSpace :: "char \<Rightarrow> bool" where
  "unicode_IsSpace c = (9 \<le> code c \<and> code c \<le> 13 \<or> code c = 32 \<or> code c = 133 \<or> code c = 160)"

definition unicode_IsLetter :: "char \<Rightarrow> bool" where
  "unicode_IsLetter c =
     (let n = code c
      in 65 \<le> n \<and> n \<le> 90 \<or> 97 \<le> n \<and> n \<le> 122 \<or> n = 170 \<or> n = 181 \<or> n = 186
         \<or> 192 \<le> n \<and> n \<le> 214 \<or> 216 \<le> n \<and> n \<le> 246 \<or> 248 \<le> n)"

definition is_digit :: "char \<Rightarrow> bool" where
  "is_digit c = (48 \<le> code c \<and> code c \<le> 57)"

definition isOverrideIdentifierStart :: "char \<Rightarrow> bool" where
  "isOverrideIdentifierStart c = (c = CHR ''_'' \<or> unicode_IsLetter c)"

definition isOverrideIdentifierPart :: "char \<Rightarrow> bool" where
  "isOverrideIdentifierPart c = (c = CHR ''_'' \<or> c = CHR ''-'' \<or> unicode_IsLetter c \<or> is_digit c)"

definition backslash :: char where
  "backslash = CHR 0x5C"

definition quote :: char where
  "quote = CHR 0x22"

section \<open>Strings and numbers\<close>

text \<open>The text up to the closing quote, escapes included.\<close>

fun scanOverrideString :: "string \<Rightarrow> string option" where
  "scanOverrideString [] = None"
| "scanOverrideString (c # s) =
     (if c = backslash then (case s of [] \<Rightarrow> None | d # r \<Rightarrow> map_option (\<lambda>t. c # d # t) (scanOverrideString r))
      else if c = quote then Some []
      else map_option (\<lambda>t. c # t) (scanOverrideString s))"

fun decodeOverrideString :: "string \<Rightarrow> int \<Rightarrow> string result" where
  "decodeOverrideString [] column = Inr []"
| "decodeOverrideString (c # s) column =
     (if c \<noteq> backslash then map_sum id (\<lambda>t. c # t) (decodeOverrideString s (column + 1))
      else case s of
        [] \<Rightarrow> Inl (''invalid string escape at column '' @ FormatUint column)
      | d # r \<Rightarrow>
          map_sum id (\<lambda>t. (if d = quote then [quote] else if d = CHR ''n'' then [CHR 0x0A] else if d = backslash then [backslash] else [backslash, d]) @ t)
            (decodeOverrideString r (column + 2)))"

text \<open>The length of a number at the start of a text.\<close>

definition scanOverrideNumber :: "string \<Rightarrow> nat" where
  "scanOverrideNumber s =
     (if length s \<ge> 2 \<and> hd s = CHR ''0'' \<and> (s ! 1 = CHR ''x'' \<or> s ! 1 = CHR ''X'')
      then 2 + length (takeWhile (\<lambda>c. hex_digit c \<noteq> None) (drop 2 s))
      else
        let a = length (takeWhile is_digit s);
            b = (if a < length s \<and> s ! a = CHR ''.'' then a + 1 + length (takeWhile is_digit (drop (a + 1) s)) else a)
        in if b < length s \<and> (s ! b = CHR ''e'' \<or> s ! b = CHR ''E'')
           then (let c = (if b + 1 < length s \<and> (s ! (b + 1) = CHR ''+'' \<or> s ! (b + 1) = CHR ''-'') then b + 2 else b + 1)
                 in c + length (takeWhile is_digit (drop c s)))
           else b)"

section \<open>The lexer\<close>

text \<open>The tokens that a second character may extend.\<close>

definition orNext :: "char \<Rightarrow> overrideTokenKind \<Rightarrow> overrideTokenKind \<Rightarrow> string \<Rightarrow> overrideTokenKind \<times> nat" where
  "orNext second long short s = (if length s > 1 \<and> s ! 1 = second then (long, 2) else (short, 1))"

definition lexSymbol :: "string \<Rightarrow> (overrideTokenKind \<times> nat) option" where
  "lexSymbol s =
     (let c = hd s; e = CHR ''='' in
      if c = CHR ''.'' then Some (overrideTokenDot, 1)
      else if c = CHR ''('' then Some (overrideTokenLeftParen, 1)
      else if c = CHR '')'' then Some (overrideTokenRightParen, 1)
      else if c = CHR ''['' then Some (overrideTokenLeftBracket, 1)
      else if c = CHR '']'' then Some (overrideTokenRightBracket, 1)
      else if c = CHR ''{'' then Some (overrideTokenLeftBrace, 1)
      else if c = CHR ''}'' then Some (overrideTokenRightBrace, 1)
      else if c = CHR '','' then Some (overrideTokenComma, 1)
      else if c = CHR '';'' then Some (overrideTokenSemicolon, 1)
      else if c = CHR '':'' then Some (overrideTokenColon, 1)
      else if c = CHR ''|'' then Some (orNext e overrideTokenUpdateAssign overrideTokenPipe s)
      else if c = CHR ''+'' then Some (orNext e overrideTokenAddAssign overrideTokenPlus s)
      else if c = CHR ''-'' then Some (orNext e overrideTokenSubtractAssign overrideTokenMinus s)
      else if c = CHR ''*'' then Some (orNext e overrideTokenMultiplyAssign overrideTokenMultiply s)
      else if c = CHR ''/'' then Some (orNext (CHR ''/'') overrideTokenAlternative overrideTokenDivide s)
      else if c = CHR ''%'' then Some (overrideTokenModulo, 1)
      else if c = e then Some (orNext e overrideTokenEqual overrideTokenAssign s)
      else if c = CHR ''!'' then (if length s > 1 \<and> s ! 1 = e then Some (overrideTokenNotEqual, 2) else None)
      else if c = CHR ''<'' then Some (orNext e overrideTokenLessEqual overrideTokenLess s)
      else if c = CHR ''>'' then Some (orNext e overrideTokenGreaterEqual overrideTokenGreater s)
      else if c = CHR ''~'' then Some (overrideTokenIdentifier, 1)
      else None)"

text \<open>One token at the start of a text that is not empty, with the number of bytes it takes.\<close>

definition lexToken :: "int \<Rightarrow> string \<Rightarrow> (overrideToken \<times> nat) result" where
  "lexToken pos s = (case lexSymbol s of
     Some (kind, width) \<Rightarrow> Inr (mkToken kind (take width s) pos, width)
   | None \<Rightarrow>
       if hd s = quote then
         (case scanOverrideString (tl s) of
            None \<Rightarrow> Inl (''unterminated string at column '' @ FormatUint (pos + 1))
          | Some t \<Rightarrow> Inr (mkToken overrideTokenString t pos, length t + 2))
       else if is_digit (hd s) then
         (let n = scanOverrideNumber s in Inr (mkToken overrideTokenNumber (take n s) pos, n))
       else if isOverrideIdentifierStart (hd s) then
         (let n = 1 + length (takeWhile isOverrideIdentifierPart (tl s)) in Inr (mkToken overrideTokenIdentifier (take n s) pos, n))
       else Inl (''unexpected character at column '' @ FormatUint (pos + 1)))"

lemma scanOverrideNumber_pos: "s \<noteq> [] \<Longrightarrow> is_digit (hd s) \<Longrightarrow> 0 < scanOverrideNumber s"
  by (cases s) (auto simp: scanOverrideNumber_def Let_def)

lemma lexSymbol_pos: "lexSymbol s = Some (k, n) \<Longrightarrow> 0 < n"
  unfolding lexSymbol_def Let_def by (auto simp: orNext_def split: if_splits)

lemma lexToken_pos: "s \<noteq> [] \<Longrightarrow> lexToken pos s = Inr (t, n) \<Longrightarrow> 0 < n"
  by (auto simp: lexToken_def Let_def scanOverrideNumber_pos dest: lexSymbol_pos split: option.splits if_splits)

function lexLoop :: "int \<Rightarrow> string \<Rightarrow> overrideToken list result" where
  "lexLoop pos s =
     (if s = [] then Inr []
      else if unicode_IsSpace (hd s) then lexLoop (pos + 1) (tl s)
      else if hd s = CHR ''#'' then Inr []
      else case lexToken pos s of
        Inl e \<Rightarrow> Inl e
      | Inr (t, n) \<Rightarrow> map_sum id (\<lambda>ts. t # ts) (lexLoop (pos + int n) (drop n s)))"
  by pat_completeness auto
termination
  by (relation "measure (\<lambda>(pos, s). length s)") (auto intro!: diff_less dest: lexToken_pos)

declare lexLoop.simps [simp del]

definition lexOverrideExpr :: "string \<Rightarrow> overrideToken list result" where
  "lexOverrideExpr source =
     map_sum id (\<lambda>ts. ts @ [mkToken overrideTokenEOF [] (int (length source))]) (lexLoop 0 source)"

end
