(* ===== verification/OverrideExpr.thy ===== *)
theory OverrideExpr
  imports OverrideLex
begin

text \<open>
  Override expressions and their evaluation (src/adapter/provider/override_expr.go): paths, values, the
  functions, and the statements that update the mapping of a proxy.

  The model gives every value its own copy. The code shares values in two places: what a right side of
  \<open>|=\<close> selects is stored without a copy, so that an array or mapping built from it twice is shared by
  later statements; and the value of a compound assignment is read while a wildcard target is being
  updated, so that a target that contains that value may see its own update. Both differ from the model
  only for such expressions. Mappings are visited in the order of their keys; the code visits them in
  an arbitrary order where it updates or deletes, which matters only for which of several errors is
  reported. Regular expressions, the YAML encoder and the case tables outside ASCII are arguments.
\<close>

section \<open>Errors as values\<close>

definition ebind :: "'a result \<Rightarrow> ('a \<Rightarrow> 'b result) \<Rightarrow> 'b result" where
  "ebind m f = (case m of Inl e \<Rightarrow> Inl e | Inr x \<Rightarrow> f x)"

fun mapE :: "('a \<Rightarrow> 'b result) \<Rightarrow> 'a list \<Rightarrow> 'b list result" where
  "mapE f [] = Inr []"
| "mapE f (x # xs) = ebind (f x) (\<lambda>y. ebind (mapE f xs) (\<lambda>ys. Inr (y # ys)))"

definition concatE :: "('a \<Rightarrow> 'b list result) \<Rightarrow> 'a list \<Rightarrow> 'b list result" where
  "concatE f xs = ebind (mapE f xs) (\<lambda>ys. Inr (concat ys))"

fun foldE :: "('a \<Rightarrow> 's \<Rightarrow> 's result) \<Rightarrow> 'a list \<Rightarrow> 's \<Rightarrow> 's result" where
  "foldE f [] s = Inr s"
| "foldE f (x # xs) s = ebind (f x s) (foldE f xs)"

lemma ebind_simps [simp]: "ebind (Inr x) f = f x" "ebind (Inl e) f = Inl e"
  by (simp_all add: ebind_def)

lemma ebind_eq_Inr: "ebind m f = Inr y \<longleftrightarrow> (\<exists>x. m = Inr x \<and> f x = Inr y)"
  by (cases m) simp_all

lemma ebind_cong [fundef_cong]: "m = n \<Longrightarrow> (\<And>x. n = Inr x \<Longrightarrow> f x = g x) \<Longrightarrow> ebind m f = ebind n g"
  by (cases n) simp_all

lemma mapE_cong [fundef_cong]: "xs = ys \<Longrightarrow> (\<And>x. x \<in> set ys \<Longrightarrow> f x = g x) \<Longrightarrow> mapE f xs = mapE g ys"
proof (induction ys arbitrary: xs)
  case (Cons y ys)
  then show ?case by (auto intro!: ebind_cong)
qed simp

lemma concatE_cong [fundef_cong]: "xs = ys \<Longrightarrow> (\<And>x. x \<in> set ys \<Longrightarrow> f x = g x) \<Longrightarrow> concatE f xs = concatE g ys"
  unfolding concatE_def by (simp cong: mapE_cong)

lemma foldE_cong [fundef_cong]:
  "xs = ys \<Longrightarrow> s = t \<Longrightarrow> (\<And>x u. x \<in> set ys \<Longrightarrow> f x u = g x u) \<Longrightarrow> foldE f xs s = foldE g ys t"
proof (induction ys arbitrary: xs s t)
  case (Cons y ys)
  then show ?case by (auto intro!: ebind_cong)
qed simp

section \<open>Paths\<close>

datatype overridePathSegment = overridePathField string | overridePathIndex int | overridePathWildcard

type_synonym overridePath = "overridePathSegment list"

definition realIndex :: "int \<Rightarrow> 'a list \<Rightarrow> int" where
  "realIndex i xs = (if i < 0 then i + int (length xs) else i)"

fun lookupOverridePathStream :: "value \<Rightarrow> overridePath \<Rightarrow> value list" where
  "lookupOverridePathStream v [] = [v]"
| "lookupOverridePathStream v (overridePathField key # path) = (case v of
     VMap m \<Rightarrow> lookupOverridePathStream (mget m key) path
   | _ \<Rightarrow> [VNull])"
| "lookupOverridePathStream v (overridePathIndex index # path) = (case v of
     VArray xs \<Rightarrow>
       (let i = realIndex index xs
        in if i < 0 \<or> i \<ge> int (length xs) then [VNull] else lookupOverridePathStream (xs ! nat i) path)
   | _ \<Rightarrow> [VNull])"
| "lookupOverridePathStream v (overridePathWildcard # path) = (case v of
     VArray xs \<Rightarrow> concat (map (\<lambda>x. lookupOverridePathStream x path) xs)
   | VMap m \<Rightarrow> concat (map (\<lambda>e. lookupOverridePathStream (snd e) path) m)
   | _ \<Rightarrow> [])"

definition extendNull :: "value list \<Rightarrow> nat \<Rightarrow> value list" where
  "extendNull xs i = xs @ replicate (i + 1 - length xs) VNull"

fun updateOverridePath :: "value \<Rightarrow> overridePath \<Rightarrow> (value \<Rightarrow> value result) \<Rightarrow> value result" where
  "updateOverridePath node [] updater = updater node"
| "updateOverridePath node (overridePathField key # path) updater =
     (case (if node = VNull then VMap [] else node) of
        VMap m \<Rightarrow> ebind (updateOverridePath (mget m key) path updater) (\<lambda>v. Inr (VMap (mput key v m)))
      | other \<Rightarrow> Inr other)"
| "updateOverridePath node (overridePathIndex index # path) updater =
     (case (if node = VNull then VArray [] else node) of
        VArray xs \<Rightarrow>
          (let i = realIndex index xs
           in if i < 0 then Inl (''array index '' @ FormatInt index @ '' is out of range'')
              else let ys = extendNull xs (nat i)
                   in ebind (updateOverridePath (ys ! nat i) path updater) (\<lambda>v. Inr (VArray (ys[nat i := v]))))
      | other \<Rightarrow> Inr other)"
| "updateOverridePath node (overridePathWildcard # path) updater = (case node of
     VArray xs \<Rightarrow> ebind (mapE (\<lambda>x. updateOverridePath x path updater) xs) (\<lambda>ys. Inr (VArray ys))
   | VMap m \<Rightarrow> ebind (mapE (\<lambda>e. ebind (updateOverridePath (snd e) path updater) (\<lambda>v. Inr (fst e, v))) m) (\<lambda>n. Inr (VMap n))
   | other \<Rightarrow> Inr other)"

lemma updateOverridePath_cong [fundef_cong]:
  "n = n' \<Longrightarrow> p = p' \<Longrightarrow> (\<And>x. f x = g x) \<Longrightarrow> updateOverridePath n p f = updateOverridePath n' p' g"
  by (metis ext)

section \<open>Deletion\<close>

definition atKey :: "string \<Rightarrow> overridePath \<Rightarrow> bool" where
  "atKey key path = (path \<noteq> [] \<and> (hd path = overridePathWildcard \<or> hd path = overridePathField key))"

definition atIndex :: "value list \<Rightarrow> nat \<Rightarrow> overridePath \<Rightarrow> bool" where
  "atIndex xs i path = (path \<noteq> [] \<and> (case hd path of
     overridePathWildcard \<Rightarrow> True | overridePathIndex index \<Rightarrow> realIndex index xs = int i | _ \<Rightarrow> False))"

definition deleteHere :: "overridePath list \<Rightarrow> bool" where
  "deleteHere paths = list_ex (\<lambda>p. length p = 1) paths"

lemma enumerate_size [termination_simp]: "(i, x) \<in> set (enumerate n xs) \<Longrightarrow> size x < Suc (size_list size xs)"
proof (induction xs arbitrary: n)
  case (Cons y xs)
  then show ?case by (fastforce simp: less_Suc_eq)
qed simp

lemma entries_size [termination_simp]: "(k, x) \<in> set m \<Longrightarrow> size x < Suc (size_list (size_prod (\<lambda>_. 0) size) m)"
  by (induction m) auto

text \<open>The paths that lead to a child, of which those of length one remove it.\<close>

fun deleteOverridePaths :: "value \<Rightarrow> overridePath list \<Rightarrow> value" where
  "deleteOverridePaths (VMap m) paths =
     VMap (concat (map (\<lambda>(key, child).
       let here = filter (atKey key) paths
       in if deleteHere here then [] else if here = [] then [(key, child)]
          else [(key, deleteOverridePaths child (map tl here))]) m))"
| "deleteOverridePaths (VArray xs) paths =
     VArray (concat (map (\<lambda>(i, child).
       let here = filter (atIndex xs i) paths
       in if deleteHere here then [] else if here = [] then [child]
          else [deleteOverridePaths child (map tl here)]) (enumerate 0 xs)))"
| "deleteOverridePaths v paths = v"

section \<open>Expressions\<close>

datatype overrideValueExpr =
    overridePipelineExpr "overrideValueExpr list"
  | overrideUnionExpr "overrideValueExpr list"
  | overrideLiteralExpr "value"
  | overrideStringExpr "overrideStringPart list"
  | overridePathExpr overridePath
  | overrideArrayExpr "overrideValueExpr list"
  | overrideMapExpr "overrideMapEntry list"
  | overrideValueUpdateExpr overridePath overrideTokenKind overrideValueExpr
  | overrideBinaryExpr string overrideValueExpr overrideValueExpr
  | overrideFunctionExpr string "overrideValueExpr list"
  | overrideStreamFunctionExpr string "overrideValueExpr list"
and overrideStringPart = PartLiteral string | PartExpression overrideValueExpr
and overrideMapEntry = MapEntry string overrideValueExpr

record overrideEnv =
  RegexpCompile :: "string \<Rightarrow> ((string \<Rightarrow> bool) \<times> (string \<Rightarrow> string \<Rightarrow> string)) option"
  YamlMarshal :: "value \<Rightarrow> string result"
  UnicodeUpper :: "string \<Rightarrow> string"
  UnicodeLower :: "string \<Rightarrow> string"
  UnicodeTrim :: "string \<Rightarrow> string"

definition single :: "value list \<Rightarrow> value result" where
  "single vs = (case vs of
     [] \<Rightarrow> Inr VNoMatch
   | [v] \<Rightarrow> Inr v
   | _ \<Rightarrow> Inl (''expression produced '' @ FormatUint (int (length vs)) @ '' results; collect them with [...]''))"

definition stream1 :: "value \<Rightarrow> value list" where
  "stream1 v = (if isOverrideNoMatch v then [] else [v])"

definition marshal :: "overrideEnv \<Rightarrow> value \<Rightarrow> string result" where
  "marshal env v = ebind (YamlMarshal env v) (\<lambda>s.
     Inr (if s \<noteq> [] \<and> last s = CHR 0x0A then butlast s else s))"

text \<open>The text of an interpolated expression: that of its first result.\<close>

definition stringPart :: "overrideEnv \<Rightarrow> value list \<Rightarrow> string result" where
  "stringPart env vs = (case vs of
     [] \<Rightarrow> Inr []
   | v # _ \<Rightarrow> (case v of
       VString s \<Rightarrow> Inr s
     | VNull \<Rightarrow> Inr ''null''
     | _ \<Rightarrow> if isOverrideScalar v then Inr (Sprint v) else marshal env v))"

definition putLast :: "string \<times> value list \<Rightarrow> vmap \<Rightarrow> vmap" where
  "putLast e m = (if snd e = [] then m else mput (fst e) (last (snd e)) m)"

definition isOverrideAssignmentToken :: "overrideTokenKind \<Rightarrow> bool" where
  "isOverrideAssignmentToken kind =
     (kind \<in> {overrideTokenAssign, overrideTokenUpdateAssign, overrideTokenAddAssign, overrideTokenSubtractAssign, overrideTokenMultiplyAssign})"

definition compoundOperator :: "overrideTokenKind \<Rightarrow> string" where
  "compoundOperator kind =
     (if kind = overrideTokenAddAssign then ''+'' else if kind = overrideTokenSubtractAssign then ''-''
      else if kind = overrideTokenMultiplyAssign then ''*'' else [])"

text \<open>All results of a binary expression from those of its sides; the right side is used only when needed.\<close>

definition binaryAll :: "string \<Rightarrow> value list \<Rightarrow> value list result \<Rightarrow> value list result" where
  "binaryAll operator lefts right =
     (if operator = ''//'' then
        (if lefts = [] then right
         else concatE (\<lambda>l. if overrideTruthy l then Inr [l] else right) lefts)
      else
        let isAnd = (operator = ''and''); isOr = (operator = ''or'');
            needsRight = (\<not> isAnd \<and> \<not> isOr \<or> list_ex (\<lambda>l. isAnd \<and> overrideTruthy l \<or> isOr \<and> \<not> overrideTruthy l) lefts)
        in if \<not> needsRight then Inr (map (\<lambda>l. VBool (isOr \<and> overrideTruthy l)) lefts)
           else ebind right (\<lambda>rights.
             concatE (\<lambda>l.
               if isAnd \<and> \<not> overrideTruthy l then Inr [VBool False]
               else if isOr \<and> overrideTruthy l then Inr [VBool True]
               else mapE (evaluateOverrideBinary operator l) rights) lefts))"

section \<open>Functions of the current value\<close>

definition argCount :: "string \<Rightarrow> nat list \<Rightarrow> value list \<Rightarrow> unit result" where
  "argCount name want args = (if length args \<in> set want then Inr () else Inl (name @ '' expects another number of arguments''))"

definition stringArg :: "string \<Rightarrow> value list \<Rightarrow> nat \<Rightarrow> string result" where
  "stringArg name args i = (case args ! i of
     VString s \<Rightarrow> Inr s | _ \<Rightarrow> Inl (name @ '' argument '' @ FormatUint (int i + 1) @ '' must be a string''))"

definition only :: "string \<Rightarrow> string \<Rightarrow> value \<Rightarrow> 'a result" where
  "only name what input = Inl (name @ '' only supports '' @ what @ '', got '' @ overrideType input)"

fun uniqueLoop :: "overrideEnv \<Rightarrow> value list \<Rightarrow> string list \<Rightarrow> value list result" where
  "uniqueLoop env [] seen = Inr []"
| "uniqueLoop env (v # vs) seen =
     ebind (if isOverrideScalar v then Inr (if v = VNull then ''null'' else Sprint v) else YamlMarshal env v) (\<lambda>key.
       if key \<in> set seen then uniqueLoop env vs seen
       else ebind (uniqueLoop env vs (key # seen)) (\<lambda>r. Inr (cloneOverrideValue v # r)))"

definition parseIntBase :: "string \<Rightarrow> int \<Rightarrow> int option" where
  "parseIntBase s base =
     (let neg = (s \<noteq> [] \<and> hd s = CHR ''-''); ds = unsigned_part s;
          n = fold (\<lambda>c acc. case (acc, digit_in base c) of (Some a, Some d) \<Rightarrow> Some (a * base + d) | _ \<Rightarrow> None) ds (Some 0)
      in if ds = [] then None
         else case n of
           None \<Rightarrow> None
         | Some a \<Rightarrow>
             (let v = (if neg then - a else a) in if - (2 ^ 63) \<le> v \<and> v < 2 ^ 63 then Some v else None))"

definition toNumber :: "value \<Rightarrow> value result" where
  "toNumber input = (case input of
     VInt _ \<Rightarrow> Inr input
   | VFloat _ \<Rightarrow> Inr input
   | VString s \<Rightarrow>
       (if HasPrefix s ''0b'' \<or> HasPrefix s ''0B'' then Inl ''cannot convert to number''
        else
          let bt = (if HasPrefix s ''0x'' \<or> HasPrefix s ''0X'' then (16, drop 2 s) else if HasPrefix s ''0o'' then (8, drop 2 s) else (10, s))
          in case parseIntBase (snd bt) (fst bt) of
               Some n \<Rightarrow> Inr (VInt n)
             | None \<Rightarrow> (case ParseFloat s of Some x \<Rightarrow> Inr (VFloat x) | None \<Rightarrow> Inl ''cannot convert to number''))
   | _ \<Rightarrow> Inl ''tonumber requires string or number input'')"

definition arrayFunction :: "overrideEnv \<Rightarrow> string \<Rightarrow> value list \<Rightarrow> value \<Rightarrow> value result" where
  "arrayFunction env name args input =
     (if name = ''flatten'' then
        ebind (argCount name [0, 1] args) (\<lambda>_. case input of
          VArray vs \<Rightarrow>
            (if args = [] then Inr (VArray (flattenOverrideArray vs (- 1)))
             else case overrideNumber (hd args) of
               Some (n, True) \<Rightarrow>
                 (if fless n (float_of_int 0) then Inl ''flatten depth must be a non-negative integer''
                  else Inr (VArray (flattenOverrideArray vs (int_of_float n))))
             | _ \<Rightarrow> Inl ''flatten depth must be a non-negative integer'')
        | _ \<Rightarrow> only name ''arrays'' input)
      else
        ebind (argCount name [0] args) (\<lambda>_. case input of
          VArray vs \<Rightarrow>
            (if name = ''reverse'' then Inr (VArray (rev vs))
             else if name = ''sort'' then ebind (sortOverrideArray vs []) (\<lambda>r. Inr (VArray r))
             else if name = ''unique'' then ebind (uniqueLoop env vs []) (\<lambda>r. Inr (VArray r))
             else if name = ''any'' then Inr (VBool (list_ex overrideTruthy vs))
             else Inr (VBool (list_all overrideTruthy vs)))
        | _ \<Rightarrow> only name ''arrays'' input))"

definition lengthOf :: "value \<Rightarrow> value result" where
  "lengthOf input = (case input of
     VNull \<Rightarrow> Inr (VInt 0)
   | VString s \<Rightarrow> Inr (VInt (int (length s)))
   | VArray vs \<Rightarrow> Inr (VInt (int (length vs)))
   | VMap m \<Rightarrow> Inr (VInt (int (length m)))
   | VInt _ \<Rightarrow> Inr (VInt (int (length (Sprint input))))
   | VFloat _ \<Rightarrow> Inr (VInt (int (length (Sprint input))))
   | VBool _ \<Rightarrow> Inr (VInt (int (length (Sprint input))))
   | _ \<Rightarrow> Inl (''length cannot be used with '' @ overrideType input))"

definition keysOf :: "value \<Rightarrow> value result" where
  "keysOf input = (case input of
     VMap m \<Rightarrow> Inr (VArray (map (\<lambda>e. VString (fst e)) m))
   | VArray vs \<Rightarrow> Inr (VArray (map VInt [0..int (length vs) - 1]))
   | _ \<Rightarrow> Inl (''keys cannot be used with '' @ overrideType input))"

definition hasKey :: "value list \<Rightarrow> value \<Rightarrow> value result" where
  "hasKey args input = (case input of
     VMap m \<Rightarrow> ebind (stringArg ''has'' args 0) (\<lambda>k. Inr (VBool (map_of m k \<noteq> None)))
   | VArray vs \<Rightarrow> (case overrideNumber (args ! 0) of
       Some (n, True) \<Rightarrow> (let i = realIndex (int_of_float n) vs in Inr (VBool (0 \<le> i \<and> i < int (length vs))))
     | _ \<Rightarrow> Inr (VBool False))
   | _ \<Rightarrow> Inr (VBool False))"

definition containsValue :: "value list \<Rightarrow> value \<Rightarrow> value result" where
  "containsValue args input =
     (let arg = args ! 0 in case input of
        VString s \<Rightarrow> ebind (stringArg ''contains'' args 0) (\<lambda>t. Inr (VBool (Contains s t)))
      | VArray vs \<Rightarrow> (case arg of
          VArray _ \<Rightarrow> Inr (VBool (overrideContains input arg))
        | _ \<Rightarrow> Inl (overrideType arg @ '' cannot check contained in !!seq''))
      | VMap m \<Rightarrow> (case arg of
          VMap _ \<Rightarrow> Inr (VBool (overrideContains input arg))
        | _ \<Rightarrow> Inl (overrideType arg @ '' cannot check contained in !!map''))
      | _ \<Rightarrow>
          if \<not> isOverrideScalar arg then Inl (overrideType arg @ '' cannot check contained in '' @ overrideType input)
          else if overrideType input \<noteq> overrideType arg then Inr (VBool False)
          else Inr (VBool (overrideEqual input arg)))"

definition regexpFunction :: "overrideEnv \<Rightarrow> string \<Rightarrow> value list \<Rightarrow> value \<Rightarrow> value result" where
  "regexpFunction env name args input =
     ebind (if name = ''test''
            then ebind (argCount name [1, 2] args) (\<lambda>_.
              if length args = 2
              then ebind (stringArg name args 1) (\<lambda>options. if Trim options ''g'' \<noteq> [] then Inl ''unsupported test options'' else Inr ())
              else Inr ())
            else argCount name [2] args) (\<lambda>_. case input of
       VString s \<Rightarrow>
         ebind (stringArg name args 0) (\<lambda>pattern. case RegexpCompile env pattern of
           None \<Rightarrow> Inl ''invalid regular expression''
         | Some (matches, replace) \<Rightarrow>
             if name = ''test'' then Inr (VBool (matches s))
             else ebind (stringArg name args 1) (\<lambda>replacement. Inr (VString (replace s replacement))))
     | _ \<Rightarrow> Inl (name @ '' requires string input''))"

definition stringTransform :: "overrideEnv \<Rightarrow> string \<Rightarrow> string \<Rightarrow> string" where
  "stringTransform env name s =
     (if name = ''upcase'' then (if ascii s then ToUpper s else UnicodeUpper env s)
      else if name = ''downcase'' then (if ascii s then ToLower s else UnicodeLower env s)
      else (if ascii s then TrimSpace s else UnicodeTrim env s))"

definition joinPart :: "value \<Rightarrow> string" where
  "joinPart v = (case v of VNull \<Rightarrow> [] | VArray _ \<Rightarrow> [] | VMap _ \<Rightarrow> [] | VString s \<Rightarrow> s | _ \<Rightarrow> Sprint v)"

definition stringFunction :: "overrideEnv \<Rightarrow> string \<Rightarrow> value list \<Rightarrow> value \<Rightarrow> value result" where
  "stringFunction env name args input =
     (if name = ''split'' then
        ebind (argCount name [1] args) (\<lambda>_. case input of
          VNull \<Rightarrow> Inr VNoMatch
        | VString s \<Rightarrow> ebind (stringArg name args 0) (\<lambda>sep. Inr (VArray (map VString (SplitString s sep))))
        | _ \<Rightarrow> Inl ''split requires string input'')
      else if name = ''join'' then
        ebind (argCount name [1] args) (\<lambda>_. case input of
          VArray vs \<Rightarrow> ebind (stringArg name args 0) (\<lambda>sep. Inr (VString (Join (map joinPart vs) sep)))
        | _ \<Rightarrow> Inl ''join requires array input'')
      else
        ebind (argCount name [0] args) (\<lambda>_. case input of
          VString s \<Rightarrow> Inr (VString (stringTransform env name s))
        | _ \<Rightarrow> Inl (name @ '' requires string input'')))"

definition applyFunction :: "overrideEnv \<Rightarrow> string \<Rightarrow> value list \<Rightarrow> value \<Rightarrow> value result" where
  "applyFunction env name args input =
     (if name = ''select'' then
        ebind (argCount name [1] args) (\<lambda>_.
          Inr (if isOverrideNoMatch (args ! 0) \<or> \<not> overrideTruthy (args ! 0) then VNoMatch else input))
      else if name = ''not'' then ebind (argCount name [0] args) (\<lambda>_. Inr (VBool (\<not> overrideTruthy input)))
      else if name \<in> {''reverse'', ''sort'', ''unique'', ''flatten'', ''any'', ''all''} then arrayFunction env name args input
      else if name = ''length'' then ebind (argCount name [0] args) (\<lambda>_. lengthOf input)
      else if name = ''type'' then ebind (argCount name [0] args) (\<lambda>_. Inr (VString (overrideType input)))
      else if name = ''keys'' then ebind (argCount name [0] args) (\<lambda>_. keysOf input)
      else if name = ''has'' then ebind (argCount name [1] args) (\<lambda>_. hasKey args input)
      else if name = ''contains'' then ebind (argCount name [1] args) (\<lambda>_. containsValue args input)
      else if name \<in> {''sub'', ''test''} then regexpFunction env name args input
      else if name \<in> {''split'', ''join'', ''upcase'', ''downcase'', ''trim''} then stringFunction env name args input
      else if name = ''tostring'' then
        ebind (argCount name [0] args) (\<lambda>_. case input of
          VString s \<Rightarrow> Inr input | _ \<Rightarrow> ebind (marshal env input) (\<lambda>s. Inr (VString s)))
      else if name = ''tonumber'' then ebind (argCount name [0] args) (\<lambda>_. toNumber input)
      else Inl ''unsupported function'')"

section \<open>Functions of an expression\<close>

definition overrideCollectionValues :: "value \<Rightarrow> value list result" where
  "overrideCollectionValues input = (case input of
     VArray vs \<Rightarrow> Inr vs
   | VMap m \<Rightarrow> Inr (map snd m)
   | _ \<Rightarrow> Inl (''expected array or mapping, got '' @ overrideType input))"

definition entryOf :: "value \<Rightarrow> value \<Rightarrow> value" where
  "entryOf key v = VMap [(''key'', key), (''value'', cloneOverrideValue v)]"

definition toOverrideEntries :: "value \<Rightarrow> value list option result" where
  "toOverrideEntries input = (case input of
     VNull \<Rightarrow> Inr None
   | VArray vs \<Rightarrow> Inr (Some (map (\<lambda>(i, v). entryOf (VInt (int i)) v) (enumerate 0 vs)))
   | VMap m \<Rightarrow> Inr (Some (map (\<lambda>(k, v). entryOf (VString k) v) m))
   | _ \<Rightarrow> Inl (overrideType input @ '' has no keys''))"

definition addEntry :: "value \<Rightarrow> vmap \<Rightarrow> vmap result" where
  "addEntry item m = (case item of
     VMap entry \<Rightarrow> (case map_of entry ''key'' of
       None \<Rightarrow> Inl ''entry has no key''
     | Some key \<Rightarrow> (case map_of entry ''value'' of
         None \<Rightarrow> Inl ''entry has no value''
       | Some v \<Rightarrow> (case key of
           VString k \<Rightarrow> Inr (mput k (cloneOverrideValue v) m)
         | _ \<Rightarrow> Inl ''entry key must be a string in override-expr'')))
   | _ \<Rightarrow> Inl ''entry must be a mapping'')"

definition fromOverrideEntries :: "value \<Rightarrow> vmap result" where
  "fromOverrideEntries input = (case input of
     VArray entries \<Rightarrow> foldE addEntry entries []
   | _ \<Rightarrow> Inl ''from_entries only supports arrays'')"

text \<open>The first result of the arguments decides on each element, one without a result is passed over.\<close>

fun quantifyLoop :: "bool \<Rightarrow> (value \<Rightarrow> value list result) \<Rightarrow> value list \<Rightarrow> bool result" where
  "quantifyLoop all f [] = Inr all"
| "quantifyLoop all f (v # vs) = ebind (f v) (\<lambda>items.
     if items = [] then quantifyLoop all f vs
     else if overrideTruthy (hd items) = all then quantifyLoop all f vs
     else Inr (\<not> all))"

definition mapFirst :: "(value \<Rightarrow> value list result) \<Rightarrow> value \<Rightarrow> value result" where
  "mapFirst f v = ebind (f v) (\<lambda>items. Inr (if items = [] then v else cloneOverrideValue (hd items)))"

text \<open>
  The argument \<open>f\<close> evaluates all argument expressions on one value, \<open>g\<close> each argument expression on a
  list of values.
\<close>

definition streamFunction :: "string \<Rightarrow> nat \<Rightarrow> value \<Rightarrow> (value \<Rightarrow> value list result) \<Rightarrow> (value list \<Rightarrow> value list result) \<Rightarrow> value list result" where
  "streamFunction name n input f g =
     (if name = ''map'' then
        (if n = 0 then Inl ''map expects an expression''
         else ebind (overrideCollectionValues input) (\<lambda>vs. ebind (g vs) (\<lambda>r. Inr [VArray r])))
      else if name = ''filter'' then
        (if n = 0 then Inl ''filter expects an expression''
         else ebind (overrideCollectionValues input) (\<lambda>vs.
           ebind (concatE (\<lambda>v. ebind (f v) (\<lambda>items. Inr (if list_ex overrideTruthy items then [cloneOverrideValue v] else []))) vs) (\<lambda>r.
             Inr [VArray r])))
      else if name = ''map_values'' then
        (if n = 0 then Inl ''map_values expects an expression''
         else case input of
           VArray vs \<Rightarrow> ebind (mapE (mapFirst f) vs) (\<lambda>r. Inr [VArray r])
         | VMap m \<Rightarrow> ebind (mapE (\<lambda>e. ebind (mapFirst f (snd e)) (\<lambda>v. Inr (fst e, v))) m) (\<lambda>r. Inr [VMap r])
         | _ \<Rightarrow> only name ''arrays and mappings'' input)
      else if name = ''to_entries'' then
        (if n \<noteq> 0 then Inl ''to_entries expects no arguments''
         else ebind (toOverrideEntries input) (\<lambda>r. Inr (case r of None \<Rightarrow> [] | Some es \<Rightarrow> [VArray es])))
      else if name = ''from_entries'' then
        (if n \<noteq> 0 then Inl ''from_entries expects no arguments''
         else ebind (fromOverrideEntries input) (\<lambda>m. Inr [VMap m]))
      else if name = ''with_entries'' then
        (if n = 0 then Inl ''with_entries expects an expression''
         else case input of
           VMap m \<Rightarrow>
             ebind (toOverrideEntries input) (\<lambda>r. case r of
               None \<Rightarrow> Inr []
             | Some es \<Rightarrow> ebind (concatE f es) (\<lambda>ts. ebind (fromOverrideEntries (VArray ts)) (\<lambda>m1. Inr [VMap m1])))
         | _ \<Rightarrow> only name ''mappings'' input)
      else if name \<in> {''any_c'', ''all_c''} then
        (if n = 0 then Inl (name @ '' expects a condition'')
         else case input of
           VArray vs \<Rightarrow> ebind (quantifyLoop (name = ''all_c'') f vs) (\<lambda>b. Inr [VBool b])
         | _ \<Rightarrow> only name ''arrays'' input)
      else Inl ''unsupported stream function'')"

lemma streamFunction_cong [fundef_cong]:
  "name = name' \<Longrightarrow> n = n' \<Longrightarrow> x = x' \<Longrightarrow> (\<And>y. f y = f' y) \<Longrightarrow> (\<And>ys. g ys = g' ys) \<Longrightarrow>
    streamFunction name n x f g = streamFunction name' n' x' f' g'"
  by (metis ext)

definition isOverrideStreamFunction :: "string \<Rightarrow> bool" where
  "isOverrideStreamFunction name =
     (name \<in> {''map'', ''map_values'', ''filter'', ''to_entries'', ''from_entries'', ''with_entries'', ''any_c'', ''all_c''})"

definition isOverrideFunction :: "string \<Rightarrow> bool" where
  "isOverrideFunction name =
     (name \<in> {''length'', ''type'', ''keys'', ''has'', ''contains'', ''select'', ''sub'', ''test'', ''split'', ''join'',
        ''upcase'', ''downcase'', ''trim'', ''tostring'', ''tonumber'', ''not'', ''reverse'', ''sort'', ''unique'', ''flatten'',
        ''any'', ''all''} \<or> isOverrideStreamFunction name)"

section \<open>Evaluation\<close>

definition updateOnce :: "overridePath \<Rightarrow> overrideTokenKind \<Rightarrow> (value \<Rightarrow> value list result) \<Rightarrow> value \<Rightarrow> value result" where
  "updateOnce path operator eval root =
     (if operator = overrideTokenAssign then
        ebind (ebind (eval root) single) (\<lambda>v.
          if isOverrideNoMatch v then Inr root
          else updateOverridePath root path (\<lambda>_. Inr (cloneOverrideValue v)))
      else if operator = overrideTokenUpdateAssign then
        updateOverridePath root path (\<lambda>old. ebind (ebind (eval old) single) (\<lambda>v. Inr (if isOverrideNoMatch v then old else v)))
      else
        ebind (ebind (eval root) single) (\<lambda>v.
          updateOverridePath root path (\<lambda>old. evaluateOverrideBinary (compoundOperator operator) old v)))"

lemma updateOnce_cong [fundef_cong]:
  "p = p' \<Longrightarrow> op = op' \<Longrightarrow> (\<And>y. f y = g y) \<Longrightarrow> r = r' \<Longrightarrow> updateOnce p op f r = updateOnce p' op' g r'"
  by (metis ext)

lemma size_expr [termination_simp]:
  "e \<in> set (es :: overrideValueExpr list) \<Longrightarrow> size e < Suc (size_list size es)"
  by (induction es) auto

lemma size_part [termination_simp]: "PartExpression e \<in> set ps \<Longrightarrow> size e < Suc (size_list size ps)"
  by (induction ps) auto

lemma size_entry [termination_simp]: "MapEntry k e \<in> set ms \<Longrightarrow> size e < Suc (size_list size ms)"
  by (induction ms) auto

function (sequential) evalOverrideStream :: "overrideEnv \<Rightarrow> overrideValueExpr \<Rightarrow> value \<Rightarrow> value list result"
  and evalOverrideStreamInputs :: "overrideEnv \<Rightarrow> overrideValueExpr \<Rightarrow> value list \<Rightarrow> value list result" where
  "evalOverrideStream env (overridePipelineExpr stages) input =
     foldE (\<lambda>stage vs. evalOverrideStreamInputs env stage vs) stages [input]"
| "evalOverrideStream env (overrideUnionExpr es) input = concatE (\<lambda>e. evalOverrideStreamInputs env e [input]) es"
| "evalOverrideStream env (overrideLiteralExpr v) input = Inr (stream1 (cloneOverrideValue v))"
| "evalOverrideStream env (overrideStringExpr parts) input =
     ebind (mapE (\<lambda>p. case p of
       PartLiteral s \<Rightarrow> Inr s
     | PartExpression e \<Rightarrow> ebind (evalOverrideStream env e input) (stringPart env)) parts) (\<lambda>ss. Inr [VString (concat ss)])"
| "evalOverrideStream env (overridePathExpr path) input = Inr (lookupOverridePathStream input path)"
| "evalOverrideStream env (overrideArrayExpr es) input =
     ebind (concatE (\<lambda>e. evalOverrideStream env e input) es) (\<lambda>vs. Inr [VArray vs])"
| "evalOverrideStream env (overrideMapExpr entries) input =
     ebind (mapE (\<lambda>entry. case entry of MapEntry key e \<Rightarrow> ebind (evalOverrideStream env e input) (\<lambda>vs. Inr (key, vs))) entries) (\<lambda>r.
       Inr [VMap (fold putLast r [])])"
| "evalOverrideStream env (overrideValueUpdateExpr path operator e) input =
     ebind (updateOnce path operator (\<lambda>y. evalOverrideStream env e y) (cloneOverrideValue input)) (\<lambda>v. Inr (stream1 v))"
| "evalOverrideStream env (overrideBinaryExpr operator left right) input =
     ebind (evalOverrideStream env left input) (\<lambda>lefts. binaryAll operator lefts (evalOverrideStream env right input))"
| "evalOverrideStream env (overrideFunctionExpr name args) input =
     (if isOverrideNoMatch input then Inr []
      else ebind (mapE (\<lambda>a. ebind (evalOverrideStream env a input) single) args) (\<lambda>vs.
        ebind (applyFunction env name vs input) (\<lambda>v. Inr (stream1 v))))"
| "evalOverrideStream env (overrideStreamFunctionExpr name args) input =
     streamFunction name (length args) input
       (\<lambda>y. concatE (\<lambda>a. evalOverrideStream env a y) args) (\<lambda>ys. concatE (\<lambda>a. evalOverrideStreamInputs env a ys) args)"
| "evalOverrideStreamInputs env (overrideUnionExpr es) inputs = concatE (\<lambda>e. evalOverrideStreamInputs env e inputs) es"
| "evalOverrideStreamInputs env e inputs = concatE (\<lambda>x. evalOverrideStream env e x) inputs"
  by pat_completeness auto
termination
  by (relation "measure (case_sum (\<lambda>(env, e, x). 2 * size e) (\<lambda>(env, e, xs). 2 * size e + 1))")
    (auto dest: size_expr size_part size_entry)

definition evalOverrideSingle :: "overrideEnv \<Rightarrow> overrideValueExpr \<Rightarrow> value \<Rightarrow> value result" where
  "evalOverrideSingle env e input = ebind (evalOverrideStream env e input) single"

section \<open>Assignment targets\<close>

datatype overrideTargetStage = StagePath overridePath | StageCondition overrideValueExpr

type_synonym overrideTargetSelection = "value \<times> overridePath"

fun expandOverrideTargetPath :: "overrideTargetSelection \<Rightarrow> overridePath \<Rightarrow> overrideTargetSelection list" where
  "expandOverrideTargetPath sel [] = [sel]"
| "expandOverrideTargetPath (v, done) (overridePathField key # path) = (case v of
     VNull \<Rightarrow> expandOverrideTargetPath (VNull, done @ [overridePathField key]) path
   | VMap m \<Rightarrow> expandOverrideTargetPath (mget m key, done @ [overridePathField key]) path
   | _ \<Rightarrow> [])"
| "expandOverrideTargetPath (v, done) (overridePathIndex index # path) = (case v of
     VNull \<Rightarrow> expandOverrideTargetPath (VNull, done @ [overridePathIndex index]) path
   | VArray xs \<Rightarrow>
       (let i = realIndex index xs
        in if i < 0 then []
           else expandOverrideTargetPath (if i < int (length xs) then xs ! nat i else VNull, done @ [overridePathIndex i]) path)
   | _ \<Rightarrow> [])"
| "expandOverrideTargetPath (v, done) (overridePathWildcard # path) = (case v of
     VArray xs \<Rightarrow> concat (map (\<lambda>(i, x). expandOverrideTargetPath (x, done @ [overridePathIndex (int i)]) path) (enumerate 0 xs))
   | VMap m \<Rightarrow> concat (map (\<lambda>(k, x). expandOverrideTargetPath (x, done @ [overridePathField k]) path) m)
   | _ \<Rightarrow> [])"

definition resolveStage :: "overrideEnv \<Rightarrow> overrideTargetStage \<Rightarrow> overrideTargetSelection list \<Rightarrow> overrideTargetSelection list result" where
  "resolveStage env stage sels = (case stage of
     StagePath path \<Rightarrow> Inr (concat (map (\<lambda>sel. expandOverrideTargetPath sel path) sels))
   | StageCondition e \<Rightarrow>
       concatE (\<lambda>sel. ebind (evalOverrideStream env e (fst sel)) (\<lambda>vs. Inr (if list_ex overrideTruthy vs then [sel] else []))) sels)"

definition resolve :: "overrideEnv \<Rightarrow> overrideTargetStage list \<Rightarrow> value \<Rightarrow> overrideTargetSelection list result" where
  "resolve env stages root = foldE (resolveStage env) stages [(root, [])]"

section \<open>Statements\<close>

datatype overrideStatement =
    overrideAssignStatement overridePath "overrideTargetStage list option" overrideTokenKind overrideValueExpr
  | overrideFilterStatement overrideValueExpr
  | overrideDeleteStatement "overridePath list"

text \<open>The updater of an assignment; none when the right side has no result and nothing is to be done.\<close>

definition assignUpdater :: "overrideEnv \<Rightarrow> overrideTokenKind \<Rightarrow> overrideValueExpr \<Rightarrow> value \<Rightarrow> (value \<Rightarrow> value result) option result" where
  "assignUpdater env operator e root =
     (if operator = overrideTokenAssign then
        ebind (evalOverrideSingle env e root) (\<lambda>v.
          Inr (if isOverrideNoMatch v then None else Some (\<lambda>_. Inr (cloneOverrideValue v))))
      else if operator = overrideTokenUpdateAssign then
        Inr (Some (\<lambda>old. ebind (evalOverrideSingle env e old) (\<lambda>v. Inr (if isOverrideNoMatch v then old else v))))
      else
        ebind (evalOverrideSingle env e root) (\<lambda>v.
          Inr (if isOverrideNoMatch v then None else Some (\<lambda>old. evaluateOverrideBinary (compoundOperator operator) old v))))"

definition asMapping :: "value \<Rightarrow> vmap result" where
  "asMapping v = (case v of VMap m \<Rightarrow> Inr m | _ \<Rightarrow> Inl (''root expression must produce a mapping, got '' @ overrideType v))"

definition updateSelected :: "(value \<Rightarrow> value result) \<Rightarrow> overrideTargetSelection \<Rightarrow> vmap \<Rightarrow> vmap result" where
  "updateSelected updater sel m = ebind (updateOverridePath (VMap m) (snd sel) updater) asMapping"

fun applyStatement :: "overrideEnv \<Rightarrow> overrideStatement \<Rightarrow> vmap \<Rightarrow> vmap result" where
  "applyStatement env (overrideFilterStatement e) m =
     ebind (evalOverrideSingle env e (VMap m)) (\<lambda>v.
       if isOverrideNoMatch v then Inl ''filter expression produced no result; a mapping is required''
       else case v of
         VMap r \<Rightarrow> Inr r
       | _ \<Rightarrow> Inl (''filter expression must produce a mapping, got '' @ overrideType v))"
| "applyStatement env (overrideAssignStatement path target operator e) m =
     ebind (assignUpdater env operator e (VMap m)) (\<lambda>u. case u of
       None \<Rightarrow> Inr m
     | Some updater \<Rightarrow> (case target of
         Some stages \<Rightarrow> ebind (resolve env stages (VMap m)) (\<lambda>sels. foldE (updateSelected updater) sels m)
       | None \<Rightarrow> ebind (updateOverridePath (VMap m) path updater) asMapping))"
| "applyStatement env (overrideDeleteStatement paths) m = asMapping (deleteOverridePaths (VMap m) paths)"

record OverrideExpr =
  ov_source :: string
  ov_statements :: "overrideStatement list"

definition Apply :: "overrideEnv \<Rightarrow> OverrideExpr \<Rightarrow> vmap \<Rightarrow> vmap result" where
  "Apply env e m = foldE (applyStatement env) (ov_statements e) m"

end
