(* ===== verification/OverrideParser.thy ===== *)
theory OverrideParser
  imports OverrideExpr "HOL-Library.Sublist"
begin

text \<open>
  The parser of override expressions (\<open>overrideExprParser\<close> in src/adapter/provider/override_expr.go). The
  position of the parser is the list of the remaining tokens, which ends with the end-of-file token.
  The functions of the operator levels take the parser of a primary expression as an argument; that
  parser is unrolled to a given depth, and a loop to the number of tokens at hand. Running out of
  either is the result \<open>PFuel\<close>, which \<open>NewOverrideExpr_returns\<close> excludes.
\<close>

section \<open>Parsers\<close>

datatype 'a pres = POk 'a "overrideToken list" | PErr string | PFuel

type_synonym 'a parser = "overrideToken list \<Rightarrow> 'a pres"

definition pbind :: "'a pres \<Rightarrow> ('a \<Rightarrow> 'b parser) \<Rightarrow> 'b pres" where
  "pbind m f = (case m of POk x r \<Rightarrow> f x r | PErr e \<Rightarrow> PErr e | PFuel \<Rightarrow> PFuel)"

definition peek :: "overrideToken list \<Rightarrow> overrideToken" where
  "peek ts = (case ts of [] \<Rightarrow> mkToken overrideTokenEOF [] 0 | t # _ \<Rightarrow> t)"

abbreviation peekKind :: "overrideToken list \<Rightarrow> overrideTokenKind" where
  "peekKind ts \<equiv> tk_kind (peek ts)"

definition advance :: "overrideToken list \<Rightarrow> overrideToken list" where
  "advance ts = (if peekKind ts = overrideTokenEOF then ts else tl ts)"

definition errorf :: "overrideToken \<Rightarrow> string \<Rightarrow> string" where
  "errorf token msg = ''column '' @ FormatUint (tk_pos token + 1) @ '': '' @ msg"

definition expect :: "overrideTokenKind \<Rightarrow> string \<Rightarrow> overrideToken parser" where
  "expect kind message ts =
     (if peekKind ts \<noteq> kind then PErr (errorf (peek ts) message) else POk (peek ts) (advance ts))"

definition peekIdentifier :: "string \<Rightarrow> overrideToken list \<Rightarrow> bool" where
  "peekIdentifier name ts = (peekKind ts = overrideTokenIdentifier \<and> tk_text (peek ts) = name)"

definition lift :: "overrideToken list \<Rightarrow> 'a result \<Rightarrow> 'a pres" where
  "lift ts r = (case r of Inl e \<Rightarrow> PErr e | Inr x \<Rightarrow> POk x ts)"

text \<open>Items with separators between them.\<close>

fun sepLoop :: "nat \<Rightarrow> 'a parser \<Rightarrow> (overrideTokenKind \<Rightarrow> bool) \<Rightarrow> 'a list parser" where
  "sepLoop 0 p sep ts = PFuel"
| "sepLoop (Suc n) p sep ts = pbind (p ts) (\<lambda>x r.
     if sep (peekKind r) then pbind (sepLoop n p sep (advance r)) (\<lambda>xs r1. POk (x # xs) r1) else POk [x] r)"

section \<open>Paths\<close>

definition pathField :: "overrideToken \<Rightarrow> string result" where
  "pathField token =
     (if tk_kind token = overrideTokenIdentifier then Inr (tk_text token)
      else case decodeOverrideString (tk_text token) (tk_pos token + 1) of
        Inl e \<Rightarrow> Inl (errorf token e)
      | Inr s \<Rightarrow> Inr s)"

definition isField :: "overrideTokenKind \<Rightarrow> bool" where
  "isField kind = (kind = overrideTokenIdentifier \<or> kind = overrideTokenString)"

definition fieldSegment :: "overridePathSegment parser" where
  "fieldSegment ts = pbind (lift (advance ts) (pathField (peek ts))) (\<lambda>key r. POk (overridePathField key) r)"

definition indexSegment :: "overridePathSegment parser" where
  "indexSegment ts =
     (let token = peek ts in
      pbind (if tk_kind token = overrideTokenMinus
             then pbind (expect overrideTokenNumber ''expected array index after -'' (advance ts)) (\<lambda>number r. POk (tk_text token @ tk_text number) r)
             else POk (tk_text token) (advance ts)) (\<lambda>text r.
        case parseIntBase text 10 of
          None \<Rightarrow> PErr (errorf token ''invalid array index'')
        | Some i \<Rightarrow> POk (overridePathIndex i) r))"

text \<open>One more segment of a path, or none when the next token does not continue it.\<close>

definition pathSegment :: "overridePathSegment option parser" where
  "pathSegment ts =
     (if peekKind ts = overrideTokenDot then
        (let r = advance ts in
         if \<not> isField (peekKind r) then PErr (errorf (peek r) ''expected field name after the dot'')
         else pbind (fieldSegment r) (\<lambda>seg r1. POk (Some seg) r1))
      else if peekKind ts = overrideTokenLeftBracket then
        (let r = advance ts; kind = peekKind r in
         if kind = overrideTokenRightBracket then POk (Some overridePathWildcard) (advance r)
         else
           pbind (if isField kind then fieldSegment r
                  else if kind = overrideTokenNumber \<or> kind = overrideTokenMinus then indexSegment r
                  else PErr (errorf (peek r) ''expected field name or array index'')) (\<lambda>seg r1.
             pbind (expect overrideTokenRightBracket ''expected ] after path index'' r1) (\<lambda>_ r2. POk (Some seg) r2)))
      else POk None ts)"

fun pathLoop :: "nat \<Rightarrow> overridePath \<Rightarrow> overridePath parser" where
  "pathLoop 0 segs ts = PFuel"
| "pathLoop (Suc n) segs ts = pbind (pathSegment ts) (\<lambda>seg r. case seg of
     None \<Rightarrow> POk segs r
   | Some s \<Rightarrow> pathLoop n (segs @ [s]) r)"

definition parsePath :: "overridePath parser" where
  "parsePath ts =
     pbind (expect overrideTokenDot ''expected path starting with a dot'' ts) (\<lambda>_ r.
       if isField (peekKind r) then pbind (fieldSegment r) (\<lambda>seg r1. pathLoop (length r1) [seg] r1)
       else pathLoop (length r) [] r)"

section \<open>Literals\<close>

definition parseNumber :: "overrideToken \<Rightarrow> overrideValueExpr result" where
  "parseNumber token =
     (let text = tk_text token in
      if list_ex (\<lambda>c. c = CHR ''.'' \<or> c = CHR ''e'' \<or> c = CHR ''E'') text then
        (case ParseFloat text of
           None \<Rightarrow> Inl (errorf token ''invalid number'')
         | Some x \<Rightarrow> Inr (overrideLiteralExpr (VFloat x)))
      else
        let hex = (HasPrefix text ''0x'' \<or> HasPrefix text ''0X'')
        in case parseIntBase (if hex then drop 2 text else text) (if hex then 16 else 10) of
             None \<Rightarrow> Inl (errorf token ''invalid number'')
           | Some n \<Rightarrow> Inr (overrideLiteralExpr (VInt n)))"

text \<open>The distance to the parenthesis that ends an interpolation.\<close>

fun findOverrideInterpolationEnd :: "string \<Rightarrow> nat \<Rightarrow> bool \<Rightarrow> nat option" where
  "findOverrideInterpolationEnd [] depth quoted = None"
| "findOverrideInterpolationEnd (c # s) depth quoted =
     (if c = backslash then
        (case s of [] \<Rightarrow> None | d # r \<Rightarrow> map_option (\<lambda>n. n + 2) (findOverrideInterpolationEnd r depth quoted))
      else if quoted then map_option Suc (findOverrideInterpolationEnd s depth (c \<noteq> quote))
      else if c = quote then map_option Suc (findOverrideInterpolationEnd s depth True)
      else if c = CHR ''('' then map_option Suc (findOverrideInterpolationEnd s (Suc depth) False)
      else if c = CHR '')'' then
        (if depth = 0 then Some 0 else map_option Suc (findOverrideInterpolationEnd s (depth - 1) False))
      else map_option Suc (findOverrideInterpolationEnd s depth False))"

fun unescapeQuotes :: "string \<Rightarrow> string" where
  "unescapeQuotes (c # d # s) =
     (if c = backslash \<and> d = quote then quote # unescapeQuotes s else c # unescapeQuotes (d # s))"
| "unescapeQuotes s = s"

text \<open>The text of a string token as literals, with the column of each, and expressions.\<close>

datatype rawPart = RawLiteral string int | RawExpression string | RawUnterminated

lemma interpolation_end_bound: "findOverrideInterpolationEnd s d q = Some n \<Longrightarrow> n < length s"
  by (induction s d q arbitrary: n rule: findOverrideInterpolationEnd.induct) (auto split: if_splits list.splits)

function splitRaw :: "string \<Rightarrow> string \<Rightarrow> int \<Rightarrow> rawPart list" where
  "splitRaw [] acc column = [RawLiteral (rev acc) column]"
| "splitRaw (c # s) acc column =
     (if c \<noteq> backslash \<or> s = [] then splitRaw s (c # acc) column
      else if hd s \<noteq> CHR ''('' then splitRaw (tl s) (hd s # c # acc) column
      else case findOverrideInterpolationEnd (tl s) 0 False of
        None \<Rightarrow> [RawLiteral (rev acc) column, RawUnterminated]
      | Some n \<Rightarrow>
          RawLiteral (rev acc) column # RawExpression (take n (tl s))
          # splitRaw (drop (n + 1) (tl s)) [] (column + int (length acc) + int n + 3))"
  by pat_completeness auto
termination by (relation "measure (\<lambda>(s, acc, column). length s)") auto

fun buildParts :: "(string \<Rightarrow> overrideValueExpr pres) \<Rightarrow> overrideToken \<Rightarrow> rawPart list \<Rightarrow> overrideStringPart list pres" where
  "buildParts interp token [] = POk [] []"
| "buildParts interp token (RawLiteral raw column # parts) =
     pbind (lift [] (decodeOverrideString raw column)) (\<lambda>literal _.
     pbind (buildParts interp token parts) (\<lambda>ps _.
       POk (if literal = [] then ps else PartLiteral literal # ps) []))"
| "buildParts interp token (RawUnterminated # parts) = PErr (errorf token ''unterminated interpolation'')"
| "buildParts interp token (RawExpression raw # parts) =
     pbind (case interp (unescapeQuotes raw) of PErr e \<Rightarrow> PErr (errorf token (''invalid interpolation: '' @ e)) | r \<Rightarrow> r) (\<lambda>e _.
     pbind (buildParts interp token parts) (\<lambda>ps _. POk (PartExpression e # ps) []))"

text \<open>A string without interpolation is a literal.\<close>

definition parseString :: "(string \<Rightarrow> overrideValueExpr pres) \<Rightarrow> overrideToken \<Rightarrow> overrideValueExpr pres" where
  "parseString interp token =
     (let raws = splitRaw (tk_text token) [] (tk_pos token + 1) in
      pbind (buildParts interp token raws) (\<lambda>parts _.
        POk (if length raws = 1
             then overrideLiteralExpr (VString (case parts of [PartLiteral s] \<Rightarrow> s | _ \<Rightarrow> []))
             else overrideStringExpr parts) []))"

section \<open>Operator levels\<close>

text \<open>A left-associative level: the operator that a token stands for, and the parser of the operands.\<close>

fun binLoop :: "nat \<Rightarrow> (overrideToken \<Rightarrow> string option) \<Rightarrow> overrideValueExpr parser \<Rightarrow> overrideValueExpr \<Rightarrow> overrideValueExpr parser" where
  "binLoop 0 operator operand left ts = PFuel"
| "binLoop (Suc n) operator operand left ts = (case operator (peek ts) of
     None \<Rightarrow> POk left ts
   | Some op \<Rightarrow> pbind (operand (advance ts)) (\<lambda>right r. binLoop n operator operand (overrideBinaryExpr op left right) r))"

definition binLevel :: "(overrideToken \<Rightarrow> string option) \<Rightarrow> overrideValueExpr parser \<Rightarrow> overrideValueExpr parser" where
  "binLevel operator operand ts = pbind (operand ts) (\<lambda>left r. binLoop (length r) operator operand left r)"

definition byKind :: "overrideTokenKind set \<Rightarrow> overrideToken \<Rightarrow> string option" where
  "byKind kinds token = (if tk_kind token \<in> kinds then Some (tk_text token) else None)"

definition byName :: "string \<Rightarrow> overrideToken \<Rightarrow> string option" where
  "byName name token = (if tk_kind token = overrideTokenIdentifier \<and> tk_text token = name then Some name else None)"

definition parseUnary :: "overrideValueExpr parser \<Rightarrow> overrideValueExpr parser" where
  "parseUnary prim ts =
     (if peekKind ts = overrideTokenMinus then
        (let r = advance ts; number = peek r in
         if tk_kind number \<noteq> overrideTokenNumber then PErr (errorf (peek ts) ''unary minus is only supported for number literals'')
         else lift (advance r) (parseNumber (number\<lparr>tk_text := CHR ''-'' # tk_text number\<rparr>)))
      else prim ts)"

definition parseMultiplicative :: "overrideValueExpr parser \<Rightarrow> overrideValueExpr parser" where
  "parseMultiplicative prim = binLevel (byKind {overrideTokenMultiply, overrideTokenDivide, overrideTokenModulo}) (parseUnary prim)"

definition parseAdditive :: "overrideValueExpr parser \<Rightarrow> overrideValueExpr parser" where
  "parseAdditive prim = binLevel (byKind {overrideTokenPlus, overrideTokenMinus}) (parseMultiplicative prim)"

definition parseComparison :: "overrideValueExpr parser \<Rightarrow> overrideValueExpr parser" where
  "parseComparison prim =
     binLevel (byKind {overrideTokenEqual, overrideTokenNotEqual, overrideTokenLess, overrideTokenLessEqual, overrideTokenGreater, overrideTokenGreaterEqual})
       (parseAdditive prim)"

definition parseAlternative :: "overrideValueExpr parser \<Rightarrow> overrideValueExpr parser" where
  "parseAlternative prim = binLevel (byKind {overrideTokenAlternative}) (parseComparison prim)"

definition parseAnd :: "overrideValueExpr parser \<Rightarrow> overrideValueExpr parser" where
  "parseAnd prim = binLevel (byName ''and'') (parseAlternative prim)"

definition parseOr :: "overrideValueExpr parser \<Rightarrow> overrideValueExpr parser" where
  "parseOr prim = binLevel (byName ''or'') (parseAnd prim)"

section \<open>Value expressions\<close>

text \<open>An update inside a value expression; none when the tokens are not one, which is decided without consuming any.\<close>

definition parseValueUpdateExpression :: "overrideValueExpr parser \<Rightarrow> overrideToken list \<Rightarrow> overrideValueExpr pres option" where
  "parseValueUpdateExpression value_parser ts =
     (if peekKind ts \<noteq> overrideTokenDot then None
      else case parsePath ts of
        POk path r \<Rightarrow>
          (if \<not> isOverrideAssignmentToken (peekKind r) then None
           else Some (pbind (value_parser (advance r)) (\<lambda>v r1. POk (overrideValueUpdateExpr path (peekKind r) v) r1)))
      | PErr e \<Rightarrow> None
      | PFuel \<Rightarrow> Some PFuel)"

definition parseStage :: "overrideValueExpr parser \<Rightarrow> overrideValueExpr parser \<Rightarrow> bool \<Rightarrow> overrideValueExpr parser" where
  "parseStage value_parser prim low ts = (case parseValueUpdateExpression value_parser ts of
     Some r \<Rightarrow> r
   | None \<Rightarrow> if low then parseOr prim ts else parseAlternative prim ts)"

definition oneOr :: "(overrideValueExpr list \<Rightarrow> overrideValueExpr) \<Rightarrow> overrideValueExpr list \<Rightarrow> overrideValueExpr" where
  "oneOr f es = (case es of [e] \<Rightarrow> e | _ \<Rightarrow> f es)"

fun parseValueExpression :: "nat \<Rightarrow> overrideValueExpr parser \<Rightarrow> bool \<Rightarrow> overrideValueExpr parser" where
  "parseValueExpression 0 prim low ts = PFuel"
| "parseValueExpression (Suc n) prim low ts =
     (if \<not> low then parseStage (parseValueExpression n prim False) prim False ts
      else pbind (sepLoop (length ts) (parseStage (parseValueExpression n prim False) prim True) (\<lambda>k. k = overrideTokenPipe) ts) (\<lambda>stages r.
        POk (oneOr overridePipelineExpr stages) r))"

definition parseValue :: "overrideValueExpr parser \<Rightarrow> bool \<Rightarrow> overrideValueExpr parser" where
  "parseValue prim low ts = parseValueExpression (length ts) prim low ts"

definition parseUnionExpression :: "overrideValueExpr parser \<Rightarrow> bool \<Rightarrow> overrideValueExpr parser" where
  "parseUnionExpression prim low ts =
     pbind (sepLoop (length ts) (parseValue prim low) (\<lambda>k. k = overrideTokenComma) ts) (\<lambda>es r. POk (oneOr overrideUnionExpr es) r)"

definition parseOverrideValueExpr :: "overrideValueExpr parser \<Rightarrow> string \<Rightarrow> overrideValueExpr pres" where
  "parseOverrideValueExpr prim source = (case lexOverrideExpr source of
     Inl e \<Rightarrow> PErr e
   | Inr tokens \<Rightarrow>
       pbind (parseUnionExpression prim True tokens) (\<lambda>e r.
         if peekKind r \<noteq> overrideTokenEOF then PErr (errorf (peek r) ''unexpected token'') else POk e r))"

section \<open>Primary expressions\<close>

definition parseEntry :: "overrideValueExpr parser \<Rightarrow> overrideMapEntry parser" where
  "parseEntry prim ts =
     (let key = peek ts in
      if tk_kind key \<noteq> overrideTokenString then PErr (errorf key ''expected quoted map key'')
      else pbind (expect overrideTokenColon ''expected : after map key'' (advance ts)) (\<lambda>_ r.
        pbind (lift r (decodeOverrideString (tk_text key) (tk_pos key + 1))) (\<lambda>name r1.
        pbind (parseValue prim True r1) (\<lambda>v r2. POk (MapEntry name v) r2))))"

definition parseArgs :: "overrideValueExpr parser \<Rightarrow> overrideValueExpr list parser" where
  "parseArgs prim ts =
     (if peekKind ts \<noteq> overrideTokenLeftParen then POk [] ts
      else let r = advance ts in
        if peekKind r = overrideTokenRightParen then POk [] (advance r)
        else pbind (sepLoop (length r) (parseValue prim True) (\<lambda>k. k = overrideTokenComma \<or> k = overrideTokenSemicolon) r) (\<lambda>args r1.
          pbind (expect overrideTokenRightParen ''expected ) after function arguments'' r1) (\<lambda>_ r2. POk args r2)))"

definition parseIdentifier :: "overrideValueExpr parser \<Rightarrow> overrideToken \<Rightarrow> overrideValueExpr parser" where
  "parseIdentifier prim token ts =
     (let name = tk_text token in
      if name = ''true'' then POk (overrideLiteralExpr (VBool True)) ts
      else if name = ''false'' then POk (overrideLiteralExpr (VBool False)) ts
      else if name = ''null'' \<or> name = ''~'' then POk (overrideLiteralExpr VNull) ts
      else pbind (parseArgs prim ts) (\<lambda>args r.
        if \<not> isOverrideFunction name then PErr (errorf token ''unknown function'')
        else if isOverrideStreamFunction name then POk (overrideStreamFunctionExpr name args) r
        else POk (overrideFunctionExpr name args) r))"

definition parseBracketed :: "overrideTokenKind \<Rightarrow> string \<Rightarrow> 'a parser \<Rightarrow> 'a list parser" where
  "parseBracketed close message item ts =
     (if peekKind ts = close then POk [] (advance ts)
      else pbind (sepLoop (length ts) item (\<lambda>k. k = overrideTokenComma) ts) (\<lambda>xs r.
        pbind (expect close message r) (\<lambda>_ r1. POk xs r1)))"

definition primaryStep :: "overrideValueExpr parser \<Rightarrow> overrideValueExpr parser" where
  "primaryStep prim ts =
     (let token = peek ts; r = advance ts in
      case tk_kind token of
        overrideTokenDot \<Rightarrow> pbind (parsePath ts) (\<lambda>path r1. POk (overridePathExpr path) r1)
      | overrideTokenString \<Rightarrow> pbind (parseString (parseOverrideValueExpr prim) token) (\<lambda>e _. POk e r)
      | overrideTokenNumber \<Rightarrow> lift r (parseNumber token)
      | overrideTokenLeftParen \<Rightarrow>
          pbind (parseUnionExpression prim True r) (\<lambda>e r1.
            pbind (expect overrideTokenRightParen ''expected )'' r1) (\<lambda>_ r2. POk e r2))
      | overrideTokenLeftBracket \<Rightarrow>
          pbind (parseBracketed overrideTokenRightBracket ''expected ] after array'' (parseValue prim True) r) (\<lambda>es r1. POk (overrideArrayExpr es) r1)
      | overrideTokenLeftBrace \<Rightarrow>
          pbind (parseBracketed overrideTokenRightBrace ''expected } after map'' (parseEntry prim) r) (\<lambda>es r1. POk (overrideMapExpr es) r1)
      | overrideTokenIdentifier \<Rightarrow> parseIdentifier prim token r
      | _ \<Rightarrow> PErr (errorf token ''expected value''))"

fun parsePrimary :: "nat \<Rightarrow> overrideValueExpr parser" where
  "parsePrimary 0 ts = PFuel"
| "parsePrimary (Suc n) ts = primaryStep (parsePrimary n) ts"

section \<open>Statements\<close>

fun closesBeforeAssignment :: "int \<Rightarrow> overrideToken list \<Rightarrow> bool" where
  "closesBeforeAssignment depth [] = False"
| "closesBeforeAssignment depth (t # ts) =
     (if tk_kind t = overrideTokenLeftParen then closesBeforeAssignment (depth + 1) ts
      else if tk_kind t = overrideTokenRightParen then
        (if depth = 1 then ts \<noteq> [] \<and> isOverrideAssignmentToken (peekKind ts) else closesBeforeAssignment (depth - 1) ts)
      else closesBeforeAssignment depth ts)"

definition startsAssignmentStatement :: "overrideToken list \<Rightarrow> bool" where
  "startsAssignmentStatement ts =
     (if peekKind ts = overrideTokenDot then
        (case parsePath ts of POk path r \<Rightarrow> isOverrideAssignmentToken (peekKind r) | _ \<Rightarrow> False)
      else peekKind ts = overrideTokenLeftParen \<and> closesBeforeAssignment 0 ts)"

definition parseTargetStage :: "overrideValueExpr parser \<Rightarrow> overrideTargetStage parser" where
  "parseTargetStage prim ts =
     (if peekIdentifier ''select'' ts then
        pbind (expect overrideTokenLeftParen ''expected ( after select'' (advance ts)) (\<lambda>_ r.
        pbind (parseValue prim True r) (\<lambda>condition r1.
        pbind (expect overrideTokenRightParen ''expected ) after select condition'' r1) (\<lambda>_ r2. POk (StageCondition condition) r2)))
      else pbind (parsePath ts) (\<lambda>path r. POk (StagePath path) r))"

definition isStagePath :: "overrideTargetStage \<Rightarrow> bool" where
  "isStagePath stage = (case stage of StagePath _ \<Rightarrow> True | StageCondition _ \<Rightarrow> False)"

definition parseAssignmentTarget :: "overrideValueExpr parser \<Rightarrow> overrideTargetStage list parser" where
  "parseAssignmentTarget prim ts =
     pbind (expect overrideTokenLeftParen ''expected ('' ts) (\<lambda>_ r.
     pbind (sepLoop (length r) (parseTargetStage prim) (\<lambda>k. k = overrideTokenPipe) r) (\<lambda>stages r1.
     pbind (expect overrideTokenRightParen ''expected ) after assignment path'' r1) (\<lambda>_ r2.
       if list_ex isStagePath stages then POk stages r2
       else PErr (errorf (peek r2) ''conditional assignment must select a path''))))"

definition parseDelete :: "overrideStatement parser" where
  "parseDelete ts =
     pbind (expect overrideTokenLeftParen ''expected ( after del'' (advance ts)) (\<lambda>_ r.
     pbind (sepLoop (length r) parsePath (\<lambda>k. k = overrideTokenComma) r) (\<lambda>paths r1.
     pbind (expect overrideTokenRightParen ''expected ) after del arguments'' r1) (\<lambda>_ r2.
       if [] \<in> set paths then PErr (errorf (peek r2) ''del(.) cannot be represented by a mapping override'')
       else POk (overrideDeleteStatement paths) r2)))"

definition parseStatement :: "overrideValueExpr parser \<Rightarrow> overrideStatement parser" where
  "parseStatement prim ts =
     (if peekIdentifier ''del'' ts then parseDelete ts
      else if \<not> startsAssignmentStatement ts then
        pbind (parseUnionExpression prim True ts) (\<lambda>e r. POk (overrideFilterStatement e) r)
      else
        pbind (if peekKind ts = overrideTokenLeftParen
               then pbind (parseAssignmentTarget prim ts) (\<lambda>stages r. POk ([], Some stages) r)
               else pbind (parsePath ts) (\<lambda>path r. POk (path, None) r)) (\<lambda>(path, target) r.
          if \<not> isOverrideAssignmentToken (peekKind r) then PErr (errorf (peek r) ''expected assignment operator after path'')
          else pbind (parseValue prim False (advance r)) (\<lambda>v r1.
            POk (overrideAssignStatement path target (peekKind r) v) r1)))"

fun statementLoop :: "nat \<Rightarrow> overrideValueExpr parser \<Rightarrow> overrideStatement list parser" where
  "statementLoop 0 prim ts = PFuel"
| "statementLoop (Suc n) prim ts = pbind (parseStatement prim ts) (\<lambda>s r.
     if peekKind r \<noteq> overrideTokenPipe then POk [s] r
     else let r1 = advance r in
       if peekKind r1 = overrideTokenEOF then PErr (errorf (peek r1) ''expected expression after pipe'')
       else pbind (statementLoop n prim r1) (\<lambda>ss r2. POk (s # ss) r2))"

definition parse :: "overrideValueExpr parser \<Rightarrow> overrideStatement list parser" where
  "parse prim ts =
     (if peekKind ts = overrideTokenEOF then PErr ''expression is empty''
      else pbind (statementLoop (length ts) prim ts) (\<lambda>ss r.
        if peekKind r \<noteq> overrideTokenEOF then PErr (errorf (peek r) ''unexpected token'') else POk ss r))"

text \<open>The depth of the primary expressions of a source is at most its length.\<close>

definition NewOverrideExpr :: "string \<Rightarrow> OverrideExpr result option" where
  "NewOverrideExpr source = (case lexOverrideExpr source of
     Inl e \<Rightarrow> Some (Inl e)
   | Inr tokens \<Rightarrow> (case parse (parsePrimary (length source + 1)) tokens of
       POk ss r \<Rightarrow> Some (Inr \<lparr>ov_source = source, ov_statements = ss\<rparr>)
     | PErr e \<Rightarrow> Some (Inl e)
     | PFuel \<Rightarrow> None))"

end
