(* ===== verification/OverrideTotal.thy ===== *)
theory OverrideTotal
  imports OverrideParser
begin

text \<open>
  The parser of override expressions returns on every source: neither the depth to which the parser of
  primary expressions is unrolled nor the bound of a loop is ever reached. Every loop of the parser
  consumes a token each time, and an interpolation is shorter than the string token that holds it.
\<close>


section \<open>Every source is parsed\<close>

text \<open>The weight of a list of tokens bounds their number and the length of their texts.\<close>

definition tokw :: "overrideToken \<Rightarrow> nat" where
  "tokw t = max 1 (length (tk_text t))"

definition weight :: "overrideToken list \<Rightarrow> nat" where
  "weight ts = sum_list (map tokw ts)"

definition ended :: "overrideToken list \<Rightarrow> bool" where
  "ended ts = (ts \<noteq> [] \<and> tk_kind (last ts) = overrideTokenEOF)"

lemma ended_suffix: "ended ts \<Longrightarrow> suffix r ts \<Longrightarrow> r \<noteq> [] \<Longrightarrow> ended r"
  by (auto simp: ended_def suffix_def)

lemma advance_strict: "ended ts \<Longrightarrow> peekKind ts \<noteq> overrideTokenEOF \<Longrightarrow> ended (advance ts) \<and> strict_suffix (advance ts) ts"
  by (cases ts) (auto simp: ended_def peek_def advance_def strict_suffix_def suffix_def split: if_splits)

lemma weight_strict: "strict_suffix r ts \<Longrightarrow> weight r < weight ts \<and> length r < length ts"
proof -
  assume "strict_suffix r ts"
  then obtain p where p: "ts = p @ r" "p \<noteq> []" by (auto simp: strict_suffix_def suffix_def)
  have "0 < tokw t" for t by (simp add: tokw_def)
  then show ?thesis using p by (cases p) (auto simp: weight_def)
qed

lemma weight_pos: "ended ts \<Longrightarrow> 0 < weight ts \<and> 0 < length ts"
  by (cases ts) (auto simp: ended_def weight_def tokw_def)

text \<open>
  A result is progress when the parser neither ran out of fuel nor stood still; it is no loss when
  the parser may have stood still.
\<close>

definition progress :: "overrideToken list \<Rightarrow> 'a pres \<Rightarrow> bool" where
  "progress ts m = (case m of POk x r \<Rightarrow> ended r \<and> strict_suffix r ts | PErr e \<Rightarrow> True | PFuel \<Rightarrow> False)"

definition noloss :: "overrideToken list \<Rightarrow> 'a pres \<Rightarrow> bool" where
  "noloss ts m = (case m of POk x r \<Rightarrow> ended r \<and> suffix r ts | PErr e \<Rightarrow> True | PFuel \<Rightarrow> False)"

lemma progress_simps [simp]:
  "progress ts (POk x r) \<longleftrightarrow> ended r \<and> strict_suffix r ts" "progress ts (PErr e)" "\<not> progress ts PFuel"
  "noloss ts (POk x r) \<longleftrightarrow> ended r \<and> suffix r ts" "noloss ts (PErr e)" "\<not> noloss ts PFuel"
  by (simp_all add: progress_def noloss_def)

lemma progress_noloss: "progress ts m \<Longrightarrow> noloss ts m"
  by (cases m) (auto simp: strict_suffix_def)

lemma progress_bind:
  assumes "progress ts m" "\<And>x r. m = POk x r \<Longrightarrow> ended r \<Longrightarrow> strict_suffix r ts \<Longrightarrow> noloss r (f x r)"
  shows "progress ts (pbind m f)"
proof (cases m)
  case (POk x r)
  with assms have "noloss r (f x r)" "strict_suffix r ts" by auto
  then show ?thesis using POk by (cases "f x r") (auto simp: pbind_def intro: suffix_order.le_less_trans)
qed (use assms in \<open>simp_all add: pbind_def\<close>)

lemma noloss_bind:
  assumes "noloss ts m" "\<And>x r. m = POk x r \<Longrightarrow> ended r \<Longrightarrow> suffix r ts \<Longrightarrow> noloss r (f x r)"
  shows "noloss ts (pbind m f)"
proof (cases m)
  case (POk x r)
  with assms have "noloss r (f x r)" "suffix r ts" by auto
  then show ?thesis using POk by (cases "f x r") (auto simp: pbind_def intro: suffix_order.trans)
qed (use assms in \<open>simp_all add: pbind_def\<close>)

lemma progress_bind2:
  assumes "noloss ts m" "\<And>x r. m = POk x r \<Longrightarrow> ended r \<Longrightarrow> suffix r ts \<Longrightarrow> progress r (f x r)"
  shows "progress ts (pbind m f)"
proof (cases m)
  case (POk x r)
  with assms have "progress r (f x r)" "suffix r ts" by auto
  then show ?thesis using POk by (cases "f x r") (auto simp: pbind_def intro: suffix_order.less_le_trans)
qed (use assms in \<open>simp_all add: pbind_def\<close>)

lemma progress_advance: "ended ts \<Longrightarrow> peekKind ts \<noteq> overrideTokenEOF \<Longrightarrow> noloss (advance ts) m \<Longrightarrow> progress ts m"
  using advance_strict [of ts] by (cases m) (auto intro: suffix_order.le_less_trans)

lemma progress_expect: "ended ts \<Longrightarrow> kind \<noteq> overrideTokenEOF \<Longrightarrow> progress ts (expect kind msg ts)"
  using advance_strict [of ts] by (auto simp: expect_def)

lemma progress_lift: "ended r \<Longrightarrow> strict_suffix r ts \<Longrightarrow> progress ts (lift r m)"
  by (cases m) (simp_all add: lift_def)

lemma noloss_lift: "ended r \<Longrightarrow> suffix r ts \<Longrightarrow> noloss ts (lift r m)"
  by (cases m) (simp_all add: lift_def)

text \<open>A parser that makes progress on the tokens that are left anywhere in a list.\<close>

definition good :: "overrideToken list \<Rightarrow> 'a parser \<Rightarrow> bool" where
  "good T p = (\<forall>ts. ended ts \<and> suffix ts T \<longrightarrow> progress ts (p ts))"

lemma goodD: "good T p \<Longrightarrow> ended ts \<Longrightarrow> suffix ts T \<Longrightarrow> progress ts (p ts)"
  by (simp add: good_def)

lemma goodI: "(\<And>ts. ended ts \<Longrightarrow> suffix ts T \<Longrightarrow> progress ts (p ts)) \<Longrightarrow> good T p"
  by (simp add: good_def)

lemma good_suffix: "good T p \<Longrightarrow> suffix ts T \<Longrightarrow> good ts p"
  by (auto simp: good_def intro: suffix_order.trans)

lemma good_sepLoop:
  assumes "good T p" "\<not> sep overrideTokenEOF"
  shows "ended ts \<Longrightarrow> suffix ts T \<Longrightarrow> length ts \<le> n \<Longrightarrow> progress ts (sepLoop n p sep ts)"
proof (induction n arbitrary: ts)
  case 0
  then show ?case using weight_pos by fastforce
next
  case (Suc n)
  show ?case unfolding sepLoop.simps
  proof (rule progress_bind [OF goodD [OF assms(1) Suc.prems(1,2)]])
    fix x r assume r: "ended r" "strict_suffix r ts"
    show "noloss r (if sep (peekKind r) then pbind (sepLoop n p sep (advance r)) (\<lambda>xs r1. POk (x # xs) r1) else POk [x] r)"
    proof (cases "sep (peekKind r)")
      case True
      then have a: "ended (advance r)" "strict_suffix (advance r) r" using advance_strict [OF r(1)] assms(2) by metis+
      then have "suffix (advance r) T" using r(2) Suc.prems(2) by (meson suffix_order.less_imp_le suffix_order.trans)
      then have "progress (advance r) (sepLoop n p sep (advance r))"
        using weight_strict [OF a(2)] weight_strict [OF r(2)] Suc.prems a(1) by (intro Suc.IH) auto
      then have "progress (advance r) (pbind (sepLoop n p sep (advance r)) (\<lambda>xs r1. POk (x # xs) r1))"
        by (rule progress_bind) simp
      then show ?thesis using a True progress_noloss [OF progress_advance [OF r(1)]] progress_noloss assms(2) by metis
    qed (use r in simp)
  qed
qed

lemma good_sep: "good T p \<Longrightarrow> \<not> sep overrideTokenEOF \<Longrightarrow> good T (\<lambda>ts. pbind (sepLoop (length ts) p sep ts) (\<lambda>xs r. POk (f xs) r))"
  by (rule goodI) (rule progress_bind [OF good_sepLoop], auto)

section \<open>Paths\<close>

lemma noloss_advance: "ended ts \<Longrightarrow> ended (advance ts) \<and> suffix (advance ts) ts"
  using advance_strict [of ts] by (auto simp: advance_def strict_suffix_def)

lemma fieldSegment_progress: "ended ts \<Longrightarrow> isField (peekKind ts) \<Longrightarrow> progress ts (fieldSegment ts)"
  unfolding fieldSegment_def
  by (rule progress_bind, rule progress_lift) (auto simp: isField_def dest: advance_strict)

lemma indexSegment_progress:
  assumes "ended ts" "peekKind ts = overrideTokenNumber \<or> peekKind ts = overrideTokenMinus"
  shows "progress ts (indexSegment ts)"
proof -
  have a: "ended (advance ts)" "strict_suffix (advance ts) ts" using assms advance_strict [of ts] by auto
  have e: "noloss (advance ts) (pbind (expect overrideTokenNumber msg (advance ts)) (\<lambda>number r. POk (f number) r))"
    for msg and f :: "overrideToken \<Rightarrow> string"
    by (rule progress_noloss, rule progress_bind [OF progress_expect [OF a(1)]]) auto
  show ?thesis unfolding indexSegment_def Let_def
    by (rule progress_bind [of ts])
      (use a assms in \<open>auto intro!: progress_advance [OF assms(1)] e split: option.split\<close>)
qed

lemma progress_close:
  assumes "noloss ts m" "close \<noteq> overrideTokenEOF" "\<And>x r. ended r \<Longrightarrow> suffix r ts \<Longrightarrow> noloss r (f x r)"
  shows "progress ts (pbind m (\<lambda>x r. pbind (expect close msg r) (\<lambda>_ r2. f x r2)))"
proof (rule progress_bind2 [OF assms(1)])
  fix x r assume r: "ended r" "suffix r ts"
  show "progress r (pbind (expect close msg r) (\<lambda>_ r2. f x r2))"
    by (rule progress_bind [OF progress_expect [OF r(1) assms(2)]])
      (use assms(3) r(2) in \<open>auto intro: suffix_order.trans simp: strict_suffix_def\<close>)
qed

lemma pathSegment_noloss: "ended ts \<Longrightarrow> noloss ts (pathSegment ts)"
  and pathSegment_Some: "ended ts \<Longrightarrow> pathSegment ts = POk (Some s) r \<Longrightarrow> strict_suffix r ts"
proof -
  assume e: "ended ts"
  have P: "progress ts (pathSegment ts) \<or> pathSegment ts = POk None ts"
  proof (cases "peekKind ts = overrideTokenDot")
    case True
    then have a: "ended (advance ts)" using advance_strict [OF e] by simp
    have "isField (peekKind (advance ts)) \<Longrightarrow> noloss (advance ts) (pbind (fieldSegment (advance ts)) (\<lambda>seg r1. POk (Some seg) r1))"
      by (rule progress_noloss, rule progress_bind [OF fieldSegment_progress [OF a]]) auto
    then show ?thesis using True by (auto simp: pathSegment_def Let_def intro!: progress_advance [OF e])
  next
    case F: False
    show ?thesis
    proof (cases "peekKind ts = overrideTokenLeftBracket")
      case True
      let ?r = "advance ts"
      have a: "ended ?r" "strict_suffix ?r ts" using advance_strict [OF e] True by simp_all
      have "noloss ?r (pbind (if isField (peekKind ?r) then fieldSegment ?r
              else if peekKind ?r = overrideTokenNumber \<or> peekKind ?r = overrideTokenMinus then indexSegment ?r
              else PErr (errorf (peek ?r) msg)) (\<lambda>seg r1. pbind (expect overrideTokenRightBracket msg2 r1) (\<lambda>_ r2. POk (Some seg) r2)))" for msg msg2
        by (rule progress_noloss, rule progress_close)
          (use a fieldSegment_progress [OF a(1), THEN progress_noloss] indexSegment_progress [OF a(1), THEN progress_noloss] in \<open>simp_all\<close>)
      then show ?thesis using True noloss_advance [OF a(1)] suffix_order.le_less_trans [OF _ a(2)]
        by (auto simp: pathSegment_def Let_def intro!: progress_advance [OF e])
    qed (use F in \<open>simp add: pathSegment_def\<close>)
  qed
  show "noloss ts (pathSegment ts)" using P progress_noloss e by fastforce
  show "pathSegment ts = POk (Some s) r \<Longrightarrow> strict_suffix r ts" using P by auto
qed

lemma pathLoop_noloss: "ended ts \<Longrightarrow> length ts \<le> n \<Longrightarrow> noloss ts (pathLoop n segs ts)"
proof (induction n arbitrary: segs ts)
  case 0
  then show ?case using weight_pos by fastforce
next
  case (Suc n)
  show ?case unfolding pathLoop.simps
  proof (rule noloss_bind [OF pathSegment_noloss [OF Suc.prems(1)]])
    fix seg r assume r: "pathSegment ts = POk seg r" "ended r" "suffix r ts"
    show "noloss r (case seg of None \<Rightarrow> POk segs r | Some s \<Rightarrow> pathLoop n (segs @ [s]) r)"
    proof (cases seg)
      case (Some s)
      with r have "strict_suffix r ts" using pathSegment_Some [OF Suc.prems(1)] by simp
      then show ?thesis using weight_strict [of r ts] Suc.prems(2) Some by (auto intro!: Suc.IH r(2))
    qed (use r in simp)
  qed
qed

lemma parsePath_progress: "ended ts \<Longrightarrow> progress ts (parsePath ts)"
  unfolding parsePath_def
proof (rule progress_bind [OF progress_expect], simp_all)
  fix r :: "overrideToken list" assume r: "ended r"
  have "isField (peekKind r) \<Longrightarrow> noloss r (pbind (fieldSegment r) (\<lambda>seg r1. pathLoop (length r1) [seg] r1))"
    by (rule progress_noloss, rule progress_bind [OF fieldSegment_progress [OF r]]) (auto intro: pathLoop_noloss)
  then show "(isField (peekKind r) \<longrightarrow> noloss r (pbind (fieldSegment r) (\<lambda>seg r1. pathLoop (length r1) [seg] r1))) \<and>
    (\<not> isField (peekKind r) \<longrightarrow> noloss r (pathLoop (length r) [] r))"
    by (simp add: pathLoop_noloss r)
qed

section \<open>Operator levels\<close>

lemma binLoop_noloss:
  assumes "good T operand" "\<And>t. operator t \<noteq> None \<Longrightarrow> tk_kind t \<noteq> overrideTokenEOF"
  shows "ended ts \<Longrightarrow> suffix ts T \<Longrightarrow> length ts \<le> n \<Longrightarrow> noloss ts (binLoop n operator operand left ts)"
proof (induction n arbitrary: left ts)
  case 0
  then show ?case using weight_pos by fastforce
next
  case (Suc n)
  show ?case
  proof (cases "operator (peek ts)")
    case (Some op)
    then have k: "peekKind ts \<noteq> overrideTokenEOF" using assms(2) by simp
    note a = advance_strict [OF Suc.prems(1) k]
    have s: "suffix (advance ts) T" using a Suc.prems(2) by (auto simp: strict_suffix_def intro: suffix_order.trans)
    have "noloss (advance ts) (pbind (operand (advance ts)) (\<lambda>right r. binLoop n operator operand (overrideBinaryExpr op left right) r))"
    proof (rule progress_noloss, rule progress_bind [OF goodD [OF assms(1) _ s]])
      fix x r assume r: "ended r" "strict_suffix r (advance ts)"
      then show "noloss r (binLoop n operator operand (overrideBinaryExpr op left x) r)"
        using weight_strict [OF r(2)] weight_strict [of "advance ts" ts] a s Suc.prems(3)
        by (intro Suc.IH) (auto simp: strict_suffix_def intro: suffix_order.trans)
    qed (use a in simp)
    then show ?thesis using progress_noloss [OF progress_advance [OF Suc.prems(1) k]] Some by simp
  qed (use Suc.prems in simp)
qed

lemma good_binLevel:
  assumes "good T operand" "\<And>t. operator t \<noteq> None \<Longrightarrow> tk_kind t \<noteq> overrideTokenEOF"
  shows "good T (binLevel operator operand)"
proof (rule goodI)
  fix ts assume ts: "ended ts" "suffix ts T"
  show "progress ts (binLevel operator operand ts)" unfolding binLevel_def
    by (rule progress_bind [OF goodD [OF assms(1) ts]])
      (use ts(2) in \<open>auto intro!: binLoop_noloss [OF assms] simp: strict_suffix_def intro: suffix_order.trans\<close>)
qed

lemma good_parseUnary:
  assumes "good T prim" shows "good T (parseUnary prim)"
proof (rule goodI)
  fix ts assume ts: "ended ts" "suffix ts T"
  show "progress ts (parseUnary prim ts)"
  proof (cases "peekKind ts = overrideTokenMinus")
    case True
    then have "ended (advance ts)" using advance_strict [OF ts(1)] by simp
    then have "peekKind (advance ts) = overrideTokenNumber \<Longrightarrow> noloss (advance ts) (lift (advance (advance ts)) m)" for m :: "overrideValueExpr result"
      by (intro noloss_lift) (auto dest: noloss_advance)
    then show ?thesis using True by (auto simp: parseUnary_def Let_def intro!: progress_advance [OF ts(1)])
  qed (use goodD [OF assms ts] in \<open>simp add: parseUnary_def\<close>)
qed

lemma good_levels:
  assumes "good T prim"
  shows "good T (parseAlternative prim)" "good T (parseOr prim)"
proof -
  show a: "good T (parseAlternative prim)"
    unfolding parseAlternative_def parseComparison_def parseAdditive_def parseMultiplicative_def
    by (intro good_binLevel good_parseUnary assms) (auto simp: byKind_def split: if_splits)
  show "good T (parseOr prim)"
    unfolding parseOr_def parseAnd_def by (intro good_binLevel a) (auto simp: byName_def split: if_splits)
qed

section \<open>Value expressions\<close>

lemma good_parseStage:
  assumes "good T prim" "\<And>r. strict_suffix r T \<Longrightarrow> good r v"
  shows "good T (parseStage v prim low)"
proof (rule goodI)
  fix ts assume ts: "ended ts" "suffix ts T"
  have levels: "progress ts (if low then parseOr prim ts else parseAlternative prim ts)"
    using good_levels [OF assms(1)] ts by (simp add: good_def)
  have update: "progress ts m" if m: "parseValueUpdateExpression v ts = Some m" for m
  proof -
    have p: "progress ts (parsePath ts)" by (rule parsePath_progress [OF ts(1)])
    with m obtain path r where r: "parsePath ts = POk path r" "isOverrideAssignmentToken (peekKind r)"
      "m = pbind (v (advance r)) (\<lambda>x r1. POk (overrideValueUpdateExpr path (peekKind r) x) r1)"
      by (auto simp: parseValueUpdateExpression_def split: if_splits pres.splits)
    then have k: "peekKind r \<noteq> overrideTokenEOF" by (auto simp: isOverrideAssignmentToken_def)
    have e: "ended r" "strict_suffix r ts" using p r(1) by auto
    note a = advance_strict [OF e(1) k]
    have s: "strict_suffix (advance r) T" using a e(2) ts(2) by (auto intro: suffix_order.less_trans suffix_order.less_le_trans)
    have "progress (advance r) m" unfolding r(3)
      by (rule progress_bind [OF goodD [OF assms(2) [OF s]]]) (use a in auto)
    then have "progress r m" by (intro progress_advance [OF e(1) k] progress_noloss)
    then show ?thesis using e(2) by (cases m) (auto intro: suffix_order.less_trans)
  qed
  show "progress ts (parseStage v prim low ts)"
    using levels update by (auto simp: parseStage_def split: option.splits)
qed

lemma good_parseValueExpression:
  "good T prim \<Longrightarrow> length T \<le> n \<Longrightarrow> good T (parseValueExpression n prim low)"
proof (induction n arbitrary: T low)
  case 0
  then show ?case using weight_pos by (auto simp: good_def suffix_def)
next
  case (Suc n)
  have stage: "good T (parseStage (parseValueExpression n prim False) prim low')" for low'
  proof (rule good_parseStage [OF Suc.prems(1)])
    fix r assume r: "strict_suffix r T"
    then show "good r (parseValueExpression n prim False)"
      using weight_strict [OF r] Suc.prems(2) by (intro Suc.IH good_suffix [OF Suc.prems(1)]) (auto simp: strict_suffix_def)
  qed
  show ?case
  proof (cases low)
    case True
    then show ?thesis using good_sep [OF stage [of True], of "\<lambda>k. k = overrideTokenPipe" "oneOr overridePipelineExpr"]
      by (simp add: good_def)
  qed (use stage [of False] in \<open>simp add: good_def\<close>)
qed

lemma good_parseValue: "good T prim \<Longrightarrow> good T (parseValue prim low)"
  by (rule goodI) (auto simp: parseValue_def intro: goodD [OF good_parseValueExpression [OF good_suffix]])

lemma good_parseUnionExpression: "good T prim \<Longrightarrow> good T (parseUnionExpression prim low)"
  using good_sep [OF good_parseValue, of T prim "\<lambda>k. k = overrideTokenComma" low "oneOr overrideUnionExpr"]
  by (simp add: good_def parseUnionExpression_def)

section \<open>The lexer\<close>

lemma scanOverrideString_length: "scanOverrideString s = Some t \<Longrightarrow> length t < length s"
  by (induction s arbitrary: t rule: scanOverrideString.induct) (auto split: if_splits list.splits)

lemma takeWhile_drop_length: "k + length (takeWhile P (drop k s)) \<le> max k (length s)"
  using length_takeWhile_le [of P "drop k s"] by (auto simp: max_def)

lemma scanOverrideNumber_le: "scanOverrideNumber s \<le> length s"
proof -
  have D: "k \<le> length s \<Longrightarrow> k + length (takeWhile P (drop k s)) \<le> length s" for k P
    using takeWhile_drop_length [of k P s] by simp
  define a where "a = length (takeWhile is_digit s)"
  define b where "b = (if a < length s \<and> s ! a = CHR ''.'' then a + 1 + length (takeWhile is_digit (drop (a + 1) s)) else a)"
  have "a \<le> length s" unfolding a_def by (rule length_takeWhile_le)
  then have "b \<le> length s" using D [of "a + 1" is_digit] by (auto simp: b_def)
  then show ?thesis
    using D [of 2 "\<lambda>c. hex_digit c \<noteq> None"] D [of "b + 1" is_digit] D [of "b + 2" is_digit]
    unfolding scanOverrideNumber_def a_def [symmetric] Let_def b_def [symmetric] by (auto simp: Suc_le_eq)
qed

lemma lexSymbol_width: "s \<noteq> [] \<Longrightarrow> lexSymbol s = Some (k, n) \<Longrightarrow> n \<le> length s \<and> k \<noteq> overrideTokenEOF"
  unfolding lexSymbol_def Let_def by (cases s) (auto simp: orNext_def Suc_le_eq split: if_splits)

text \<open>The text of a token is part of the bytes that it takes.\<close>

lemma lexToken_width:
  assumes "s \<noteq> []" "lexToken pos s = Inr (t, n)"
  shows "tokw t \<le> n \<and> n \<le> length s"
proof -
  have "length (takeWhile isOverrideIdentifierPart (tl s)) < length s"
    using assms(1) length_takeWhile_le [of isOverrideIdentifierPart "tl s"] by (cases s) auto
  moreover have "scanOverrideString (tl s) = Some u \<Longrightarrow> length u + 2 \<le> length s" for u
    using scanOverrideString_length [of "tl s" u] by (cases s) auto
  ultimately show ?thesis
    using assms lexToken_pos [OF assms] scanOverrideNumber_le [of s] lexSymbol_width [of s]
    by (fastforce simp: lexToken_def Let_def tokw_def mkToken_def split: option.splits if_splits)
qed

lemma lexLoop_weight: "lexLoop pos s = Inr ts \<Longrightarrow> weight ts \<le> length s"
proof (induction pos s arbitrary: ts rule: lexLoop.induct)
  case (1 pos s)
  show ?case
  proof (cases "s = [] \<or> unicode_IsSpace (hd s) \<or> hd s = CHR ''#''")
    case True
    then show ?thesis using "1.prems" "1.IH"(1) by (cases s) (auto simp: lexLoop.simps [of pos] weight_def split: if_splits intro: le_SucI)
  next
    case False
    with "1.prems" obtain t n ts' where t: "lexToken pos s = Inr (t, n)"
      "lexLoop (pos + int n) (drop n s) = Inr ts'" "ts = t # ts'"
      by (auto simp: lexLoop.simps [of pos s] map_sum_def split: sum.splits)
    then have "weight ts' \<le> length s - n" using "1.IH"(2) False by fastforce
    then show ?thesis using lexToken_width [of s pos t n] t False by (auto simp: weight_def)
  qed
qed

lemma lexOverrideExpr_weight:
  assumes "lexOverrideExpr source = Inr ts"
  shows "ended ts \<and> weight ts \<le> length source + 1"
proof -
  from assms obtain us where "lexLoop 0 source = Inr us" "ts = us @ [mkToken overrideTokenEOF [] (int (length source))]"
    by (auto simp: lexOverrideExpr_def map_sum_def split: sum.splits)
  then show ?thesis using lexLoop_weight [of 0 source us] by (simp add: ended_def weight_def tokw_def mkToken_def)
qed

section \<open>Strings\<close>

lemma splitRaw_length: "RawExpression raw \<in> set (splitRaw s acc column) \<Longrightarrow> length raw + 3 \<le> length s"
proof (induction s acc column rule: splitRaw.induct)
  case (2 c s acc column)
  show ?case
  proof (cases "c \<noteq> backslash \<or> s = []")
    case True
    then show ?thesis using 2 by auto
  next
    case c: False
    show ?thesis
    proof (cases "hd s \<noteq> CHR ''(''")
      case True
      then show ?thesis using 2 c by (cases s) auto
    next
      case False
      then show ?thesis
        using c 2 interpolation_end_bound [of "tl s" 0 False] by (cases s) (fastforce split: option.splits)+
    qed
  qed
qed simp

lemma unescapeQuotes_length: "length (unescapeQuotes s) \<le> length s"
  by (induction s rule: unescapeQuotes.induct) auto

lemma buildParts_returns:
  "(\<And>raw. RawExpression raw \<in> set parts \<Longrightarrow> interp (unescapeQuotes raw) \<noteq> PFuel) \<Longrightarrow> buildParts interp token parts \<noteq> PFuel"
proof (induction interp token parts rule: buildParts.induct)
  case (2 interp token raw column parts)
  then show ?case by (cases "decodeOverrideString raw column"; cases "buildParts interp token parts") (auto simp: pbind_def lift_def)
next
  case (4 interp token raw parts)
  then have "buildParts interp token parts \<noteq> PFuel" "interp (unescapeQuotes raw) \<noteq> PFuel" by auto
  then show ?case by (cases "interp (unescapeQuotes raw)"; cases "buildParts interp token parts") (auto simp: pbind_def)
qed simp_all

lemma parseOverrideValueExpr_returns:
  assumes "\<And>T. ended T \<Longrightarrow> weight T \<le> length source + 1 \<Longrightarrow> good T prim"
  shows "parseOverrideValueExpr prim source \<noteq> PFuel"
proof (cases "lexOverrideExpr source")
  case (Inr tokens)
  then have t: "ended tokens" "weight tokens \<le> length source + 1" using lexOverrideExpr_weight by auto
  have "progress tokens (parseUnionExpression prim True tokens)"
    using goodD [OF good_parseUnionExpression [OF assms [OF t]] t(1)] by simp
  then show ?thesis using Inr by (cases "parseUnionExpression prim True tokens") (auto simp: parseOverrideValueExpr_def pbind_def)
qed (simp add: parseOverrideValueExpr_def)

lemma parseString_returns:
  assumes "\<And>T. ended T \<Longrightarrow> weight T \<le> n \<Longrightarrow> good T prim" "length (tk_text token) \<le> Suc n"
  shows "parseString (parseOverrideValueExpr prim) token \<noteq> PFuel"
proof -
  let ?raws = "splitRaw (tk_text token) [] (tk_pos token + 1)"
  have "buildParts (parseOverrideValueExpr prim) token ?raws \<noteq> PFuel"
  proof (rule buildParts_returns, rule parseOverrideValueExpr_returns)
    fix raw T assume "RawExpression raw \<in> set ?raws" "ended T" "weight T \<le> length (unescapeQuotes raw) + 1"
    then show "good T prim"
      using splitRaw_length [of raw] unescapeQuotes_length [of raw] assms(2) by (intro assms(1)) fastforce+
  qed
  then show ?thesis by (cases "buildParts (parseOverrideValueExpr prim) token ?raws") (auto simp: parseString_def Let_def pbind_def)
qed

section \<open>Primary expressions\<close>

lemma good_sepLoop_all: "good ts p \<Longrightarrow> \<not> sep overrideTokenEOF \<Longrightarrow> ended ts \<Longrightarrow> noloss ts (sepLoop (length ts) p sep ts)"
  by (rule progress_noloss, rule good_sepLoop) auto

lemma parseArgs_noloss:
  assumes "good ts prim" "ended ts"
  shows "noloss ts (parseArgs prim ts)"
proof (cases "peekKind ts = overrideTokenLeftParen")
  case True
  let ?r = "advance ts"
  have r: "ended ?r" "suffix ?r ts" using noloss_advance [OF assms(2)] by auto
  have "noloss ?r (pbind (sepLoop (length ?r) (parseValue prim True) (\<lambda>k. k = overrideTokenComma \<or> k = overrideTokenSemicolon) ?r) (\<lambda>args r1.
      pbind (expect overrideTokenRightParen msg r1) (\<lambda>_ r2. POk args r2)))" for msg
    by (rule progress_noloss, rule progress_close [OF good_sepLoop_all])
      (use r good_parseValue [OF good_suffix [OF assms(1) r(2)]] in auto)
  then have "progress ts (parseArgs prim ts)"
    using True noloss_advance [OF r(1)] progress_advance [OF assms(2), of "POk [] (advance ?r)"]
    by (auto simp: parseArgs_def Let_def simp del: progress_simps(1) intro!: progress_advance [OF assms(2)])
  then show ?thesis by (rule progress_noloss)
qed (use assms in \<open>simp add: parseArgs_def\<close>)

lemma parseBracketed_noloss:
  assumes "good ts item" "ended ts" "close \<noteq> overrideTokenEOF"
  shows "noloss ts (parseBracketed close msg item ts)"
proof -
  have "noloss ts (pbind (sepLoop (length ts) item (\<lambda>k. k = overrideTokenComma) ts) (\<lambda>xs r. pbind (expect close msg r) (\<lambda>_ r1. POk xs r1)))"
    by (rule progress_noloss, rule progress_close [OF good_sepLoop_all]) (use assms in auto)
  then show ?thesis using noloss_advance [OF assms(2)] by (simp add: parseBracketed_def)
qed

lemma good_parseEntry:
  assumes "good T prim" shows "good T (parseEntry prim)"
proof (rule goodI)
  fix ts assume ts: "ended ts" "suffix ts T"
  show "progress ts (parseEntry prim ts)"
  proof (cases "peekKind ts = overrideTokenString")
    case True
    let ?r = "advance ts"
    have r: "ended ?r" "suffix ?r T" using noloss_advance [OF ts(1)] ts(2) by (auto intro: suffix_order.trans)
    have v: "good T (parseValue prim True)" by (rule good_parseValue [OF assms])
    have "noloss ?r (pbind (expect overrideTokenColon msg ?r) (\<lambda>_ r.
        pbind (lift r m) (\<lambda>name r1. pbind (parseValue prim True r1) (\<lambda>v r2. POk (MapEntry name v) r2))))" for msg m
    proof (rule progress_noloss, rule progress_bind [OF progress_expect [OF r(1)]])
      fix r' assume r': "ended r'" "strict_suffix r' ?r"
      show "noloss r' (pbind (lift r' m) (\<lambda>name r1. pbind (parseValue prim True r1) (\<lambda>v r2. POk (MapEntry name v) r2)))"
      proof (rule noloss_bind [OF noloss_lift [OF r'(1) suffix_order.refl]], rule progress_noloss, rule progress_bind)
        fix r1 assume "ended r1" "suffix r1 r'"
        then show "progress r1 (parseValue prim True r1)"
          using r'(2) r(2) by (intro goodD [OF v]) (auto simp: strict_suffix_def intro: suffix_order.trans)
      qed auto
    qed simp
    then show ?thesis using True by (auto simp: parseEntry_def Let_def intro!: progress_advance [OF ts(1)])
  qed (simp add: parseEntry_def Let_def)
qed

lemma primaryStep_progress:
  assumes prim: "\<And>T. ended T \<Longrightarrow> weight T \<le> n \<Longrightarrow> good T prim" and ts: "ended ts" "weight ts \<le> Suc n"
  shows "progress ts (primaryStep prim ts)"
proof (cases "peekKind ts = overrideTokenEOF")
  case False
  let ?r = "advance ts"
  have r: "ended ?r" "strict_suffix ?r ts" using advance_strict [OF ts(1) False] by auto
  then have good: "good ?r prim" using weight_strict [OF r(2)] ts(2) by (intro prim) auto
  note adv = progress_advance [OF ts(1) False]
  have textlen: "length (tk_text (peek ts)) \<le> Suc n"
    using ts by (cases ts) (auto simp: weight_def tokw_def peek_def ended_def)
  have str: "progress ts (pbind (parseString (parseOverrideValueExpr prim) (peek ts)) (\<lambda>e _. POk e ?r))"
    using parseString_returns [OF prim textlen] r by (cases "parseString (parseOverrideValueExpr prim) (peek ts)") (auto simp: pbind_def)
  have paren: "noloss ?r (pbind (parseUnionExpression prim True ?r) (\<lambda>e r1. pbind (expect overrideTokenRightParen msg r1) (\<lambda>_ r2. POk e r2)))" for msg
    by (rule progress_noloss, rule progress_close, rule progress_noloss)
      (use goodD [OF good_parseUnionExpression [OF good] r(1)] in auto)
  have bracket: "noloss ?r (pbind (parseBracketed overrideTokenRightBracket msg (parseValue prim True) ?r) (\<lambda>es r1. POk (overrideArrayExpr es) r1))" for msg
    by (rule noloss_bind [OF parseBracketed_noloss [OF good_parseValue [OF good]]]) (use r in auto)
  have brace: "noloss ?r (pbind (parseBracketed overrideTokenRightBrace msg (parseEntry prim) ?r) (\<lambda>es r1. POk (overrideMapExpr es) r1))" for msg
    by (rule noloss_bind [OF parseBracketed_noloss [OF good_parseEntry [OF good]]]) (use r in auto)
  have ident: "noloss ?r (parseIdentifier prim t ?r)" for t
  proof -
    have "noloss ?r (pbind (parseArgs prim ?r) (\<lambda>args q. if c then PErr e else if d then POk (f args) q else POk (g args) q))"
      for c d e and f g :: "overrideValueExpr list \<Rightarrow> overrideValueExpr"
      by (rule noloss_bind [OF parseArgs_noloss [OF good r(1)]]) auto
    then show ?thesis using r(1) by (simp add: parseIdentifier_def Let_def)
  qed
  have path: "progress ts (pbind (parsePath ts) (\<lambda>path r1. POk (overridePathExpr path) r1))"
    by (rule progress_bind [OF parsePath_progress [OF ts(1)]]) auto
  have number: "progress ts (lift ?r (parseNumber (peek ts)))" using r by (rule progress_lift)
  show ?thesis unfolding primaryStep_def Let_def
    using str path number adv [OF paren] adv [OF bracket] adv [OF brace] adv [OF ident]
    by (cases "peekKind ts") simp_all
qed (simp add: primaryStep_def Let_def)

lemma good_parsePrimary: "ended T \<Longrightarrow> weight T \<le> n \<Longrightarrow> good T (parsePrimary n)"
proof (induction n arbitrary: T)
  case 0
  then show ?case using weight_pos [of T] by simp
next
  case (Suc n)
  show ?case
  proof (rule goodI)
    fix ts assume ts: "ended ts" "suffix ts T"
    then have "weight ts \<le> weight T" using weight_strict [of ts T] by (cases "ts = T") (auto simp: strict_suffix_def)
    then show "progress ts (parsePrimary (Suc n) ts)"
      using primaryStep_progress [OF Suc.IH ts(1)] Suc.prems(2) by simp
  qed
qed

section \<open>Statements\<close>

lemma parseTargetStage_progress:
  assumes "good T prim" shows "good T (parseTargetStage prim)"
proof (rule goodI)
  fix ts assume ts: "ended ts" "suffix ts T"
  show "progress ts (parseTargetStage prim ts)"
  proof (cases "peekIdentifier ''select'' ts")
    case True
    then have k: "peekKind ts \<noteq> overrideTokenEOF" by (simp add: peekIdentifier_def)
    let ?r = "advance ts"
    have r: "ended ?r" "suffix ?r T" using noloss_advance [OF ts(1)] ts(2) by (auto intro: suffix_order.trans)
    have "noloss ?r (pbind (expect overrideTokenLeftParen m1 ?r) (\<lambda>_ r. pbind (parseValue prim True r) (\<lambda>condition r1.
        pbind (expect overrideTokenRightParen m2 r1) (\<lambda>_ r2. POk (StageCondition condition) r2))))" for m1 m2
    proof (rule progress_noloss, rule progress_bind [OF progress_expect [OF r(1)]])
      fix r' assume r': "ended r'" "strict_suffix r' ?r"
      then have "progress r' (parseValue prim True r')"
        using r(2) by (intro goodD [OF good_parseValue [OF assms]]) (auto simp: strict_suffix_def intro: suffix_order.trans)
      then show "noloss r' (pbind (parseValue prim True r') (\<lambda>condition r1. pbind (expect overrideTokenRightParen m2 r1) (\<lambda>_ r2. POk (StageCondition condition) r2)))"
        by (rule progress_noloss [OF progress_close [OF progress_noloss]]) auto
    qed simp
    then show ?thesis using True by (simp add: parseTargetStage_def progress_advance [OF ts(1) k])
  next
    case False
    have "progress ts (pbind (parsePath ts) (\<lambda>path r. POk (StagePath path) r))"
      by (rule progress_bind [OF parsePath_progress [OF ts(1)]]) auto
    then show ?thesis using False by (simp add: parseTargetStage_def)
  qed
qed

lemma enclosed_progress:
  assumes "ended ts" "\<And>r. suffix r ts \<Longrightarrow> good r item" "\<not> sep overrideTokenEOF" "\<And>xs r. ended r \<Longrightarrow> noloss r (f xs r)"
  shows "progress ts (pbind (expect overrideTokenLeftParen m1 ts) (\<lambda>_ r. pbind (sepLoop (length r) item sep r) (\<lambda>xs r1.
    pbind (expect overrideTokenRightParen m2 r1) (\<lambda>_ r2. f xs r2))))"
proof (rule progress_bind [OF progress_expect [OF assms(1)]])
  fix r assume r: "ended r" "strict_suffix r ts"
  then have "good r item" by (intro assms(2)) (auto simp: strict_suffix_def)
  then show "noloss r (pbind (sepLoop (length r) item sep r) (\<lambda>xs r1. pbind (expect overrideTokenRightParen m2 r1) (\<lambda>_ r2. f xs r2)))"
    by (rule progress_noloss [OF progress_close [OF good_sepLoop_all]]) (use r assms(3,4) in auto)
qed simp

lemma good_parseStatement:
  assumes "good T prim" shows "good T (parseStatement prim)"
proof (rule goodI)
  fix ts assume ts: "ended ts" "suffix ts T"
  have g: "good r prim" if "suffix r ts" for r using good_suffix [OF assms] that ts(2) by (blast intro: suffix_order.trans)
  have path: "good r parsePath" for r by (rule goodI) (rule parsePath_progress)
  have del: "progress ts (parseDelete ts)" if "peekIdentifier ''del'' ts"
  proof -
    have k: "peekKind ts \<noteq> overrideTokenEOF" using that by (simp add: peekIdentifier_def)
    show ?thesis unfolding parseDelete_def
      by (rule progress_advance [OF ts(1) k], rule progress_noloss, rule enclosed_progress [OF _ path])
        (use noloss_advance [OF ts(1)] in auto)
  qed
  have filt: "progress ts (pbind (parseUnionExpression prim True ts) (\<lambda>e r. POk (overrideFilterStatement e) r))"
    by (rule progress_bind [OF goodD [OF good_parseUnionExpression [OF assms] ts]]) auto
  let ?head = "if peekKind ts = overrideTokenLeftParen
    then pbind (parseAssignmentTarget prim ts) (\<lambda>stages r. POk ([], Some stages) r)
    else pbind (parsePath ts) (\<lambda>path r. POk (path, None) r)"
  have target: "progress ts (parseAssignmentTarget prim ts)" unfolding parseAssignmentTarget_def
    by (rule enclosed_progress [OF ts(1) parseTargetStage_progress [OF g]]) auto
  have head: "progress ts ?head"
    using progress_bind [OF target, of "\<lambda>stages r. POk ([], Some stages) r"]
      progress_bind [OF parsePath_progress [OF ts(1)], of "\<lambda>path r. POk (path, None) r"] by auto
  have assign: "progress ts (pbind ?head (\<lambda>(path, target) r.
      if \<not> isOverrideAssignmentToken (peekKind r) then PErr (errorf (peek r) msg)
      else pbind (parseValue prim False (advance r)) (\<lambda>v r1. POk (overrideAssignStatement path target (peekKind r) v) r1)))" for msg
  proof (rule progress_bind [OF head], clarsimp, rule progress_noloss)
    fix path target r assume r: "ended r" "strict_suffix r ts" "isOverrideAssignmentToken (peekKind r)"
    then have k: "peekKind r \<noteq> overrideTokenEOF" by (auto simp: isOverrideAssignmentToken_def)
    note a = advance_strict [OF r(1) k]
    have "good (advance r) (parseValue prim False)"
      using a r(2) by (intro good_parseValue g) (auto simp: strict_suffix_def intro: suffix_order.trans)
    then have "progress (advance r) (parseValue prim False (advance r))" using a by (intro goodD) auto
    then have "progress (advance r) (pbind (parseValue prim False (advance r)) (\<lambda>v r1. POk (overrideAssignStatement path target (peekKind r) v) r1))"
      by (rule progress_bind) auto
    then show "progress r (pbind (parseValue prim False (advance r)) (\<lambda>v r1. POk (overrideAssignStatement path target (peekKind r) v) r1))"
      by (intro progress_advance [OF r(1) k] progress_noloss)
  qed
  show "progress ts (parseStatement prim ts)"
    unfolding parseStatement_def using del filt assign by simp
qed

lemma statementLoop_progress:
  assumes "good T prim"
  shows "ended ts \<Longrightarrow> suffix ts T \<Longrightarrow> length ts \<le> n \<Longrightarrow> progress ts (statementLoop n prim ts)"
proof (induction n arbitrary: ts)
  case 0
  then show ?case using weight_pos by fastforce
next
  case (Suc n)
  show ?case unfolding statementLoop.simps Let_def
  proof (rule progress_bind [OF goodD [OF good_parseStatement [OF assms] Suc.prems(1,2)]])
    fix s r assume r: "ended r" "strict_suffix r ts"
    have more: "noloss r (pbind (statementLoop n prim (advance r)) (\<lambda>ss r2. POk (s # ss) r2))" if "peekKind r = overrideTokenPipe"
    proof (rule progress_noloss, rule progress_advance [OF r(1)], simp add: that, rule progress_noloss, rule progress_bind)
      have a: "ended (advance r)" "strict_suffix (advance r) r" using advance_strict [OF r(1)] that by auto
      then have "suffix (advance r) T" using r(2) Suc.prems(2) by (auto simp: strict_suffix_def intro: suffix_order.trans)
      then show "progress (advance r) (statementLoop n prim (advance r))"
        using weight_strict [OF a(2)] weight_strict [OF r(2)] Suc.prems(3) a(1) by (intro Suc.IH) auto
    qed auto
    then show "noloss r (if peekKind r \<noteq> overrideTokenPipe then POk [s] r
      else if peekKind (advance r) = overrideTokenEOF then PErr (errorf (peek (advance r)) ''expected expression after pipe'')
      else pbind (statementLoop n prim (advance r)) (\<lambda>ss r2. POk (s # ss) r2))" using r by simp
  qed
qed

lemma parse_returns:
  assumes "lexOverrideExpr source = Inr tokens"
  shows "parse (parsePrimary (length source + 1)) tokens \<noteq> PFuel"
proof -
  have t: "ended tokens" "weight tokens \<le> length source + 1" using lexOverrideExpr_weight [OF assms] by auto
  note p = statementLoop_progress [OF good_parsePrimary [OF t] t(1) suffix_order.refl order.refl]
  then show ?thesis
    by (cases "statementLoop (length tokens) (parsePrimary (length source + 1)) tokens")
      (auto simp: parse_def pbind_def)
qed

text \<open>
  C14. Parsing an override expression ends on every source text: \<open>NewOverrideExpr\<close> gives an expression or an
  error message, and the unrolling of its recursion to the length of the source is never exhausted.
\<close>

theorem NewOverrideExpr_returns: "\<exists>r. NewOverrideExpr source = Some r"
  using parse_returns [of source]
  by (auto simp: NewOverrideExpr_def split: sum.split pres.split)

end
