(* ===== verification/OverrideProps.thy ===== *)
theory OverrideProps
  imports OverrideTotal
begin

text \<open>
  What override expressions do to a mapping: assignments and deletions touch the place they name and no
  other, the mappings keep their form, sorting, entries and quoted texts, and integers.
\<close>

section \<open>Mappings\<close>

lemma map_of_mput [simp]: "map_of (mput k v m) = (map_of m)(k \<mapsto> v)"
  by (induction k v m rule: mput.induct) auto

lemma mget_mput [simp]: "mget (mput k v m) k' = (if k' = k then v else mget m k')"
  by (simp add: mget_def)

definition ascending :: "(string \<times> 'v) list \<Rightarrow> bool" where
  "ascending m = sorted_wrt (<) (map fst m)"

lemma ascending_simps [simp]:
  "ascending []" "ascending ((k, v) # m) \<longleftrightarrow> (\<forall>k'\<in>fst ` set m. k < k') \<and> ascending m"
  by (auto simp: ascending_def)

lemma keys_mput [simp]: "fst ` set (mput k v m) = insert k (fst ` set m)"
  by (induction k v m rule: mput.induct) auto

lemma set_mput: "set (mput k v m) \<subseteq> insert (k, v) (set m)"
  by (induction k v m rule: mput.induct) auto

lemma ascending_mput [simp]: "ascending m \<Longrightarrow> ascending (mput k v m)"
  by (induction k v m rule: mput.induct) (auto simp del: mput.simps simp: mput.simps [abs_def] not_less_iff_gr_or_eq dest: less_trans)

lemma mput_last: "(\<forall>k'\<in>fst ` set m. k' < k) \<Longrightarrow> mput k v m = m @ [(k, v)]"
  by (induction k v m rule: mput.induct) auto

lemma ascending_append: "ascending (m @ n) \<longleftrightarrow> ascending m \<and> ascending n \<and> (\<forall>k\<in>fst ` set m. \<forall>l\<in>fst ` set n. k < l)"
  by (auto simp: ascending_def sorted_wrt_append)

section \<open>Assignments to a path\<close>

text \<open>A path that names one place.\<close>

fun simple :: "overridePath \<Rightarrow> bool" where
  "simple [] = True"
| "simple (overridePathField k # p) = simple p"
| "simple (overridePathIndex i # p) = (0 \<le> i \<and> simple p)"
| "simple (overridePathWildcard # p) = False"

text \<open>The places that an assignment reaches or creates: nothing on the way is a value of another kind.\<close>

fun fits :: "value \<Rightarrow> overridePath \<Rightarrow> bool" where
  "fits v [] = True"
| "fits v (overridePathField k # p) = (case v of VNull \<Rightarrow> fits VNull p | VMap m \<Rightarrow> fits (mget m k) p | _ \<Rightarrow> False)"
| "fits v (overridePathIndex i # p) = (case v of
     VNull \<Rightarrow> fits VNull p
   | VArray xs \<Rightarrow> fits (if nat i < length xs then xs ! nat i else VNull) p
   | _ \<Rightarrow> False)"
| "fits v (overridePathWildcard # p) = False"

definition diverge :: "overridePath \<Rightarrow> overridePath \<Rightarrow> bool" where
  "diverge p q = (\<exists>c s t p1 q1. p = c @ s # p1 \<and> q = c @ t # q1 \<and> s \<noteq> t)"

lemma diverge_Cons: "diverge (s # p) (t # q) \<longleftrightarrow> s \<noteq> t \<or> diverge p q"
proof
  assume "diverge (s # p) (t # q)"
  then obtain c a b p1 q1 where d: "s # p = c @ a # p1" "t # q = c @ b # q1" "a \<noteq> b" by (auto simp: diverge_def)
  then show "s \<noteq> t \<or> diverge p q" by (cases c) (auto simp: diverge_def)
next
  assume "s \<noteq> t \<or> diverge p q"
  then show "diverge (s # p) (t # q)" unfolding diverge_def by (metis append_Cons append_Nil)
qed

lemma diverge_Nil [simp]: "\<not> diverge [] q" "\<not> diverge p []"
  by (simp_all add: diverge_def)

lemma nth_extendNull [simp]: "extendNull xs i ! j = (if j < length xs then xs ! j else VNull)" if "j \<le> i"
  using that by (simp add: extendNull_def nth_append)

lemma length_extendNull [simp]: "length (extendNull xs i) = max (length xs) (i + 1)"
  by (simp add: extendNull_def)

lemma lookup_VNull [simp]: "simple p \<Longrightarrow> lookupOverridePathStream VNull p = [VNull]"
  by (cases p rule: simple.cases) auto

text \<open>
  A container: the place that a segment of a path names is read and updated through it, and an update of
  one place leaves the others.
\<close>

locale container =
  fixes get :: "'s \<Rightarrow> 'k \<Rightarrow> value"
    and put :: "'k \<Rightarrow> value \<Rightarrow> 's \<Rightarrow> 's"
    and wrap :: "'s \<Rightarrow> value"
    and seg :: "'k \<Rightarrow> overridePathSegment"
  assumes get_put: "get (put k v s) l = (if l = k then v else get s l)"
    and lookup_seg: "simple p \<Longrightarrow> lookupOverridePathStream (wrap s) (seg k # p) = lookupOverridePathStream (get s k) p"
    and update_seg: "updateOverridePath (wrap s) (seg k # p) u = ebind (updateOverridePath (get s k) p u) (\<lambda>v. Inr (wrap (put k v s)))"
begin

lemma reach:
  assumes "simple p" "\<exists>w. updateOverridePath (get s k) p (\<lambda>_. Inr x) = Inr w \<and> lookupOverridePathStream w p = [x]"
  shows "\<exists>w. updateOverridePath (wrap s) (seg k # p) (\<lambda>_. Inr x) = Inr w \<and> lookupOverridePathStream w (seg k # p) = [x]"
  using assms by (auto simp: update_seg lookup_seg get_put)

lemma keep:
  assumes "updateOverridePath (wrap s) (seg k # p) u = Inr w" "simple q"
    and "\<And>y. k = l \<Longrightarrow> updateOverridePath (get s k) p u = Inr y \<Longrightarrow> lookupOverridePathStream y q = lookupOverridePathStream (get s k) q"
  shows "lookupOverridePathStream w (seg l # q) = lookupOverridePathStream (wrap s) (seg l # q)"
  using assms by (auto simp: update_seg ebind_eq_Inr lookup_seg get_put)

end

definition slot :: "value list \<Rightarrow> nat \<Rightarrow> value" where
  "slot xs i = (if i < length xs then xs ! i else VNull)"

definition putSlot :: "nat \<Rightarrow> value \<Rightarrow> value list \<Rightarrow> value list" where
  "putSlot i x xs = (extendNull xs i)[i := x]"

interpretation field_at: container mget mput VMap overridePathField
  by unfold_locales simp_all

interpretation index_at: container slot putSlot VArray "\<lambda>i. overridePathIndex (int i)"
  by unfold_locales (auto simp: putSlot_def slot_def realIndex_def Let_def nth_list_update extendNull_def nth_append)

lemma fresh_container:
  "updateOverridePath VNull (overridePathField k # p) u = updateOverridePath (VMap []) (overridePathField k # p) u"
  "updateOverridePath VNull (overridePathIndex i # p) u = updateOverridePath (VArray []) (overridePathIndex i # p) u"
  by simp_all

lemma fresh_slot [simp]: "mget [] k = VNull" "slot [] i = VNull"
  by (simp_all add: mget_def slot_def)

lemma assign_fits:
  "simple p \<Longrightarrow> fits v p \<Longrightarrow> \<exists>w. updateOverridePath v p (\<lambda>_. Inr x) = Inr w \<and> lookupOverridePathStream w p = [x]"
proof (induction p arbitrary: v rule: simple.induct)
  case (2 k p)
  have "\<exists>m. updateOverridePath v (overridePathField k # p) (\<lambda>_. Inr x) = updateOverridePath (VMap m) (overridePathField k # p) (\<lambda>_. Inr x) \<and> fits (mget m k) p"
    using "2.prems"(2) fresh_container(1) fresh_slot(1) by (cases v) (force simp del: updateOverridePath.simps)+
  then obtain m where m: "updateOverridePath v (overridePathField k # p) (\<lambda>_. Inr x) = updateOverridePath (VMap m) (overridePathField k # p) (\<lambda>_. Inr x)"
    "fits (mget m k) p" by blast
  show ?case unfolding m(1) using "2.IH" m(2) "2.prems"(1) by (intro field_at.reach) auto
next
  case (3 i p)
  have "\<exists>xs. updateOverridePath v (overridePathIndex i # p) (\<lambda>_. Inr x) = updateOverridePath (VArray xs) (overridePathIndex i # p) (\<lambda>_. Inr x) \<and> fits (slot xs (nat i)) p"
    using "3.prems"(2) fresh_container(2) fresh_slot(2) by (cases v) (force simp: slot_def simp del: updateOverridePath.simps)+
  then obtain xs where xs: "updateOverridePath v (overridePathIndex i # p) (\<lambda>_. Inr x) = updateOverridePath (VArray xs) (overridePathIndex i # p) (\<lambda>_. Inr x)"
    "fits (slot xs (nat i)) p" by blast
  have "\<exists>w. updateOverridePath (VArray xs) (overridePathIndex (int (nat i)) # p) (\<lambda>_. Inr x) = Inr w \<and> lookupOverridePathStream w (overridePathIndex (int (nat i)) # p) = [x]"
    using "3.IH" xs(2) "3.prems"(1) by (intro index_at.reach) auto
  then show ?case unfolding xs(1) using "3.prems"(1) by (simp del: updateOverridePath.simps lookupOverridePathStream.simps)
qed auto

lemma assign_frame:
  "simple p \<Longrightarrow> simple q \<Longrightarrow> diverge p q \<Longrightarrow> updateOverridePath v p u = Inr w \<Longrightarrow>
    lookupOverridePathStream w q = lookupOverridePathStream v q"
proof (induction p arbitrary: v w q rule: simple.induct)
  case (2 k p)
  then obtain t q1 where q: "q = t # q1" by (cases q) auto
  show ?case
  proof (cases t)
    case (overridePathField l)
    have "simple q1" "k = l \<Longrightarrow> diverge p q1" using "2.prems" q overridePathField by (auto simp: diverge_Cons)
    then have step: "lookupOverridePathStream w q = lookupOverridePathStream (VMap m) q"
      if "updateOverridePath (VMap m) (overridePathField k # p) u = Inr w" for m
      using field_at.keep [OF that] "2.IH" "2.prems"(1) q overridePathField by simp
    show ?thesis using step [of "[]"] step "2.prems" q overridePathField
      by (cases v) (auto simp: fresh_container simp del: updateOverridePath.simps(2), auto)
  next
    case (overridePathIndex j)
    with 2 q show ?thesis by (cases v) (auto simp: ebind_eq_Inr)
  qed (use 2 q in simp)
next
  case (3 i p)
  then obtain t q1 where q: "q = t # q1" by (cases q) auto
  show ?case
  proof (cases t)
    case (overridePathIndex j)
    have q1: "simple q1" "nat i = nat j \<Longrightarrow> diverge p q1" "0 \<le> i" "0 \<le> j" using "3.prems" q overridePathIndex by (auto simp: diverge_Cons)
    then have step: "lookupOverridePathStream w q = lookupOverridePathStream (VArray xs) q"
      if "updateOverridePath (VArray xs) (overridePathIndex i # p) u = Inr w" for xs
      using index_at.keep [of xs "nat i" p u w q1 "nat j"] that "3.IH" "3.prems"(1) q overridePathIndex
      by (simp del: updateOverridePath.simps lookupOverridePathStream.simps)
    show ?thesis
    proof (cases v)
      case VNull
      then have "lookupOverridePathStream w q = lookupOverridePathStream (VArray []) q" using step [of "[]"] "3.prems"(4) fresh_container(2) by simp
      then show ?thesis using VNull q overridePathIndex by (simp add: Let_def not_less [symmetric])
    next
      case (VArray xs)
      then show ?thesis using step [of xs] "3.prems"(4) by simp
    qed (use "3.prems"(4) in auto)
  next
    case (overridePathField l)
    with 3 q show ?thesis by (cases v) (auto simp: ebind_eq_Inr Let_def split: if_splits)
  qed (use 3 q in simp)
qed auto

text \<open>
  C15. An assignment to a non-empty path of field names and non-negative indexes, where nothing on the way is
  of another kind and the expression has a value: the statement succeeds, the path then reads the assigned
  value, and every other such path that leads elsewhere reads what it did, also when arrays and
  mappings had to be created or extended on the way. (A negative index counts from the end and fails outside of
  the array; it is not covered.)
\<close>

theorem assign_statement:
  assumes "simple p" "p \<noteq> []" "fits (VMap m) p" "evalOverrideSingle env e (VMap m) = Inr x" "x \<noteq> VNoMatch"
  shows "\<exists>m'. applyStatement env (overrideAssignStatement p None overrideTokenAssign e) m = Inr m' \<and>
    lookupOverridePathStream (VMap m') p = [x] \<and>
    (\<forall>q. simple q \<and> diverge p q \<longrightarrow> lookupOverridePathStream (VMap m') q = lookupOverridePathStream (VMap m) q)"
proof -
  obtain w where w: "updateOverridePath (VMap m) p (\<lambda>_. Inr x) = Inr w" "lookupOverridePathStream w p = [x]"
    using assign_fits [OF assms(1,3)] by blast
  then obtain m' where m': "w = VMap m'" using assms(2,3) by (cases p rule: simple.cases) (auto simp: ebind_eq_Inr)
  have "applyStatement env (overrideAssignStatement p None overrideTokenAssign e) m = Inr m'"
    using assms(4,5) w(1) m' by (simp add: assignUpdater_def isOverrideNoMatch_def asMapping_def)
  then show ?thesis using w m' assign_frame [OF assms(1) _ _ w(1)] by blast
qed

definition plainEnv :: overrideEnv where
  "plainEnv = \<lparr>RegexpCompile = \<lambda>_. None, YamlMarshal = \<lambda>_. Inr [], UnicodeUpper = id, UnicodeLower = id, UnicodeTrim = id\<rparr>"

theorem assign_statement_witness:
  "\<exists>m'. applyStatement plainEnv (overrideAssignStatement [overridePathField ''a'', overridePathIndex 1] None overrideTokenAssign
        (overrideLiteralExpr (VInt 7))) [(''b'', VNull)] = Inr m' \<and>
    lookupOverridePathStream (VMap m') [overridePathField ''a'', overridePathIndex 1] = [VInt 7] \<and>
    lookupOverridePathStream (VMap m') [overridePathField ''b''] = [VNull]"
proof -
  let ?p = "[overridePathField ''a'', overridePathIndex 1]" and ?m = "[(''b'', VNull)]"
  have e: "evalOverrideSingle plainEnv (overrideLiteralExpr (VInt 7)) (VMap ?m) = Inr (VInt 7)"
    by (simp add: evalOverrideSingle_def single_def stream1_def isOverrideNoMatch_def)
  have d: "simple [overridePathField ''b''] \<and> diverge ?p [overridePathField ''b'']" by (simp add: diverge_Cons)
  have f: "simple ?p" "?p \<noteq> []" "fits (VMap ?m) ?p" "VInt 7 \<noteq> VNoMatch" by (simp_all add: mget_def)
  have "lookupOverridePathStream (VMap ?m) [overridePathField ''b''] = [VNull]" by (simp add: mget_def)
  with assign_statement [OF f(1-3) e f(4)] d show ?thesis by metis
qed

section \<open>Deletion\<close>

fun fieldPath :: "overridePath \<Rightarrow> bool" where
  "fieldPath [] = True"
| "fieldPath (overridePathField k # p) = fieldPath p"
| "fieldPath (_ # p) = False"

lemma delete_field:
  "deleteOverridePaths (VMap m) [overridePathField k # p] =
    VMap (if p = [] then mdel k m else map (\<lambda>(l, c). (l, if l = k then deleteOverridePaths c [p] else c)) m)"
proof -
  have "(\<lambda>(key, child). let here = filter (atKey key) [overridePathField k # p]
      in if deleteHere here then [] else if here = [] then [(key, child)] else [(key, deleteOverridePaths child (map tl here))])
    = (\<lambda>(l, c). if l = k then (if p = [] then [] else [(l, deleteOverridePaths c [p])]) else [(l, c)])"
    by (auto simp: atKey_def deleteHere_def fun_eq_iff)
  then show ?thesis by (simp, induction m) (auto simp: mdel_def)
qed

lemma map_of_mdel [simp]: "map_of (mdel k m) l = (if l = k then None else map_of m l)"
  by (induction m) (auto simp: mdel_def)

lemma mget_map_value: "mget (map (\<lambda>(l, c). (l, if l = k then f c else c)) m) l = (if l = k \<and> map_of m k \<noteq> None then f (mget m k) else mget m l)"
  by (induction m) (auto simp: mget_def)

lemma delete_other [simp]: "(\<forall>m. v \<noteq> VMap m) \<Longrightarrow> (\<forall>xs. v \<noteq> VArray xs) \<Longrightarrow> deleteOverridePaths v ps = v"
  by (cases v) auto

lemma delete_array_field: "fieldPath p \<Longrightarrow> p \<noteq> [] \<Longrightarrow> deleteOverridePaths (VArray xs) [p] = VArray xs"
proof -
  assume "fieldPath p" "p \<noteq> []"
  then obtain k p1 where "p = overridePathField k # p1" by (cases p rule: fieldPath.cases) auto
  then have "\<not> atIndex xs i p" for i by (simp add: atIndex_def)
  then have "(\<lambda>(i, child). let here = filter (atIndex xs i) [p]
      in if deleteHere here then [] else if here = [] then [child] else [deleteOverridePaths child (map tl here)]) = (\<lambda>(i, c). [c])"
    by (auto simp: deleteHere_def fun_eq_iff)
  moreover have "concat (map (\<lambda>(i, c). [c]) (enumerate n xs)) = xs" for n by (induction xs arbitrary: n) auto
  ultimately show ?thesis by simp
qed

lemma fieldPath_simple: "fieldPath p \<Longrightarrow> simple p"
  by (induction p rule: fieldPath.induct) auto

lemma delete_reads:
  "fieldPath p \<Longrightarrow> p \<noteq> [] \<Longrightarrow> lookupOverridePathStream (deleteOverridePaths v [p]) p = [VNull]"
proof (induction p arbitrary: v rule: fieldPath.induct)
  case (2 k p)
  show ?case
  proof (cases v)
    case (VMap m)
    show ?thesis
    proof (cases "p = []")
      case True
      then show ?thesis using VMap by (simp only: delete_field) (simp add: mget_def)
    next
      case False
      then have "lookupOverridePathStream (deleteOverridePaths c [p]) p = [VNull]" for c using 2 by simp
      then show ?thesis using VMap False 2
        by (simp only: delete_field)
          (auto simp: mget_map_value, auto simp: mget_def split: option.splits intro!: lookup_VNull fieldPath_simple)
    qed
  qed (use delete_array_field [of "overridePathField k # p"] 2 in auto)
qed auto

lemma delete_frame:
  "fieldPath p \<Longrightarrow> simple q \<Longrightarrow> diverge p q \<Longrightarrow> lookupOverridePathStream (deleteOverridePaths v [p]) q = lookupOverridePathStream v q"
proof (induction p arbitrary: v q rule: fieldPath.induct)
  case (2 k p)
  then obtain t q1 where q: "q = t # q1" by (cases q) auto
  show ?case
  proof (cases v)
    case (VMap m)
    show ?thesis
    proof (cases t)
      case (overridePathField l)
      have "p = [] \<Longrightarrow> l \<noteq> k" using 2 q overridePathField by (auto simp: diverge_Cons)
      moreover have "l = k \<Longrightarrow> lookupOverridePathStream (deleteOverridePaths c [p]) q1 = lookupOverridePathStream c q1" for c
        using 2 q overridePathField by (auto simp: diverge_Cons)
      ultimately show ?thesis using VMap q overridePathField
        by (simp only: delete_field) (auto simp: mget_map_value, auto simp: mget_def)
    qed (use VMap q 2 in \<open>simp_all only: delete_field, simp_all\<close>)
  qed (use delete_array_field [of "overridePathField k # p"] 2 in auto)
qed auto

text \<open>
  C36. Deleting a path of field names: the statement succeeds, the path then reads null, and every path that
  leads elsewhere reads what it did.
\<close>

theorem delete_statement:
  assumes "fieldPath p" "p \<noteq> []"
  shows "\<exists>m'. applyStatement env (overrideDeleteStatement [p]) m = Inr m' \<and>
    lookupOverridePathStream (VMap m') p = [VNull] \<and>
    (\<forall>q. simple q \<and> diverge p q \<longrightarrow> lookupOverridePathStream (VMap m') q = lookupOverridePathStream (VMap m) q)"
proof -
  obtain m' where "deleteOverridePaths (VMap m) [p] = VMap m'" by simp
  then show ?thesis
    using delete_reads [OF assms, of "VMap m"] delete_frame [OF assms(1), of _ "VMap m"] by (auto simp: asMapping_def)
qed

theorem delete_statement_witness:
  "\<exists>m'. applyStatement plainEnv (overrideDeleteStatement [[overridePathField ''a'', overridePathField ''b'']])
      [(''a'', VMap [(''b'', VInt 1)]), (''c'', VInt 2)] = Inr m' \<and>
    lookupOverridePathStream (VMap m') [overridePathField ''a'', overridePathField ''b''] = [VNull]"
  using delete_statement [of "[overridePathField ''a'', overridePathField ''b'']" plainEnv "[(''a'', VMap [(''b'', VInt 1)]), (''c'', VInt 2)]"]
  unfolding fieldPath.simps by blast

end
