(* ===== verification/OverrideWf.thy ===== *)
theory OverrideWf
  imports OverrideProps "HOL-Library.Multiset"
begin

text \<open>
  Every mapping that an override expression produces has its keys in ascending order, each once: the
  lists of entries are the mappings of the code.
\<close>

section \<open>Well-formed values and expressions\<close>

fun wfv :: "value \<Rightarrow> bool" where
  "wfv (VMap m) = (ascending m \<and> list_all (\<lambda>e. wfv (snd e)) m)"
| "wfv (VArray xs) = list_all wfv xs"
| "wfv _ = True"

lemmas wf_map = wfv.simps(1)

declare wfv.simps(1) [simp del]

fun wfe :: "overrideValueExpr \<Rightarrow> bool" where
  "wfe (overridePipelineExpr es) = list_all wfe es"
| "wfe (overrideUnionExpr es) = list_all wfe es"
| "wfe (overrideLiteralExpr v) = wfv v"
| "wfe (overrideStringExpr parts) = True"
| "wfe (overridePathExpr path) = True"
| "wfe (overrideArrayExpr es) = list_all wfe es"
| "wfe (overrideMapExpr entries) = list_all (\<lambda>en. case en of MapEntry k e \<Rightarrow> wfe e) entries"
| "wfe (overrideValueUpdateExpr path operator e) = wfe e"
| "wfe (overrideBinaryExpr operator l r) = (wfe l \<and> wfe r)"
| "wfe (overrideFunctionExpr name args) = list_all wfe args"
| "wfe (overrideStreamFunctionExpr name args) = list_all wfe args"

lemma mapE_all: "mapE f xs = Inr ys \<Longrightarrow> (\<And>x y. x \<in> set xs \<Longrightarrow> f x = Inr y \<Longrightarrow> P y) \<Longrightarrow> list_all P ys"
proof (induction xs arbitrary: ys)
  case (Cons x xs)
  then obtain y zs where "f x = Inr y" "mapE f xs = Inr zs" "ys = y # zs" by (auto simp: ebind_eq_Inr)
  then show ?case using Cons.IH [of zs] Cons.prems(2) by (metis list.pred_inject(2) list.set_intros)
qed simp

lemma concatE_all: "concatE f xs = Inr ys \<Longrightarrow> (\<And>x zs. x \<in> set xs \<Longrightarrow> f x = Inr zs \<Longrightarrow> list_all P zs) \<Longrightarrow> list_all P ys"
  by (auto simp: concatE_def ebind_eq_Inr list_all_iff dest!: mapE_all [of f xs _ "\<lambda>zs. list_all P zs"])

lemma foldE_all: "foldE f xs s = Inr t \<Longrightarrow> P s \<Longrightarrow> (\<And>x s t. x \<in> set xs \<Longrightarrow> f x s = Inr t \<Longrightarrow> P s \<Longrightarrow> P t) \<Longrightarrow> P t"
proof (induction xs arbitrary: s)
  case (Cons x xs)
  then obtain r where "f x s = Inr r" "foldE f xs r = Inr t" by (auto simp: ebind_eq_Inr)
  then show ?case using Cons.IH [of r] Cons.prems(2,3) by (metis list.set_intros)
qed simp

lemma wf_mput [simp]: "wfv (VMap m) \<Longrightarrow> wfv v \<Longrightarrow> wfv (VMap (mput k v m))"
  using set_mput [of k v m] by (auto simp: wf_map list_all_iff)

lemma wf_mget [simp]: "wfv (VMap m) \<Longrightarrow> wfv (mget m k)"
  by (auto simp: mget_def wf_map list_all_iff split: option.split dest!: map_of_SomeD)

lemma wf_nth: "list_all wfv xs \<Longrightarrow> i < length xs \<Longrightarrow> wfv (xs ! i)"
  by (simp add: list_all_length)

lemma wf_mapE:
  assumes "mapE (\<lambda>e. ebind (g (snd e)) (\<lambda>v. Inr (fst e, v))) m = Inr n" "wfv (VMap m)" "\<And>x y. wfv x \<Longrightarrow> g x = Inr y \<Longrightarrow> wfv y"
  shows "wfv (VMap n)"
proof -
  have "map fst n = map fst m" using assms(1) by (induction m arbitrary: n) (auto simp: ebind_eq_Inr)
  then have "ascending n" using assms(2) by (simp add: wf_map ascending_def)
  moreover have "list_all (\<lambda>e. wfv (snd e)) n"
    using assms(2,3) by (intro mapE_all [OF assms(1)]) (auto simp: wf_map list_all_iff ebind_eq_Inr)
  ultimately show ?thesis by (simp add: wf_map)
qed

section \<open>Paths\<close>

lemma wf_lookup: "wfv v \<Longrightarrow> list_all wfv (lookupOverridePathStream v path)"
proof (induction path arbitrary: v)
  case (Cons seg path)
  have a: "list_all wfv (lookupOverridePathStream (xs ! nat i) path)" if "list_all wfv xs" "\<not> i < 0" "\<not> int (length xs) \<le> i" for xs i
    using that by (intro Cons.IH wf_nth) auto
  have e: "wfv (snd e)" if "wfv (VMap m)" "e \<in> set m" for m e using that by (auto simp: wf_map list_all_iff)
  show ?case
  proof (cases seg)
    case (overridePathField k)
    then show ?thesis using Cons by (cases v) simp_all
  next
    case (overridePathIndex i)
    then show ?thesis using Cons.prems a by (cases v) (simp_all add: Let_def)
  next
    case overridePathWildcard
    then show ?thesis using Cons.prems e
      by (cases v) (auto simp: list_all_iff dest: Cons.IH [unfolded list_all_iff, rule_format, rotated])
  qed
qed simp

lemma wf_update:
  assumes "\<And>x y. wfv x \<Longrightarrow> u x = Inr y \<Longrightarrow> wfv y"
  shows "wfv v \<Longrightarrow> updateOverridePath v path u = Inr w \<Longrightarrow> wfv w"
proof (induction path arbitrary: v w)
  case (Cons seg path)
  show ?case
  proof (cases seg)
    case (overridePathField k)
    have "wfv w" if m: "wfv (VMap m)" "updateOverridePath (VMap m) (seg # path) u = Inr w" for m
    proof -
      from m(2) overridePathField obtain y where "updateOverridePath (mget m k) path u = Inr y" "w = VMap (mput k y m)"
        by (auto simp: ebind_eq_Inr)
      then show ?thesis using Cons.IH [of "mget m k" y] m(1) by simp
    qed
    from this [of "[]"] this show ?thesis using Cons.prems overridePathField by (cases v) (auto simp: wf_map)
  next
    case (overridePathIndex i)
    have "wfv w" if "wfv (VArray xs)" "updateOverridePath (VArray xs) (seg # path) u = Inr w" for xs
    proof -
      from that(2) overridePathIndex obtain y where i: "0 \<le> realIndex i xs"
        "updateOverridePath (extendNull xs (nat (realIndex i xs)) ! nat (realIndex i xs)) path u = Inr y"
        "w = VArray ((extendNull xs (nat (realIndex i xs)))[nat (realIndex i xs) := y])"
        by (auto simp: Let_def ebind_eq_Inr simp del: nth_extendNull split: if_splits)
      have e: "list_all wfv (extendNull xs (nat (realIndex i xs)))" using that(1) by (auto simp: extendNull_def list_all_iff)
      then have "wfv y" using wf_nth [OF e] by (intro Cons.IH [OF _ i(2)]) (simp del: nth_extendNull)
      then show ?thesis using e i(3) by (auto simp: list_all_iff dest!: set_update_subset_insert [THEN subsetD])
    qed
    from this [of "[]"] this show ?thesis using Cons.prems overridePathIndex by (cases v) (auto simp del: nth_extendNull)
  next
    case overridePathWildcard
    show ?thesis
    proof (cases v)
      case (VArray xs)
      then obtain ys where ys: "mapE (\<lambda>x. updateOverridePath x path u) xs = Inr ys" "w = VArray ys"
        using Cons.prems overridePathWildcard by (auto simp: ebind_eq_Inr)
      have "list_all wfv ys" using Cons.IH Cons.prems(1) VArray by (intro mapE_all [OF ys(1)]) (auto simp: list_all_iff)
      then show ?thesis using ys(2) by simp
    next
      case (VMap m)
      then obtain n where n: "mapE (\<lambda>e. ebind (updateOverridePath (snd e) path u) (\<lambda>v. Inr (fst e, v))) m = Inr n" "w = VMap n"
        using Cons.prems overridePathWildcard by (auto simp: ebind_eq_Inr)
      show ?thesis unfolding n(2) by (rule wf_mapE [OF n(1)]) (use Cons.IH Cons.prems(1) VMap in auto)
    qed (use Cons.prems overridePathWildcard in auto)
  qed
qed (use assms in auto)

lemma wf_delete: "wfv v \<Longrightarrow> wfv (deleteOverridePaths v paths)"
proof (induction v paths rule: deleteOverridePaths.induct)
  case (1 m paths)
  let ?f = "\<lambda>(key, child). let here = filter (atKey key) paths
       in if deleteHere here then [] else if here = [] then [(key, child)] else [(key, deleteOverridePaths child (map tl here))]"
  have sub: "fst ` set (concat (map ?f n)) \<subseteq> fst ` set n" for n by (force simp: Let_def split: if_splits)
  have "ascending n \<Longrightarrow> ascending (concat (map ?f n))" for n
  proof (induction n)
    case (Cons e n)
    then show ?case using sub [of n] by (cases e) (auto simp: ascending_append Let_def split: if_splits)
  qed simp
  moreover have "list_all (\<lambda>e. wfv (snd e)) (concat (map ?f m))"
    using 1 by (fastforce simp: wf_map list_all_iff Let_def split: if_splits)
  ultimately show ?case using "1.prems" by (simp add: wf_map)
next
  case (2 xs paths)
  have "x \<in> set xs" if "(i, x) \<in> set (enumerate 0 xs)" for i x using that by (metis in_set_enumerate_eq nth_mem snd_conv fst_conv add.commute add_0_right diff_zero)
  then show ?case using 2 by (fastforce simp: list_all_iff Let_def split: if_splits)
qed auto

section \<open>Operators\<close>

lemma wf_merge: "wfv (VMap left) \<Longrightarrow> wfv (VMap right) \<Longrightarrow> wfv (VMap (mergeOverrideMaps left right))"
proof (induction left right rule: mergeOverrideMaps.induct)
  case (2 left key rv right)
  have r: "wfv rv" "wfv (VMap right)" using "2.prems"(2) by (auto simp: wf_map)
  have l: "wfv (mget left key)" using "2.prems"(1) by simp
  let ?v = "case mget left key of
      VMap leftMap \<Rightarrow> (case rv of VMap rightMap \<Rightarrow> VMap (mergeOverrideMaps leftMap rightMap) | _ \<Rightarrow> cloneOverrideValue rv)
    | _ \<Rightarrow> cloneOverrideValue rv"
  have "wfv ?v" using r(1) l "2.IH"(1) by (cases "mget left key"; cases rv) auto
  then have "wfv (VMap (mput key ?v left))" using "2.prems"(1) by simp
  then show ?case using "2.IH"(2) r(2) by simp
qed simp

lemma wf_fold_mput: "wfv (VMap m) \<Longrightarrow> (\<forall>e\<in>set n. wfv (snd e)) \<Longrightarrow> wfv (VMap (fold (\<lambda>(k, v). mput k v) n m))"
  by (induction n arbitrary: m) auto

lemma wf_numbers: "evaluateOverrideNumbers operator left right = Inr v \<Longrightarrow> wfv v"
  by (auto simp: evaluateOverrideNumbers_def Let_def split: option.splits if_splits)

lemma wf_repeat: "repeatString s x = Inr v \<Longrightarrow> wfv v"
  by (auto simp: repeatString_def split: option.splits if_splits bool.splits)

lemma wf_add: "addOverride left right = Inr v \<Longrightarrow> wfv left \<Longrightarrow> wfv right \<Longrightarrow> wfv v"
proof (cases "(\<exists>m n. left = VMap m \<and> right = VMap n)")
  case True
  assume a: "addOverride left right = Inr v" "wfv left" "wfv right"
  then obtain m n where "left = VMap m" "right = VMap n" "v = VMap (fold (\<lambda>(k, v). mput k v) n m)"
    using True by (auto simp: addOverride_def)
  then show ?thesis using a wf_fold_mput [of m n] by (auto simp: wf_map [of n] list_all_iff)
qed (auto simp: addOverride_def list_all_iff dest: wf_numbers split: any_splits if_splits)

lemma wf_sub: "subOverride left right = Inr v \<Longrightarrow> wfv left \<Longrightarrow> wfv right \<Longrightarrow> wfv v"
  by (auto simp: subOverride_def list_all_iff dest: wf_numbers split: any_splits)

lemma wf_mul: "mulOverride left right = Inr v \<Longrightarrow> wfv left \<Longrightarrow> wfv right \<Longrightarrow> wfv v"
  by (auto simp: mulOverride_def wf_merge dest: wf_numbers wf_repeat split: any_splits if_splits)

lemma wf_div: "divOverride left right = Inr v \<Longrightarrow> wfv v"
  by (auto simp: divOverride_def list_all_iff dest: wf_numbers split: any_splits)

lemma wf_order: "orderOverride operator left right = Inr v \<Longrightarrow> wfv v"
  by (auto simp: orderOverride_def split: if_splits sum.splits)

lemma wf_binary: "evaluateOverrideBinary operator left right = Inr v \<Longrightarrow> wfv left \<Longrightarrow> wfv right \<Longrightarrow> wfv v"
  using wf_add [of left right v] wf_sub [of left right v] wf_mul [of left right v] wf_div [of left right v]
    wf_order [of operator left right v] wf_numbers [of operator left right v]
  unfolding evaluateOverrideBinary_def by (simp split: if_splits) auto

lemma wf_binaryAll:
  assumes "binaryAll operator lefts right = Inr vs" "list_all wfv lefts" "\<And>rs. right = Inr rs \<Longrightarrow> list_all wfv rs"
  shows "list_all wfv vs"
proof (cases "operator = ''//''")
  case True
  then show ?thesis using assms
    by (auto simp: binaryAll_def split: if_splits) (erule concatE_all, auto simp: list_all_iff split: if_splits)
next
  case False
  let ?f = "\<lambda>rights l. if operator = ''and'' \<and> \<not> overrideTruthy l then Inr [VBool False]
    else if operator = ''or'' \<and> overrideTruthy l then Inr [VBool True] else mapE (evaluateOverrideBinary operator l) rights"
  have m: "list_all wfv ys" if "mapE (evaluateOverrideBinary operator l) rs = Inr ys" "l \<in> set lefts" "right = Inr rs" for l rs ys
    using that(2,3) assms(2,3) by (intro mapE_all [OF that(1)]) (auto simp: list_all_iff intro: wf_binary)
  have "list_all wfv vs" if "concatE (?f rs) lefts = Inr vs" "right = Inr rs" for rs
    by (rule concatE_all [OF that(1)]) (use m that(2) in \<open>auto split: if_splits\<close>)
  moreover have "list_all wfv (map (\<lambda>l. VBool (f l)) lefts)" for f by (simp add: list_all_iff)
  ultimately show ?thesis using assms(1) False
    by (auto simp: binaryAll_def Let_def ebind_eq_Inr split: if_splits)
qed

section \<open>Functions\<close>

lemma wf_flatten: "list_all wfv xs \<Longrightarrow> list_all wfv (flattenOverrideArray xs depth)"
  by (induction xs depth rule: flattenOverrideArray.induct) auto

lemma mset_sinkLeft: "sinkLeft x ys = Inr zs \<Longrightarrow> mset zs = add_mset x (mset ys)"
  by (induction x ys arbitrary: zs rule: sinkLeft.induct) (auto split: sum.splits if_splits)

lemma mset_sortOverrideArray: "sortOverrideArray xs prev = Inr ys \<Longrightarrow> mset ys = mset xs + mset prev"
  by (induction xs prev arbitrary: ys rule: sortOverrideArray.induct) (auto split: sum.splits dest!: mset_sinkLeft)

lemma wf_sort: "sortOverrideArray xs [] = Inr ys \<Longrightarrow> list_all wfv xs \<Longrightarrow> list_all wfv ys"
  using mset_sortOverrideArray [of xs "[]" ys] by (auto simp: list_all_iff dest: mset_eq_setD)

lemma set_unique: "uniqueLoop env xs seen = Inr ys \<Longrightarrow> set ys \<subseteq> set xs"
proof (induction xs arbitrary: seen ys)
  case (Cons v vs)
  then obtain key where "(if key \<in> set seen then uniqueLoop env vs seen
      else ebind (uniqueLoop env vs (key # seen)) (\<lambda>r. Inr (cloneOverrideValue v # r))) = Inr ys"
    by (simp only: uniqueLoop.simps ebind_eq_Inr) blast
  then show ?case using Cons.IH [of seen ys] Cons.IH [of "key # seen"] by (fastforce simp: ebind_eq_Inr split: if_splits)
qed simp

lemma wf_array: "arrayFunction env name args input = Inr v \<Longrightarrow> wfv input \<Longrightarrow> wfv v"
  unfolding arrayFunction_def
  by (auto simp: ebind_eq_Inr only_def wf_flatten dest: wf_sort set_unique split: if_splits any_splits option.splits bool.splits)
    (auto simp: list_all_iff dest: set_unique)

lemma wf_applyFunction:
  assumes "applyFunction env name args input = Inr v" "wfv input"
  shows "wfv v"
proof (cases "name \<in> {''reverse'', ''sort'', ''unique'', ''flatten'', ''any'', ''all''}")
  case True
  then have "applyFunction env name args input = arrayFunction env name args input" by (auto simp: applyFunction_def)
  then show ?thesis using assms wf_array by metis
next
  case False
  have l: "lengthOf input = Inr v \<Longrightarrow> wfv v" by (auto simp: lengthOf_def split: any_splits)
  have k: "keysOf input = Inr v \<Longrightarrow> wfv v" by (auto simp: keysOf_def list_all_iff split: any_splits)
  have h: "hasKey args input = Inr v \<Longrightarrow> wfv v"
    by (auto simp: hasKey_def Let_def ebind_eq_Inr split: any_splits option.splits prod.splits bool.splits)
  have c: "containsValue args input = Inr v \<Longrightarrow> wfv v"
    by (auto simp: containsValue_def Let_def ebind_eq_Inr split: any_splits if_splits)
  have r: "regexpFunction env name args input = Inr v \<Longrightarrow> wfv v"
    by (auto simp: regexpFunction_def ebind_eq_Inr split: any_splits option.splits prod.splits if_splits)
  have s: "stringFunction env name args input = Inr v \<Longrightarrow> wfv v"
    by (auto simp: stringFunction_def ebind_eq_Inr list_all_iff split: any_splits if_splits)
  have n: "toNumber input = Inr v \<Longrightarrow> wfv v"
    by (auto simp: toNumber_def Let_def split: any_splits if_splits option.splits prod.splits)
  show ?thesis using False assms l k h c r s n unfolding applyFunction_def
    by (simp add: ebind_eq_Inr split: if_splits) (auto split: any_splits simp: ebind_eq_Inr)
qed

section \<open>Functions of an expression\<close>

lemma wf_collection: "overrideCollectionValues input = Inr vs \<Longrightarrow> wfv input \<Longrightarrow> list_all wfv vs"
  by (auto simp: overrideCollectionValues_def wf_map list_all_iff split: any_splits)

lemma wf_entry [simp]: "wfv (entryOf (VInt i) v) = wfv v" "wfv (entryOf (VString s) v) = wfv v"
  by (simp_all add: entryOf_def wf_map)

lemma wf_map_value: "wfv (VMap m) \<Longrightarrow> (k, x) \<in> set m \<Longrightarrow> wfv x"
  by (fastforce simp: wf_map list_all_iff)

lemma wf_toEntries: "toOverrideEntries input = Inr (Some es) \<Longrightarrow> wfv input \<Longrightarrow> list_all wfv es"
  using wf_map_value
  by (cases input) (fastforce simp: toOverrideEntries_def list_all_iff in_set_enumerate_eq)+

lemma wf_addEntry: "addEntry item m = Inr n \<Longrightarrow> wfv item \<Longrightarrow> wfv (VMap m) \<Longrightarrow> wfv (VMap n)"
  by (auto simp: addEntry_def dest!: map_of_SomeD dest: wf_map_value split: any_splits option.splits intro!: wf_mput)

lemma wf_fromEntries: "fromOverrideEntries input = Inr m \<Longrightarrow> wfv input \<Longrightarrow> wfv (VMap m)"
  by (auto simp: fromOverrideEntries_def list_all_iff wf_map [of "[]"] intro: wf_addEntry split: any_splits
      elim!: foldE_all [where P = "\<lambda>m. wfv (VMap m)"])

lemma wf_mapFirst: "mapFirst f v = Inr w \<Longrightarrow> (\<And>vs. f v = Inr vs \<Longrightarrow> list_all wfv vs) \<Longrightarrow> wfv v \<Longrightarrow> wfv w"
  by (auto simp: mapFirst_def ebind_eq_Inr split: if_splits) (metis hd_in_set list.pred_set)

lemma wf_streamFunction:
  assumes "streamFunction name n input f g = Inr vs" "wfv input"
    and f: "\<And>v vs. wfv v \<Longrightarrow> f v = Inr vs \<Longrightarrow> list_all wfv vs"
    and g: "\<And>xs vs. list_all wfv xs \<Longrightarrow> g xs = Inr vs \<Longrightarrow> list_all wfv vs"
  shows "list_all wfv vs"
proof -
  note S = assms(1) [unfolded streamFunction_def]
  consider "name = ''map''" | "name = ''filter''" | "name = ''map_values''" | "name = ''to_entries''" | "name = ''from_entries''"
    | "name = ''with_entries''" | "name \<in> {''any_c'', ''all_c''}" using S by (auto split: if_splits)
  then show ?thesis
  proof cases
    case 1
    then show ?thesis using S g wf_collection [OF _ assms(2)] by (auto simp: ebind_eq_Inr split: if_splits)
  next
    case 2
    let ?c = "\<lambda>v. ebind (f v) (\<lambda>items. Inr (if list_ex overrideTruthy items then [cloneOverrideValue v] else []))"
    from 2 S obtain xs r where x: "overrideCollectionValues input = Inr xs" "concatE ?c xs = Inr r" "vs = [VArray r]"
      by (auto simp: ebind_eq_Inr split: if_splits)
    have "list_all wfv r" by (rule concatE_all [OF x(2)])
      (use wf_collection [OF x(1) assms(2)] in \<open>auto simp: ebind_eq_Inr list_all_iff split: if_splits\<close>)
    then show ?thesis using x(3) by simp
  next
    case 3
    have a: "list_all wfv r" if "mapE (mapFirst f) xs = Inr r" "list_all wfv xs" for xs r
      by (rule mapE_all [OF that(1)]) (rule wf_mapFirst, use that(2) f in \<open>auto simp: list_all_iff\<close>)
    have m: "wfv (VMap r)" if "mapE (\<lambda>e. ebind (mapFirst f (snd e)) (\<lambda>v. Inr (fst e, v))) m = Inr r" "wfv (VMap m)" for m r
      by (rule wf_mapE [OF that]) (rule wf_mapFirst, use f in auto)
    show ?thesis using 3 S assms(2) a m by (auto simp: ebind_eq_Inr only_def split: if_splits any_splits)
  next
    case 4
    then show ?thesis using S wf_toEntries [OF _ assms(2)] by (auto simp: ebind_eq_Inr split: if_splits option.splits)
  next
    case 5
    then show ?thesis using S wf_fromEntries [OF _ assms(2)] by (auto simp: ebind_eq_Inr split: if_splits)
  next
    case 6
    from 6 S obtain m where "input = VMap m" by (auto simp: only_def split: if_splits any_splits)
    with 6 S obtain es ts m1 where e: "toOverrideEntries input = Inr (Some es)" "concatE f es = Inr ts"
      "fromOverrideEntries (VArray ts) = Inr m1" "vs = [VMap m1]"
      by (auto simp: toOverrideEntries_def ebind_eq_Inr split: if_splits)
    have "list_all wfv ts"
      by (rule concatE_all [OF e(2)]) (use wf_toEntries [OF e(1) assms(2)] f in \<open>auto simp: list_all_iff\<close>)
    then show ?thesis using wf_fromEntries [OF e(3)] e(4) by simp
  next
    case 7
    then have "(if n = 0 then Inl (name @ '' expects a condition'')
         else case input of
           VArray xs \<Rightarrow> ebind (quantifyLoop (name = ''all_c'') f xs) (\<lambda>b. Inr [VBool b])
         | _ \<Rightarrow> only name ''arrays'' input) = Inr vs" using S by (cases "n = 0") auto
    then show ?thesis by (cases input) (auto simp: ebind_eq_Inr only_def split: if_splits)
  qed
qed

section \<open>Evaluation\<close>

lemma wf_single: "ebind m single = Inr v \<Longrightarrow> (\<And>vs. m = Inr vs \<Longrightarrow> list_all wfv vs) \<Longrightarrow> wfv v"
proof -
  assume m: "ebind m single = Inr v" "\<And>vs. m = Inr vs \<Longrightarrow> list_all wfv vs"
  then obtain vs where "m = Inr vs" "single vs = Inr v" by (auto simp: ebind_eq_Inr)
  then show "wfv v" using m(2) by (cases vs; cases "tl vs") (auto simp: single_def)
qed

lemma wf_updateOnce:
  assumes "updateOnce path operator eval root = Inr v" "wfv root" "\<And>x vs. wfv x \<Longrightarrow> eval x = Inr vs \<Longrightarrow> list_all wfv vs"
  shows "wfv v"
proof -
  have e: "wfv y" if "ebind (eval x) single = Inr y" "wfv x" for x y using wf_single [OF that(1)] assms(3) that(2) by blast
  have upd: "wfv v" if "updateOverridePath root path u = Inr v" "\<And>x y. wfv x \<Longrightarrow> u x = Inr y \<Longrightarrow> wfv y" for u
    using wf_update [of u root path v] that assms(2) by blast
  consider "operator = overrideTokenAssign" | "operator = overrideTokenUpdateAssign"
    | "operator \<noteq> overrideTokenAssign" "operator \<noteq> overrideTokenUpdateAssign" by blast
  then show ?thesis
  proof cases
    case 1
    with assms(1) obtain x where x: "ebind (eval root) single = Inr x"
      "v = root \<or> updateOverridePath root path (\<lambda>_. Inr x) = Inr v" by (auto simp: updateOnce_def ebind_eq_Inr split: if_splits)
    then show ?thesis using e [OF x(1) assms(2)] upd [of "\<lambda>_. Inr x"] assms(2) by auto
  next
    case 2
    with assms(1) have "updateOverridePath root path (\<lambda>old. ebind (ebind (eval old) single) (\<lambda>v. Inr (if isOverrideNoMatch v then old else v))) = Inr v"
      by (simp add: updateOnce_def)
    then show ?thesis by (rule upd) (use e in \<open>fastforce simp: ebind_eq_Inr [of "ebind _ single"] split: if_splits\<close>)
  next
    case 3
    with assms(1) obtain x where x: "ebind (eval root) single = Inr x"
      "updateOverridePath root path (\<lambda>old. evaluateOverrideBinary (compoundOperator operator) old x) = Inr v"
      by (auto simp: updateOnce_def ebind_eq_Inr)
    show ?thesis by (rule upd [OF x(2)]) (use e [OF x(1) assms(2)] wf_binary in blast)
  qed
qed

lemma wf_fold_putLast: "wfv (VMap m) \<Longrightarrow> (\<forall>e\<in>set r. list_all wfv (snd e)) \<Longrightarrow> wfv (VMap (fold putLast r m))"
proof (induction r arbitrary: m)
  case (Cons e r)
  have "wfv (VMap (putLast e m))" using Cons.prems by (auto simp: putLast_def list_all_iff intro!: wf_mput)
  then show ?case using Cons by simp
qed simp

lemma concatE_wf:
  "concatE f xs = Inr ys \<Longrightarrow> list_all wfv xs \<Longrightarrow> (\<And>x zs. x \<in> set xs \<Longrightarrow> wfv x \<Longrightarrow> f x = Inr zs \<Longrightarrow> list_all wfv zs) \<Longrightarrow> list_all wfv ys"
  by (erule concatE_all) (simp add: list_all_iff)

lemma wf_eval:
  "wfe e \<Longrightarrow> wfv input \<Longrightarrow> evalOverrideStream env e input = Inr vs \<Longrightarrow> list_all wfv vs"
  "wfe e' \<Longrightarrow> list_all wfv inputs \<Longrightarrow> evalOverrideStreamInputs env' e' inputs = Inr vs' \<Longrightarrow> list_all wfv vs'"
proof (induction env e input and env' e' inputs arbitrary: vs and vs' rule: evalOverrideStream_evalOverrideStreamInputs.induct)
  case (1 env stages input)
  show ?case by (rule foldE_all [OF "1.prems"(3) [unfolded evalOverrideStream.simps], where P = "list_all wfv"])
    (use 1 in \<open>auto simp: list_all_iff [of wfe]\<close>)
next
  case (2 env es input)
  show ?case using "2.prems"(3) unfolding evalOverrideStream.simps
    by (rule concatE_all) (use 2 in \<open>auto simp: list_all_iff\<close>)
next
  case (3 env v input)
  then show ?case by (auto simp: stream1_def split: if_splits)
next
  case (4 env parts input)
  then show ?case by (auto simp: ebind_eq_Inr)
next
  case (5 env path input)
  then show ?case by (auto simp: wf_lookup)
next
  case (6 env es input)
  then obtain ws where w: "concatE (\<lambda>e. evalOverrideStream env e input) es = Inr ws" "vs = [VArray ws]" by (auto simp: ebind_eq_Inr)
  have "list_all wfv ws" by (rule concatE_all [OF w(1)]) (use 6 in \<open>auto simp: list_all_iff\<close>)
  then show ?case using w(2) by simp
next
  case (7 env entries input)
  let ?f = "\<lambda>entry. case entry of MapEntry key e \<Rightarrow> ebind (evalOverrideStream env e input) (\<lambda>vs. Inr (key, vs))"
  from 7 obtain r where r: "mapE ?f entries = Inr r" "vs = [VMap (fold putLast r [])]" by (auto simp: ebind_eq_Inr)
  have "list_all (\<lambda>e. list_all wfv (snd e)) r"
  proof (rule mapE_all [OF r(1)])
    fix x y assume x: "x \<in> set entries" "?f x = Inr y"
    obtain k e where k: "x = MapEntry k e" by (rule overrideMapEntry.exhaust)
    with x have y: "evalOverrideStream env e input = Inr (snd y)" by (auto simp: ebind_eq_Inr)
    have "wfe e" using x(1) k "7.prems"(1) by (auto simp: list_all_iff)
    then show "list_all wfv (snd y)" using "7.IH" x(1) k y "7.prems"(2) by blast
  qed
  then show ?case using r(2) wf_fold_putLast [of "[]" r] by (simp add: wf_map [of "[]"] list_all_iff)
next
  case (8 env path operator e input)
  then obtain v where v: "updateOnce path operator (evalOverrideStream env e) input = Inr v" "vs = stream1 v" by (auto simp: ebind_eq_Inr)
  have "wfv v" by (rule wf_updateOnce [OF v(1)]) (use 8 in auto)
  then show ?case using v(2) by (simp add: stream1_def)
next
  case (9 env operator left right input)
  then obtain lefts where l: "evalOverrideStream env left input = Inr lefts"
    "binaryAll operator lefts (evalOverrideStream env right input) = Inr vs" by (auto simp: ebind_eq_Inr)
  show ?case by (rule wf_binaryAll [OF l(2)]) (use 9 l(1) in auto)
next
  case (10 env name args input)
  then show ?case by (auto simp: ebind_eq_Inr stream1_def dest: wf_applyFunction split: if_splits)
next
  case (11 env name args input)
  show ?case
  proof (rule wf_streamFunction [OF "11.prems"(3) [unfolded evalOverrideStream.simps] "11.prems"(2)])
    fix v ws assume v: "wfv v" "concatE (\<lambda>a. evalOverrideStream env a v) args = Inr ws"
    show "list_all wfv ws"
      by (rule concatE_all [OF v(2)]) (use "11.IH"(1) "11.prems"(1) v(1) in \<open>auto simp: list_all_iff [of wfe]\<close>)
  next
    fix xs ws assume x: "list_all wfv xs" "concatE (\<lambda>a. evalOverrideStreamInputs env a xs) args = Inr ws"
    show "list_all wfv ws"
      by (rule concatE_all [OF x(2)]) (use "11.IH"(2) "11.prems"(1) x(1) in \<open>auto simp: list_all_iff [of wfe]\<close>)
  qed
next
  case (12 env es inputs)
  show ?case by (rule concatE_all [OF "12.prems"(3) [unfolded evalOverrideStreamInputs.simps]])
    (use "12.IH" "12.prems"(1,2) in \<open>auto simp: list_all_iff [of wfe]\<close>)
qed (simp_all only: evalOverrideStreamInputs.simps, (erule concatE_wf, assumption, blast)+)

section \<open>Statements\<close>

fun wfs :: "overrideStatement \<Rightarrow> bool" where
  "wfs (overrideAssignStatement path target operator e) = wfe e"
| "wfs (overrideFilterStatement e) = wfe e"
| "wfs (overrideDeleteStatement paths) = True"

lemma wf_evalSingle: "evalOverrideSingle env e x = Inr v \<Longrightarrow> wfe e \<Longrightarrow> wfv x \<Longrightarrow> wfv v"
  unfolding evalOverrideSingle_def using wf_single wf_eval(1) by blast

lemma wf_asMapping: "asMapping v = Inr m \<Longrightarrow> wfv v \<Longrightarrow> wfv (VMap m)"
  by (auto simp: asMapping_def split: any_splits)

lemma wf_assignUpdater:
  assumes "assignUpdater env operator e root = Inr (Some u)" "wfe e" "wfv root" "wfv x" "u x = Inr y"
  shows "wfv y"
proof -
  consider "u = (\<lambda>old. ebind (evalOverrideSingle env e old) (\<lambda>v. Inr (if isOverrideNoMatch v then old else v)))"
    | v where "evalOverrideSingle env e root = Inr v" "u = (\<lambda>_. Inr v) \<or> u = (\<lambda>old. evaluateOverrideBinary (compoundOperator operator) old v)"
    using assms(1) by (auto simp: assignUpdater_def ebind_eq_Inr split: if_splits)
  then show ?thesis
  proof cases
    case 1
    then show ?thesis using assms wf_evalSingle [of env e x] by (auto simp: ebind_eq_Inr split: if_splits)
  next
    case 2
    then have "wfv v" using wf_evalSingle assms(2,3) by blast
    then show ?thesis using 2(2) assms(4,5) wf_binary by auto
  qed
qed

lemma wf_applyStatement:
  assumes "applyStatement env s m = Inr m'" "wfs s" "wfv (VMap m)"
  shows "wfv (VMap m')"
proof (cases s)
  case (overrideAssignStatement path target operator e)
  from assms(1) [unfolded overrideAssignStatement] obtain u where u: "assignUpdater env operator e (VMap m) = Inr u"
    "(case u of None \<Rightarrow> Inr m
       | Some updater \<Rightarrow> (case target of
           Some stages \<Rightarrow> ebind (resolve env stages (VMap m)) (\<lambda>sels. foldE (updateSelected updater) sels m)
         | None \<Rightarrow> ebind (updateOverridePath (VMap m) path updater) asMapping)) = Inr m'"
    by (auto simp: ebind_eq_Inr)
  show ?thesis
  proof (cases u)
    case (Some updater)
    have upd: "wfv y" if "wfv x" "updater x = Inr y" for x y
      using wf_assignUpdater [of env operator e "VMap m" updater x y] u(1) Some that assms(2,3) overrideAssignStatement by simp
    have step: "wfv (VMap n')" if "ebind (updateOverridePath (VMap n) p updater) asMapping = Inr n'" "wfv (VMap n)" for n n' p
    proof -
      from that(1) obtain w where "updateOverridePath (VMap n) p updater = Inr w" "asMapping w = Inr n'" by (auto simp: ebind_eq_Inr)
      then show ?thesis using wf_update [of updater "VMap n" p w] upd that(2) wf_asMapping by blast
    qed
    show ?thesis
    proof (cases target)
      case None
      then show ?thesis using u(2) Some step assms(3) by simp
    next
      case (Some stages)
      then obtain sels where "foldE (updateSelected updater) sels m = Inr m'" using u(2) \<open>u = Some updater\<close> by (auto simp: ebind_eq_Inr)
      then show ?thesis by (rule foldE_all [where P = "\<lambda>m. wfv (VMap m)"]) (use assms(3) step in \<open>auto simp: updateSelected_def\<close>)
    qed
  qed (use u(2) assms(3) in simp)
next
  case (overrideFilterStatement e)
  then obtain v where "evalOverrideSingle env e (VMap m) = Inr v" "v = VMap m'"
    using assms(1) by (auto simp: ebind_eq_Inr split: if_splits any_splits)
  then show ?thesis using wf_evalSingle [of env e "VMap m" v] assms(2,3) overrideFilterStatement by simp
next
  case (overrideDeleteStatement paths)
  then show ?thesis using assms by (auto simp del: deleteOverridePaths.simps dest!: wf_asMapping intro: wf_delete)
qed

section \<open>Parsed expressions\<close>

text \<open>What a parser returns when it succeeds.\<close>

definition yields :: "('a \<Rightarrow> bool) \<Rightarrow> 'a pres \<Rightarrow> bool" where
  "yields P m = (\<forall>x r. m = POk x r \<longrightarrow> P x)"

lemma yields_simps [simp]: "yields P (POk x r) = P x" "yields P (PErr e)" "yields P PFuel"
  by (simp_all add: yields_def)

lemma yields_bind: "yields Q m \<Longrightarrow> (\<And>x r. Q x \<Longrightarrow> yields P (f x r)) \<Longrightarrow> yields P (pbind m f)"
  by (cases m) (simp_all add: pbind_def)

lemma yields_any: "yields (\<lambda>_. True) m"
  by (simp add: yields_def)

lemmas yields_skip = yields_bind [OF yields_any]

lemma yields_expect: "(\<And>x r. yields P (f x r)) \<Longrightarrow> yields P (pbind (expect k m ts) f)"
  by (rule yields_skip)

lemma yields_lift: "(\<And>x. m = Inr x \<Longrightarrow> P x) \<Longrightarrow> yields P (lift ts m)"
  by (cases m) (simp_all add: lift_def)

lemma yields_sepLoop: "(\<And>ts. yields P (p ts)) \<Longrightarrow> yields (list_all P) (sepLoop n p sep ts)"
proof (induction n arbitrary: ts)
  case (Suc n)
  show ?case unfolding sepLoop.simps
    by (rule yields_bind [OF Suc.prems]) (auto intro!: yields_bind [OF Suc.IH [OF Suc.prems]])
qed simp

lemma yields_binLoop: "(\<And>ts. yields wfe (operand ts)) \<Longrightarrow> wfe left \<Longrightarrow> yields wfe (binLoop n operator operand left ts)"
proof (induction n arbitrary: left ts)
  case (Suc n)
  show ?case by (simp split: option.split) (auto intro!: yields_bind [OF Suc.prems(1)] Suc.IH Suc.prems)
qed simp

lemma yields_binLevel: "(\<And>ts. yields wfe (operand ts)) \<Longrightarrow> yields wfe (binLevel operator operand ts)"
  unfolding binLevel_def by (rule yields_bind [of wfe]) (auto intro: yields_binLoop)

lemma wf_number: "parseNumber token = Inr e \<Longrightarrow> wfe e"
  by (auto simp: parseNumber_def Let_def split: if_splits option.splits)

lemma yields_unary: "(\<And>ts. yields wfe (prim ts)) \<Longrightarrow> yields wfe (parseUnary prim ts)"
  by (simp add: parseUnary_def Let_def yields_lift wf_number)

lemma yields_levels:
  assumes "\<And>ts. yields wfe (prim ts)"
  shows "yields wfe (parseAlternative prim ts)" "yields wfe (parseOr prim ts)"
  unfolding parseOr_def parseAnd_def parseAlternative_def parseComparison_def parseAdditive_def parseMultiplicative_def
  by (intro yields_binLevel yields_unary assms)+

lemma wf_oneOr: "list_all wfe es \<Longrightarrow> (wfe (f es) = list_all wfe es) \<Longrightarrow> wfe (oneOr f es)"
  by (cases es; cases "tl es") (auto simp: oneOr_def)

lemma yields_stage:
  assumes "\<And>ts. yields wfe (prim ts)" "\<And>ts. yields wfe (v ts)"
  shows "yields wfe (parseStage v prim low ts)"
proof -
  have "yields wfe m" if "parseValueUpdateExpression v ts = Some m" for m
    using that by (auto simp: parseValueUpdateExpression_def split: if_splits pres.splits intro!: yields_bind [OF assms(2)])
  then show ?thesis using yields_levels [OF assms(1)] by (auto simp: parseStage_def split: option.split)
qed

lemma yields_valueExpression: "(\<And>ts. yields wfe (prim ts)) \<Longrightarrow> yields wfe (parseValueExpression n prim low ts)"
proof (induction n arbitrary: low ts)
  case (Suc n)
  have s: "yields wfe (parseStage (parseValueExpression n prim False) prim low ts)" for low ts
    by (rule yields_stage [OF Suc.prems Suc.IH [OF Suc.prems]])
  show ?case using s by (auto intro!: yields_bind [OF yields_sepLoop [OF s]] wf_oneOr)
qed simp

lemma yields_value: "(\<And>ts. yields wfe (prim ts)) \<Longrightarrow> yields wfe (parseValue prim low ts)"
  by (simp add: parseValue_def yields_valueExpression)

lemma yields_union: "(\<And>ts. yields wfe (prim ts)) \<Longrightarrow> yields wfe (parseUnionExpression prim low ts)"
  unfolding parseUnionExpression_def
  by (rule yields_bind [OF yields_sepLoop [OF yields_value]]) (auto intro: wf_oneOr)

lemma yields_args: "(\<And>ts. yields wfe (prim ts)) \<Longrightarrow> yields (list_all wfe) (parseArgs prim ts)"
  unfolding parseArgs_def Let_def
  by (auto intro!: yields_bind [OF yields_sepLoop [OF yields_value]] yields_expect)

lemma yields_bracketed: "(\<And>ts. yields P (item ts)) \<Longrightarrow> yields (list_all P) (parseBracketed close msg item ts)"
  unfolding parseBracketed_def by (auto intro!: yields_bind [OF yields_sepLoop] yields_expect)

lemma yields_string: "yields wfe (parseString interp token)"
  unfolding parseString_def Let_def by (rule yields_skip) (simp split: list.split)

lemma yields_primaryStep:
  assumes p: "\<And>ts. yields wfe (prim ts)"
  shows "yields wfe (primaryStep prim ts)"
proof -
  let ?W = "\<lambda>en. case en of MapEntry k e \<Rightarrow> wfe e"
  have entry: "yields ?W (parseEntry prim ts)" for ts
    unfolding parseEntry_def Let_def
    by (auto intro!: yields_expect yields_bind [OF yields_lift [of _ "\<lambda>_. True"]] yields_bind [OF yields_value [OF p]])
  have ident: "yields wfe (parseIdentifier prim token ts)" for token ts
    unfolding parseIdentifier_def Let_def by (auto intro!: yields_bind [OF yields_args [OF p]])
  have a: "yields wfe (pbind (parsePath ts) (\<lambda>path r1. POk (overridePathExpr path) r1))" for ts by (rule yields_skip) simp
  have b: "yields wfe (pbind (parseString i t) (\<lambda>e _. POk e r))" for i t r by (rule yields_bind [OF yields_string]) simp
  have c: "yields wfe (pbind (parseUnionExpression prim True r) (\<lambda>e r1. pbind (expect k m r1) (\<lambda>_ r2. POk e r2)))" for r k m
    by (rule yields_bind [OF yields_union [OF p]]) (rule yields_skip, simp)
  have d: "yields wfe (pbind (parseBracketed k m (parseValue prim True) r) (\<lambda>es r1. POk (overrideArrayExpr es) r1))" for r k m
    by (rule yields_bind [OF yields_bracketed [OF yields_value [OF p]]]) simp
  have e: "yields wfe (pbind (parseBracketed k m (parseEntry prim) r) (\<lambda>es r1. POk (overrideMapExpr es) r1))" for r k m
    by (rule yields_bind [OF yields_bracketed [OF entry]]) simp
  have f: "yields wfe (lift r (parseNumber t))" for r t by (rule yields_lift) (rule wf_number)
  show ?thesis unfolding primaryStep_def Let_def using a b c d e f ident by (cases "peekKind ts") simp_all
qed

lemma yields_primary: "yields wfe (parsePrimary n ts)"
  by (induction n arbitrary: ts) (simp_all add: yields_primaryStep)

lemma yields_delete: "yields wfs (parseDelete ts)"
  unfolding parseDelete_def by (intro yields_expect yields_bind [of "\<lambda>_. True" "sepLoop _ _ _ _"]) (simp_all add: yields_any)

lemma yields_statement: "(\<And>ts. yields wfe (prim ts)) \<Longrightarrow> yields wfs (parseStatement prim ts)"
proof -
  assume p: "\<And>ts. yields wfe (prim ts)"
  have u: "yields wfs (pbind (parseUnionExpression prim True ts) (\<lambda>e r. POk (overrideFilterStatement e) r))"
    by (rule yields_bind [OF yields_union [OF p]]) simp
  have v: "yields wfs (pbind (parseValue prim False r) (\<lambda>v r1. POk (overrideAssignStatement path target k v) r1))" for r path target k
    by (rule yields_bind [OF yields_value [OF p]]) simp
  have w: "yields wfs (pbind h (\<lambda>(path, target) r.
      if \<not> isOverrideAssignmentToken (peekKind r) then PErr (errorf (peek r) m)
      else pbind (parseValue prim False (advance r)) (\<lambda>v r1. POk (overrideAssignStatement path target (peekKind r) v) r1)))" for h m
    by (rule yields_skip) (simp add: v case_prod_unfold)
  show ?thesis unfolding parseStatement_def by (simp only: yields_delete u w if_True if_False split: if_split) simp
qed

lemma yields_statements: "(\<And>ts. yields wfe (prim ts)) \<Longrightarrow> yields (list_all wfs) (statementLoop n prim ts)"
proof (induction n arbitrary: ts)
  case (Suc n)
  show ?case unfolding statementLoop.simps Let_def
    by (rule yields_bind [OF yields_statement [OF Suc.prems]]) (auto intro!: yields_bind [OF Suc.IH [OF Suc.prems]])
qed simp

lemma wf_parsed:
  assumes "NewOverrideExpr source = Some (Inr e)"
  shows "list_all wfs (ov_statements e)"
proof -
  have "yields (list_all wfs) (parse (parsePrimary n) ts)" for n ts
    unfolding parse_def by (auto intro!: yields_bind [OF yields_statements [OF yields_primary]])
  then have "parse (parsePrimary n) ts = POk x r \<Longrightarrow> list_all wfs x" for n ts x r by (metis yields_simps(1))
  then show ?thesis using assms by (auto simp: NewOverrideExpr_def split: sum.splits pres.splits)
qed

text \<open>
  Whatever expression the parser accepts, applying it to a mapping whose keys ascend, without
  duplicates, and that of all mappings inside it, gives such a mapping: no statement, operator or function breaks the representation,
  so that the lists of entries stand for the mappings of the code at every step.
\<close>

theorem Apply_wf:
  assumes "NewOverrideExpr source = Some (Inr e)" "wfv (VMap m)" "Apply env e m = Inr m'"
  shows "wfv (VMap m')"
  using assms(3) unfolding Apply_def
  by (rule foldE_all [where P = "\<lambda>m. wfv (VMap m)"])
    (use assms(2) wf_parsed [OF assms(1)] in \<open>auto simp: list_all_iff [of wfs] intro: wf_applyStatement\<close>)

lemma parse_example:
  "NewOverrideExpr ''.a=1'' = Some (Inr \<lparr>ov_source = ''.a=1'',
     ov_statements = [overrideAssignStatement [overridePathField ''a''] None overrideTokenAssign (overrideLiteralExpr (VInt 1))]\<rparr>)"
  by code_simp

theorem Apply_wf_witness:
  "Apply plainEnv \<lparr>ov_source = ''.a=1'',
     ov_statements = [overrideAssignStatement [overridePathField ''a''] None overrideTokenAssign (overrideLiteralExpr (VInt 1))]\<rparr>
     [(''b'', VNull)] = Inr [(''a'', VInt 1), (''b'', VNull)] \<and> wfv (VMap [(''a'', VInt 1), (''b'', VNull)])"
    (is "Apply plainEnv ?e ?m = Inr ?r \<and> _")
proof
  show a: "Apply plainEnv ?e ?m = Inr ?r"
    by (simp add: Apply_def assignUpdater_def evalOverrideSingle_def single_def stream1_def isOverrideNoMatch_def asMapping_def)
  show "wfv (VMap ?r)" by (rule Apply_wf [OF parse_example _ a]) (simp add: wf_map)
qed

end
