(* ===== verification/OverrideFacts.thy ===== *)
theory OverrideFacts
  imports OverrideWf FloatFacts "HOL-Library.Product_Lexorder"
begin

text \<open>
  Functions of override expressions: sorting, entries, the texts that a quoted literal stands for, and
  integers.
\<close>

section \<open>Sorting\<close>

text \<open>No element precedes one that is smaller.\<close>

definition inOrder :: "value \<Rightarrow> value \<Rightarrow> bool" where
  "inOrder x y = (\<forall>c. compareOverrideSortValues y x = Inr c \<longrightarrow> 0 \<le> c)"

lemma sort_asym: "compareOverrideSortValues x y = Inr c \<Longrightarrow> c < 0 \<Longrightarrow> inOrder x y"
  by (auto simp: inOrder_def compareOverrideSortValues_def compareOverrideValues_def dest: fless_asym
      split: if_splits any_splits option.splits prod.splits)

lemma compare_scalars: "isOverrideScalar x \<Longrightarrow> isOverrideScalar y \<Longrightarrow> \<exists>c. compareOverrideSortValues x y = Inr c"
  by (cases x; cases y) (auto simp: compareOverrideSortValues_def compareOverrideValues_def)

fun descending :: "value list \<Rightarrow> bool" where
  "descending (y # z # zs) = (inOrder z y \<and> descending (z # zs))"
| "descending _ = True"

lemma sink_descending:
  "list_all isOverrideScalar (x # ys) \<Longrightarrow> descending ys \<Longrightarrow>
    \<exists>zs. sinkLeft x ys = Inr zs \<and> descending zs \<and> (hd zs = x \<or> ys \<noteq> [] \<and> hd zs = hd ys) \<and> zs \<noteq> []"
proof (induction ys)
  case (Cons y ys)
  then obtain c where c: "compareOverrideSortValues x y = Inr c" using compare_scalars by fastforce
  have d: "descending ys" using Cons.prems(2) by (cases ys) auto
  show ?case
  proof (cases "c < 0")
    case True
    obtain zs where z: "sinkLeft x ys = Inr zs" "descending zs" "hd zs = x \<or> ys \<noteq> [] \<and> hd zs = hd ys" "zs \<noteq> []"
      using Cons.IH Cons.prems(1) d by auto
    have "inOrder (hd zs) y" using z(3) sort_asym [OF c True] Cons.prems(2) by (cases ys) auto
    then have "descending (y # zs)" using z(2,4) by (cases zs) auto
    then show ?thesis using c True z(1) by simp
  next
    case False
    then have "inOrder y x" using c by (simp add: inOrder_def)
    then show ?thesis using c False Cons.prems(2) by simp
  qed
qed simp

lemma descending_rev: "descending ys \<Longrightarrow> Suc i < length ys \<Longrightarrow> inOrder (rev ys ! i) (rev ys ! Suc i)"
proof -
  assume d: "descending ys" and i: "Suc i < length ys"
  have "descending zs \<Longrightarrow> Suc j < length zs \<Longrightarrow> inOrder (zs ! Suc j) (zs ! j)" for zs j
  proof (induction zs arbitrary: j rule: descending.induct)
    case (1 y z zs)
    then show ?case by (cases j) auto
  qed auto
  from this [OF d, of "length ys - Suc (Suc i)"] i show ?thesis
    by (simp add: rev_nth Suc_diff_Suc)
qed

lemma sort_descending:
  "list_all isOverrideScalar (xs @ prev) \<Longrightarrow> descending prev \<Longrightarrow> \<exists>ys. sortOverrideArray xs prev = Inr ys \<and> descending (rev ys)"
proof (induction xs arbitrary: prev)
  case (Cons x xs)
  then obtain zs where z: "sinkLeft x prev = Inr zs" "descending zs" using sink_descending [of x prev] by auto
  have "set zs = set (x # prev)" using mset_sinkLeft [OF z(1)] by (metis mset.simps(2) mset_eq_setD)
  then show ?case using Cons.IH [of zs] Cons.prems(1) z by (simp add: list_all_iff)
qed simp

lemma sort_scalars:
  assumes "list_all isOverrideScalar xs"
  shows "\<exists>ys. sortOverrideArray xs [] = Inr ys \<and> mset ys = mset xs \<and>
    (\<forall>i. Suc i < length ys \<longrightarrow> inOrder (ys ! i) (ys ! Suc i))"
proof -
  obtain ys where y: "sortOverrideArray xs [] = Inr ys" "descending (rev ys)" using sort_descending [of xs "[]"] assms by auto
  moreover have "mset ys = mset xs" using mset_sortOverrideArray [OF y(1)] by simp
  ultimately show ?thesis using descending_rev [OF y(2)] by simp
qed

text \<open>
  The order of a sorted array, said without the comparison: the nulls, then false and true, then
  the integers and then the texts, both in their own order. The integers are those that a
  float64 holds exactly.
\<close>

fun plain_scalar :: "value \<Rightarrow> bool" where
  "plain_scalar VNull = True"
| "plain_scalar (VBool _) = True"
| "plain_scalar (VInt n) = (abs n < 2 ^ 53)"
| "plain_scalar (VString _) = True"
| "plain_scalar _ = False"

fun ints_of :: "value list \<Rightarrow> int list" where
  "ints_of [] = []"
| "ints_of (VInt n # vs) = n # ints_of vs"
| "ints_of (v # vs) = ints_of vs"

fun strings_of :: "value list \<Rightarrow> string list" where
  "strings_of [] = []"
| "strings_of (VString s # vs) = s # strings_of vs"
| "strings_of (v # vs) = strings_of vs"

definition scalar_order :: "value list \<Rightarrow> value list" where
  "scalar_order vs = filter (\<lambda>v. v = VNull) vs @ filter (\<lambda>v. v = VBool False) vs
     @ filter (\<lambda>v. v = VBool True) vs @ map VInt (sort (ints_of vs)) @ map VString (sort (strings_of vs))"

fun scalar_key :: "value \<Rightarrow> int \<times> int \<times> string" where
  "scalar_key VNull = (0, 0, [])"
| "scalar_key (VBool b) = (1, if b then 1 else 0, [])"
| "scalar_key (VInt n) = (2, n, [])"
| "scalar_key (VString s) = (3, 0, s)"
| "scalar_key _ = (4, 0, [])"

lemma inOrder_key: "plain_scalar x \<Longrightarrow> plain_scalar y \<Longrightarrow> inOrder x y \<longleftrightarrow> scalar_key x \<le> scalar_key y"
  by (cases x; cases y)
    (auto simp: inOrder_def compareOverrideSortValues_def compareOverrideValues_def fless_of_int less_eq_prod_def
       split: if_splits)

lemma scalar_key_inj: "plain_scalar x \<Longrightarrow> plain_scalar y \<Longrightarrow> scalar_key x = scalar_key y \<Longrightarrow> x = y"
  by (cases x; cases y) (auto split: if_splits)

lemma mset_scalar_order:
  assumes "list_all plain_scalar vs"
  shows "mset (scalar_order vs) = mset vs"
proof -
  have "mset (filter (\<lambda>v. v = VNull) vs) + mset (filter (\<lambda>v. v = VBool False) vs)
      + mset (filter (\<lambda>v. v = VBool True) vs) + image_mset VInt (mset (ints_of vs)) + image_mset VString (mset (strings_of vs)) = mset vs"
    using assms
  proof (induction vs)
    case (Cons v vs)
    then show ?case by (cases v) auto
  qed simp
  then show ?thesis by (simp add: scalar_order_def ac_simps)
qed

lemma sorted_scalar_order: "sorted (map scalar_key (scalar_order vs))"
proof -
  have same: "sorted (map scalar_key (filter (\<lambda>v. v = w) vs))" for w
    by (induction vs) auto
  have up: "sorted (map f (sort ns))" if "\<And>x y. x \<le> y \<Longrightarrow> f x \<le> f y"
    for f :: "'a :: linorder \<Rightarrow> int \<times> int \<times> string" and ns
    unfolding sorted_map by (rule sorted_wrt_mono_rel [OF _ sorted_sort]) (rule that)
  have "sorted (map scalar_key (map VInt (sort ns)))" "sorted (map scalar_key (map VString (sort ss)))" for ns ss
    unfolding map_map by (auto intro!: up simp: o_def)
  with same show ?thesis
    unfolding scalar_order_def map_append sorted_append by (auto simp: less_eq_prod_def)
qed

text \<open>
  C37. Sorting an array of nulls, booleans, texts and integers below 2 ^ 53 in absolute value, in whatever
  order and mixture, succeeds and gives the nulls first, then every false and every true, then the
  integers in ascending order and last the texts in ascending order of their bytes, each value as often
  as it was there.
\<close>

theorem sort_scalars_order:
  assumes "list_all plain_scalar xs"
  shows "applyFunction env ''sort'' [] (VArray xs) = Inr (VArray (scalar_order xs))"
proof -
  have "isOverrideScalar v" if "plain_scalar v" for v using that by (cases v) simp_all
  then have "list_all isOverrideScalar xs" using assms by (simp add: list_all_iff)
  then obtain ys where y: "sortOverrideArray xs [] = Inr ys" "mset ys = mset xs"
    "\<And>i. Suc i < length ys \<Longrightarrow> inOrder (ys ! i) (ys ! Suc i)"
    using sort_scalars by blast
  have p: "\<forall>v \<in> set xs. plain_scalar v" "set ys = set xs" "set (scalar_order xs) = set xs"
    using assms mset_eq_setD [OF y(2)] mset_eq_setD [OF mset_scalar_order [OF assms]] by (auto simp: list_all_iff)
  have "plain_scalar (ys ! i)" if "i < length ys" for i using p that nth_mem by blast
  then have "sorted (map scalar_key ys)"
    unfolding sorted_iff_nth_Suc using y(3) by (simp add: inOrder_key [symmetric])
  moreover have "mset (map scalar_key ys) = mset (map scalar_key (scalar_order xs))"
    using y(2) mset_scalar_order [OF assms] by simp
  ultimately have "map scalar_key ys = map scalar_key (scalar_order xs)"
    using sorted_scalar_order by (metis properties_for_sort)
  moreover have "inj_on scalar_key (set ys \<union> set (scalar_order xs))" using p scalar_key_inj by (auto intro!: inj_onI)
  ultimately have "ys = scalar_order xs" by (simp add: inj_on_map_eq_map)
  then show ?thesis using y(1) by (simp add: applyFunction_def arrayFunction_def argCount_def)
qed

theorem sort_scalars_order_witness:
  "applyFunction plainEnv ''sort'' [] (VArray [VString ''b'', VInt 10, VBool True, VNull, VInt (- 3), VBool False, VString ''a'', VInt 2])
     = Inr (VArray [VNull, VBool False, VBool True, VInt (- 3), VInt 2, VInt 10, VString ''a'', VString ''b''])"
  by (subst sort_scalars_order) (simp_all add: scalar_order_def)

section \<open>Entries\<close>

lemma foldE_addEntry:
  "ascending (m @ n) \<Longrightarrow> foldE addEntry (map (\<lambda>(k, v). entryOf (VString k) v) n) m = Inr (m @ n)"
proof (induction n arbitrary: m)
  case (Cons e n)
  obtain k v where e: "e = (k, v)" by (cases e)
  have "\<forall>k'\<in>fst ` set m. k' < k" using Cons.prems e by (auto simp: ascending_append)
  then have "mput k v m = m @ [e]" using e by (simp add: mput_last)
  then show ?case using Cons.IH [of "m @ [e]"] Cons.prems e by (simp add: addEntry_def entryOf_def)
qed simp

text \<open>
  C38. Turning a mapping into its list of entries and back is the identity, and so is rewriting its entries
  with the expression \<open>.\<close>.
\<close>

theorem entries_roundtrip:
  assumes "ascending m"
  shows "evalOverrideStream env (overridePipelineExpr [overrideStreamFunctionExpr ''to_entries'' [], overrideStreamFunctionExpr ''from_entries'' []]) (VMap m)
      = Inr [VMap m] \<and>
    evalOverrideStream env (overrideStreamFunctionExpr ''with_entries'' [overridePathExpr []]) (VMap m) = Inr [VMap m]"
proof -
  let ?es = "map (\<lambda>(k, v). entryOf (VString k) v) m"
  have f: "fromOverrideEntries (VArray ?es) = Inr m" using foldE_addEntry [of "[]" m] assms by (simp add: fromOverrideEntries_def)
  have c: "concatE (\<lambda>x. Inr [x]) xs = Inr xs" for xs :: "value list"
  proof -
    have "mapE (\<lambda>x. Inr [x]) xs = Inr (map (\<lambda>x. [x]) xs)" by (induction xs) auto
    then show ?thesis by (simp add: concatE_def)
  qed
  have one: "concatE g [x] = ebind (g x) (\<lambda>y. Inr y)" for g :: "value \<Rightarrow> value list result" and x
    by (cases "g x") (simp_all add: concatE_def)
  have t: "evalOverrideStream env (overridePipelineExpr [overrideStreamFunctionExpr ''to_entries'' [], overrideStreamFunctionExpr ''from_entries'' []]) (VMap m)
      = Inr [VMap m]"
    using f by (simp add: streamFunction_def toOverrideEntries_def one)
  have a: "concatE (\<lambda>a. evalOverrideStream env a y) [overridePathExpr []] = Inr [y]" for y by (simp add: concatE_def)
  have "evalOverrideStream env (overrideStreamFunctionExpr ''with_entries'' [overridePathExpr []]) (VMap m) = Inr [VMap m]"
    using f c by (simp add: streamFunction_def toOverrideEntries_def a)
  with t show ?thesis by blast
qed

theorem entries_roundtrip_witness:
  "ascending [(''a'', VInt 1), (''b'', VNull)] \<and>
    evalOverrideStream plainEnv (overrideStreamFunctionExpr ''with_entries'' [overridePathExpr []]) (VMap [(''a'', VInt 1), (''b'', VNull)])
      = Inr [VMap [(''a'', VInt 1), (''b'', VNull)]]"
proof -
  have "ascending [(''a'', VInt 1), (''b'', VNull)]" by simp
  then show ?thesis using entries_roundtrip [of "[(''a'', VInt 1), (''b'', VNull)]" plainEnv] by blast
qed

section \<open>Quoted texts\<close>

fun escape :: "string \<Rightarrow> string" where
  "escape [] = []"
| "escape (c # s) = (if c = quote \<or> c = backslash then backslash # c # escape s else c # escape s)"

definition quoted :: "string \<Rightarrow> string" where
  "quoted s = quote # escape s @ [quote]"

lemma scan_escape: "scanOverrideString (escape s @ quote # rest) = Some (escape s)"
  by (induction s) (auto simp: quote_def backslash_def)

lemma decode_escape: "decodeOverrideString (escape s) column = Inr s"
  by (induction s arbitrary: column) (auto simp: quote_def backslash_def)

lemma split_escape: "splitRaw (escape s) acc column = [RawLiteral (rev acc @ escape s) column]"
  by (induction s arbitrary: acc) (auto simp: quote_def backslash_def)

lemma lex_quoted:
  "lexLoop pos (quoted s @ rest) =
    map_sum id (\<lambda>ts. mkToken overrideTokenString (escape s) pos # ts) (lexLoop (pos + int (length (escape s) + 2)) rest)"
proof -
  have "lexSymbol (quote # r) = None" for r by (simp add: lexSymbol_def Let_def quote_def)
  then have "lexToken pos (quoted s @ rest) = Inr (mkToken overrideTokenString (escape s) pos, length (escape s) + 2)"
    by (simp add: lexToken_def quoted_def scan_escape)
  moreover have "\<not> unicode_IsSpace quote" "quote \<noteq> CHR ''#''" by (simp_all add: unicode_IsSpace_def code_def quote_def)
  ultimately show ?thesis by (subst lexLoop.simps) (simp add: quoted_def)
qed

definition setSource :: "string \<Rightarrow> string \<Rightarrow> string" where
  "setSource key s = ''.'' @ quoted key @ ''='' @ quoted s"

lemma lex_setSource:
  "\<exists>p q. lexOverrideExpr (setSource key s) = Inr [mkToken overrideTokenDot ''.'' 0, mkToken overrideTokenString (escape key) 1,
    mkToken overrideTokenAssign ''='' p, mkToken overrideTokenString (escape s) (p + 1), mkToken overrideTokenEOF [] q]"
proof -
  let ?n = "1 + int (length (escape key) + 2)"
  have d: "lexToken 0 (CHR ''.'' # r) = Inr (mkToken overrideTokenDot ''.'' 0, 1)" for r by (simp add: lexToken_def lexSymbol_def Let_def)
  have a: "lexToken p (CHR ''='' # quoted s) = Inr (mkToken overrideTokenAssign ''='' p, 1)" for p
    by (simp add: lexToken_def lexSymbol_def Let_def orNext_def quoted_def quote_def)
  have sp: "\<not> unicode_IsSpace CHR ''.''" "\<not> unicode_IsSpace CHR ''=''" by (simp_all add: unicode_IsSpace_def code_def)
  have l3: "lexLoop p (quoted s) = Inr [mkToken overrideTokenString (escape s) p]" for p
    using lex_quoted [of p s "[]"] by (simp add: lexLoop.simps [of _ "[]"])
  have l2: "lexLoop p (CHR ''='' # quoted s) = Inr [mkToken overrideTokenAssign ''='' p, mkToken overrideTokenString (escape s) (p + 1)]" for p
    by (subst lexLoop.simps) (simp add: a sp l3)
  have "lexLoop 0 (setSource key s) = Inr [mkToken overrideTokenDot ''.'' 0, mkToken overrideTokenString (escape key) 1,
      mkToken overrideTokenAssign ''='' ?n, mkToken overrideTokenString (escape s) (?n + 1)]"
    unfolding setSource_def by (subst lexLoop.simps) (simp add: d sp lex_quoted l2)
  then show ?thesis by (auto simp: lexOverrideExpr_def)
qed

lemma path_setSource:
  "parsePath [mkToken overrideTokenDot d 0, mkToken overrideTokenString (escape key) 1, mkToken overrideTokenAssign a p, t, u]
    = POk [overridePathField key] [mkToken overrideTokenAssign a p, t, u]"
  by (simp add: parsePath_def expect_def peek_def advance_def isField_def fieldSegment_def pathField_def lift_def pbind_def
      mkToken_def decode_escape pathSegment_def)

lemma literal_setSource:
  "parseValue (parsePrimary (Suc n)) False [mkToken overrideTokenString (escape s) p, mkToken overrideTokenEOF [] q]
    = POk (overrideLiteralExpr (VString s)) [mkToken overrideTokenEOF [] q]"
proof -
  let ?ts = "[mkToken overrideTokenString (escape s) p, mkToken overrideTokenEOF [] q]" and ?r = "[mkToken overrideTokenEOF [] q]"
  have "parsePrimary (Suc n) ?ts = POk (overrideLiteralExpr (VString s)) ?r"
    by (cases "s = []") (simp_all add: primaryStep_def parseString_def split_escape decode_escape lift_def pbind_def peek_def advance_def mkToken_def)
  then have u: "parseUnary (parsePrimary (Suc n)) ?ts = POk (overrideLiteralExpr (VString s)) ?r"
    by (simp add: parseUnary_def peek_def mkToken_def del: parsePrimary.simps)
  have step: "binLevel operator operand ?ts = POk e ?r" if "operand ?ts = POk e ?r" "operator (mkToken overrideTokenEOF [] q) = None"
    for operator operand e using that by (simp add: binLevel_def pbind_def peek_def)
  have "parseAlternative (parsePrimary (Suc n)) ?ts = POk (overrideLiteralExpr (VString s)) ?r"
    unfolding parseAlternative_def parseComparison_def parseAdditive_def parseMultiplicative_def
    by (intro step u) (simp_all add: byKind_def mkToken_def)
  then show ?thesis by (simp add: parseValue_def parseStage_def parseValueUpdateExpression_def peek_def mkToken_def)
qed

lemma parse_setSource:
  "NewOverrideExpr (setSource key s) = Some (Inr \<lparr>ov_source = setSource key s,
    ov_statements = [overrideAssignStatement [overridePathField key] None overrideTokenAssign (overrideLiteralExpr (VString s))]\<rparr>)"
proof -
  obtain p q where l: "lexOverrideExpr (setSource key s) = Inr [mkToken overrideTokenDot ''.'' 0, mkToken overrideTokenString (escape key) 1,
    mkToken overrideTokenAssign ''='' p, mkToken overrideTokenString (escape s) (p + 1), mkToken overrideTokenEOF [] q]" (is "_ = Inr ?ts")
    using lex_setSource by blast
  have k: "peekKind ?ts = overrideTokenDot" "peekKind [mkToken overrideTokenAssign ''='' p, t, u] = overrideTokenAssign"
    "peekKind [mkToken overrideTokenEOF [] q] = overrideTokenEOF"
    "advance [mkToken overrideTokenAssign ''='' p, t, u] = [t, u]" for t u by (simp_all add: peek_def advance_def mkToken_def)
  have st: "parseStatement (parsePrimary (Suc n)) ?ts = POk (overrideAssignStatement [overridePathField key] None overrideTokenAssign (overrideLiteralExpr (VString s)))
      [mkToken overrideTokenEOF [] q]" for n
    unfolding parseStatement_def startsAssignmentStatement_def
    by (simp add: k peekIdentifier_def path_setSource literal_setSource pbind_def isOverrideAssignmentToken_def del: parsePrimary.simps)
  have "parse (parsePrimary (Suc n)) ?ts = POk [overrideAssignStatement [overridePathField key] None overrideTokenAssign (overrideLiteralExpr (VString s))]
      [mkToken overrideTokenEOF [] q]" for n
    unfolding parse_def by (simp add: k st pbind_def del: parsePrimary.simps)
  then show ?thesis using l by (simp add: NewOverrideExpr_def del: parsePrimary.simps)
qed

text \<open>
  C17. The expression that assigns a quoted text to a quoted field name, where quotes and backslashes are
  escaped: it is accepted and sets that key of the mapping to exactly that text, for every name and every
  text, whatever characters they hold.
\<close>

theorem quoted_assignment:
  "\<exists>e. NewOverrideExpr (setSource key s) = Some (Inr e) \<and> Apply env e m = Inr (mput key (VString s) m)"
  using parse_setSource [of key s]
  by (simp add: Apply_def assignUpdater_def evalOverrideSingle_def single_def stream1_def isOverrideNoMatch_def asMapping_def)

section \<open>Integers\<close>

lemma wrap_small: "abs n < 2 ^ 63 \<Longrightarrow> wrap_int n = n"
  by (simp add: wrap_int_def sint_uint uint_word_of_int_eq signed_take_bit_take_bit) (rule signed_take_bit_int_eq_self, auto)

text \<open>
  C39. Integers pass through float64: below 2 ^ 53 in absolute value, sums and differences are nevertheless
  exact, and products are those of 64 bits.
\<close>

theorem int_operators:
  assumes "abs a < 2 ^ 53" "abs b < 2 ^ 53"
  shows "evaluateOverrideBinary ''+'' (VInt a) (VInt b) = Inr (VInt (a + b)) \<and>
    evaluateOverrideBinary ''-'' (VInt a) (VInt b) = Inr (VInt (a - b)) \<and>
    evaluateOverrideBinary ''*'' (VInt a) (VInt b) = Inr (VInt (wrap_int (a * b)))"
proof -
  have "wrap_int (a + b) = a + b" "wrap_int (a - b) = a - b" using assms by (intro wrap_small; simp; linarith)+
  then show ?thesis
    by (simp add: evaluateOverrideBinary_def addOverride_def subOverride_def mulOverride_def evaluateOverrideNumbers_def
        int_float_roundtrip [OF assms(1)] int_float_roundtrip [OF assms(2)])
qed

theorem int_operators_witness:
  "evaluateOverrideBinary ''+'' (VInt 9007199254740991) (VInt 9007199254740990) = Inr (VInt 18014398509481981)"
  using int_operators [of 9007199254740991 9007199254740990] by simp

text \<open>At 2 ^ 53 and above an integer may be changed by adding nothing to it.\<close>

lemma int_precision_lost: "evaluateOverrideBinary ''+'' (VInt 9007199254740993) (VInt 0) = Inr (VInt 9007199254740992)"
  by code_simp

text \<open>A hexadecimal literal with the digit E is read as a float and refused.\<close>

lemma hex_literal_refused:
  "NewOverrideExpr ''.a=0x1E'' = Some (Inl ''column 4: invalid number'')"
  "NewOverrideExpr ''.a=0x1F'' = Some (Inr \<lparr>ov_source = ''.a=0x1F'',
     ov_statements = [overrideAssignStatement [overridePathField ''a''] None overrideTokenAssign (overrideLiteralExpr (VInt 31))]\<rparr>)"
  by code_simp+

text \<open>The marker for the absence of a result ends up in the mapping.\<close>

definition leaking :: OverrideExpr where
  "leaking = \<lparr>ov_source = ''. | .b += select(false)'', ov_statements = [overrideFilterStatement (overridePipelineExpr [overridePathExpr [],
     overrideValueUpdateExpr [overridePathField ''b''] overrideTokenAddAssign (overrideFunctionExpr ''select'' [overrideLiteralExpr (VBool False)])])]\<rparr>"

lemma no_match_leaks:
  "NewOverrideExpr ''. | .b += select(false)'' = Some (Inr leaking)"
  "Apply env leaking [(''a'', VInt 1)] = Inr [(''a'', VInt 1), (''b'', VNoMatch)]"
proof -
  show "NewOverrideExpr ''. | .b += select(false)'' = Some (Inr leaking)" by code_simp
  have one: "concatE g [x] = ebind (g x) (\<lambda>y. Inr y)" for g :: "value \<Rightarrow> value list result" and x
    by (cases "g x") (simp_all add: concatE_def)
  show "Apply env leaking [(''a'', VInt 1)] = Inr [(''a'', VInt 1), (''b'', VNoMatch)]"
    by (simp add: leaking_def Apply_def evalOverrideSingle_def one updateOnce_def applyFunction_def argCount_def single_def stream1_def
        isOverrideNoMatch_def compoundOperator_def evaluateOverrideBinary_def addOverride_def mget_def)
qed

text \<open>An unquoted name is read byte by byte: e with circumflex, C3 AA in UTF-8, is accepted, e with acute, C3 A9, is not.\<close>

lemma latin1_names:
  "NewOverrideExpr [CHR ''.'', CHR 0xC3, CHR 0xA9, CHR ''='', CHR ''1''] = Some (Inl ''unexpected character at column 3'')"
  "NewOverrideExpr [CHR ''.'', CHR 0xC3, CHR 0xAA, CHR ''='', CHR ''1''] = Some (Inr \<lparr>ov_source = [CHR ''.'', CHR 0xC3, CHR 0xAA, CHR ''='', CHR ''1''],
     ov_statements = [overrideAssignStatement [overridePathField [CHR 0xC3, CHR 0xAA]] None overrideTokenAssign (overrideLiteralExpr (VInt 1))]\<rparr>)"
  by code_simp+

end
