(* ===== verification/ProviderParser.thy ===== *)
theory ProviderParser
  imports OverrideFacts
begin

text \<open>
  The proxies of a provider: the override section of its configuration (src/adapter/provider/override.go)
  and the parser that filters the proxies of a file, overrides them and creates each one (\<open>NewProxiesParser\<close> in
  src/adapter/provider/provider.go), and the usage that a subscription reports
  (src/adapter/provider/subscription_info.go). Regular expressions, decryption, the YAML decoder, the
  converter of share links and \<open>adapter.ParseProxy\<close> are arguments. A mapping that is overridden stays
  overridden when a later filter visits it. A failed type assertion is an error like others.
\<close>

section \<open>Overrides\<close>

record overrideProxyNameSchema =
  pn_Replace :: "string \<Rightarrow> string \<Rightarrow> string result"
  pn_Target :: string

record overrideSchema =
  os_TFO :: "bool option"
  os_MPTcp :: "bool option"
  os_UDP :: "bool option"
  os_UDPOverTCP :: "bool option"
  os_Up :: "string option"
  os_Down :: "string option"
  os_DialerProxy :: "string option"
  os_SkipCertVerify :: "bool option"
  os_NameCertVerify :: "string option"
  os_Interface :: "string option"
  os_RoutingMark :: "int option"
  os_IPVersion :: "string option"
  os_AdditionalPrefix :: "string option"
  os_AdditionalSuffix :: "string option"
  os_ProxyName :: "overrideProxyNameSchema list"
  os_OverrideExprs :: "OverrideExpr list"

definition putOption :: "string \<Rightarrow> value option \<Rightarrow> vmap \<Rightarrow> vmap" where
  "putOption key v m = (case v of None \<Rightarrow> m | Some x \<Rightarrow> mput key x m)"

definition setOptions :: "overrideSchema \<Rightarrow> vmap \<Rightarrow> vmap" where
  "setOptions ov =
     putOption ''ip-version'' (map_option VString (os_IPVersion ov))
     \<circ> putOption ''routing-mark'' (map_option VInt (os_RoutingMark ov))
     \<circ> putOption ''interface-name'' (map_option VString (os_Interface ov))
     \<circ> putOption ''name-cert-verify'' (map_option VString (os_NameCertVerify ov))
     \<circ> putOption ''skip-cert-verify'' (map_option VBool (os_SkipCertVerify ov))
     \<circ> putOption ''dialer-proxy'' (map_option VString (os_DialerProxy ov))
     \<circ> putOption ''down'' (map_option VString (os_Down ov))
     \<circ> putOption ''up'' (map_option VString (os_Up ov))
     \<circ> putOption ''udp-over-tcp'' (map_option VBool (os_UDPOverTCP ov))
     \<circ> putOption ''udp'' (map_option VBool (os_UDP ov))
     \<circ> putOption ''mptcp'' (map_option VBool (os_MPTcp ov))
     \<circ> putOption ''tfo'' (map_option VBool (os_TFO ov))"

text \<open>
  The last branch stands for the panic of the type assertion on the name. The parser never reaches it
  (\<open>renameProxy_named\<close>): it looks at mappings whose name is a string, and neither the options nor a renaming change that.
\<close>

definition renameProxy :: "overrideProxyNameSchema \<Rightarrow> vmap \<Rightarrow> vmap result" where
  "renameProxy expr m = (case map_of m ''name'' of
     Some (VString name) \<Rightarrow>
       (case pn_Replace expr name (pn_Target expr) of
          Inl e \<Rightarrow> Inl (''proxy name replace error: '' @ e)
        | Inr newName \<Rightarrow> Inr (mput ''name'' (VString newName) m))
   | _ \<Rightarrow> Inl ''interface conversion: name is not a string'')"

lemma map_of_putOption: "k \<noteq> j \<Longrightarrow> map_of (putOption j v m) k = map_of m k"
  by (simp add: putOption_def map_of_mput split: option.split)

lemma renameProxy_named:
  assumes "map_of m ''name'' = Some (VString name)"
  shows "renameProxy expr m = (case pn_Replace expr name (pn_Target expr) of
        Inl e \<Rightarrow> Inl (''proxy name replace error: '' @ e)
      | Inr newName \<Rightarrow> Inr (mput ''name'' (VString newName) m))"
    "map_of (mput ''name'' (VString newName) m) ''name'' = Some (VString newName)"
    "map_of (setOptions ov m) ''name'' = Some (VString name)"
  using assms by (simp_all add: renameProxy_def map_of_mput setOptions_def map_of_putOption)

text \<open>The verb \<open>%s\<close> of a value that is not a string is an argument.\<close>

definition nameText :: "(value \<Rightarrow> string) \<Rightarrow> vmap \<Rightarrow> string" where
  "nameText verb m = (case mget m ''name'' of VString s \<Rightarrow> s | v \<Rightarrow> verb v)"

definition addPrefix :: "(value \<Rightarrow> string) \<Rightarrow> string option \<Rightarrow> vmap \<Rightarrow> vmap" where
  "addPrefix verb extra m = (case extra of None \<Rightarrow> m | Some p \<Rightarrow> mput ''name'' (VString (p @ nameText verb m)) m)"

definition addSuffix :: "(value \<Rightarrow> string) \<Rightarrow> string option \<Rightarrow> vmap \<Rightarrow> vmap" where
  "addSuffix verb extra m = (case extra of None \<Rightarrow> m | Some s \<Rightarrow> mput ''name'' (VString (nameText verb m @ s)) m)"

definition applyExpr :: "overrideEnv \<Rightarrow> nat \<times> OverrideExpr \<Rightarrow> vmap \<Rightarrow> vmap result" where
  "applyExpr env ie m = (case Apply env (snd ie) m of
     Inl e \<Rightarrow> Inl (''override-expr['' @ FormatUint (int (fst ie)) @ '']: '' @ e)
   | Inr m1 \<Rightarrow> Inr m1)"

definition overrideSchema_Apply :: "overrideEnv \<Rightarrow> (value \<Rightarrow> string) \<Rightarrow> overrideSchema \<Rightarrow> vmap \<Rightarrow> vmap result" where
  "overrideSchema_Apply env verb ov m =
     ebind (foldE renameProxy (os_ProxyName ov) (setOptions ov m)) (\<lambda>m1.
       foldE (applyExpr env) (enumerate 0 (os_OverrideExprs ov))
         (addSuffix verb (os_AdditionalSuffix ov) (addPrefix verb (os_AdditionalPrefix ov) m1)))"

section \<open>The parser of a provider\<close>

record 'p parserEnv =
  pe_expr :: overrideEnv
  pe_verb :: "value \<Rightarrow> string"
  pe_Compile :: "string \<Rightarrow> (string \<Rightarrow> bool) option"
  pe_VeritySecretKeys :: "string \<Rightarrow> bool"
  pe_DecryptBytes :: "string \<Rightarrow> string \<Rightarrow> string result"
  pe_Unmarshal :: "string \<Rightarrow> vmap list option result"
  pe_ConvertsV2Ray :: "string \<Rightarrow> vmap list option result"
  pe_ParseProxy :: "vmap \<Rightarrow> 'p result"

record proxiesParser =
  pp_excludeTypeArray :: "string list"
  pp_excludeFilterRegs :: "(string \<Rightarrow> bool) list"
  pp_filter :: string
  pp_filterRegs :: "(string \<Rightarrow> bool) list"
  pp_dialerProxy :: string
  pp_override :: overrideSchema
  pp_ageSecretKey :: string

definition compileAll :: "'p parserEnv \<Rightarrow> string \<Rightarrow> string list \<Rightarrow> (string \<Rightarrow> bool) list result" where
  "compileAll env what patterns =
     mapE (\<lambda>p. case pe_Compile env p of None \<Rightarrow> Inl (''invalid '' @ what @ '' regex'') | Some r \<Rightarrow> Inr r) patterns"

definition NewProxiesParser ::
    "'p parserEnv \<Rightarrow> string \<Rightarrow> string \<Rightarrow> string \<Rightarrow> string \<Rightarrow> overrideSchema \<Rightarrow> string \<Rightarrow> proxiesParser result" where
  "NewProxiesParser env filter_text excludeFilter excludeType dialerProxy override ageSecretKey =
     ebind (if excludeFilter = [] then Inr [] else compileAll env ''excludeFilter'' (Split excludeFilter (CHR ''`''))) (\<lambda>excludes.
     ebind (compileAll env ''filter'' (Split filter_text (CHR ''`''))) (\<lambda>filters.
       if ageSecretKey \<noteq> [] \<and> \<not> pe_VeritySecretKeys env ageSecretKey then Inl ''invalid age-secret-key''
       else Inr \<lparr>pp_excludeTypeArray = (if excludeType = [] then [] else Split excludeType (CHR ''|'')),
         pp_excludeFilterRegs = excludes, pp_filter = filter_text, pp_filterRegs = filters,
         pp_dialerProxy = dialerProxy, pp_override = override, pp_ageSecretKey = ageSecretKey\<rparr>))"

text \<open>The name under which a mapping is taken by a filter, if it is.\<close>

definition typeExcluded :: "proxiesParser \<Rightarrow> vmap \<Rightarrow> bool" where
  "typeExcluded pp m =
     (pp_excludeTypeArray pp \<noteq> [] \<and> (case map_of m ''type'' of
        Some (VString t) \<Rightarrow> list_ex (EqualFold t) (pp_excludeTypeArray pp)
      | _ \<Rightarrow> True))"

definition takenName :: "proxiesParser \<Rightarrow> (string \<Rightarrow> bool) \<Rightarrow> vmap \<Rightarrow> string option" where
  "takenName pp filterReg m =
     (if typeExcluded pp m then None
      else case map_of m ''name'' of
        Some (VString name) \<Rightarrow>
          (if list_ex (\<lambda>r. r name) (pp_excludeFilterRegs pp) then None
           else if pp_filter pp \<noteq> [] \<and> \<not> filterReg name then None
           else Some name)
      | _ \<Rightarrow> None)"

definition overridden :: "'p parserEnv \<Rightarrow> proxiesParser \<Rightarrow> nat \<Rightarrow> vmap \<Rightarrow> vmap result" where
  "overridden env pp idx m =
     (case overrideSchema_Apply (pe_expr env) (pe_verb env) (pp_override pp)
         (if pp_dialerProxy pp = [] then m else mput ''dialer-proxy'' (VString (pp_dialerProxy pp)) m) of
        Inl e \<Rightarrow> Inl (''proxy '' @ FormatUint (int idx) @ '' override error: '' @ e)
      | Inr m1 \<Rightarrow> Inr m1)"

definition created :: "'p parserEnv \<Rightarrow> nat \<Rightarrow> vmap \<Rightarrow> 'p result" where
  "created env idx m = (case pe_ParseProxy env m of
     Inl e \<Rightarrow> Inl (''proxy '' @ FormatUint (int idx) @ '' error: '' @ e)
   | Inr p \<Rightarrow> Inr p)"

text \<open>The pass of one filter over the mappings, with the names seen and the proxies created so far.\<close>

fun filterPass :: "'p parserEnv \<Rightarrow> proxiesParser \<Rightarrow> (string \<Rightarrow> bool) \<Rightarrow> nat \<Rightarrow> vmap list \<Rightarrow> string set \<times> 'p list \<Rightarrow> (vmap list \<times> string set \<times> 'p list) result" where
  "filterPass env pp reg idx [] st = Inr ([], st)"
| "filterPass env pp reg idx (m # ms) (proxiesSet, proxies) =
     (case takenName pp reg m of
        None \<Rightarrow> ebind (filterPass env pp reg (Suc idx) ms (proxiesSet, proxies)) (\<lambda>(ms1, st). Inr (m # ms1, st))
      | Some name \<Rightarrow>
          if name \<in> proxiesSet
          then ebind (filterPass env pp reg (Suc idx) ms (proxiesSet, proxies)) (\<lambda>(ms1, st). Inr (m # ms1, st))
          else ebind (overridden env pp idx m) (\<lambda>m1.
            ebind (created env idx m1) (\<lambda>p.
            ebind (filterPass env pp reg (Suc idx) ms (insert name proxiesSet, proxies @ [p])) (\<lambda>(ms1, st). Inr (m1 # ms1, st)))))"

definition filterAll :: "'p parserEnv \<Rightarrow> proxiesParser \<Rightarrow> vmap list \<Rightarrow> (vmap list \<times> string set \<times> 'p list) result" where
  "filterAll env pp ms =
     foldE (\<lambda>reg (ms1, st). filterPass env pp reg 0 ms1 st) (pp_filterRegs pp) (ms, {}, [])"

definition schemaProxies :: "'p parserEnv \<Rightarrow> string \<Rightarrow> vmap list option result" where
  "schemaProxies env buf = (case pe_Unmarshal env buf of
     Inr ms \<Rightarrow> Inr ms
   | Inl e \<Rightarrow> (case pe_ConvertsV2Ray env buf of Inl e1 \<Rightarrow> Inl (e @ '', '' @ e1) | Inr ms \<Rightarrow> Inr ms))"

definition parseProxies :: "'p parserEnv \<Rightarrow> proxiesParser \<Rightarrow> string \<Rightarrow> 'p list result" where
  "parseProxies env pp buf =
     (case pe_DecryptBytes env buf (pp_ageSecretKey pp) of
        Inl e \<Rightarrow> Inl (''decrypt config error: '' @ e)
      | Inr plain \<Rightarrow>
          ebind (schemaProxies env plain) (\<lambda>r. case r of
            None \<Rightarrow> Inl ''file must have a `proxies` field''
          | Some ms \<Rightarrow>
              ebind (filterAll env pp ms) (\<lambda>(_, _, proxies).
                if proxies = [] then
                  Inl (if pp_filter pp \<noteq> [] then ''doesn't match any proxy, please check your filter'' else ''file doesn't have any proxy'')
                else Inr proxies)))"

section \<open>Usage of a subscription\<close>

record SubscriptionInfo =
  si_Upload :: int
  si_Download :: int
  si_Total :: int
  si_Expire :: int

definition CutByte :: "string \<Rightarrow> char \<Rightarrow> (string \<times> string) option" where
  "CutByte s sep = (case dropWhile (\<lambda>c. c \<noteq> sep) s of [] \<Rightarrow> None | _ # r \<Rightarrow> Some (takeWhile (\<lambda>c. c \<noteq> sep) s, r))"

text \<open>\<open>parseValue\<close> of src/adapter/provider/subscription_info.go.\<close>

definition parseUsage :: "string \<Rightarrow> int option" where
  "parseUsage s = (case parseIntBase s 10 of Some n \<Rightarrow> Some n | None \<Rightarrow> map_option int_of_float (ParseFloat s))"

definition setField :: "string \<Rightarrow> int \<Rightarrow> SubscriptionInfo \<Rightarrow> SubscriptionInfo" where
  "setField name v si =
     (if name = ''upload'' then si\<lparr>si_Upload := v\<rparr>
      else if name = ''download'' then si\<lparr>si_Download := v\<rparr>
      else if name = ''total'' then si\<lparr>si_Total := v\<rparr>
      else if name = ''expire'' then si\<lparr>si_Expire := v\<rparr>
      else si)"

definition readField :: "string \<Rightarrow> SubscriptionInfo \<Rightarrow> SubscriptionInfo" where
  "readField field si = (case CutByte field (CHR ''='') of
     None \<Rightarrow> si
   | Some (name, v) \<Rightarrow> (case parseUsage v of None \<Rightarrow> si | Some n \<Rightarrow> setField name n si))"

definition NewSubscriptionInfo :: "overrideEnv \<Rightarrow> string \<Rightarrow> SubscriptionInfo" where
  "NewSubscriptionInfo env userinfo =
     (let s = filter (\<lambda>c. c \<noteq> CHR '' '') (if ascii userinfo then ToLower userinfo else UnicodeLower env userinfo)
      in fold readField (Split s (CHR '';'')) \<lparr>si_Upload = 0, si_Download = 0, si_Total = 0, si_Expire = 0\<rparr>)"

section \<open>A provider with one filter\<close>

text \<open>The positions of the mappings that are taken: the first of each name.\<close>

definition firstTaken :: "proxiesParser \<Rightarrow> (string \<Rightarrow> bool) \<Rightarrow> string set \<Rightarrow> vmap list \<Rightarrow> nat \<Rightarrow> bool" where
  "firstTaken pp reg seen ms i = (case takenName pp reg (ms ! i) of
     None \<Rightarrow> False
   | Some n \<Rightarrow> n \<notin> seen \<and> (\<forall>j<i. takenName pp reg (ms ! j) \<noteq> Some n))"

definition takeProxy :: "'p parserEnv \<Rightarrow> proxiesParser \<Rightarrow> nat \<Rightarrow> vmap \<Rightarrow> 'p result" where
  "takeProxy env pp i m = ebind (overridden env pp i m) (created env i)"

lemma firstTaken_Suc:
  "firstTaken pp reg seen (m # ms) (Suc i) =
    firstTaken pp reg (case takenName pp reg m of None \<Rightarrow> seen | Some n \<Rightarrow> insert n seen) ms i"
proof -
  have all: "(\<forall>j<Suc i. takenName pp reg ((m # ms) ! j) \<noteq> Some n) \<longleftrightarrow> takenName pp reg m \<noteq> Some n \<and> (\<forall>j<i. takenName pp reg (ms ! j) \<noteq> Some n)" for n
    by (auto simp: less_Suc_eq_0_disj)
  show ?thesis unfolding firstTaken_def nth_Cons_Suc all by (auto split: option.splits)
qed

lemma mapE_map: "mapE f (map g xs) = mapE (\<lambda>x. f (g x)) xs"
  by (induction xs) simp_all

lemma ebind_assoc [simp]: "ebind (ebind m f) g = ebind m (\<lambda>x. ebind (f x) g)"
  by (cases m) simp_all

definition proxiesOf :: "(vmap list \<times> string set \<times> 'p list) result \<Rightarrow> 'p list result" where
  "proxiesOf r = ebind r (\<lambda>(_, _, ps). Inr ps)"

lemma proxiesOf_simps [simp]: "proxiesOf (Inr (ms, seen, ps)) = Inr ps" "proxiesOf (Inl e) = Inl e"
  by (simp_all add: proxiesOf_def)

lemma pass_tail [simp]: "proxiesOf (ebind r (\<lambda>(ms, st). Inr (m # ms, st))) = proxiesOf r"
  by (cases r) auto

lemma filterPass_spec:
  "proxiesOf (filterPass env pp reg idx ms (seen, ps0)) =
    ebind (mapE (\<lambda>i. takeProxy env pp (idx + i) (ms ! i)) (filter (firstTaken pp reg seen ms) [0..<length ms])) (\<lambda>ps. Inr (ps0 @ ps))"
proof (induction ms arbitrary: idx seen ps0)
  case (Cons m ms)
  have split: "filter (firstTaken pp reg seen (m # ms)) [0..<length (m # ms)] =
      (if firstTaken pp reg seen (m # ms) 0 then [0] else []) @
      map Suc (filter (firstTaken pp reg (case takenName pp reg m of None \<Rightarrow> seen | Some n \<Rightarrow> insert n seen) ms) [0..<length ms])"
    by (simp add: upt_rec [of 0] map_Suc_upt [symmetric] filter_map comp_def firstTaken_Suc del: upt_Suc)
  consider "takenName pp reg m = None \<or> (\<exists>n\<in>seen. takenName pp reg m = Some n)"
    | n where "takenName pp reg m = Some n" "n \<notin> seen" by (cases "takenName pp reg m") auto
  then show ?case
  proof cases
    case 1
    then have "\<not> firstTaken pp reg seen (m # ms) 0"
      "(case takenName pp reg m of None \<Rightarrow> seen | Some n \<Rightarrow> insert n seen) = seen"
      "filterPass env pp reg idx (m # ms) (seen, ps0) = ebind (filterPass env pp reg (Suc idx) ms (seen, ps0)) (\<lambda>(ms1, st). Inr (m # ms1, st))"
      by (auto simp: firstTaken_def)
    then show ?thesis unfolding split by (simp add: pass_tail Cons.IH mapE_map)
  next
    case 2
    then have f: "firstTaken pp reg seen (m # ms) 0" by (simp add: firstTaken_def)
    show ?thesis
    proof (cases "takeProxy env pp idx m")
      case (Inl e)
      then show ?thesis unfolding split using f 2
        by (cases "overridden env pp idx m") (auto simp: takeProxy_def)
    next
      case (Inr p)
      then obtain m1 where "overridden env pp idx m = Inr m1" "created env idx m1 = Inr p" by (auto simp: takeProxy_def ebind_eq_Inr)
      then show ?thesis unfolding split using f 2 Inr by (simp add: pass_tail Cons.IH mapE_map)
    qed
  qed
qed simp

text \<open>
  C18. A provider whose filter is one regular expression, or none: the proxies are those of the mappings that
  pass the filters, in the order of the file, of several with the same name the first, each overridden
  and then created from its own mapping; the first mapping that cannot be is the error of the whole, and so
  is an empty result.
\<close>

theorem one_filter:
  assumes "NewProxiesParser env f xf xt dp ov key = Inr pp" "CHR ''`'' \<notin> set f"
    and "pe_DecryptBytes env buf key = Inr plain" "schemaProxies env plain = Inr (Some ms)"
  shows "\<exists>reg. pe_Compile env f = Some reg \<and>
    parseProxies env pp buf =
      ebind (mapE (\<lambda>i. takeProxy env pp i (ms ! i)) (filter (firstTaken pp reg {} ms) [0..<length ms])) (\<lambda>ps.
        if ps = [] then Inl (if f \<noteq> [] then ''doesn't match any proxy, please check your filter'' else ''file doesn't have any proxy'')
        else Inr ps)"
proof -
  obtain reg where r: "pe_Compile env f = Some reg" "pp_filterRegs pp = [reg]" "pp_filter pp = f" "pp_ageSecretKey pp = key"
    using assms(1) Split_no_sep [OF assms(2)]
    by (auto simp: NewProxiesParser_def compileAll_def ebind_eq_Inr split: if_splits option.splits)
  have "ebind (filterAll env pp ms) (\<lambda>(_, _, proxies). g proxies) = ebind (proxiesOf (filterPass env pp reg 0 ms ({}, []))) g"
    for g :: "'a list \<Rightarrow> 'a list result"
    using r(2) by (cases "filterPass env pp reg 0 ms ({}, [])") (auto simp: filterAll_def)
  then have "parseProxies env pp buf = ebind (proxiesOf (filterPass env pp reg 0 ms ({}, []))) (\<lambda>ps.
        if ps = [] then Inl (if f \<noteq> [] then ''doesn't match any proxy, please check your filter'' else ''file doesn't have any proxy'')
        else Inr ps)"
    using assms(3,4) r by (simp add: parseProxies_def)
  then show ?thesis using r(1) by (simp add: filterPass_spec)
qed

definition plainOverride :: overrideSchema where
  "plainOverride = \<lparr>os_TFO = None, os_MPTcp = None, os_UDP = None, os_UDPOverTCP = None, os_Up = None, os_Down = None, os_DialerProxy = None,
     os_SkipCertVerify = None, os_NameCertVerify = None, os_Interface = None, os_RoutingMark = None, os_IPVersion = None,
     os_AdditionalPrefix = Some ''p-'', os_AdditionalSuffix = None, os_ProxyName = [], os_OverrideExprs = []\<rparr>"

definition plainParserEnv :: "string parserEnv" where
  "plainParserEnv = \<lparr>pe_expr = plainEnv, pe_verb = (\<lambda>_. []), pe_Compile = (\<lambda>p. Some (\<lambda>s. Contains s p)), pe_VeritySecretKeys = (\<lambda>_. True),
     pe_DecryptBytes = (\<lambda>buf _. Inr buf), pe_Unmarshal = (\<lambda>_. Inr (Some [[(''name'', VString ''hk'')]])),
     pe_ConvertsV2Ray = (\<lambda>_. Inl ''no link''), pe_ParseProxy = (\<lambda>m. Inr (nameText (\<lambda>_. []) m))\<rparr>"

definition plainParser :: "string \<Rightarrow> proxiesParser result" where
  "plainParser f = NewProxiesParser plainParserEnv f [] [] [] plainOverride []"

theorem one_filter_witness:
  "\<exists>pp. plainParser ''h'' = Inr pp \<and> parseProxies plainParserEnv pp [] = Inr [''p-hk'']"
proof -
  obtain pp where pp: "plainParser ''h'' = Inr pp" "pp_excludeTypeArray pp = []" "pp_excludeFilterRegs pp = []" "pp_dialerProxy pp = []"
      "pp_override pp = plainOverride" "pp_filter pp = ''h''"
    by (simp add: plainParser_def NewProxiesParser_def compileAll_def plainParserEnv_def)
  have e: "pe_DecryptBytes plainParserEnv [] [] = Inr []" "schemaProxies plainParserEnv [] = Inr (Some [[(''name'', VString ''hk'')]])"
    by (simp_all add: plainParserEnv_def schemaProxies_def)
  obtain reg where r: "pe_Compile plainParserEnv ''h'' = Some reg"
    "parseProxies plainParserEnv pp [] = ebind (mapE (\<lambda>i. takeProxy plainParserEnv pp i ([[(''name'', VString ''hk'')]] ! i))
        (filter (firstTaken pp reg {} [[(''name'', VString ''hk'')]]) [0..<length [[(''name'', VString ''hk'')]]])) (\<lambda>ps.
        if ps = [] then Inl (if ''h'' \<noteq> [] then ''doesn't match any proxy, please check your filter'' else ''file doesn't have any proxy'') else Inr ps)"
    using one_filter [OF pp(1) [unfolded plainParser_def] _ e] by auto
  have "reg = (\<lambda>s. Contains s ''h'')" using r(1) by (simp add: plainParserEnv_def)
  then have f: "firstTaken pp reg {} [[(''name'', VString ''hk'')]] 0"
    using pp by (simp add: firstTaken_def takenName_def typeExcluded_def HasPrefix_def)
  have "takeProxy plainParserEnv pp 0 [(''name'', VString ''hk'')] = Inr ''p-hk''"
    using pp by (simp add: takeProxy_def overridden_def created_def overrideSchema_Apply_def setOptions_def putOption_def plainOverride_def
        addPrefix_def addSuffix_def nameText_def mget_def plainParserEnv_def)
  then show ?thesis using pp(1) r(2) f by simp
qed

text \<open>
  With two filters that both match, a proxy is taken twice: its mapping has been renamed in place by the first
  filter, so that the second finds a new name and overrides it again.
\<close>

lemma two_filters_duplicate:
  "\<exists>pp. plainParser ''h`k'' = Inr pp \<and> parseProxies plainParserEnv pp [] = Inr [''p-hk'', ''p-p-hk'']"
proof -
  obtain pp where pp: "plainParser ''h`k'' = Inr pp" "pp_excludeTypeArray pp = []" "pp_excludeFilterRegs pp = []" "pp_dialerProxy pp = []"
      "pp_override pp = plainOverride" "pp_filterRegs pp = [\<lambda>s. Contains s ''h'', \<lambda>s. Contains s ''k'']" "pp_ageSecretKey pp = []"
    by (simp add: plainParser_def NewProxiesParser_def compileAll_def plainParserEnv_def)
  have o: "overridden plainParserEnv pp i [(''name'', VString s)] = Inr [(''name'', VString (''p-'' @ s))]" for s i
    using pp by (simp add: overridden_def overrideSchema_Apply_def setOptions_def putOption_def plainOverride_def
        addPrefix_def addSuffix_def nameText_def mget_def plainParserEnv_def)
  have c: "created plainParserEnv i [(''name'', VString s)] = Inr s" for s i
    by (simp add: created_def plainParserEnv_def nameText_def mget_def)
  have t: "takenName pp reg [(''name'', VString s)] = (if pp_filter pp \<noteq> [] \<and> \<not> reg s then None else Some s)" for reg s
    using pp by (simp add: takenName_def typeExcluded_def)
  have "proxiesOf (filterAll plainParserEnv pp [[(''name'', VString ''hk'')]]) = Inr [''p-hk'', ''p-p-hk'']"
    using pp(6) by (simp add: filterAll_def t o c HasPrefix_def)
  then show ?thesis using pp(1,7)
    by (auto simp: parseProxies_def plainParserEnv_def schemaProxies_def proxiesOf_def ebind_eq_Inr)
qed

section \<open>Reported usage\<close>

definition numeral_char :: "char \<Rightarrow> bool" where
  "numeral_char c = (c = CHR ''-'' \<or> digit_val c \<noteq> None)"

lemma digits_val_chars: "digits_val a s = Some n \<Longrightarrow> list_all (\<lambda>c. digit_val c \<noteq> None) s"
  by (induction a s rule: digits_val.induct) (auto split: option.splits)

lemma FormatInt_chars: "list_all numeral_char (FormatInt n)"
proof -
  have "list_all numeral_char (FormatUint m)" if "0 \<le> m" for m
    using digits_val_chars [OF digits_val_FormatUint [OF that]] by (simp add: list_all_iff numeral_char_def)
  then show ?thesis by (simp add: FormatInt_def numeral_char_def)
qed

lemma digit_in_10: "digit_in 10 c = digit_val c"
  by (auto simp: digit_in_def hex_digit_def digit_val_def Let_def)

lemma fold_digits:
  "fold (\<lambda>c acc. case (acc, digit_in 10 c) of (Some a, Some d) \<Rightarrow> Some (a * 10 + d) | _ \<Rightarrow> None) s (Some a) = digits_val a s"
proof (induction s arbitrary: a)
  case (Cons c s)
  have "fold (\<lambda>c acc. case (acc, digit_in 10 c) of (Some a, Some d) \<Rightarrow> Some (a * 10 + d) | _ \<Rightarrow> None) s None = (None :: int option)"
    by (induction s) auto
  then show ?case using Cons by (cases "digit_val c") (simp_all add: digit_in_10 mult.commute)
qed simp

lemma FormatUint_unsigned: "0 \<le> n \<Longrightarrow> unsigned_part (FormatUint n) = FormatUint n \<and> hd (FormatUint n) \<noteq> CHR ''-''"
proof -
  assume "0 \<le> n"
  then have "list_all (\<lambda>c. digit_val c \<noteq> None) (FormatUint n)" using digits_val_FormatUint digits_val_chars by blast
  then show ?thesis by (cases "FormatUint n") (auto simp: unsigned_part_def digit_val_def)
qed

lemma parse_FormatInt:
  assumes "- (2 ^ 63) \<le> n" "n < 2 ^ 63"
  shows "parseIntBase (FormatInt n) 10 = Some n"
proof (cases "n < 0")
  case True
  then show ?thesis using assms FormatUint_unsigned [of "- n"]
    by (simp add: parseIntBase_def FormatInt_def fold_digits [simplified] digits_val_FormatUint unsigned_part_def [of "_ # _"] Let_def)
next
  case False
  then show ?thesis using assms FormatUint_unsigned [of n]
    by (simp add: parseIntBase_def FormatInt_def fold_digits [simplified] digits_val_FormatUint Let_def)
qed

lemma numeral_neutral:
  assumes "list_all numeral_char s"
  shows "ToLower s = s" "ascii s" "CHR '';'' \<notin> set s" "filter (\<lambda>c. c \<noteq> CHR '' '') s = s"
proof -
  have c: "lower_char c = c \<and> (of_char c :: int) < 128 \<and> c \<noteq> CHR '';'' \<and> c \<noteq> CHR '' ''" if "numeral_char c" for c
    using that by (auto simp: numeral_char_def lower_char_def digit_val_def Let_def split: if_splits)
  show "ToLower s = s" using assms c by (simp add: ToLower_def list_all_iff map_idI)
  show "ascii s" using assms c by (auto simp: ascii_def list_all_iff)
  show "CHR '';'' \<notin> set s" "filter (\<lambda>c. c \<noteq> CHR '' '') s = s" using assms c by (auto simp: list_all_iff filter_id_conv)
qed

lemma read_field: "CHR ''='' \<notin> set name \<Longrightarrow> - (2 ^ 63) \<le> n \<Longrightarrow> n < 2 ^ 63 \<Longrightarrow> readField (name @ CHR ''='' # FormatInt n) si = setField name n si"
proof -
  assume n: "CHR ''='' \<notin> set name" "- (2 ^ 63) \<le> n" "n < 2 ^ 63"
  then have "CutByte (name @ CHR ''='' # FormatInt n) (CHR ''='') = Some (name, FormatInt n)" by (induction name) (auto simp: CutByte_def split: list.splits)
  then show ?thesis using n(2,3) by (simp add: readField_def parseUsage_def parse_FormatInt)
qed

definition userinfoText :: "SubscriptionInfo \<Rightarrow> string" where
  "userinfoText si = ''upload='' @ FormatInt (si_Upload si) @ ''; download='' @ FormatInt (si_Download si)
     @ ''; total='' @ FormatInt (si_Total si) @ ''; expire='' @ FormatInt (si_Expire si)"

lemma ascii_append: "ascii (s @ t) \<longleftrightarrow> ascii s \<and> ascii t"
  by (simp add: ascii_def)

text \<open>
  The usage that a subscription reports in its header, upload, download, total and expiry as 64-bit
  integers in the usual form, is read as exactly these numbers.
\<close>

theorem subscription_roundtrip:
  assumes "\<forall>n\<in>{si_Upload si, si_Download si, si_Total si, si_Expire si}. - (2 ^ 63) \<le> n \<and> n < 2 ^ 63"
  shows "NewSubscriptionInfo env (userinfoText si) = si"
proof -
  note N = numeral_neutral [OF FormatInt_chars]
  let ?f = "\<lambda>name n. name @ CHR ''='' # FormatInt n"
  let ?s = "?f ''upload'' (si_Upload si) @ CHR '';'' # ?f ''download'' (si_Download si) @ CHR '';'' # ?f ''total'' (si_Total si) @ CHR '';'' # ?f ''expire'' (si_Expire si)"
  have a: "ascii (userinfoText si)" unfolding userinfoText_def ascii_append by (simp add: N) (simp add: ascii_def)
  have l: "ToLower (userinfoText si) = userinfoText si" unfolding userinfoText_def ToLower_append N by (simp add: ToLower_def lower_char_def)
  have f: "filter (\<lambda>c. c \<noteq> CHR '' '') (userinfoText si) = ?s" unfolding userinfoText_def filter_append N by simp
  have no: "CHR '';'' \<notin> set (?f ''upload'' n)" "CHR '';'' \<notin> set (?f ''download'' n)" "CHR '';'' \<notin> set (?f ''total'' n)" "CHR '';'' \<notin> set (?f ''expire'' n)" for n
    using N(3) by simp_all
  have sp: "Split ?s (CHR '';'') = [?f ''upload'' (si_Upload si), ?f ''download'' (si_Download si), ?f ''total'' (si_Total si), ?f ''expire'' (si_Expire si)]"
    by (simp only: Split_append_sep [OF no(1)] Split_append_sep [OF no(2)] Split_append_sep [OF no(3)] Split_no_sep [OF no(4)])
  show ?thesis unfolding NewSubscriptionInfo_def Let_def if_P [OF a] l f sp
    using assms by (simp add: read_field setField_def del: append_Cons append_Nil)
qed

theorem subscription_roundtrip_witness:
  "NewSubscriptionInfo plainEnv (userinfoText \<lparr>si_Upload = 1, si_Download = - 2, si_Total = 3, si_Expire = 9223372036854775807\<rparr>)
    = \<lparr>si_Upload = 1, si_Download = - 2, si_Total = 3, si_Expire = 9223372036854775807\<rparr>"
  by (rule subscription_roundtrip) simp

end
