(* ===== verification/Spec2Isabelle.thy ===== *)
theory Spec2Isabelle
  imports Tunnel LruHeap Dns GroupSort GroupOffers MrsFormat ProviderParser
begin

text \<open>
  A verification development of the proxy kernel (src/): the decisions a connection passes through
  from the moment it is accepted until an outbound is chosen, and the tables those decisions read.

  \<^bold>\<open>The program.\<close> A listener hands a connection with its metadata to the tunnel
  (src/tunnel/tunnel.go). The tunnel cleans the metadata (an IPv4 address in IPv6 form, a fake
  address that the DNS front end handed out, a name from the hosts table), walks the rules of the
  configuration until one accepts, and takes the outbound that rule names; an outbound may ask for
  another round with other metadata. An outbound may be a proxy group, which chooses one of the
  proxies its providers offer by the health the checks have measured. The DNS front end answers from
  the hosts table, from the fake-IP pool, from a cache or from name servers chosen by policy.

  \<^bold>\<open>Theories and sources.\<close>
  \<^item> Go_Prelude, Netip: what the code uses of Go and its library: integers of fixed width, strings as
    bytes with the functions of strings and strconv, net/netip addresses and prefixes.
  \<^item> Metadata: src/constant (enumerations with their text forms, the record of a connection), the mode
    and status of the tunnel.
  \<^item> Wildcard: src/component/wildcard. IntRanges: src/common/utils/range.go and ranges.go.
  \<^item> Rules: src/rules/common, src/rules/logic, src/rules/wrapper and the matching part of
    src/rules/provider. RuleParser: src/rules/parser.go, the grammar of logic rules, and parseRules,
    parseSubRules and verifySubRule of src/config/config.go.
  \<^item> DomainTrie: src/component/trie/domain.go and node.go. Hosts: src/component/resolver/host.go and
    parseHosts of src/config/config.go.
  \<^item> DomainSet, DomainSetTrie, DomainSetMatch, DomainSetKeys: src/component/trie/domain_set.go, the succinct
    form of a trie. RuleFiles, MrsFormat: the files of rule providers (src/rules/provider, the binary form
    in src/component/trie/domain_set_bin.go, src/component/cidr).
  \<^item> LruCache, LruHeap: src/common/lru, as a list of entries and with the map and the list on a heap. FakeIP: src/component/fakeip/pool.go and memory.go. Dns:
    src/component/fakeip/skipper.go and src/dns (enhancer, middleware, policy, resolver, util).
  \<^item> GroupSort: src/config/utils.go (the order of the proxy groups, dialer-proxy references).
  \<^item> ProxyHealth: src/adapter/adapter.go, src/common/queue, src/common/singledo,
    src/adapter/provider/healthcheck.go and the base provider of provider.go. JumpHash, ProxyGroups:
    src/adapter/outboundgroup. GroupOffers: the behaviour of the groups over many calls.
  \<^item> Float64: the type float64 of Go. OverrideValue, OverrideLex, OverrideExpr, OverrideParser:
    src/adapter/provider/override_expr.go, the language in which the proxies of a provider are rewritten (values and operators,
    lexer, evaluation and statements, parser); OverrideTotal, OverrideProps, OverrideWf, OverrideFacts: what is shown of it, over
    FloatFacts, the exact part of float64.
    ProviderParser: src/adapter/provider/override.go, subscription_info.go and NewProxiesParser of provider.go.
  \<^item> Tunnel: src/tunnel/tunnel.go and src/adapter/outbound/rematch.go.

  A Go struct is a record and keeps the names of its fields, with a prefix where two would clash; an
  enumeration is a datatype; a method is a function that takes the receiver last and returns it updated.
  An error is the left case of a sum; a panic and a call that does not return are the cases \<open>Panic\<close> and
  \<open>Diverge\<close> of \<open>outcome\<close>, or \<open>None\<close> in a partial function. A Go map is an association list with distinct
  keys where code iterates over it, and the order of the iteration is then an argument or shown to be
  irrelevant. Proxies and providers are shared between groups and live in heaps. The clock is an argument,
  in nanoseconds where the code compares below the second (Dns).

  \<^bold>\<open>What is shown.\<close>
  \<^item> Routing ends with a decision: rules that the parser accepted can be matched without divergence
    (RuleParser, Rules), a pass over the rules gives the decision of the first rule that is
    not passed over, described by the layers of its outbound, and the tunnel terminates through all
    re-matching rounds (Tunnel), matching changes no field it should not change, and caching of
    looked-up countries cannot be observed.
  \<^item> Fake addresses are transparent: the pool is a bijection between names and addresses as long as it
    has room, and a connection to the IPv4 address the DNS front end gave out reaches the tunnel with the
    name that was asked for (FakeIP, Dns, and \<open>fake_ip_transparent\<close> below).
  \<^item> The lookup structures meet their specifications: the wildcard matcher equals the textbook recursion,
    the trie answers what the inserted patterns say, merged ranges accept the same numbers, the map and
    the list of an LRU cache stay in step and act as one bounded list under every sequence of calls of the
    cache (\<open>CloneTo\<close>, which may exceed the bound, is treated apart), and cached DNS answers come back
    with reduced lifetimes.
  \<^item> Rule files: the succinct set contains what the trie it was built from finds, as long as no pattern has
    a star label, and its traversal gives the keys back; a text file of domains means its lines;
    conversion to MRS and back loses nothing, and a file that was cut off is refused.
  \<^item> The configuration is ordered and checked: proxy groups are sorted exactly when they are not
    circular, a loop is reported by its members, and dialer references are accepted exactly when acyclic.
  \<^item> Proxy groups: no operation on a parsed group panics, the cached list of proxies is never stale, the
    url-test group chooses the fastest within its tolerance, the fallback group the first alive, round
    robin reaches every live proxy, a session sticks for ten minutes as long as the session cache has
    room for it, the outcome of a health check, for the urls it tests, does
    not depend on the order in which its tests end, and what a proxy reports is what its last tests said.
  \<^item> Override expressions: the parser returns on every text, an assignment or a deletion touches the place
    it names and no other, every expression the parser accepts keeps mappings in their form, a quoted text
    stands for exactly its characters, sorting puts scalars in the order of their types and values, entries are read back, and integers below
    2 ^ 53 are exact. A provider with one filter gives the proxies that pass it, in the order of the file,
    and the reported usage is read back.
  \<^item> Where the code does not do what it means to, a theorem states what it does (for instance
    \<open>self_reference_diverges\<close>, \<open>self_alias_diverges\<close>, \<open>fallback_skips_alive\<close>, \<open>sticky_stale_position\<close>,
    \<open>two_filters_duplicate\<close>, \<open>no_match_leaks\<close>).

  \<^bold>\<open>Interfaces.\<close> The store of the fake-IP pool is the locale \<open>fake_store\<close>, interpreted by the in-memory
  store; the strategies of the load balancer are \<open>balance_strategy\<close> and \<open>alive_strategy\<close>, interpreted by
  the three strategies of the code. The locale \<open>container\<close> says what reading and updating a place of a
  value means for paths; mappings and arrays of override expressions interpret it.

  \<^bold>\<open>Bounds.\<close> Matching takes the depth of references between rule sets and sub-rules as fuel;
  \<open>config_rules_terminate\<close> shows that the number of sub-rules plus two is enough for a checked
  configuration. The re-matching loop has one round more than there are rematch names, because the code
  itself refuses a name seen before. The loops of GroupSort are bounded by the number of nodes of the
  graph, which each round shrinks. The parser of override expressions is unrolled to the length of the
  source, and its loops to the number of tokens left; \<open>NewOverrideExpr_returns\<close> shows that both are enough. Loops that can run forever are partial functions, and that they return
  is proved where it holds.

  \<^bold>\<open>Parameters.\<close> Regular expressions, the YAML encoder, case tables outside ASCII, decryption and the creation of a proxy from its mapping, geo databases, the public suffix list, the seeded string hash, YAML
  decoding, compression, the rank and select indexes of a bitmap, ranges of addresses (netipx), the system's hosts and interfaces, DNS exchange (over a world that each exchange changes), dialling and HTTP requests, random choice, the member an outbound unwraps to and
  its UDP support during one match.

  \<^bold>\<open>Values.\<close> An override expression works on values with a copy each; the code shares them in two places,
  which OverrideExpr names. A mapping that an expression changes is changed for later readers, as in the code.

  \<^bold>\<open>Not modelled.\<close> Relaying of bytes, UDP sessions and statistics of the tunnel; the outbound protocols
  and transports and the listeners, which are input/output over third-party packages; the DNS clients, the
  race between name servers and single flight; the bbolt store; the fetching of providers; the REST API.
\<close>

section \<open>Fake addresses from the name server to the tunnel\<close>

lemma pool_fields [simp]:
  "ipnet (snd (Lookup ops h p)) = ipnet p" "gateway (snd (Lookup ops h p)) = gateway p"
  "pool_first (snd (Lookup ops h p)) = pool_first p" "pool_last (snd (Lookup ops h p)) = pool_last p"
  by (simp_all add: Lookup_def Let_def pool_get_eq split: option.split)

lemma pool_step_fields:
  "ipnet (pool_step x p) = ipnet p \<and> gateway (pool_step x p) = gateway p
   \<and> pool_first (pool_step x p) = pool_first p \<and> pool_last (pool_step x p) = pool_last p"
proof (cases x)
  case (Pair now oper)
  show ?thesis unfolding Pair
    by (cases oper) (simp_all add: LookBack_def FlushFakeIP_def Let_def)
qed

lemma pool_steps_fields:
  "ipnet (fold pool_step xs p) = ipnet p \<and> gateway (fold pool_step xs p) = gateway p
   \<and> pool_first (fold pool_step xs p) = pool_first p \<and> pool_last (fold pool_step xs p) = pool_last p"
  by (induction xs arbitrary: p) (simp_all add: pool_step_fields)

text \<open>Everything from the network address of an IPv4 prefix to its last address is inside it.\<close>

lemma PrefixContains_between:
  assumes "Is4 (pfx_addr net)" "Is4 a" "Is4 l" "PrefixContains net l"
    and "addr_val (Masked net) \<le> addr_val a" "addr_val a \<le> addr_val l"
  shows "PrefixContains net a"
proof -
  from assms(1-3) obtain w v u where a: "pfx_addr net = Addr4 w" "a = Addr4 v" "l = Addr4 u"
    by (cases "pfx_addr net"; cases a; cases l) auto
  let ?k = "32 - pfx_bits net"
  have m: "drop_bit ?k x \<le> drop_bit ?k y" if "uint x \<le> uint y" for x y :: u32
  proof -
    have "uint (drop_bit ?k z) = uint z div 2 ^ ?k" for z :: u32
      by (simp only: unsigned_drop_bit_eq) (simp add: drop_bit_eq_div take_bit_eq_mod uint_lt2p [of z, simplified])
    then show ?thesis using that by (simp add: word_le_def zdiv_mono1)
  qed
  have "drop_bit ?k (push_bit ?k (drop_bit ?k w)) = drop_bit ?k w"
    by (rule bit_word_eqI) (auto simp: bit_simps dest: bit_imp_le_length)
  with m [of "push_bit ?k (drop_bit ?k w)" v] m [of v u] assms(4-6) a
  show ?thesis by (simp add: Masked_def)
qed


lemma NewPool_fields:
  assumes "NewPool PrefixLastIP (memory_ops t) (newMemoryStore sz) net = Inr p"
  shows "ipnet p = net" "IsValid (Next (Next (Next (Next (Masked net)))))"
    "gateway p = Next (Masked net)" "pool_first p = Next (Next (Next (Next (Masked net))))"
    "pool_last p = PrefixLastIP net"
  using assms by (auto simp: NewPool_def Let_def restoreState_def memory_ops_def split: if_splits)

lemma Next_vals:
  assumes "IsValid (Next (Next (Next (Next a))))"
  shows "addr_val (Next (Next (Next (Next a)))) = addr_val a + 4" "addr_val (Next a) = addr_val a + 1"
  using assms IsValid_NextD [OF assms] IsValid_NextD [OF IsValid_NextD [OF assms]]
    IsValid_NextD [OF IsValid_NextD [OF IsValid_NextD [OF assms]]]
  by (simp_all add: addr_val_Next)

text \<open>An address the pool hands out is recognised as a fake address.\<close>

lemma fake_in_range:
  assumes "in_range p a" "ipnet p = net" "gateway p = Next (Masked net)"
    and "pool_first p = Next (Next (Next (Next (Masked net))))" "pool_last p = PrefixLastIP net"
    and "last_ip_ok PrefixLastIP net" "PrefixContains net (PrefixLastIP net)" "Is4 (pfx_addr net)"
    and v: "IsValid (Next (Next (Next (Next (Masked net)))))"
  shows "fake_in a p"
proof -
  note val = Next_vals [OF v]
  have f4: "BitLen (Next (Next (Next (Next (Masked net))))) = 32"
    using v assms(8) by (cases "pfx_addr net") (auto simp: Masked_def split: if_splits)
  have a: "BitLen a = 32" "addr_val (Masked net) + 4 \<le> addr_val a" "addr_val a < addr_val (PrefixLastIP net)"
    using assms(1,4,5) f4 val by (auto simp: in_range_def)
  have "Is4 a" "Is4 (PrefixLastIP net)"
    using a(1) assms(6,8) by (cases a; cases "PrefixLastIP net"; cases "pfx_addr net"; auto simp: last_ip_ok_def)+
  then have "PrefixContains net a"
    using a by (intro PrefixContains_between [OF assms(8) _ _ assms(7)]) auto
  moreover have "a \<noteq> Next (Masked net)" "a \<noteq> PrefixLastIP net" using a val by auto
  ultimately show ?thesis using assms(2,3,5) by (simp add: fake_in_def IPNet_def Gateway_def Broadcast_def)
qed

text \<open>
  C2. The fake-IP mode is transparent for IPv4. With an IPv4 pool that keeps its entries in memory, the
  name server answers an A question for a host that is in no hosts table and is not skipped with one
  address of the pool; and when a connection to that address reaches the tunnel, as long as the pool has
  not been changed in between, its metadata gets the host back, in lower case, and no destination
  address, so that the rules see the host the client asked for. The message library keeps the answer
  section when it sets the reply code.
\<close>

theorem fake_ip_transparent:
  assumes pool: "NewPool PrefixLastIP (memory_ops t) (newMemoryStore sz) net = Inr p0"
      "last_ip_ok PrefixLastIP net" "PrefixContains net (PrefixLastIP net)" "Is4 (pfx_addr net)"
    and h: "e_mode h = DNSFakeIP" "fakeIPPool h = Some (fold pool_step ops p0)"
      "fakeIPSkipper h = Some sk" "ShouldSkipped n env sk (TrimRight_dots (q_Name q)) = Ret False"
    and r: "m_Question r = q # qs" "q_Qtype q = TypeA" "isIPRequest q"
      "hostsSearch (de_systemHosts de) (de_hosts de) (TrimRight_dots (q_Name q)) False = Some (None, False)"
    and lib: "\<And>msg r c. m_Answer (SetRcode de msg r c) = m_Answer msg"
    and te: "te_MappingEnabled te = MappingEnabled h"
  shows "\<exists>msg h1 a. newHandler n env de (memory_ops now) h r h = Ret (Inr msg, h1) \<and> msgToIP msg = [a]
    \<and> IsFakeIP h1 a
    \<and> preHandleMetadata (te\<lparr>te_IsFakeIP := IsFakeIP h1,
          te_FindHostByIP := \<lambda>ip. fst (FindHostByIP (memory_ops later) later ip h1)\<rparr>)
        (m\<lparr>md_Host := [], md_DstIP := a\<rparr>)
      = Ret (None, m\<lparr>md_Host := ToLower (TrimRight_dots (q_Name q)), md_DstIP := AddrInvalid,
          md_DNSMode := DNSFakeIP\<rparr>)"
proof -
  let ?host = "TrimRight_dots (q_Name q)" and ?p = "fold pool_step ops p0"
  let ?l = "Lookup (memory_ops now) ?host ?p"
  let ?a = "fst ?l" and ?h1 = "h\<lparr>fakeIPPool := Some (snd ?l)\<rparr>"
  have p: "pool_inv mem_inv mem_host_of ?p"
    using NewPool_inv [OF pool(1,2)] by (intro pool_steps_inv) simp
  note L = mem.Lookup_spec [OF p, of now ?host]
  have rng: "in_range (snd ?l) ?a" using L by (auto simp: pool_inv_def)
  note N = NewPool_fields [OF pool(1)]
  have fields: "ipnet (snd ?l) = net" "gateway (snd ?l) = Next (Masked net)"
    "pool_first (snd ?l) = Next (Next (Next (Next (Masked net))))" "pool_last (snd ?l) = PrefixLastIP net"
    using N pool_steps_fields [of ops p0] by simp_all
  have fake: "fake_in ?a (snd ?l)"
    using fake_in_range [OF rng fields pool(2-4)] N(2) by simp
  have a4: "Is4 ?a"
    using rng fields pool(4) N(2) by (cases ?a; cases "pfx_addr net") (auto simp: in_range_def Masked_def split: if_splits)
  let ?msg = "fakeAnswer de h r (RR_A (dns_header (q_Name q) TypeA dnsDefaultTTL) (AsSlice ?a))"
  have H: "newHandler n env de (memory_ops now) h r h = Ret (Inr ?msg, ?h1)"
    using h r by (simp add: newHandler_def compose_def withHosts_def withFakeIP_def Let_def)
  have "AddrFromSlice (AsSlice ?a) = ?a" by (rule AddrFromSlice_AsSlice) (use a4 in \<open>cases ?a; simp\<close>)+
  then have M: "msgToIP ?msg = [?a]"
    using a4 by (cases ?a) (simp_all add: msgToIP_def fakeAnswer_def answered_def lib setMsgTTL_def rr_addr_def set_ttl_def)
  have F: "IsFakeIP ?h1 ?a" using fake h(1) by (simp add: IsFakeIP_def FakeIPEnabled_def in_pool_def)
  have B: "fst (FindHostByIP (memory_ops later) later ?a ?h1) = Some (ToLower ?host)"
    using L mem.LookBack_spec [of "snd ?l" later ?a]
    by (simp add: FindHostByIP_def pool_LookBack_def Let_def)
  have v: "IsValid ?a" using a4 by (cases ?a) simp_all
  have "preHandleMetadata (te\<lparr>te_IsFakeIP := IsFakeIP ?h1,
          te_FindHostByIP := \<lambda>ip. fst (FindHostByIP (memory_ops later) later ip ?h1)\<rparr>)
        (m\<lparr>md_Host := [], md_DstIP := ?a\<rparr>)
      = Ret (None, m\<lparr>md_Host := ToLower ?host, md_DstIP := AddrInvalid, md_DNSMode := DNSFakeIP\<rparr>)"
    using F B v te h(1) by (simp add: preHandleMetadata_def needLookupIP_def MappingEnabled_def)
  with H M F show ?thesis by blast
qed


theorem fake_ip_transparent_witness:
  "\<exists>msg h1 a. newHandler 0 example_env example_denv (memory_ops 0) example_enhancer
        (example_query ''Example.com.'') example_enhancer = Ret (Inr msg, h1)
    \<and> msgToIP msg = [a] \<and> IsFakeIP h1 a
    \<and> preHandleMetadata (example_tenv\<lparr>te_IsFakeIP := IsFakeIP h1,
          te_FindHostByIP := \<lambda>ip. fst (FindHostByIP (memory_ops 9) 9 ip h1)\<rparr>)
        (empty_metadata\<lparr>md_Host := [], md_DstIP := a\<rparr>)
      = Ret (None, empty_metadata\<lparr>md_Host := ''example.com'', md_DstIP := AddrInvalid,
          md_DNSMode := DNSFakeIP\<rparr>)"
proof -
  let ?q = "\<lparr>q_Name = ''Example.com.'', q_Qtype = TypeA, q_Qclass = ClassINET\<rparr>"
  have net: "PrefixContains example_net (example_last example_net)" "Is4 (pfx_addr example_net)" by code_simp+
  have h: "e_mode example_enhancer = DNSFakeIP"
    "fakeIPPool example_enhancer = Some (fold pool_step [] example_pool)"
    "fakeIPSkipper example_enhancer
      = Some \<lparr>sk_Rules = [], sk_Host = [\<lambda>d. d = ''lan''], sk_Mode = FilterBlackList\<rparr>"
    by (simp_all add: example_enhancer_def NewEnhancer_def)
  have t: "TrimRight_dots (q_Name ?q) = ''Example.com''" "ToLower ''Example.com'' = ''example.com''" by code_simp+
  have sk: "ShouldSkipped 0 example_env \<lparr>sk_Rules = [], sk_Host = [\<lambda>d. d = ''lan''], sk_Mode = FilterBlackList\<rparr>
      (TrimRight_dots (q_Name ?q)) = Ret False"
    unfolding t by (simp add: ShouldSkipped_def skipper_shouldSkipped_def)
  have r: "m_Question (example_query ''Example.com.'') = [?q]" "q_Qtype ?q = TypeA" "isIPRequest ?q"
    by (simp_all add: example_query_def isIPRequest_def)
  have "Search example_hosts ''Example.com'' = None" by code_simp
  then have hs: "hostsSearch (de_systemHosts example_denv) (de_hosts example_denv) (TrimRight_dots (q_Name ?q)) False
      = Some (None, False)"
    unfolding t by (simp add: hostsSearch_def example_denv_def value_of_def)
  have lib: "m_Answer (SetRcode example_denv msg r c) = m_Answer msg" for msg r c
    by (simp add: example_denv_def)
  have te: "te_MappingEnabled example_tenv = MappingEnabled example_enhancer"
    by (simp add: example_tenv_def MappingEnabled_def h(1))
  show ?thesis
    using fake_ip_transparent [OF example_NewPool example_last_ok net h sk r hs lib te,
        where now = 0 and later = 9 and m = empty_metadata] unfolding t .
qed

end
